(* ===== verification/Prelude.thy ===== *)
theory Prelude
  imports Main "HOL-Library.Monad_Syntax" "HOL-Library.Word" "HOL-Library.Signed_Division"
begin

text \<open>
  Shared vocabulary of the development.

  A C++ function that can fail an \<^verbatim>\<open>assert\<close> (or an LLVM precondition) is a function
  into \<^typ>\<open>'a option\<close>: \<^term>\<open>None\<close> is the aborted run. \<open>assert_that\<close> is the assertion
  statement and \<open>returns m P\<close> says that \<open>m\<close> does not abort and that its result satisfies
  \<open>P\<close>; the rules collected in \<open>returns_intros\<close> push it through the monadic code of the
  components, as a weakest-precondition calculus would.

  The second half holds the facts on fixed-width integers (HOL's \<^const>\<open>take_bit\<close>,
  \<^const>\<open>signed_take_bit\<close>) that more than one component uses.
\<close>

unbundle bit_operations_syntax

named_theorems returns_intros "rules that decompose a total-correctness goal"
named_theorems widths "widths of expressions"
named_theorems evals "values of expressions"
named_theorems wfs "well-formedness of expressions"

subsection \<open>Aborting code\<close>

definition assert_that :: "bool \<Rightarrow> unit option" where
  "assert_that b = (if b then Some () else None)"

definition returns :: "'a option \<Rightarrow> ('a \<Rightarrow> bool) \<Rightarrow> bool" where
  "returns m P = (case m of None \<Rightarrow> False | Some x \<Rightarrow> P x)"

lemma assert_that_simps [simp]:
  "assert_that True = Some ()" "assert_that False = None"
  by (simp_all add: assert_that_def)

lemma assert_that_eq_Some [simp]: "(assert_that b = Some u) = b"
  by (simp add: assert_that_def)

lemma returns_simps [simp]:
  "returns (Some x) P = P x" "returns None P = False"
  by (simp_all add: returns_def)

lemma returns_iff: "returns m P \<longleftrightarrow> (\<exists>x. m = Some x \<and> P x)"
  by (cases m) simp_all

lemma returnsE:
  assumes "returns m P"
  obtains x where "m = Some x" "P x"
  using assms by (auto simp: returns_iff)

lemma returns_mono: "returns m P \<Longrightarrow> (\<And>x. m = Some x \<Longrightarrow> P x \<Longrightarrow> Q x) \<Longrightarrow> returns m Q"
  by (auto simp: returns_iff)

lemma returns_bind_iff: "returns (m \<bind> f) P \<longleftrightarrow> returns m (\<lambda>x. returns (f x) P)"
  by (cases m) simp_all

lemma returns_bind [returns_intros]:
  "returns m (\<lambda>x. returns (f x) P) \<Longrightarrow> returns (m \<bind> f) P"
  by (simp add: returns_bind_iff)

lemma returns_assert [returns_intros]: "b \<Longrightarrow> P () \<Longrightarrow> returns (assert_that b) P"
  by simp

lemma returns_if [returns_intros]:
  "(b \<Longrightarrow> returns m P) \<Longrightarrow> (\<not> b \<Longrightarrow> returns n P) \<Longrightarrow> returns (if b then m else n) P"
  by simp

lemma returns_SomeI [returns_intros]: "P x \<Longrightarrow> returns (Some x) P"
  by simp

lemma returns_conjI: "returns m P \<Longrightarrow> returns m Q \<Longrightarrow> returns m (\<lambda>x. P x \<and> Q x)"
  by (auto simp: returns_iff)

lemma Some_eq_bind_conv: "Some x = m \<bind> f \<longleftrightarrow> (\<exists>y. m = Some y \<and> f y = Some x)"
  by (auto simp: bind_eq_Some_conv dest: sym)

lemmas bind_Some = bind_eq_Some_conv Some_eq_bind_conv

text \<open>A loop over a list whose body may abort.\<close>

fun fold_abort :: "('a \<Rightarrow> 's \<Rightarrow> 's option) \<Rightarrow> 'a list \<Rightarrow> 's \<Rightarrow> 's option" where
  "fold_abort f [] s = Some s"
| "fold_abort f (x # xs) s = f x s \<bind> fold_abort f xs"

lemma returns_fold_abort:
  assumes "I [] s"
    and "\<And>ys x s. set (ys @ [x]) \<subseteq> set xs \<Longrightarrow> I ys s \<Longrightarrow> returns (f x s) (I (ys @ [x]))"
  shows "returns (fold_abort f xs s) (I xs)"
proof -
  have "returns (fold_abort f zs s) (I (ys @ zs))"
    if "I ys s" "set (ys @ zs) \<subseteq> set xs" for ys zs s
    using that
  proof (induction zs arbitrary: ys s)
    case Nil
    then show ?case by simp
  next
    case (Cons z zs)
    have "returns (f z s) (I (ys @ [z]))"
      using Cons.prems by (intro assms(2)) auto
    then obtain s' where s': "f z s = Some s'" "I (ys @ [z]) s'"
      by (rule returnsE)
    with Cons.IH [of "ys @ [z]" s'] Cons.prems show ?case by simp
  qed
  from this [of "[]" s xs] assms(1) show ?thesis by simp
qed

subsection \<open>Values of a given width\<close>

text \<open>
  A \<open>w\<close>-bit value is an integer between 0 and \<open>2 ^ w\<close>; \<open>fits w v\<close> says so.
\<close>

definition fits :: "nat \<Rightarrow> int \<Rightarrow> bool" where
  "fits w v \<longleftrightarrow> 0 \<le> v \<and> v < 2 ^ w"

lemma fits_iff_take_bit: "fits w v \<longleftrightarrow> take_bit w v = v"
  by (simp add: fits_def take_bit_int_eq_self_iff)

lemma fits_take_bit [simp]: "fits w (take_bit w v)"
  by (simp add: fits_iff_take_bit)

lemma take_bit_fits [simp]: "fits w v \<Longrightarrow> take_bit w v = v"
  by (simp add: fits_iff_take_bit)

lemma fits_nonneg: "fits w v \<Longrightarrow> 0 \<le> v"
  by (simp add: fits_def)

lemma fits_less: "fits w v \<Longrightarrow> v < 2 ^ w"
  by (simp add: fits_def)

lemma fits_mono: "fits w v \<Longrightarrow> w \<le> w' \<Longrightarrow> fits w' v"
  by (auto simp: fits_def intro: less_le_trans power_increasing)

lemma fits_0 [simp]: "fits w 0"
  by (simp add: fits_def)

lemma fits_1 [simp]: "fits w 1 \<longleftrightarrow> 0 < w"
  by (cases "w = 0") (auto simp: fits_def)

lemma fits_of_bool [simp]: "0 < w \<Longrightarrow> fits w (of_bool b)"
  by (cases b) auto

lemma fits_bool_cases: "fits (Suc 0) v \<Longrightarrow> v = 0 \<or> v = 1"
  by (auto simp: fits_def)

lemma fits_and [simp]: "fits w a \<Longrightarrow> fits w b \<Longrightarrow> fits w (a AND b)"
  by (metis fits_iff_take_bit take_bit_and)

lemma fits_or [simp]: "fits w a \<Longrightarrow> fits w b \<Longrightarrow> fits w (a OR b)"
  by (metis fits_iff_take_bit take_bit_or)

lemma fits_xor [simp]: "fits w a \<Longrightarrow> fits w b \<Longrightarrow> fits w (a XOR b)"
  by (metis fits_iff_take_bit take_bit_xor)

lemma fits_drop_bit [simp]: "fits w a \<Longrightarrow> fits w (drop_bit n a)"
  unfolding fits_def
  by (metis (no_types) drop_bit_nonnegative_int_iff div_by_1 drop_bit_eq_div
      int_one_le_iff_zero_less le_less_trans zdiv_mono2
      zero_less_numeral zero_less_one zero_less_power)

end
