(* ===== verification/Ints.thy ===== *)
theory Ints
  imports Prelude
begin

text \<open>
  Fixed-width integers of the program.

  The arithmetic of \<open>w\<close>-bit integers of arbitrary width (the values a constant
  expression holds), as integers with the wrap-around written out: the signed operations
  read a value in two's complement, division truncates towards zero, and a shift by the
  width or more shifts every bit out.
\<close>

subsection \<open>Arithmetic of a given width\<close>

definition ap_signed :: "nat \<Rightarrow> int \<Rightarrow> int" where
  "ap_signed w v = (if w = 0 then 0 else signed_take_bit (w - 1) v)"

definition ap_shl :: "nat \<Rightarrow> int \<Rightarrow> int \<Rightarrow> int" where
  "ap_shl w a b = (if int w \<le> b then 0 else take_bit w (push_bit (nat b) a))"

definition ap_lshr :: "nat \<Rightarrow> int \<Rightarrow> int \<Rightarrow> int" where
  "ap_lshr w a b = (if int w \<le> b then 0 else drop_bit (nat b) a)"

definition ap_ashr :: "nat \<Rightarrow> int \<Rightarrow> int \<Rightarrow> int" where
  "ap_ashr w a b = take_bit w (drop_bit (min w (nat b)) (ap_signed w a))"

definition ap_sext :: "nat \<Rightarrow> nat \<Rightarrow> int \<Rightarrow> int" where
  "ap_sext w w' v = take_bit w' (ap_signed w v)"

definition ap_sdiv :: "nat \<Rightarrow> int \<Rightarrow> int \<Rightarrow> int" where
  "ap_sdiv w a b = take_bit w (ap_signed w a sdiv ap_signed w b)"

definition ap_srem :: "nat \<Rightarrow> int \<Rightarrow> int \<Rightarrow> int" where
  "ap_srem w a b = take_bit w (ap_signed w a smod ap_signed w b)"

lemma take_bit_ap_signed [simp]: "take_bit w (ap_signed w v) = take_bit w v"
  by (cases w) (simp_all add: ap_signed_def take_bit_signed_take_bit)

lemma ap_signed_eq_iff:
  assumes "fits w a" "fits w b"
  shows "ap_signed w a = ap_signed w b \<longleftrightarrow> a = b"
  using assms by (metis take_bit_ap_signed take_bit_fits)

lemma ap_signed_0 [simp]: "ap_signed w 0 = 0"
  by (simp add: ap_signed_def)

lemma ap_signed_bool: "fits (Suc 0) v \<Longrightarrow> ap_signed (Suc 0) v = - v"
  by (auto simp: ap_signed_def dest!: fits_bool_cases)

lemma fits_ap_shl [simp]: "fits w (ap_shl w a b)"
  by (simp add: ap_shl_def)

lemma fits_ap_lshr [simp]: "fits w a \<Longrightarrow> fits w (ap_lshr w a b)"
  by (simp add: ap_lshr_def)

lemma fits_ap_ashr [simp]: "fits w (ap_ashr w a b)"
  by (simp add: ap_ashr_def)

lemma fits_ap_sext [simp]: "fits w' (ap_sext w w' v)"
  by (simp add: ap_sext_def)

lemma fits_ap_sdiv [simp]: "fits w (ap_sdiv w a b)"
  by (simp add: ap_sdiv_def)

lemma fits_ap_srem [simp]: "fits w (ap_srem w a b)"
  by (simp add: ap_srem_def)

lemma fits_udiv [simp]: "fits w a \<Longrightarrow> 0 \<le> b \<Longrightarrow> fits w (a div b)"
  unfolding fits_def
  by (metis div_by_0 div_by_1 int_one_le_iff_zero_less leI le_less_trans order_antisym
      pos_imp_zdiv_nonneg_iff zdiv_mono2)

lemma fits_urem [simp]: "fits w a \<Longrightarrow> fits w b \<Longrightarrow> fits w (a mod b)"
  by (cases "b = 0") (auto simp: fits_def intro: less_trans [OF pos_mod_bound])

end
