(* ===== verification/Expr.thy ===== *)
theory Expr
  imports Ints
begin

text \<open>
  The expression data model of \<^verbatim>\<open>include/klee/Expr.h\<close>: constants, arrays, update
  lists and the expression classes, their widths, kids, sensitivity flag, hash and
  structural order (\<^verbatim>\<open>lib/Expr/Expr.cpp\<close>, \<^verbatim>\<open>lib/Expr/Updates.cpp\<close>).

  One constructor stands for one expression class. \<open>BinaryExpr\<close> carries the kind that
  distinguishes the 23 classes derived from \<^verbatim>\<open>BinaryExpr\<close>. \<open>UpdateNode\<close> chains are
  kept newest first, as the linked list from \<^verbatim>\<open>UpdateList::head\<close> is. Reference counts
  and the cached \<^verbatim>\<open>hashValue\<close> field are not state of the model: the hash is a function.

  The sensitivity flag of a node is a function of its kids for every class but
  \<^verbatim>\<open>ReadExpr\<close>: \<^verbatim>\<open>setSensitive\<close> is called only on a read that has just been made, so the
  flag is a field of \<open>ReadExpr\<close> and \<open>getSensitive\<close> computes it elsewhere.
\<close>

subsection \<open>Kinds\<close>

datatype bkind =
    Add | Sub | Mul | UDiv | SDiv | URem | SRem
  | And | Or | Xor | Shl | LShr | AShr
  | Eq | Ne | Ult | Ule | Ugt | Uge | Slt | Sle | Sgt | Sge

datatype kind =
    Constant | NotOptimized | Read | Select | Concat | Extract | ZExt | SExt | Not_kind
  | Binary bkind

text \<open>The numbers the enumeration \<^verbatim>\<open>Expr::Kind\<close> gives its constants.\<close>

fun bkind_num :: "bkind \<Rightarrow> nat" where
  "bkind_num Add = 10" | "bkind_num Sub = 11" | "bkind_num Mul = 12"
| "bkind_num UDiv = 13" | "bkind_num SDiv = 14" | "bkind_num URem = 15" | "bkind_num SRem = 16"
| "bkind_num And = 17" | "bkind_num Or = 18" | "bkind_num Xor = 19"
| "bkind_num Shl = 20" | "bkind_num LShr = 21" | "bkind_num AShr = 22"
| "bkind_num Eq = 23" | "bkind_num Ne = 24" | "bkind_num Ult = 25" | "bkind_num Ule = 26"
| "bkind_num Ugt = 27" | "bkind_num Uge = 28" | "bkind_num Slt = 29" | "bkind_num Sle = 30"
| "bkind_num Sgt = 31" | "bkind_num Sge = 32"

fun kind_num :: "kind \<Rightarrow> nat" where
  "kind_num Constant = 0" | "kind_num NotOptimized = 1" | "kind_num Read = 3"
| "kind_num Select = 4" | "kind_num Concat = 5" | "kind_num Extract = 6"
| "kind_num ZExt = 7" | "kind_num SExt = 8" | "kind_num Not_kind = 9"
| "kind_num (Binary k) = bkind_num k"

text \<open>\<^verbatim>\<open>CmpExpr::classof\<close>: the comparisons are the kinds from \<open>Eq\<close> on.\<close>

definition is_cmp :: "bkind \<Rightarrow> bool" where
  "is_cmp k \<longleftrightarrow> bkind_num Eq \<le> bkind_num k \<and> bkind_num k \<le> bkind_num Sge"

lemma is_cmp_simps [simp]:
  "\<not> is_cmp Add" "\<not> is_cmp Sub" "\<not> is_cmp Mul" "\<not> is_cmp UDiv" "\<not> is_cmp SDiv"
  "\<not> is_cmp URem" "\<not> is_cmp SRem" "\<not> is_cmp And" "\<not> is_cmp Or" "\<not> is_cmp Xor"
  "\<not> is_cmp Shl" "\<not> is_cmp LShr" "\<not> is_cmp AShr"
  "is_cmp Eq" "is_cmp Ne" "is_cmp Ult" "is_cmp Ule" "is_cmp Ugt" "is_cmp Uge"
  "is_cmp Slt" "is_cmp Sle" "is_cmp Sgt" "is_cmp Sge"
  by (simp_all add: is_cmp_def)

lemma bkind_num_inject [simp]: "bkind_num a = bkind_num b \<longleftrightarrow> a = b"
  by (cases a; cases b; simp)

lemma bkind_num_bounds: "10 \<le> bkind_num k" "bkind_num k \<le> 32"
  by (cases k; simp)+

lemma bkind_num_neq: "n < 10 \<Longrightarrow> bkind_num k \<noteq> n" "n < 10 \<Longrightarrow> n \<noteq> bkind_num k"
  using bkind_num_bounds(1) [of k] by simp_all

lemma kind_num_inject [simp]: "kind_num a = kind_num b \<longleftrightarrow> a = b"
  by (cases a; cases b) (simp_all add: bkind_num_neq)

subsection \<open>Constants, arrays, expressions\<close>

datatype const_expr = CE (ce_width: nat) (ce_value: int)

record array =
  arr_addr :: nat
  arr_name :: string
  arr_size :: nat
  arr_domain :: nat
  arr_range :: nat
  constantValues :: "const_expr list"

datatype expr =
    ConstantExpr const_expr
  | NotOptimizedExpr expr
  | ReadExpr bool array unode expr
  | SelectExpr expr expr expr
  | ConcatExpr expr expr
  | ExtractExpr expr nat nat
  | ZExtExpr expr nat
  | SExtExpr expr nat
  | NotExpr expr
  | BinaryExpr bkind expr expr
and unode =
    NullNode
  | UpdateNode unode expr expr

definition isSymbolicArray :: "array \<Rightarrow> bool" where
  "isSymbolicArray a \<longleftrightarrow> constantValues a = []"

definition isConstantArray :: "array \<Rightarrow> bool" where
  "isConstantArray a \<longleftrightarrow> \<not> isSymbolicArray a"

fun getKind :: "expr \<Rightarrow> kind" where
  "getKind (ConstantExpr _) = Constant"
| "getKind (NotOptimizedExpr _) = NotOptimized"
| "getKind (ReadExpr _ _ _ _) = Read"
| "getKind (SelectExpr _ _ _) = Select"
| "getKind (ConcatExpr _ _) = Concat"
| "getKind (ExtractExpr _ _ _) = Extract"
| "getKind (ZExtExpr _ _) = ZExt"
| "getKind (SExtExpr _ _) = SExt"
| "getKind (NotExpr _) = Not_kind"
| "getKind (BinaryExpr k _ _) = Binary k"

fun getWidth :: "expr \<Rightarrow> nat" where
  "getWidth (ConstantExpr c) = ce_width c"
| "getWidth (NotOptimizedExpr e) = getWidth e"
| "getWidth (ReadExpr _ a _ _) = arr_range a"
| "getWidth (SelectExpr _ t _) = getWidth t"
| "getWidth (ConcatExpr l r) = getWidth l + getWidth r"
| "getWidth (ExtractExpr _ _ w) = w"
| "getWidth (ZExtExpr _ w) = w"
| "getWidth (SExtExpr _ w) = w"
| "getWidth (NotExpr e) = getWidth e"
| "getWidth (BinaryExpr k l r) = (if is_cmp k then 1 else getWidth l)"

text \<open>\<^verbatim>\<open>getNumKids\<close> and \<^verbatim>\<open>getKid\<close>, as the list of kids.\<close>

fun kids :: "expr \<Rightarrow> expr list" where
  "kids (ConstantExpr _) = []"
| "kids (NotOptimizedExpr e) = [e]"
| "kids (ReadExpr _ _ _ i) = [i]"
| "kids (SelectExpr c t f) = [c, t, f]"
| "kids (ConcatExpr l r) = [l, r]"
| "kids (ExtractExpr e _ _) = [e]"
| "kids (ZExtExpr e _) = [e]"
| "kids (SExtExpr e _) = [e]"
| "kids (NotExpr e) = [e]"
| "kids (BinaryExpr _ l r) = [l, r]"

text \<open>
  The flag \<^verbatim>\<open>isSensitive\<close>. The constructors of the binary classes, of casts, \<^verbatim>\<open>Extract\<close>,
  \<^verbatim>\<open>Concat\<close>, \<^verbatim>\<open>Not\<close> and \<^verbatim>\<open>NotOptimized\<close> take it from their kids; those of
  \<^verbatim>\<open>ConstantExpr\<close>, \<^verbatim>\<open>SelectExpr\<close> and \<^verbatim>\<open>ReadExpr\<close> leave it false.
\<close>

fun getSensitive :: "expr \<Rightarrow> bool" where
  "getSensitive (ConstantExpr _) = False"
| "getSensitive (NotOptimizedExpr e) = getSensitive e"
| "getSensitive (ReadExpr s _ _ _) = s"
| "getSensitive (SelectExpr _ _ _) = False"
| "getSensitive (ConcatExpr l r) = (getSensitive l \<or> getSensitive r)"
| "getSensitive (ExtractExpr e _ _) = getSensitive e"
| "getSensitive (ZExtExpr e _) = getSensitive e"
| "getSensitive (SExtExpr e _) = getSensitive e"
| "getSensitive (NotExpr e) = getSensitive e"
| "getSensitive (BinaryExpr _ l r) = (getSensitive l \<or> getSensitive r)"

fun setSensitive :: "expr \<Rightarrow> expr" where
  "setSensitive (ReadExpr _ a us i) = ReadExpr True a us i"
| "setSensitive e = e"

fun UpdateNode_getSize :: "unode \<Rightarrow> nat" where
  "UpdateNode_getSize NullNode = 0"
| "UpdateNode_getSize (UpdateNode n _ _) = 1 + UpdateNode_getSize n"

fun is_ConstantExpr :: "expr \<Rightarrow> bool" where
  "is_ConstantExpr (ConstantExpr _) = True"
| "is_ConstantExpr _ = False"

fun arrays :: "expr \<Rightarrow> array set" and unode_arrays :: "unode \<Rightarrow> array set" where
  "arrays (ConstantExpr _) = {}"
| "arrays (NotOptimizedExpr e) = arrays e"
| "arrays (ReadExpr _ a us i) = insert a (unode_arrays us \<union> arrays i)"
| "arrays (SelectExpr c t f) = arrays c \<union> arrays t \<union> arrays f"
| "arrays (ConcatExpr l r) = arrays l \<union> arrays r"
| "arrays (ExtractExpr e _ _) = arrays e"
| "arrays (ZExtExpr e _) = arrays e"
| "arrays (SExtExpr e _) = arrays e"
| "arrays (NotExpr e) = arrays e"
| "arrays (BinaryExpr _ l r) = arrays l \<union> arrays r"
| "unode_arrays NullNode = {}"
| "unode_arrays (UpdateNode n i v) = unode_arrays n \<union> arrays i \<union> arrays v"

subsection \<open>Equality of expressions\<close>

text \<open>
  \<^verbatim>\<open>operator==\<close> on expressions is \<^verbatim>\<open>compare(...) == 0\<close>, which looks at everything but the
  sensitivity flag. \<open>erase\<close> clears the flags; two expressions are equal when they agree
  after erasure. (\<open>ExprOrder\<close> proves that this is what \<^verbatim>\<open>compare\<close> decides.)
\<close>

fun erase :: "expr \<Rightarrow> expr" and erase_node :: "unode \<Rightarrow> unode" where
  "erase (ConstantExpr c) = ConstantExpr c"
| "erase (NotOptimizedExpr e) = NotOptimizedExpr (erase e)"
| "erase (ReadExpr _ a us i) = ReadExpr False a (erase_node us) (erase i)"
| "erase (SelectExpr c t f) = SelectExpr (erase c) (erase t) (erase f)"
| "erase (ConcatExpr l r) = ConcatExpr (erase l) (erase r)"
| "erase (ExtractExpr e off w) = ExtractExpr (erase e) off w"
| "erase (ZExtExpr e w) = ZExtExpr (erase e) w"
| "erase (SExtExpr e w) = SExtExpr (erase e) w"
| "erase (NotExpr e) = NotExpr (erase e)"
| "erase (BinaryExpr k l r) = BinaryExpr k (erase l) (erase r)"
| "erase_node NullNode = NullNode"
| "erase_node (UpdateNode n i v) = UpdateNode (erase_node n) (erase i) (erase v)"

definition expr_eq :: "expr \<Rightarrow> expr \<Rightarrow> bool" where
  "expr_eq a b \<longleftrightarrow> erase a = erase b"

lemma expr_eq_refl [simp]: "expr_eq a a"
  by (simp add: expr_eq_def)

lemma expr_eq_sym: "expr_eq a b \<Longrightarrow> expr_eq b a"
  by (simp add: expr_eq_def)

lemma expr_eq_trans: "expr_eq a b \<Longrightarrow> expr_eq b c \<Longrightarrow> expr_eq a c"
  by (simp add: expr_eq_def)

lemma getWidth_erase [simp]: "getWidth (erase e) = getWidth e"
  by (induction e) (auto split: if_splits)

lemma expr_eq_getWidth: "expr_eq a b \<Longrightarrow> getWidth a = getWidth b"
  unfolding expr_eq_def by (metis getWidth_erase)

subsection \<open>Well-formed expressions\<close>

text \<open>
  The typing discipline the assertions of the constructors and of the \<^verbatim>\<open>create\<close> functions
  state: no width is zero, operands of a binary expression have the same width, an extract
  stays inside its source, an index has the width of the array's domain and an update
  value that of its range.
\<close>

definition wf_const :: "const_expr \<Rightarrow> bool" where
  "wf_const c \<longleftrightarrow> 0 < ce_width c \<and> fits (ce_width c) (ce_value c)"

definition wf_array :: "array \<Rightarrow> bool" where
  "wf_array a \<longleftrightarrow> 0 < arr_domain a \<and> arr_domain a \<le> 64 \<and> 0 < arr_range a
     \<and> arr_size a \<le> 2 ^ arr_domain a
     \<and> (isSymbolicArray a \<or> length (constantValues a) = arr_size a)
     \<and> list_all (\<lambda>c. ce_width c = arr_range a \<and> wf_const c) (constantValues a)"

fun wf_expr :: "expr \<Rightarrow> bool" and wf_unode :: "array \<Rightarrow> unode \<Rightarrow> bool" where
  "wf_expr (ConstantExpr c) = wf_const c"
| "wf_expr (NotOptimizedExpr e) = wf_expr e"
| "wf_expr (ReadExpr _ a us i) =
     (wf_array a \<and> wf_unode a us \<and> wf_expr i \<and> getWidth i = arr_domain a)"
| "wf_expr (SelectExpr c t f) =
     (wf_expr c \<and> wf_expr t \<and> wf_expr f \<and> getWidth c = 1 \<and> getWidth t = getWidth f)"
| "wf_expr (ConcatExpr l r) = (wf_expr l \<and> wf_expr r)"
| "wf_expr (ExtractExpr e off w) = (wf_expr e \<and> 0 < w \<and> off + w \<le> getWidth e)"
| "wf_expr (ZExtExpr e w) = (wf_expr e \<and> getWidth e \<le> w)"
| "wf_expr (SExtExpr e w) = (wf_expr e \<and> getWidth e \<le> w)"
| "wf_expr (NotExpr e) = wf_expr e"
| "wf_expr (BinaryExpr k l r) = (wf_expr l \<and> wf_expr r \<and> getWidth l = getWidth r)"
| "wf_unode a NullNode = True"
| "wf_unode a (UpdateNode n i v) =
     (wf_unode a n \<and> wf_expr i \<and> wf_expr v \<and> getWidth i = arr_domain a \<and> getWidth v = arr_range a)"

lemma wf_expr_width_pos: "wf_expr e \<Longrightarrow> 0 < getWidth e"
  by (induction e) (auto simp: wf_const_def wf_array_def)

lemma wf_erase [simp]: "wf_expr (erase e) = wf_expr e" "wf_unode a (erase_node n) = wf_unode a n"
  by (induction e and n arbitrary: and a) (auto split: if_splits)

end
