(* ===== verification/ExprSem.thy ===== *)
theory ExprSem
  imports Expr
begin

text \<open>
  The meaning of an expression: its value under an assignment of the initial contents of
  every array. A read goes through the updates from the newest on, then to the constant
  contents of the array, then to the assignment, as
  \<^verbatim>\<open>ExprEvaluator::evalRead\<close> does. The result of a division by zero is left to the
  environment (\<open>env_div0\<close>): no statement depends on it. An arithmetic right shift by the width
  or more fills with the sign bit, as constant folding over \<^verbatim>\<open>APInt\<close> does; the STP builder and
  \<^verbatim>\<open>test/Solver/overshift-aright-by-constant.kquery\<close> take it to be 0, so statements about the
  builder exclude it.
\<close>

record env =
  env_read :: "array \<Rightarrow> nat \<Rightarrow> int"
  env_div0 :: "bkind \<Rightarrow> nat \<Rightarrow> int \<Rightarrow> int"

fun bin_sem :: "env \<Rightarrow> bkind \<Rightarrow> nat \<Rightarrow> int \<Rightarrow> int \<Rightarrow> int" where
  "bin_sem \<rho> Add w a b = take_bit w (a + b)"
| "bin_sem \<rho> Sub w a b = take_bit w (a - b)"
| "bin_sem \<rho> Mul w a b = take_bit w (a * b)"
| "bin_sem \<rho> UDiv w a b = (if b = 0 then take_bit w (env_div0 \<rho> UDiv w a) else a div b)"
| "bin_sem \<rho> SDiv w a b = (if b = 0 then take_bit w (env_div0 \<rho> SDiv w a) else ap_sdiv w a b)"
| "bin_sem \<rho> URem w a b = (if b = 0 then take_bit w (env_div0 \<rho> URem w a) else a mod b)"
| "bin_sem \<rho> SRem w a b = (if b = 0 then take_bit w (env_div0 \<rho> SRem w a) else ap_srem w a b)"
| "bin_sem \<rho> And w a b = a AND b"
| "bin_sem \<rho> Or w a b = a OR b"
| "bin_sem \<rho> Xor w a b = a XOR b"
| "bin_sem \<rho> Shl w a b = ap_shl w a b"
| "bin_sem \<rho> LShr w a b = ap_lshr w a b"
| "bin_sem \<rho> AShr w a b = ap_ashr w a b"
| "bin_sem \<rho> Eq w a b = of_bool (a = b)"
| "bin_sem \<rho> Ne w a b = of_bool (a \<noteq> b)"
| "bin_sem \<rho> Ult w a b = of_bool (a < b)"
| "bin_sem \<rho> Ule w a b = of_bool (a \<le> b)"
| "bin_sem \<rho> Ugt w a b = of_bool (b < a)"
| "bin_sem \<rho> Uge w a b = of_bool (b \<le> a)"
| "bin_sem \<rho> Slt w a b = of_bool (ap_signed w a < ap_signed w b)"
| "bin_sem \<rho> Sle w a b = of_bool (ap_signed w a \<le> ap_signed w b)"
| "bin_sem \<rho> Sgt w a b = of_bool (ap_signed w b < ap_signed w a)"
| "bin_sem \<rho> Sge w a b = of_bool (ap_signed w b \<le> ap_signed w a)"

text \<open>The contents of an array before any update.\<close>

definition initial_read :: "env \<Rightarrow> array \<Rightarrow> int \<Rightarrow> int" where
  "initial_read \<rho> a i =
     (if isConstantArray a \<and> nat i < arr_size a then ce_value (constantValues a ! nat i)
      else take_bit (arr_range a) (env_read \<rho> a (nat i)))"

fun eval :: "env \<Rightarrow> expr \<Rightarrow> int" and eval_read :: "env \<Rightarrow> array \<Rightarrow> unode \<Rightarrow> int \<Rightarrow> int" where
  "eval \<rho> (ConstantExpr c) = ce_value c"
| "eval \<rho> (NotOptimizedExpr e) = eval \<rho> e"
| "eval \<rho> (ReadExpr _ a us i) = eval_read \<rho> a us (eval \<rho> i)"
| "eval \<rho> (SelectExpr c t f) = (if eval \<rho> c = 1 then eval \<rho> t else eval \<rho> f)"
| "eval \<rho> (ConcatExpr l r) = push_bit (getWidth r) (eval \<rho> l) + eval \<rho> r"
| "eval \<rho> (ExtractExpr e off w) = take_bit w (drop_bit off (eval \<rho> e))"
| "eval \<rho> (ZExtExpr e w) = eval \<rho> e"
| "eval \<rho> (SExtExpr e w) = ap_sext (getWidth e) w (eval \<rho> e)"
| "eval \<rho> (NotExpr e) = take_bit (getWidth e) (NOT (eval \<rho> e))"
| "eval \<rho> (BinaryExpr k l r) = bin_sem \<rho> k (getWidth l) (eval \<rho> l) (eval \<rho> r)"
| "eval_read \<rho> a NullNode i = initial_read \<rho> a i"
| "eval_read \<rho> a (UpdateNode n ix v) i = (if eval \<rho> ix = i then eval \<rho> v else eval_read \<rho> a n i)"

subsection \<open>Values have the width of their expression\<close>

lemma fits_bin_sem:
  assumes "0 < w" "fits w a" "fits w b"
  shows "fits (if is_cmp k then 1 else w) (bin_sem \<rho> k w a b)"
  using assms by (cases k) (simp_all add: fits_nonneg)

lemma fits_concat:
  assumes "fits wl a" "fits wr b"
  shows "fits (wl + wr) (push_bit wr a + b)"
proof -
  have "a \<le> 2 ^ wl - 1" using assms(1) by (simp add: fits_def)
  then have "a * 2 ^ wr \<le> (2 ^ wl - 1) * 2 ^ wr" by simp
  moreover have "b < 2 ^ wr" using assms(2) by (simp add: fits_def)
  ultimately have "a * 2 ^ wr + b < 2 ^ wl * 2 ^ wr" by (simp add: left_diff_distrib)
  then show ?thesis
    using assms by (simp add: fits_def push_bit_eq_mult power_add)
qed

lemma fits_initial_read: "wf_array a \<Longrightarrow> fits (arr_range a) (initial_read \<rho> a i)"
  by (auto simp: initial_read_def wf_array_def wf_const_def isConstantArray_def list_all_iff
      isSymbolicArray_def) (metis nth_mem)

theorem eval_fits [simp]: "wf_expr e \<Longrightarrow> fits (getWidth e) (eval \<rho> e)"
  and eval_read_fits [simp]:
    "wf_array a \<Longrightarrow> wf_unode a n \<Longrightarrow> fits (arr_range a) (eval_read \<rho> a n i)"
proof (induction \<rho> e and \<rho> a n i rule: eval_eval_read.induct)
  case (10 \<rho> k l r)
  then show ?case
    using fits_bin_sem [of "getWidth l" "eval \<rho> l" "eval \<rho> r" k \<rho>]
    by (auto simp: wf_expr_width_pos)
next
  case (7 \<rho> e w)
  then show ?case by (auto intro: fits_mono)
qed (auto simp: wf_const_def fits_concat fits_initial_read)

lemma eval_nonneg: "wf_expr e \<Longrightarrow> 0 \<le> eval \<rho> e"
  using eval_fits fits_nonneg by blast

lemma eval_bool: "wf_expr e \<Longrightarrow> getWidth e = Suc 0 \<Longrightarrow> eval \<rho> e = 0 \<or> eval \<rho> e = 1"
  by (metis eval_fits fits_bool_cases)

lemma take_bit_eval [simp]: "wf_expr e \<Longrightarrow> getWidth e \<le> w \<Longrightarrow> take_bit w (eval \<rho> e) = eval \<rho> e"
  by (metis eval_fits fits_mono take_bit_fits)

subsection \<open>The value does not depend on the sensitivity flags\<close>

lemma eval_erase [simp]: "eval \<rho> (erase e) = eval \<rho> e"
  and eval_read_erase [simp]: "eval_read \<rho> a (erase_node n) i = eval_read \<rho> a n i"
  by (induction \<rho> e and \<rho> a n i rule: eval_eval_read.induct) simp_all

lemma expr_eq_eval: "expr_eq a b \<Longrightarrow> eval \<rho> a = eval \<rho> b"
  unfolding expr_eq_def by (metis eval_erase)

end
