(* ===== verification/ConstExpr.thy ===== *)
theory ConstExpr
  imports ExprSem
begin

text \<open>
  The methods of \<^verbatim>\<open>ConstantExpr\<close> (\<^verbatim>\<open>include/klee/Expr.h\<close>, \<^verbatim>\<open>lib/Expr/Expr.cpp\<close>): the
  constructors \<^verbatim>\<open>alloc\<close> and \<^verbatim>\<open>create\<close>, the tests, and one folding method per operator.
  A method aborts (\<^term>\<open>None\<close>) where the fixed-width integer it calls has a precondition:
  operands of different widths, a zero divisor, an empty width.
\<close>

subsection \<open>Allocation and tests\<close>

definition ce_alloc :: "int \<Rightarrow> nat \<Rightarrow> const_expr" where
  "ce_alloc v w = CE w (take_bit w v)"

definition ce_create :: "int \<Rightarrow> nat \<Rightarrow> const_expr option" where
  "ce_create v w =
     do { (if w \<le> 64 then assert_that (0 < w \<and> v = take_bit w v) else Some ());
          Some (ce_alloc v w) }"

definition ce_isZero :: "const_expr \<Rightarrow> bool" where
  "ce_isZero c \<longleftrightarrow> ce_value c = 0"

definition ce_getLimitedValue :: "const_expr \<Rightarrow> int \<Rightarrow> int" where
  "ce_getLimitedValue c limit = (if limit < ce_value c then limit else ce_value c)"

definition ce_isOne :: "const_expr \<Rightarrow> bool" where
  "ce_isOne c \<longleftrightarrow> ce_getLimitedValue c (2 ^ 64 - 1) = 1"

definition ce_isTrue :: "const_expr \<Rightarrow> bool" where
  "ce_isTrue c \<longleftrightarrow> ce_width c = 1 \<and> ce_value c \<noteq> 0"

definition ce_isFalse :: "const_expr \<Rightarrow> bool" where
  "ce_isFalse c \<longleftrightarrow> ce_width c = 1 \<and> ce_value c = 0"

definition ce_isAllOnes :: "const_expr \<Rightarrow> bool" where
  "ce_isAllOnes c \<longleftrightarrow> ce_value c = 2 ^ ce_width c - 1"

definition ce_getZExtValue :: "const_expr \<Rightarrow> nat \<Rightarrow> int option" where
  "ce_getZExtValue c bits = do { assert_that (ce_width c \<le> bits); Some (ce_value c) }"

subsection \<open>Folding\<close>

fun CE_Concat :: "const_expr \<Rightarrow> const_expr \<Rightarrow> const_expr option" where
  "CE_Concat (CE w v) (CE w' v') =
     do { assert_that (0 < w \<and> 0 < w');
          Some (CE (w + w') (take_bit (w + w') (push_bit w' v) OR v')) }"

fun CE_Extract :: "const_expr \<Rightarrow> nat \<Rightarrow> nat \<Rightarrow> const_expr option" where
  "CE_Extract (CE w v) off w' =
     do { assert_that (off \<le> w \<and> 0 < w');
          Some (CE w' (take_bit w' (ap_ashr w v (int off)))) }"

fun CE_ZExt :: "const_expr \<Rightarrow> nat \<Rightarrow> const_expr option" where
  "CE_ZExt (CE w v) w' = do { assert_that (0 < w'); Some (CE w' (take_bit w' v)) }"

fun CE_SExt :: "const_expr \<Rightarrow> nat \<Rightarrow> const_expr option" where
  "CE_SExt (CE w v) w' = do { assert_that (0 < w'); Some (CE w' (ap_sext w w' v)) }"

fun CE_Add :: "const_expr \<Rightarrow> const_expr \<Rightarrow> const_expr option" where
  "CE_Add (CE w a) (CE w' b) = do { assert_that (w = w'); Some (CE w (take_bit w (a + b))) }"

fun CE_Neg :: "const_expr \<Rightarrow> const_expr" where
  "CE_Neg (CE w a) = CE w (take_bit w (- a))"

fun CE_Sub :: "const_expr \<Rightarrow> const_expr \<Rightarrow> const_expr option" where
  "CE_Sub (CE w a) (CE w' b) = do { assert_that (w = w'); Some (CE w (take_bit w (a - b))) }"

fun CE_Mul :: "const_expr \<Rightarrow> const_expr \<Rightarrow> const_expr option" where
  "CE_Mul (CE w a) (CE w' b) = do { assert_that (w = w'); Some (CE w (take_bit w (a * b))) }"

fun CE_UDiv :: "const_expr \<Rightarrow> const_expr \<Rightarrow> const_expr option" where
  "CE_UDiv (CE w a) (CE w' b) = do { assert_that (w = w' \<and> b \<noteq> 0); Some (CE w (a div b)) }"

fun CE_SDiv :: "const_expr \<Rightarrow> const_expr \<Rightarrow> const_expr option" where
  "CE_SDiv (CE w a) (CE w' b) = do { assert_that (w = w' \<and> b \<noteq> 0); Some (CE w (ap_sdiv w a b)) }"

fun CE_URem :: "const_expr \<Rightarrow> const_expr \<Rightarrow> const_expr option" where
  "CE_URem (CE w a) (CE w' b) = do { assert_that (w = w' \<and> b \<noteq> 0); Some (CE w (a mod b)) }"

fun CE_SRem :: "const_expr \<Rightarrow> const_expr \<Rightarrow> const_expr option" where
  "CE_SRem (CE w a) (CE w' b) = do { assert_that (w = w' \<and> b \<noteq> 0); Some (CE w (ap_srem w a b)) }"

fun CE_And :: "const_expr \<Rightarrow> const_expr \<Rightarrow> const_expr option" where
  "CE_And (CE w a) (CE w' b) = do { assert_that (w = w'); Some (CE w (a AND b)) }"

fun CE_Or :: "const_expr \<Rightarrow> const_expr \<Rightarrow> const_expr option" where
  "CE_Or (CE w a) (CE w' b) = do { assert_that (w = w'); Some (CE w (a OR b)) }"

fun CE_Xor :: "const_expr \<Rightarrow> const_expr \<Rightarrow> const_expr option" where
  "CE_Xor (CE w a) (CE w' b) = do { assert_that (w = w'); Some (CE w (a XOR b)) }"

fun CE_Shl :: "const_expr \<Rightarrow> const_expr \<Rightarrow> const_expr option" where
  "CE_Shl (CE w a) (CE w' b) = Some (CE w (ap_shl w a b))"

fun CE_LShr :: "const_expr \<Rightarrow> const_expr \<Rightarrow> const_expr option" where
  "CE_LShr (CE w a) (CE w' b) = Some (CE w (ap_lshr w a b))"

fun CE_AShr :: "const_expr \<Rightarrow> const_expr \<Rightarrow> const_expr option" where
  "CE_AShr (CE w a) (CE w' b) = Some (CE w (ap_ashr w a b))"

fun CE_Not :: "const_expr \<Rightarrow> const_expr" where
  "CE_Not (CE w a) = CE w (take_bit w (NOT a))"

fun CE_Eq :: "const_expr \<Rightarrow> const_expr \<Rightarrow> const_expr option" where
  "CE_Eq (CE w a) (CE w' b) = do { assert_that (w = w'); Some (ce_alloc (of_bool (a = b)) 1) }"

fun CE_Ne :: "const_expr \<Rightarrow> const_expr \<Rightarrow> const_expr option" where
  "CE_Ne (CE w a) (CE w' b) = do { assert_that (w = w'); Some (ce_alloc (of_bool (a \<noteq> b)) 1) }"

fun CE_Ult :: "const_expr \<Rightarrow> const_expr \<Rightarrow> const_expr option" where
  "CE_Ult (CE w a) (CE w' b) = do { assert_that (w = w'); Some (ce_alloc (of_bool (a < b)) 1) }"

fun CE_Ule :: "const_expr \<Rightarrow> const_expr \<Rightarrow> const_expr option" where
  "CE_Ule (CE w a) (CE w' b) = do { assert_that (w = w'); Some (ce_alloc (of_bool (a \<le> b)) 1) }"

fun CE_Ugt :: "const_expr \<Rightarrow> const_expr \<Rightarrow> const_expr option" where
  "CE_Ugt (CE w a) (CE w' b) = do { assert_that (w = w'); Some (ce_alloc (of_bool (a > b)) 1) }"

fun CE_Uge :: "const_expr \<Rightarrow> const_expr \<Rightarrow> const_expr option" where
  "CE_Uge (CE w a) (CE w' b) = do { assert_that (w = w'); Some (ce_alloc (of_bool (a \<ge> b)) 1) }"

fun CE_Slt :: "const_expr \<Rightarrow> const_expr \<Rightarrow> const_expr option" where
  "CE_Slt (CE w a) (CE w' b) =
     do { assert_that (w = w'); Some (ce_alloc (of_bool (ap_signed w a < ap_signed w b)) 1) }"

fun CE_Sle :: "const_expr \<Rightarrow> const_expr \<Rightarrow> const_expr option" where
  "CE_Sle (CE w a) (CE w' b) =
     do { assert_that (w = w'); Some (ce_alloc (of_bool (ap_signed w a \<le> ap_signed w b)) 1) }"

fun CE_Sgt :: "const_expr \<Rightarrow> const_expr \<Rightarrow> const_expr option" where
  "CE_Sgt (CE w a) (CE w' b) =
     do { assert_that (w = w'); Some (ce_alloc (of_bool (ap_signed w a > ap_signed w b)) 1) }"

fun CE_Sge :: "const_expr \<Rightarrow> const_expr \<Rightarrow> const_expr option" where
  "CE_Sge (CE w a) (CE w' b) =
     do { assert_that (w = w'); Some (ce_alloc (of_bool (ap_signed w a \<ge> ap_signed w b)) 1) }"

text \<open>The folding method of each binary kind, as the \<^verbatim>\<open>create\<close> macros select it.\<close>

fun CE_fold :: "bkind \<Rightarrow> const_expr \<Rightarrow> const_expr \<Rightarrow> const_expr option" where
  "CE_fold Add = CE_Add" | "CE_fold Sub = CE_Sub" | "CE_fold Mul = CE_Mul"
| "CE_fold UDiv = CE_UDiv" | "CE_fold SDiv = CE_SDiv" | "CE_fold URem = CE_URem"
| "CE_fold SRem = CE_SRem" | "CE_fold And = CE_And" | "CE_fold Or = CE_Or"
| "CE_fold Xor = CE_Xor" | "CE_fold Shl = CE_Shl" | "CE_fold LShr = CE_LShr"
| "CE_fold AShr = CE_AShr" | "CE_fold Eq = CE_Eq" | "CE_fold Ne = CE_Ne"
| "CE_fold Ult = CE_Ult" | "CE_fold Ule = CE_Ule" | "CE_fold Ugt = CE_Ugt"
| "CE_fold Uge = CE_Uge" | "CE_fold Slt = CE_Slt" | "CE_fold Sle = CE_Sle"
| "CE_fold Sgt = CE_Sgt" | "CE_fold Sge = CE_Sge"

subsection \<open>Facts\<close>

lemma ce_alloc_sel [simp]: "ce_width (ce_alloc v w) = w" "ce_value (ce_alloc v w) = take_bit w v"
  by (simp_all add: ce_alloc_def)

lemma wf_ce_alloc [simp]: "wf_const (ce_alloc v w) \<longleftrightarrow> 0 < w"
  by (simp add: wf_const_def)

lemma ce_create_Some [simp]: "0 < w \<Longrightarrow> fits w v \<Longrightarrow> ce_create v w = Some (ce_alloc v w)"
  by (simp add: ce_create_def)

lemma ce_isOne_iff: "wf_const c \<Longrightarrow> ce_isOne c \<longleftrightarrow> ce_value c = 1"
  by (simp add: ce_isOne_def ce_getLimitedValue_def)

lemma ce_isAllOnes_iff: "wf_const c \<Longrightarrow> ce_isAllOnes c \<longleftrightarrow> ce_value c = take_bit (ce_width c) (- 1)"
  by (simp add: ce_isAllOnes_def mask_eq_exp_minus_1)

lemma ce_isTrue_iff: "wf_const c \<Longrightarrow> ce_isTrue c \<longleftrightarrow> ce_width c = 1 \<and> ce_value c = 1"
  by (auto simp: ce_isTrue_def wf_const_def dest!: fits_bool_cases)

lemma ce_bool_cases:
  "wf_const c \<Longrightarrow> ce_width c = Suc 0 \<Longrightarrow> \<not> ce_isTrue c \<Longrightarrow> ce_value c = 0"
  by (auto simp: ce_isTrue_def)

lemma concat_or_eq_plus:
  assumes "fits wr b"
  shows "push_bit wr a OR b = push_bit wr a + b"
proof -
  have "push_bit wr a AND b = push_bit wr a AND take_bit wr b" using assms by simp
  also have "\<dots> = 0"
    by (rule bit_eqI) (auto simp: bit_and_iff bit_push_bit_iff bit_take_bit_iff)
  finally show ?thesis by (simp add: disjunctive_add_eq_or)
qed

lemma CE_Concat_correct [returns_intros]:
  assumes "wf_const a" "wf_const b"
  shows "returns (CE_Concat a b) (\<lambda>c. wf_const c \<and> ce_width c = ce_width a + ce_width b
           \<and> ce_value c = push_bit (ce_width b) (ce_value a) + ce_value b)"
proof (cases a, cases b)
  fix w v w' v'
  assume [simp]: "a = CE w v" "b = CE w' v'"
  have f: "fits w v" "fits w' v'" "0 < w" "0 < w'" using assms by (simp_all add: wf_const_def)
  have "fits (w + w') (push_bit w' v + v')" using f by (simp add: fits_concat)
  moreover have "fits (w + w') (push_bit w' v + 0)" using f by (intro fits_concat) auto
  ultimately show ?thesis
    using f by (simp add: wf_const_def concat_or_eq_plus)
qed

text \<open>Extracting with an arithmetic shift is extracting with a logical one, as long as no
  bit from beyond the source is asked for.\<close>

lemma take_bit_ap_ashr:
  assumes "off + w' \<le> w"
  shows "take_bit w' (ap_ashr w v (int off)) = take_bit w' (drop_bit off v)"
proof (rule bit_eqI)
  fix n
  have "min (w - 1) (off + n) = off + n \<and> min w off = off \<and> n < w" if "n < w'"
    using assms that by auto
  then show "bit (take_bit w' (ap_ashr w v (int off))) n = bit (take_bit w' (drop_bit off v)) n"
    using assms
    by (auto simp: ap_ashr_def ap_signed_def bit_take_bit_iff bit_drop_bit_eq
        bit_signed_take_bit_iff)
qed

lemma CE_Extract_correct [returns_intros]:
  assumes "wf_const a" "0 < w'" "off + w' \<le> ce_width a"
  shows "returns (CE_Extract a off w') (\<lambda>c. wf_const c \<and> ce_width c = w'
           \<and> ce_value c = take_bit w' (drop_bit off (ce_value a)))"
  using assms by (cases a) (simp add: wf_const_def take_bit_ap_ashr)

text \<open>
  Folding two constants yields the value of the binary expression they would make, in every
  environment; it aborts only on a division by a constant zero.
\<close>

definition div_kind :: "bkind \<Rightarrow> bool" where
  "div_kind k \<longleftrightarrow> k = UDiv \<or> k = SDiv \<or> k = URem \<or> k = SRem"

lemma CE_fold_correct:
  assumes "wf_const a" "wf_const b" "ce_width a = ce_width b" "div_kind k \<Longrightarrow> ce_value b \<noteq> 0"
  shows "returns (CE_fold k a b)
           (\<lambda>c. wf_const c \<and> ce_width c = (if is_cmp k then 1 else ce_width a)
             \<and> (\<forall>\<rho>. ce_value c = bin_sem \<rho> k (ce_width a) (ce_value a) (ce_value b)))"
  using assms
  by (cases a; cases b; cases k) (auto simp: wf_const_def div_kind_def fits_nonneg)

end
