(* ===== verification/ExprCreate.thy ===== *)
theory ExprCreate
  imports ConstExpr
begin

text \<open>
  The simplifying constructors of \<^verbatim>\<open>lib/Expr/Expr.cpp\<close>. The member function
  \<^verbatim>\<open>XExpr::create\<close> is \<open>create_XExpr\<close>; the file-local helpers \<^verbatim>\<open>XExpr_create\<close>,
  \<^verbatim>\<open>XExpr_createPartial\<close> and \<^verbatim>\<open>XExpr_createPartialR\<close> keep their names. A failed assertion
  is \<^term>\<open>None\<close>. \<open>BCREATE_R\<close>, \<open>BCREATE\<close>, \<open>CMPCREATE\<close> and \<open>CMPCREATE_T\<close> are the macros of
  the same names, written as combinators; the mutually recursive classes write the
  macro's body out.

  Three groups of constructors call each other in a cycle. Each is a mutually recursive
  function whose termination rests on a bound on the size of its own result, proved first
  for the inputs on which it terminates:
  \<^item> \<open>EqExpr\<close> with the De Morgan rewriting of a negated disjunction;
  \<^item> \<open>AddExpr\<close> and \<open>SubExpr\<close>, which float constants to the left;
  \<^item> \<open>ExtractExpr\<close> and \<open>ConcatExpr\<close>, which push extracts inwards and merge them again.
\<close>

text \<open>
  \<open>weight\<close> bounds the size of results: it is the number of nodes, except that a
  disjunction weighs what its De Morgan dual weighs.
\<close>

fun weight :: "expr \<Rightarrow> nat" and weight_node :: "unode \<Rightarrow> nat" where
  "weight (ConstantExpr _) = 1"
| "weight (NotOptimizedExpr e) = weight e + 1"
| "weight (ReadExpr _ _ us i) = weight_node us + weight i + 1"
| "weight (SelectExpr c t f) = weight c + weight t + weight f + 1"
| "weight (ConcatExpr l r) = weight l + weight r + 1"
| "weight (ExtractExpr e _ _) = weight e + 1"
| "weight (ZExtExpr e _) = weight e + 1"
| "weight (SExtExpr e _) = weight e + 1"
| "weight (NotExpr e) = weight e + 1"
| "weight (BinaryExpr k l r) = weight l + weight r + (if k = Or then 5 else 1)"
| "weight_node NullNode = 0"
| "weight_node (UpdateNode n i v) = weight_node n + weight i + weight v + 1"

lemma weight_pos [simp]: "0 < weight e"
  by (cases e) auto

lemma weight_ge_1 [simp]: "Suc 0 \<le> weight e"
  by (simp add: Suc_le_eq)

subsection \<open>The macros\<close>

text \<open>\<^verbatim>\<open>dyn_cast<ConstantExpr>\<close>.\<close>

fun dyn_cast_Constant :: "expr \<Rightarrow> const_expr option" where
  "dyn_cast_Constant (ConstantExpr c) = Some c"
| "dyn_cast_Constant _ = None"

lemma dyn_cast_Constant_Some [simp]: "dyn_cast_Constant e = Some c \<longleftrightarrow> e = ConstantExpr c"
  by (cases e) auto

lemma dyn_cast_Constant_None [simp]: "dyn_cast_Constant e = None \<longleftrightarrow> \<not> is_ConstantExpr e"
  by (cases e) auto

lemma dyn_cast_Constant_no [simp]: "\<not> is_ConstantExpr e \<Longrightarrow> dyn_cast_Constant e = None"
  by simp

definition fold_const :: "bkind \<Rightarrow> const_expr \<Rightarrow> const_expr \<Rightarrow> expr option" where
  "fold_const k cl cr = do { c \<leftarrow> CE_fold k cl cr; Some (ConstantExpr c) }"

definition BCREATE_R :: "bkind \<Rightarrow> (expr \<Rightarrow> const_expr \<Rightarrow> expr option) \<Rightarrow>
    (const_expr \<Rightarrow> expr \<Rightarrow> expr option) \<Rightarrow> (expr \<Rightarrow> expr \<Rightarrow> expr option) \<Rightarrow>
    expr \<Rightarrow> expr \<Rightarrow> expr option" where
  "BCREATE_R k partialL partialR create l r =
     do { assert_that (getWidth l = getWidth r);
          case dyn_cast_Constant l of
            Some cl \<Rightarrow> (case dyn_cast_Constant r of Some cr \<Rightarrow> fold_const k cl cr | None \<Rightarrow> partialR cl r)
          | None \<Rightarrow> (case dyn_cast_Constant r of Some cr \<Rightarrow> partialL l cr | None \<Rightarrow> create l r) }"

definition BCREATE :: "bkind \<Rightarrow> (expr \<Rightarrow> expr \<Rightarrow> expr option) \<Rightarrow> expr \<Rightarrow> expr \<Rightarrow> expr option" where
  "BCREATE k create l r =
     do { assert_that (getWidth l = getWidth r);
          case dyn_cast_Constant l of
            Some cl \<Rightarrow> (case dyn_cast_Constant r of Some cr \<Rightarrow> fold_const k cl cr | None \<Rightarrow> create l r)
          | None \<Rightarrow> create l r }"

definition CMPCREATE :: "bkind \<Rightarrow> (expr \<Rightarrow> expr \<Rightarrow> expr option) \<Rightarrow> expr \<Rightarrow> expr \<Rightarrow> expr option" where
  "CMPCREATE = BCREATE"

subsection \<open>And, Or\<close>

definition AndExpr_createPartial :: "expr \<Rightarrow> const_expr \<Rightarrow> expr option" where
  "AndExpr_createPartial l cr =
     (if ce_isAllOnes cr then Some l
      else if ce_isZero cr then Some (ConstantExpr cr)
      else Some (BinaryExpr And l (ConstantExpr cr)))"

definition AndExpr_createPartialR :: "const_expr \<Rightarrow> expr \<Rightarrow> expr option" where
  "AndExpr_createPartialR cl r = AndExpr_createPartial r cl"

definition AndExpr_create :: "expr \<Rightarrow> expr \<Rightarrow> expr option" where
  "AndExpr_create l r = Some (BinaryExpr And l r)"

definition create_AndExpr :: "expr \<Rightarrow> expr \<Rightarrow> expr option" where
  "create_AndExpr = BCREATE_R And AndExpr_createPartial AndExpr_createPartialR AndExpr_create"

definition OrExpr_createPartial :: "expr \<Rightarrow> const_expr \<Rightarrow> expr option" where
  "OrExpr_createPartial l cr =
     (if ce_isAllOnes cr then Some (ConstantExpr cr)
      else if ce_isZero cr then Some l
      else Some (BinaryExpr Or l (ConstantExpr cr)))"

definition OrExpr_createPartialR :: "const_expr \<Rightarrow> expr \<Rightarrow> expr option" where
  "OrExpr_createPartialR cl r = OrExpr_createPartial r cl"

definition OrExpr_create :: "expr \<Rightarrow> expr \<Rightarrow> expr option" where
  "OrExpr_create l r = Some (BinaryExpr Or l r)"

definition create_OrExpr :: "expr \<Rightarrow> expr \<Rightarrow> expr option" where
  "create_OrExpr = BCREATE_R Or OrExpr_createPartial OrExpr_createPartialR OrExpr_create"

subsection \<open>Eq\<close>

definition EqExpr_create :: "expr \<Rightarrow> expr \<Rightarrow> expr option" where
  "EqExpr_create l r =
     (if expr_eq l r then Some (ConstantExpr (ce_alloc 1 1)) else Some (BinaryExpr Eq l r))"

text \<open>The option \<^verbatim>\<open>-const-array-opt\<close>, at its default.\<close>

definition ConstArrayOpt :: bool where
  "ConstArrayOpt = False"

text \<open>
  \<open>TryConstArrayOpt\<close> takes the read apart (array, updates, index); \<open>TryConstArrayOpt_loop\<close> is its
  loop over the positions of the array, with the number of matches so far and the
  disjunction built so far.
\<close>

function (sequential) EqExpr_createPartialR :: "const_expr \<Rightarrow> expr \<Rightarrow> expr option"
  and create_EqExpr :: "expr \<Rightarrow> expr \<Rightarrow> expr option"
  and createIsZero :: "expr \<Rightarrow> expr option"
  and TryConstArrayOpt :: "const_expr \<Rightarrow> bool \<Rightarrow> array \<Rightarrow> unode \<Rightarrow> expr \<Rightarrow> expr option"
  and TryConstArrayOpt_loop ::
    "const_expr \<Rightarrow> bool \<Rightarrow> array \<Rightarrow> unode \<Rightarrow> expr \<Rightarrow> nat list \<Rightarrow> nat \<Rightarrow> expr \<Rightarrow> expr option"
where
  "EqExpr_createPartialR cl r =
     (if ce_width cl = 1 then
        if ce_isTrue cl then Some r
        else (case r of
            BinaryExpr Eq (ConstantExpr ce) ree_right \<Rightarrow>
              if ce_width ce = 1 \<and> ce_isFalse ce then Some ree_right
              else EqExpr_create (ConstantExpr cl) r
          | BinaryExpr Or roe_left roe_right \<Rightarrow>
              do { nl \<leftarrow> createIsZero roe_left;
                   nr \<leftarrow> createIsZero roe_right;
                   create_AndExpr nl nr }
          | _ \<Rightarrow> EqExpr_create (ConstantExpr cl) r)
      else (case r of
          SExtExpr src _ \<Rightarrow>
            do { trunc \<leftarrow> CE_ZExt cl (getWidth src);
                 back \<leftarrow> CE_SExt trunc (ce_width cl);
                 if cl = back then create_EqExpr src (ConstantExpr trunc)
                 else do { f \<leftarrow> ce_create 0 1; Some (ConstantExpr f) } }
        | ZExtExpr src _ \<Rightarrow>
            do { trunc \<leftarrow> CE_ZExt cl (getWidth src);
                 back \<leftarrow> CE_ZExt trunc (ce_width cl);
                 if cl = back then create_EqExpr src (ConstantExpr trunc)
                 else do { f \<leftarrow> ce_create 0 1; Some (ConstantExpr f) } }
        | BinaryExpr Add (ConstantExpr c) b \<Rightarrow>
            do { d \<leftarrow> CE_Sub cl c; EqExpr_createPartialR d b }
        | BinaryExpr Sub (ConstantExpr c) b \<Rightarrow>
            do { d \<leftarrow> CE_Sub c cl; EqExpr_createPartialR d b }
        | ReadExpr s a us i \<Rightarrow>
            if ConstArrayOpt then TryConstArrayOpt cl s a us i
            else EqExpr_create (ConstantExpr cl) r
        | _ \<Rightarrow> EqExpr_create (ConstantExpr cl) r))"
| "create_EqExpr l r =
     do { assert_that (getWidth l = getWidth r);
          case dyn_cast_Constant l of
            Some cl \<Rightarrow> (case dyn_cast_Constant r of
                Some cr \<Rightarrow> fold_const Eq cl cr | None \<Rightarrow> EqExpr_createPartialR cl r)
          | None \<Rightarrow> (case dyn_cast_Constant r of
                Some cr \<Rightarrow> EqExpr_createPartialR cr l | None \<Rightarrow> EqExpr_create l r) }"
| "createIsZero e = do { z \<leftarrow> ce_create 0 (getWidth e); create_EqExpr e (ConstantExpr z) }"
| "TryConstArrayOpt cl s a us i =
     (if isSymbolicArray a \<or> UpdateNode_getSize us \<noteq> 0
      then EqExpr_create (ConstantExpr cl) (ReadExpr s a us i)
      else TryConstArrayOpt_loop cl s a us i [0..<arr_size a] 0 (ConstantExpr (ce_alloc 0 1)))"
| "TryConstArrayOpt_loop cl s a us i [] n res = Some res"
| "TryConstArrayOpt_loop cl s a us i (k # ks) n res =
     (if cl = constantValues a ! k then
        if 100 < n + 1 then EqExpr_create (ConstantExpr cl) (ReadExpr s a us i)
        else do { mayBe \<leftarrow> create_EqExpr i (ConstantExpr (ce_alloc (int k) (getWidth i)));
                  res' \<leftarrow> create_OrExpr res mayBe;
                  TryConstArrayOpt_loop cl s a us i ks (n + 1) res' }
      else TryConstArrayOpt_loop cl s a us i ks n res)"
  by pat_completeness auto
termination
  by (relation "measures [\<lambda>x. case x of
      Inl (Inl (cl, r)) \<Rightarrow> 4 * weight r
    | Inl (Inr (l, r)) \<Rightarrow> 4 * (weight l + weight r) - 3
    | Inr (Inl e) \<Rightarrow> 4 * weight e + 2
    | Inr (Inr (Inl (cl, s, a, us, i))) \<Rightarrow> 4 * weight i + 3
    | Inr (Inr (Inr (cl, s, a, us, i, ks, n, res))) \<Rightarrow> 4 * weight i + 2,
    \<lambda>x. case x of Inr (Inr (Inr (cl, s, a, us, i, ks, n, res))) \<Rightarrow> length ks | _ \<Rightarrow> 0]")
    simp_all

declare EqExpr_createPartialR.simps [simp del] create_EqExpr.simps [simp del]
  createIsZero.simps [simp del] TryConstArrayOpt.simps [simp del]

lemma create_AndExpr_weight: "create_AndExpr l r = Some e \<Longrightarrow> weight e \<le> weight l + weight r + 1"
  by (auto simp: create_AndExpr_def BCREATE_R_def AndExpr_createPartial_def fold_const_def
      AndExpr_createPartialR_def AndExpr_create_def bind_Some split: option.splits if_splits)

lemma EqExpr_create_weight: "EqExpr_create l r = Some e \<Longrightarrow> weight e \<le> weight l + weight r + 1"
  by (auto simp: EqExpr_create_def split: if_splits)

text \<open>Which rewriting \<open>EqExpr_createPartialR\<close> applies, as a case distinction.\<close>

lemma EqExpr_createPartialR_cases [case_names true notnot or sext zext add sub plain]:
  obtains
    "ce_width cl = 1" "ce_isTrue cl" "EqExpr_createPartialR cl r = Some r"
  | ce x where "ce_width cl = 1" "\<not> ce_isTrue cl" "r = BinaryExpr Eq (ConstantExpr ce) x"
      "ce_width ce = 1" "ce_isFalse ce" "EqExpr_createPartialR cl r = Some x"
  | a b where "ce_width cl = 1" "\<not> ce_isTrue cl" "r = BinaryExpr Or a b"
      "EqExpr_createPartialR cl r =
         do { nl \<leftarrow> createIsZero a; nr \<leftarrow> createIsZero b; create_AndExpr nl nr }"
  | src w where "ce_width cl \<noteq> 1" "r = SExtExpr src w"
      "EqExpr_createPartialR cl r =
         do { trunc \<leftarrow> CE_ZExt cl (getWidth src); back \<leftarrow> CE_SExt trunc (ce_width cl);
              if cl = back then create_EqExpr src (ConstantExpr trunc)
              else do { f \<leftarrow> ce_create 0 1; Some (ConstantExpr f) } }"
  | src w where "ce_width cl \<noteq> 1" "r = ZExtExpr src w"
      "EqExpr_createPartialR cl r =
         do { trunc \<leftarrow> CE_ZExt cl (getWidth src); back \<leftarrow> CE_ZExt trunc (ce_width cl);
              if cl = back then create_EqExpr src (ConstantExpr trunc)
              else do { f \<leftarrow> ce_create 0 1; Some (ConstantExpr f) } }"
  | c b where "ce_width cl \<noteq> 1" "r = BinaryExpr Add (ConstantExpr c) b"
      "EqExpr_createPartialR cl r = do { d \<leftarrow> CE_Sub cl c; EqExpr_createPartialR d b }"
  | c b where "ce_width cl \<noteq> 1" "r = BinaryExpr Sub (ConstantExpr c) b"
      "EqExpr_createPartialR cl r = do { d \<leftarrow> CE_Sub c cl; EqExpr_createPartialR d b }"
  | "EqExpr_createPartialR cl r = EqExpr_create (ConstantExpr cl) r"
proof -
  note eq = EqExpr_createPartialR.simps [of cl r]
  consider (t) "ce_width cl = 1" "ce_isTrue cl" | (f) "ce_width cl = 1" "\<not> ce_isTrue cl"
    | (w) "ce_width cl \<noteq> 1"
    by blast
  then show ?thesis
  proof cases
    case t
    then show ?thesis using eq that(1) by simp
  next
    case f
    show ?thesis
    proof (cases "EqExpr_createPartialR cl r = EqExpr_create (ConstantExpr cl) r")
      case True
      then show ?thesis by (rule that(8))
    next
      case False
      with eq f obtain k a b where r: "r = BinaryExpr k a b" by (cases r) simp_all
      with eq f False have "k = Eq \<or> k = Or" by (cases k) simp_all
      then show ?thesis
      proof
        assume k: "k = Eq"
        with r eq f False obtain ce where a: "a = ConstantExpr ce" by (cases a) simp_all
        with r k eq f False have "ce_width ce = 1 \<and> ce_isFalse ce" by (simp split: if_splits)
        with r k a eq f show ?thesis using that(2) [of ce b] by simp
      next
        assume "k = Or"
        with r eq f show ?thesis using that(3) [of a b] by simp
      qed
    qed
  next
    case w
    show ?thesis
    proof (cases "EqExpr_createPartialR cl r = EqExpr_create (ConstantExpr cl) r")
      case True
      then show ?thesis by (rule that(8))
    next
      case False
      with eq w consider (s) src v where "r = SExtExpr src v" | (z) src v where "r = ZExtExpr src v"
        | (b) k a b where "r = BinaryExpr k a b"
        by (cases r) (simp_all add: ConstArrayOpt_def)
      then show ?thesis
      proof cases
        case s
        with eq w show ?thesis using that(4) by simp
      next
        case z
        with eq w show ?thesis using that(5) by simp
      next
        case (b k a b)
        with eq w False have k: "k = Add \<or> k = Sub" by (cases k) simp_all
        with b eq w False obtain c where a: "a = ConstantExpr c" by (cases a) auto
        from k show ?thesis
        proof
          assume "k = Add"
          with a b eq w show ?thesis using that(6) by simp
        next
          assume "k = Sub"
          with a b eq w show ?thesis using that(7) by simp
        qed
      qed
    qed
  qed
qed

lemma EqExpr_createPartialR_weight:
    "EqExpr_createPartialR cl r = Some e \<Longrightarrow> weight e \<le> weight r + 2"
  and create_EqExpr_weight:
    "create_EqExpr l r = Some e \<Longrightarrow> weight e \<le> weight l + weight r + 1"
  and createIsZero_weight: "createIsZero x = Some e \<Longrightarrow> weight e \<le> weight x + 2"
  and "TryConstArrayOpt cl s ar us i = Some e \<Longrightarrow> True"
  and "TryConstArrayOpt_loop cl s ar us i ks n res = Some e \<Longrightarrow> True"
proof (induction cl r and l r and x and cl s ar us i and cl s ar us i ks n res
    arbitrary: e and e and e and e and e
    rule: EqExpr_createPartialR_create_EqExpr_createIsZero_TryConstArrayOpt_TryConstArrayOpt_loop.induct)
  case (1 cl r)
  note IH = "1.IH" and prem = "1.prems"
  show ?case
  proof (cases cl r rule: EqExpr_createPartialR_cases)
    case (or a b)
    with prem obtain nl nr where n: "createIsZero a = Some nl" "createIsZero b = Some nr"
      and e: "create_AndExpr nl nr = Some e"
      by (auto simp: bind_Some)
    from or n have "weight nl \<le> weight a + 2" "weight nr \<le> weight b + 2"
      using IH(1,2) by simp_all
    with create_AndExpr_weight [OF e] or show ?thesis by simp
  next
    case (sext src w)
    with prem consider "weight e = 1" | t where "create_EqExpr src (ConstantExpr t) = Some e"
        "CE_ZExt cl (getWidth src) = Some t" "CE_SExt t (ce_width cl) = Some cl"
      by (auto simp: bind_Some split: if_splits)
    then show ?thesis
      by cases (use sext IH(5) in force)+
  next
    case (zext src w)
    with prem consider "weight e = 1" | t where "create_EqExpr src (ConstantExpr t) = Some e"
        "CE_ZExt cl (getWidth src) = Some t" "CE_ZExt t (ce_width cl) = Some cl"
      by (auto simp: bind_Some split: if_splits)
    then show ?thesis
      by cases (use zext IH(4) in force)+
  next
    case (add c b)
    with prem IH(6) show ?thesis by (force simp: bind_Some)
  next
    case (sub c b)
    with prem IH(7) show ?thesis by (force simp: bind_Some)
  qed (use prem in \<open>auto dest: EqExpr_create_weight EqExpr_create_weight [OF sym]\<close>)
next
  case (2 l r)
  then show ?case
    by (auto simp: create_EqExpr.simps [of l r] fold_const_def bind_Some
        split: if_splits option.splits dest: EqExpr_create_weight)
next
  case (3 x)
  then show ?case by (fastforce simp: createIsZero.simps bind_Some)
qed simp_all

subsection \<open>Xor\<close>

definition XorExpr_createPartialR :: "const_expr \<Rightarrow> expr \<Rightarrow> expr option" where
  "XorExpr_createPartialR cl r =
     (if ce_isZero cl then Some r
      else if ce_width cl = 1 then do { z \<leftarrow> ce_create 0 1; EqExpr_createPartialR z r }
      else Some (BinaryExpr Xor (ConstantExpr cl) r))"

definition XorExpr_createPartial :: "expr \<Rightarrow> const_expr \<Rightarrow> expr option" where
  "XorExpr_createPartial l cr = XorExpr_createPartialR cr l"

definition XorExpr_create :: "expr \<Rightarrow> expr \<Rightarrow> expr option" where
  "XorExpr_create l r = Some (BinaryExpr Xor l r)"

definition create_XorExpr :: "expr \<Rightarrow> expr \<Rightarrow> expr option" where
  "create_XorExpr = BCREATE_R Xor XorExpr_createPartial XorExpr_createPartialR XorExpr_create"

lemma XorExpr_createPartialR_weight:
  "XorExpr_createPartialR cl r = Some e \<Longrightarrow> weight e \<le> weight r + 2"
  by (auto simp: XorExpr_createPartialR_def bind_Some split: if_splits
      dest!: EqExpr_createPartialR_weight)

subsection \<open>Add, Sub\<close>

text \<open>
  The test \<^verbatim>\<open>e->getKind() == k && isa<ConstantExpr>(e->getKid(0))\<close>, with the two kids when it
  holds.
\<close>

fun const_kid :: "bkind \<Rightarrow> expr \<Rightarrow> (const_expr \<times> expr) option" where
  "const_kid k (BinaryExpr k' (ConstantExpr c) b) = (if k' = k then Some (c, b) else None)"
| "const_kid k _ = None"

lemma const_kid_Some: "const_kid k e = Some (c, b) \<longleftrightarrow> e = BinaryExpr k (ConstantExpr c) b"
  by (cases "(k, e)" rule: const_kid.cases) auto

function (sequential) AddExpr_createPartialR :: "const_expr \<Rightarrow> expr \<Rightarrow> expr option"
  and AddExpr_create :: "expr \<Rightarrow> expr \<Rightarrow> expr option"
  and SubExpr_createPartialR :: "const_expr \<Rightarrow> expr \<Rightarrow> expr option"
  and SubExpr_create :: "expr \<Rightarrow> expr \<Rightarrow> expr option"
  and create_AddExpr :: "expr \<Rightarrow> expr \<Rightarrow> expr option"
  and create_SubExpr :: "expr \<Rightarrow> expr \<Rightarrow> expr option"
where
  "AddExpr_createPartialR cl r =
     (if ce_width cl = 1 then XorExpr_createPartialR cl r
      else if ce_isZero cl then Some r
      else case const_kid Add r of
        Some (b, c) \<Rightarrow>
          do { s \<leftarrow> create_AddExpr (ConstantExpr cl) (ConstantExpr b); create_AddExpr s c }
      | None \<Rightarrow> (case const_kid Sub r of
          Some (b, c) \<Rightarrow>
            do { s \<leftarrow> create_AddExpr (ConstantExpr cl) (ConstantExpr b); create_SubExpr s c }
        | None \<Rightarrow> Some (BinaryExpr Add (ConstantExpr cl) r)))"
| "AddExpr_create l r =
     (if getWidth l = 1 then XorExpr_create l r
      else case const_kid Add l of
        Some (k, a) \<Rightarrow> do { x \<leftarrow> create_AddExpr a r; create_AddExpr (ConstantExpr k) x }
      | None \<Rightarrow> (case const_kid Sub l of
          Some (k, a) \<Rightarrow> do { x \<leftarrow> create_SubExpr r a; create_AddExpr (ConstantExpr k) x }
        | None \<Rightarrow> (case const_kid Add r of
            Some (k, b) \<Rightarrow> do { x \<leftarrow> create_AddExpr l b; create_AddExpr (ConstantExpr k) x }
          | None \<Rightarrow> (case const_kid Sub r of
              Some (k, b) \<Rightarrow> do { x \<leftarrow> create_SubExpr l b; create_AddExpr (ConstantExpr k) x }
            | None \<Rightarrow> Some (BinaryExpr Add l r)))))"
| "SubExpr_createPartialR cl r =
     (if ce_width cl = 1 then XorExpr_createPartialR cl r
      else case const_kid Add r of
        Some (b, c) \<Rightarrow>
          do { s \<leftarrow> create_SubExpr (ConstantExpr cl) (ConstantExpr b); create_SubExpr s c }
      | None \<Rightarrow> (case const_kid Sub r of
          Some (b, c) \<Rightarrow>
            do { s \<leftarrow> create_SubExpr (ConstantExpr cl) (ConstantExpr b); create_AddExpr s c }
        | None \<Rightarrow> Some (BinaryExpr Sub (ConstantExpr cl) r)))"
| "SubExpr_create l r =
     (if getWidth l = 1 then XorExpr_create l r
      else if expr_eq l r then Some (ConstantExpr (ce_alloc 0 (getWidth l)))
      else case const_kid Add l of
        Some (k, a) \<Rightarrow> do { x \<leftarrow> create_SubExpr a r; create_AddExpr (ConstantExpr k) x }
      | None \<Rightarrow> (case const_kid Sub l of
          Some (k, a) \<Rightarrow> do { x \<leftarrow> create_AddExpr a r; create_SubExpr (ConstantExpr k) x }
        | None \<Rightarrow> (case const_kid Add r of
            Some (k, b) \<Rightarrow> do { x \<leftarrow> create_SubExpr l b; create_SubExpr x (ConstantExpr k) }
          | None \<Rightarrow> (case const_kid Sub r of
              Some (k, b) \<Rightarrow> do { x \<leftarrow> create_AddExpr l b; create_SubExpr x (ConstantExpr k) }
            | None \<Rightarrow> Some (BinaryExpr Sub l r)))))"
| "create_AddExpr l r =
     do { assert_that (getWidth l = getWidth r);
          case dyn_cast_Constant l of
            Some cl \<Rightarrow> (case dyn_cast_Constant r of
                Some cr \<Rightarrow> fold_const Add cl cr | None \<Rightarrow> AddExpr_createPartialR cl r)
          | None \<Rightarrow> (case dyn_cast_Constant r of
                Some cr \<Rightarrow> AddExpr_createPartialR cr l
              | None \<Rightarrow> AddExpr_create l r) }"
| "create_SubExpr l r =
     do { assert_that (getWidth l = getWidth r);
          case dyn_cast_Constant l of
            Some cl \<Rightarrow> (case dyn_cast_Constant r of
                Some cr \<Rightarrow> fold_const Sub cl cr | None \<Rightarrow> SubExpr_createPartialR cl r)
          | None \<Rightarrow> (case dyn_cast_Constant r of
                Some cr \<Rightarrow> do { m \<leftarrow> CE_Sub (ce_alloc 0 (ce_width cr)) cr; AddExpr_createPartialR m l }
              | None \<Rightarrow> SubExpr_create l r) }"
  by pat_completeness auto

lemma weight_const: "is_ConstantExpr e \<Longrightarrow> weight e = 1"
  by (cases e) auto

lemma AddSub_weight:
  "\<lbrakk>AddExpr_createPartialR_AddExpr_create_SubExpr_createPartialR_SubExpr_create_create_AddExpr_create_SubExpr_dom
      (Inl (Inl (cl, r))); AddExpr_createPartialR cl r = Some e\<rbrakk> \<Longrightarrow> weight e \<le> weight r + 2"
  "\<lbrakk>AddExpr_createPartialR_AddExpr_create_SubExpr_createPartialR_SubExpr_create_create_AddExpr_create_SubExpr_dom
      (Inl (Inr (Inl (l, r)))); AddExpr_create l r = Some e\<rbrakk> \<Longrightarrow> weight e \<le> weight l + weight r + 1"
  "\<lbrakk>AddExpr_createPartialR_AddExpr_create_SubExpr_createPartialR_SubExpr_create_create_AddExpr_create_SubExpr_dom
      (Inl (Inr (Inr (cl, r)))); SubExpr_createPartialR cl r = Some e\<rbrakk> \<Longrightarrow> weight e \<le> weight r + 2"
  "\<lbrakk>AddExpr_createPartialR_AddExpr_create_SubExpr_createPartialR_SubExpr_create_create_AddExpr_create_SubExpr_dom
      (Inr (Inl (l, r))); SubExpr_create l r = Some e\<rbrakk> \<Longrightarrow> weight e \<le> weight l + weight r + 1"
  "\<lbrakk>AddExpr_createPartialR_AddExpr_create_SubExpr_createPartialR_SubExpr_create_create_AddExpr_create_SubExpr_dom
      (Inr (Inr (Inl (l, r)))); create_AddExpr l r = Some e\<rbrakk>
    \<Longrightarrow> weight e \<le> weight l + weight r + 1 \<and> (is_ConstantExpr l \<and> is_ConstantExpr r \<longrightarrow> is_ConstantExpr e)"
  "\<lbrakk>AddExpr_createPartialR_AddExpr_create_SubExpr_createPartialR_SubExpr_create_create_AddExpr_create_SubExpr_dom
      (Inr (Inr (Inr (l, r)))); create_SubExpr l r = Some e\<rbrakk>
    \<Longrightarrow> weight e \<le> weight l + weight r + 1 \<and> (is_ConstantExpr l \<and> is_ConstantExpr r \<longrightarrow> is_ConstantExpr e)"
proof (induction cl r and l r and cl r and l r and l r and l r arbitrary: e and e and e and e and e and e
    rule: AddExpr_createPartialR_AddExpr_create_SubExpr_createPartialR_SubExpr_create_create_AddExpr_create_SubExpr.pinduct)
  case (1 cl r)
  from "1.prems" "1.IH" show ?case
    by (fastforce simp: AddExpr_createPartialR.psimps [OF "1.hyps"] bind_Some const_kid_Some weight_const
      split: if_splits option.splits dest!: XorExpr_createPartialR_weight)
next
  case (2 l r)
  from "2.prems" "2.IH" show ?case
    by (fastforce simp: AddExpr_create.psimps [OF "2.hyps"] bind_Some const_kid_Some XorExpr_create_def
      split: if_splits option.splits)
next
  case (3 cl r)
  from "3.prems" "3.IH" show ?case
    by (fastforce simp: SubExpr_createPartialR.psimps [OF "3.hyps"] bind_Some const_kid_Some weight_const
      split: if_splits option.splits dest!: XorExpr_createPartialR_weight)
next
  case (4 l r)
  from "4.prems" "4.IH" show ?case
    by (fastforce simp: SubExpr_create.psimps [OF "4.hyps"] bind_Some const_kid_Some XorExpr_create_def
      split: if_splits option.splits)
next
  case (5 l r)
  from "5.prems" "5.IH" show ?case
    by (auto simp: create_AddExpr.psimps [OF "5.hyps"] bind_Some fold_const_def split: option.splits)
next
  case (6 l r)
  from "6.prems" "6.IH" show ?case
    by (fastforce simp: create_SubExpr.psimps [OF "6.hyps"] bind_Some fold_const_def split: option.splits)
qed

termination AddExpr_createPartialR
  by (relation "measure (\<lambda>x. case x of
      Inl (Inl (cl, r)) \<Rightarrow> 4 * (1 + weight r)
    | Inl (Inr (Inl (l, r))) \<Rightarrow> 4 * (weight l + weight r) + 2
    | Inl (Inr (Inr (cl, r))) \<Rightarrow> 4 * (1 + weight r)
    | Inr (Inl (l, r)) \<Rightarrow> 4 * (weight l + weight r) + 2
    | Inr (Inr (Inl (l, r))) \<Rightarrow>
        4 * (weight l + weight r) + (if is_ConstantExpr l \<or> is_ConstantExpr r then 1 else 3)
    | Inr (Inr (Inr (l, r))) \<Rightarrow>
        4 * (weight l + weight r) + (if is_ConstantExpr l \<or> is_ConstantExpr r then 1 else 3))")
    (auto simp: const_kid_Some weight_const dest!: AddSub_weight)


declare AddExpr_createPartialR.simps [simp del] AddExpr_create.simps [simp del]
  SubExpr_createPartialR.simps [simp del] SubExpr_create.simps [simp del]
  create_AddExpr.simps [simp del] create_SubExpr.simps [simp del]

subsection \<open>Extract, Concat\<close>

fun dyn_cast_Concat :: "expr \<Rightarrow> (expr \<times> expr) option" where
  "dyn_cast_Concat (ConcatExpr l r) = Some (l, r)"
| "dyn_cast_Concat _ = None"

fun dyn_cast_Extract :: "expr \<Rightarrow> (expr \<times> nat \<times> nat) option" where
  "dyn_cast_Extract (ExtractExpr e off w) = Some (e, off, w)"
| "dyn_cast_Extract _ = None"

lemma dyn_cast_Concat_Some [simp]: "dyn_cast_Concat e = Some (l, r) \<longleftrightarrow> e = ConcatExpr l r"
  by (cases e) auto

lemma dyn_cast_Extract_Some [simp]:
  "dyn_cast_Extract e = Some (x, off, w) \<longleftrightarrow> e = ExtractExpr x off w"
  by (cases e) auto

definition both :: "(expr \<Rightarrow> 'a option) \<Rightarrow> expr \<Rightarrow> expr \<Rightarrow> ('a \<times> 'a) option" where
  "both cast l r = do { x \<leftarrow> cast l; y \<leftarrow> cast r; Some (x, y) }"

lemma both_Some: "both cast l r = Some (x, y) \<longleftrightarrow> cast l = Some x \<and> cast r = Some y"
  by (auto simp: both_def bind_Some)

text \<open>Widths are natural numbers: the sum of the widths of a concatenation does not wrap at \<open>2 ^ 32\<close> bits.\<close>

function (sequential) create_ExtractExpr :: "expr \<Rightarrow> nat \<Rightarrow> nat \<Rightarrow> expr option"
  and create_ConcatExpr :: "expr \<Rightarrow> expr \<Rightarrow> expr option"
where
  "create_ExtractExpr e off w =
     do { assert_that (0 < w \<and> off + w \<le> getWidth e);
          if w = getWidth e then Some e
          else case dyn_cast_Constant e of
            Some ce \<Rightarrow> do { c \<leftarrow> CE_Extract ce off w; Some (ConstantExpr c) }
          | None \<Rightarrow> (case dyn_cast_Concat e of
              Some (left, right) \<Rightarrow>
                if getWidth right \<le> off then create_ExtractExpr left (off - getWidth right) w
                else if off + w \<le> getWidth right then create_ExtractExpr right off w
                else do { x \<leftarrow> create_ExtractExpr left 0 (w + off - getWidth right);
                          y \<leftarrow> create_ExtractExpr right off (getWidth right - off);
                          create_ConcatExpr x y }
            | None \<Rightarrow> Some (ExtractExpr e off w)) }"
| "create_ConcatExpr l r =
     (case both dyn_cast_Constant l r of
        Some (cl, cr) \<Rightarrow> do { c \<leftarrow> CE_Concat cl cr; Some (ConstantExpr c) }
      | None \<Rightarrow> (case both dyn_cast_Extract l r of
          Some ((el, offl, wl), (er, offr, wr)) \<Rightarrow>
            if expr_eq el er \<and> offr + wr = offl
            then create_ExtractExpr el offr (getWidth l + getWidth r)
            else Some (ConcatExpr l r)
        | None \<Rightarrow> Some (ConcatExpr l r)))"
  by pat_completeness auto

lemma weight_erase [simp]: "weight (erase e) = weight e" "weight_node (erase_node n) = weight_node n"
  by (induction e and n) auto

lemma expr_eq_weight: "expr_eq a b \<Longrightarrow> weight a = weight b"
  unfolding expr_eq_def by (metis weight_erase(1))

lemma ExtractConcat_weight:
  "\<lbrakk>create_ExtractExpr_create_ConcatExpr_dom (Inl (e, off, w)); create_ExtractExpr e off w = Some x\<rbrakk>
    \<Longrightarrow> weight x \<le> 2 * weight e + 1"
  "\<lbrakk>create_ExtractExpr_create_ConcatExpr_dom (Inr (l, r)); create_ConcatExpr l r = Some x\<rbrakk>
    \<Longrightarrow> weight x \<le> weight l + weight r + 1"
proof (induction e off w and l r arbitrary: x and x
    rule: create_ExtractExpr_create_ConcatExpr.pinduct)
  case (1 e off w)
  note eq = create_ExtractExpr.psimps [OF "1.hyps"] and IH = "1.IH" and prem = "1.prems"
  show ?case
  proof (cases "w \<noteq> getWidth e \<and> (\<exists>l r. e = ConcatExpr l r)")
    case False
    with prem show ?thesis
      by (auto simp: eq bind_Some split: if_splits option.splits)
  next
    case True
    then obtain l r where e: "e = ConcatExpr l r" and w: "w \<noteq> getWidth e" by blast
    have as: "assert_that (0 < w \<and> off + w \<le> getWidth e) = Some ()"
      using prem eq by (auto simp: bind_Some)
    note IH' = IH [OF as w, unfolded e, simplified]
    consider "create_ExtractExpr l (off - getWidth r) w = Some x" "getWidth r \<le> off"
      | "create_ExtractExpr r off w = Some x" "\<not> getWidth r \<le> off" "off + w \<le> getWidth r"
      | y z where "\<not> getWidth r \<le> off" "\<not> off + w \<le> getWidth r"
          "create_ExtractExpr l 0 (w + off - getWidth r) = Some y"
          "create_ExtractExpr r off (getWidth r - off) = Some z"
          "create_ConcatExpr y z = Some x"
      using prem w unfolding eq unfolding e by (auto simp: bind_Some split: if_splits)
    then show ?thesis
    proof cases
      case 1
      with IH'(1) e show ?thesis by fastforce
    next
      case 2
      with IH'(2) e show ?thesis by fastforce
    next
      case (3 y z)
      then have "weight y \<le> 2 * weight l + 1" "weight z \<le> 2 * weight r + 1"
        "weight x \<le> weight y + weight z + 1"
        using IH'(3) [OF refl refl 3(1,2,3)] IH'(4) [OF refl refl 3(1,2,3,4)]
          IH'(5) [OF refl refl 3(1,2,3,4,5)] by auto
      with e show ?thesis by simp
    qed
  qed
next
  case (2 l r)
  note eq = create_ConcatExpr.psimps [OF "2.hyps"]
  consider (ext) el offl wl er offr wr where "l = ExtractExpr el offl wl"
      "r = ExtractExpr er offr wr" "expr_eq el er" "offr + wr = offl"
      "create_ExtractExpr el offr (getWidth l + getWidth r) = Some x"
    | (other) "weight x \<le> weight l + weight r + 1"
    using "2.prems" unfolding eq
    by (auto simp: bind_Some both_Some split: if_splits option.splits)
  then show ?case
  proof cases
    case ext
    then have "both dyn_cast_Constant l r = None"
      "both dyn_cast_Extract l r = Some ((el, offl, wl), (er, offr, wr))"
      by (simp_all add: both_def)
    from "2.IH" [OF this refl refl refl refl refl _ ext(5)] ext
    have "weight x \<le> 2 * weight el + 1" by simp
    with ext expr_eq_weight [OF ext(3)] show ?thesis by simp
  qed
qed

termination create_ExtractExpr
  by (relation "measure (\<lambda>x. case x of
      Inl (e, off, w) \<Rightarrow> 2 * weight e + 1 | Inr (l, r) \<Rightarrow> weight l + weight r)")
    (auto simp: both_Some dest!: ExtractConcat_weight expr_eq_weight)

declare create_ExtractExpr.simps [simp del] create_ConcatExpr.simps [simp del]

text \<open>\<^verbatim>\<open>ConcatExpr::createN\<close>: a chain unbalanced to the right.\<close>

fun create_ConcatExpr_N :: "expr list \<Rightarrow> expr option" where
  "create_ConcatExpr_N [] = None"
| "create_ConcatExpr_N [k] = Some k"
| "create_ConcatExpr_N (k # ks) = do { r \<leftarrow> create_ConcatExpr_N ks; create_ConcatExpr k r }"

definition create_ConcatExpr_4 :: "expr \<Rightarrow> expr \<Rightarrow> expr \<Rightarrow> expr \<Rightarrow> expr option" where
  "create_ConcatExpr_4 kid1 kid2 kid3 kid4 =
     do { a \<leftarrow> create_ConcatExpr kid3 kid4; b \<leftarrow> create_ConcatExpr kid2 a;
          create_ConcatExpr kid1 b }"

definition create_ConcatExpr_8 ::
    "expr \<Rightarrow> expr \<Rightarrow> expr \<Rightarrow> expr \<Rightarrow> expr \<Rightarrow> expr \<Rightarrow> expr \<Rightarrow> expr \<Rightarrow> expr option" where
  "create_ConcatExpr_8 kid1 kid2 kid3 kid4 kid5 kid6 kid7 kid8 =
     do { a \<leftarrow> create_ConcatExpr_4 kid5 kid6 kid7 kid8; b \<leftarrow> create_ConcatExpr kid4 a;
          c \<leftarrow> create_ConcatExpr kid3 b; d \<leftarrow> create_ConcatExpr kid2 c;
          create_ConcatExpr kid1 d }"

subsection \<open>Not, casts, NotOptimized\<close>

definition create_NotExpr :: "expr \<Rightarrow> expr option" where
  "create_NotExpr e =
     (case dyn_cast_Constant e of Some ce \<Rightarrow> Some (ConstantExpr (CE_Not ce)) | None \<Rightarrow> Some (NotExpr e))"

definition create_ZExtExpr :: "expr \<Rightarrow> nat \<Rightarrow> expr option" where
  "create_ZExtExpr e w =
     (if w = getWidth e then Some e
      else if w < getWidth e then create_ExtractExpr e 0 w
      else case dyn_cast_Constant e of
        Some ce \<Rightarrow> do { c \<leftarrow> CE_ZExt ce w; Some (ConstantExpr c) }
      | None \<Rightarrow> Some (ZExtExpr e w))"

definition create_SExtExpr :: "expr \<Rightarrow> nat \<Rightarrow> expr option" where
  "create_SExtExpr e w =
     (if w = getWidth e then Some e
      else if w < getWidth e then create_ExtractExpr e 0 w
      else case dyn_cast_Constant e of
        Some ce \<Rightarrow> do { c \<leftarrow> CE_SExt ce w; Some (ConstantExpr c) }
      | None \<Rightarrow> Some (SExtExpr e w))"

definition create_NotOptimizedExpr :: "expr \<Rightarrow> expr option" where
  "create_NotOptimizedExpr src = Some (NotOptimizedExpr src)"

subsection \<open>Read\<close>

text \<open>
  The loop of \<^verbatim>\<open>ReadExpr::create\<close> over the updates: the value of a write known to hit, or the
  node the loop stops at with whether it stopped because a write may or may not hit.
\<close>

fun ReadExpr_scan :: "expr \<Rightarrow> unode \<Rightarrow> (expr + unode \<times> bool) option" where
  "ReadExpr_scan index NullNode = Some (Inr (NullNode, False))"
| "ReadExpr_scan index (UpdateNode next uindex uvalue) =
     do { cond \<leftarrow> create_EqExpr index uindex;
          case dyn_cast_Constant cond of
            Some ce \<Rightarrow> if ce_isTrue ce then Some (Inl uvalue) else ReadExpr_scan index next
          | None \<Rightarrow> Some (Inr (UpdateNode next uindex uvalue, True)) }"

definition create_ReadExpr :: "array \<Rightarrow> unode \<Rightarrow> expr \<Rightarrow> expr option" where
  "create_ReadExpr root head index =
     do { found \<leftarrow> ReadExpr_scan index head;
          case found of
            Inl v \<Rightarrow> Some v
          | Inr (un, updateListHasSymbolicWrites) \<Rightarrow>
              (case dyn_cast_Constant index of
                 Some ce \<Rightarrow>
                   do { assert_that (ce_width ce \<le> 64);
                        concreteIndex \<leftarrow> ce_getZExtValue ce 64;
                        if nat concreteIndex < arr_size root then
                          if isConstantArray root \<and> \<not> updateListHasSymbolicWrites
                          then Some (ConstantExpr (constantValues root ! nat concreteIndex))
                          else Some (ReadExpr False root un index)
                        else Some (ReadExpr False root head index) }
               | None \<Rightarrow> Some (ReadExpr False root head index)) }"

subsection \<open>Select\<close>

definition create_SelectExpr :: "expr \<Rightarrow> expr \<Rightarrow> expr \<Rightarrow> expr option" where
  "create_SelectExpr c t f =
     do { assert_that (getWidth c = 1);
          assert_that (getWidth t = getWidth f);
          case dyn_cast_Constant c of
            Some ce \<Rightarrow> Some (if ce_isTrue ce then t else f)
          | None \<Rightarrow>
              if expr_eq t f then Some t
              else if getWidth t = 1 then
                (case dyn_cast_Constant t of
                   Some ce \<Rightarrow>
                     if ce_isTrue ce then create_OrExpr c f
                     else do { n \<leftarrow> createIsZero c; create_AndExpr n f }
                 | None \<Rightarrow> (case dyn_cast_Constant f of
                     Some ce \<Rightarrow>
                       if ce_isTrue ce then do { n \<leftarrow> createIsZero c; create_OrExpr n t }
                       else create_AndExpr c t
                   | None \<Rightarrow> Some (SelectExpr c t f)))
              else Some (SelectExpr c t f) }"

subsection \<open>Mul, division, shifts\<close>

definition MulExpr_createPartialR :: "const_expr \<Rightarrow> expr \<Rightarrow> expr option" where
  "MulExpr_createPartialR cl r =
     (if ce_width cl = 1 then AndExpr_createPartialR cl r
      else if ce_isOne cl then Some r
      else if ce_isZero cl then Some (ConstantExpr cl)
      else Some (BinaryExpr Mul (ConstantExpr cl) r))"

definition MulExpr_createPartial :: "expr \<Rightarrow> const_expr \<Rightarrow> expr option" where
  "MulExpr_createPartial l cr = MulExpr_createPartialR cr l"

definition MulExpr_create :: "expr \<Rightarrow> expr \<Rightarrow> expr option" where
  "MulExpr_create l r =
     (if getWidth l = 1 then Some (BinaryExpr And l r) else Some (BinaryExpr Mul l r))"

definition create_MulExpr :: "expr \<Rightarrow> expr \<Rightarrow> expr option" where
  "create_MulExpr = BCREATE_R Mul MulExpr_createPartial MulExpr_createPartialR MulExpr_create"

definition UDivExpr_create :: "expr \<Rightarrow> expr \<Rightarrow> expr option" where
  "UDivExpr_create l r = (if getWidth l = 1 then Some l else Some (BinaryExpr UDiv l r))"

definition SDivExpr_create :: "expr \<Rightarrow> expr \<Rightarrow> expr option" where
  "SDivExpr_create l r = (if getWidth l = 1 then Some l else Some (BinaryExpr SDiv l r))"

definition URemExpr_create :: "expr \<Rightarrow> expr \<Rightarrow> expr option" where
  "URemExpr_create l r =
     (if getWidth l = 1 then do { z \<leftarrow> ce_create 0 1; Some (ConstantExpr z) }
      else Some (BinaryExpr URem l r))"

definition SRemExpr_create :: "expr \<Rightarrow> expr \<Rightarrow> expr option" where
  "SRemExpr_create l r =
     (if getWidth l = 1 then do { z \<leftarrow> ce_create 0 1; Some (ConstantExpr z) }
      else Some (BinaryExpr SRem l r))"

definition ShlExpr_create :: "expr \<Rightarrow> expr \<Rightarrow> expr option" where
  "ShlExpr_create l r =
     (if getWidth l = 1 then do { n \<leftarrow> createIsZero r; create_AndExpr l n }
      else Some (BinaryExpr Shl l r))"

definition LShrExpr_create :: "expr \<Rightarrow> expr \<Rightarrow> expr option" where
  "LShrExpr_create l r =
     (if getWidth l = 1 then do { n \<leftarrow> createIsZero r; create_AndExpr l n }
      else Some (BinaryExpr LShr l r))"

definition AShrExpr_create :: "expr \<Rightarrow> expr \<Rightarrow> expr option" where
  "AShrExpr_create l r = (if getWidth l = 1 then Some l else Some (BinaryExpr AShr l r))"

definition create_UDivExpr :: "expr \<Rightarrow> expr \<Rightarrow> expr option" where
  "create_UDivExpr = BCREATE UDiv UDivExpr_create"

definition create_SDivExpr :: "expr \<Rightarrow> expr \<Rightarrow> expr option" where
  "create_SDivExpr = BCREATE SDiv SDivExpr_create"

definition create_URemExpr :: "expr \<Rightarrow> expr \<Rightarrow> expr option" where
  "create_URemExpr = BCREATE URem URemExpr_create"

definition create_SRemExpr :: "expr \<Rightarrow> expr \<Rightarrow> expr option" where
  "create_SRemExpr = BCREATE SRem SRemExpr_create"

definition create_ShlExpr :: "expr \<Rightarrow> expr \<Rightarrow> expr option" where
  "create_ShlExpr = BCREATE Shl ShlExpr_create"

definition create_LShrExpr :: "expr \<Rightarrow> expr \<Rightarrow> expr option" where
  "create_LShrExpr = BCREATE LShr LShrExpr_create"

definition create_AShrExpr :: "expr \<Rightarrow> expr \<Rightarrow> expr option" where
  "create_AShrExpr = BCREATE AShr AShrExpr_create"

subsection \<open>Comparisons\<close>

definition UltExpr_create :: "expr \<Rightarrow> expr \<Rightarrow> expr option" where
  "UltExpr_create l r =
     (if getWidth l = 1 then do { n \<leftarrow> createIsZero l; create_AndExpr n r }
      else Some (BinaryExpr Ult l r))"

definition UleExpr_create :: "expr \<Rightarrow> expr \<Rightarrow> expr option" where
  "UleExpr_create l r =
     (if getWidth l = 1 then do { n \<leftarrow> createIsZero l; create_OrExpr n r }
      else Some (BinaryExpr Ule l r))"

definition SltExpr_create :: "expr \<Rightarrow> expr \<Rightarrow> expr option" where
  "SltExpr_create l r =
     (if getWidth l = 1 then do { n \<leftarrow> createIsZero r; create_AndExpr l n }
      else Some (BinaryExpr Slt l r))"

definition SleExpr_create :: "expr \<Rightarrow> expr \<Rightarrow> expr option" where
  "SleExpr_create l r =
     (if getWidth l = 1 then do { n \<leftarrow> createIsZero r; create_OrExpr l n }
      else Some (BinaryExpr Sle l r))"

definition create_UltExpr :: "expr \<Rightarrow> expr \<Rightarrow> expr option" where
  "create_UltExpr = CMPCREATE Ult UltExpr_create"

definition create_UleExpr :: "expr \<Rightarrow> expr \<Rightarrow> expr option" where
  "create_UleExpr = CMPCREATE Ule UleExpr_create"

definition create_SltExpr :: "expr \<Rightarrow> expr \<Rightarrow> expr option" where
  "create_SltExpr = CMPCREATE Slt SltExpr_create"

definition create_SleExpr :: "expr \<Rightarrow> expr \<Rightarrow> expr option" where
  "create_SleExpr = CMPCREATE Sle SleExpr_create"

definition create_NeExpr :: "expr \<Rightarrow> expr \<Rightarrow> expr option" where
  "create_NeExpr l r =
     do { e \<leftarrow> create_EqExpr l r; z \<leftarrow> ce_create 0 1; create_EqExpr (ConstantExpr z) e }"

definition create_UgtExpr :: "expr \<Rightarrow> expr \<Rightarrow> expr option" where
  "create_UgtExpr l r = create_UltExpr r l"

definition create_UgeExpr :: "expr \<Rightarrow> expr \<Rightarrow> expr option" where
  "create_UgeExpr l r = create_UleExpr r l"

definition create_SgtExpr :: "expr \<Rightarrow> expr \<Rightarrow> expr option" where
  "create_SgtExpr l r = create_SltExpr r l"

definition create_SgeExpr :: "expr \<Rightarrow> expr \<Rightarrow> expr option" where
  "create_SgeExpr l r = create_SleExpr r l"

definition createImplies :: "expr \<Rightarrow> expr \<Rightarrow> expr option" where
  "createImplies hyp conc = do { n \<leftarrow> createIsZero hyp; create_OrExpr n conc }"

subsection \<open>Generic creation\<close>

text \<open>The \<^verbatim>\<open>BINARY_EXPR_CASE\<close> entries of \<^verbatim>\<open>Expr::createFromKind\<close>.\<close>

fun create_binary :: "bkind \<Rightarrow> expr \<Rightarrow> expr \<Rightarrow> expr option" where
  "create_binary Add = create_AddExpr" | "create_binary Sub = create_SubExpr"
| "create_binary Mul = create_MulExpr" | "create_binary UDiv = create_UDivExpr"
| "create_binary SDiv = create_SDivExpr" | "create_binary URem = create_URemExpr"
| "create_binary SRem = create_SRemExpr" | "create_binary And = create_AndExpr"
| "create_binary Or = create_OrExpr" | "create_binary Xor = create_XorExpr"
| "create_binary Shl = create_ShlExpr" | "create_binary LShr = create_LShrExpr"
| "create_binary AShr = create_AShrExpr" | "create_binary Eq = create_EqExpr"
| "create_binary Ne = create_NeExpr" | "create_binary Ult = create_UltExpr"
| "create_binary Ule = create_UleExpr" | "create_binary Ugt = create_UgtExpr"
| "create_binary Uge = create_UgeExpr" | "create_binary Slt = create_SltExpr"
| "create_binary Sle = create_SleExpr" | "create_binary Sgt = create_SgtExpr"
| "create_binary Sge = create_SgeExpr"

datatype create_arg = ArgExpr expr | ArgWidth nat

text \<open>\<^verbatim>\<open>Expr::createFromKind\<close>: wrong arguments and the kinds it rejects fail an assertion.\<close>

fun createFromKind :: "kind \<Rightarrow> create_arg list \<Rightarrow> expr option" where
  "createFromKind NotOptimized [ArgExpr e] = create_NotOptimizedExpr e"
| "createFromKind Select [ArgExpr c, ArgExpr t, ArgExpr f] = create_SelectExpr c t f"
| "createFromKind Concat [ArgExpr l, ArgExpr r] = create_ConcatExpr l r"
| "createFromKind ZExt [ArgExpr e, ArgWidth w] = create_ZExtExpr e w"
| "createFromKind SExt [ArgExpr e, ArgWidth w] = create_SExtExpr e w"
| "createFromKind (Binary k) [ArgExpr l, ArgExpr r] = create_binary k l r"
| "createFromKind _ _ = None"

text \<open>\<^verbatim>\<open>Expr::createTempRead\<close>: a little-endian read of a value at offset 0.\<close>

definition temp_read_byte :: "array \<Rightarrow> nat \<Rightarrow> expr option" where
  "temp_read_byte array i = create_ReadExpr array NullNode (ConstantExpr (ce_alloc (int i) 32))"

definition createTempRead :: "array \<Rightarrow> nat \<Rightarrow> expr option" where
  "createTempRead array w =
     (if w = 1 then do { b \<leftarrow> temp_read_byte array 0; create_ZExtExpr b 1 }
      else if w = 8 then temp_read_byte array 0
      else if w = 16 then
        do { b1 \<leftarrow> temp_read_byte array 1; b0 \<leftarrow> temp_read_byte array 0; create_ConcatExpr b1 b0 }
      else if w = 32 then
        do { b3 \<leftarrow> temp_read_byte array 3; b2 \<leftarrow> temp_read_byte array 2;
             b1 \<leftarrow> temp_read_byte array 1; b0 \<leftarrow> temp_read_byte array 0;
             create_ConcatExpr_4 b3 b2 b1 b0 }
      else if w = 64 then
        do { b7 \<leftarrow> temp_read_byte array 7; b6 \<leftarrow> temp_read_byte array 6;
             b5 \<leftarrow> temp_read_byte array 5; b4 \<leftarrow> temp_read_byte array 4;
             b3 \<leftarrow> temp_read_byte array 3; b2 \<leftarrow> temp_read_byte array 2;
             b1 \<leftarrow> temp_read_byte array 1; b0 \<leftarrow> temp_read_byte array 0;
             create_ConcatExpr_8 b7 b6 b5 b4 b3 b2 b1 b0 }
      else None)"

text \<open>
  \<^verbatim>\<open>rebuild\<close>: the same expression over new kids.
\<close>

fun rebuild :: "expr \<Rightarrow> expr list \<Rightarrow> expr option" where
  "rebuild (NotOptimizedExpr _) [e] = create_NotOptimizedExpr e"
| "rebuild (ReadExpr _ a us _) [i] = create_ReadExpr a us i"
| "rebuild (SelectExpr _ _ _) [c, t, f] = create_SelectExpr c t f"
| "rebuild (ConcatExpr _ _) [l, r] = create_ConcatExpr l r"
| "rebuild (ExtractExpr _ off w) [e] = create_ExtractExpr e off w"
| "rebuild (ZExtExpr _ w) [e] = create_ZExtExpr e w"
| "rebuild (SExtExpr _ w) [e] = create_SExtExpr e w"
| "rebuild (NotExpr _) [e] = create_NotExpr e"
| "rebuild (BinaryExpr k _ _) [l, r] = create_binary k l r"
| "rebuild _ _ = None"

end
