(* ===== verification/ExprCreateSound.thy ===== *)
theory ExprCreateSound
  imports ExprCreate
begin

text \<open>
  Soundness of the simplifying constructors: on well-formed operands of equal width every
  \<^verbatim>\<open>create\<close> function of \<open>ExprCreate\<close> returns, its result is well formed, has the width of the
  operation and has, in every environment, the value the operation is defined to have.
  \<open>denotes\<close> bundles these three facts, \<open>bin_spec\<close> is the contract of a binary operation.
\<close>

subsection \<open>Contracts\<close>

definition denotes :: "expr \<Rightarrow> nat \<Rightarrow> (env \<Rightarrow> int) \<Rightarrow> bool" where
  "denotes e w f \<longleftrightarrow> wf_expr e \<and> getWidth e = w \<and> (\<forall>\<rho>. eval \<rho> e = f \<rho>)"

lemma denotesI: "wf_expr e \<Longrightarrow> getWidth e = w \<Longrightarrow> (\<And>\<rho>. eval \<rho> e = f \<rho>) \<Longrightarrow> denotes e w f"
  by (simp add: denotes_def)

lemma denotesD:
  assumes "denotes e w f"
  shows "wf_expr e" "getWidth e = w" "eval \<rho> e = f \<rho>" "fits w (f \<rho>)" "0 < w"
  using assms eval_fits [of e \<rho>] wf_expr_width_pos [of e] by (auto simp: denotes_def)

lemma denotes_self: "wf_expr e \<Longrightarrow> denotes e (getWidth e) (\<lambda>\<rho>. eval \<rho> e)"
  by (simp add: denotes_def)

lemma denotes_cong: "denotes e w f \<Longrightarrow> (\<And>\<rho>. f \<rho> = g \<rho>) \<Longrightarrow> denotes e w g"
  by (simp add: denotes_def)

definition bin_spec :: "bkind \<Rightarrow> expr \<Rightarrow> expr \<Rightarrow> expr \<Rightarrow> bool" where
  "bin_spec k l r e \<longleftrightarrow> denotes e (if is_cmp k then 1 else getWidth l)
     (\<lambda>\<rho>. bin_sem \<rho> k (getWidth l) (eval \<rho> l) (eval \<rho> r))"

lemma bin_spec_plain: "wf_expr l \<Longrightarrow> wf_expr r \<Longrightarrow> getWidth l = getWidth r \<Longrightarrow> bin_spec k l r (BinaryExpr k l r)"
  by (simp add: bin_spec_def denotes_def)

lemma fold_const_sound:
  assumes "wf_const cl" "wf_const cr" "ce_width cl = ce_width cr" "div_kind k \<Longrightarrow> ce_value cr \<noteq> 0"
  shows "returns (fold_const k cl cr) (bin_spec k (ConstantExpr cl) (ConstantExpr cr))"
proof -
  obtain c where "CE_fold k cl cr = Some c" "wf_const c"
      "ce_width c = (if is_cmp k then 1 else ce_width cl)"
      "\<And>\<rho>. ce_value c = bin_sem \<rho> k (ce_width cl) (ce_value cl) (ce_value cr)"
    using CE_fold_correct [of cl cr k] assms by (auto simp: returns_iff)
  then show ?thesis by (simp add: fold_const_def bin_spec_def denotes_def)
qed

lemma BCREATE_sound:
  assumes "wf_expr l" "wf_expr r" "getWidth l = getWidth r"
    "\<And>c. div_kind k \<Longrightarrow> is_ConstantExpr l \<Longrightarrow> r = ConstantExpr c \<Longrightarrow> ce_value c \<noteq> 0"
    "\<not> (is_ConstantExpr l \<and> is_ConstantExpr r) \<Longrightarrow> returns (create l r) (bin_spec k l r)"
  shows "returns (BCREATE k create l r) (bin_spec k l r)"
  using assms by (auto simp: BCREATE_def intro!: fold_const_sound split: option.splits)

lemma BCREATE_R_sound:
  assumes "wf_expr l" "wf_expr r" "getWidth l = getWidth r" "\<not> div_kind k"
    "\<And>c. \<lbrakk>\<not> is_ConstantExpr l; r = ConstantExpr c\<rbrakk> \<Longrightarrow> returns (partialL l c) (bin_spec k l r)"
    "\<And>c. \<lbrakk>l = ConstantExpr c; \<not> is_ConstantExpr r\<rbrakk> \<Longrightarrow> returns (partialR c r) (bin_spec k l r)"
    "\<lbrakk>\<not> is_ConstantExpr l; \<not> is_ConstantExpr r\<rbrakk> \<Longrightarrow> returns (create l r) (bin_spec k l r)"
  shows "returns (BCREATE_R k partialL partialR create l r) (bin_spec k l r)"
  using assms by (auto simp: BCREATE_R_def intro!: fold_const_sound split: option.splits)

lemma and_mask [simp]: "fits w a \<Longrightarrow> a AND mask w = a" "fits w a \<Longrightarrow> mask w AND a = a"
  by (simp_all add: and.commute [of "mask w"] flip: take_bit_eq_mask)

lemma or_mask [simp]:
  assumes "fits w (a::int)"
  shows "a OR mask w = mask w" "mask w OR a = mask w"
proof -
  have "take_bit w (a OR - 1) = take_bit w a OR take_bit w (- 1)" by (rule take_bit_or)
  then show "a OR mask w = mask w" using assms by simp
  then show "mask w OR a = mask w" by (simp add: or.commute)
qed

lemma bin_spec_commute:
  assumes "getWidth l = getWidth r" "\<And>w a b \<rho>. bin_sem \<rho> k w a b = bin_sem \<rho> k w b a"
  shows "bin_spec k l r = bin_spec k r l"
  using assms(1) by (auto simp: bin_spec_def fun_eq_iff assms(2) [of _ _ "eval _ l"])

text \<open>The common case of \<^verbatim>\<open>BCREATE_R\<close>: a commutative operator with one partial constructor.\<close>

lemma BCREATE_R_commute_sound:
  assumes "wf_expr l" "wf_expr r" "getWidth l = getWidth r" "\<not> div_kind k"
    and comm: "\<And>w a b \<rho>. bin_sem \<rho> k w a b = bin_sem \<rho> k w b a"
    and partial: "\<And>x c. wf_expr x \<Longrightarrow> wf_const c \<Longrightarrow> getWidth x = ce_width c
       \<Longrightarrow> returns (partialL x c) (bin_spec k x (ConstantExpr c))"
    and flip: "\<And>x c. partialR c x = partialL x c"
    and create: "\<And>l r. wf_expr l \<Longrightarrow> wf_expr r \<Longrightarrow> getWidth l = getWidth r
       \<Longrightarrow> returns (create l r) (bin_spec k l r)"
  shows "returns (BCREATE_R k partialL partialR create l r) (bin_spec k l r)"
proof (intro BCREATE_R_sound)
  show "returns (partialR c r) (bin_spec k l r)" if "l = ConstantExpr c" for c
    using that assms(1-3) partial [of r c] bin_spec_commute [OF _ comm, of l r] by (simp add: flip)
qed (use assms in auto)

lemma AndExpr_createPartial_sound:
  assumes "wf_expr l" "wf_const c" "getWidth l = ce_width c"
  shows "returns (AndExpr_createPartial l c) (bin_spec And l (ConstantExpr c))"
  using assms eval_fits [OF assms(1)] wf_expr_width_pos [OF assms(1)]
  by (auto simp: AndExpr_createPartial_def bin_spec_def denotes_def ce_isAllOnes_iff ce_isZero_def)

theorem create_AndExpr_sound:
  assumes "wf_expr l" "wf_expr r" "getWidth l = getWidth r"
  shows "returns (create_AndExpr l r) (bin_spec And l r)"
  unfolding create_AndExpr_def using assms
  by (intro BCREATE_R_commute_sound)
   (simp_all add: AndExpr_createPartial_sound AndExpr_createPartialR_def AndExpr_create_def
      bin_spec_plain div_kind_def and.commute)

lemma OrExpr_createPartial_sound:
  assumes "wf_expr l" "wf_const c" "getWidth l = ce_width c"
  shows "returns (OrExpr_createPartial l c) (bin_spec Or l (ConstantExpr c))"
  using assms eval_fits [OF assms(1)] wf_expr_width_pos [OF assms(1)]
  by (auto simp: OrExpr_createPartial_def bin_spec_def denotes_def ce_isAllOnes_iff ce_isZero_def)

theorem create_OrExpr_sound:
  assumes "wf_expr l" "wf_expr r" "getWidth l = getWidth r"
  shows "returns (create_OrExpr l r) (bin_spec Or l r)"
  unfolding create_OrExpr_def using assms
  by (intro BCREATE_R_commute_sound)
   (simp_all add: OrExpr_createPartial_sound OrExpr_createPartialR_def OrExpr_create_def
      bin_spec_plain div_kind_def or.commute)

subsection \<open>Eq\<close>

lemma EqExpr_create_sound:
  assumes "wf_expr l" "wf_expr r" "getWidth l = getWidth r"
  shows "returns (EqExpr_create l r) (bin_spec Eq l r)"
  using assms by (auto simp: EqExpr_create_def bin_spec_plain bin_spec_def denotes_def expr_eq_eval)

lemma take_bit_ap_sext [simp]: "w \<le> w' \<Longrightarrow> take_bit w (ap_sext w w' v) = take_bit w v"
  by (simp add: ap_sext_def min_absorb1)

lemma ap_sext_eq_iff:
  assumes "w \<le> w'" "fits w a"
  shows "v = ap_sext w w' a \<longleftrightarrow> a = take_bit w v \<and> v = ap_sext w w' (take_bit w v)"
  using assms by auto

lemma zext_eq_iff: "w \<le> w' \<Longrightarrow> fits w a \<Longrightarrow> fits w' v \<Longrightarrow>
   v = a \<longleftrightarrow> a = take_bit w v \<and> v = take_bit w' (take_bit w v)"
  by (auto intro: fits_mono)

lemma take_bit_add_cancel:
  assumes "fits w v" "fits w b"
  shows "v = take_bit w (c + b) \<longleftrightarrow> take_bit w (v - c) = b"
proof
  assume "v = take_bit w (c + b)"
  then have "take_bit w (v - c) = take_bit w (take_bit w (c + b) - c)" by simp
  also have "\<dots> = take_bit w (c + b - c)"
    by (metis take_bit_diff take_bit_take_bit min.idem)
  finally show "take_bit w (v - c) = b" using assms by simp
next
  assume "take_bit w (v - c) = b"
  then have "take_bit w (c + b) = take_bit w (c + (v - c))"
    by (metis take_bit_add take_bit_take_bit min.idem)
  then show "v = take_bit w (c + b)" using assms by simp
qed

lemma take_bit_sub_cancel:
  assumes "fits w v" "fits w b"
  shows "v = take_bit w (c - b) \<longleftrightarrow> take_bit w (c - v) = b"
proof -
  have *: "take_bit w (c - b) = v \<Longrightarrow> fits w b \<Longrightarrow> take_bit w (c - v) = b" for v b
  proof -
    assume "take_bit w (c - b) = v" and b: "fits w b"
    then have "take_bit w (c - v) = take_bit w (c - (c - b))"
      by (metis take_bit_diff take_bit_take_bit min.idem)
    with b show "take_bit w (c - v) = b" by simp
  qed
  show ?thesis using *[of b v] *[of v b] assms by metis
qed

text \<open>Comparing with an extension: either the constant is the extension of its own
  truncation, or no source value extends to it.\<close>

lemma eq_trunc_step:
  assumes "\<And>\<rho>. (ce_value cl = eval \<rho> r) = (eval \<rho> src = ce_value t \<and> cl = back)"
    and "cl = back \<Longrightarrow> returns (create_EqExpr src (ConstantExpr t)) (bin_spec Eq src (ConstantExpr t))"
  shows "returns (if cl = back then create_EqExpr src (ConstantExpr t)
           else do { f \<leftarrow> ce_create 0 1; Some (ConstantExpr f) }) (bin_spec Eq (ConstantExpr cl) r)"
  using assms by (cases "cl = back") (auto simp: bin_spec_def denotes_def elim!: returns_mono)

lemma CE_ZExt_eq: "0 < w \<Longrightarrow> CE_ZExt c w = Some (CE w (take_bit w (ce_value c)))"
  by (cases c) simp

lemma CE_Sub_eq: "ce_width a = ce_width b \<Longrightarrow>
   CE_Sub a b = Some (CE (ce_width a) (take_bit (ce_width a) (ce_value a - ce_value b)))"
  by (cases a; cases b) simp

lemma CE_eqI: "ce_width c = w \<Longrightarrow> c = CE w v \<longleftrightarrow> ce_value c = v"
  by (cases c) auto

lemma eq_group_sound:
  "\<lbrakk>wf_const cl; wf_expr r; ce_width cl = getWidth r\<rbrakk>
     \<Longrightarrow> returns (EqExpr_createPartialR cl r) (bin_spec Eq (ConstantExpr cl) r)"
  "\<lbrakk>wf_expr l; wf_expr r; getWidth l = getWidth r\<rbrakk> \<Longrightarrow> returns (create_EqExpr l r) (bin_spec Eq l r)"
  "wf_expr x \<Longrightarrow> returns (createIsZero x) (\<lambda>e. denotes e 1 (\<lambda>\<rho>. of_bool (eval \<rho> x = 0)))"
  "TryConstArrayOpt cl s ar us i = TryConstArrayOpt cl s ar us i"
  "TryConstArrayOpt_loop cl s ar us i ks n res = TryConstArrayOpt_loop cl s ar us i ks n res"
proof (induction cl r and l r and x and cl s ar us i and cl s ar us i ks n res
    rule: EqExpr_createPartialR_create_EqExpr_createIsZero_TryConstArrayOpt_TryConstArrayOpt_loop.induct)
  case (1 cl r)
  note IH = "1.IH" and wf = "1.prems"
  have fv: "fits (ce_width cl) (ce_value cl)" using wf by (simp add: wf_const_def)
  show ?case
  proof (cases cl r rule: EqExpr_createPartialR_cases)
    case true
    then show ?thesis using wf eval_bool [of r]
      by (fastforce simp: bin_spec_def denotes_def ce_isTrue_iff)
  next
    case (notnot ce x)
    then show ?thesis using wf eval_bool [of x] ce_bool_cases [of cl]
      by (fastforce simp: bin_spec_def denotes_def ce_isFalse_def)
  next
    case (or a b)
    then have w: "wf_expr a" "wf_expr b" "getWidth a = 1" "getWidth b = 1" using wf by auto
    from or w IH(1) obtain na where na: "createIsZero a = Some na"
      and da: "denotes na 1 (\<lambda>\<rho>. of_bool (eval \<rho> a = 0))" by (auto simp: returns_iff)
    from IH(2) [OF or(1-3) refl na w(2)] obtain nb where nb: "createIsZero b = Some nb"
      and db: "denotes nb 1 (\<lambda>\<rho>. of_bool (eval \<rho> b = 0))" by (auto simp: returns_iff)
    from da db have "returns (create_AndExpr na nb) (bin_spec And na nb)"
      by (intro create_AndExpr_sound) (auto simp: denotes_def)
    with or na nb da db w wf ce_bool_cases [of cl] show ?thesis
      by (auto simp: bin_spec_def denotes_def or_eq_0_iff elim!: returns_mono)
  next
    case (sext src w)
    then have src: "wf_expr src" "getWidth src \<le> w" "ce_width cl = w" "0 < getWidth src" "0 < w"
      using wf wf_expr_width_pos by (auto simp: wf_const_def)
    let ?t = "CE (getWidth src) (take_bit (getWidth src) (ce_value cl))"
    let ?b = "CE w (ap_sext (getWidth src) w (take_bit (getWidth src) (ce_value cl)))"
    have "cl = ?b \<Longrightarrow> returns (create_EqExpr src (ConstantExpr ?t)) (bin_spec Eq src (ConstantExpr ?t))"
      by (rule IH(5) [OF sext(1,2) CE_ZExt_eq]) (use src in \<open>simp_all add: wf_const_def\<close>)
    then show ?thesis unfolding sext(3)
      using eq_trunc_step [of cl r src ?t ?b] src ap_sext_eq_iff [OF src(2) eval_fits [OF src(1)]]
      by (simp add: sext(2) CE_ZExt_eq CE_eqI)
  next
    case (zext src w)
    then have src: "wf_expr src" "getWidth src \<le> w" "ce_width cl = w" "0 < getWidth src" "0 < w"
      using wf wf_expr_width_pos by (auto simp: wf_const_def)
    let ?t = "CE (getWidth src) (take_bit (getWidth src) (ce_value cl))"
    let ?b = "CE w (take_bit w (take_bit (getWidth src) (ce_value cl)))"
    have "cl = ?b \<Longrightarrow> returns (create_EqExpr src (ConstantExpr ?t)) (bin_spec Eq src (ConstantExpr ?t))"
      by (rule IH(4) [OF zext(1,2) CE_ZExt_eq CE_ZExt_eq]) (use src in \<open>simp_all add: wf_const_def\<close>)
    then show ?thesis unfolding zext(3)
      using eq_trunc_step [of cl r src ?t ?b] src fv
        zext_eq_iff [OF src(2) eval_fits [OF src(1)], of "ce_value cl"]
      by (simp add: zext(2) CE_ZExt_eq CE_eqI)
  next
    case (add c b)
    let ?d = "CE (ce_width cl) (take_bit (ce_width cl) (ce_value cl - ce_value c))"
    have d: "CE_Sub cl c = Some ?d" using add wf by (intro CE_Sub_eq) simp
    have "returns (EqExpr_createPartialR ?d b) (bin_spec Eq (ConstantExpr ?d) b)"
      by (rule IH(6) [OF add(1,2) refl refl d]) (use add wf in \<open>auto simp: wf_const_def\<close>)
    then show ?thesis using add wf d fv eval_fits [of b] take_bit_add_cancel [of "ce_width cl" "ce_value cl"]
      by (auto simp: bin_spec_def denotes_def elim!: returns_mono)
  next
    case (sub c b)
    let ?d = "CE (ce_width c) (take_bit (ce_width c) (ce_value c - ce_value cl))"
    have d: "CE_Sub c cl = Some ?d" using sub wf by (intro CE_Sub_eq) simp
    have "returns (EqExpr_createPartialR ?d b) (bin_spec Eq (ConstantExpr ?d) b)"
      by (rule IH(7) [OF sub(1,2) refl refl d]) (use sub wf in \<open>auto simp: wf_const_def\<close>)
    then show ?thesis using sub wf d fv eval_fits [of b] take_bit_sub_cancel [of "ce_width cl" "ce_value cl"]
      by (auto simp: bin_spec_def denotes_def elim!: returns_mono)
  next
    case plain
    then show ?thesis using wf EqExpr_create_sound [of "ConstantExpr cl" r] by simp
  qed
next
  case (2 l r)
  have eq: "create_EqExpr l r =
      BCREATE_R Eq (\<lambda>l c. EqExpr_createPartialR c l) EqExpr_createPartialR EqExpr_create l r"
    by (simp add: create_EqExpr.simps BCREATE_R_def)
  have comm: "bin_spec Eq (ConstantExpr c) l = bin_spec Eq l (ConstantExpr c)"
    if "r = ConstantExpr c" for c
    using that "2.prems" by (intro bin_spec_commute) auto
  show ?case unfolding eq
    by (rule BCREATE_R_sound) (use 2 comm EqExpr_create_sound [of l r] in \<open>simp_all add: div_kind_def\<close>)
next
  case (3 x)
  then show ?case using wf_expr_width_pos [of x] "3.IH" [of "ce_alloc 0 (getWidth x)"]
    by (simp add: createIsZero.simps [of x] bin_spec_def)
qed simp_all

lemmas EqExpr_createPartialR_sound = eq_group_sound(1)
lemmas create_EqExpr_sound = eq_group_sound(2)
lemmas createIsZero_sound = eq_group_sound(3)

subsection \<open>The optimisation of equalities over constant arrays\<close>

text \<open>
  \<open>TryConstArrayOpt\<close> replaces an equality over a read of a constant array by a disjunction over
  the positions that hold the value. It is right wherever the index is inside the array.
\<close>

lemma wf_array_nth:
  assumes "wf_array a" "isConstantArray a" "k < arr_size a"
  shows "wf_const (constantValues a ! k)" "ce_width (constantValues a ! k) = arr_range a"
  using assms by (auto simp: wf_array_def isConstantArray_def isSymbolicArray_def list_all_iff)

lemma initial_read_constant:
  assumes "wf_array a" "isConstantArray a" "nat v < arr_size a" "ce_width cl = arr_range a"
  shows "ce_value cl = initial_read \<rho> a v \<longleftrightarrow> constantValues a ! nat v = cl"
  using assms wf_array_nth [OF assms(1-3)]
  by (cases cl; cases "constantValues a ! nat v") (auto simp: initial_read_def)

lemma index_eq_position:
  assumes "wf_array a" "k < arr_size a" "0 \<le> v"
  shows "v = take_bit (arr_domain a) (int k) \<longleftrightarrow> nat v = k"
proof -
  have "int k < int (2 ^ arr_domain a)" using assms by (simp add: wf_array_def del: of_nat_power)
  then have "take_bit (arr_domain a) (int k) = int k"
    by (intro take_bit_fits) (simp add: fits_def)
  with assms show ?thesis by auto
qed

lemma TryConstArrayOpt_loop_sound:
  assumes wf: "wf_expr (ReadExpr s a NullNode i)" "isConstantArray a"
    and cl: "wf_const cl" "ce_width cl = arr_range a"
    and inb: "nat (eval \<rho> i) < arr_size a"
  defines "goal \<equiv> of_bool (constantValues a ! nat (eval \<rho> i) = cl)"
  shows "\<lbrakk>wf_expr res; getWidth res = 1; set ks \<subseteq> {..<arr_size a};
      eval \<rho> res = 1 \<longrightarrow> goal = 1; nat (eval \<rho> i) \<notin> set ks \<longrightarrow> eval \<rho> res = goal\<rbrakk>
    \<Longrightarrow> returns (TryConstArrayOpt_loop cl s a NullNode i ks n res)
        (\<lambda>e. wf_expr e \<and> getWidth e = 1 \<and> eval \<rho> e = goal)"
proof (induction ks arbitrary: n res)
  case Nil
  then show ?case by simp
next
  case (Cons k ks)
  from wf have i: "wf_expr i" "wf_array a" "getWidth i = arr_domain a" "0 < arr_domain a"
    by (auto simp: wf_array_def)
  from eval_bool [OF Cons.prems(1)] Cons.prems(2) have bool: "eval \<rho> res = 0 \<or> eval \<rho> res = 1" by simp
  consider (miss) "cl \<noteq> constantValues a ! k" | (many) "cl = constantValues a ! k" "100 < n + 1"
    | (hit) "cl = constantValues a ! k" "\<not> 100 < n + 1"
    by blast
  then show ?case
  proof cases
    case miss
    have "returns (TryConstArrayOpt_loop cl s a NullNode i ks n res)
        (\<lambda>e. wf_expr e \<and> getWidth e = 1 \<and> eval \<rho> e = goal)"
      using miss bool Cons.prems by (intro Cons.IH) (auto simp: goal_def)
    with miss show ?thesis by simp
  next
    case many
    with EqExpr_create_sound [of "ConstantExpr cl" "ReadExpr s a NullNode i"] wf cl show ?thesis
      by (auto simp: bin_spec_def denotes_def goal_def initial_read_constant inb elim!: returns_mono)
  next
    case hit
    let ?k = "ConstantExpr (ce_alloc (int k) (getWidth i))"
    obtain m where m: "create_EqExpr i ?k = Some m" "bin_spec Eq i ?k m"
      using create_EqExpr_sound [of i ?k] i by (auto simp: returns_iff)
    then have mw: "wf_expr m" "getWidth m = 1" "eval \<rho> m = of_bool (nat (eval \<rho> i) = k)"
      using i Cons.prems(3) eval_nonneg [of i \<rho>]
      by (auto simp: bin_spec_def denotes_def index_eq_position)
    obtain res' where res': "create_OrExpr res m = Some res'" "bin_spec Or res m res'"
      using create_OrExpr_sound [of res m] Cons.prems mw by (auto simp: returns_iff)
    have "returns (TryConstArrayOpt_loop cl s a NullNode i ks (n + 1) res')
        (\<lambda>e. wf_expr e \<and> getWidth e = 1 \<and> eval \<rho> e = goal)"
      using res'(2) mw bool Cons.prems hit
      by (intro Cons.IH) (auto simp: bin_spec_def denotes_def goal_def)
    with m res' hit show ?thesis by simp
  qed
qed

theorem TryConstArrayOpt_sound:
  assumes "wf_expr (ReadExpr s a us i)" "wf_const cl" "ce_width cl = arr_range a"
    and "nat (eval \<rho> i) < arr_size a"
  shows "returns (TryConstArrayOpt cl s a us i)
    (\<lambda>e. wf_expr e \<and> getWidth e = 1 \<and> eval \<rho> e = of_bool (ce_value cl = eval \<rho> (ReadExpr s a us i)))"
proof (cases "isSymbolicArray a \<or> UpdateNode_getSize us \<noteq> 0")
  case True
  with EqExpr_create_sound [of "ConstantExpr cl" "ReadExpr s a us i"] assms show ?thesis
    by (auto simp: TryConstArrayOpt.simps bin_spec_def denotes_def elim!: returns_mono)
next
  case False
  then have us: "us = NullNode" and a: "isConstantArray a"
    by (cases us; simp add: isConstantArray_def)+
  with assms TryConstArrayOpt_loop_sound [of s a i cl \<rho> "ConstantExpr (ce_alloc 0 1)" "[0..<arr_size a]" 0]
  show ?thesis
    by (simp add: TryConstArrayOpt.simps False isConstantArray_def initial_read_constant lessThan_atLeast0)
qed

subsection \<open>Xor\<close>

lemma XorExpr_createPartialR_sound:
  assumes "wf_const cl" "wf_expr r" "ce_width cl = getWidth r"
  shows "returns (XorExpr_createPartialR cl r) (bin_spec Xor (ConstantExpr cl) r)"
proof (cases "\<not> ce_isZero cl \<and> ce_width cl = 1")
  case True
  then have "ce_value cl = 1" using assms by (auto simp: ce_isZero_def wf_const_def dest!: fits_bool_cases)
  then show ?thesis
    using True assms EqExpr_createPartialR_sound [of "ce_alloc 0 1" r] eval_bool [of r]
    by (fastforce simp: XorExpr_createPartialR_def bin_spec_def denotes_def elim!: returns_mono)
next
  case False
  then show ?thesis using assms
    by (auto simp: XorExpr_createPartialR_def ce_isZero_def bin_spec_plain bin_spec_def denotes_def)
qed

theorem create_XorExpr_sound:
  assumes "wf_expr l" "wf_expr r" "getWidth l = getWidth r"
  shows "returns (create_XorExpr l r) (bin_spec Xor l r)"
  unfolding create_XorExpr_def using assms
proof (intro BCREATE_R_commute_sound)
  fix x c assume "wf_expr x" "wf_const c" "getWidth x = ce_width c"
  then show "returns (XorExpr_createPartial x c) (bin_spec Xor x (ConstantExpr c))"
    using XorExpr_createPartialR_sound [of c x] bin_spec_commute [of x "ConstantExpr c" Xor]
    by (simp add: XorExpr_createPartial_def xor.commute)
qed (simp_all add: XorExpr_createPartial_def XorExpr_create_def bin_spec_plain div_kind_def xor.commute)

subsection \<open>Add, Sub\<close>

text \<open>At width one both are exclusive or.\<close>

lemma bin_spec_width_1:
  assumes "wf_expr l" "wf_expr r" "getWidth l = 1" "getWidth r = 1" "k = Add \<or> k = Sub"
  shows "bin_spec k l r = bin_spec Xor l r"
proof -
  have "bin_sem \<rho> k 1 (eval \<rho> l) (eval \<rho> r) = eval \<rho> l XOR eval \<rho> r" for \<rho>
    using eval_bool [of l \<rho>] eval_bool [of r \<rho>] assms by auto
  with assms show ?thesis by (auto simp: bin_spec_def fun_eq_iff)
qed

lemma bin_spec_Add_0:
  "\<lbrakk>ce_isZero c; wf_expr r; ce_width c = getWidth r\<rbrakk> \<Longrightarrow> bin_spec Add (ConstantExpr c) r r"
  by (simp add: bin_spec_def denotes_def ce_isZero_def)

text \<open>Two constructors in sequence, the second over the result of the first.\<close>

lemma two_step:
  assumes "\<lbrakk>wf_expr a; wf_expr b; getWidth a = getWidth b\<rbrakk> \<Longrightarrow> returns m (bin_spec k1 a b)"
    and "\<And>x. \<lbrakk>m = Some x; wf_expr (L x); wf_expr (R x); getWidth (L x) = getWidth (R x)\<rbrakk>
        \<Longrightarrow> returns (f x) (bin_spec k2 (L x) (R x))"
    and "wf_expr a" "wf_expr b" "getWidth a = getWidth b"
    and "\<And>x. bin_spec k1 a b x \<Longrightarrow> wf_expr (L x) \<and> wf_expr (R x) \<and> getWidth (L x) = getWidth (R x)"
    and "\<And>x e. bin_spec k1 a b x \<Longrightarrow> bin_spec k2 (L x) (R x) e \<Longrightarrow> bin_spec k l r e"
  shows "returns (m \<bind> f) (bin_spec k l r)"
proof -
  from assms(1,3-5) obtain x where x: "m = Some x" "bin_spec k1 a b x" by (auto simp: returns_iff)
  with assms(2) [OF x(1)] assms(6) [OF x(2)] have "returns (f x) (bin_spec k2 (L x) (R x))" by blast
  with x assms(7) show ?thesis by (auto elim: returns_mono)
qed

lemma take_bit_linear:
  "take_bit w (take_bit w a + b) = take_bit w (a + b)" "take_bit w (a + take_bit w b) = take_bit w (a + b)"
  "take_bit w (take_bit w a - b) = take_bit w (a - b)" "take_bit w (a - take_bit w b) = take_bit w (a - b)"
  for a b :: int
  by (simp_all add: take_bit_eq_mod mod_simps)

lemmas linear = bin_spec_def denotes_def take_bit_linear algebra_simps

lemma const_kid_cases [case_names add sub none]:
  obtains c b where "const_kid Add e = Some (c, b)" "e = BinaryExpr Add (ConstantExpr c) b"
  | c b where "const_kid Add e = None" "const_kid Sub e = Some (c, b)" "e = BinaryExpr Sub (ConstantExpr c) b"
  | "const_kid Add e = None" "const_kid Sub e = None"
  by (metis const_kid_Some not_None_eq surj_pair)

lemma AddSub_sound:
  "\<lbrakk>wf_const cl; wf_expr r; ce_width cl = getWidth r\<rbrakk>
    \<Longrightarrow> returns (AddExpr_createPartialR cl r) (bin_spec Add (ConstantExpr cl) r)"
  "\<lbrakk>wf_expr l; wf_expr r; getWidth l = getWidth r\<rbrakk> \<Longrightarrow> returns (AddExpr_create l r) (bin_spec Add l r)"
  "\<lbrakk>wf_const cl; wf_expr r; ce_width cl = getWidth r\<rbrakk>
    \<Longrightarrow> returns (SubExpr_createPartialR cl r) (bin_spec Sub (ConstantExpr cl) r)"
  "\<lbrakk>wf_expr l; wf_expr r; getWidth l = getWidth r\<rbrakk> \<Longrightarrow> returns (SubExpr_create l r) (bin_spec Sub l r)"
  "\<lbrakk>wf_expr l; wf_expr r; getWidth l = getWidth r\<rbrakk> \<Longrightarrow> returns (create_AddExpr l r) (bin_spec Add l r)"
  "\<lbrakk>wf_expr l; wf_expr r; getWidth l = getWidth r\<rbrakk> \<Longrightarrow> returns (create_SubExpr l r) (bin_spec Sub l r)"
proof (induction cl r and l r and cl r and l r and l r and l r
    rule: AddExpr_createPartialR_AddExpr_create_SubExpr_createPartialR_SubExpr_create_create_AddExpr_create_SubExpr.induct)
  case (1 cl r)
  note IH = "1.IH" and wf = "1.prems"
  consider (one) "ce_width cl = 1" | (zero) "ce_width cl \<noteq> 1" "ce_isZero cl" | (ok) "ce_width cl \<noteq> 1" "\<not> ce_isZero cl"
    by blast
  then show ?case
  proof cases
    case ok
    show ?thesis
    proof (cases r rule: const_kid_cases)
      case (add b c)
      have "returns (create_AddExpr (ConstantExpr cl) (ConstantExpr b) \<bind> (\<lambda>s. create_AddExpr s c))
          (bin_spec Add (ConstantExpr cl) r)"
        by (rule two_step [OF IH(3,4) [OF ok add(1) refl]]) (use wf in \<open>simp_all add: add linear\<close>)
      with ok add(1) show ?thesis by (simp add: AddExpr_createPartialR.simps [of cl r])
    next
      case (sub b c)
      have "returns (create_AddExpr (ConstantExpr cl) (ConstantExpr b) \<bind> (\<lambda>s. create_SubExpr s c))
          (bin_spec Add (ConstantExpr cl) r)"
        by (rule two_step [OF IH(1,2) [OF ok sub(1,2) refl]]) (use wf in \<open>simp_all add: sub linear\<close>)
      with ok sub(1,2) show ?thesis by (simp add: AddExpr_createPartialR.simps [of cl r])
    qed (use ok wf in \<open>simp add: AddExpr_createPartialR.simps [of cl r] bin_spec_plain\<close>)
  next
    case one
    with wf(3) have "getWidth r = 1" by simp
    with one wf(1,2) bin_spec_width_1 [of "ConstantExpr cl" r Add] XorExpr_createPartialR_sound [of cl r]
    show ?thesis by (simp add: AddExpr_createPartialR.simps [of cl r])
  next
    case zero
    with wf show ?thesis by (simp add: AddExpr_createPartialR.simps [of cl r] bin_spec_Add_0)
  qed
next
  case (2 l r)
  note IH = "2.IH" and wf = "2.prems"
  show ?case
  proof (cases "getWidth l = 1")
    case True
    with wf(3) have "getWidth r = 1" by simp
    with True wf(1,2) bin_spec_width_1 [of l r Add] bin_spec_plain [of l r Xor] show ?thesis
      by (simp add: AddExpr_create.simps [of l r] XorExpr_create_def)
  next
    case w: False
    show ?thesis
    proof (cases l rule: const_kid_cases)
      case (add k a)
      have "returns (create_AddExpr a r \<bind> create_AddExpr (ConstantExpr k)) (bin_spec Add l r)"
        by (rule two_step [OF IH(7,8) [OF w add(1) refl]]) (use wf in \<open>simp_all add: add linear\<close>)
      with w add(1) show ?thesis by (simp add: AddExpr_create.simps [of l r])
    next
      case (sub k a)
      have "returns (create_SubExpr r a \<bind> create_AddExpr (ConstantExpr k)) (bin_spec Add l r)"
        by (rule two_step [OF IH(5,6) [OF w sub(1,2) refl]]) (use wf in \<open>simp_all add: sub linear\<close>)
      with w sub(1,2) show ?thesis by (simp add: AddExpr_create.simps [of l r])
    next
      case l: none
      show ?thesis
      proof (cases r rule: const_kid_cases)
        case (add k b)
        have "returns (create_AddExpr l b \<bind> create_AddExpr (ConstantExpr k)) (bin_spec Add l r)"
          by (rule two_step [OF IH(3,4) [OF w l add(1) refl]]) (use wf in \<open>simp_all add: add linear\<close>)
        with w l add(1) show ?thesis by (simp add: AddExpr_create.simps [of l r])
      next
        case (sub k b)
        have "returns (create_SubExpr l b \<bind> create_AddExpr (ConstantExpr k)) (bin_spec Add l r)"
          by (rule two_step [OF IH(1,2) [OF w l sub(1,2) refl]]) (use wf in \<open>simp_all add: sub linear\<close>)
        with w l sub(1,2) show ?thesis by (simp add: AddExpr_create.simps [of l r])
      qed (use w l wf in \<open>simp add: AddExpr_create.simps [of l r] bin_spec_plain\<close>)
    qed
  qed
next
  case (3 cl r)
  note IH = "3.IH" and wf = "3.prems"
  show ?case
  proof (cases "ce_width cl = 1")
    case True
    with wf(3) have "getWidth r = 1" by simp
    with True wf(1,2) bin_spec_width_1 [of "ConstantExpr cl" r Sub] XorExpr_createPartialR_sound [of cl r]
    show ?thesis by (simp add: SubExpr_createPartialR.simps [of cl r])
  next
    case ok: False
    show ?thesis
    proof (cases r rule: const_kid_cases)
      case (add b c)
      have "returns (create_SubExpr (ConstantExpr cl) (ConstantExpr b) \<bind> (\<lambda>s. create_SubExpr s c))
          (bin_spec Sub (ConstantExpr cl) r)"
        by (rule two_step [OF IH(3,4) [OF ok add(1) refl]]) (use wf in \<open>simp_all add: add linear\<close>)
      with ok add(1) show ?thesis by (simp add: SubExpr_createPartialR.simps [of cl r])
    next
      case (sub b c)
      have "returns (create_SubExpr (ConstantExpr cl) (ConstantExpr b) \<bind> (\<lambda>s. create_AddExpr s c))
          (bin_spec Sub (ConstantExpr cl) r)"
        by (rule two_step [OF IH(1,2) [OF ok sub(1,2) refl]]) (use wf in \<open>simp_all add: sub linear\<close>)
      with ok sub(1,2) show ?thesis by (simp add: SubExpr_createPartialR.simps [of cl r])
    qed (use ok wf in \<open>simp add: SubExpr_createPartialR.simps [of cl r] bin_spec_plain\<close>)
  qed
next
  case (4 l r)
  note IH = "4.IH" and wf = "4.prems"
  consider (one) "getWidth l = 1" | (eq) "getWidth l \<noteq> 1" "expr_eq l r" | (w) "getWidth l \<noteq> 1" "\<not> expr_eq l r"
    by blast
  then show ?case
  proof cases
    case one
    with wf(3) have "getWidth r = 1" by simp
    with one wf(1,2) bin_spec_width_1 [of l r Sub] bin_spec_plain [of l r Xor] show ?thesis
      by (simp add: SubExpr_create.simps [of l r] XorExpr_create_def)
  next
    case eq
    with wf wf_expr_width_pos [of l] expr_eq_eval [of l r] show ?thesis
      by (simp add: SubExpr_create.simps [of l r] bin_spec_def denotes_def)
  next
    case w
    show ?thesis
    proof (cases l rule: const_kid_cases)
      case (add k a)
      have "returns (create_SubExpr a r \<bind> create_AddExpr (ConstantExpr k)) (bin_spec Sub l r)"
        by (rule two_step [OF IH(7,8) [OF w add(1) refl]]) (use wf in \<open>simp_all add: add linear\<close>)
      with w add(1) show ?thesis by (simp add: SubExpr_create.simps [of l r])
    next
      case (sub k a)
      have "returns (create_AddExpr a r \<bind> create_SubExpr (ConstantExpr k)) (bin_spec Sub l r)"
        by (rule two_step [OF IH(5,6) [OF w sub(1,2) refl]]) (use wf in \<open>simp_all add: sub linear\<close>)
      with w sub(1,2) show ?thesis by (simp add: SubExpr_create.simps [of l r])
    next
      case l: none
      show ?thesis
      proof (cases r rule: const_kid_cases)
        case (add k b)
        have "returns (create_SubExpr l b \<bind> (\<lambda>x. create_SubExpr x (ConstantExpr k))) (bin_spec Sub l r)"
          by (rule two_step [OF IH(3,4) [OF w l add(1) refl]]) (use wf in \<open>simp_all add: add linear\<close>)
        with w l add(1) show ?thesis by (simp add: SubExpr_create.simps [of l r])
      next
        case (sub k b)
        have "returns (create_AddExpr l b \<bind> (\<lambda>x. create_SubExpr x (ConstantExpr k))) (bin_spec Sub l r)"
          by (rule two_step [OF IH(1,2) [OF w l sub(1,2) refl]]) (use wf in \<open>simp_all add: sub linear\<close>)
        with w l sub(1,2) show ?thesis by (simp add: SubExpr_create.simps [of l r])
      qed (use w l wf in \<open>simp add: SubExpr_create.simps [of l r] bin_spec_plain\<close>)
    qed
  qed
next
  case (5 l r)
  have eq: "create_AddExpr l r =
      BCREATE_R Add (\<lambda>l c. AddExpr_createPartialR c l) AddExpr_createPartialR AddExpr_create l r"
    by (simp add: create_AddExpr.simps BCREATE_R_def)
  have comm: "bin_spec Add (ConstantExpr c) l = bin_spec Add l (ConstantExpr c)"
    if "r = ConstantExpr c" for c
    using that "5.prems" by (intro bin_spec_commute) (auto simp: add.commute)
  show ?case unfolding eq
    by (rule BCREATE_R_sound) (use 5 comm in \<open>simp_all add: div_kind_def\<close>)
next
  case (6 l r)
  let ?neg = "\<lambda>c. CE (ce_width c) (take_bit (ce_width c) (- ce_value c))"
  have neg: "CE_Sub (ce_alloc 0 (ce_width c)) c = Some (?neg c)" for c
    by (simp add: CE_Sub_eq)
  have eq: "create_SubExpr l r =
      BCREATE_R Sub (\<lambda>l c. AddExpr_createPartialR (?neg c) l) SubExpr_createPartialR SubExpr_create l r"
    by (simp add: create_SubExpr.simps BCREATE_R_def neg cong: option.case_cong)
  have flip: "bin_spec Add (ConstantExpr (?neg c)) l = bin_spec Sub l (ConstantExpr c)"
    if "r = ConstantExpr c" for c
    using that "6.prems" by (auto simp: fun_eq_iff linear)
  have partial: "returns (AddExpr_createPartialR (?neg c) l) (bin_spec Add (ConstantExpr (?neg c)) l)"
    if "\<not> is_ConstantExpr l" "r = ConstantExpr c" for c
    by (rule "6.IH"(2) [OF _ _ _ neg]) (use that "6.prems" in \<open>simp_all add: wf_const_def\<close>)
  show ?case unfolding eq
    by (rule BCREATE_R_sound) (use 6 flip partial in \<open>simp_all add: div_kind_def\<close>)
qed

lemmas create_AddExpr_sound = AddSub_sound(5)
lemmas create_SubExpr_sound = AddSub_sound(6)

subsection \<open>Extract, Concat\<close>

definition extract_spec :: "expr \<Rightarrow> nat \<Rightarrow> nat \<Rightarrow> expr \<Rightarrow> bool" where
  "extract_spec e off w x \<longleftrightarrow> denotes x w (\<lambda>\<rho>. take_bit w (drop_bit off (eval \<rho> e)))"

definition concat_spec :: "expr \<Rightarrow> expr \<Rightarrow> expr \<Rightarrow> bool" where
  "concat_spec l r x \<longleftrightarrow>
     denotes x (getWidth l + getWidth r) (\<lambda>\<rho>. push_bit (getWidth r) (eval \<rho> l) + eval \<rho> r)"

lemma extract_concat_high:
  assumes "fits wr b" "wr \<le> off"
  shows "drop_bit off (push_bit wr a + b) = drop_bit (off - wr) (a::int)"
proof -
  have "(a * 2 ^ wr + b) div 2 ^ wr = a" using assms(1) by (simp add: fits_def)
  then have "drop_bit wr (push_bit wr a + b) = a" by (simp add: drop_bit_eq_div push_bit_eq_mult)
  then have "drop_bit (off - wr) (drop_bit wr (push_bit wr a + b)) = drop_bit (off - wr) a" by simp
  with assms(2) show ?thesis by simp
qed

lemma extract_concat_low:
  assumes "off + w \<le> wr"
  shows "take_bit w (drop_bit off (push_bit wr a + b)) = take_bit w (drop_bit off (b::int))"
proof -
  have "take_bit (off + w) (push_bit wr a + b) = take_bit (off + w) (take_bit (off + w) (push_bit wr a) + b)"
    by (simp add: take_bit_linear)
  also have "take_bit (off + w) (push_bit wr a) = 0" using assms by (simp add: take_bit_push_bit)
  finally show ?thesis by (simp add: take_bit_drop_bit add.commute)
qed

lemma extract_concat_both:
  assumes "fits wr b" "off < wr" "wr < off + w"
  shows "push_bit (wr - off) (take_bit (w + off - wr) a) + take_bit (wr - off) (drop_bit off b)
    = take_bit w (drop_bit off (push_bit wr a + (b::int)))"
proof -
  have "bit (push_bit (wr - off) (take_bit (w + off - wr) a) OR take_bit (wr - off) (drop_bit off b)) n
      = bit (take_bit w (drop_bit off (push_bit wr a OR take_bit wr b))) n" for n
    using assms(2,3)
    by (auto simp: bit_or_iff bit_push_bit_iff bit_take_bit_iff bit_drop_bit_eq add.commute)
  then show ?thesis using assms(1)
    by (simp add: concat_or_eq_plus bit_eq_iff flip: concat_or_eq_plus)
qed

lemma concat_extract_adjacent:
  "push_bit wr (take_bit wl (drop_bit (offr + wr) x)) + take_bit wr (drop_bit offr x)
    = take_bit (wl + wr) (drop_bit offr (x::int))"
proof -
  have "push_bit wr (take_bit wl (drop_bit (offr + wr) x)) OR take_bit wr (drop_bit offr x)
    = take_bit (wl + wr) (drop_bit offr x)"
    by (rule bit_eqI) (auto simp: bit_or_iff bit_push_bit_iff bit_take_bit_iff bit_drop_bit_eq)
  then show ?thesis by (simp add: concat_or_eq_plus)
qed

lemma ExtractConcat_sound:
  "\<lbrakk>wf_expr e; 0 < w; off + w \<le> getWidth e\<rbrakk> \<Longrightarrow> returns (create_ExtractExpr e off w) (extract_spec e off w)"
  "\<lbrakk>wf_expr l; wf_expr r\<rbrakk> \<Longrightarrow> returns (create_ConcatExpr l r) (concat_spec l r)"
proof (induction e off w and l r rule: create_ExtractExpr_create_ConcatExpr.induct)
  case (1 e off w)
  note eq = create_ExtractExpr.simps [of e off w] and IH = "1.IH" and wf = "1.prems"
  from wf have as: "assert_that (0 < w \<and> off + w \<le> getWidth e) = Some ()" by simp
  consider (whole) "w = getWidth e" | (const) c where "w \<noteq> getWidth e" "e = ConstantExpr c"
    | (concat) l r where "w \<noteq> getWidth e" "e = ConcatExpr l r"
    | (plain) "w \<noteq> getWidth e" "dyn_cast_Constant e = None" "dyn_cast_Concat e = None"
    by (metis dyn_cast_Concat_Some dyn_cast_Constant_Some not_None_eq surj_pair)
  then show ?case
  proof cases
    case whole
    with wf have "off = 0" by simp
    with whole wf show ?thesis unfolding eq by (simp add: extract_spec_def denotes_def)
  next
    case (const c)
    with wf CE_Extract_correct [of c w off] show ?thesis unfolding eq
      by (auto simp: returns_iff extract_spec_def denotes_def)
  next
    case plain
    with wf show ?thesis unfolding eq by (auto simp: extract_spec_def denotes_def split: option.split)
  next
    case (concat l r)
    then have h: "w \<noteq> getWidth e" "dyn_cast_Constant e = None" "dyn_cast_Concat e = Some (l, r)" by auto
    have lr: "wf_expr l" "wf_expr r" using wf concat by auto
    consider (high) "getWidth r \<le> off" | (low) "\<not> getWidth r \<le> off" "off + w \<le> getWidth r"
      | (split) "\<not> getWidth r \<le> off" "\<not> off + w \<le> getWidth r" by blast
    then show ?thesis
    proof cases
      case high
      with IH(1) [OF as h refl high lr(1)] wf concat h as lr show ?thesis unfolding eq
        by (auto simp: extract_spec_def denotes_def extract_concat_high elim!: returns_mono)
    next
      case low
      with IH(2) [OF as h refl low lr(2)] wf h as lr show ?thesis unfolding eq
        by (auto simp: extract_spec_def denotes_def extract_concat_low concat elim!: returns_mono)
    next
      case split
      then have b: "0 < w + off - getWidth r" "0 + (w + off - getWidth r) \<le> getWidth l"
          "0 < getWidth r - off" "off + (getWidth r - off) \<le> getWidth r"
        using wf(3) concat by auto
      obtain x where x: "create_ExtractExpr l 0 (w + off - getWidth r) = Some x"
          "extract_spec l 0 (w + off - getWidth r) x"
        using IH(3) [OF as h refl split lr(1) b(1,2)] by (auto simp: returns_iff)
      obtain y where y: "create_ExtractExpr r off (getWidth r - off) = Some y"
          "extract_spec r off (getWidth r - off) y"
        using IH(4) [OF as h refl split x(1) lr(2) b(3,4)] by (auto simp: returns_iff)
      have "returns (create_ConcatExpr x y) (concat_spec x y)"
        using IH(5) [OF as h refl split x(1) y(1)] x y by (simp add: extract_spec_def denotes_def)
      with x y split wf h as lr concat show ?thesis unfolding eq
        by (auto simp: extract_spec_def concat_spec_def denotes_def extract_concat_both elim!: returns_mono)
    qed
  qed
next
  case (2 l r)
  note eq = create_ConcatExpr.simps [of l r]
  consider (const) c d where "both dyn_cast_Constant l r = Some (c, d)"
    | (ext) el offl wl er offr wr where "both dyn_cast_Constant l r = None"
        "both dyn_cast_Extract l r = Some ((el, offl, wl), (er, offr, wr))"
        "expr_eq el er \<and> offr + wr = offl"
    | (plain) "create_ConcatExpr l r = Some (ConcatExpr l r)"
    using eq by (cases "both dyn_cast_Constant l r"; cases "both dyn_cast_Extract l r")
      (auto split: if_splits)
  then show ?case
  proof cases
    case (const c d)
    then have [simp]: "l = ConstantExpr c" "r = ConstantExpr d" by (auto simp: both_Some)
    from "2.prems" CE_Concat_correct [of c d] show ?thesis unfolding eq
      by (auto simp: both_def returns_iff concat_spec_def denotes_def)
  next
    case (ext el offl wl er offr wr)
    then have [simp]: "l = ExtractExpr el offl wl" "r = ExtractExpr er offr wr" by (auto simp: both_Some)
    have "returns (create_ExtractExpr el offr (wl + wr)) (extract_spec el offr (wl + wr))"
      using "2.IH" [OF ext(1,2) refl refl refl refl refl ext(3)] "2.prems" ext(3) by simp
    with ext(3) "2.prems" expr_eq_eval [of el er] show ?thesis unfolding eq
      by (auto simp: both_def extract_spec_def concat_spec_def denotes_def concat_extract_adjacent
          elim!: returns_mono)
  next
    case plain
    with "2.prems" show ?thesis by (simp add: concat_spec_def denotes_def)
  qed
qed

lemmas create_ExtractExpr_sound = ExtractConcat_sound(1)
lemmas create_ConcatExpr_sound = ExtractConcat_sound(2)

subsection \<open>Not, casts, Select\<close>

lemma CE_Not_eq: "CE_Not c = CE (ce_width c) (take_bit (ce_width c) (NOT (ce_value c)))"
  by (cases c) simp

theorem create_NotExpr_sound:
  "wf_expr e \<Longrightarrow> returns (create_NotExpr e)
     (\<lambda>x. denotes x (getWidth e) (\<lambda>\<rho>. take_bit (getWidth e) (NOT (eval \<rho> e))))"
  by (cases e) (auto simp: create_NotExpr_def denotes_def wf_const_def CE_Not_eq)

theorem create_ZExtExpr_sound:
  assumes "wf_expr e" "0 < w"
  shows "returns (create_ZExtExpr e w) (\<lambda>x. denotes x w (\<lambda>\<rho>. take_bit w (eval \<rho> e)))"
proof -
  consider "w = getWidth e" | "w < getWidth e" | "getWidth e < w" by linarith
  then show ?thesis
  proof cases
    case 2
    with assms create_ExtractExpr_sound [of e w 0] show ?thesis
      by (simp add: create_ZExtExpr_def extract_spec_def [abs_def])
  qed (use assms in \<open>auto simp: create_ZExtExpr_def denotes_def CE_ZExt_eq wf_const_def fits_mono split: option.split\<close>)
qed

lemma CE_SExt_eq: "0 < w \<Longrightarrow> CE_SExt c w = Some (CE w (ap_sext (ce_width c) w (ce_value c)))"
  by (cases c) simp

lemma ap_sext_narrow: "w' \<le> w \<Longrightarrow> ap_sext w w' v = take_bit w' v"
  unfolding ap_sext_def
  by (metis min.absorb1 take_bit_ap_signed take_bit_take_bit)

theorem create_SExtExpr_sound:
  assumes "wf_expr e" "0 < w"
  shows "returns (create_SExtExpr e w) (\<lambda>x. denotes x w (\<lambda>\<rho>. ap_sext (getWidth e) w (eval \<rho> e)))"
proof -
  consider "w = getWidth e" | "w < getWidth e" | "getWidth e < w" by linarith
  then show ?thesis
  proof cases
    case 2
    with assms create_ExtractExpr_sound [of e w 0] show ?thesis
      by (simp add: create_SExtExpr_def extract_spec_def [abs_def] ap_sext_narrow)
  qed (use assms in \<open>auto simp: create_SExtExpr_def denotes_def CE_SExt_eq wf_const_def ap_sext_narrow
        split: option.split\<close>)
qed

theorem create_SelectExpr_sound:
  assumes "wf_expr c" "wf_expr t" "wf_expr f" "getWidth c = 1" "getWidth t = getWidth f"
  shows "returns (create_SelectExpr c t f)
    (\<lambda>x. denotes x (getWidth t) (\<lambda>\<rho>. if eval \<rho> c = 1 then eval \<rho> t else eval \<rho> f))"
proof -
  obtain n where n: "createIsZero c = Some n" "denotes n 1 (\<lambda>\<rho>. of_bool (eval \<rho> c = 0))"
    using createIsZero_sound [OF assms(1)] by (auto simp: returns_iff)
  have c01: "eval \<rho> c = 0 \<or> eval \<rho> c = 1" for \<rho> using eval_bool [of c \<rho>] assms by simp
  show ?thesis
  proof (cases "\<not> is_ConstantExpr c \<and> \<not> expr_eq t f \<and> getWidth t = 1
      \<and> (is_ConstantExpr t \<or> is_ConstantExpr f)")
    case False
    with assms show ?thesis
      by (auto simp: create_SelectExpr_def denotes_def ce_isTrue_iff expr_eq_eval split: option.splits)
  next
    case True
    then have t01: "eval \<rho> t = 0 \<or> eval \<rho> t = 1" and f01: "eval \<rho> f = 0 \<or> eval \<rho> f = 1" for \<rho>
      using eval_bool [of t \<rho>] eval_bool [of f \<rho>] assms by simp_all
    have w: "getWidth t = 1" "getWidth f = 1" "wf_expr n" "getWidth n = 1"
      and n01: "eval \<rho> n = of_bool (eval \<rho> c = 0)" for \<rho>
      using True assms(5) n(2) by (simp_all add: denotes_def)
    have vals: "ce_value ce = of_bool (ce_isTrue ce)" if "t = ConstantExpr ce \<or> f = ConstantExpr ce" for ce
      using that assms w by (auto simp: ce_isTrue_iff wf_const_def dest!: fits_bool_cases)
    consider (tt) ce where "t = ConstantExpr ce" "ce_isTrue ce" "create_SelectExpr c t f = create_OrExpr c f"
      | (tf) ce where "t = ConstantExpr ce" "\<not> ce_isTrue ce" "create_SelectExpr c t f = create_AndExpr n f"
      | (ft) ce where "f = ConstantExpr ce" "ce_isTrue ce" "create_SelectExpr c t f = create_OrExpr n t"
      | (ff) ce where "f = ConstantExpr ce" "\<not> ce_isTrue ce" "create_SelectExpr c t f = create_AndExpr c t"
    proof (cases "dyn_cast_Constant t")
      case (Some ce)
      with True w n(1) assms(4) that(1,2) show ?thesis
        by (cases "ce_isTrue ce") (simp_all add: create_SelectExpr_def)
    next
      case None
      with True obtain ce where "f = ConstantExpr ce" by (cases f) auto
      with None True w n(1) assms(4) that(3,4) show ?thesis
        by (cases "ce_isTrue ce") (simp_all add: create_SelectExpr_def)
    qed
    then show ?thesis
    proof cases
      case (tt ce)
      then have "eval \<rho> c OR eval \<rho> f = (if eval \<rho> c = 1 then eval \<rho> t else eval \<rho> f)" for \<rho>
        using c01 [of \<rho>] f01 [of \<rho>] vals [of ce] by auto
      with tt create_OrExpr_sound [of c f] assms w show ?thesis
        by (simp add: bin_spec_def [abs_def] denotes_def split del: if_split)
    next
      case (tf ce)
      then have "of_bool (eval \<rho> c = 0) AND eval \<rho> f = (if eval \<rho> c = 1 then eval \<rho> t else eval \<rho> f)" for \<rho>
        using c01 [of \<rho>] f01 [of \<rho>] vals [of ce] by auto
      with tf create_AndExpr_sound [of n f] assms w n01 show ?thesis
        by (simp add: bin_spec_def [abs_def] denotes_def split del: if_split)
    next
      case (ft ce)
      then have "of_bool (eval \<rho> c = 0) OR eval \<rho> t = (if eval \<rho> c = 1 then eval \<rho> t else eval \<rho> f)" for \<rho>
        using c01 [of \<rho>] t01 [of \<rho>] vals [of ce] by auto
      with ft create_OrExpr_sound [of n t] assms w n01 show ?thesis
        by (simp add: bin_spec_def [abs_def] denotes_def split del: if_split)
    next
      case (ff ce)
      then have "eval \<rho> c AND eval \<rho> t = (if eval \<rho> c = 1 then eval \<rho> t else eval \<rho> f)" for \<rho>
        using c01 [of \<rho>] t01 [of \<rho>] vals [of ce] by auto
      with ff create_AndExpr_sound [of c t] assms w show ?thesis
        by (simp add: bin_spec_def [abs_def] denotes_def split del: if_split)
    qed
  qed
qed


subsection \<open>Multiplication, division, shifts\<close>

text \<open>
  A division is specified where the divisor is not zero. Folding a constant divided by the
  constant zero is the one case in which a constructor on well-formed operands aborts.
\<close>

definition safe_spec :: "bkind \<Rightarrow> expr \<Rightarrow> expr \<Rightarrow> expr \<Rightarrow> bool" where
  "safe_spec k l r e \<longleftrightarrow> wf_expr e \<and> getWidth e = (if is_cmp k then 1 else getWidth l)
     \<and> (\<forall>\<rho>. (div_kind k \<longrightarrow> eval \<rho> r \<noteq> 0)
          \<longrightarrow> eval \<rho> e = bin_sem \<rho> k (getWidth l) (eval \<rho> l) (eval \<rho> r))"

definition const_div_zero :: "bkind \<Rightarrow> expr \<Rightarrow> expr \<Rightarrow> bool" where
  "const_div_zero k l r \<longleftrightarrow> div_kind k \<and> is_ConstantExpr l
     \<and> (case dyn_cast_Constant r of Some c \<Rightarrow> ce_value c = 0 | None \<Rightarrow> False)"

lemma bin_spec_safe: "bin_spec k l r e \<Longrightarrow> safe_spec k l r e"
  by (simp add: bin_spec_def denotes_def safe_spec_def)

lemma safe_spec_bin: "\<not> div_kind k \<Longrightarrow> safe_spec k l r = bin_spec k l r"
  by (auto simp: bin_spec_def denotes_def safe_spec_def)

lemma BCREATE_safe:
  assumes "wf_expr l" "wf_expr r" "getWidth l = getWidth r" "\<not> const_div_zero k l r"
    and "\<not> (is_ConstantExpr l \<and> is_ConstantExpr r) \<Longrightarrow> returns (create l r) (safe_spec k l r)"
  shows "returns (BCREATE k create l r) (safe_spec k l r)"
  using assms
  by (auto simp: BCREATE_def const_div_zero_def intro!: returns_mono [OF fold_const_sound] bin_spec_safe
      split: option.splits)

text \<open>One-bit operands: what each constructor returns instead of a division, a shift or a comparison.\<close>

lemma one_bit_values:
  assumes "a = 0 \<or> a = 1" "b = 0 \<or> b = 1"
  shows "bin_sem \<rho> Mul 1 a b = a AND b"
    "div_kind UDiv \<longrightarrow> b \<noteq> 0 \<Longrightarrow> bin_sem \<rho> UDiv 1 a b = a" "div_kind SDiv \<longrightarrow> b \<noteq> 0 \<Longrightarrow> bin_sem \<rho> SDiv 1 a b = a"
    "div_kind URem \<longrightarrow> b \<noteq> 0 \<Longrightarrow> bin_sem \<rho> URem 1 a b = 0" "div_kind SRem \<longrightarrow> b \<noteq> 0 \<Longrightarrow> bin_sem \<rho> SRem 1 a b = 0"
    "bin_sem \<rho> Shl 1 a b = a AND of_bool (b = 0)" "bin_sem \<rho> LShr 1 a b = a AND of_bool (b = 0)"
    "bin_sem \<rho> AShr 1 a b = a"
    "bin_sem \<rho> Ult 1 a b = of_bool (a = 0) AND b" "bin_sem \<rho> Ule 1 a b = of_bool (a = 0) OR b"
    "bin_sem \<rho> Slt 1 a b = a AND of_bool (b = 0)" "bin_sem \<rho> Sle 1 a b = a OR of_bool (b = 0)"
  using assms
  by (elim disjE, simp_all add: ap_signed_def ap_sdiv_def ap_srem_def ap_shl_def ap_lshr_def
      ap_ashr_def signed_modulo_int_def div_kind_def)+

lemma MulExpr_createPartialR_sound:
  assumes "wf_const cl" "wf_expr r" "ce_width cl = getWidth r"
  shows "returns (MulExpr_createPartialR cl r) (bin_spec Mul (ConstantExpr cl) r)"
proof (cases "ce_width cl = 1")
  case True
  then have r: "getWidth r = 1" using assms by simp
  have "bin_sem \<rho> Mul 1 (ce_value cl) (eval \<rho> r) = eval \<rho> r AND ce_value cl" for \<rho>
    using eval_bool [of r \<rho>] eval_bool [of "ConstantExpr cl" \<rho>] True r assms(1,2)
    using one_bit_values(1) [of "ce_value cl" "eval \<rho> r" \<rho>] by (simp add: and.commute)
  with True r assms(1,2) AndExpr_createPartial_sound [of r cl] show ?thesis
    by (simp add: MulExpr_createPartialR_def AndExpr_createPartialR_def bin_spec_def [abs_def])
next
  case False
  with assms show ?thesis
    by (auto simp: MulExpr_createPartialR_def bin_spec_plain bin_spec_def denotes_def ce_isZero_def ce_isOne_iff)
qed

theorem create_MulExpr_sound:
  assumes "wf_expr l" "wf_expr r" "getWidth l = getWidth r"
  shows "returns (create_MulExpr l r) (bin_spec Mul l r)"
  unfolding create_MulExpr_def using assms
proof (intro BCREATE_R_commute_sound)
  fix x c assume "wf_expr x" "wf_const c" "getWidth x = ce_width c"
  then show "returns (MulExpr_createPartial x c) (bin_spec Mul x (ConstantExpr c))"
    using MulExpr_createPartialR_sound [of c x] bin_spec_commute [of x "ConstantExpr c" Mul]
    by (simp add: MulExpr_createPartial_def mult.commute)
next
  fix l r assume lr: "wf_expr l" "wf_expr r" "getWidth l = getWidth r"
  show "returns (MulExpr_create l r) (bin_spec Mul l r)"
  proof (cases "getWidth l = 1")
    case True
    with lr have "getWidth r = 1" by simp
    with True lr(1,2) eval_bool [of l] eval_bool [of r] show ?thesis
      by (simp add: MulExpr_create_def bin_spec_def denotes_def one_bit_values(1) [simplified])
  qed (use lr in \<open>simp add: MulExpr_create_def bin_spec_plain\<close>)
qed (simp_all add: MulExpr_createPartial_def div_kind_def mult.commute)


lemma one_bit_safe:
  assumes "returns m (\<lambda>e. denotes e 1 (\<lambda>\<rho>. g (eval \<rho> l) (eval \<rho> r)))"
    and "wf_expr l" "wf_expr r" "getWidth l = 1" "getWidth r = 1"
    and "\<And>\<rho> a b. \<lbrakk>a = 0 \<or> a = 1; b = 0 \<or> b = 1; div_kind k \<longrightarrow> b \<noteq> 0\<rbrakk> \<Longrightarrow> bin_sem \<rho> k 1 a b = g a b"
  shows "returns m (safe_spec k l r)"
  using assms(1)
proof (rule returns_mono)
  fix e assume e: "denotes e 1 (\<lambda>\<rho>. g (eval \<rho> l) (eval \<rho> r))"
  have "g (eval \<rho> l) (eval \<rho> r) = bin_sem \<rho> k (getWidth l) (eval \<rho> l) (eval \<rho> r)"
    if "div_kind k \<longrightarrow> eval \<rho> r \<noteq> 0" for \<rho>
    using that eval_bool [of l \<rho>] eval_bool [of r \<rho>] assms(2-5)
    by (simp only: assms(4)) (rule assms(6) [symmetric]; simp)
  with e assms(4) show "safe_spec k l r e" by (simp add: safe_spec_def denotes_def)
qed

lemma and_or_isZero_sound:
  assumes "wf_expr a" "wf_expr b" "getWidth a = 1" "getWidth b = 1"
  shows "returns (do { n \<leftarrow> createIsZero b; create_AndExpr a n }) (\<lambda>e. denotes e 1 (\<lambda>\<rho>. eval \<rho> a AND of_bool (eval \<rho> b = 0)))"
    "returns (do { n \<leftarrow> createIsZero b; create_AndExpr n a }) (\<lambda>e. denotes e 1 (\<lambda>\<rho>. of_bool (eval \<rho> b = 0) AND eval \<rho> a))"
    "returns (do { n \<leftarrow> createIsZero b; create_OrExpr a n }) (\<lambda>e. denotes e 1 (\<lambda>\<rho>. eval \<rho> a OR of_bool (eval \<rho> b = 0)))"
    "returns (do { n \<leftarrow> createIsZero b; create_OrExpr n a }) (\<lambda>e. denotes e 1 (\<lambda>\<rho>. of_bool (eval \<rho> b = 0) OR eval \<rho> a))"
proof -
  obtain n where n: "createIsZero b = Some n" "denotes n 1 (\<lambda>\<rho>. of_bool (eval \<rho> b = 0))"
    using createIsZero_sound [of b] assms by (auto simp: returns_iff)
  then have "wf_expr n" "getWidth n = 1" "eval \<rho> n = of_bool (eval \<rho> b = 0)" for \<rho>
    by (simp_all add: denotes_def)
  with n(1) assms create_AndExpr_sound [of a n] create_AndExpr_sound [of n a]
    create_OrExpr_sound [of a n] create_OrExpr_sound [of n a]
  show "returns (do { n \<leftarrow> createIsZero b; create_AndExpr a n }) (\<lambda>e. denotes e 1 (\<lambda>\<rho>. eval \<rho> a AND of_bool (eval \<rho> b = 0)))"
    "returns (do { n \<leftarrow> createIsZero b; create_AndExpr n a }) (\<lambda>e. denotes e 1 (\<lambda>\<rho>. of_bool (eval \<rho> b = 0) AND eval \<rho> a))"
    "returns (do { n \<leftarrow> createIsZero b; create_OrExpr a n }) (\<lambda>e. denotes e 1 (\<lambda>\<rho>. eval \<rho> a OR of_bool (eval \<rho> b = 0)))"
    "returns (do { n \<leftarrow> createIsZero b; create_OrExpr n a }) (\<lambda>e. denotes e 1 (\<lambda>\<rho>. of_bool (eval \<rho> b = 0) OR eval \<rho> a))"
    by (simp_all add: bin_spec_def [abs_def])
qed

text \<open>The constructors whose one-bit case is special and which otherwise build the node.\<close>

lemma BCREATE_one_bit:
  assumes "wf_expr l" "wf_expr r" "getWidth l = getWidth r" "\<not> const_div_zero k l r"
    and "\<And>l r. create l r = (if getWidth l = 1 then one l r else Some (BinaryExpr k l r))"
    and "\<lbrakk>getWidth l = 1; getWidth r = 1\<rbrakk> \<Longrightarrow> returns (one l r) (\<lambda>e. denotes e 1 (\<lambda>\<rho>. g (eval \<rho> l) (eval \<rho> r)))"
    and "\<And>\<rho> a b. \<lbrakk>a = 0 \<or> a = 1; b = 0 \<or> b = 1; div_kind k \<longrightarrow> b \<noteq> 0\<rbrakk> \<Longrightarrow> bin_sem \<rho> k 1 a b = g a b"
  shows "returns (BCREATE k create l r) (safe_spec k l r)"
proof (rule BCREATE_safe [OF assms(1-4)])
  show "returns (create l r) (safe_spec k l r)"
  proof (cases "getWidth l = 1")
    case True
    with assms(3) have "getWidth r = 1" by simp
    with True assms(1,2,6,7) show ?thesis by (simp only: assms(5) if_True) (rule one_bit_safe; simp)
  next
    case False
    with assms show ?thesis by (simp add: bin_spec_safe bin_spec_plain)
  qed
qed

lemma create_div_sound:
  assumes "wf_expr l" "wf_expr r" "getWidth l = getWidth r"
  shows "\<not> const_div_zero UDiv l r \<Longrightarrow> returns (create_UDivExpr l r) (safe_spec UDiv l r)"
    and "\<not> const_div_zero SDiv l r \<Longrightarrow> returns (create_SDivExpr l r) (safe_spec SDiv l r)"
    and "\<not> const_div_zero URem l r \<Longrightarrow> returns (create_URemExpr l r) (safe_spec URem l r)"
    and "\<not> const_div_zero SRem l r \<Longrightarrow> returns (create_SRemExpr l r) (safe_spec SRem l r)"
proof -
  show "returns (create_UDivExpr l r) (safe_spec UDiv l r)" if "\<not> const_div_zero UDiv l r"
    unfolding create_UDivExpr_def
    by (rule BCREATE_one_bit [OF assms that UDivExpr_create_def _ one_bit_values(2)])
      (use assms(1) in \<open>simp_all add: denotes_def\<close>)
  show "returns (create_SDivExpr l r) (safe_spec SDiv l r)" if "\<not> const_div_zero SDiv l r"
    unfolding create_SDivExpr_def
    by (rule BCREATE_one_bit [OF assms that SDivExpr_create_def _ one_bit_values(3)])
      (use assms(1) in \<open>simp_all add: denotes_def\<close>)
  show "returns (create_URemExpr l r) (safe_spec URem l r)" if "\<not> const_div_zero URem l r"
    unfolding create_URemExpr_def
    by (rule BCREATE_one_bit [OF assms that URemExpr_create_def _ one_bit_values(4)])
      (simp_all add: denotes_def)
  show "returns (create_SRemExpr l r) (safe_spec SRem l r)" if "\<not> const_div_zero SRem l r"
    unfolding create_SRemExpr_def
    by (rule BCREATE_one_bit [OF assms that SRemExpr_create_def _ one_bit_values(5)])
      (simp_all add: denotes_def)
qed

lemma not_const_div_zero [simp]: "\<not> div_kind k \<Longrightarrow> \<not> const_div_zero k l r"
  by (simp add: const_div_zero_def)

lemma create_shift_sound:
  assumes "wf_expr l" "wf_expr r" "getWidth l = getWidth r"
  shows "returns (create_ShlExpr l r) (safe_spec Shl l r)"
    and "returns (create_LShrExpr l r) (safe_spec LShr l r)"
    and "returns (create_AShrExpr l r) (safe_spec AShr l r)"
  unfolding create_ShlExpr_def create_LShrExpr_def create_AShrExpr_def
  by (rule BCREATE_one_bit [OF assms _ ShlExpr_create_def _ one_bit_values(6)]
      BCREATE_one_bit [OF assms _ LShrExpr_create_def _ one_bit_values(7)]
      BCREATE_one_bit [OF assms _ AShrExpr_create_def _ one_bit_values(8)];
      (rule and_or_isZero_sound)?; use assms in \<open>simp add: div_kind_def denotes_def\<close>)+

lemma create_cmp_sound:
  assumes "wf_expr l" "wf_expr r" "getWidth l = getWidth r"
  shows "returns (create_UltExpr l r) (safe_spec Ult l r)"
    and "returns (create_UleExpr l r) (safe_spec Ule l r)"
    and "returns (create_SltExpr l r) (safe_spec Slt l r)"
    and "returns (create_SleExpr l r) (safe_spec Sle l r)"
  unfolding create_UltExpr_def create_UleExpr_def create_SltExpr_def create_SleExpr_def CMPCREATE_def
  by (rule BCREATE_one_bit [OF assms _ UltExpr_create_def _ one_bit_values(9)]
      BCREATE_one_bit [OF assms _ UleExpr_create_def _ one_bit_values(10)]
      BCREATE_one_bit [OF assms _ SltExpr_create_def _ one_bit_values(11)]
      BCREATE_one_bit [OF assms _ SleExpr_create_def _ one_bit_values(12)];
      (rule and_or_isZero_sound)?; use assms in \<open>simp add: div_kind_def denotes_def\<close>)+

lemma create_NeExpr_sound:
  assumes "wf_expr l" "wf_expr r" "getWidth l = getWidth r"
  shows "returns (create_NeExpr l r) (bin_spec Ne l r)"
proof -
  obtain e where e: "create_EqExpr l r = Some e" "bin_spec Eq l r e"
    using create_EqExpr_sound [OF assms] by (auto simp: returns_iff)
  then have e': "wf_expr e" "getWidth e = 1" "eval \<rho> e = of_bool (eval \<rho> l = eval \<rho> r)" for \<rho>
    by (simp_all add: bin_spec_def denotes_def)
  with create_EqExpr_sound [of "ConstantExpr (ce_alloc 0 1)" e] e(1) show ?thesis
    by (auto simp: create_NeExpr_def bin_spec_def denotes_def elim!: returns_mono)
qed

text \<open>Every binary constructor keeps its contract.\<close>

theorem create_binary_sound:
  assumes "wf_expr l" "wf_expr r" "getWidth l = getWidth r" "\<not> const_div_zero k l r"
  shows "returns (create_binary k l r) (safe_spec k l r)"
proof -
  have swap: "safe_spec Ult r l = safe_spec Ugt l r" "safe_spec Ule r l = safe_spec Uge l r"
    "safe_spec Slt r l = safe_spec Sgt l r" "safe_spec Sle r l = safe_spec Sge l r"
    using assms(3) by (auto simp: safe_spec_def div_kind_def)
  show ?thesis
    using assms create_AndExpr_sound [OF assms(1-3)] create_OrExpr_sound [OF assms(1-3)]
      create_XorExpr_sound [OF assms(1-3)] create_AddExpr_sound [OF assms(1-3)]
      create_SubExpr_sound [OF assms(1-3)] create_MulExpr_sound [OF assms(1-3)]
      create_EqExpr_sound [OF assms(1-3)] create_NeExpr_sound [OF assms(1-3)]
      create_div_sound [OF assms(1-3)] create_shift_sound [OF assms(1-3)]
      create_cmp_sound [OF assms(1-3)] create_cmp_sound [OF assms(2,1) assms(3) [symmetric]]
    by (cases k) (simp_all add: safe_spec_bin div_kind_def swap create_UgtExpr_def create_UgeExpr_def
        create_SgtExpr_def create_SgeExpr_def)
qed

subsection \<open>Read\<close>

lemma ReadExpr_scan_sound:
  "\<lbrakk>wf_array a; wf_expr index; getWidth index = arr_domain a; wf_unode a us\<rbrakk>
    \<Longrightarrow> returns (ReadExpr_scan index us) (\<lambda>res. case res of
      Inl v \<Rightarrow> denotes v (arr_range a) (\<lambda>\<rho>. eval_read \<rho> a us (eval \<rho> index))
    | Inr (un, sy) \<Rightarrow> wf_unode a un \<and> (\<not> sy \<longrightarrow> un = NullNode)
        \<and> (\<forall>\<rho>. eval_read \<rho> a us (eval \<rho> index) = eval_read \<rho> a un (eval \<rho> index)))"
proof (induction index us rule: ReadExpr_scan.induct)
  case (2 index n ui uv)
  then obtain cond where cond: "create_EqExpr index ui = Some cond"
      "wf_expr cond" "getWidth cond = 1" "\<And>\<rho>. eval \<rho> cond = of_bool (eval \<rho> index = eval \<rho> ui)"
    using create_EqExpr_sound [of index ui] by (auto simp: returns_iff bin_spec_def denotes_def)
  show ?case
  proof (cases "dyn_cast_Constant cond")
    case None
    with cond "2.prems" show ?thesis by simp
  next
    case (Some ce)
    then have ce: "ce_value ce = of_bool (eval \<rho> index = eval \<rho> ui)" for \<rho> using cond(4) by simp
    show ?thesis
    proof (cases "ce_isTrue ce")
      case True
      then have "eval \<rho> ui = eval \<rho> index" for \<rho> using ce [of \<rho>] by (auto simp: ce_isTrue_def)
      with True Some cond "2.prems" show ?thesis by (simp add: denotes_def)
    next
      case False
      then have "eval \<rho> ui \<noteq> eval \<rho> index" for \<rho>
        using ce [of \<rho>] Some cond(3) by (auto simp: ce_isTrue_def)
      with False Some cond "2.prems" "2.IH" [OF cond(1) Some False] show ?thesis
        by (auto elim!: returns_mono split: sum.splits)
    qed
  qed
qed simp_all

theorem create_ReadExpr_sound:
  assumes "wf_array a" "wf_unode a us" "wf_expr index" "getWidth index = arr_domain a"
  shows "returns (create_ReadExpr a us index)
    (\<lambda>e. denotes e (arr_range a) (\<lambda>\<rho>. eval_read \<rho> a us (eval \<rho> index)))"
proof -
  obtain res where res: "ReadExpr_scan index us = Some res" and spec: "case res of
      Inl v \<Rightarrow> denotes v (arr_range a) (\<lambda>\<rho>. eval_read \<rho> a us (eval \<rho> index))
    | Inr (un, sy) \<Rightarrow> wf_unode a un \<and> (\<not> sy \<longrightarrow> un = NullNode)
        \<and> (\<forall>\<rho>. eval_read \<rho> a us (eval \<rho> index) = eval_read \<rho> a un (eval \<rho> index))"
    using ReadExpr_scan_sound [OF assms(1,3,4,2)] by (auto simp: returns_iff)
  show ?thesis
  proof (cases res)
    case (Inl v)
    with res spec show ?thesis by (simp add: create_ReadExpr_def)
  next
    case (Inr p)
    obtain un sy where p: "p = (un, sy)" by force
    have d64: "arr_domain a \<le> 64" using assms(1) by (simp add: wf_array_def)
    show ?thesis
    proof (cases "dyn_cast_Constant index")
      case None
      with Inr p res spec assms show ?thesis by (simp add: create_ReadExpr_def denotes_def)
    next
      case (Some ce)
      with Inr p res spec assms d64 wf_array_nth [of a "nat (ce_value ce)"] show ?thesis
        by (auto simp: create_ReadExpr_def denotes_def ce_getZExtValue_def initial_read_def)
    qed
  qed
qed

subsection \<open>Chains of concatenations, reads of temporaries\<close>

fun concat_value :: "(nat \<times> int) list \<Rightarrow> int" where
  "concat_value [] = 0"
| "concat_value ((w, v) # ks) = push_bit (sum_list (map fst ks)) v + concat_value ks"

theorem create_ConcatExpr_N_sound:
  assumes "ks \<noteq> []" "\<forall>k \<in> set ks. wf_expr k"
  shows "returns (create_ConcatExpr_N ks) (\<lambda>e. denotes e (sum_list (map getWidth ks))
    (\<lambda>\<rho>. concat_value (map (\<lambda>k. (getWidth k, eval \<rho> k)) ks)))"
  using assms
proof (induction ks rule: create_ConcatExpr_N.induct)
  case (2 k)
  then show ?case by (simp add: denotes_def)
next
  case (3 k x ks)
  then obtain r where r: "create_ConcatExpr_N (x # ks) = Some r"
    "denotes r (sum_list (map getWidth (x # ks)))
       (\<lambda>\<rho>. concat_value (map (\<lambda>k. (getWidth k, eval \<rho> k)) (x # ks)))"
    by (auto simp: returns_iff)
  with create_ConcatExpr_sound [of k r] 3(3) show ?case
    by (auto simp: concat_spec_def denotes_def comp_def elim!: returns_mono)
qed simp

lemma create_ConcatExpr_4_N: "create_ConcatExpr_4 a b c d = create_ConcatExpr_N [a, b, c, d]"
  by (simp add: create_ConcatExpr_4_def)

lemma create_ConcatExpr_8_N:
  "create_ConcatExpr_8 a b c d e f g h = create_ConcatExpr_N [a, b, c, d, e, f, g, h]"
  by (simp add: create_ConcatExpr_8_def create_ConcatExpr_4_def)

text \<open>The value of an \<open>n\<close>-byte temporary: little endian.\<close>

definition temp_value :: "env \<Rightarrow> array \<Rightarrow> nat \<Rightarrow> int" where
  "temp_value \<rho> a n = (\<Sum>i<n. push_bit (8 * i) (initial_read \<rho> a (int i)))"

lemma temp_read_byte_sound:
  assumes "wf_array a" "arr_domain a = 32" "arr_range a = 8" "i < 8"
  shows "returns (temp_read_byte a i) (\<lambda>e. denotes e 8 (\<lambda>\<rho>. initial_read \<rho> a (int i)))"
  using create_ReadExpr_sound [of a NullNode "ConstantExpr (ce_alloc (int i) 32)"] assms
  by (simp add: temp_read_byte_def take_bit_int_eq_self)

lemma concat_value_bytes:
  "concat_value (map (\<lambda>i. (8, g i)) (rev [0..<n])) = (\<Sum>i<n. push_bit (8 * i) (g i))"
  by (induction n) (simp_all add: comp_def sum_list_triv mult.commute)

lemma concat_bytes_sound:
  assumes "\<And>i. i < 8 \<Longrightarrow> denotes (f i) 8 (\<lambda>\<rho>. initial_read \<rho> a (int i))" "0 < n" "n \<le> 8"
  shows "returns (create_ConcatExpr_N (map f (rev [0..<n]))) (\<lambda>e. denotes e (8 * n) (\<lambda>\<rho>. temp_value \<rho> a n))"
proof -
  have w: "getWidth (f i) = 8" "eval \<rho> (f i) = initial_read \<rho> a (int i)" if "i < n" for i \<rho>
    using assms(1) [of i] that assms(3) by (simp_all add: denotes_def)
  have "map (\<lambda>k. (getWidth k, eval \<rho> k)) (map f (rev [0..<n]))
      = map (\<lambda>i. (8, initial_read \<rho> a (int i))) (rev [0..<n])" for \<rho>
    by (simp add: w)
  moreover have "sum_list (map getWidth (map f (rev [0..<n]))) = sum_list (map (\<lambda>_. 8) (rev [0..<n]))"
    by (rule arg_cong [where f = sum_list]) (simp add: w)
  moreover have "\<forall>k \<in> set (map f (rev [0..<n])). wf_expr k"
    using assms by (auto simp: denotes_def)
  ultimately show ?thesis
    using create_ConcatExpr_N_sound [of "map f (rev [0..<n])"] assms(2)
    by (simp add: temp_value_def concat_value_bytes sum_list_triv mult.commute del: map_map)
qed

theorem createTempRead_sound:
  assumes "wf_array a" "arr_domain a = 32" "arr_range a = 8" "w \<in> {8, 16, 32, 64}"
  shows "returns (createTempRead a w) (\<lambda>e. denotes e w (\<lambda>\<rho>. temp_value \<rho> a (w div 8)))"
proof -
  obtain f where f: "\<And>i. i < 8 \<Longrightarrow> temp_read_byte a i = Some (f i)"
      "\<And>i. i < 8 \<Longrightarrow> denotes (f i) 8 (\<lambda>\<rho>. initial_read \<rho> a (int i))"
    using temp_read_byte_sound [OF assms(1-3)] unfolding returns_iff by metis
  note cb = concat_bytes_sound [OF f(2)]
  have rev: "rev [0..<2] = [1, 0::nat]" "rev [0..<4] = [3, 2, 1, 0::nat]"
    "rev [0..<8] = [7, 6, 5, 4, 3, 2, 1, 0::nat]"
    by (simp_all add: upt_rec)
  from assms(4) consider "w = 8" | "w = 16" | "w = 32" | "w = 64" by auto
  then show ?thesis
    by cases (use cb [of 1] cb [of 2] cb [of 4] cb [of 8] in
        \<open>simp_all add: createTempRead_def f(1) create_ConcatExpr_4_N create_ConcatExpr_8_N rev\<close>)
qed

subsection \<open>Rebuilding\<close>

text \<open>
  \<open>rebuild\<close> over new kids with the widths of the old ones returns an expression of the old
  width, which has the value of the old one wherever the kids have the values of the old kids
  (and the divisor of a division is not zero).
\<close>

definition rebuild_ok :: "expr \<Rightarrow> expr list \<Rightarrow> bool" where
  "rebuild_ok e ks \<longleftrightarrow> wf_expr e \<and> \<not> is_ConstantExpr e
     \<and> list_all2 (\<lambda>k k'. wf_expr k' \<and> getWidth k' = getWidth k) (kids e) ks
     \<and> (case e of BinaryExpr k _ _ \<Rightarrow> \<not> const_div_zero k (ks ! 0) (ks ! 1) | _ \<Rightarrow> True)"

definition div_safe :: "env \<Rightarrow> expr \<Rightarrow> bool" where
  "div_safe \<rho> e \<longleftrightarrow> (case e of BinaryExpr k l r \<Rightarrow> div_kind k \<longrightarrow> eval \<rho> r \<noteq> 0 | _ \<Rightarrow> True)"

definition rebuild_spec :: "expr \<Rightarrow> expr list \<Rightarrow> expr \<Rightarrow> bool" where
  "rebuild_spec e ks x \<longleftrightarrow> wf_expr x \<and> getWidth x = getWidth e
     \<and> (\<forall>\<rho>. map (eval \<rho>) ks = map (eval \<rho>) (kids e) \<longrightarrow> div_safe \<rho> e \<longrightarrow> eval \<rho> x = eval \<rho> e)"

theorem rebuild_sound:
  assumes "rebuild_ok e ks"
  shows "returns (rebuild e ks) (rebuild_spec e ks)"
proof (cases e)
  case (SelectExpr c t f)
  with assms obtain c' t' f' where [simp]: "ks = [c', t', f']"
    by (auto simp: rebuild_ok_def list_all2_Cons1)
  from SelectExpr assms create_SelectExpr_sound [of c' t' f'] show ?thesis
    by (auto simp: rebuild_ok_def rebuild_spec_def denotes_def elim!: returns_mono)
next
  case (BinaryExpr k l r)
  with assms obtain l' r' where [simp]: "ks = [l', r']"
    by (auto simp: rebuild_ok_def list_all2_Cons1)
  from BinaryExpr assms create_binary_sound [of l' r' k] show ?thesis
    by (auto simp: rebuild_ok_def rebuild_spec_def safe_spec_def div_safe_def elim!: returns_mono)
next
  case (ConcatExpr l r)
  with assms obtain l' r' where [simp]: "ks = [l', r']"
    by (auto simp: rebuild_ok_def list_all2_Cons1)
  from ConcatExpr assms create_ConcatExpr_sound [of l' r'] show ?thesis
    by (auto simp: rebuild_ok_def rebuild_spec_def concat_spec_def denotes_def elim!: returns_mono)
next
  case (ReadExpr s a us i)
  with assms obtain i' where [simp]: "ks = [i']"
    by (auto simp: rebuild_ok_def list_all2_Cons1)
  from ReadExpr assms create_ReadExpr_sound [of a us i'] show ?thesis
    by (auto simp: rebuild_ok_def rebuild_spec_def denotes_def elim!: returns_mono)
next
  case (ExtractExpr x off w)
  with assms obtain x' where [simp]: "ks = [x']"
    by (auto simp: rebuild_ok_def list_all2_Cons1)
  from ExtractExpr assms create_ExtractExpr_sound [of x' w off] show ?thesis
    by (auto simp: rebuild_ok_def rebuild_spec_def extract_spec_def denotes_def elim!: returns_mono)
next
  case (ZExtExpr x w)
  with assms obtain x' where [simp]: "ks = [x']"
    by (auto simp: rebuild_ok_def list_all2_Cons1)
  from ZExtExpr assms create_ZExtExpr_sound [of x' w] wf_expr_width_pos [of x] show ?thesis
    by (auto simp: rebuild_ok_def rebuild_spec_def denotes_def elim!: returns_mono)
next
  case (SExtExpr x w)
  with assms obtain x' where [simp]: "ks = [x']"
    by (auto simp: rebuild_ok_def list_all2_Cons1)
  from SExtExpr assms create_SExtExpr_sound [of x' w] wf_expr_width_pos [of x] show ?thesis
    by (auto simp: rebuild_ok_def rebuild_spec_def denotes_def elim!: returns_mono)
next
  case (NotExpr x)
  with assms obtain x' where [simp]: "ks = [x']"
    by (auto simp: rebuild_ok_def list_all2_Cons1)
  from NotExpr assms create_NotExpr_sound [of x'] show ?thesis
    by (auto simp: rebuild_ok_def rebuild_spec_def denotes_def elim!: returns_mono)
qed (use assms in \<open>auto simp: rebuild_ok_def rebuild_spec_def list_all2_Cons1 create_NotOptimizedExpr_def\<close>)

subsection \<open>Properties\<close>

text \<open>C1. Binary constructors. For every binary kind, creating the expression over two well-formed
  operands of the same width returns (it aborts only when both operands are constants and a division
  has divisor zero); the result is well formed, is one bit wide for a comparison and as wide as the
  operands otherwise, and in every environment has the value of the operation on the values of the
  operands (for a division, in every environment in which the divisor is not zero). This covers
  constant folding, the algebraic rewritings of every class and the one-bit special cases.\<close>

theorem create_binary_correct:
  assumes "wf_expr l" "wf_expr r" "getWidth l = getWidth r" "\<not> const_div_zero k l r"
  shows "\<exists>e. create_binary k l r = Some e \<and> wf_expr e
     \<and> getWidth e = (if is_cmp k then 1 else getWidth l)
     \<and> (\<forall>\<rho>. (div_kind k \<longrightarrow> eval \<rho> r \<noteq> 0)
          \<longrightarrow> eval \<rho> e = bin_sem \<rho> k (getWidth l) (eval \<rho> l) (eval \<rho> r))"
  using create_binary_sound [OF assms] by (auto simp: returns_iff safe_spec_def)

definition witness_array :: array where
  "witness_array = \<lparr>arr_addr = 7, arr_name = ''a'', arr_size = 8, arr_domain = 32, arr_range = 8, constantValues = []\<rparr>"

definition witness_read :: "nat \<Rightarrow> expr" where
  "witness_read i = ReadExpr False witness_array NullNode (ConstantExpr (CE 32 (int i)))"

lemma witness_read_wf [simp]: "i < 8 \<Longrightarrow> wf_expr (witness_read i)" "getWidth (witness_read i) = 8"
    "\<not> is_ConstantExpr (witness_read i)"
  by (simp_all add: witness_read_def witness_array_def wf_array_def wf_const_def fits_def isSymbolicArray_def)

theorem create_binary_correct_witness:
  "\<exists>e. create_binary Sub (BinaryExpr Add (ConstantExpr (CE 8 3)) (witness_read 0)) (ConstantExpr (CE 8 5)) = Some e
     \<and> wf_expr e \<and> getWidth e = 8
     \<and> (\<forall>\<rho>. eval \<rho> e = take_bit 8 (take_bit 8 (3 + eval \<rho> (witness_read 0)) - 5))"
  using create_binary_correct [of "BinaryExpr Add (ConstantExpr (CE 8 3)) (witness_read 0)" "ConstantExpr (CE 8 5)" Sub]
  by (simp add: wf_const_def fits_def const_div_zero_def div_kind_def)

text \<open>C2. Extract. Extracting \<open>w\<close> bits at offset \<open>off\<close> inside the source returns a well-formed expression of
  width \<open>w\<close> whose value is that slice of the source's value, whichever way the extract is pushed
  through concatenations.\<close>

theorem create_ExtractExpr_correct:
  assumes "wf_expr e" "0 < w" "off + w \<le> getWidth e"
  shows "\<exists>x. create_ExtractExpr e off w = Some x \<and> wf_expr x \<and> getWidth x = w
     \<and> (\<forall>\<rho>. eval \<rho> x = take_bit w (drop_bit off (eval \<rho> e)))"
  using create_ExtractExpr_sound [OF assms] by (auto simp: returns_iff extract_spec_def denotes_def)

theorem create_ExtractExpr_correct_witness:
  "\<exists>x. create_ExtractExpr (ConcatExpr (witness_read 1) (witness_read 0)) 4 8 = Some x \<and> wf_expr x \<and> getWidth x = 8
     \<and> (\<forall>\<rho>. eval \<rho> x = take_bit 8 (drop_bit 4 (eval \<rho> (ConcatExpr (witness_read 1) (witness_read 0)))))"
  by (rule create_ExtractExpr_correct) simp_all

text \<open>C3. Concat. Concatenating two well-formed expressions returns a well-formed expression whose width is
  the sum of the widths and whose value is the left value shifted over the right one, also when
  adjacent extracts of the same source are merged.\<close>

theorem create_ConcatExpr_correct:
  assumes "wf_expr l" "wf_expr r"
  shows "\<exists>x. create_ConcatExpr l r = Some x \<and> wf_expr x \<and> getWidth x = getWidth l + getWidth r
     \<and> (\<forall>\<rho>. eval \<rho> x = push_bit (getWidth r) (eval \<rho> l) + eval \<rho> r)"
  using create_ConcatExpr_sound [OF assms] by (auto simp: returns_iff concat_spec_def denotes_def)

theorem create_ConcatExpr_correct_witness:
  "\<exists>x. create_ConcatExpr (ExtractExpr (witness_read 0) 4 4) (ExtractExpr (witness_read 0) 0 4) = Some x
     \<and> wf_expr x \<and> getWidth x = 8 \<and> (\<forall>\<rho>. eval \<rho> x = push_bit 4 (eval \<rho> (ExtractExpr (witness_read 0) 4 4))
          + eval \<rho> (ExtractExpr (witness_read 0) 0 4))"
  using create_ConcatExpr_correct [of "ExtractExpr (witness_read 0) 4 4" "ExtractExpr (witness_read 0) 0 4"] by simp

text \<open>C4. Read. Creating a read over a chain of updates returns a well-formed expression whose value is that
  of the newest update whose index equals the index read, and the initial contents when there is none:
  rolling back over updates that cannot match, returning a matching value and folding a read of a
  constant array do not change the meaning.\<close>

theorem create_ReadExpr_correct:
  assumes "wf_array a" "wf_unode a us" "wf_expr index" "getWidth index = arr_domain a"
  shows "\<exists>e. create_ReadExpr a us index = Some e \<and> wf_expr e \<and> getWidth e = arr_range a
     \<and> (\<forall>\<rho>. eval \<rho> e = eval_read \<rho> a us (eval \<rho> index))"
  using create_ReadExpr_sound [OF assms] by (auto simp: returns_iff denotes_def)

theorem create_ReadExpr_correct_witness:
  "\<exists>e. create_ReadExpr witness_array (UpdateNode NullNode (ConstantExpr (CE 32 1)) (ConstantExpr (CE 8 9)))
       (ConstantExpr (CE 32 1)) = Some e \<and> wf_expr e \<and> getWidth e = 8
     \<and> (\<forall>\<rho>. eval \<rho> e = eval_read \<rho> witness_array
          (UpdateNode NullNode (ConstantExpr (CE 32 1)) (ConstantExpr (CE 8 9))) (eval \<rho> (ConstantExpr (CE 32 1))))"
  using create_ReadExpr_correct [of witness_array
      "UpdateNode NullNode (ConstantExpr (CE 32 1)) (ConstantExpr (CE 8 9))" "ConstantExpr (CE 32 1)"]
  by (simp add: witness_array_def wf_array_def wf_const_def fits_def isSymbolicArray_def)

text \<open>C5. Select. The conditional returns a well-formed expression with the value of the branch the
  condition chooses, through every simplification (constant condition, equal branches, one-bit
  branches turned into conjunctions and disjunctions).\<close>

theorem create_SelectExpr_correct:
  assumes "wf_expr c" "wf_expr t" "wf_expr f" "getWidth c = 1" "getWidth t = getWidth f"
  shows "\<exists>x. create_SelectExpr c t f = Some x \<and> wf_expr x \<and> getWidth x = getWidth t
     \<and> (\<forall>\<rho>. eval \<rho> x = (if eval \<rho> c = 1 then eval \<rho> t else eval \<rho> f))"
  using create_SelectExpr_sound [OF assms] by (auto simp: returns_iff denotes_def)

theorem create_SelectExpr_correct_witness:
  "\<exists>x. create_SelectExpr (BinaryExpr Eq (witness_read 0) (witness_read 1)) (witness_read 2) (witness_read 3) = Some x
     \<and> wf_expr x \<and> getWidth x = 8
     \<and> (\<forall>\<rho>. eval \<rho> x = (if eval \<rho> (BinaryExpr Eq (witness_read 0) (witness_read 1)) = 1
          then eval \<rho> (witness_read 2) else eval \<rho> (witness_read 3)))"
  using create_SelectExpr_correct [of "BinaryExpr Eq (witness_read 0) (witness_read 1)" "witness_read 2" "witness_read 3"]
  by simp

text \<open>C6. Constant arrays. Where the index lies inside the array, the disjunction over matching positions
  that \<open>TryConstArrayOpt\<close> builds is true exactly when the value read equals the constant.\<close>

theorem TryConstArrayOpt_correct:
  assumes "wf_expr (ReadExpr s a us i)" "wf_const cl" "ce_width cl = arr_range a"
    and "nat (eval \<rho> i) < arr_size a"
  shows "\<exists>e. TryConstArrayOpt cl s a us i = Some e \<and> wf_expr e \<and> getWidth e = 1
     \<and> eval \<rho> e = of_bool (ce_value cl = eval \<rho> (ReadExpr s a us i))"
  using TryConstArrayOpt_sound [OF assms] by (auto simp: returns_iff)

definition witness_const_array :: array where
  "witness_const_array = \<lparr>arr_addr = 8, arr_name = ''c'', arr_size = 2, arr_domain = 32, arr_range = 8,
     constantValues = [CE 8 5, CE 8 6]\<rparr>"

definition witness_env :: env where
  "witness_env = \<lparr>env_read = (\<lambda>_ _. 0), env_div0 = (\<lambda>_ _ _. 0)\<rparr>"

theorem TryConstArrayOpt_correct_witness:
  "\<exists>e. TryConstArrayOpt (CE 8 6) False witness_const_array NullNode (ZExtExpr (witness_read 0) 32) = Some e
     \<and> wf_expr e \<and> getWidth e = 1 \<and> eval witness_env e = of_bool (ce_value (CE 8 6)
          = eval witness_env (ReadExpr False witness_const_array NullNode (ZExtExpr (witness_read 0) 32)))"
  by (rule TryConstArrayOpt_correct)
    (simp_all add: witness_const_array_def wf_array_def wf_const_def fits_def isSymbolicArray_def
      witness_read_def witness_array_def witness_env_def initial_read_def isConstantArray_def)

text \<open>C7. Rebuilding. Rebuilding an expression over new well-formed kids of the old widths returns a
  well-formed expression of the old width, and its value is the old one wherever the kids keep their values.\<close>

theorem rebuild_correct:
  assumes "rebuild_ok e ks"
  shows "\<exists>x. rebuild e ks = Some x \<and> wf_expr x \<and> getWidth x = getWidth e
     \<and> (\<forall>\<rho>. map (eval \<rho>) ks = map (eval \<rho>) (kids e) \<longrightarrow> div_safe \<rho> e \<longrightarrow> eval \<rho> x = eval \<rho> e)"
  using rebuild_sound [OF assms] by (auto simp: returns_iff rebuild_spec_def)

theorem rebuild_correct_witness:
  "rebuild_ok (BinaryExpr Add (witness_read 0) (witness_read 1)) [ConstantExpr (CE 8 1), witness_read 2]
   \<and> (\<exists>x. rebuild (BinaryExpr Add (witness_read 0) (witness_read 1)) [ConstantExpr (CE 8 1), witness_read 2] = Some x
        \<and> wf_expr x \<and> getWidth x = 8)"
proof -
  have ok: "rebuild_ok (BinaryExpr Add (witness_read 0) (witness_read 1)) [ConstantExpr (CE 8 1), witness_read 2]"
    by (simp add: rebuild_ok_def const_div_zero_def div_kind_def wf_const_def fits_def)
  with rebuild_correct [OF ok] show ?thesis by auto
qed

text \<open>C8. Reads of temporaries. A value of 8, 16, 32 or 64 bits read from an array of bytes is the
  little-endian combination of its first bytes.\<close>

theorem createTempRead_correct:
  assumes "wf_array a" "arr_domain a = 32" "arr_range a = 8" "w \<in> {8, 16, 32, 64}"
  shows "\<exists>e. createTempRead a w = Some e \<and> wf_expr e \<and> getWidth e = w
     \<and> (\<forall>\<rho>. eval \<rho> e = (\<Sum>i<w div 8. push_bit (8 * i) (initial_read \<rho> a (int i))))"
  using createTempRead_sound [OF assms] by (auto simp: returns_iff denotes_def temp_value_def)

theorem createTempRead_correct_witness:
  "\<exists>e. createTempRead witness_array 32 = Some e \<and> wf_expr e \<and> getWidth e = 32
     \<and> (\<forall>\<rho>. eval \<rho> e = (\<Sum>i<32 div 8. push_bit (8 * i) (initial_read \<rho> witness_array (int i))))"
  by (rule createTempRead_correct) (simp_all add: witness_array_def wf_array_def isSymbolicArray_def)

end
