(* ===== verification/ExprArrays.thy ===== *)
theory ExprArrays
  imports ExprCreate
begin

text \<open>
  The simplifying constructors introduce no array: every array of the result occurs in an operand.
  Constraints built from addresses therefore range over the arrays of the addresses.
\<close>

lemma fold_const_arrays: "fold_const k cl cr = Some e \<Longrightarrow> arrays e = {}"
  by (auto simp: fold_const_def bind_Some)

lemma create_AndExpr_arrays: "create_AndExpr l r = Some e \<Longrightarrow> arrays e \<subseteq> arrays l \<union> arrays r"
  by (auto simp: create_AndExpr_def BCREATE_R_def AndExpr_createPartial_def AndExpr_createPartialR_def
      AndExpr_create_def bind_Some split: option.splits if_splits dest: fold_const_arrays)

lemma create_OrExpr_arrays: "create_OrExpr l r = Some e \<Longrightarrow> arrays e \<subseteq> arrays l \<union> arrays r"
  by (auto simp: create_OrExpr_def BCREATE_R_def OrExpr_createPartial_def OrExpr_createPartialR_def
      OrExpr_create_def bind_Some split: option.splits if_splits dest: fold_const_arrays)

lemma EqExpr_create_arrays: "EqExpr_create l r = Some e \<Longrightarrow> arrays e \<subseteq> arrays l \<union> arrays r"
  by (auto simp: EqExpr_create_def split: if_splits)

lemma EqExpr_createPartialR_arrays: "EqExpr_createPartialR cl r = Some e \<Longrightarrow> arrays e \<subseteq> arrays r"
  and create_EqExpr_arrays: "create_EqExpr l r = Some e \<Longrightarrow> arrays e \<subseteq> arrays l \<union> arrays r"
  and createIsZero_arrays: "createIsZero x = Some e \<Longrightarrow> arrays e \<subseteq> arrays x"
  and "TryConstArrayOpt cl s ar us i = Some e \<Longrightarrow> True"
  and "TryConstArrayOpt_loop cl s ar us i ks n res = Some e \<Longrightarrow> True"
proof (induction cl r and l r and x and cl s ar us i and cl s ar us i ks n res
    arbitrary: e and e and e and e and e
    rule: EqExpr_createPartialR_create_EqExpr_createIsZero_TryConstArrayOpt_TryConstArrayOpt_loop.induct)
  case (1 cl r)
  note IH = "1.IH" and prem = "1.prems"
  show ?case
  proof (cases cl r rule: EqExpr_createPartialR_cases)
    case (or a b)
    with prem obtain nl nr where n: "createIsZero a = Some nl" "createIsZero b = Some nr"
      and e: "create_AndExpr nl nr = Some e"
      by (auto simp: bind_Some)
    have "arrays nl \<subseteq> arrays a" by (rule IH(1) [OF or(1-3) refl n(1)])
    moreover have "arrays nr \<subseteq> arrays b" by (rule IH(2) [OF or(1-3) refl n(1) n(2)])
    ultimately show ?thesis using create_AndExpr_arrays [OF e] or by auto
  next
    case (sext src w)
    with prem consider "arrays e = {}" | t where "create_EqExpr src (ConstantExpr t) = Some e"
        "CE_ZExt cl (getWidth src) = Some t" "CE_SExt t (ce_width cl) = Some cl"
      by (auto simp: bind_Some split: if_splits)
    then show ?thesis
    proof cases
      case (2 t)
      from IH(5) [OF sext(1,2) 2(2,3) refl 2(1)] sext show ?thesis by simp
    qed simp
  next
    case (zext src w)
    with prem consider "arrays e = {}" | t where "create_EqExpr src (ConstantExpr t) = Some e"
        "CE_ZExt cl (getWidth src) = Some t" "CE_ZExt t (ce_width cl) = Some cl"
      by (auto simp: bind_Some split: if_splits)
    then show ?thesis
    proof cases
      case (2 t)
      from IH(4) [OF zext(1,2) 2(2,3) refl 2(1)] zext show ?thesis by simp
    qed simp
  next
    case (add c b)
    with prem obtain d where "CE_Sub cl c = Some d" "EqExpr_createPartialR d b = Some e" by (auto simp: bind_Some)
    from IH(6) [OF add(1,2) refl refl this] add show ?thesis by auto
  next
    case (sub c b)
    with prem obtain d where "CE_Sub c cl = Some d" "EqExpr_createPartialR d b = Some e" by (auto simp: bind_Some)
    from IH(7) [OF sub(1,2) refl refl this] sub show ?thesis by auto
  next
    case plain
    with prem EqExpr_create_arrays [of "ConstantExpr cl" r e] show ?thesis by simp
  qed (use prem in auto)
next
  case (2 l r)
  then show ?case
    by (auto simp: create_EqExpr.simps [of l r] bind_Some
        split: if_splits option.splits dest!: fold_const_arrays EqExpr_create_arrays)
next
  case (3 x)
  then obtain z where "ce_create 0 (getWidth x) = Some z" "create_EqExpr x (ConstantExpr z) = Some e"
    by (auto simp: createIsZero.simps bind_Some)
  from "3.IH" [OF this] show ?case by simp
qed simp_all

text \<open>The other binary classes, through their macro.\<close>

lemma BCREATE_arrays:
  assumes "BCREATE k create l r = Some e" "\<And>e. create l r = Some e \<Longrightarrow> arrays e \<subseteq> arrays l \<union> arrays r"
  shows "arrays e \<subseteq> arrays l \<union> arrays r"
  using assms by (auto simp: BCREATE_def bind_Some split: option.splits dest: fold_const_arrays)

lemma isZero_op_arrays:
  "do { n \<leftarrow> createIsZero a; create_AndExpr b n } = Some e \<Longrightarrow> arrays e \<subseteq> arrays a \<union> arrays b"
  "do { n \<leftarrow> createIsZero a; create_AndExpr n b } = Some e \<Longrightarrow> arrays e \<subseteq> arrays a \<union> arrays b"
  "do { n \<leftarrow> createIsZero a; create_OrExpr b n } = Some e \<Longrightarrow> arrays e \<subseteq> arrays a \<union> arrays b"
  "do { n \<leftarrow> createIsZero a; create_OrExpr n b } = Some e \<Longrightarrow> arrays e \<subseteq> arrays a \<union> arrays b"
  by (auto simp: bind_Some dest!: createIsZero_arrays create_AndExpr_arrays create_OrExpr_arrays)

lemma create_LShrExpr_arrays: "create_LShrExpr l r = Some e \<Longrightarrow> arrays e \<subseteq> arrays l \<union> arrays r"
  unfolding create_LShrExpr_def
  by (erule BCREATE_arrays) (auto simp: LShrExpr_create_def split: if_splits dest!: isZero_op_arrays)

end
