(* ===== verification/ExprOrder.thy ===== *)
theory ExprOrder
  imports ExprCreate "HOL-Library.List_Lexorder" "HOL-Library.Char_ord"
begin

text \<open>
  The structural order on expressions: \<^verbatim>\<open>computeHash\<close> of every class, \<^verbatim>\<open>Expr::compare\<close>,
  \<^verbatim>\<open>compareContents\<close> of every class and \<^verbatim>\<open>UpdateList::compare\<close>
  (\<^verbatim>\<open>lib/Expr/Expr.cpp\<close>, \<^verbatim>\<open>include/klee/Expr.h\<close>, \<^verbatim>\<open>lib/Expr/Updates.cpp\<close>). Hashes are 32-bit
  words with wrap-around. \<open>hv\<close> stands for LLVM's \<^verbatim>\<open>hash_value\<close>, which the program calls on
  constants wider than 64 bits.

  The two shortcuts of the code (\<^verbatim>\<open>this == &b\<close> and the set of pairs already found equal) only
  answer 0 for pairs whose comparison is 0, so the model has no node identities.

  Results: \<open>compare\<close> is a total preorder for every \<open>hv\<close>, and it answers 0 exactly on
  expressions that are equal up to the sensitivity flag, as long as distinct arrays live at
  distinct addresses. The first is the contract (\<open>key_order\<close>) that the ordered containers
  keyed by expressions rely on.
\<close>

subsection \<open>Hashes\<close>

abbreviation MAGIC :: "32 word" where
  "MAGIC \<equiv> 39"

text \<open>\<^verbatim>\<open>char\<close> is signed.\<close>

definition char_word :: "char \<Rightarrow> 32 word" where
  "char_word c = word_of_int (signed_take_bit 7 (of_char c))"

fun hash_name :: "string \<Rightarrow> 32 word \<Rightarrow> 32 word" where
  "hash_name [] res = res"
| "hash_name (c # cs) res = hash_name cs (res * MAGIC + char_word c)"

definition array_hash :: "array \<Rightarrow> 32 word" where
  "array_hash a = hash_name (arr_name a) 0 * MAGIC + of_nat (arr_size a)"

definition kind_hash :: "kind \<Rightarrow> 32 word list \<Rightarrow> 32 word" where
  "kind_hash k hs = fold (\<lambda>h res. push_bit 1 res XOR (h * MAGIC)) hs (of_nat (kind_num k) * MAGIC)"

fun expr_hash :: "(nat \<Rightarrow> int \<Rightarrow> 32 word) \<Rightarrow> expr \<Rightarrow> 32 word"
  and node_hash :: "(nat \<Rightarrow> int \<Rightarrow> 32 word) \<Rightarrow> unode \<Rightarrow> 32 word"
where
  "expr_hash hv (ConstantExpr c) =
     (if ce_width c \<le> 64 then word_of_int (ce_value c) else hv (ce_width c) (ce_value c))
       XOR (of_nat (ce_width c) * MAGIC)"
| "expr_hash hv (NotOptimizedExpr e) = kind_hash NotOptimized [expr_hash hv e]"
| "expr_hash hv (ReadExpr _ a us i) =
     (expr_hash hv i * MAGIC) XOR
       (if us = NullNode then hash_name (arr_name a) 0 else hash_name (arr_name a) 0 XOR node_hash hv us)"
| "expr_hash hv (SelectExpr c t f) = kind_hash Select [expr_hash hv c, expr_hash hv t, expr_hash hv f]"
| "expr_hash hv (ConcatExpr l r) = kind_hash Concat [expr_hash hv l, expr_hash hv r]"
| "expr_hash hv (ExtractExpr e off w) =
     ((of_nat off * MAGIC) XOR (of_nat w * MAGIC)) XOR (expr_hash hv e * MAGIC)"
| "expr_hash hv (ZExtExpr e w) = (of_nat w * MAGIC) XOR (expr_hash hv e * MAGIC)"
| "expr_hash hv (SExtExpr e w) = (of_nat w * MAGIC) XOR (expr_hash hv e * MAGIC)"
| "expr_hash hv (NotExpr e) = expr_hash hv e * MAGIC * of_nat (kind_num Not_kind)"
| "expr_hash hv (BinaryExpr k l r) = kind_hash (Binary k) [expr_hash hv l, expr_hash hv r]"
| "node_hash hv NullNode = 0"
| "node_hash hv (UpdateNode n i v) =
     (if n = NullNode then expr_hash hv i XOR expr_hash hv v
      else (expr_hash hv i XOR expr_hash hv v) XOR node_hash hv n)"

subsection \<open>Comparison\<close>

definition cmp3 :: "'a::linorder \<Rightarrow> 'a \<Rightarrow> int" where
  "cmp3 a b = (if a = b then 0 else if a < b then - 1 else 1)"

text \<open>\<^verbatim>\<open>if (int res = ...) return res;\<close> followed by the rest.\<close>

definition lexi :: "int \<Rightarrow> int \<Rightarrow> int" where
  "lexi r s = (if r \<noteq> 0 then r else s)"

text \<open>
  The attributes \<^verbatim>\<open>compareContents\<close> looks at, in the order it does (a read has its update list
  instead); lists of equal length are compared position by position.
\<close>

fun attributes :: "expr \<Rightarrow> int list" where
  "attributes (ConstantExpr c) = [int (ce_width c), ce_value c]"
| "attributes (ConcatExpr l r) = [int (getWidth (ConcatExpr l r))]"
| "attributes (ExtractExpr e off w) = [int off, int w]"
| "attributes (ZExtExpr e w) = [int w]"
| "attributes (SExtExpr e w) = [int w]"
| "attributes _ = []"

fun updates :: "expr \<Rightarrow> (array \<times> unode) option" where
  "updates (ReadExpr _ a us _) = Some (a, us)"
| "updates _ = None"

lemma updates_Some: "updates e = Some (a, us) \<longleftrightarrow> (\<exists>s i. e = ReadExpr s a us i)"
  by (cases e) auto

lemma attributes_read: "updates e = Some p \<Longrightarrow> attributes e = []"
  by (cases e) auto

lemma weight_kids: "Suc (sum_list (map weight (kids e))) \<le> weight e"
  by (cases e) auto

function (sequential) compare :: "(nat \<Rightarrow> int \<Rightarrow> 32 word) \<Rightarrow> expr \<Rightarrow> expr \<Rightarrow> int"
  and compareContents :: "(nat \<Rightarrow> int \<Rightarrow> 32 word) \<Rightarrow> expr \<Rightarrow> expr \<Rightarrow> int"
  and UpdateList_compare :: "(nat \<Rightarrow> int \<Rightarrow> 32 word) \<Rightarrow> array \<Rightarrow> unode \<Rightarrow> array \<Rightarrow> unode \<Rightarrow> int"
  and compare_nodes :: "(nat \<Rightarrow> int \<Rightarrow> 32 word) \<Rightarrow> unode \<Rightarrow> unode \<Rightarrow> int"
  and compare_kids :: "(nat \<Rightarrow> int \<Rightarrow> 32 word) \<Rightarrow> expr list \<Rightarrow> expr list \<Rightarrow> int"
where
  "compare hv a b =
     lexi (cmp3 (kind_num (getKind a)) (kind_num (getKind b)))
       (lexi (cmp3 (expr_hash hv a) (expr_hash hv b))
         (lexi (compareContents hv a b) (compare_kids hv (kids a) (kids b))))"
| "compareContents hv a b =
     (case updates a of
        None \<Rightarrow> cmp3 (attributes a) (attributes b)
      | Some (root, head) \<Rightarrow> (case updates b of
          None \<Rightarrow> 0
        | Some (root', head') \<Rightarrow> UpdateList_compare hv root head root' head'))"
| "UpdateList_compare hv root head root' head' =
     lexi (cmp3 (arr_name root) (arr_name root'))
       (lexi (cmp3 (arr_addr root) (arr_addr root'))
         (lexi (cmp3 (UpdateNode_getSize head) (UpdateNode_getSize head'))
           (compare_nodes hv head head')))"
| "compare_nodes hv NullNode us' = 0"
| "compare_nodes hv (UpdateNode n i v) NullNode = 0"
| "compare_nodes hv (UpdateNode n i v) (UpdateNode n' i' v') =
     lexi (lexi (compare hv i i') (compare hv v v')) (compare_nodes hv n n')"
| "compare_kids hv [] ks' = 0"
| "compare_kids hv (k # ks) [] = 0"
| "compare_kids hv (k # ks) (k' # ks') = lexi (compare hv k k') (compare_kids hv ks ks')"
  by pat_completeness auto
termination
proof (relation "measure (\<lambda>x. case x of
      Inl (Inl (_, a, _)) \<Rightarrow> 2 * weight a
    | Inl (Inr (_, a, _)) \<Rightarrow> 2 * weight a - 1
    | Inr (Inl (_, _, us, _)) \<Rightarrow> 2 * weight_node us + 2
    | Inr (Inr (Inl (_, us, _))) \<Rightarrow> 2 * weight_node us + 1
    | Inr (Inr (Inr (_, ks, _))) \<Rightarrow> 2 * sum_list (map weight ks) + 1)", goal_cases)
  case (3 hv a b)
  then show ?case using weight_kids [of a] by simp
next
  case (4 hv a b p r us)
  then obtain s i where "a = ReadExpr s r us i" by (cases a) auto
  with weight_pos [of i] show ?case by (simp del: weight_pos)
qed simp_all

declare compare.simps [simp del] compareContents.simps [simp del] UpdateList_compare.simps [simp del]

subsection \<open>A total preorder\<close>

text \<open>The laws of a three-way comparison that combine along \<^const>\<open>lexi\<close>.\<close>

definition tri :: "int \<Rightarrow> int \<Rightarrow> int \<Rightarrow> bool" where
  "tri r s t \<longleftrightarrow> (r \<le> 0 \<and> s \<le> 0 \<longrightarrow> t \<le> 0 \<and> (t = 0 \<longrightarrow> r = 0 \<and> s = 0)) \<and> (r = 0 \<and> s = 0 \<longrightarrow> t = 0)"

lemma tri_0 [simp]: "tri 0 0 0"
  by (simp add: tri_def)

lemma tri_cmp3: "tri (cmp3 a b) (cmp3 b c) (cmp3 a c)"
  by (auto simp: tri_def cmp3_def)

lemma lexi_le_0D: "lexi r s \<le> 0 \<Longrightarrow> r \<le> 0"
  by (simp add: lexi_def split: if_splits)

lemma tri_lexi:
  assumes "tri r s t" "r = 0 \<Longrightarrow> s = 0 \<Longrightarrow> tri r' s' t'"
  shows "tri (lexi r r') (lexi s s') (lexi t t')"
proof (cases "r = 0 \<and> s = 0")
  case True
  moreover from True assms(1) have "t = 0" by (simp add: tri_def)
  moreover from True assms(2) have "tri r' s' t'" by blast
  ultimately show ?thesis by (simp add: lexi_def)
next
  case False
  have "t < 0" if "r \<le> 0" "s \<le> 0"
    using that False assms(1) unfolding tri_def by (metis order_le_less)
  then have "lexi t t' < 0" if "lexi r r' \<le> 0" "lexi s s' \<le> 0"
    using lexi_le_0D [OF that(1)] lexi_le_0D [OF that(2)] by (simp add: lexi_def)
  moreover have "\<not> (lexi r r' = 0 \<and> lexi s s' = 0)"
    using False by (auto simp: lexi_def)
  ultimately show ?thesis unfolding tri_def by (intro conjI impI) (simp_all add: less_imp_le)
qed

lemma cmp3_0 [simp]: "cmp3 a b = 0 \<longleftrightarrow> a = b"
  by (simp add: cmp3_def)

lemma cmp3_refl [simp]: "cmp3 a a = 0"
  by simp

lemma cmp3_flip: "cmp3 b a = - cmp3 a b"
  by (auto simp: cmp3_def)

lemma lexi_0 [simp]: "lexi r s = 0 \<longleftrightarrow> r = 0 \<and> s = 0"
  by (simp add: lexi_def)

lemma lexi_0_left [simp]: "lexi 0 s = s"
  by (simp add: lexi_def)

lemma lexi_flip: "lexi (- r) (- s) = - lexi r s"
  by (simp add: lexi_def)


lemma same_kind:
  assumes "getKind a = getKind b"
  shows "updates a = None \<longleftrightarrow> updates b = None" "length (kids a) = length (kids b)"
  using assms by (cases a; cases b; simp)+

lemma compare_flip: "compare hv b a = - compare hv a b"
  and compareContents_flip: "getKind a = getKind b \<Longrightarrow> compareContents hv b a = - compareContents hv a b"
  and UpdateList_compare_flip: "UpdateList_compare hv r' us' r us = - UpdateList_compare hv r us r' us'"
  and compare_nodes_flip: "compare_nodes hv us' us = - compare_nodes hv us us'"
  and compare_kids_flip: "compare_kids hv ks' ks = - compare_kids hv ks ks'"
proof (induction hv a b and hv a b and hv r us r' us' and hv us us' and hv ks ks'
    rule: compare_compareContents_UpdateList_compare_compare_nodes_compare_kids.induct)
  case (1 hv a b)
  then show ?case
    by (cases "getKind a = getKind b")
      (simp_all add: compare.simps [of hv a b] compare.simps [of hv b a] lexi_flip lexi_def
        cmp3_flip [of "expr_hash hv b"] cmp3_flip [of "kind_num (getKind b)"])
next
  case (2 hv a b)
  with same_kind [OF "2.prems"] show ?case
    by (auto simp: compareContents.simps cmp3_flip [of "attributes b"] split: option.splits)
next
  case (3 hv r us r' us')
  then show ?case
    by (simp add: UpdateList_compare.simps lexi_flip cmp3_flip [of "arr_name r'"]
        cmp3_flip [of "arr_addr r'"] cmp3_flip [of "UpdateNode_getSize us'"])
next
  case (4 hv us')
  then show ?case by (cases us') auto
next
  case (7 hv ks')
  then show ?case by (cases ks') auto
qed (simp_all add: lexi_flip)

lemma compare_tri: "tri (compare hv a b) (compare hv b c) (compare hv a c)"
  and compareContents_tri: "getKind a = getKind b \<Longrightarrow> getKind b = getKind c \<Longrightarrow>
     tri (compareContents hv a b) (compareContents hv b c) (compareContents hv a c)"
  and UpdateList_compare_tri: "tri (UpdateList_compare hv r us r' us')
     (UpdateList_compare hv r' us' r'' us'') (UpdateList_compare hv r us r'' us'')"
  and compare_nodes_tri: "UpdateNode_getSize us = UpdateNode_getSize us' \<Longrightarrow>
     UpdateNode_getSize us' = UpdateNode_getSize us'' \<Longrightarrow>
     tri (compare_nodes hv us us') (compare_nodes hv us' us'') (compare_nodes hv us us'')"
  and compare_kids_tri: "length ks = length ks' \<Longrightarrow> length ks' = length ks'' \<Longrightarrow>
     tri (compare_kids hv ks ks') (compare_kids hv ks' ks'') (compare_kids hv ks ks'')"
proof (induction hv a b and hv a b and hv r us r' us' and hv us us' and hv ks ks'
    arbitrary: c and c and r'' us'' and us'' and ks''
    rule: compare_compareContents_UpdateList_compare_compare_nodes_compare_kids.induct)
  case (1 hv a b)
  show ?case unfolding compare.simps [of hv a] compare.simps [of hv b]
    by (intro tri_lexi tri_cmp3 "1.IH") (simp_all add: same_kind(2) [of a b] same_kind(2) [of b c])
next
  case (2 hv a b)
  with same_kind(1) [OF "2.prems"(1)] same_kind(1) [OF "2.prems"(2)] show ?case
    by (auto simp: compareContents.simps tri_cmp3 split: option.splits)
next
  case (3 hv r us r' us')
  show ?case
    unfolding UpdateList_compare.simps [of hv r us] UpdateList_compare.simps [of hv r' us']
    by (intro tri_lexi tri_cmp3 "3.IH") auto
next
  case (6 hv n i v n' i' v')
  then obtain n'' i'' v'' where us'': "us'' = UpdateNode n'' i'' v''" by (cases us'') auto
  from 6 show ?case by (simp add: us'' tri_lexi)
next
  case (9 hv k ks k' ks')
  then obtain k'' ks2 where ks'': "ks'' = k'' # ks2" by (cases ks'') auto
  from 9 show ?case by (simp add: ks'' tri_lexi)
next
  case (4 hv us')
  then show ?case by (cases us'; cases us''; simp)
qed simp_all

subsection \<open>What it means to compare equal\<close>

lemma erase_null [simp]: "erase_node n = NullNode \<longleftrightarrow> n = NullNode"
  by (cases n) auto

lemma hash_erase [simp]: "expr_hash hv (erase e) = expr_hash hv e"
    "node_hash hv (erase_node n) = node_hash hv n"
  by (induction e and n) auto

lemma erase_sel [simp]: "getKind (erase e) = getKind e" "attributes (erase e) = attributes e"
    "kids (erase e) = map erase (kids e)" "updates (erase e) = map_option (\<lambda>(r, us). (r, erase_node us)) (updates e)"
  by (cases e; simp)+

lemma getSize_erase [simp]: "UpdateNode_getSize (erase_node n) = UpdateNode_getSize n"
  by (induction n rule: UpdateNode_getSize.induct) auto

lemma compare_erase: "compare hv (erase a) (erase b) = compare hv a b"
  and "compareContents hv (erase a) (erase b) = compareContents hv a b"
  and "UpdateList_compare hv r (erase_node us) r' (erase_node us') = UpdateList_compare hv r us r' us'"
  and "compare_nodes hv (erase_node us) (erase_node us') = compare_nodes hv us us'"
  and "compare_kids hv (map erase ks) (map erase ks') = compare_kids hv ks ks'"
proof (induction hv a b and hv a b and hv r us r' us' and hv us us' and hv ks ks'
    rule: compare_compareContents_UpdateList_compare_compare_nodes_compare_kids.induct)
  case (1 hv a b)
  then show ?case by (simp add: compare.simps [of hv "erase a"] compare.simps [of hv a])
next
  case (2 hv a b)
  then show ?case
    by (auto simp: compareContents.simps [of hv "erase a"] compareContents.simps [of hv a] split: option.splits)
next
  case (3 hv r us r' us')
  then show ?case by (simp add: UpdateList_compare.simps)
next
  case (4 hv us')
  then show ?case by (cases us') auto
qed simp_all

lemma compare_refl [simp]: "compare hv a a = 0"
  using compare_flip [of hv a a] by simp

fun kids_arrays :: "expr list \<Rightarrow> array set" where
  "kids_arrays [] = {}"
| "kids_arrays (k # ks) = arrays k \<union> kids_arrays ks"

lemma arrays_parts:
  "kids_arrays (kids e) \<subseteq> arrays e"
  "updates e = Some (r, us) \<Longrightarrow> r \<in> arrays e \<and> unode_arrays us \<subseteq> arrays e"
  by (cases e; auto)+

lemma erase_eqI:
  assumes "getKind a = getKind b" "attributes a = attributes b" "map erase (kids a) = map erase (kids b)"
    "map_option (\<lambda>(r, us). (r, erase_node us)) (updates a) = map_option (\<lambda>(r, us). (r, erase_node us)) (updates b)"
  shows "erase a = erase b"
  using assms by (cases a; cases b; auto intro: const_expr.expand)

lemma compare_0D: "compare hv a b = 0 \<Longrightarrow> inj_on arr_addr (arrays a \<union> arrays b) \<Longrightarrow> erase a = erase b"
  and "compareContents hv a b = 0 \<Longrightarrow> getKind a = getKind b \<Longrightarrow> inj_on arr_addr (arrays a \<union> arrays b) \<Longrightarrow>
     attributes a = attributes b \<and>
     map_option (\<lambda>(r, us). (r, erase_node us)) (updates a) = map_option (\<lambda>(r, us). (r, erase_node us)) (updates b)"
  and "UpdateList_compare hv r us r' us' = 0 \<Longrightarrow>
     inj_on arr_addr ({r, r'} \<union> unode_arrays us \<union> unode_arrays us') \<Longrightarrow> r = r' \<and> erase_node us = erase_node us'"
  and "compare_nodes hv us us' = 0 \<Longrightarrow> UpdateNode_getSize us = UpdateNode_getSize us' \<Longrightarrow>
     inj_on arr_addr (unode_arrays us \<union> unode_arrays us') \<Longrightarrow> erase_node us = erase_node us'"
  and "compare_kids hv ks ks' = 0 \<Longrightarrow> length ks = length ks' \<Longrightarrow>
     inj_on arr_addr (kids_arrays ks \<union> kids_arrays ks') \<Longrightarrow> map erase ks = map erase ks'"
proof (induction hv a b and hv a b and hv r us r' us' and hv us us' and hv ks ks'
    rule: compare_compareContents_UpdateList_compare_compare_nodes_compare_kids.induct)
  case (1 hv a b)
  then have k: "getKind a = getKind b" by (simp add: compare.simps)
  have "inj_on arr_addr (kids_arrays (kids a) \<union> kids_arrays (kids b))"
    using "1.prems"(2) by (rule inj_on_subset) (use arrays_parts(1) in fast)
  with 1 k show ?case
    by (intro erase_eqI) (auto simp: compare.simps [of hv a b] same_kind(2) [of a b])
next
  case (2 hv a b)
  show ?case
  proof (cases "updates a")
    case None
    with 2 same_kind(1) [of a b] show ?thesis by (simp add: compareContents.simps)
  next
    case (Some p)
    with 2(3) same_kind(1) [of a b] obtain q where q: "updates b = Some q" by auto
    obtain r us r' us' where p: "p = (r, us)" "q = (r', us')" by force
    have "inj_on arr_addr ({r, r'} \<union> unode_arrays us \<union> unode_arrays us')"
      using 2(4) by (rule inj_on_subset) (use arrays_parts(2) [of a r us] arrays_parts(2) [of b r' us'] Some q p in auto)
    moreover have "UpdateList_compare hv r us r' us' = 0"
      using 2(2) Some q p by (simp add: compareContents.simps)
    ultimately have "r = r' \<and> erase_node us = erase_node us'"
      by (intro 2(1) [OF Some p(1) [symmetric] q p(2) [symmetric]])
    then show ?thesis using Some q p attributes_read [of a] attributes_read [of b] by simp
  qed
next
  case (3 hv r us r' us')
  from "3.prems"(1) have parts: "arr_addr r = arr_addr r'" "compare_nodes hv us us' = 0"
    "UpdateNode_getSize us = UpdateNode_getSize us'"
    by (simp_all add: UpdateList_compare.simps)
  have "r = r'" by (rule inj_onD [OF "3.prems"(2) parts(1)]) simp_all
  moreover have "inj_on arr_addr (unode_arrays us \<union> unode_arrays us')"
    using "3.prems"(2) by (rule inj_on_subset) auto
  ultimately show ?case using "3.IH" parts(2,3) by simp
next
  case (6 hv n i v n' i' v')
  have "inj_on arr_addr (arrays i \<union> arrays i')" "inj_on arr_addr (arrays v \<union> arrays v')"
    "inj_on arr_addr (unode_arrays n \<union> unode_arrays n')"
    by (rule inj_on_subset [OF "6.prems"(3)]; auto)+
  with 6 show ?case by simp
next
  case (4 hv us')
  then show ?case by (cases us') auto
next
  case (9 hv k ks k' ks')
  have "inj_on arr_addr (arrays k \<union> arrays k')" "inj_on arr_addr (kids_arrays ks \<union> kids_arrays ks')"
    by (rule inj_on_subset [OF "9.prems"(3)]; auto)+
  with 9 show ?case by simp
qed simp_all

lemma compare_eq_0_iff:
  assumes "inj_on arr_addr (arrays a \<union> arrays b)"
  shows "compare hv a b = 0 \<longleftrightarrow> expr_eq a b"
  using compare_0D [OF _ assms] compare_erase [of hv a b] compare_refl [of hv "erase a"]
  by (auto simp: expr_eq_def)

subsection \<open>Properties\<close>

text \<open>C9. The structural order. \<open>compare\<close> is a total preorder whatever the hash of wide constants is: it is
  reflexive, swapping the arguments flips the sign, it is transitive, and it answers 0 exactly when the
  two expressions are equal up to the sensitivity flag, provided arrays are determined by their address.\<close>

theorem compare_order:
  "compare hv a a = 0 \<and> compare hv b a = - compare hv a b
   \<and> (compare hv a b < 0 \<and> compare hv b c < 0 \<longrightarrow> compare hv a c < 0)
   \<and> (inj_on arr_addr (arrays a \<union> arrays b) \<longrightarrow> (compare hv a b = 0 \<longleftrightarrow> expr_eq a b))"
proof -
  have "compare hv a c < 0" if "compare hv a b < 0" "compare hv b c < 0"
    using that compare_tri [of hv a b c] unfolding tri_def by (metis less_le)
  then show ?thesis using compare_flip [of hv b a] compare_eq_0_iff [of a b hv] by auto
qed

theorem compare_order_witness:
  "compare (\<lambda>_ _. 0) (ConstantExpr (CE 8 1)) (ConstantExpr (CE 8 1)) = 0
   \<and> (compare (\<lambda>_ _. 0) (ConstantExpr (CE 8 1)) (NotExpr (ConstantExpr (CE 8 2))) = 0
       \<longleftrightarrow> expr_eq (ConstantExpr (CE 8 1)) (NotExpr (ConstantExpr (CE 8 2))))"
  using compare_order [of "\<lambda>_ _. 0" "ConstantExpr (CE 8 1)" "NotExpr (ConstantExpr (CE 8 2))" "ConstantExpr (CE 8 3)"]
  by simp

end
