(* ===== verification/Containers.thy ===== *)
theory Containers
  imports ExprOrder "HOL-Library.Multiset"
begin

text \<open>
  The ordered containers of the C++ standard library the program uses, as association lists
  sorted by a three-way comparison of keys: \<^verbatim>\<open>std::map\<close> (\<open>omap_find\<close>, \<open>omap_insert\<close>, which keeps
  the old value of a key that is there, \<open>omap_set\<close>, the assignment through \<^verbatim>\<open>operator[]\<close>, and
  \<open>omap_erase\<close>) and \<^verbatim>\<open>std::set\<close> (\<open>oset_find\<close>, \<open>oset_insert\<close>). Iteration goes from the smallest key up.

  The locale \<open>key_order\<close> is what the containers need of their keys; it is interpreted on the
  order of expressions and on pairs of expressions, the two kinds of keys in the program.
\<close>

subsection \<open>Operations\<close>

type_synonym 'k cmp = "'k \<Rightarrow> 'k \<Rightarrow> int"

fun omap_find :: "'k cmp \<Rightarrow> 'k \<Rightarrow> ('k \<times> 'v) list \<Rightarrow> 'v option" where
  "omap_find cmp k [] = None"
| "omap_find cmp k ((k', v) # m) = (if cmp k k' = 0 then Some v else omap_find cmp k m)"

fun omap_insert :: "'k cmp \<Rightarrow> 'k \<Rightarrow> 'v \<Rightarrow> ('k \<times> 'v) list \<Rightarrow> ('k \<times> 'v) list" where
  "omap_insert cmp k v [] = [(k, v)]"
| "omap_insert cmp k v ((k', v') # m) =
     (if cmp k k' < 0 then (k, v) # (k', v') # m
      else if cmp k k' = 0 then (k', v') # m
      else (k', v') # omap_insert cmp k v m)"

fun omap_set :: "'k cmp \<Rightarrow> 'k \<Rightarrow> 'v \<Rightarrow> ('k \<times> 'v) list \<Rightarrow> ('k \<times> 'v) list" where
  "omap_set cmp k v [] = [(k, v)]"
| "omap_set cmp k v ((k', v') # m) =
     (if cmp k k' < 0 then (k, v) # (k', v') # m
      else if cmp k k' = 0 then (k', v) # m
      else (k', v') # omap_set cmp k v m)"

definition omap_erase :: "'k cmp \<Rightarrow> 'k \<Rightarrow> ('k \<times> 'v) list \<Rightarrow> ('k \<times> 'v) list" where
  "omap_erase cmp k m = filter (\<lambda>(k', _). cmp k k' \<noteq> 0) m"

text \<open>A set is a map to nothing.\<close>

type_synonym 'k oset = "('k \<times> unit) list"

definition oset_find :: "'k cmp \<Rightarrow> 'k \<Rightarrow> 'k oset \<Rightarrow> bool" where
  "oset_find cmp k s \<longleftrightarrow> omap_find cmp k s \<noteq> None"

definition oset_insert :: "'k cmp \<Rightarrow> 'k \<Rightarrow> 'k oset \<Rightarrow> 'k oset" where
  "oset_insert cmp k s = omap_insert cmp k () s"

text \<open>\<^verbatim>\<open>std::pair\<close> compares its components one after the other.\<close>

definition pair_cmp :: "'a cmp \<Rightarrow> 'b cmp \<Rightarrow> ('a \<times> 'b) cmp" where
  "pair_cmp c d p q = lexi (c (fst p) (fst q)) (d (snd p) (snd q))"

subsection \<open>The order of the keys\<close>

locale key_order =
  fixes cmp :: "'k cmp"
  assumes cmp_flip: "cmp b a = - cmp a b"
    and cmp_tri: "tri (cmp a b) (cmp b c) (cmp a c)"
begin

lemma cmp_refl [simp]: "cmp a a = 0"
  using cmp_flip [of a a] by simp

lemma cmp_0_sym: "cmp a b = 0 \<Longrightarrow> cmp b a = 0"
  using cmp_flip [of b a] by simp

lemma cmp_0_trans: "cmp a b = 0 \<Longrightarrow> cmp b c = 0 \<Longrightarrow> cmp a c = 0"
  using cmp_tri [of a b c] by (simp add: tri_def)

lemma cmp_less_trans: "cmp a b < 0 \<Longrightarrow> cmp b c \<le> 0 \<Longrightarrow> cmp a c < 0"
  using cmp_tri [of a b c] unfolding tri_def by (metis less_le)

lemma cmp_cong: "cmp k k' = 0 \<Longrightarrow> cmp k x = 0 \<longleftrightarrow> cmp k' x = 0"
  by (meson cmp_0_sym cmp_0_trans)

text \<open>Keys that compare equal are the same key.\<close>

lemma find_cong: "cmp k k' = 0 \<Longrightarrow> omap_find cmp k m = omap_find cmp k' m"
  by (induction m) (auto simp: cmp_cong)

definition sorted_map :: "('k \<times> 'v) list \<Rightarrow> bool" where
  "sorted_map m \<longleftrightarrow> sorted_wrt (\<lambda>p q. cmp (fst p) (fst q) < 0) m"

lemma sorted_map_Nil [simp]: "sorted_map []"
  by (simp add: sorted_map_def)

lemma set_insert_subset: "set (omap_insert cmp k v m) \<subseteq> insert (k, v) (set m)"
  by (induction m) (auto split: if_splits)

text \<open>A new key is added once; a key that is there changes nothing.\<close>

lemma mset_insert_new:
  "omap_find cmp k m = None \<Longrightarrow> mset (omap_insert cmp k v m) = add_mset (k, v) (mset m)"
  by (induction m) (auto split: if_splits)

lemma sorted_insert: "sorted_map m \<Longrightarrow> sorted_map (omap_insert cmp k v m)"
proof (induction m)
  case (Cons p m)
  obtain k' v' where p: "p = (k', v')" by force
  have "cmp k' (fst q) < 0" if "cmp k k' > 0" "q \<in> set (omap_insert cmp k v m)" for q
    using that set_insert_subset [of k v m] Cons.prems cmp_flip [of k' k]
    by (auto simp: sorted_map_def p)
  moreover have "cmp k (fst q) < 0" if "cmp k k' < 0" "q \<in> set m" for q
    using that Cons.prems cmp_less_trans [of k k' "fst q"] by (auto simp: sorted_map_def p order.strict_implies_order)
  ultimately show ?case using Cons by (auto simp: sorted_map_def p)
qed (simp add: sorted_map_def)

lemma set_set_subset: "q \<in> set (omap_set cmp k v m) \<Longrightarrow> fst q = k \<or> fst q \<in> fst ` set m"
  by (induction m) (auto split: if_splits)

lemma sorted_set: "sorted_map m \<Longrightarrow> sorted_map (omap_set cmp k v m)"
proof (induction m)
  case (Cons p m)
  obtain k' v' where p: "p = (k', v')" by force
  have "cmp k' (fst q) < 0" if "cmp k k' > 0" "q \<in> set (omap_set cmp k v m)" for q
    using that set_set_subset [of q k v m] Cons.prems cmp_flip [of k' k]
    by (auto simp: sorted_map_def p)
  moreover have "cmp k (fst q) < 0" if "cmp k k' < 0" "q \<in> set m" for q
    using that Cons.prems cmp_less_trans [of k k' "fst q"] by (auto simp: sorted_map_def p order.strict_implies_order)
  ultimately show ?case using Cons by (auto simp: sorted_map_def p)
qed (simp add: sorted_map_def)

lemma not_found_below:
  assumes "sorted_map ((k', v') # m)" "cmp k k' < 0"
  shows "omap_find cmp k ((k', v') # m) = None"
proof -
  have "cmp k (fst q) < 0" if "q \<in> set m" for q
    using that assms cmp_less_trans [of k k' "fst q"] by (auto simp: sorted_map_def order.strict_implies_order)
  then have "omap_find cmp k m = None" by (induction m) (force simp: less_le)+
  with assms(2) show ?thesis by simp
qed

text \<open>What a lookup returns after an insertion: the old value when there was one.\<close>

lemma find_insert:
  assumes "sorted_map m"
  shows "omap_find cmp k' (omap_insert cmp k v m) =
    (if cmp k' k = 0 \<and> omap_find cmp k m = None then Some v else omap_find cmp k' m)"
  using assms
proof (induction m)
  case (Cons p m)
  obtain j w where p: "p = (j, w)" by force
  have m: "sorted_map m" using Cons.prems by (simp add: sorted_map_def)
  consider "cmp k j < 0" | "cmp k j = 0" | "cmp k j > 0" by linarith
  then show ?case
  proof cases
    case 1
    with not_found_below [of j w m k] Cons.prems show ?thesis by (simp add: p)
  next
    case 2
    then have "cmp k' k = 0 \<Longrightarrow> cmp k' j = 0" using cmp_0_trans by blast
    with 2 show ?thesis by (simp add: p)
  next
    case 3
    then have "cmp k' k = 0 \<Longrightarrow> cmp k' j \<noteq> 0" using cmp_cong by force
    with 3 Cons.IH [OF m] show ?thesis by (auto simp: p)
  qed
qed simp

lemma find_set:
  assumes "sorted_map m"
  shows "omap_find cmp k' (omap_set cmp k v m) =
    (if cmp k' k = 0 then Some v else omap_find cmp k' m)"
  using assms
proof (induction m)
  case (Cons p m)
  obtain j w where p: "p = (j, w)" by force
  have m: "sorted_map m" using Cons.prems by (simp add: sorted_map_def)
  consider "cmp k j < 0" | "cmp k j = 0" | "cmp k j > 0" by linarith
  then show ?case
  proof cases
    case 2
    then have "cmp k' k = 0 \<longleftrightarrow> cmp k' j = 0" using cmp_0_trans cmp_0_sym by blast
    with 2 show ?thesis by (simp add: p)
  next
    case 3
    then have "cmp k' k = 0 \<Longrightarrow> cmp k' j \<noteq> 0" using cmp_cong by force
    with 3 Cons.IH [OF m] show ?thesis by (auto simp: p)
  qed (simp add: p)
qed simp

end

interpretation ek: key_order "compare hv" for hv
  by unfold_locales (rule compare_flip, rule compare_tri)

lemma key_order_pair:
  assumes "key_order c" "key_order d"
  shows "key_order (pair_cmp c d)"
proof
  fix a b e :: "'a \<times> 'b"
  show "pair_cmp c d b a = - pair_cmp c d a b"
    using key_order.cmp_flip [OF assms(1), of "fst b" "fst a"] key_order.cmp_flip [OF assms(2), of "snd b" "snd a"]
    by (simp add: pair_cmp_def lexi_def)
  show "tri (pair_cmp c d a b) (pair_cmp c d b e) (pair_cmp c d a e)"
    unfolding pair_cmp_def
    by (intro tri_lexi key_order.cmp_tri [OF assms(1)] key_order.cmp_tri [OF assms(2)])
qed

interpretation pk: key_order "pair_cmp (compare hv) (compare hv)" for hv
  by (intro key_order_pair ek.key_order_axioms)

end
