(* ===== verification/CacheUtil.thy ===== *)
theory CacheUtil
  imports ExprCreateSound ExprArrays Containers
begin

text \<open>
  \<^verbatim>\<open>lib/Core/CacheUtil.h\<close> and \<^verbatim>\<open>CacheUtil.cpp\<close>: the cache configuration, the set index and the tag of
  an address, concrete (\<open>getSet_const\<close>, \<open>getTag_const\<close>) and as expressions (\<open>getSet\<close>, \<open>getTag\<close>), and
  the equality constraints between the sets and tags of two addresses. The four static
  buffers that memoise expressions are the state (\<open>cache_bufs\<close>), passed through every call.

  The invariant \<open>bufs_ok\<close> says that every buffered expression denotes what it is the buffer
  of; every operation returns on well-formed 64-bit addresses, keeps the invariant, and its
  result denotes the set, the tag or the equality it is named after.
\<close>

subsection \<open>Configuration and buffers\<close>

record cache_config =
  cache_ways :: nat
  cache_line_size :: nat
  cache_set_size :: nat

definition default_config :: cache_config where
  "default_config = \<lparr>cache_ways = 2, cache_line_size = 64, cache_set_size = 512 div 2\<rparr>"

record cache_bufs =
  setPairBuffer :: "((expr \<times> expr) \<times> expr) list"
  tagPairBuffer :: "((expr \<times> expr) \<times> expr) list"
  setBuffer :: "(expr \<times> expr) list"
  tagBuffer :: "(expr \<times> expr) list"

definition empty_bufs :: cache_bufs where
  "empty_bufs = \<lparr>setPairBuffer = [], tagPairBuffer = [], setBuffer = [], tagBuffer = []\<rparr>"

type_synonym hasher = "nat \<Rightarrow> int \<Rightarrow> 32 word"

abbreviation ecmp :: "hasher \<Rightarrow> expr cmp" where
  "ecmp hv \<equiv> compare hv"

abbreviation pcmp :: "hasher \<Rightarrow> (expr \<times> expr) cmp" where
  "pcmp hv \<equiv> pair_cmp (compare hv) (compare hv)"

subsection \<open>Sets and tags\<close>

text \<open>
  The loop \<^verbatim>\<open>while (n >>= 1) power++\<close>. The argument is an \<^verbatim>\<open>int\<close>: an unsigned configuration
  value from \<open>2 ^ 31\<close> on would arrive negative and fail the assertion.
\<close>

function log_loop :: "nat \<Rightarrow> nat \<Rightarrow> nat" where
  "log_loop n pw = (if n div 2 = 0 then pw else log_loop (n div 2) (pw + 1))"
  by pat_completeness auto
termination
  by (relation "measure fst") auto

declare log_loop.simps [simp del]

definition log_base2 :: "nat \<Rightarrow> nat option" where
  "log_base2 n = do { assert_that (0 < n \<and> n < 2 ^ 31 \<and> and n (n - 1) = 0); Some (log_loop n 0) }"

text \<open>The macros \<^verbatim>\<open>CACHE_SET\<close> and \<^verbatim>\<open>CACHE_TAG\<close> on 64-bit addresses.\<close>

definition CACHE_SET :: "int \<Rightarrow> nat \<Rightarrow> nat \<Rightarrow> int option" where
  "CACHE_SET x nset line = do { l \<leftarrow> log_base2 line; Some (drop_bit l x AND take_bit 32 (int nset - 1)) }"

definition CACHE_TAG :: "int \<Rightarrow> nat \<Rightarrow> nat \<Rightarrow> int option" where
  "CACHE_TAG x nset line = do { l \<leftarrow> log_base2 line; s \<leftarrow> log_base2 nset; Some (drop_bit (l + s) x) }"

definition getSet_const :: "cache_config \<Rightarrow> const_expr \<Rightarrow> int option" where
  "getSet_const cfg ce =
     do { addrRaw \<leftarrow> ce_getZExtValue ce 64; CACHE_SET addrRaw (cache_set_size cfg) (cache_line_size cfg) }"

definition getTag_const :: "cache_config \<Rightarrow> const_expr \<Rightarrow> int option" where
  "getTag_const cfg ce =
     do { addrRaw \<leftarrow> ce_getZExtValue ce 64; CACHE_TAG addrRaw (cache_set_size cfg) (cache_line_size cfg) }"

definition getSet :: "cache_config \<Rightarrow> hasher \<Rightarrow> expr \<Rightarrow> cache_bufs \<Rightarrow> (expr \<times> cache_bufs) option" where
  "getSet cfg hv addr B =
     do { assert_that (\<not> is_ConstantExpr addr);
          case omap_find (ecmp hv) addr (setBuffer B) of
            Some e \<Rightarrow> Some (e, B)
          | None \<Rightarrow>
              do { l \<leftarrow> log_base2 (cache_line_size cfg);
                   blAddr \<leftarrow> create_LShrExpr addr (ConstantExpr (ce_alloc (int l) (getWidth addr)));
                   e \<leftarrow> create_AndExpr blAddr
                     (ConstantExpr (ce_alloc (take_bit 32 (int (cache_set_size cfg) - 1)) (getWidth addr)));
                   Some (e, B\<lparr>setBuffer := omap_set (ecmp hv) addr e (setBuffer B)\<rparr>) } }"

definition getTag :: "cache_config \<Rightarrow> hasher \<Rightarrow> expr \<Rightarrow> cache_bufs \<Rightarrow> (expr \<times> cache_bufs) option" where
  "getTag cfg hv addr B =
     do { assert_that (\<not> is_ConstantExpr addr);
          case omap_find (ecmp hv) addr (tagBuffer B) of
            Some e \<Rightarrow> Some (e, B)
          | None \<Rightarrow>
              do { l \<leftarrow> log_base2 (cache_line_size cfg);
                   s \<leftarrow> log_base2 (cache_set_size cfg);
                   e \<leftarrow> create_LShrExpr addr (ConstantExpr (ce_alloc (int (l + s)) (getWidth addr)));
                   Some (e, B\<lparr>tagBuffer := omap_set (ecmp hv) addr e (tagBuffer B)\<rparr>) } }"

subsection \<open>Equality constraints\<close>

text \<open>\<^verbatim>\<open>dyn_cast<ConstantExpr>\<close> of an address that is not constant is a null pointer: the call aborts.\<close>

definition generateTagCnstrCC :: "cache_config \<Rightarrow> expr \<Rightarrow> expr \<Rightarrow> bool option" where
  "generateTagCnstrCC cfg addressI addressJ =
     do { ce1 \<leftarrow> dyn_cast_Constant addressI; ce2 \<leftarrow> dyn_cast_Constant addressJ;
          t1 \<leftarrow> getTag_const cfg ce1; t2 \<leftarrow> getTag_const cfg ce2; Some (t1 = t2) }"

definition generateSetCnstrCC :: "cache_config \<Rightarrow> expr \<Rightarrow> expr \<Rightarrow> bool option" where
  "generateSetCnstrCC cfg addressI addressJ =
     do { ce1 \<leftarrow> dyn_cast_Constant addressI; ce2 \<leftarrow> dyn_cast_Constant addressJ;
          s1 \<leftarrow> getSet_const cfg ce1; s2 \<leftarrow> getSet_const cfg ce2; Some (s1 = s2) }"

definition generateSetCnstr ::
    "cache_config \<Rightarrow> hasher \<Rightarrow> expr \<Rightarrow> expr \<Rightarrow> cache_bufs \<Rightarrow> (expr \<times> cache_bufs) option" where
  "generateSetCnstr cfg hv addressI addressJ B =
     (let (hasConst, cAddr, sAddr1) =
        (if is_ConstantExpr addressI then (True, addressI, addressJ)
         else if is_ConstantExpr addressJ then (True, addressJ, addressI)
         else (False, addressI, addressJ)) in
      if hasConst then
        do { assert_that (\<not> is_ConstantExpr sAddr1);
             case omap_find (pcmp hv) (cAddr, sAddr1) (setPairBuffer B) of
               Some e \<Rightarrow> Some (e, B)
             | None \<Rightarrow>
                 do { ce \<leftarrow> dyn_cast_Constant cAddr;
                      st \<leftarrow> getSet_const cfg ce;
                      (sSet, B) \<leftarrow> getSet cfg hv sAddr1 B;
                      e \<leftarrow> create_EqExpr sSet (ConstantExpr (ce_alloc st (getWidth sSet)));
                      Some (e, B\<lparr>setPairBuffer := omap_set (pcmp hv) (cAddr, sAddr1) e (setPairBuffer B)\<rparr>) } }
      else
        (case omap_find (pcmp hv) (addressJ, addressI) (setPairBuffer B) of
           Some e \<Rightarrow> Some (e, B)
         | None \<Rightarrow> (case omap_find (pcmp hv) (addressI, addressJ) (setPairBuffer B) of
             Some e \<Rightarrow> Some (e, B)
           | None \<Rightarrow>
               do { (s1, B) \<leftarrow> getSet cfg hv addressJ B;
                    (s2, B) \<leftarrow> getSet cfg hv addressI B;
                    e \<leftarrow> create_EqExpr s1 s2;
                    Some (e, B\<lparr>setPairBuffer := omap_set (pcmp hv) (addressJ, addressI) e (setPairBuffer B)\<rparr>) })))"

definition generateTagCnstr ::
    "cache_config \<Rightarrow> hasher \<Rightarrow> expr \<Rightarrow> expr \<Rightarrow> cache_bufs \<Rightarrow> (expr \<times> cache_bufs) option" where
  "generateTagCnstr cfg hv addressI addressJ B =
     (let (hasConst, cAddr, sAddr1) =
        (if is_ConstantExpr addressI then (True, addressI, addressJ)
         else if is_ConstantExpr addressJ then (True, addressJ, addressI)
         else (False, addressI, addressJ)) in
      if hasConst then
        do { assert_that (\<not> is_ConstantExpr sAddr1);
             case omap_find (pcmp hv) (cAddr, sAddr1) (tagPairBuffer B) of
               Some e \<Rightarrow> Some (e, B)
             | None \<Rightarrow>
                 do { ce \<leftarrow> dyn_cast_Constant cAddr;
                      tg \<leftarrow> getTag_const cfg ce;
                      (sTag, B) \<leftarrow> getTag cfg hv sAddr1 B;
                      e \<leftarrow> create_EqExpr sTag (ConstantExpr (ce_alloc tg (getWidth sTag)));
                      Some (e, B\<lparr>tagPairBuffer := omap_set (pcmp hv) (cAddr, sAddr1) e (tagPairBuffer B)\<rparr>) } }
      else
        (case omap_find (pcmp hv) (addressJ, addressI) (tagPairBuffer B) of
           Some e \<Rightarrow> Some (e, B)
         | None \<Rightarrow> (case omap_find (pcmp hv) (addressI, addressJ) (tagPairBuffer B) of
             Some e \<Rightarrow> Some (e, B)
           | None \<Rightarrow>
               do { (s1, B) \<leftarrow> getTag cfg hv addressJ B;
                    (s2, B) \<leftarrow> getTag cfg hv addressI B;
                    e \<leftarrow> create_EqExpr s1 s2;
                    Some (e, B\<lparr>tagPairBuffer := omap_set (pcmp hv) (addressJ, addressI) e (tagPairBuffer B)\<rparr>) })))"

subsection \<open>Specification\<close>

text \<open>
  A configuration the code supports: lines and sets are powers of two that fit an \<^verbatim>\<open>int\<close>.
\<close>

definition cfg_ok :: "cache_config \<Rightarrow> bool" where
  "cfg_ok cfg \<longleftrightarrow> (\<exists>l s. l < 31 \<and> s < 31 \<and> cache_line_size cfg = 2 ^ l \<and> cache_set_size cfg = 2 ^ s)
     \<and> cache_ways cfg < 2 ^ 32"

definition set_of :: "cache_config \<Rightarrow> int \<Rightarrow> int" where
  "set_of cfg v = v div int (cache_line_size cfg) mod int (cache_set_size cfg)"

definition tag_of :: "cache_config \<Rightarrow> int \<Rightarrow> int" where
  "tag_of cfg v = v div int (cache_line_size cfg) div int (cache_set_size cfg)"

text \<open>The cache line of an address: its set together with its tag.\<close>

definition line_of :: "cache_config \<Rightarrow> int \<Rightarrow> int" where
  "line_of cfg v = v div int (cache_line_size cfg)"

lemma line_eq_iff: "cfg_ok cfg \<Longrightarrow>
    line_of cfg a = line_of cfg b \<longleftrightarrow> set_of cfg a = set_of cfg b \<and> tag_of cfg a = tag_of cfg b"
  unfolding cfg_ok_def line_of_def set_of_def tag_of_def
  by (metis mult_div_mod_eq)

lemma log_loop_pow: "log_loop (2 ^ n) p = p + n"
proof (induction n arbitrary: p)
  case 0
  then show ?case by (simp add: log_loop.simps)
next
  case (Suc n)
  then show ?case by (subst log_loop.simps) simp
qed

lemma log_base2_pow [simp]: "n < 31 \<Longrightarrow> log_base2 (2 ^ n) = Some n"
proof -
  assume n: "n < 31"
  have "take_bit n (2 ^ n) = (0::nat)" by (simp add: take_bit_eq_mod)
  then have "and (2 ^ n) (2 ^ n - 1) = (0::nat)" by (simp add: take_bit_eq_mask mask_eq_exp_minus_1)
  moreover have "(2::nat) ^ n < 2 ^ 31" using n by (intro power_strict_increasing) auto
  ultimately show ?thesis by (simp add: log_base2_def log_loop_pow)
qed

lemma cfg_okE:
  assumes "cfg_ok cfg"
  obtains l s where "l < 31" "s < 31" "cache_line_size cfg = 2 ^ l" "cache_set_size cfg = 2 ^ s"
    "\<And>v. set_of cfg v = take_bit s (drop_bit l v)" "\<And>v. tag_of cfg v = drop_bit (l + s) v"
proof -
  from assms obtain l s where *: "l < 31" "s < 31" "cache_line_size cfg = 2 ^ l" "cache_set_size cfg = 2 ^ s"
    by (auto simp: cfg_ok_def)
  then have "set_of cfg v = take_bit s (drop_bit l v)" "tag_of cfg v = drop_bit (l + s) v" for v
    by (simp_all add: set_of_def tag_of_def take_bit_eq_mod drop_bit_eq_div power_add zdiv_zmult2_eq)
  with * show thesis by (rule that)
qed

lemma set_mask: "s < 31 \<Longrightarrow> take_bit 32 (2 ^ s - 1) = (mask s :: int)"
  by (simp flip: mask_eq_exp_minus_1)

lemma getSet_const_eq:
  assumes "cfg_ok cfg" "wf_const ce" "ce_width ce = 64"
  shows "getSet_const cfg ce = Some (set_of cfg (ce_value ce))"
  using assms(1) assms
  by (auto elim!: cfg_okE simp: getSet_const_def CACHE_SET_def ce_getZExtValue_def set_mask)
    (simp add: take_bit_eq_mask)

lemma getTag_const_eq:
  assumes "cfg_ok cfg" "wf_const ce" "ce_width ce = 64"
  shows "getTag_const cfg ce = Some (tag_of cfg (ce_value ce))"
  using assms by (auto elim!: cfg_okE simp: getTag_const_def CACHE_TAG_def ce_getZExtValue_def)

text \<open>The addresses of a run: well-formed 64-bit expressions over a family of arrays in which an
  array is determined by where it lives.\<close>

definition addr_ok :: "array set \<Rightarrow> expr \<Rightarrow> bool" where
  "addr_ok A a \<longleftrightarrow> inj_on arr_addr A \<and> wf_expr a \<and> getWidth a = 64 \<and> arrays a \<subseteq> A"

lemma same_key:
  assumes "addr_ok A a" "addr_ok A b" "compare hv a b = 0"
  shows "eval \<rho> a = eval \<rho> b"
proof -
  have "inj_on arr_addr (arrays a \<union> arrays b)"
    using assms(1,2) by (auto simp: addr_ok_def intro: inj_on_subset)
  with compare_eq_0_iff assms(3) expr_eq_eval show ?thesis by blast
qed

lemma omap_find_Some: "omap_find cmp k m = Some v \<Longrightarrow> \<exists>k'. (k', v) \<in> set m \<and> cmp k k' = 0"
  by (induction m) (auto split: if_splits)

lemma omap_set_all:
  assumes "\<forall>(k', v') \<in> set m. P k' v'" "P k v" "\<And>k' v'. (k', v') \<in> set m \<Longrightarrow> cmp k k' = 0 \<Longrightarrow> P k' v"
  shows "\<forall>(k', v') \<in> set (omap_set cmp k v m). P k' v'"
  using assms
proof (induction m)
  case (Cons p m)
  have "\<forall>(k', v') \<in> set (omap_set cmp k v m). P k' v'"
    by (rule Cons.IH) (use Cons.prems in auto)
  with Cons.prems show ?case by (cases p) auto
qed simp

text \<open>
  The buffers memoise: \<open>memo P m\<close> says that every entry has the property \<open>P\<close> of its key, and \<open>P\<close>
  does not tell apart keys that compare equal.
\<close>

definition memo :: "('k \<Rightarrow> expr \<Rightarrow> bool) \<Rightarrow> ('k \<times> expr) list \<Rightarrow> bool" where
  "memo P m \<longleftrightarrow> (\<forall>(k, e) \<in> set m. P k e)"

lemma memo_find:
  assumes "memo P m" "omap_find cmp k m = Some e" "\<And>k'. P k' e \<Longrightarrow> cmp k k' = 0 \<Longrightarrow> P k e"
  shows "P k e"
  using assms(1) omap_find_Some [OF assms(2)] assms(3) by (auto simp: memo_def)

lemma memo_set:
  assumes "memo P m" "P k e" "\<And>k' e'. P k' e' \<Longrightarrow> cmp k k' = 0 \<Longrightarrow> P k' e"
  shows "memo P (omap_set cmp k e m)"
  using assms unfolding memo_def by (intro omap_set_all) auto

definition set_spec :: "array set \<Rightarrow> cache_config \<Rightarrow> expr \<Rightarrow> expr \<Rightarrow> bool" where
  "set_spec A cfg a e \<longleftrightarrow> addr_ok A a \<and> arrays e \<subseteq> A \<and> denotes e 64 (\<lambda>\<rho>. set_of cfg (eval \<rho> a))"

definition tag_spec :: "array set \<Rightarrow> cache_config \<Rightarrow> expr \<Rightarrow> expr \<Rightarrow> bool" where
  "tag_spec A cfg a e \<longleftrightarrow> addr_ok A a \<and> arrays e \<subseteq> A \<and> denotes e 64 (\<lambda>\<rho>. tag_of cfg (eval \<rho> a))"

definition set_eq_spec :: "array set \<Rightarrow> cache_config \<Rightarrow> expr \<times> expr \<Rightarrow> expr \<Rightarrow> bool" where
  "set_eq_spec A cfg p e \<longleftrightarrow> addr_ok A (fst p) \<and> addr_ok A (snd p) \<and> arrays e \<subseteq> A
     \<and> denotes e 1 (\<lambda>\<rho>. of_bool (set_of cfg (eval \<rho> (fst p)) = set_of cfg (eval \<rho> (snd p))))"

definition tag_eq_spec :: "array set \<Rightarrow> cache_config \<Rightarrow> expr \<times> expr \<Rightarrow> expr \<Rightarrow> bool" where
  "tag_eq_spec A cfg p e \<longleftrightarrow> addr_ok A (fst p) \<and> addr_ok A (snd p) \<and> arrays e \<subseteq> A
     \<and> denotes e 1 (\<lambda>\<rho>. of_bool (tag_of cfg (eval \<rho> (fst p)) = tag_of cfg (eval \<rho> (snd p))))"

definition bufs_ok :: "array set \<Rightarrow> cache_config \<Rightarrow> cache_bufs \<Rightarrow> bool" where
  "bufs_ok A cfg B \<longleftrightarrow> memo (set_spec A cfg) (setBuffer B) \<and> memo (tag_spec A cfg) (tagBuffer B)
     \<and> memo (set_eq_spec A cfg) (setPairBuffer B) \<and> memo (tag_eq_spec A cfg) (tagPairBuffer B)"

lemma bufs_ok_empty [simp]: "bufs_ok A cfg empty_bufs"
  by (simp add: bufs_ok_def empty_bufs_def memo_def)

text \<open>Each specification is the same for keys that compare equal.\<close>

lemma spec_transfer:
  assumes "compare hv k k' = 0" "addr_ok A k" "addr_ok A k'"
  shows "set_spec A cfg k e = set_spec A cfg k' e" "tag_spec A cfg k e = tag_spec A cfg k' e"
  using same_key [OF assms(2,3,1)] assms(2,3) by (simp_all add: set_spec_def tag_spec_def)

lemma pair_spec_transfer:
  assumes "pcmp hv p q = 0" "addr_ok A (fst p)" "addr_ok A (snd p)" "addr_ok A (fst q)" "addr_ok A (snd q)"
  shows "set_eq_spec A cfg p e = set_eq_spec A cfg q e" "tag_eq_spec A cfg p e = tag_eq_spec A cfg q e"
proof -
  have "compare hv (fst p) (fst q) = 0" "compare hv (snd p) (snd q) = 0"
    using assms(1) by (simp_all add: pair_cmp_def)
  then have "eval \<rho> (fst p) = eval \<rho> (fst q)" "eval \<rho> (snd p) = eval \<rho> (snd q)" for \<rho>
    using same_key assms(2-5) by blast+
  then show "set_eq_spec A cfg p e = set_eq_spec A cfg q e" "tag_eq_spec A cfg p e = tag_eq_spec A cfg q e"
    using assms(2-5) by (simp_all add: set_eq_spec_def tag_eq_spec_def)
qed

lemma spec_addr: "set_spec A cfg a e \<Longrightarrow> addr_ok A a" "tag_spec A cfg a e \<Longrightarrow> addr_ok A a"
    "set_eq_spec A cfg p e \<Longrightarrow> addr_ok A (fst p) \<and> addr_ok A (snd p)"
    "tag_eq_spec A cfg p e \<Longrightarrow> addr_ok A (fst p) \<and> addr_ok A (snd p)"
  by (simp_all add: set_spec_def tag_spec_def set_eq_spec_def tag_eq_spec_def)

lemma buffer_find:
  assumes "bufs_ok A cfg B"
  shows "omap_find (ecmp hv) a (setBuffer B) = Some e \<Longrightarrow> addr_ok A a \<Longrightarrow> set_spec A cfg a e"
    and "omap_find (ecmp hv) a (tagBuffer B) = Some e \<Longrightarrow> addr_ok A a \<Longrightarrow> tag_spec A cfg a e"
    and "omap_find (pcmp hv) p (setPairBuffer B) = Some e \<Longrightarrow> addr_ok A (fst p) \<Longrightarrow> addr_ok A (snd p)
      \<Longrightarrow> set_eq_spec A cfg p e"
    and "omap_find (pcmp hv) p (tagPairBuffer B) = Some e \<Longrightarrow> addr_ok A (fst p) \<Longrightarrow> addr_ok A (snd p)
      \<Longrightarrow> tag_eq_spec A cfg p e"
  using assms spec_addr unfolding bufs_ok_def
  by (metis memo_find spec_transfer(1), metis memo_find spec_transfer(2),
      metis memo_find pair_spec_transfer(1), metis memo_find pair_spec_transfer(2))

lemma buffer_set:
  assumes "bufs_ok A cfg B"
  shows "set_spec A cfg a e \<Longrightarrow> bufs_ok A cfg (B\<lparr>setBuffer := omap_set (ecmp hv) a e (setBuffer B)\<rparr>)"
    and "tag_spec A cfg a e \<Longrightarrow> bufs_ok A cfg (B\<lparr>tagBuffer := omap_set (ecmp hv) a e (tagBuffer B)\<rparr>)"
    and "set_eq_spec A cfg p e \<Longrightarrow> bufs_ok A cfg (B\<lparr>setPairBuffer := omap_set (pcmp hv) p e (setPairBuffer B)\<rparr>)"
    and "tag_eq_spec A cfg p e \<Longrightarrow> bufs_ok A cfg (B\<lparr>tagPairBuffer := omap_set (pcmp hv) p e (tagPairBuffer B)\<rparr>)"
proof -
  note ok = assms [unfolded bufs_ok_def]
  show "set_spec A cfg a e \<Longrightarrow> bufs_ok A cfg (B\<lparr>setBuffer := omap_set (ecmp hv) a e (setBuffer B)\<rparr>)"
    using ok memo_set [of "set_spec A cfg" "setBuffer B" a e "ecmp hv"] spec_addr(1) spec_transfer(1)
    unfolding bufs_ok_def by simp metis
  show "tag_spec A cfg a e \<Longrightarrow> bufs_ok A cfg (B\<lparr>tagBuffer := omap_set (ecmp hv) a e (tagBuffer B)\<rparr>)"
    using ok memo_set [of "tag_spec A cfg" "tagBuffer B" a e "ecmp hv"] spec_addr(2) spec_transfer(2)
    unfolding bufs_ok_def by simp metis
  show "set_eq_spec A cfg p e \<Longrightarrow> bufs_ok A cfg (B\<lparr>setPairBuffer := omap_set (pcmp hv) p e (setPairBuffer B)\<rparr>)"
    using ok memo_set [of "set_eq_spec A cfg" "setPairBuffer B" p e "pcmp hv"] spec_addr(3) pair_spec_transfer(1)
    unfolding bufs_ok_def by simp metis
  show "tag_eq_spec A cfg p e \<Longrightarrow> bufs_ok A cfg (B\<lparr>tagPairBuffer := omap_set (pcmp hv) p e (tagPairBuffer B)\<rparr>)"
    using ok memo_set [of "tag_eq_spec A cfg" "tagPairBuffer B" p e "pcmp hv"] spec_addr(4) pair_spec_transfer(2)
    unfolding bufs_ok_def by simp metis
qed

subsection \<open>Correctness\<close>

lemma lshr_const:
  assumes "addr_ok A addr" "n < 64"
  shows "returns (create_LShrExpr addr (ConstantExpr (ce_alloc (int n) (getWidth addr))))
    (\<lambda>e. denotes e 64 (\<lambda>\<rho>. drop_bit n (eval \<rho> addr)))"
proof -
  have "int n < 2 ^ 64" using assms(2) by simp
  then have "take_bit 64 (int n) = int n" by (simp add: take_bit_int_eq_self)
  with assms create_shift_sound(2) [of addr "ConstantExpr (ce_alloc (int n) (getWidth addr))"] show ?thesis
    by (auto simp: addr_ok_def safe_spec_def denotes_def div_kind_def ap_lshr_def elim!: returns_mono)
qed

lemma getSet_ok:
  assumes "cfg_ok cfg" "bufs_ok A cfg B" "addr_ok A addr" "\<not> is_ConstantExpr addr"
  shows "returns (getSet cfg hv addr B) (\<lambda>(e, B'). bufs_ok A cfg B' \<and> set_spec A cfg addr e)"
proof (cases "omap_find (ecmp hv) addr (setBuffer B)")
  case (Some e)
  with assms buffer_find(1) [OF assms(2) Some assms(3)] show ?thesis by (simp add: getSet_def)
next
  case None
  obtain l s where ls: "l < 31" "s < 31" "cache_line_size cfg = 2 ^ l" "cache_set_size cfg = 2 ^ s"
    "\<And>v. set_of cfg v = take_bit s (drop_bit l v)"
    using cfg_okE [OF assms(1)] by metis
  obtain bl where bl: "create_LShrExpr addr (ConstantExpr (ce_alloc (int l) (getWidth addr))) = Some bl"
      "denotes bl 64 (\<lambda>\<rho>. drop_bit l (eval \<rho> addr))"
    using lshr_const [OF assms(3), of l] ls by (auto simp: returns_iff)
  let ?m = "ConstantExpr (ce_alloc (take_bit 32 (int (cache_set_size cfg) - 1)) (getWidth addr))"
  have m: "wf_expr ?m" "getWidth ?m = 64" "eval \<rho> ?m = mask s" for \<rho>
    using assms(3) ls by (simp_all add: addr_ok_def set_mask min_def)
  obtain e where e: "create_AndExpr bl ?m = Some e" "bin_spec And bl ?m e"
    using create_AndExpr_sound [of bl ?m] bl(2) m by (auto simp: returns_iff denotes_def)
  have "arrays e \<subseteq> A"
    using create_LShrExpr_arrays [OF bl(1)] create_AndExpr_arrays [OF e(1)] assms(3) by (auto simp: addr_ok_def)
  then have spec: "set_spec A cfg addr e"
    using e(2) bl(2) m(3) assms(3) ls(5) by (simp add: set_spec_def bin_spec_def denotes_def take_bit_eq_mask)
  with None assms(4) bl e ls buffer_set(1) [OF assms(2) spec] show ?thesis by (simp add: getSet_def)
qed

lemma getTag_ok:
  assumes "cfg_ok cfg" "bufs_ok A cfg B" "addr_ok A addr" "\<not> is_ConstantExpr addr"
  shows "returns (getTag cfg hv addr B) (\<lambda>(e, B'). bufs_ok A cfg B' \<and> tag_spec A cfg addr e)"
proof (cases "omap_find (ecmp hv) addr (tagBuffer B)")
  case (Some e)
  with assms buffer_find(2) [OF assms(2) Some assms(3)] show ?thesis by (simp add: getTag_def)
next
  case None
  obtain l s where ls: "l < 31" "s < 31" "cache_line_size cfg = 2 ^ l" "cache_set_size cfg = 2 ^ s"
    "\<And>v. tag_of cfg v = drop_bit (l + s) v"
    using cfg_okE [OF assms(1)] by metis
  obtain e where e: "create_LShrExpr addr (ConstantExpr (ce_alloc (int (l + s)) (getWidth addr))) = Some e"
      "denotes e 64 (\<lambda>\<rho>. drop_bit (l + s) (eval \<rho> addr))"
    using lshr_const [OF assms(3), of "l + s"] ls by (auto simp: returns_iff)
  then have spec: "tag_spec A cfg addr e"
    using create_LShrExpr_arrays [OF e(1)] assms(3) ls(5) by (auto simp: tag_spec_def addr_ok_def)
  with None assms(4) e ls buffer_set(2) [OF assms(2) spec] show ?thesis by (simp add: getTag_def)
qed

lemma set_tag_fits:
  assumes "cfg_ok cfg" "fits 64 v"
  shows "fits 64 (set_of cfg v)" "fits 64 (tag_of cfg v)"
proof -
  obtain l s where "s < 31" "set_of cfg v = take_bit s (drop_bit l v)" "tag_of cfg v = drop_bit (l + s) v"
    using cfg_okE [OF assms(1)] by metis
  with assms(2) show "fits 64 (set_of cfg v)" "fits 64 (tag_of cfg v)"
    using fits_mono [of s "take_bit s (drop_bit l v)" 64] by simp_all
qed

lemma addr_const: "addr_ok A (ConstantExpr ce) \<Longrightarrow> wf_const ce \<and> ce_width ce = 64 \<and> fits 64 (ce_value ce)"
  by (auto simp: addr_ok_def wf_const_def)

text \<open>An equality with the set or tag of a constant address, and one between two symbolic ones.\<close>

lemma eq_const_spec:
  assumes "denotes s 64 f" "fits 64 v"
  shows "returns (create_EqExpr s (ConstantExpr (ce_alloc v (getWidth s)))) (\<lambda>e. denotes e 1 (\<lambda>\<rho>. of_bool (v = f \<rho>)))"
  using assms create_EqExpr_sound [of s "ConstantExpr (ce_alloc v (getWidth s))"]
  by (auto simp: denotes_def bin_spec_def eq_commute [of v] elim!: returns_mono)

lemma eq_spec:
  assumes "denotes s 64 f" "denotes t 64 g"
  shows "returns (create_EqExpr s t) (\<lambda>e. denotes e 1 (\<lambda>\<rho>. of_bool (f \<rho> = g \<rho>)))"
  using assms create_EqExpr_sound [of s t]
  by (auto simp: denotes_def bin_spec_def elim!: returns_mono)

lemma eq_spec_commute:
  "set_eq_spec A cfg (a, b) e = set_eq_spec A cfg (b, a) e" "tag_eq_spec A cfg (a, b) e = tag_eq_spec A cfg (b, a) e"
  by (auto simp: set_eq_spec_def tag_eq_spec_def eq_commute [of "_ cfg (eval _ a)"])

lemma set_const_case:
  assumes ok: "cfg_ok cfg" "bufs_ok A cfg B" "addr_ok A (ConstantExpr ce)" "addr_ok A x" "\<not> is_ConstantExpr x"
  shows "returns (do { st \<leftarrow> getSet_const cfg ce; (sSet, B) \<leftarrow> getSet cfg hv x B;
      e \<leftarrow> create_EqExpr sSet (ConstantExpr (ce_alloc st (getWidth sSet)));
      Some (e, B\<lparr>setPairBuffer := omap_set (pcmp hv) (ConstantExpr ce, x) e (setPairBuffer B)\<rparr>) })
    (\<lambda>(e, B'). bufs_ok A cfg B' \<and> set_eq_spec A cfg (ConstantExpr ce, x) e)"
proof -
  note ce = addr_const [OF ok(3)]
  obtain s B' where s: "getSet cfg hv x B = Some (s, B')" "bufs_ok A cfg B'" "set_spec A cfg x s"
    using getSet_ok [OF ok(1,2,4,5), of hv] by (auto simp: returns_iff)
  obtain e where e: "create_EqExpr s (ConstantExpr (ce_alloc (set_of cfg (ce_value ce)) (getWidth s))) = Some e"
      "denotes e 1 (\<lambda>\<rho>. of_bool (set_of cfg (ce_value ce) = set_of cfg (eval \<rho> x)))"
    using eq_const_spec [of s "\<lambda>\<rho>. set_of cfg (eval \<rho> x)" "set_of cfg (ce_value ce)"] s(3) set_tag_fits(1) [OF ok(1)] ce
    by (auto simp: returns_iff set_spec_def)
  then have "set_eq_spec A cfg (ConstantExpr ce, x) e"
    using ok s(3) create_EqExpr_arrays [OF e(1)] by (auto simp: set_eq_spec_def set_spec_def)
  with s e ce ok buffer_set(3) [OF s(2)] show ?thesis by (simp add: getSet_const_eq)
qed

lemma tag_const_case:
  assumes ok: "cfg_ok cfg" "bufs_ok A cfg B" "addr_ok A (ConstantExpr ce)" "addr_ok A x" "\<not> is_ConstantExpr x"
  shows "returns (do { tg \<leftarrow> getTag_const cfg ce; (sTag, B) \<leftarrow> getTag cfg hv x B;
      e \<leftarrow> create_EqExpr sTag (ConstantExpr (ce_alloc tg (getWidth sTag)));
      Some (e, B\<lparr>tagPairBuffer := omap_set (pcmp hv) (ConstantExpr ce, x) e (tagPairBuffer B)\<rparr>) })
    (\<lambda>(e, B'). bufs_ok A cfg B' \<and> tag_eq_spec A cfg (ConstantExpr ce, x) e)"
proof -
  note ce = addr_const [OF ok(3)]
  obtain s B' where s: "getTag cfg hv x B = Some (s, B')" "bufs_ok A cfg B'" "tag_spec A cfg x s"
    using getTag_ok [OF ok(1,2,4,5), of hv] by (auto simp: returns_iff)
  obtain e where e: "create_EqExpr s (ConstantExpr (ce_alloc (tag_of cfg (ce_value ce)) (getWidth s))) = Some e"
      "denotes e 1 (\<lambda>\<rho>. of_bool (tag_of cfg (ce_value ce) = tag_of cfg (eval \<rho> x)))"
    using eq_const_spec [of s "\<lambda>\<rho>. tag_of cfg (eval \<rho> x)" "tag_of cfg (ce_value ce)"] s(3) set_tag_fits(2) [OF ok(1)] ce
    by (auto simp: returns_iff tag_spec_def)
  then have "tag_eq_spec A cfg (ConstantExpr ce, x) e"
    using ok s(3) create_EqExpr_arrays [OF e(1)] by (auto simp: tag_eq_spec_def tag_spec_def)
  with s e ce ok buffer_set(4) [OF s(2)] show ?thesis by (simp add: getTag_const_eq)
qed

lemma set_sym_case:
  assumes ok: "cfg_ok cfg" "bufs_ok A cfg B" "addr_ok A x" "\<not> is_ConstantExpr x" "addr_ok A y" "\<not> is_ConstantExpr y"
  shows "returns (do { (s1, B) \<leftarrow> getSet cfg hv y B; (s2, B) \<leftarrow> getSet cfg hv x B; e \<leftarrow> create_EqExpr s1 s2;
      Some (e, B\<lparr>setPairBuffer := omap_set (pcmp hv) (y, x) e (setPairBuffer B)\<rparr>) })
    (\<lambda>(e, B'). bufs_ok A cfg B' \<and> set_eq_spec A cfg (y, x) e)"
proof -
  obtain s B1 where s: "getSet cfg hv y B = Some (s, B1)" "bufs_ok A cfg B1" "set_spec A cfg y s"
    using getSet_ok [OF ok(1,2,5,6), of hv] by (auto simp: returns_iff)
  obtain t B2 where t: "getSet cfg hv x B1 = Some (t, B2)" "bufs_ok A cfg B2" "set_spec A cfg x t"
    using getSet_ok [OF ok(1) s(2) ok(3,4), of hv] by (auto simp: returns_iff)
  obtain e where e: "create_EqExpr s t = Some e"
      "denotes e 1 (\<lambda>\<rho>. of_bool (set_of cfg (eval \<rho> y) = set_of cfg (eval \<rho> x)))"
    using eq_spec [of s "\<lambda>\<rho>. set_of cfg (eval \<rho> y)" t "\<lambda>\<rho>. set_of cfg (eval \<rho> x)"] s(3) t(3)
    by (auto simp: returns_iff set_spec_def)
  then have "set_eq_spec A cfg (y, x) e"
    using ok s(3) t(3) create_EqExpr_arrays [OF e(1)] by (auto simp: set_eq_spec_def set_spec_def)
  with s t e buffer_set(3) [OF t(2)] show ?thesis by simp
qed

lemma tag_sym_case:
  assumes ok: "cfg_ok cfg" "bufs_ok A cfg B" "addr_ok A x" "\<not> is_ConstantExpr x" "addr_ok A y" "\<not> is_ConstantExpr y"
  shows "returns (do { (s1, B) \<leftarrow> getTag cfg hv y B; (s2, B) \<leftarrow> getTag cfg hv x B; e \<leftarrow> create_EqExpr s1 s2;
      Some (e, B\<lparr>tagPairBuffer := omap_set (pcmp hv) (y, x) e (tagPairBuffer B)\<rparr>) })
    (\<lambda>(e, B'). bufs_ok A cfg B' \<and> tag_eq_spec A cfg (y, x) e)"
proof -
  obtain s B1 where s: "getTag cfg hv y B = Some (s, B1)" "bufs_ok A cfg B1" "tag_spec A cfg y s"
    using getTag_ok [OF ok(1,2,5,6), of hv] by (auto simp: returns_iff)
  obtain t B2 where t: "getTag cfg hv x B1 = Some (t, B2)" "bufs_ok A cfg B2" "tag_spec A cfg x t"
    using getTag_ok [OF ok(1) s(2) ok(3,4), of hv] by (auto simp: returns_iff)
  obtain e where e: "create_EqExpr s t = Some e"
      "denotes e 1 (\<lambda>\<rho>. of_bool (tag_of cfg (eval \<rho> y) = tag_of cfg (eval \<rho> x)))"
    using eq_spec [of s "\<lambda>\<rho>. tag_of cfg (eval \<rho> y)" t "\<lambda>\<rho>. tag_of cfg (eval \<rho> x)"] s(3) t(3)
    by (auto simp: returns_iff tag_spec_def)
  then have "tag_eq_spec A cfg (y, x) e"
    using ok s(3) t(3) create_EqExpr_arrays [OF e(1)] by (auto simp: tag_eq_spec_def tag_spec_def)
  with s t e buffer_set(4) [OF t(2)] show ?thesis by simp
qed

theorem generateSetCnstr_ok:
  assumes ok: "cfg_ok cfg" "bufs_ok A cfg B" "addr_ok A x" "addr_ok A y"
    and "\<not> (is_ConstantExpr x \<and> is_ConstantExpr y)"
  shows "returns (generateSetCnstr cfg hv x y B) (\<lambda>(e, B'). bufs_ok A cfg B' \<and> set_eq_spec A cfg (x, y) e)"
proof -
  consider (l) ce where "x = ConstantExpr ce" "\<not> is_ConstantExpr y" | (r) ce where "\<not> is_ConstantExpr x" "y = ConstantExpr ce"
    | (s) "\<not> is_ConstantExpr x" "\<not> is_ConstantExpr y"
    using assms(5) by (cases x; cases y) auto
  then show ?thesis
  proof cases
    case (l ce)
    with set_const_case [of cfg A B ce y hv] buffer_find(3) [OF ok(2), of hv "(x, y)"] ok show ?thesis
      by (auto simp: generateSetCnstr_def split: option.splits)
  next
    case (r ce)
    with set_const_case [of cfg A B ce x hv] buffer_find(3) [OF ok(2), of hv "(y, x)"] ok show ?thesis
      by (auto simp: generateSetCnstr_def eq_spec_commute(1) [of A cfg x] split: option.splits)
  next
    case s
    with set_sym_case [of cfg A B x y hv] buffer_find(3) [OF ok(2), of hv "(y, x)"]
      buffer_find(3) [OF ok(2), of hv "(x, y)"] ok show ?thesis
      by (auto simp: generateSetCnstr_def eq_spec_commute(1) [of A cfg y] split: option.splits)
  qed
qed

theorem generateTagCnstr_ok:
  assumes ok: "cfg_ok cfg" "bufs_ok A cfg B" "addr_ok A x" "addr_ok A y"
    and "\<not> (is_ConstantExpr x \<and> is_ConstantExpr y)"
  shows "returns (generateTagCnstr cfg hv x y B) (\<lambda>(e, B'). bufs_ok A cfg B' \<and> tag_eq_spec A cfg (x, y) e)"
proof -
  consider (l) ce where "x = ConstantExpr ce" "\<not> is_ConstantExpr y" | (r) ce where "\<not> is_ConstantExpr x" "y = ConstantExpr ce"
    | (s) "\<not> is_ConstantExpr x" "\<not> is_ConstantExpr y"
    using assms(5) by (cases x; cases y) auto
  then show ?thesis
  proof cases
    case (l ce)
    with tag_const_case [of cfg A B ce y hv] buffer_find(4) [OF ok(2), of hv "(x, y)"] ok show ?thesis
      by (auto simp: generateTagCnstr_def split: option.splits)
  next
    case (r ce)
    with tag_const_case [of cfg A B ce x hv] buffer_find(4) [OF ok(2), of hv "(y, x)"] ok show ?thesis
      by (auto simp: generateTagCnstr_def eq_spec_commute(2) [of A cfg x] split: option.splits)
  next
    case s
    with tag_sym_case [of cfg A B x y hv] buffer_find(4) [OF ok(2), of hv "(y, x)"]
      buffer_find(4) [OF ok(2), of hv "(x, y)"] ok show ?thesis
      by (auto simp: generateTagCnstr_def eq_spec_commute(2) [of A cfg y] split: option.splits)
  qed
qed

end
