(* ===== verification/CacheState.thy ===== *)
theory CacheState
  imports CacheUtil
begin

text \<open>
  \<^verbatim>\<open>lib/Core/CacheState.h\<close> and \<^verbatim>\<open>CacheState.cpp\<close>: the symbolic cache. For every access to a
  sensitive address the state keeps a \<^emph>\<open>target\<close>; each later access adds constraints to the targets
  (does it conflict, is it distinct from the other conflicting accesses, does it reload the target),
  and \<open>verifyCacheSideChannel\<close> turns them into the formula that says the target's line is still in
  the cache, which is a leak when it can hold.

  A \<^verbatim>\<open>Target *\<close> in the map \<^verbatim>\<open>targets\<close> is a \<open>slot\<close>: \<open>Live\<close>, or \<open>Freed\<close> once \<^verbatim>\<open>delete\<close> has run on an
  object the map still points to. Using a freed target is undefined behaviour and, like a failed
  assertion, \<^term>\<open>None\<close>; so is the loop over \<^verbatim>\<open>targets\<close> once it has erased the entry it stands at.
  Messages to the user and times are not modelled.
\<close>

subsection \<open>Data\<close>

record instruction_info =
  ii_file :: string
  ii_line :: nat
  ii_assemblyLine :: nat

text \<open>
  \<^verbatim>\<open>ConstantCache\<close>: for each set the tags seen, up to the number of ways, and the number of
  sets that are not full yet. It has \<^verbatim>\<open>CACHE_SET_SIZE\<close> sets whatever the configuration says.
\<close>

record constant_cache =
  fullCount :: int
  ccState :: "int list list"

definition CACHE_SET_SIZE :: nat where
  "CACHE_SET_SIZE = 512 div 2"

definition ConstantCache :: constant_cache where
  "ConstantCache = \<lparr>fullCount = int CACHE_SET_SIZE, ccState = replicate CACHE_SET_SIZE []\<rparr>"

definition isFull :: "constant_cache \<Rightarrow> bool" where
  "isFull cc \<longleftrightarrow> fullCount cc = 0"

text \<open>\<^verbatim>\<open>ccState[set]\<close> beyond the vector is undefined behaviour.\<close>

definition cc_access :: "cache_config \<Rightarrow> expr \<Rightarrow> constant_cache \<Rightarrow> constant_cache option" where
  "cc_access cfg addr cc =
     (case dyn_cast_Constant addr of
        None \<Rightarrow> Some cc
      | Some ce \<Rightarrow>
          do { st \<leftarrow> getSet_const cfg ce;
               assert_that (nat st < length (ccState cc));
               let s = ccState cc ! nat st in
               if cache_ways cfg \<le> length s then Some cc
               else do { tag \<leftarrow> getTag_const cfg ce;
                         if tag \<in> set s then Some cc
                         else let cc' = cc\<lparr>ccState := (ccState cc)[nat st := tag # s]\<rparr> in
                              Some (if length s + 1 = cache_ways cfg
                                    then cc'\<lparr>fullCount := fullCount cc - 1\<rparr> else cc') } })"

type_synonym expr_set = "expr oset"
type_synonym expr_map = "(expr \<times> expr) list"
type_synonym expr_map_set = "(expr \<times> expr_set) list"

record target =
  t_info :: instruction_info
  t_addr :: expr
  conf_addrs :: expr_set
  conf_constrs :: expr_map
  unique_constrs :: expr_map_set
  reloads :: expr_map_set
  ccstate :: constant_cache

definition new_target :: "expr \<Rightarrow> instruction_info \<Rightarrow> target" where
  "new_target addr info = \<lparr>t_info = info, t_addr = addr, conf_addrs = [], conf_constrs = [],
     unique_constrs = [], reloads = [], ccstate = ConstantCache\<rparr>"

text \<open>\<^verbatim>\<open>Target(Target &t)\<close>: the constant cache starts empty again.\<close>

definition copy_target :: "target \<Rightarrow> target" where
  "copy_target t = t\<lparr>ccstate := ConstantCache\<rparr>"

datatype slot = Live target | Freed

fun deref :: "slot \<Rightarrow> target option" where
  "deref (Live t) = Some t"
| "deref Freed = None"

record cache_state =
  targets :: "(expr \<times> slot) list"
  cs_isSensitive :: bool

definition new_CacheState :: cache_state where
  "new_CacheState = \<lparr>targets = [], cs_isSensitive = False\<rparr>"

subsection \<open>Constraints between two addresses\<close>

text \<open>
  The three functions return a flag and an expression; the expression is \<^term>\<open>None\<close> where the code
  leaves the reference null.
\<close>

definition both_const :: "expr \<Rightarrow> expr \<Rightarrow> bool" where
  "both_const a b \<longleftrightarrow> is_ConstantExpr a \<and> is_ConstantExpr b"

definition same_line_CC :: "cache_config \<Rightarrow> expr \<Rightarrow> expr \<Rightarrow> bool option" where
  "same_line_CC cfg addr1 addr2 =
     do { s \<leftarrow> generateSetCnstrCC cfg addr1 addr2;
          if s then generateTagCnstrCC cfg addr1 addr2 else Some False }"

definition conflicConstr :: "cache_config \<Rightarrow> hasher \<Rightarrow> expr \<Rightarrow> expr \<Rightarrow> cache_bufs \<Rightarrow>
    (bool \<times> expr option \<times> cache_bufs) option" where
  "conflicConstr cfg hv addr1 addr2 B =
     (if both_const addr1 addr2 then
        do { same \<leftarrow> same_line_CC cfg addr1 addr2;
             if same then Some (True, Some (ConstantExpr (ce_alloc 1 1)), B)
             else Some (False, Some (ConstantExpr (ce_alloc 0 1)), B) }
      else
        do { (setConstr, B) \<leftarrow> generateSetCnstr cfg hv addr1 addr2 B;
             (tagConstr, B) \<leftarrow> generateTagCnstr cfg hv addr1 addr2 B;
             tagConstr \<leftarrow> createIsZero tagConstr;
             r \<leftarrow> create_AndExpr setConstr tagConstr;
             Some (True, Some r, B) })"

definition uniqueConstr :: "cache_config \<Rightarrow> hasher \<Rightarrow> expr \<Rightarrow> expr \<Rightarrow> cache_bufs \<Rightarrow>
    (bool \<times> expr option \<times> cache_bufs) option" where
  "uniqueConstr cfg hv addr1 addr2 B =
     (if both_const addr1 addr2 then
        do { same \<leftarrow> same_line_CC cfg addr1 addr2;
             if same then Some (False, Some (ConstantExpr (ce_alloc 0 1)), B)
             else Some (True, None, B) }
      else
        do { (setConstr, B) \<leftarrow> generateSetCnstr cfg hv addr1 addr2 B;
             (tagConstr, B) \<leftarrow> generateTagCnstr cfg hv addr1 addr2 B;
             setConstr \<leftarrow> createIsZero setConstr;
             tagConstr \<leftarrow> createIsZero tagConstr;
             r \<leftarrow> create_OrExpr setConstr tagConstr;
             Some (False, Some r, B) })"

definition reloadConstr :: "cache_config \<Rightarrow> hasher \<Rightarrow> expr \<Rightarrow> expr \<Rightarrow> cache_bufs \<Rightarrow>
    (bool \<times> expr option \<times> cache_bufs) option" where
  "reloadConstr cfg hv addr1 addr2 B =
     (if both_const addr1 addr2 then
        do { same \<leftarrow> same_line_CC cfg addr1 addr2;
             if same then Some (True, None, B)
             else Some (False, Some (ConstantExpr (ce_alloc 1 1)), B) }
      else
        do { (setConstr, B) \<leftarrow> generateSetCnstr cfg hv addr1 addr2 B;
             (tagConstr, B) \<leftarrow> generateTagCnstr cfg hv addr1 addr2 B;
             setConstr \<leftarrow> createIsZero setConstr;
             tagConstr \<leftarrow> createIsZero tagConstr;
             r \<leftarrow> create_OrExpr setConstr tagConstr;
             Some (False, Some r, B) })"

subsection \<open>Recording an access\<close>

text \<open>Inserting into the set kept for a key, which is created when it is not there.\<close>

definition mapset_insert :: "hasher \<Rightarrow> expr \<Rightarrow> expr \<Rightarrow> expr_map_set \<Rightarrow> expr_map_set" where
  "mapset_insert hv k e m =
     (case omap_find (ecmp hv) k m of
        Some es \<Rightarrow> omap_set (ecmp hv) k (oset_insert (ecmp hv) e es) m
      | None \<Rightarrow> omap_insert (ecmp hv) k (oset_insert (ecmp hv) e []) m)"

text \<open>The loop over the recorded addresses that adds the unique constraints.\<close>

fun add_uniques :: "cache_config \<Rightarrow> hasher \<Rightarrow> expr \<Rightarrow> expr list \<Rightarrow> expr_map_set \<Rightarrow> cache_bufs \<Rightarrow>
    (expr_map_set \<times> cache_bufs) option" where
  "add_uniques cfg hv addr [] us B = Some (us, B)"
| "add_uniques cfg hv addr (addr1 # cas) us B =
     do { (isUnique, unique, B) \<leftarrow> uniqueConstr cfg hv addr1 addr B;
          add_uniques cfg hv addr cas
            (case unique of
               Some e \<Rightarrow> if isUnique then us else mapset_insert hv addr1 e us
             | None \<Rightarrow> us) B }"

definition add_reloads :: "hasher \<Rightarrow> expr \<Rightarrow> expr list \<Rightarrow> expr_map_set \<Rightarrow> expr_map_set" where
  "add_reloads hv reload cas rs = fold (\<lambda>ca rs. mapset_insert hv ca reload rs) cas rs"

text \<open>
  The body of the loop over \<^verbatim>\<open>targets\<close> for one target: \<^term>\<open>None\<close> in the result stands for the target
  that is erased and deleted because its constant cache is full.
\<close>

definition access_target :: "cache_config \<Rightarrow> hasher \<Rightarrow> expr \<Rightarrow> target \<Rightarrow> cache_bufs \<Rightarrow>
    (target option \<times> cache_bufs) option" where
  "access_target cfg hv addr t B =
     do { cc \<leftarrow> cc_access cfg addr (ccstate t);
          let t = t\<lparr>ccstate := cc\<rparr> in
          if isFull cc then Some (None, B)
          else if oset_find (ecmp hv) addr (conf_addrs t) then Some (Some t, B)
          else
            do { (us, B) \<leftarrow> add_uniques cfg hv addr (map fst (conf_addrs t)) (unique_constrs t) B;
                 let t = t\<lparr>unique_constrs := us\<rparr> in
                 do { (isReload, reload, B) \<leftarrow> reloadConstr cfg hv (t_addr t) addr B;
                      t \<leftarrow> (if isReload
                            then Some (t\<lparr>conf_addrs := [], conf_constrs := [], unique_constrs := [], reloads := []\<rparr>)
                            else do { e \<leftarrow> reload;
                                      Some (t\<lparr>reloads := add_reloads hv e (map fst (conf_addrs t)) (reloads t)\<rparr>) });
                      (isPosConf, conflic, B) \<leftarrow> conflicConstr cfg hv (t_addr t) addr B;
                      if isPosConf then
                        do { e \<leftarrow> conflic;
                             Some (Some (t\<lparr>conf_addrs := oset_insert (ecmp hv) addr (conf_addrs t),
                                           conf_constrs := omap_insert (ecmp hv) addr e (conf_constrs t)\<rparr>), B) }
                      else Some (Some t, B) } } }"

text \<open>
  The loop over \<^verbatim>\<open>targets\<close>. After \<^verbatim>\<open>targets.erase(mt.first)\<close> the range-based loop goes on from the
  iterator of the erased entry, which is undefined behaviour.
\<close>

fun access_targets :: "cache_config \<Rightarrow> hasher \<Rightarrow> expr \<Rightarrow> (expr \<times> slot) list \<Rightarrow> cache_bufs \<Rightarrow>
    ((expr \<times> slot) list \<times> cache_bufs) option" where
  "access_targets cfg hv addr [] B = Some ([], B)"
| "access_targets cfg hv addr ((k, sl) # ts) B =
     do { t \<leftarrow> deref sl;
          (t', B) \<leftarrow> access_target cfg hv addr t B;
          t' \<leftarrow> t';
          (ts', B) \<leftarrow> access_targets cfg hv addr ts B;
          Some ((k, Live t') # ts', B) }"

text \<open>
  The end of \<^verbatim>\<open>handleAccess\<close>: when a target of the very same address is there it is deleted, but
  \<^verbatim>\<open>insert\<close> leaves the entry of the map, now dangling, as it is.
\<close>

definition add_sensitive :: "hasher \<Rightarrow> expr \<Rightarrow> instruction_info \<Rightarrow> (expr \<times> slot) list \<Rightarrow> (expr \<times> slot) list" where
  "add_sensitive hv addr info ts =
     (let ts = (case omap_find (ecmp hv) addr ts of
                  Some sl \<Rightarrow> omap_set (ecmp hv) addr Freed ts
                | None \<Rightarrow> ts) in
      omap_insert (ecmp hv) addr (Live (new_target addr info)) ts)"

definition handleAccess :: "cache_config \<Rightarrow> hasher \<Rightarrow> bool \<Rightarrow> expr \<Rightarrow> instruction_info \<Rightarrow>
    cache_state \<Rightarrow> cache_bufs \<Rightarrow> (cache_state \<times> cache_bufs) option" where
  "handleAccess cfg hv isSpeculative addr info cs B =
     (if isSpeculative \<and> \<not> getSensitive addr then Some (cs, B)
      else do { (ts, B) \<leftarrow> access_targets cfg hv addr (targets cs) B;
                let cs = cs\<lparr>targets := ts\<rparr> in
                Some (if getSensitive addr
                      then cs\<lparr>cs_isSensitive := True, targets := add_sensitive hv addr info ts\<rparr>
                      else cs, B) })"

definition cs_load :: "cache_config \<Rightarrow> hasher \<Rightarrow> bool \<Rightarrow> expr \<Rightarrow> instruction_info \<Rightarrow>
    cache_state \<Rightarrow> cache_bufs \<Rightarrow> (cache_state \<times> cache_bufs) option" where
  "cs_load cfg hv isSpeculative addr info cs B =
     (if getSensitive addr \<or> cs_isSensitive cs then handleAccess cfg hv isSpeculative addr info cs B
      else Some (cs, B))"

definition cs_store :: "cache_config \<Rightarrow> hasher \<Rightarrow> bool \<Rightarrow> expr \<Rightarrow> instruction_info \<Rightarrow>
    cache_state \<Rightarrow> cache_bufs \<Rightarrow> (cache_state \<times> cache_bufs) option" where
  "cs_store cfg hv isSpeculative addr info cs B =
     (if isSpeculative then Some (cs, B)
      else if getSensitive addr \<or> cs_isSensitive cs then handleAccess cfg hv isSpeculative addr info cs B
      else Some (cs, B))"

subsection \<open>Copying and merging\<close>

fun copy_targets :: "hasher \<Rightarrow> (expr \<times> slot) list \<Rightarrow> (expr \<times> slot) list \<Rightarrow> (expr \<times> slot) list option" where
  "copy_targets hv [] acc = Some acc"
| "copy_targets hv ((k, sl) # ts) acc =
     do { t \<leftarrow> deref sl;
          copy_targets hv ts (omap_insert (ecmp hv) (t_addr t) (Live (copy_target t)) acc) }"

definition copy_CacheState :: "hasher \<Rightarrow> cache_state \<Rightarrow> cache_state option" where
  "copy_CacheState hv cs =
     do { ts \<leftarrow> copy_targets hv (targets cs) []; Some \<lparr>targets = ts, cs_isSensitive = cs_isSensitive cs\<rparr> }"

text \<open>
  The targets of the finished speculative states are added to those of the normal state, which
  must have no speculative state left; the caller clears the list.
\<close>

fun merge_finished :: "hasher \<Rightarrow> cache_state list \<Rightarrow> cache_state \<Rightarrow> cache_state option" where
  "merge_finished hv [] cs = Some cs"
| "merge_finished hv (ss # finishedSpecStates) cs =
     do { ts \<leftarrow> copy_targets hv (targets ss) (targets cs);
          merge_finished hv finishedSpecStates
            \<lparr>targets = ts, cs_isSensitive = cs_isSensitive cs \<or> targets ss \<noteq> []\<rparr> }"

definition mergeSpecCacheState :: "hasher \<Rightarrow> 'a list \<Rightarrow> cache_state list \<Rightarrow> cache_state \<Rightarrow> cache_state option" where
  "mergeSpecCacheState hv specStates finishedSpecStates cs =
     do { assert_that (specStates = []); merge_finished hv finishedSpecStates cs }"

subsection \<open>The verdict\<close>

fun and_all :: "expr list \<Rightarrow> expr \<Rightarrow> expr option" where
  "and_all [] acc = Some acc"
| "and_all (e # es) acc = do { acc \<leftarrow> create_AndExpr acc e; and_all es acc }"

definition true_expr :: expr where
  "true_expr = ConstantExpr (ce_alloc 1 1)"

definition set_for :: "hasher \<Rightarrow> expr \<Rightarrow> expr_map_set \<Rightarrow> expr list" where
  "set_for hv k m = (case omap_find (ecmp hv) k m of Some es \<Rightarrow> map fst es | None \<Rightarrow> [])"

text \<open>The conflict constraint of one recorded address: it conflicts, it is the last of its line,
  and the target is not reloaded after it.\<close>

definition conflict_constr :: "hasher \<Rightarrow> target \<Rightarrow> expr \<Rightarrow> expr option" where
  "conflict_constr hv t addr2 =
     do { conf_constr \<leftarrow> omap_find (ecmp hv) addr2 (conf_constrs t);
          unique_constr \<leftarrow> and_all (set_for hv addr2 (unique_constrs t)) true_expr;
          reload_constr \<leftarrow> and_all (set_for hv addr2 (reloads t)) true_expr;
          c \<leftarrow> create_AndExpr conf_constr unique_constr;
          c \<leftarrow> create_AndExpr c reload_constr;
          create_ZExtExpr c 32 }"

fun sum_conflicts :: "hasher \<Rightarrow> target \<Rightarrow> expr list \<Rightarrow> expr \<Rightarrow> expr option" where
  "sum_conflicts hv t [] acc = Some acc"
| "sum_conflicts hv t (addr2 # cas) acc =
     do { c \<leftarrow> conflict_constr hv t addr2; acc \<leftarrow> create_AddExpr acc c; sum_conflicts hv t cas acc }"

text \<open>The formula handed to the solver: fewer conflicts than ways.\<close>

definition cache_constr :: "cache_config \<Rightarrow> hasher \<Rightarrow> target \<Rightarrow> expr option" where
  "cache_constr cfg hv t =
     do { final_constraint \<leftarrow> sum_conflicts hv t (map fst (conf_addrs t)) (ConstantExpr (ce_alloc 0 32));
          create_UltExpr final_constraint (ConstantExpr (ce_alloc (int (cache_ways cfg)) 32)) }"

text \<open>
  \<^verbatim>\<open>verifyCacheSideChannel\<close>. \<open>evaluate\<close> is \<^verbatim>\<open>TimingSolver::evaluate\<close> in the state at hand (\<^term>\<open>None\<close> is a
  failed query); the array optimiser in front of it is off by default. \<open>found_vuls\<close> counts the
  leaks of every assembly line.
\<close>

datatype validity = VTrue | VFalse | VUnknown

definition reports :: "validity option \<Rightarrow> bool" where
  "reports res = (case res of None \<Rightarrow> True | Some VTrue \<Rightarrow> True | Some VUnknown \<Rightarrow> True | Some VFalse \<Rightarrow> False)"

definition record_vul :: "nat \<Rightarrow> (nat \<rightharpoonup> int) \<Rightarrow> (nat \<rightharpoonup> int)" where
  "record_vul asmLine found_vuls =
     (case found_vuls asmLine of
        None \<Rightarrow> found_vuls(asmLine \<mapsto> 1)
      | Some n \<Rightarrow> found_vuls(asmLine \<mapsto> n + 1))"

fun verify_targets :: "cache_config \<Rightarrow> hasher \<Rightarrow> (expr \<Rightarrow> validity option) \<Rightarrow> (expr \<times> slot) list \<Rightarrow>
    (nat \<rightharpoonup> int) \<Rightarrow> (nat \<rightharpoonup> int) option" where
  "verify_targets cfg hv evaluate [] found_vuls = Some found_vuls"
| "verify_targets cfg hv evaluate ((k, sl) # ts) found_vuls =
     do { t \<leftarrow> deref sl;
          c \<leftarrow> cache_constr cfg hv t;
          verify_targets cfg hv evaluate ts
            (if reports (evaluate c) then record_vul (ii_assemblyLine (t_info t)) found_vuls
             else found_vuls) }"

definition verifyCacheSideChannel :: "cache_config \<Rightarrow> hasher \<Rightarrow> (expr \<Rightarrow> validity option) \<Rightarrow> cache_state \<Rightarrow>
    (nat \<rightharpoonup> int) \<Rightarrow> (nat \<rightharpoonup> int) option" where
  "verifyCacheSideChannel cfg hv evaluate cs found_vuls =
     verify_targets cfg hv evaluate (targets cs) found_vuls"

end
