(* ===== verification/LRU.thy ===== *)
theory LRU
  imports Main
begin

text \<open>
  An abstract set-associative cache with least-recently-used replacement, the hardware the
  symbolic cache is meant to describe. A cache maps every set to its lines, most recently used
  first. \<open>resident_iff\<close> characterises when a line is still cached: fewer distinct other lines
  of its set than ways have been accessed since its own last access.
\<close>

type_synonym 'l lru = "int \<Rightarrow> 'l list"

definition lru_access :: "nat \<Rightarrow> int \<times> 'l \<Rightarrow> 'l lru \<Rightarrow> 'l lru" where
  "lru_access ways a c = c(fst a := take ways (snd a # removeAll (snd a) (c (fst a))))"

definition lru_run :: "nat \<Rightarrow> (int \<times> 'l) list \<Rightarrow> 'l lru \<Rightarrow> 'l lru" where
  "lru_run ways as c = fold (lru_access ways) as c"

definition resident :: "int \<times> 'l \<Rightarrow> 'l lru \<Rightarrow> bool" where
  "resident a c \<longleftrightarrow> snd a \<in> set (c (fst a))"

text \<open>The lines of the set of \<open>a\<close> accessed since the last access to \<open>a\<close>.\<close>

fun since :: "int \<times> 'l \<Rightarrow> (int \<times> 'l) list \<Rightarrow> 'l set \<Rightarrow> 'l set" where
  "since a [] L = L"
| "since a (b # bs) L =
     since a bs (if b = a then {} else if fst b = fst a then insert (snd b) L else L)"

lemma finite_since: "finite L \<Longrightarrow> finite (since a bs L)"
  by (induction bs arbitrary: L) auto

lemma since_avoids: "snd a \<notin> L \<Longrightarrow> snd a \<notin> since a bs L"
  by (induction bs arbitrary: L) (auto simp: prod_eq_iff)

text \<open>
  The invariant of one set: the lines in front of \<open>x\<close> are the lines accessed since, and \<open>x\<close> is
  gone exactly when they fill the set.
\<close>

definition tracks :: "nat \<Rightarrow> 'l \<Rightarrow> 'l set \<Rightarrow> 'l list \<Rightarrow> bool" where
  "tracks ways x L xs \<longleftrightarrow> distinct xs \<and> length xs \<le> ways \<and>
     (if card L < ways then x \<in> set xs \<and> set (takeWhile (\<lambda>y. y \<noteq> x) xs) = L
      else x \<notin> set xs \<and> set xs \<subseteq> L \<and> length xs = ways)"

lemma length_removeAll_distinct:
  "distinct xs \<Longrightarrow> length (removeAll y xs) = (if y \<in> set xs then length xs - 1 else length xs)"
  by (simp add: distinct_remove1_removeAll [symmetric] length_remove1)

lemma takeWhile_neq: "x \<notin> set p \<Longrightarrow> takeWhile (\<lambda>y. y \<noteq> x) (p @ x # q) = p"
  by (induction p) auto

lemma tracks_self: "distinct xs \<Longrightarrow> length xs \<le> ways \<Longrightarrow> tracks ways x {} (take ways (x # removeAll x xs))"
  by (cases ways) (auto simp: tracks_def distinct_removeAll dest: in_set_takeD)

lemma tracks_other:
  assumes "tracks ways x L xs" "y \<noteq> x" "finite L"
  shows "tracks ways x (insert y L) (take ways (y # removeAll y xs))"
proof -
  from assms(1) have d: "distinct xs" "length xs \<le> ways" by (simp_all add: tracks_def)
  have d': "distinct (take ways (y # removeAll y xs))" using d by (simp add: distinct_removeAll)
  show ?thesis
  proof (cases "card L < ways")
    case False
    with assms(1) have g: "x \<notin> set xs" "set xs \<subseteq> L" "length xs = ways" by (simp_all add: tracks_def)
    have "\<not> card (insert y L) < ways" using False assms(3) card_insert_le [of L y] by linarith
    moreover have "length (take ways (y # removeAll y xs)) = ways"
      using g d by (auto simp: length_removeAll_distinct)
    moreover have "set (take ways (y # removeAll y xs)) \<subseteq> insert y (set xs - {y})"
      using set_take_subset [of ways "y # removeAll y xs"] by simp
    ultimately show ?thesis using g d' assms(2) by (auto simp: tracks_def)
  next
    case True
    with assms(1) have "x \<in> set xs" and L: "set (takeWhile (\<lambda>y. y \<noteq> x) xs) = L" by (simp_all add: tracks_def)
    then obtain p q where xs: "xs = p @ x # q" "x \<notin> set p" by (meson split_list_first)
    with L have p: "set p = L" by (simp add: takeWhile_neq)
    with d xs have lp: "length p = card L" by (metis distinct_append distinct_card)
    have new: "y # removeAll y xs = (y # removeAll y p) @ x # removeAll y q"
      using xs assms(2) by simp
    have lp': "length (removeAll y p) = (if y \<in> L then card L - 1 else card L)"
      using d xs p lp by (simp add: length_removeAll_distinct)
    have cL: "y \<in> L \<Longrightarrow> 0 < card L" using assms(3) card_gt_0_iff by blast
    show ?thesis
    proof (cases "card (insert y L) < ways")
      case fits: True
      have k: "length (y # removeAll y p) < ways"
        using fits lp' cL assms(3) by (auto simp: card_insert_if split: if_splits)
      then have t: "take ways (y # removeAll y xs) = (y # removeAll y p) @ x # take (ways - length (y # removeAll y p) - 1) (removeAll y q)"
        unfolding new by (simp add: take_Cons')
      have "x \<notin> set (y # removeAll y p)" using xs assms(2) by simp
      then have "takeWhile (\<lambda>y. y \<noteq> x) (take ways (y # removeAll y xs)) = y # removeAll y p"
        unfolding t by (rule takeWhile_neq)
      with p have "set (takeWhile (\<lambda>y. y \<noteq> x) (take ways (y # removeAll y xs))) = insert y L" by auto
      moreover have "x \<in> set (take ways (y # removeAll y xs))" unfolding t by simp
      ultimately show ?thesis unfolding tracks_def using fits d' by simp
    next
      case False
      then have y: "y \<notin> L" and w: "ways = Suc (card L)"
        using True assms(3) by (auto simp: card_insert_if split: if_splits)
      have "take ways (y # removeAll y xs) = y # p"
        unfolding new using y w lp p by simp
      then show ?thesis using False d' xs assms(2) p w lp by (auto simp: tracks_def)
    qed
  qed
qed

definition cache_ok :: "nat \<Rightarrow> 'l lru \<Rightarrow> bool" where
  "cache_ok ways c \<longleftrightarrow> (\<forall>s. distinct (c s) \<and> length (c s) \<le> ways)"

lemma cache_ok_access: "cache_ok ways c \<Longrightarrow> cache_ok ways (lru_access ways a c)"
  by (auto simp: cache_ok_def lru_access_def distinct_removeAll)

lemma tracks_run:
  "\<lbrakk>cache_ok ways c; tracks ways (snd a) L (c (fst a)); finite L\<rbrakk>
    \<Longrightarrow> tracks ways (snd a) (since a bs L) (lru_run ways bs c (fst a))"
proof (induction bs arbitrary: c L)
  case (Cons b bs)
  have "tracks ways (snd a) (if b = a then {} else if fst b = fst a then insert (snd b) L else L)
      (lru_access ways b c (fst a))"
    using Cons.prems tracks_self [of "c (fst a)" ways "snd a"] tracks_other [of ways "snd a" L "c (fst a)" "snd b"]
    by (auto simp: lru_access_def cache_ok_def prod_eq_iff)
  with Cons.IH [OF cache_ok_access [OF Cons.prems(1), of b]] Cons.prems(3) show ?case
    by (simp add: lru_run_def)
qed (simp add: lru_run_def)

theorem resident_iff:
  assumes "cache_ok ways c"
  shows "resident a (lru_run ways bs (lru_access ways a c)) \<longleftrightarrow> card (since a bs {}) < ways"
proof -
  have "tracks ways (snd a) {} (lru_access ways a c (fst a))"
    using assms tracks_self [of "c (fst a)"] by (simp add: lru_access_def cache_ok_def)
  from tracks_run [OF cache_ok_access [OF assms] this, of bs] show ?thesis
    by (simp add: tracks_def resident_def split: if_splits)
qed

end
