(* ===== verification/CacheSound.thy ===== *)
theory CacheSound
  imports CacheState LRU
begin

text \<open>
  Correctness of the symbolic cache of \<open>CacheState\<close> against the LRU cache of \<open>LRU\<close>: for a
  symbolic sensitive address and later accesses to pairwise different address expressions, the
  formula the verdict hands to the solver is true in an environment exactly when, in that
  environment, the line of the sensitive address is still cached.
\<close>

subsection \<open>One-bit constraints\<close>

definition cnstr :: "array set \<Rightarrow> expr \<Rightarrow> (env \<Rightarrow> bool) \<Rightarrow> bool" where
  "cnstr A e P \<longleftrightarrow> arrays e \<subseteq> A \<and> denotes e 1 (\<lambda>\<rho>. of_bool (P \<rho>))"

lemma cnstr_set_eq: "set_eq_spec A cfg (x, y) e \<longleftrightarrow> addr_ok A x \<and> addr_ok A y
    \<and> cnstr A e (\<lambda>\<rho>. set_of cfg (eval \<rho> x) = set_of cfg (eval \<rho> y))"
  by (auto simp: set_eq_spec_def cnstr_def)

lemma cnstr_tag_eq: "tag_eq_spec A cfg (x, y) e \<longleftrightarrow> addr_ok A x \<and> addr_ok A y
    \<and> cnstr A e (\<lambda>\<rho>. tag_of cfg (eval \<rho> x) = tag_of cfg (eval \<rho> y))"
  by (auto simp: tag_eq_spec_def cnstr_def)

lemma cnstr_isZero: "cnstr A e P \<Longrightarrow> returns (createIsZero e) (\<lambda>n. cnstr A n (\<lambda>\<rho>. \<not> P \<rho>))"
  using createIsZero_sound [of e] createIsZero_arrays [of e]
  by (force simp: cnstr_def denotes_def returns_iff)

lemma cnstr_and: "cnstr A e P \<Longrightarrow> cnstr A f Q \<Longrightarrow> returns (create_AndExpr e f) (\<lambda>n. cnstr A n (\<lambda>\<rho>. P \<rho> \<and> Q \<rho>))"
  using create_AndExpr_sound [of e f] create_AndExpr_arrays [of e f]
  by (force simp: cnstr_def denotes_def bin_spec_def returns_iff)

lemma cnstr_or: "cnstr A e P \<Longrightarrow> cnstr A f Q \<Longrightarrow> returns (create_OrExpr e f) (\<lambda>n. cnstr A n (\<lambda>\<rho>. P \<rho> \<or> Q \<rho>))"
  using create_OrExpr_sound [of e f] create_OrExpr_arrays [of e f]
  by (force simp: cnstr_def denotes_def bin_spec_def returns_iff)

lemma cnstr_const: "cnstr A (ConstantExpr (ce_alloc (of_bool b) 1)) (\<lambda>_. b)"
  by (simp add: cnstr_def denotes_def)

lemma cnstr_cong: "cnstr A e P \<Longrightarrow> (\<And>\<rho>. P \<rho> = Q \<rho>) \<Longrightarrow> cnstr A e Q"
  by (simp add: cnstr_def)

lemma cnstr_same:
  assumes "inj_on arr_addr A" "cnstr A e P" "cnstr A f Q" "compare hv e f = 0"
  shows "P \<rho> = Q \<rho>"
proof -
  have "inj_on arr_addr (arrays e \<union> arrays f)"
    using assms(1-3) by (auto simp: cnstr_def intro: inj_on_subset)
  with assms(4) compare_eq_0_iff expr_eq_eval have "eval \<rho> e = eval \<rho> f" by blast
  with assms(2,3) show ?thesis by (auto simp: cnstr_def denotes_def split: if_splits)
qed

subsection \<open>The three constraints\<close>

text \<open>What an access touches: the set and the line.\<close>

definition acc :: "cache_config \<Rightarrow> env \<Rightarrow> expr \<Rightarrow> int \<times> int" where
  "acc cfg \<rho> x = (set_of cfg (eval \<rho> x), line_of cfg (eval \<rho> x))"

lemma acc_eq_iff: "cfg_ok cfg \<Longrightarrow> acc cfg \<rho> x = acc cfg \<rho> y \<longleftrightarrow>
    set_of cfg (eval \<rho> x) = set_of cfg (eval \<rho> y) \<and> tag_of cfg (eval \<rho> x) = tag_of cfg (eval \<rho> y)"
  by (auto simp: acc_def line_eq_iff)

lemma same_line_CC_E:
  assumes "cfg_ok cfg" "addr_ok A a" "addr_ok A b" "both_const a b"
  obtains v where "same_line_CC cfg a b = Some v" "\<And>\<rho>. (acc cfg \<rho> a = acc cfg \<rho> b) = v"
proof -
  from assms(4) obtain c d where [simp]: "a = ConstantExpr c" "b = ConstantExpr d"
    by (auto simp: both_const_def elim!: is_ConstantExpr.elims)
  from addr_const assms(2,3) have "wf_const c" "ce_width c = 64" "wf_const d" "ce_width d = 64" by auto
  with assms(1) have "same_line_CC cfg a b = Some (acc cfg \<rho> a = acc cfg \<rho> b)" for \<rho>
    by (simp add: same_line_CC_def generateSetCnstrCC_def generateTagCnstrCC_def getSet_const_eq
        getTag_const_eq acc_eq_iff)
  moreover have "acc cfg \<rho> a = acc cfg \<rho>' a" "acc cfg \<rho> b = acc cfg \<rho>' b" for \<rho> \<rho>' by (simp_all add: acc_def)
  ultimately show thesis using that [of "acc cfg undefined a = acc cfg undefined b"] by metis
qed

lemma gen_both:
  assumes "cfg_ok cfg" "bufs_ok A cfg B" "addr_ok A a" "addr_ok A b" "\<not> both_const a b"
  obtains s B1 t B2 where "generateSetCnstr cfg hv a b B = Some (s, B1)"
    "generateTagCnstr cfg hv a b B1 = Some (t, B2)" "bufs_ok A cfg B2"
    "cnstr A s (\<lambda>\<rho>. set_of cfg (eval \<rho> a) = set_of cfg (eval \<rho> b))"
    "cnstr A t (\<lambda>\<rho>. tag_of cfg (eval \<rho> a) = tag_of cfg (eval \<rho> b))"
proof -
  note nc = assms(5) [unfolded both_const_def]
  obtain s B1 where s: "generateSetCnstr cfg hv a b B = Some (s, B1)" "bufs_ok A cfg B1"
      "set_eq_spec A cfg (a, b) s"
    using generateSetCnstr_ok [OF assms(1-4) nc, of hv] by (auto simp: returns_iff)
  obtain t B2 where "generateTagCnstr cfg hv a b B1 = Some (t, B2)" "bufs_ok A cfg B2"
      "tag_eq_spec A cfg (a, b) t"
    using generateTagCnstr_ok [OF assms(1) s(2) assms(3,4) nc, of hv] by (auto simp: returns_iff)
  with s that show thesis by (simp add: cnstr_set_eq cnstr_tag_eq)
qed

theorem conflicConstr_ok:
  assumes "cfg_ok cfg" "bufs_ok A cfg B" "addr_ok A a" "addr_ok A b" "\<not> both_const a b"
  shows "returns (conflicConstr cfg hv a b B) (\<lambda>(p, r, B'). p \<and> bufs_ok A cfg B'
    \<and> (\<exists>e. r = Some e \<and> cnstr A e (\<lambda>\<rho>. fst (acc cfg \<rho> a) = fst (acc cfg \<rho> b) \<and> acc cfg \<rho> a \<noteq> acc cfg \<rho> b)))"
proof -
  obtain s B1 t B2 where g: "generateSetCnstr cfg hv a b B = Some (s, B1)"
    "generateTagCnstr cfg hv a b B1 = Some (t, B2)" "bufs_ok A cfg B2"
    "cnstr A s (\<lambda>\<rho>. set_of cfg (eval \<rho> a) = set_of cfg (eval \<rho> b))"
    "cnstr A t (\<lambda>\<rho>. tag_of cfg (eval \<rho> a) = tag_of cfg (eval \<rho> b))"
    using assms by (rule gen_both)
  obtain n where n: "createIsZero t = Some n" "cnstr A n (\<lambda>\<rho>. \<not> tag_of cfg (eval \<rho> a) = tag_of cfg (eval \<rho> b))"
    using cnstr_isZero [OF g(5)] by (auto simp: returns_iff)
  obtain r where r: "create_AndExpr s n = Some r"
      "cnstr A r (\<lambda>\<rho>. set_of cfg (eval \<rho> a) = set_of cfg (eval \<rho> b) \<and> \<not> tag_of cfg (eval \<rho> a) = tag_of cfg (eval \<rho> b))"
    using cnstr_and [OF g(4) n(2)] by (auto simp: returns_iff)
  have "cnstr A r (\<lambda>\<rho>. fst (acc cfg \<rho> a) = fst (acc cfg \<rho> b) \<and> acc cfg \<rho> a \<noteq> acc cfg \<rho> b)"
    using r(2) by (rule cnstr_cong) (auto simp: acc_eq_iff assms(1), simp_all add: acc_def)
  with assms(5) g n r show ?thesis by (simp add: conflicConstr_def)
qed

lemma differ_constr:
  assumes "cfg_ok cfg" "cnstr A s (\<lambda>\<rho>. set_of cfg (eval \<rho> a) = set_of cfg (eval \<rho> b))"
    "cnstr A t (\<lambda>\<rho>. tag_of cfg (eval \<rho> a) = tag_of cfg (eval \<rho> b))"
  shows "returns (do { s \<leftarrow> createIsZero s; t \<leftarrow> createIsZero t; create_OrExpr s t })
    (\<lambda>e. cnstr A e (\<lambda>\<rho>. acc cfg \<rho> a \<noteq> acc cfg \<rho> b))"
proof -
  obtain n m where n: "createIsZero s = Some n" "cnstr A n (\<lambda>\<rho>. \<not> set_of cfg (eval \<rho> a) = set_of cfg (eval \<rho> b))"
    and m: "createIsZero t = Some m" "cnstr A m (\<lambda>\<rho>. \<not> tag_of cfg (eval \<rho> a) = tag_of cfg (eval \<rho> b))"
    using cnstr_isZero [OF assms(2)] cnstr_isZero [OF assms(3)] by (auto simp: returns_iff)
  show ?thesis
    using cnstr_or [OF n(2) m(2)] n(1) m(1) assms(1)
    by (auto simp: acc_eq_iff elim!: returns_mono cnstr_cong)
qed

text \<open>The constraint that two accesses touch different lines, left out when it always holds.\<close>

theorem uniqueConstr_ok:
  assumes "cfg_ok cfg" "bufs_ok A cfg B" "addr_ok A a" "addr_ok A b"
  shows "returns (uniqueConstr cfg hv a b B) (\<lambda>(p, r, B'). bufs_ok A cfg B' \<and>
    (case r of Some e \<Rightarrow> \<not> p \<and> cnstr A e (\<lambda>\<rho>. acc cfg \<rho> a \<noteq> acc cfg \<rho> b)
     | None \<Rightarrow> p \<and> (\<forall>\<rho>. acc cfg \<rho> a \<noteq> acc cfg \<rho> b)))"
proof (cases "both_const a b")
  case True
  obtain v where v: "same_line_CC cfg a b = Some v" "\<And>\<rho>. (acc cfg \<rho> a = acc cfg \<rho> b) = v"
    using same_line_CC_E [OF assms(1,3,4) True] by metis
  with True cnstr_const [of A False] assms(2) show ?thesis
    by (cases v) (simp_all add: uniqueConstr_def cnstr_def)
next
  case False
  obtain s B1 t B2 where g: "generateSetCnstr cfg hv a b B = Some (s, B1)"
    "generateTagCnstr cfg hv a b B1 = Some (t, B2)" "bufs_ok A cfg B2"
    "cnstr A s (\<lambda>\<rho>. set_of cfg (eval \<rho> a) = set_of cfg (eval \<rho> b))"
    "cnstr A t (\<lambda>\<rho>. tag_of cfg (eval \<rho> a) = tag_of cfg (eval \<rho> b))"
    using assms False by (rule gen_both)
  with False differ_constr [OF assms(1) g(4,5)] show ?thesis
    by (auto simp: uniqueConstr_def returns_iff bind_Some)
qed

theorem reloadConstr_ok:
  assumes "cfg_ok cfg" "bufs_ok A cfg B" "addr_ok A a" "addr_ok A b" "\<not> both_const a b"
  shows "returns (reloadConstr cfg hv a b B) (\<lambda>(p, r, B'). bufs_ok A cfg B' \<and> \<not> p
    \<and> (\<exists>e. r = Some e \<and> cnstr A e (\<lambda>\<rho>. acc cfg \<rho> a \<noteq> acc cfg \<rho> b)))"
proof -
  obtain s B1 t B2 where g: "generateSetCnstr cfg hv a b B = Some (s, B1)"
    "generateTagCnstr cfg hv a b B1 = Some (t, B2)" "bufs_ok A cfg B2"
    "cnstr A s (\<lambda>\<rho>. set_of cfg (eval \<rho> a) = set_of cfg (eval \<rho> b))"
    "cnstr A t (\<lambda>\<rho>. tag_of cfg (eval \<rho> a) = tag_of cfg (eval \<rho> b))"
    using assms by (rule gen_both)
  with assms(5) differ_constr [OF assms(1) g(4,5)] show ?thesis
    by (auto simp: reloadConstr_def returns_iff bind_Some)
qed

subsection \<open>Sets of constraints\<close>

text \<open>A set of one-bit constraints that hold together exactly when \<open>P\<close> does.\<close>

definition conj_of :: "array set \<Rightarrow> expr list \<Rightarrow> (env \<Rightarrow> bool) \<Rightarrow> bool" where
  "conj_of A es P \<longleftrightarrow> (\<forall>e \<in> set es. arrays e \<subseteq> A \<and> wf_expr e \<and> getWidth e = 1)
     \<and> (\<forall>\<rho>. (\<forall>e \<in> set es. eval \<rho> e = 1) \<longleftrightarrow> P \<rho>)"

lemma conj_of_Nil [simp]: "conj_of A [] P \<longleftrightarrow> (\<forall>\<rho>. P \<rho>)"
  by (simp add: conj_of_def)

lemma conj_of_cong: "conj_of A es P \<Longrightarrow> (\<And>\<rho>. P \<rho> = Q \<rho>) \<Longrightarrow> conj_of A es Q"
  by (simp add: conj_of_def)

lemma insert_keys_sup: "fst ` set s \<subseteq> fst ` set (omap_insert cmp k v s)"
  by (induction cmp k v s rule: omap_insert.induct) (auto split: if_splits)

lemma insert_keys_sub: "fst ` set (omap_insert cmp k v s) \<subseteq> insert k (fst ` set s)"
  by (induction cmp k v s rule: omap_insert.induct) (auto split: if_splits)

lemma insert_keys_new:
  "k \<notin> fst ` set (omap_insert cmp k v s) \<Longrightarrow> \<exists>k' \<in> fst ` set s. cmp k k' = 0"
  by (induction cmp k v s rule: omap_insert.induct) (auto split: if_splits)

lemma compare_0_eval:
  assumes "inj_on arr_addr A" "arrays e \<subseteq> A" "arrays k \<subseteq> A" "compare hv e k = 0"
  shows "eval \<rho> e = eval \<rho> k"
proof -
  have "inj_on arr_addr (arrays e \<union> arrays k)" using assms(1-3) by (auto intro: inj_on_subset)
  with assms(4) compare_eq_0_iff expr_eq_eval show ?thesis by blast
qed

lemma conj_of_insert:
  assumes "inj_on arr_addr A" "conj_of A (map fst s) P" "cnstr A e Q"
  shows "conj_of A (map fst (oset_insert (ecmp hv) e s)) (\<lambda>\<rho>. P \<rho> \<and> Q \<rho>)"
proof -
  let ?K = "fst ` set s" and ?K' = "fst ` set (omap_insert (ecmp hv) e () s)"
  note sub = insert_keys_sub [of "ecmp hv" e "()" s] and sup = insert_keys_sup [of s "ecmp hv" e "()"]
  have e: "arrays e \<subseteq> A" "wf_expr e" "getWidth e = 1" "\<And>\<rho>. Q \<rho> \<longleftrightarrow> eval \<rho> e = 1"
    using assms(3) by (auto simp: cnstr_def denotes_def)
  have K: "\<And>x. x \<in> ?K \<Longrightarrow> arrays x \<subseteq> A \<and> wf_expr x \<and> getWidth x = 1"
    and P: "\<And>\<rho>. P \<rho> \<longleftrightarrow> (\<forall>x \<in> ?K. eval \<rho> x = 1)"
    using assms(2) unfolding conj_of_def set_map by blast+
  have wf: "arrays x \<subseteq> A \<and> wf_expr x \<and> getWidth x = 1" if "x \<in> ?K'" for x
  proof -
    from that sub have "x = e \<or> x \<in> ?K" by blast
    with e K show ?thesis by blast
  qed
  have "(\<forall>x \<in> ?K'. eval \<rho> x = 1) \<longleftrightarrow> P \<rho> \<and> Q \<rho>" for \<rho>
  proof (cases "e \<in> ?K'")
    case True
    with sub sup have "?K' = insert e ?K" by blast
    then show ?thesis unfolding P e(4) by (simp only: ball_simps) blast
  next
    case False
    then obtain k where k: "k \<in> ?K" "compare hv e k = 0" by (blast dest: insert_keys_new)
    from False sub sup have eq: "?K' = ?K" by blast
    from compare_0_eval [OF assms(1) e(1) _ k(2), of \<rho>] K [OF k(1)] have "eval \<rho> e = eval \<rho> k" by blast
    with k(1) show ?thesis unfolding eq P e(4) by auto
  qed
  with wf show ?thesis unfolding conj_of_def oset_insert_def set_map by blast
qed

text \<open>Looking up the set of a key after an insertion.\<close>

lemma sorted_mapset_insert:
  "ek.sorted_map hv m \<Longrightarrow> ek.sorted_map hv (mapset_insert hv k e m)"
  by (auto simp: mapset_insert_def ek.sorted_insert ek.sorted_set split: option.splits)

lemma find_mapset_insert:
  assumes "ek.sorted_map hv m"
  shows "omap_find (ecmp hv) k' (mapset_insert hv k e m) =
    (if compare hv k' k = 0 then Some (oset_insert (ecmp hv) e (case omap_find (ecmp hv) k m of Some es \<Rightarrow> es | None \<Rightarrow> []))
     else omap_find (ecmp hv) k' m)"
  using assms by (auto simp: mapset_insert_def ek.find_insert ek.find_set split: option.splits)

lemma conj_mapset_insert:
  assumes "inj_on arr_addr A" "ek.sorted_map hv m" "conj_of A (set_for hv b m) P" "cnstr A e Q"
  shows "conj_of A (set_for hv b (mapset_insert hv k e m)) (\<lambda>\<rho>. P \<rho> \<and> (compare hv b k = 0 \<longrightarrow> Q \<rho>))"
proof (cases "compare hv b k = 0")
  case True
  let ?s = "case omap_find (ecmp hv) k m of Some es \<Rightarrow> es | None \<Rightarrow> []"
  have "set_for hv b m = map fst ?s"
    using ek.find_cong [OF True, of m] by (simp add: set_for_def split: option.splits)
  with conj_of_insert [OF assms(1) _ assms(4), of ?s P hv] assms(2,3) True show ?thesis
    by (simp add: set_for_def find_mapset_insert)
next
  case False
  with assms(2,3) show ?thesis by (simp add: set_for_def find_mapset_insert)
qed

text \<open>The keys a map of sets has.\<close>

definition keys_in :: "hasher \<Rightarrow> expr list \<Rightarrow> (expr \<times> 'v) list \<Rightarrow> bool" where
  "keys_in hv ks m \<longleftrightarrow> (\<forall>b. omap_find (ecmp hv) b m \<noteq> None \<longrightarrow> (\<exists>k \<in> set ks. compare hv b k = 0))"

lemma keys_in_Nil [simp]: "keys_in hv ks []"
  by (simp add: keys_in_def)

lemma keys_in_mono: "keys_in hv ks m \<Longrightarrow> set ks \<subseteq> set ks' \<Longrightarrow> keys_in hv ks' m"
  unfolding keys_in_def by blast

lemma keys_in_mapset_insert:
  "ek.sorted_map hv m \<Longrightarrow> keys_in hv ks m \<Longrightarrow> k \<in> set ks \<Longrightarrow> keys_in hv ks (mapset_insert hv k e m)"
  unfolding keys_in_def by (auto simp: find_mapset_insert)

text \<open>The two loops of \<open>handleAccess\<close> over the recorded addresses.\<close>

lemma add_uniques_ok:
  assumes "cfg_ok cfg" "addr_ok A addr" "\<forall>c \<in> set cas. addr_ok A c" "bufs_ok A cfg B"
    "ek.sorted_map hv us" "keys_in hv ks us" "set cas \<subseteq> set ks"
  shows "returns (add_uniques cfg hv addr cas us B) (\<lambda>(us', B'). bufs_ok A cfg B' \<and> ek.sorted_map hv us'
    \<and> keys_in hv ks us' \<and> (\<forall>b P. conj_of A (set_for hv b us) P \<longrightarrow> conj_of A (set_for hv b us')
        (\<lambda>\<rho>. P \<rho> \<and> (\<forall>c \<in> set cas. compare hv b c = 0 \<longrightarrow> acc cfg \<rho> c \<noteq> acc cfg \<rho> addr))))"
  using assms
proof (induction cas arbitrary: us B)
  case (Cons a cas)
  have inj: "inj_on arr_addr A" using Cons.prems(2) by (simp add: addr_ok_def)
  obtain p r B1 where u: "uniqueConstr cfg hv a addr B = Some (p, r, B1)" "bufs_ok A cfg B1"
      "case r of Some e \<Rightarrow> \<not> p \<and> cnstr A e (\<lambda>\<rho>. acc cfg \<rho> a \<noteq> acc cfg \<rho> addr)
       | None \<Rightarrow> p \<and> (\<forall>\<rho>. acc cfg \<rho> a \<noteq> acc cfg \<rho> addr)"
    using uniqueConstr_ok [of cfg A B a addr hv] Cons.prems by (auto simp: returns_iff)
  let ?us = "case r of Some e \<Rightarrow> if p then us else mapset_insert hv a e us | None \<Rightarrow> us"
  have step: "ek.sorted_map hv ?us" "keys_in hv ks ?us"
    using Cons.prems(5-7) by (auto simp: sorted_mapset_insert keys_in_mapset_insert split: option.split)
  have conj: "conj_of A (set_for hv b ?us) (\<lambda>\<rho>. P \<rho> \<and> (compare hv b a = 0 \<longrightarrow> acc cfg \<rho> a \<noteq> acc cfg \<rho> addr))"
    if "conj_of A (set_for hv b us) P" for b P
    using that u(3) conj_mapset_insert [OF inj Cons.prems(5) that]
    by (cases r) (auto elim: conj_of_cong)
  have "returns (add_uniques cfg hv addr cas ?us B1) (\<lambda>(us', B'). bufs_ok A cfg B' \<and> ek.sorted_map hv us'
    \<and> keys_in hv ks us' \<and> (\<forall>b P. conj_of A (set_for hv b ?us) P \<longrightarrow> conj_of A (set_for hv b us')
        (\<lambda>\<rho>. P \<rho> \<and> (\<forall>c \<in> set cas. compare hv b c = 0 \<longrightarrow> acc cfg \<rho> c \<noteq> acc cfg \<rho> addr))))"
    using Cons.prems step u(2) by (intro Cons.IH) auto
  then show ?case
    by (simp add: u(1)) (erule returns_mono, clarsimp, drule conj, blast intro: conj_of_cong)
qed (simp add: conj_of_def)

lemma add_reloads_ok:
  assumes "inj_on arr_addr A" "cnstr A e Q" "ek.sorted_map hv rs" "keys_in hv ks rs" "set cas \<subseteq> set ks"
  shows "ek.sorted_map hv (add_reloads hv e cas rs) \<and> keys_in hv ks (add_reloads hv e cas rs)
    \<and> (\<forall>b P. conj_of A (set_for hv b rs) P \<longrightarrow> conj_of A (set_for hv b (add_reloads hv e cas rs))
        (\<lambda>\<rho>. P \<rho> \<and> ((\<exists>c \<in> set cas. compare hv b c = 0) \<longrightarrow> Q \<rho>)))"
  using assms(3-5)
proof (induction cas arbitrary: rs)
  case (Cons a cas)
  let ?rs = "mapset_insert hv a e rs"
  have "ek.sorted_map hv ?rs" "keys_in hv ks ?rs"
    using Cons.prems by (auto simp: sorted_mapset_insert keys_in_mapset_insert)
  note IH = Cons.IH [OF this] and conj = conj_mapset_insert [OF assms(1) Cons.prems(1) _ assms(2)]
  have eq: "add_reloads hv e (a # cas) rs = add_reloads hv e cas ?rs" by (simp add: add_reloads_def)
  have "conj_of A (set_for hv b (add_reloads hv e cas ?rs)) (\<lambda>\<rho>. P \<rho> \<and> ((\<exists>c \<in> set (a # cas). compare hv b c = 0) \<longrightarrow> Q \<rho>))"
    if "conj_of A (set_for hv b rs) P" for b P
  proof -
    have "conj_of A (set_for hv b (add_reloads hv e cas ?rs))
        (\<lambda>\<rho>. (P \<rho> \<and> (compare hv b a = 0 \<longrightarrow> Q \<rho>)) \<and> ((\<exists>c \<in> set cas. compare hv b c = 0) \<longrightarrow> Q \<rho>))"
      using IH [THEN conjunct2, THEN conjunct2, rule_format, OF _ conj [OF that, of a]] Cons.prems(3) by simp
    then show ?thesis by (rule conj_of_cong) auto
  qed
  with IH Cons.prems(3) show ?case unfolding eq by simp
qed (auto simp: add_reloads_def conj_of_def)

subsection \<open>What a target records\<close>

text \<open>
  The invariant of a target for the symbolic address \<open>a0\<close> after the accesses \<open>hist\<close>, newest
  first: each recorded address has its conflict constraint, the unique constraints say it is the
  last access to its line, and the reload constraints say that the line of \<open>a0\<close> is not accessed
  after it.
\<close>

definition after :: "expr list \<Rightarrow> expr \<Rightarrow> expr list" where
  "after hist b = takeWhile (\<lambda>x. x \<noteq> b) hist"

definition conflicts :: "cache_config \<Rightarrow> env \<Rightarrow> expr \<Rightarrow> expr \<Rightarrow> bool" where
  "conflicts cfg \<rho> a b \<longleftrightarrow> fst (acc cfg \<rho> a) = fst (acc cfg \<rho> b) \<and> acc cfg \<rho> a \<noteq> acc cfg \<rho> b"

definition apart :: "hasher \<Rightarrow> expr list \<Rightarrow> bool" where
  "apart hv hist \<longleftrightarrow> distinct hist \<and> (\<forall>x \<in> set hist. \<forall>y \<in> set hist. compare hv x y = 0 \<longrightarrow> x = y)"

definition target_inv :: "array set \<Rightarrow> cache_config \<Rightarrow> hasher \<Rightarrow> expr \<Rightarrow> expr list \<Rightarrow> target \<Rightarrow> bool" where
  "target_inv A cfg hv a0 hist t \<longleftrightarrow>
     t_addr t = a0 \<and> apart hv hist \<and> (\<forall>b \<in> set hist. addr_ok A b)
     \<and> mset (map fst (conf_addrs t)) = mset hist
     \<and> ek.sorted_map hv (conf_constrs t) \<and> keys_in hv hist (conf_constrs t)
     \<and> ek.sorted_map hv (unique_constrs t) \<and> keys_in hv hist (unique_constrs t)
     \<and> ek.sorted_map hv (reloads t) \<and> keys_in hv hist (reloads t)
     \<and> (\<forall>b \<in> set hist.
          (\<exists>e. omap_find (ecmp hv) b (conf_constrs t) = Some e \<and> cnstr A e (\<lambda>\<rho>. conflicts cfg \<rho> a0 b))
          \<and> conj_of A (set_for hv b (unique_constrs t)) (\<lambda>\<rho>. \<forall>x \<in> set (after hist b). acc cfg \<rho> b \<noteq> acc cfg \<rho> x)
          \<and> conj_of A (set_for hv b (reloads t)) (\<lambda>\<rho>. \<forall>x \<in> set (after hist b). acc cfg \<rho> a0 \<noteq> acc cfg \<rho> x))"

lemma target_inv_new: "target_inv A cfg hv a0 [] (new_target a0 info)"
  by (simp add: target_inv_def new_target_def apart_def)

lemma omap_find_None_iff: "omap_find cmp k m = None \<longleftrightarrow> (\<forall>k' \<in> fst ` set m. cmp k k' \<noteq> 0)"
  by (induction cmp k m rule: omap_find.induct) auto

lemma keys_in_insert:
  assumes "ek.sorted_map hv m" "keys_in hv ks m" "k \<in> set ks"
  shows "keys_in hv ks (omap_insert (ecmp hv) k v m)"
  using assms unfolding keys_in_def by (auto simp: ek.find_insert split: if_splits)

lemma set_for_None: "keys_in hv ks m \<Longrightarrow> \<forall>k \<in> set ks. compare hv b k \<noteq> 0 \<Longrightarrow> set_for hv b m = []"
  by (auto simp: keys_in_def set_for_def split: option.split)

lemma after_Cons: "after (a # hist) b = (if a = b then [] else a # after hist b)"
  by (simp add: after_def)

text \<open>The constant cache accepts every address when the configuration has no more sets than it.\<close>

definition cc_ok :: "cache_config \<Rightarrow> constant_cache \<Rightarrow> bool" where
  "cc_ok cfg cc \<longleftrightarrow> length (ccState cc) = CACHE_SET_SIZE"

lemma cc_access_returns:
  assumes "cfg_ok cfg" "cache_set_size cfg \<le> CACHE_SET_SIZE" "addr_ok A a" "cc_ok cfg cc"
  shows "returns (cc_access cfg a cc) (cc_ok cfg)"
proof (cases "dyn_cast_Constant a")
  case (Some ce)
  then have a: "a = ConstantExpr ce" by (cases a) auto
  with assms(3) have ce: "wf_const ce" "ce_width ce = 64" by (auto dest: addr_const)
  have "0 < cache_set_size cfg" using assms(1) by (auto simp: cfg_ok_def)
  then have "set_of cfg v < int (cache_set_size cfg) \<and> 0 \<le> set_of cfg v" for v
    by (simp add: set_of_def)
  with assms(2,4) have "nat (set_of cfg (ce_value ce)) < length (ccState cc)"
    by (simp add: cc_ok_def) (metis nat_less_iff order_less_le_trans)
  with assms Some ce show ?thesis
    by (simp add: cc_access_def getSet_const_eq getTag_const_eq cc_ok_def Let_def)
qed (use assms in \<open>simp add: cc_access_def\<close>)

text \<open>The addresses recorded: a repeated one is not recorded again.\<close>

definition record_access :: "hasher \<Rightarrow> expr \<Rightarrow> expr list \<Rightarrow> expr list" where
  "record_access hv addr hist = (if \<exists>x \<in> set hist. compare hv addr x = 0 then hist else addr # hist)"

lemma target_inv_keys:
  assumes "target_inv A cfg hv a0 hist t"
  shows "fst ` set (conf_addrs t) = set hist"
proof -
  from assms have "set_mset (mset (map fst (conf_addrs t))) = set_mset (mset hist)" by (simp only: target_inv_def)
  then show ?thesis by simp
qed

lemma oset_find_hist:
  assumes "target_inv A cfg hv a0 hist t"
  shows "oset_find (ecmp hv) addr (conf_addrs t) \<longleftrightarrow> (\<exists>x \<in> set hist. compare hv addr x = 0)"
  using target_inv_keys [OF assms] unfolding oset_find_def omap_find_None_iff by simp

text \<open>Recording a new address keeps the invariant.\<close>

lemma target_inv_record:
  assumes inv: "target_inv A cfg hv a0 hist t" and new: "\<forall>x \<in> set hist. compare hv addr x \<noteq> 0"
    and ok: "cfg_ok cfg" "addr_ok A addr"
    and us: "ek.sorted_map hv us" "keys_in hv hist us"
      "\<forall>b P. conj_of A (set_for hv b (unique_constrs t)) P \<longrightarrow> conj_of A (set_for hv b us)
        (\<lambda>\<rho>. P \<rho> \<and> (\<forall>c \<in> set hist. compare hv b c = 0 \<longrightarrow> acc cfg \<rho> c \<noteq> acc cfg \<rho> addr))"
    and rs: "ek.sorted_map hv rs" "keys_in hv hist rs"
      "\<forall>b P. conj_of A (set_for hv b (reloads t)) P \<longrightarrow> conj_of A (set_for hv b rs)
        (\<lambda>\<rho>. P \<rho> \<and> ((\<exists>c \<in> set hist. compare hv b c = 0) \<longrightarrow> acc cfg \<rho> a0 \<noteq> acc cfg \<rho> addr))"
    and e: "cnstr A e (\<lambda>\<rho>. conflicts cfg \<rho> a0 addr)"
  shows "target_inv A cfg hv a0 (addr # hist) (t\<lparr>ccstate := cc, unique_constrs := us, reloads := rs,
    conf_addrs := oset_insert (ecmp hv) addr (conf_addrs t), conf_constrs := omap_insert (ecmp hv) addr e (conf_constrs t)\<rparr>)"
proof -
  note I = inv [unfolded target_inv_def]
  then have J: "t_addr t = a0" "\<forall>b \<in> set hist. addr_ok A b" "mset (map fst (conf_addrs t)) = mset hist"
      "ek.sorted_map hv (conf_constrs t)" "keys_in hv hist (conf_constrs t)"
    by blast+
  have new': "compare hv x addr \<noteq> 0" if "x \<in> set hist" for x
    using new that compare_flip [of hv x addr] by auto
  have nf1: "omap_find (ecmp hv) addr (conf_addrs t) = None"
    using new target_inv_keys [OF inv] by (simp add: omap_find_None_iff)
  have nf2: "omap_find (ecmp hv) addr (conf_constrs t) = None" using new J(5) unfolding keys_in_def by blast
  have "apart hv hist" using I by blast
  then have ap: "apart hv (addr # hist)" using new new' by (auto simp: apart_def)
  have ms: "mset (map fst (oset_insert (ecmp hv) addr (conf_addrs t))) = mset (addr # hist)"
    using J(3) ek.mset_insert_new [OF nf1, of "()"] by (simp add: oset_insert_def)
  have keys: "keys_in hv (addr # hist) us" "keys_in hv (addr # hist) rs"
      "keys_in hv (addr # hist) (omap_insert (ecmp hv) addr e (conf_constrs t))"
    using keys_in_mono [OF us(2), of "addr # hist"] keys_in_mono [OF rs(2), of "addr # hist"]
      keys_in_mono [OF J(5), of "addr # hist"] keys_in_insert [OF J(4), of "addr # hist" addr e]
    by (simp_all add: subset_insertI)
  have old: "b \<noteq> addr" "\<And>c. c \<in> set hist \<Longrightarrow> compare hv b c = 0 \<longleftrightarrow> c = b" "compare hv b addr \<noteq> 0" if "b \<in> set hist" for b
    using that \<open>apart hv hist\<close> new' [OF that] by (auto simp: apart_def)
  have here: "(\<exists>e'. omap_find (ecmp hv) b (omap_insert (ecmp hv) addr e (conf_constrs t)) = Some e' \<and> cnstr A e' (\<lambda>\<rho>. conflicts cfg \<rho> a0 b))
      \<and> conj_of A (set_for hv b us) (\<lambda>\<rho>. \<forall>x \<in> set (after (addr # hist) b). acc cfg \<rho> b \<noteq> acc cfg \<rho> x)
      \<and> conj_of A (set_for hv b rs) (\<lambda>\<rho>. \<forall>x \<in> set (after (addr # hist) b). acc cfg \<rho> a0 \<noteq> acc cfg \<rho> x)"
    if b: "b \<in> set hist" for b
  proof -
    note bI = I [THEN conjunct2, THEN conjunct2, THEN conjunct2, THEN conjunct2, THEN conjunct2, THEN conjunct2,
        THEN conjunct2, THEN conjunct2, THEN conjunct2, THEN conjunct2, rule_format, OF b]
    have "conj_of A (set_for hv b us) (\<lambda>\<rho>. \<forall>x \<in> set (after (addr # hist) b). acc cfg \<rho> b \<noteq> acc cfg \<rho> x)"
      using us(3) [rule_format, OF bI [THEN conjunct2, THEN conjunct1]]
      by (rule conj_of_cong) (use b old [OF b] in \<open>auto simp: after_Cons\<close>)
    moreover have "conj_of A (set_for hv b rs) (\<lambda>\<rho>. \<forall>x \<in> set (after (addr # hist) b). acc cfg \<rho> a0 \<noteq> acc cfg \<rho> x)"
      using rs(3) [rule_format, OF bI [THEN conjunct2, THEN conjunct2]]
      by (rule conj_of_cong) (use b old [OF b] in \<open>auto simp: after_Cons\<close>)
    ultimately show ?thesis using bI J(4) old(3) [OF b] by (simp add: ek.find_insert)
  qed
  have there: "omap_find (ecmp hv) addr (omap_insert (ecmp hv) addr e (conf_constrs t)) = Some e"
      "set_for hv addr us = []" "set_for hv addr rs = []"
    using J(4) nf2 set_for_None [OF us(2) new] set_for_None [OF rs(2) new] by (simp_all add: ek.find_insert)
  show ?thesis
    unfolding target_inv_def using J ap ok(2) ms keys us(1) rs(1) e there here
    by (simp add: ek.sorted_insert after_Cons [of _ _ addr])
qed

theorem access_target_ok:
  assumes ok: "cfg_ok cfg" "cache_set_size cfg \<le> CACHE_SET_SIZE" "bufs_ok A cfg B" "addr_ok A a0" "addr_ok A addr"
    and sym: "\<not> is_ConstantExpr a0" and inv: "target_inv A cfg hv a0 hist t" "cc_ok cfg (ccstate t)"
  shows "returns (access_target cfg hv addr t B) (\<lambda>(r, B'). bufs_ok A cfg B' \<and>
    (\<exists>cc. cc_access cfg addr (ccstate t) = Some cc \<and> cc_ok cfg cc \<and>
      (case r of None \<Rightarrow> isFull cc
       | Some t' \<Rightarrow> \<not> isFull cc \<and> ccstate t' = cc \<and> t_info t' = t_info t
           \<and> target_inv A cfg hv a0 (record_access hv addr hist) t')))"
proof -
  obtain cc where cc: "cc_access cfg addr (ccstate t) = Some cc" "cc_ok cfg cc"
    using cc_access_returns [OF ok(1,2,5) inv(2)] by (auto simp: returns_iff)
  let ?new = "\<forall>x \<in> set hist. compare hv addr x \<noteq> 0"
  have I: "t_addr t = a0" "\<forall>c \<in> set hist. addr_ok A c" "fst ` set (conf_addrs t) = set hist"
    using inv(1) target_inv_keys [OF inv(1)] by (simp_all add: target_inv_def)
  have same: "target_inv A cfg hv a0 hist (t\<lparr>ccstate := cc\<rparr>)" using inv(1) by (simp add: target_inv_def)
  show ?thesis
  proof (cases "isFull cc \<or> \<not> ?new")
    case True
    then show ?thesis
      using cc ok(3) oset_find_hist [OF inv(1), of addr] same
      by (auto simp: access_target_def record_access_def Let_def)
  next
    case False
    then have new: "?new" and nfull: "\<not> isFull cc" by auto
    have nb: "\<not> both_const a0 addr" using sym by (simp add: both_const_def)
    obtain us B1 where us: "add_uniques cfg hv addr (map fst (conf_addrs t)) (unique_constrs t) B = Some (us, B1)"
        "bufs_ok A cfg B1" "ek.sorted_map hv us" "keys_in hv hist us"
        "\<forall>b P. conj_of A (set_for hv b (unique_constrs t)) P \<longrightarrow> conj_of A (set_for hv b us)
          (\<lambda>\<rho>. P \<rho> \<and> (\<forall>c \<in> set hist. compare hv b c = 0 \<longrightarrow> acc cfg \<rho> c \<noteq> acc cfg \<rho> addr))"
      using add_uniques_ok [OF ok(1,5) _ ok(3), of "map fst (conf_addrs t)" hv "unique_constrs t" hist] I inv(1)
      by (auto simp: returns_iff target_inv_def)
    obtain re B2 where re: "reloadConstr cfg hv a0 addr B1 = Some (False, Some re, B2)" "bufs_ok A cfg B2"
        "cnstr A re (\<lambda>\<rho>. acc cfg \<rho> a0 \<noteq> acc cfg \<rho> addr)"
      using reloadConstr_ok [OF ok(1) us(2) ok(4,5) nb, of hv] by (auto simp: returns_iff)
    obtain e B3 where e: "conflicConstr cfg hv a0 addr B2 = Some (True, Some e, B3)" "bufs_ok A cfg B3"
        "cnstr A e (\<lambda>\<rho>. conflicts cfg \<rho> a0 addr)"
      using conflicConstr_ok [OF ok(1) re(2) ok(4,5) nb, of hv] by (auto simp: returns_iff conflicts_def)
    let ?rs = "add_reloads hv re (map fst (conf_addrs t)) (reloads t)"
    have inj: "inj_on arr_addr A" using ok(4) by (simp add: addr_ok_def)
    have rs: "ek.sorted_map hv ?rs" "keys_in hv hist ?rs" "\<forall>b P. conj_of A (set_for hv b (reloads t)) P \<longrightarrow> conj_of A (set_for hv b ?rs)
        (\<lambda>\<rho>. P \<rho> \<and> ((\<exists>c \<in> set hist. compare hv b c = 0) \<longrightarrow> acc cfg \<rho> a0 \<noteq> acc cfg \<rho> addr))"
      using add_reloads_ok [OF inj re(3), of hv "reloads t" hist "map fst (conf_addrs t)"] I inv(1)
      by (simp_all add: target_inv_def)
    have nf: "\<not> oset_find (ecmp hv) addr (conf_addrs t)" using new oset_find_hist [OF inv(1)] by blast
    have rec: "record_access hv addr hist = addr # hist" using new by (simp add: record_access_def)
    show ?thesis
      using cc nfull nf us(1) re(1) e(1,2) I(1) target_inv_record [OF inv(1) new ok(1,5) us(3-5) rs e(3), of cc]
      by (simp add: access_target_def rec)
  qed
qed

end
