(* ===== verification/CacheVerdict.thy ===== *)
theory CacheVerdict
  imports CacheSound
begin

text \<open>
  The verdict of the symbolic cache. The formula \<open>cache_constr\<close> builds for a target counts the
  recorded addresses that conflict with it, are the last access to their line and are not
  followed by a reload; \<open>card_since\<close> shows that this is the number of lines of the set accessed since
  the target was last accessed, so that the formula is true exactly when an LRU cache still
  holds the target's line.
\<close>

subsection \<open>Counting\<close>

definition counts :: "('x \<Rightarrow> int \<times> 'l) \<Rightarrow> int \<times> 'l \<Rightarrow> 'x list \<Rightarrow> 'x \<Rightarrow> bool" where
  "counts f a hist b \<longleftrightarrow> fst (f b) = fst a \<and> f b \<noteq> a
     \<and> (\<forall>x \<in> set (takeWhile (\<lambda>x. x \<noteq> b) hist). f b \<noteq> f x \<and> a \<noteq> f x)"

lemma since_snoc: "since a (bs @ [b]) L =
    (if b = a then {} else if fst b = fst a then insert (snd b) (since a bs L) else since a bs L)"
  by (induction bs arbitrary: L) auto

lemma counts_Cons:
  "b \<noteq> x \<Longrightarrow> counts f a (x # hist) b \<longleftrightarrow> counts f a hist b \<and> f b \<noteq> f x \<and> f x \<noteq> a"
  "counts f a (x # hist) x \<longleftrightarrow> fst (f x) = fst a \<and> f x \<noteq> a"
  by (auto simp: counts_def)

lemma counted_since:
  assumes "distinct hist"
  shows "(\<lambda>b. snd (f b)) ` {b \<in> set hist. counts f a hist b} = since a (map f (rev hist)) {}
    \<and> inj_on (\<lambda>b. snd (f b)) {b \<in> set hist. counts f a hist b}"
  using assms
proof (induction hist)
  case (Cons x hist)
  let ?C = "{b \<in> set hist. counts f a hist b}"
  have eq: "{b \<in> set (x # hist). counts f a (x # hist) b} =
      (if f x = a then {} else if fst (f x) = fst a then insert x {b \<in> ?C. f b \<noteq> f x} else ?C)"
    using Cons.prems by (auto simp: counts_Cons counts_def)
  have IH: "(\<lambda>b. snd (f b)) ` ?C = since a (map f (rev hist)) {}" "inj_on (\<lambda>b. snd (f b)) ?C"
    using Cons by simp_all
  have set: "fst (f b) = fst a" if "b \<in> ?C" for b using that by (simp add: counts_def)
  show ?case
  proof (cases "fst (f x) = fst a \<and> f x \<noteq> a")
    case True
    with set have "b \<in> ?C \<Longrightarrow> f b = f x \<longleftrightarrow> snd (f b) = snd (f x)" for b by (simp add: prod_eq_iff)
    then have "insert (snd (f x)) ((\<lambda>b. snd (f b)) ` {b \<in> ?C. f b \<noteq> f x}) = insert (snd (f x)) ((\<lambda>b. snd (f b)) ` ?C)"
      and "inj_on (\<lambda>b. snd (f b)) (insert x {b \<in> ?C. f b \<noteq> f x})"
      using IH(2) by (auto simp: inj_on_def)
    with True IH(1) show ?thesis unfolding eq by (simp add: since_snoc)
  next
    case False
    with IH show ?thesis unfolding eq by (auto simp: since_snoc)
  qed
qed simp

theorem card_since:
  assumes "distinct hist"
  shows "card (since a (map f (rev hist)) {}) = length (filter (counts f a hist) hist)"
proof -
  have "card (since a (map f (rev hist)) {}) = card {b \<in> set hist. counts f a hist b}"
    using counted_since [OF assms, of f a] card_image by metis
  also have "\<dots> = length (filter (counts f a hist) hist)"
    using distinct_card [of "filter (counts f a hist) hist"] assms by (simp add: set_filter [symmetric] del: set_filter)
  finally show ?thesis .
qed

subsection \<open>The formula\<close>

lemma and_all_ok:
  assumes "cnstr A z Q" "\<forall>e \<in> set es. arrays e \<subseteq> A \<and> wf_expr e \<and> getWidth e = 1"
  shows "returns (and_all es z) (\<lambda>n. cnstr A n (\<lambda>\<rho>. Q \<rho> \<and> (\<forall>e \<in> set es. eval \<rho> e = 1)))"
  using assms
proof (induction es arbitrary: z Q)
  case (Cons e es)
  have "eval \<rho> e = of_bool (eval \<rho> e = 1)" for \<rho>
    using eval_fits [of e \<rho>] Cons.prems(2) by (auto dest: fits_bool_cases)
  then have "cnstr A e (\<lambda>\<rho>. eval \<rho> e = 1)"
    using Cons.prems(2) by (simp add: cnstr_def denotes_def)
  then obtain m where "create_AndExpr z e = Some m" "cnstr A m (\<lambda>\<rho>. Q \<rho> \<and> eval \<rho> e = 1)"
    using cnstr_and [OF Cons.prems(1)] by (auto simp: returns_iff)
  with Cons.IH [of m "\<lambda>\<rho>. Q \<rho> \<and> eval \<rho> e = 1"] Cons.prems(2) show ?case by simp
qed simp

lemma and_all_conj:
  assumes "conj_of A es P"
  shows "returns (and_all es true_expr) (\<lambda>n. cnstr A n P)"
proof -
  have "cnstr A true_expr (\<lambda>_. True)" using cnstr_const [of A True] by (simp add: true_expr_def)
  from and_all_ok [OF this, of es] assms show ?thesis by (auto simp: conj_of_def)
qed

lemma conflict_constr_ok:
  assumes "target_inv A cfg hv a0 hist t" "b \<in> set hist"
  shows "returns (conflict_constr hv t b)
    (\<lambda>c. denotes c 32 (\<lambda>\<rho>. of_bool (counts (acc cfg \<rho>) (acc cfg \<rho> a0) hist b)))"
proof -
  from assms obtain e where e: "omap_find (ecmp hv) b (conf_constrs t) = Some e" "cnstr A e (\<lambda>\<rho>. conflicts cfg \<rho> a0 b)"
    and u: "conj_of A (set_for hv b (unique_constrs t)) (\<lambda>\<rho>. \<forall>x \<in> set (after hist b). acc cfg \<rho> b \<noteq> acc cfg \<rho> x)"
    and r: "conj_of A (set_for hv b (reloads t)) (\<lambda>\<rho>. \<forall>x \<in> set (after hist b). acc cfg \<rho> a0 \<noteq> acc cfg \<rho> x)"
    unfolding target_inv_def by blast
  obtain ue where ue: "and_all (set_for hv b (unique_constrs t)) true_expr = Some ue"
      "cnstr A ue (\<lambda>\<rho>. \<forall>x \<in> set (after hist b). acc cfg \<rho> b \<noteq> acc cfg \<rho> x)"
    using and_all_conj [OF u] by (auto simp: returns_iff)
  obtain re where re: "and_all (set_for hv b (reloads t)) true_expr = Some re"
      "cnstr A re (\<lambda>\<rho>. \<forall>x \<in> set (after hist b). acc cfg \<rho> a0 \<noteq> acc cfg \<rho> x)"
    using and_all_conj [OF r] by (auto simp: returns_iff)
  obtain c1 where c1: "create_AndExpr e ue = Some c1"
      "cnstr A c1 (\<lambda>\<rho>. conflicts cfg \<rho> a0 b \<and> (\<forall>x \<in> set (after hist b). acc cfg \<rho> b \<noteq> acc cfg \<rho> x))"
    using cnstr_and [OF e(2) ue(2)] by (auto simp: returns_iff)
  obtain c where c: "create_AndExpr c1 re = Some c" "cnstr A c (\<lambda>\<rho>. (conflicts cfg \<rho> a0 b
      \<and> (\<forall>x \<in> set (after hist b). acc cfg \<rho> b \<noteq> acc cfg \<rho> x)) \<and> (\<forall>x \<in> set (after hist b). acc cfg \<rho> a0 \<noteq> acc cfg \<rho> x))"
    using cnstr_and [OF c1(2) re(2)] by (auto simp: returns_iff)
  have "cnstr A c (\<lambda>\<rho>. counts (acc cfg \<rho>) (acc cfg \<rho> a0) hist b)"
    using c(2) by (rule cnstr_cong) (auto simp: counts_def conflicts_def after_def)
  then have "wf_expr c" "\<And>\<rho>. eval \<rho> c = of_bool (counts (acc cfg \<rho>) (acc cfg \<rho> a0) hist b)"
    by (auto simp: cnstr_def denotes_def)
  with create_ZExtExpr_sound [of c 32] e(1) ue(1) re(1) c1(1) c(1) show ?thesis
    by (auto simp: conflict_constr_def denotes_def elim!: returns_mono)
qed

lemma sum_conflicts_ok:
  assumes "target_inv A cfg hv a0 hist t" "set cas \<subseteq> set hist" "denotes z 32 (\<lambda>\<rho>. take_bit 32 (int (n \<rho>)))"
  shows "returns (sum_conflicts hv t cas z) (\<lambda>e. denotes e 32
    (\<lambda>\<rho>. take_bit 32 (int (n \<rho> + length (filter (counts (acc cfg \<rho>) (acc cfg \<rho> a0) hist) cas)))))"
  using assms(2,3)
proof (induction cas arbitrary: z n)
  case (Cons b cas)
  let ?c = "\<lambda>\<rho>. counts (acc cfg \<rho>) (acc cfg \<rho> a0) hist b"
  obtain c where c: "conflict_constr hv t b = Some c" "denotes c 32 (\<lambda>\<rho>. of_bool (?c \<rho>))"
    using conflict_constr_ok [OF assms(1), of b] Cons.prems(1) by (auto simp: returns_iff)
  obtain s where s: "create_AddExpr z c = Some s" "bin_spec Add z c s"
    using create_AddExpr_sound [of z c] Cons.prems(2) c(2) by (auto simp: returns_iff denotes_def)
  have "denotes s 32 (\<lambda>\<rho>. take_bit 32 (int (n \<rho> + of_bool (?c \<rho>))))"
    using s(2) Cons.prems(2) c(2) by (simp add: bin_spec_def denotes_def take_bit_eq_mod mod_add_left_eq)
  from Cons.IH [OF _ this] Cons.prems(1) c(1) s(1) show ?case
    by (auto elim!: returns_mono simp: denotes_def add.assoc)
qed (simp add: denotes_def)

theorem cache_constr_ok:
  assumes "cfg_ok cfg" "target_inv A cfg hv a0 hist t" "length hist < 2 ^ 32"
  shows "returns (cache_constr cfg hv t) (\<lambda>e. denotes e 1
    (\<lambda>\<rho>. of_bool (card (since (acc cfg \<rho> a0) (map (acc cfg \<rho>) (rev hist)) {}) < cache_ways cfg)))"
proof -
  let ?n = "\<lambda>\<rho>. card (since (acc cfg \<rho> a0) (map (acc cfg \<rho>) (rev hist)) {})"
  have hist: "distinct hist" "mset (map fst (conf_addrs t)) = mset hist" "set (map fst (conf_addrs t)) \<subseteq> set hist"
    using assms(2) target_inv_keys [OF assms(2)] by (simp_all add: target_inv_def apart_def)
  have n: "length (filter (counts (acc cfg \<rho>) (acc cfg \<rho> a0) hist) (map fst (conf_addrs t))) = ?n \<rho>" for \<rho>
    unfolding card_since [OF hist(1)]
    using hist(2) by (metis mset_filter size_mset)
  have small: "?n \<rho> < 2 ^ 32" for \<rho>
    unfolding card_since [OF hist(1)] using assms(3) length_filter_le le_less_trans by blast
  obtain s where s: "sum_conflicts hv t (map fst (conf_addrs t)) (ConstantExpr (ce_alloc 0 32)) = Some s"
      "denotes s 32 (\<lambda>\<rho>. take_bit 32 (int (?n \<rho>)))"
    using sum_conflicts_ok [OF assms(2) hist(3), of "ConstantExpr (ce_alloc 0 32)" "\<lambda>_. 0"]
    unfolding n by (auto simp: returns_iff denotes_def)
  have "take_bit 32 (int (?n \<rho>)) = int (?n \<rho>)" for \<rho>
    using small [of \<rho>] by (simp add: take_bit_int_eq_self)
  with s(2) have s': "denotes s 32 (\<lambda>\<rho>. int (?n \<rho>))" by (simp add: denotes_def)
  let ?w = "ConstantExpr (ce_alloc (int (cache_ways cfg)) 32)"
  have "take_bit 32 (int (cache_ways cfg)) = int (cache_ways cfg)"
    using assms(1) by (simp add: cfg_ok_def take_bit_int_eq_self)
  with create_cmp_sound(1) [of s ?w] s' s(1) show ?thesis
    by (auto simp: cache_constr_def denotes_def safe_spec_def div_kind_def elim!: returns_mono)
qed

end
