(* ===== verification/CacheRun.thy ===== *)
theory CacheRun
  imports CacheVerdict
begin

text \<open>
  Whole runs of the symbolic cache: a sequence of loads and stores, normal and speculative, from
  the empty state. The invariant \<open>cs_inv\<close> relates the state to the accesses the cache has seen; it
  gives the verdict of every target in terms of the LRU cache. A run stays defined exactly as long
  as no target has its constant cache filled by the accesses after it (\<open>room\<close>).
\<close>

subsection \<open>The constant cache\<close>

definition open_sets :: "cache_config \<Rightarrow> constant_cache \<Rightarrow> nat set" where
  "open_sets cfg cc = {s. s < CACHE_SET_SIZE \<and> length (ccState cc ! s) < cache_ways cfg}"

definition tag_seen :: "cache_config \<Rightarrow> expr list \<Rightarrow> nat \<Rightarrow> int \<Rightarrow> bool" where
  "tag_seen cfg as s tag \<longleftrightarrow> (\<exists>ce. ConstantExpr ce \<in> set as \<and> set_of cfg (ce_value ce) = int s \<and> tag_of cfg (ce_value ce) = tag)"

definition cc_inv :: "cache_config \<Rightarrow> expr list \<Rightarrow> constant_cache \<Rightarrow> bool" where
  "cc_inv cfg as cc \<longleftrightarrow> length (ccState cc) = CACHE_SET_SIZE
     \<and> (\<forall>s < CACHE_SET_SIZE. distinct (ccState cc ! s) \<and> (\<forall>tag \<in> set (ccState cc ! s). tag_seen cfg as s tag))
     \<and> fullCount cc = int (card (open_sets cfg cc))"

lemma cc_inv_new: "0 < cache_ways cfg \<Longrightarrow> cc_inv cfg [] ConstantCache"
  by (simp add: cc_inv_def ConstantCache_def open_sets_def cong: conj_cong)

lemma tag_seen_mono: "tag_seen cfg as s tag \<Longrightarrow> set as \<subseteq> set bs \<Longrightarrow> tag_seen cfg bs s tag"
  unfolding tag_seen_def by blast

lemma cc_inv_mono: "cc_inv cfg as cc \<Longrightarrow> set as \<subseteq> set bs \<Longrightarrow> cc_inv cfg bs cc"
  unfolding cc_inv_def using tag_seen_mono by blast

lemma cc_inv_add:
  assumes "cc_inv cfg as cc" "s < CACHE_SET_SIZE" "length (ccState cc ! s) < cache_ways cfg"
    "tag \<notin> set (ccState cc ! s)" "tag_seen cfg as s tag"
  shows "cc_inv cfg as (let cc' = cc\<lparr>ccState := (ccState cc)[s := tag # ccState cc ! s]\<rparr> in
    if length (ccState cc ! s) + 1 = cache_ways cfg then cc'\<lparr>fullCount := fullCount cc - 1\<rparr> else cc')"
    (is "cc_inv _ _ ?cc")
proof -
  have len: "length (ccState cc) = CACHE_SET_SIZE" using assms(1) by (simp add: cc_inv_def)
  have st: "ccState ?cc = (ccState cc)[s := tag # ccState cc ! s]" by (simp add: Let_def)
  have fin: "finite (open_sets cfg cc)" by (simp add: open_sets_def)
  have s: "s \<in> open_sets cfg cc" using assms(2,3) by (simp add: open_sets_def)
  have op: "open_sets cfg ?cc = (if length (ccState cc ! s) + 1 = cache_ways cfg then open_sets cfg cc - {s} else open_sets cfg cc)"
    using assms(2,3) len unfolding open_sets_def st by (auto simp: nth_list_update)
  have "card (open_sets cfg cc - {s}) = card (open_sets cfg cc) - 1" "0 < card (open_sets cfg cc)"
    using fin s card_gt_0_iff by (auto simp: card_Diff_singleton)
  then have "fullCount ?cc = int (card (open_sets cfg ?cc))"
    using assms(1) unfolding op by (simp add: cc_inv_def Let_def)
  moreover have "distinct (ccState ?cc ! i) \<and> (\<forall>t \<in> set (ccState ?cc ! i). tag_seen cfg as i t)" if "i < CACHE_SET_SIZE" for i
    using that assms len unfolding st by (cases "i = s") (auto simp: cc_inv_def)
  ultimately show ?thesis using len st unfolding cc_inv_def by simp
qed

lemma set_of_range: "cfg_ok cfg \<Longrightarrow> 0 \<le> set_of cfg v \<and> set_of cfg v < int (cache_set_size cfg)"
  by (auto simp: cfg_ok_def set_of_def)

theorem cc_access_inv:
  assumes "cfg_ok cfg" "cache_set_size cfg \<le> CACHE_SET_SIZE" "addr_ok A a" "cc_inv cfg as cc" "cc_access cfg a cc = Some cc'"
  shows "cc_inv cfg (a # as) cc'"
proof (cases "dyn_cast_Constant a")
  case (Some ce)
  then have a: "a = ConstantExpr ce" by (cases a) auto
  with assms(3) have ce: "wf_const ce" "ce_width ce = 64" by (auto dest: addr_const)
  let ?s = "nat (set_of cfg (ce_value ce))" and ?t = "tag_of cfg (ce_value ce)"
  have s: "int ?s = set_of cfg (ce_value ce)" "?s < CACHE_SET_SIZE"
    using set_of_range [OF assms(1), of "ce_value ce"] assms(2) by linarith+
  have len: "length (ccState cc) = CACHE_SET_SIZE" using assms(4) by (simp add: cc_inv_def)
  have inv: "cc_inv cfg (a # as) cc" using assms(4) by (rule cc_inv_mono) auto
  have seen: "tag_seen cfg (a # as) ?s ?t" using s(1) by (auto simp: tag_seen_def a)
  consider "cache_ways cfg \<le> length (ccState cc ! ?s) \<or> ?t \<in> set (ccState cc ! ?s)"
    | "length (ccState cc ! ?s) < cache_ways cfg" "?t \<notin> set (ccState cc ! ?s)" by linarith
  then show ?thesis
  proof cases
    case 1
    with assms(1,5) Some ce s(2) len have "cc' = cc"
      by (auto simp: cc_access_def getSet_const_eq getTag_const_eq Let_def split: if_splits)
    with inv show ?thesis by simp
  next
    case 2
    with assms(1,5) Some ce s(2) len have "cc' = (let cc' = cc\<lparr>ccState := (ccState cc)[?s := ?t # ccState cc ! ?s]\<rparr> in
      if length (ccState cc ! ?s) + 1 = cache_ways cfg then cc'\<lparr>fullCount := fullCount cc - 1\<rparr> else cc')"
      by (simp add: cc_access_def getSet_const_eq getTag_const_eq Let_def)
    with cc_inv_add [OF inv s(2) 2(1,2) seen] show ?thesis by simp
  qed
next
  case None
  with assms have "cc' = cc" by (simp add: cc_access_def)
  with assms(4) cc_inv_mono [of cfg as cc "a # as"] show ?thesis by (simp add: subset_insertI)
qed

text \<open>In a set that is not full every tag seen is kept, so the constant cache is full exactly when
  constant accesses have touched as many lines as there are ways in every one of its sets.\<close>

definition cc_all :: "cache_config \<Rightarrow> expr list \<Rightarrow> constant_cache \<Rightarrow> bool" where
  "cc_all cfg as cc \<longleftrightarrow> (\<forall>s < CACHE_SET_SIZE. length (ccState cc ! s) < cache_ways cfg
     \<longrightarrow> {tag. tag_seen cfg as s tag} \<subseteq> set (ccState cc ! s))"

definition has_room :: "cache_config \<Rightarrow> expr list \<Rightarrow> bool" where
  "has_room cfg as \<longleftrightarrow> (\<exists>s < CACHE_SET_SIZE. card {tag. tag_seen cfg as s tag} < cache_ways cfg)"

lemma cc_all_new: "cc_all cfg [] ConstantCache"
  by (simp add: cc_all_def tag_seen_def)

lemma tag_seen_snoc: "tag_seen cfg (as @ [a]) s tag \<longleftrightarrow> tag_seen cfg as s tag
    \<or> (\<exists>ce. a = ConstantExpr ce \<and> set_of cfg (ce_value ce) = int s \<and> tag_of cfg (ce_value ce) = tag)"
  by (auto simp: tag_seen_def)

lemma finite_tags [simp]: "finite {tag. tag_seen cfg as s tag}"
proof (induction as rule: rev_induct)
  case (snoc a as)
  have "{tag. tag_seen cfg (as @ [a]) s tag} \<subseteq> insert (tag_of cfg (ce_value (the (dyn_cast_Constant a)))) {tag. tag_seen cfg as s tag}"
    by (auto simp: tag_seen_snoc)
  with snoc show ?case by (meson finite_insert finite_subset)
qed (simp add: tag_seen_def)

lemma has_room_new: "0 < cache_ways cfg \<Longrightarrow> has_room cfg []"
  by (auto simp: has_room_def tag_seen_def CACHE_SET_SIZE_def intro!: exI [of _ 0])

lemma has_room_mono: "has_room cfg bs \<Longrightarrow> set as \<subseteq> set bs \<Longrightarrow> has_room cfg as"
proof -
  assume "has_room cfg bs" and sub: "set as \<subseteq> set bs"
  then obtain s where s: "s < CACHE_SET_SIZE" "card {tag. tag_seen cfg bs s tag} < cache_ways cfg"
    by (auto simp: has_room_def)
  have "card {tag. tag_seen cfg as s tag} \<le> card {tag. tag_seen cfg bs s tag}"
    using sub tag_seen_mono by (intro card_mono) auto
  with s show "has_room cfg as" unfolding has_room_def by (meson le_less_trans)
qed

lemma cc_all_access:
  assumes "cfg_ok cfg" "cache_set_size cfg \<le> CACHE_SET_SIZE" "addr_ok A a" "length (ccState cc) = CACHE_SET_SIZE"
    "cc_all cfg as cc" "cc_access cfg a cc = Some cc'"
  shows "cc_all cfg (as @ [a]) cc'"
proof (cases "dyn_cast_Constant a")
  case (Some ce)
  then have a: "a = ConstantExpr ce" by (cases a) auto
  with assms(3) have ce: "wf_const ce" "ce_width ce = 64" by (auto dest: addr_const)
  let ?s = "nat (set_of cfg (ce_value ce))" and ?t = "tag_of cfg (ce_value ce)"
  have s: "int ?s = set_of cfg (ce_value ce)" "?s < CACHE_SET_SIZE"
    using set_of_range [OF assms(1), of "ce_value ce"] assms(2) by linarith+
  have tags: "{tag. tag_seen cfg (as @ [a]) i tag} = (if i = ?s then {?t} else {}) \<union> {tag. tag_seen cfg as i tag}" for i
    using s(1) by (auto simp: tag_seen_snoc a)
  have new: "cache_ways cfg \<le> length (ccState cc' ! ?s) \<or> ?t \<in> set (ccState cc' ! ?s)"
      "length (ccState cc ! i) \<le> length (ccState cc' ! i)" "set (ccState cc ! i) \<subseteq> set (ccState cc' ! i)" for i
    using assms(1,4,6) Some ce s(2)
    by (cases "i = ?s"; auto simp: cc_access_def getSet_const_eq getTag_const_eq Let_def split: if_splits)+
  show ?thesis unfolding cc_all_def
  proof (intro allI impI)
    fix i assume i: "i < CACHE_SET_SIZE" "length (ccState cc' ! i) < cache_ways cfg"
    with assms(5) new(2) [of i] have "{tag. tag_seen cfg as i tag} \<subseteq> set (ccState cc ! i)"
      by (simp add: cc_all_def le_less_trans)
    with new(3) [of i] have old: "{tag. tag_seen cfg as i tag} \<subseteq> set (ccState cc' ! i)" by (rule order_trans [rotated])
    have "?t \<in> set (ccState cc' ! i)" if "i = ?s" using new(1) i(2) that by simp
    with old show "{tag. tag_seen cfg (as @ [a]) i tag} \<subseteq> set (ccState cc' ! i)"
      unfolding tags by (cases "i = ?s") simp_all
  qed
next
  case None
  then have "tag_seen cfg (as @ [a]) s = tag_seen cfg as s" for s by (cases a) (auto simp: tag_seen_snoc fun_eq_iff)
  moreover have "cc' = cc" using None assms(6) by (simp add: cc_access_def)
  ultimately show ?thesis using assms(5) by (simp add: cc_all_def)
qed

theorem isFull_iff:
  assumes "cc_inv cfg as cc" "cc_all cfg as cc"
  shows "isFull cc \<longleftrightarrow> \<not> has_room cfg as"
proof -
  have "length (ccState cc ! s) < cache_ways cfg \<longleftrightarrow> card {tag. tag_seen cfg as s tag} < cache_ways cfg" if s: "s < CACHE_SET_SIZE" for s
  proof -
    have d: "distinct (ccState cc ! s)" "set (ccState cc ! s) \<subseteq> {tag. tag_seen cfg as s tag}"
      using assms(1) s by (auto simp: cc_inv_def)
    then have "length (ccState cc ! s) \<le> card {tag. tag_seen cfg as s tag}"
      by (metis card_mono distinct_card finite_tags)
    moreover have "card {tag. tag_seen cfg as s tag} = length (ccState cc ! s)" if "length (ccState cc ! s) < cache_ways cfg"
    proof -
      have "{tag. tag_seen cfg as s tag} = set (ccState cc ! s)"
        using assms(2) d(2) s that unfolding cc_all_def by (intro subset_antisym) simp_all
      with d(1) show ?thesis by (simp add: distinct_card)
    qed
    ultimately show ?thesis by linarith
  qed
  then have "open_sets cfg cc = {} \<longleftrightarrow> \<not> has_room cfg as" by (auto simp: open_sets_def has_room_def)
  moreover have "finite (open_sets cfg cc)" by (simp add: open_sets_def)
  ultimately show ?thesis using assms(1) by (simp add: cc_inv_def isFull_def)
qed

lemma since_no_reload: "a \<notin> set bs \<Longrightarrow> since a bs L = L \<union> snd ` {b \<in> set bs. fst b = fst a}"
  by (induction bs arbitrary: L) auto

subsection \<open>Runs\<close>

text \<open>A memory access as the executor hands it to the cache.\<close>

record mem_access =
  ma_store :: bool
  ma_spec :: bool
  ma_addr :: expr
  ma_info :: instruction_info

definition cs_access :: "cache_config \<Rightarrow> hasher \<Rightarrow> mem_access \<Rightarrow> cache_state \<Rightarrow> cache_bufs \<Rightarrow> (cache_state \<times> cache_bufs) option" where
  "cs_access cfg hv m = (if ma_store m then cs_store else cs_load) cfg hv (ma_spec m) (ma_addr m) (ma_info m)"

fun cs_run :: "cache_config \<Rightarrow> hasher \<Rightarrow> mem_access list \<Rightarrow> cache_state \<Rightarrow> cache_bufs \<Rightarrow> (cache_state \<times> cache_bufs) option" where
  "cs_run cfg hv [] cs B = Some (cs, B)"
| "cs_run cfg hv (m # ms) cs B = do { (cs, B) \<leftarrow> cs_access cfg hv m cs B; cs_run cfg hv ms cs B }"

text \<open>The accesses the cache sees: speculative stores have not reached it, and of the
  speculative loads only those of sensitive addresses are looked at.\<close>

definition visible :: "mem_access \<Rightarrow> bool" where
  "visible m \<longleftrightarrow> \<not> ma_spec m \<or> (\<not> ma_store m \<and> getSensitive (ma_addr m))"

text \<open>The addresses a target records from the accesses after it: the first occurrences.\<close>

definition firsts :: "hasher \<Rightarrow> expr list \<Rightarrow> expr list" where
  "firsts hv as = rev (fold (record_access hv) as [])"

lemma fold_record_distinct:
  assumes "\<forall>x \<in> set as. \<forall>y \<in> set hist. compare hv x y \<noteq> 0" "apart hv as"
  shows "fold (record_access hv) as hist = rev as @ hist"
  using assms
proof (induction as arbitrary: hist)
  case (Cons a as)
  have "record_access hv a hist = a # hist" using Cons.prems by (simp add: record_access_def)
  moreover have "compare hv x a \<noteq> 0" if "x \<in> set as" for x
    using Cons.prems(2) that unfolding apart_def by auto
  ultimately show ?case using Cons by (simp add: apart_def)
qed simp

lemma firsts_distinct: "apart hv as \<Longrightarrow> firsts hv as = as"
  by (simp add: firsts_def fold_record_distinct)

lemma length_fold_record: "length (fold (record_access hv) as hist) \<le> length as + length hist"
proof (induction as arbitrary: hist)
  case (Cons a as)
  have "length (record_access hv a hist) \<le> Suc (length hist)" by (simp add: record_access_def)
  with Cons.IH [of "record_access hv a hist"] show ?case by simp
qed simp

text \<open>What the state says about the accesses \<open>vis\<close> the cache has seen.\<close>

definition still_cached :: "cache_config \<Rightarrow> env \<Rightarrow> expr \<Rightarrow> expr list \<Rightarrow> (int \<Rightarrow> int list) \<Rightarrow> bool" where
  "still_cached cfg \<rho> a as c \<longleftrightarrow> resident (acc cfg \<rho> a)
     (lru_run (cache_ways cfg) (map (acc cfg \<rho>) as) (lru_access (cache_ways cfg) (acc cfg \<rho> a) c))"

definition target_ok :: "array set \<Rightarrow> cache_config \<Rightarrow> hasher \<Rightarrow> mem_access \<Rightarrow> expr list \<Rightarrow> target \<Rightarrow> bool" where
  "target_ok A cfg hv m as t \<longleftrightarrow> getSensitive (ma_addr m) \<and> addr_ok A (ma_addr m) \<and> t_info t = ma_info m
     \<and> target_inv A cfg hv (ma_addr m) (fold (record_access hv) as []) t
     \<and> cc_inv cfg as (ccstate t) \<and> cc_all cfg as (ccstate t) \<and> has_room cfg as"

definition entry_ok :: "array set \<Rightarrow> cache_config \<Rightarrow> hasher \<Rightarrow> mem_access list \<Rightarrow> expr \<times> slot \<Rightarrow> bool" where
  "entry_ok A cfg hv vis p \<longleftrightarrow> (\<exists>pre m post t. vis = pre @ m # post \<and> p = (ma_addr m, Live t)
     \<and> target_ok A cfg hv m (map ma_addr post) t)"

text \<open>There is room in the constant cache of every sensitive access, whatever follows it.\<close>

definition room :: "cache_config \<Rightarrow> mem_access list \<Rightarrow> bool" where
  "room cfg vis \<longleftrightarrow> (\<forall>pre m post. vis = pre @ m # post \<longrightarrow> getSensitive (ma_addr m) \<longrightarrow> has_room cfg (map ma_addr post))"

definition cs_inv :: "array set \<Rightarrow> cache_config \<Rightarrow> hasher \<Rightarrow> mem_access list \<Rightarrow> cache_state \<Rightarrow> bool" where
  "cs_inv A cfg hv vis cs \<longleftrightarrow> (\<forall>p \<in> set (targets cs). entry_ok A cfg hv vis p)
     \<and> (\<forall>m \<in> set vis. getSensitive (ma_addr m) \<longrightarrow> cs_isSensitive cs
          \<and> ma_addr m \<in> fst ` set (targets cs))"

lemma cs_inv_new: "cs_inv A cfg hv [] new_CacheState"
  by (simp add: cs_inv_def new_CacheState_def)

lemma sensitive_symbolic: "getSensitive a \<Longrightarrow> \<not> is_ConstantExpr a"
  by (cases a) auto

lemma still_cached_iff:
  "cache_ok (cache_ways cfg) c \<Longrightarrow> still_cached cfg \<rho> a as c \<longleftrightarrow> card (since (acc cfg \<rho> a) (map (acc cfg \<rho>) as) {}) < cache_ways cfg"
  unfolding still_cached_def by (rule resident_iff)

lemma room_prefix: "room cfg (vis @ ws) \<Longrightarrow> room cfg vis"
proof -
  assume r: "room cfg (vis @ ws)"
  have "has_room cfg (map ma_addr post)" if "vis = pre @ m # post" "getSensitive (ma_addr m)" for pre m post
  proof -
    have "vis @ ws = pre @ m # (post @ ws)" using that(1) by simp
    with r that(2) have "has_room cfg (map ma_addr (post @ ws))" unfolding room_def by blast
    then show ?thesis by (rule has_room_mono) auto
  qed
  then show "room cfg vis" unfolding room_def by blast
qed

text \<open>One access, one target.\<close>

lemma access_target_run:
  assumes ok: "cfg_ok cfg" "cache_set_size cfg \<le> CACHE_SET_SIZE" "bufs_ok A cfg B" "addr_ok A a"
    and t: "target_ok A cfg hv m as t"
  shows "returns (access_target cfg hv a t B) (\<lambda>(r, B'). bufs_ok A cfg B' \<and>
    (case r of None \<Rightarrow> \<not> has_room cfg (as @ [a]) | Some t' \<Rightarrow> target_ok A cfg hv m (as @ [a]) t'))"
proof -
  let ?k = "ma_addr m"
  have k: "addr_ok A ?k" "\<not> is_ConstantExpr ?k" "target_inv A cfg hv ?k (fold (record_access hv) as []) t"
      "cc_inv cfg as (ccstate t)" "cc_all cfg as (ccstate t)"
    using t sensitive_symbolic unfolding target_ok_def by blast+
  have cco: "cc_ok cfg (ccstate t)" using k(4) by (simp add: cc_ok_def cc_inv_def)
  obtain r B' cc where r: "access_target cfg hv a t B = Some (r, B')" "bufs_ok A cfg B'" "cc_access cfg a (ccstate t) = Some cc"
      "case r of None \<Rightarrow> isFull cc | Some t' \<Rightarrow> \<not> isFull cc \<and> ccstate t' = cc \<and> t_info t' = t_info t
         \<and> target_inv A cfg hv ?k (record_access hv a (fold (record_access hv) as [])) t'"
    using access_target_ok [OF ok(1-3) k(1) ok(4) k(2,3) cco] by (elim returnsE) auto
  have cc: "cc_inv cfg (as @ [a]) cc" "cc_all cfg (as @ [a]) cc"
    using cc_inv_mono [OF cc_access_inv [OF ok(1,2,4) k(4) r(3)], of "as @ [a]"]
      cc_all_access [OF ok(1,2,4) _ k(5) r(3)] cco by (simp_all add: cc_ok_def)
  show ?thesis using r cc isFull_iff [OF cc] t by (auto simp: target_ok_def split: option.splits)
qed

text \<open>All targets. The loop is undefined only where a target has no room left.\<close>

lemma access_targets_run:
  assumes ok: "cfg_ok cfg" "cache_set_size cfg \<le> CACHE_SET_SIZE" "addr_ok A (ma_addr m)"
    and "bufs_ok A cfg B" "\<forall>p \<in> set ts. entry_ok A cfg hv vis p"
  shows "case access_targets cfg hv (ma_addr m) ts B of None \<Rightarrow> \<not> room cfg (vis @ [m])
    | Some (ts', B') \<Rightarrow> bufs_ok A cfg B' \<and> (\<forall>p \<in> set ts'. entry_ok A cfg hv (vis @ [m]) p) \<and> fst ` set ts' = fst ` set ts"
  using assms(4,5)
proof (induction ts arbitrary: B)
  case (Cons p ts)
  from Cons.prems obtain pre m' post t where t: "vis = pre @ m' # post" "p = (ma_addr m', Live t)"
      "target_ok A cfg hv m' (map ma_addr post) t"
    by (auto simp: entry_ok_def)
  obtain r B1 where r: "access_target cfg hv (ma_addr m) t B = Some (r, B1)" "bufs_ok A cfg B1"
      "case r of None \<Rightarrow> \<not> has_room cfg (map ma_addr post @ [ma_addr m])
       | Some t' \<Rightarrow> target_ok A cfg hv m' (map ma_addr post @ [ma_addr m]) t'"
    using access_target_run [OF ok(1,2) Cons.prems(1) ok(3) t(3)] by (elim returnsE) auto
  have split: "vis @ [m] = pre @ m' # (post @ [m])" using t(1) by simp
  show ?case
  proof (cases r)
    case None
    with r(3) split t(3) have "\<not> room cfg (vis @ [m])"
      unfolding room_def target_ok_def by fastforce
    with None t(2) r(1) show ?thesis by simp
  next
    case (Some t')
    with r(3) split have "entry_ok A cfg hv (vis @ [m]) (ma_addr m', Live t')"
      unfolding entry_ok_def by fastforce
    with Some t(2) r(1) Cons.IH [OF r(2)] Cons.prems(2) show ?thesis
      by (cases "access_targets cfg hv (ma_addr m) ts B1") (simp_all add: case_prod_unfold)
  qed
qed simp

text \<open>One access to the state. A sensitive address must not have been accessed before: its target
  would be deleted and left in the map.\<close>

lemma add_sensitive_new:
  assumes "\<And>k. k \<in> fst ` set ts \<Longrightarrow> compare hv a k \<noteq> 0"
  shows "set (add_sensitive hv a info ts) = insert (a, Live (new_target a info)) (set ts)"
proof -
  have nf: "omap_find (ecmp hv) a ts = None"
    unfolding omap_find_None_iff using assms by (rule ballI)
  then show ?thesis
    using arg_cong [OF ek.mset_insert_new [OF nf, of "Live (new_target a info)"], of set_mset]
    by (simp add: add_sensitive_def)
qed

lemma handleAccess_run:
  assumes ok: "cfg_ok cfg" "cache_set_size cfg \<le> CACHE_SET_SIZE" "addr_ok A (ma_addr m)" "0 < cache_ways cfg"
    and "bufs_ok A cfg B" "cs_inv A cfg hv vis cs"
    and fresh: "getSensitive (ma_addr m) \<Longrightarrow> \<forall>m' \<in> set vis. getSensitive (ma_addr m') \<longrightarrow> compare hv (ma_addr m) (ma_addr m') \<noteq> 0"
    and see: "\<not> ma_spec m \<or> getSensitive (ma_addr m)"
  shows "case handleAccess cfg hv (ma_spec m) (ma_addr m) (ma_info m) cs B of None \<Rightarrow> \<not> room cfg (vis @ [m])
    | Some (cs', B') \<Rightarrow> bufs_ok A cfg B' \<and> cs_inv A cfg hv (vis @ [m]) cs'"
proof (cases "access_targets cfg hv (ma_addr m) (targets cs) B")
  case None
  have "\<not> room cfg (vis @ [m])"
    using access_targets_run [OF ok(1-3) assms(5), of "targets cs" hv vis] None assms(6) by (simp add: cs_inv_def)
  with None see show ?thesis by (auto simp: handleAccess_def)
next
  case (Some r)
  have inv: "\<forall>p \<in> set (targets cs). entry_ok A cfg hv vis p"
    using assms(6) unfolding cs_inv_def by blast
  obtain ts B1 where ts: "r = (ts, B1)" "bufs_ok A cfg B1"
      "\<forall>p \<in> set ts. entry_ok A cfg hv (vis @ [m]) p" "fst ` set ts = fst ` set (targets cs)"
    using access_targets_run [OF ok(1-3) assms(5) inv] Some by (cases r) auto
  have old: "ma_addr m' \<in> fst ` set ts" "cs_isSensitive cs" if "m' \<in> set vis" "getSensitive (ma_addr m')" for m'
    using assms(6) that ts(4) unfolding cs_inv_def by blast+
  show ?thesis
  proof (cases "getSensitive (ma_addr m)")
    case False
    have "cs_inv A cfg hv (vis @ [m]) (cs\<lparr>targets := ts\<rparr>)"
      using ts(3) old False unfolding cs_inv_def by auto
    with False see ts(1,2) Some show ?thesis by (simp add: handleAccess_def)
  next
    case True
    have key: "\<exists>m' \<in> set vis. k = ma_addr m' \<and> getSensitive (ma_addr m')" if "k \<in> fst ` set (targets cs)" for k
      using inv that by (fastforce simp: entry_ok_def target_ok_def)
    have keys: "set (add_sensitive hv (ma_addr m) (ma_info m) ts)
        = insert (ma_addr m, Live (new_target (ma_addr m) (ma_info m))) (set ts)"
      using key fresh [OF True] unfolding ts(4) [symmetric] by (intro add_sensitive_new) fastforce
    have "target_ok A cfg hv m (map ma_addr []) (new_target (ma_addr m) (ma_info m))"
      using True ok(3) target_inv_new cc_inv_new [OF ok(4)] cc_all_new has_room_new [OF ok(4)]
      by (simp add: target_ok_def) (simp add: new_target_def)
    then have "entry_ok A cfg hv (vis @ [m]) (ma_addr m, Live (new_target (ma_addr m) (ma_info m)))"
      unfolding entry_ok_def by blast
    with ts(3) old(1) have "cs_inv A cfg hv (vis @ [m]) (cs\<lparr>cs_isSensitive := True, targets := add_sensitive hv (ma_addr m) (ma_info m) ts\<rparr>)"
      by (auto simp: cs_inv_def keys)
    with True ts(1,2) Some show ?thesis by (simp add: handleAccess_def)
  qed
qed

lemma cs_access_run:
  assumes ok: "cfg_ok cfg" "cache_set_size cfg \<le> CACHE_SET_SIZE" "addr_ok A (ma_addr m)" "0 < cache_ways cfg"
    and st: "bufs_ok A cfg B" "cs_inv A cfg hv vis cs"
    and fresh: "visible m \<Longrightarrow> getSensitive (ma_addr m) \<Longrightarrow>
      \<forall>m' \<in> set vis. getSensitive (ma_addr m') \<longrightarrow> compare hv (ma_addr m) (ma_addr m') \<noteq> 0"
  shows "case cs_access cfg hv m cs B of None \<Rightarrow> \<not> room cfg (vis @ (if visible m then [m] else []))
    | Some (cs', B') \<Rightarrow> bufs_ok A cfg B' \<and> cs_inv A cfg hv (vis @ (if visible m then [m] else [])) cs'"
proof -
  have run: "case handleAccess cfg hv (ma_spec m) (ma_addr m) (ma_info m) cs B of None \<Rightarrow> \<not> room cfg (vis @ [m])
      | Some (cs', B') \<Rightarrow> bufs_ok A cfg B' \<and> cs_inv A cfg hv (vis @ [m]) cs'" if "visible m"
    using handleAccess_run [OF ok st] fresh that by (simp add: visible_def)
  have idle: "cs_inv A cfg hv (vis @ [m]) cs" if "\<not> getSensitive (ma_addr m)" "\<not> cs_isSensitive cs"
  proof -
    have "targets cs = []"
    proof (rule ccontr)
      assume "targets cs \<noteq> []"
      with st(2) have "entry_ok A cfg hv vis (hd (targets cs))" by (simp add: cs_inv_def)
      then obtain pre m' post where "vis = pre @ m' # post" "getSensitive (ma_addr m')"
        unfolding entry_ok_def target_ok_def by blast
      with st(2) that(2) show False by (auto simp: cs_inv_def)
    qed
    with st(2) that show ?thesis by (auto simp: cs_inv_def)
  qed
  show ?thesis
  proof (cases "visible m")
    case True
    with run idle st show ?thesis by (auto simp: cs_access_def cs_load_def cs_store_def visible_def)
  next
    case False
    with st show ?thesis by (auto simp: cs_access_def cs_load_def cs_store_def visible_def handleAccess_def)
  qed
qed

lemma apart_middle: "apart hv (xs @ y # zs) \<Longrightarrow> x \<in> set xs \<Longrightarrow> compare hv y x \<noteq> 0"
  unfolding apart_def by auto

theorem cs_run_inv:
  assumes ok: "cfg_ok cfg" "cache_set_size cfg \<le> CACHE_SET_SIZE" "\<forall>m \<in> set ms. addr_ok A (ma_addr m)" "0 < cache_ways cfg"
    and st: "bufs_ok A cfg B" "cs_inv A cfg hv vis cs"
    and fresh: "apart hv (filter getSensitive (map ma_addr (vis @ filter visible ms)))"
  shows "case cs_run cfg hv ms cs B of None \<Rightarrow> \<not> room cfg (vis @ filter visible ms)
    | Some (cs', B') \<Rightarrow> bufs_ok A cfg B' \<and> cs_inv A cfg hv (vis @ filter visible ms) cs'"
  using ok(3) st fresh
proof (induction ms arbitrary: vis cs B)
  case (Cons m ms)
  let ?vis = "vis @ (if visible m then [m] else [])"
  have eq: "?vis @ filter visible ms = vis @ filter visible (m # ms)" by simp
  have fr: "\<forall>m' \<in> set vis. getSensitive (ma_addr m') \<longrightarrow> compare hv (ma_addr m) (ma_addr m') \<noteq> 0"
    if "visible m" "getSensitive (ma_addr m)"
    using apart_middle [of hv "filter getSensitive (map ma_addr vis)" "ma_addr m"] Cons.prems(4) that by simp
  have m: "addr_ok A (ma_addr m)" using Cons.prems(1) by simp
  note one = cs_access_run [OF ok(1,2) m ok(4) Cons.prems(2,3) fr]
  show ?case
  proof (cases "cs_access cfg hv m cs B")
    case None
    with one have "\<not> room cfg ?vis" by simp
    then have "\<not> room cfg (?vis @ filter visible ms)" using room_prefix by blast
    with None show ?thesis unfolding eq by simp
  next
    case (Some r)
    then obtain cs' B' where s: "cs_access cfg hv m cs B = Some (cs', B')" by (cases r) auto
    with one have inv: "bufs_ok A cfg B'" "cs_inv A cfg hv ?vis cs'" by simp_all
    have ap: "apart hv (filter getSensitive (map ma_addr (?vis @ filter visible ms)))" "\<forall>m \<in> set ms. addr_ok A (ma_addr m)"
      using Cons.prems(1,4) unfolding eq by simp_all
    show ?thesis using Cons.IH [OF ap(2) inv ap(1)] s unfolding eq by simp
  qed
qed simp

text \<open>In a list with different values of \<open>f\<close> on the elements with \<open>P\<close> there is one way to split
  it at such an element.\<close>

lemma split_unique:
  assumes "distinct (map f (filter P xs))" "xs = ps @ x # qs" "xs = ps' @ y # qs'" "P x" "P y" "f x = f y"
  shows "ps = ps'" "x = y" "qs = qs'"
proof -
  have no: False if "xs = us @ a # vs @ b # ws" "P a" "P b" "f a = f b" for us a vs b ws
    using assms(1) that by simp
  from assms(2,3) have "ps @ x # qs = ps' @ y # qs'" by simp
  then have "ps = ps' \<and> x = y \<and> qs = qs'"
    using assms(2,4-6) no [of ps x _ y qs'] no [of ps' y _ x qs]
    by (auto simp: append_eq_append_conv2 Cons_eq_append_conv append_eq_Cons_conv)
  then show "ps = ps'" "x = y" "qs = qs'" by simp_all
qed

text \<open>Every sensitive access seen has its target, and the target stands for that access.\<close>

lemma entry_of:
  assumes "cs_inv A cfg hv vis cs" "apart hv (filter getSensitive (map ma_addr vis))"
    and "vis = pre @ m # post" "getSensitive (ma_addr m)"
  obtains t where "(ma_addr m, Live t) \<in> set (targets cs)" "target_ok A cfg hv m (map ma_addr post) t"
proof -
  have "ma_addr m \<in> fst ` set (targets cs)" using assms(1,3,4) by (auto simp: cs_inv_def)
  then obtain p where p: "p \<in> set (targets cs)" "ma_addr m = fst p" by blast
  have "entry_ok A cfg hv vis p" using assms(1) p(1) by (simp add: cs_inv_def)
  then obtain pre' m' post' t where m': "vis = pre' @ m' # post'" "p = (ma_addr m', Live t)"
      "target_ok A cfg hv m' (map ma_addr post') t"
    unfolding entry_ok_def by blast
  have "distinct (map ma_addr (filter (getSensitive \<circ> ma_addr) vis))"
    using assms(2) by (simp add: apart_def filter_map)
  from split_unique [OF this assms(3) m'(1)] assms(4) p(2) m'(2) have "m' = m" "post' = post" by simp_all
  with p(1) m'(2,3) that [of t] show thesis by simp
qed

theorem cs_run_defined:
  assumes ok: "cfg_ok cfg" "cache_set_size cfg \<le> CACHE_SET_SIZE" "\<forall>m \<in> set ms. addr_ok A (ma_addr m)" "0 < cache_ways cfg"
    and fresh: "apart hv (filter getSensitive (map ma_addr (filter visible ms)))"
  shows "cs_run cfg hv ms new_CacheState empty_bufs \<noteq> None \<longleftrightarrow> room cfg (filter visible ms)"
proof (cases "cs_run cfg hv ms new_CacheState empty_bufs")
  case None
  with cs_run_inv [OF ok bufs_ok_empty cs_inv_new, of hv] fresh show ?thesis by simp
next
  case (Some r)
  with cs_run_inv [OF ok bufs_ok_empty cs_inv_new, of hv] fresh
  have inv: "cs_inv A cfg hv (filter visible ms) (fst r)" by (cases r) simp
  have "has_room cfg (map ma_addr post)" if "filter visible ms = pre @ m # post" "getSensitive (ma_addr m)" for pre m post
    using entry_of [OF inv fresh that] by (metis target_ok_def)
  with Some show ?thesis by (simp add: room_def)
qed

end
