(* ===== verification/CacheLeak.thy ===== *)
theory CacheLeak
  imports CacheRun
begin

text \<open>
  What the verdict of the cache analysis means for a whole run: which leaks
  \<open>verifyCacheSideChannel\<close> records, and which runs are undefined because constant accesses have evicted a
  target (\<open>verify_leaks\<close>). Two more runs for which the analysis does not do what it means to: a sensitive
  address accessed twice leaves a dangling target (\<open>second_access_dangles\<close>), and a repeated address is
  forgotten (\<open>repeated_access_missed\<close>).
\<close>

subsection \<open>The formula of every target\<close>

lemma target_verdict:
  assumes "cfg_ok cfg" "target_ok A cfg hv m as t" "length as < 2 ^ 32" "cache_ok (cache_ways cfg) c"
  shows "returns (cache_constr cfg hv t) (\<lambda>e. \<forall>\<rho>. eval \<rho> e = of_bool (still_cached cfg \<rho> (ma_addr m) (firsts hv as) c))"
proof -
  let ?h = "fold (record_access hv) as []"
  have "length ?h < 2 ^ 32" using length_fold_record [of hv as "[]"] assms(3) by simp
  moreover have "target_inv A cfg hv (ma_addr m) ?h t" using assms(2) by (simp add: target_ok_def)
  ultimately show ?thesis
    using cache_constr_ok [OF assms(1), of A hv "ma_addr m" ?h t] still_cached_iff [OF assms(4)]
    by (auto simp: firsts_def denotes_def elim!: returns_mono)
qed

lemma reports_iff: "reports r \<longleftrightarrow> r \<noteq> Some VFalse"
  by (auto simp: reports_def split: option.splits validity.splits)

lemma record_vul_dom: "record_vul L f K \<noteq> None \<longleftrightarrow> K = L \<or> f K \<noteq> None"
  by (auto simp: record_vul_def split: option.splits)

text \<open>The loop over the targets: a line is recorded exactly when some target on it is reported.\<close>

definition reported :: "cache_config \<Rightarrow> hasher \<Rightarrow> (expr \<Rightarrow> validity option) \<Rightarrow> nat \<Rightarrow> expr \<times> slot \<Rightarrow> bool" where
  "reported cfg hv evaluate L p \<longleftrightarrow> (\<exists>t e. snd p = Live t \<and> ii_assemblyLine (t_info t) = L
     \<and> cache_constr cfg hv t = Some e \<and> evaluate e \<noteq> Some VFalse)"

lemma verify_targets_ok:
  assumes "\<forall>p \<in> set ts. \<exists>t e. snd p = Live t \<and> cache_constr cfg hv t = Some e"
  shows "returns (verify_targets cfg hv evaluate ts f)
    (\<lambda>f'. \<forall>L. f' L \<noteq> None \<longleftrightarrow> f L \<noteq> None \<or> (\<exists>p \<in> set ts. reported cfg hv evaluate L p))"
  using assms
proof (induction ts arbitrary: f)
  case (Cons p ts)
  then obtain k t e where p: "p = (k, Live t)" "cache_constr cfg hv t = Some e" by (cases p) auto
  let ?f = "if reports (evaluate e) then record_vul (ii_assemblyLine (t_info t)) f else f"
  have "?f L \<noteq> None \<longleftrightarrow> f L \<noteq> None \<or> reported cfg hv evaluate L p" for L
    using record_vul_dom [of "ii_assemblyLine (t_info t)" f L] by (auto simp: reports_iff reported_def p)
  with Cons.IH [of ?f] Cons.prems show ?case
    by (simp add: p(1,2))
qed simp

subsection \<open>The leaks of a run\<close>

text \<open>A leak of the access \<open>m\<close>: on some input of the path, its line is still in the LRU cache after
  all the accesses that follow.\<close>

definition leaks :: "cache_config \<Rightarrow> (env \<Rightarrow> bool) \<Rightarrow> mem_access list \<Rightarrow> mem_access \<Rightarrow> (int \<Rightarrow> int list) \<Rightarrow> bool" where
  "leaks cfg pc vis m c \<longleftrightarrow> (\<exists>pre post. vis = pre @ m # post \<and> getSensitive (ma_addr m)
     \<and> (\<exists>\<rho>. pc \<rho> \<and> still_cached cfg \<rho> (ma_addr m) (map ma_addr post) c))"

text \<open>
  A target skips an address expression it has recorded before. That loses nothing when no address
  expression is accessed twice after the target, or when on no input of the path an access after
  it touches the target's own line.
\<close>

definition skips_safely :: "cache_config \<Rightarrow> hasher \<Rightarrow> (env \<Rightarrow> bool) \<Rightarrow> expr \<Rightarrow> expr list \<Rightarrow> bool" where
  "skips_safely cfg hv pc a as \<longleftrightarrow> apart hv as \<or> (\<forall>\<rho>. pc \<rho> \<longrightarrow> (\<forall>x \<in> set as. acc cfg \<rho> x \<noteq> acc cfg \<rho> a))"

lemma fold_record_acc:
  assumes "\<forall>x \<in> set as \<union> set hist. addr_ok A x"
  shows "acc cfg \<rho> ` set (fold (record_access hv) as hist) = acc cfg \<rho> ` (set as \<union> set hist)"
  using assms
proof (induction as arbitrary: hist)
  case (Cons a as)
  have "acc cfg \<rho> a = acc cfg \<rho> b" if "b \<in> set hist" "compare hv a b = 0" for b
    using that Cons.prems same_key [of A a b hv \<rho>] by (simp add: acc_def)
  then have same: "acc cfg \<rho> ` set (record_access hv a hist) = insert (acc cfg \<rho> a) (acc cfg \<rho> ` set hist)"
    unfolding record_access_def by (auto simp: insert_absorb)
  have "set (record_access hv a hist) \<subseteq> insert a (set hist)" by (auto simp: record_access_def)
  with Cons.IH [of "record_access hv a hist"] Cons.prems same show ?case by (auto simp: image_Un)
qed simp

lemma still_cached_firsts:
  assumes "skips_safely cfg hv pc a as" "pc \<rho>" "cache_ok (cache_ways cfg) c" "\<forall>x \<in> set as. addr_ok A x"
  shows "still_cached cfg \<rho> a (firsts hv as) c \<longleftrightarrow> still_cached cfg \<rho> a as c"
proof (cases "apart hv as")
  case False
  have same: "acc cfg \<rho> ` set (firsts hv as) = acc cfg \<rho> ` set as"
    using fold_record_acc [of as "[]" A cfg \<rho> hv] assms(4) by (simp add: firsts_def)
  have "acc cfg \<rho> a \<notin> acc cfg \<rho> ` set as" using assms(1,2) False unfolding skips_safely_def by (metis imageE)
  then have "since (acc cfg \<rho> a) (map (acc cfg \<rho>) (firsts hv as)) {} = since (acc cfg \<rho> a) (map (acc cfg \<rho>) as) {}"
    by (simp add: since_no_reload same)
  then show ?thesis by (simp add: still_cached_iff [OF assms(3)])
qed (simp add: firsts_distinct)

text \<open>
  C10. The leaks the analysis records. Run a sequence of loads and stores from the empty
  cache state in which the sensitive addresses are pairwise different expressions (see C11) and no
  repeated address is skipped that could matter (see C12), and verify the result with a solver that answers
  False exactly for formulas that are false on all inputs of the path. As long as there is room in the
  constant cache of every target, the run and the verification return, and a line of the program
  is recorded exactly when it makes a sensitive access whose cache line is, on some input of the
  path, still in an LRU cache (of any earlier contents) after all the accesses the cache sees
  after it. Otherwise, when after some sensitive access the constant accesses have touched in every set as many
  lines as there are ways, the run is undefined: the loop over the targets goes on from the entry it has erased.
\<close>

theorem verify_leaks:
  assumes "cfg_ok cfg" "cache_set_size cfg \<le> CACHE_SET_SIZE" "0 < cache_ways cfg"
    and "\<forall>m \<in> set ms. addr_ok A (ma_addr m)" "length ms < 2 ^ 32"
    and "apart hv (filter getSensitive (map ma_addr (filter visible ms)))"
    and "\<And>pre m post. filter visible ms = pre @ m # post \<Longrightarrow> getSensitive (ma_addr m)
           \<Longrightarrow> skips_safely cfg hv pc (ma_addr m) (map ma_addr post)"
    and "\<And>e. evaluate e = Some VFalse \<longleftrightarrow> (\<forall>\<rho>. pc \<rho> \<longrightarrow> eval \<rho> e = 0)"
    and "cache_ok (cache_ways cfg) c"
  shows "if room cfg (filter visible ms)
    then returns (do { (cs, B) \<leftarrow> cs_run cfg hv ms new_CacheState empty_bufs;
                       verifyCacheSideChannel cfg hv evaluate cs Map.empty })
      (\<lambda>found. \<forall>L. found L \<noteq> None \<longleftrightarrow> (\<exists>m. leaks cfg pc (filter visible ms) m c \<and> ii_assemblyLine (ma_info m) = L))
    else cs_run cfg hv ms new_CacheState empty_bufs = None"
proof (cases "room cfg (filter visible ms)")
  case False
  with cs_run_defined [OF assms(1,2,4,3,6)] have "cs_run cfg hv ms new_CacheState empty_bufs = None" by blast
  with False show ?thesis by simp
next
  case room: True
  let ?vis = "filter visible ms"
  obtain cs B where run: "cs_run cfg hv ms new_CacheState empty_bufs = Some (cs, B)" "cs_inv A cfg hv ?vis cs"
    using cs_run_inv [OF assms(1,2,4,3) bufs_ok_empty cs_inv_new, of hv] assms(6) room by (auto split: option.splits)
  have verdict: "\<exists>e. cache_constr cfg hv t = Some e \<and>
      (evaluate e \<noteq> Some VFalse \<longleftrightarrow> (\<exists>\<rho>. pc \<rho> \<and> still_cached cfg \<rho> (ma_addr m) (map ma_addr post) c))"
    if t: "?vis = pre @ m # post" "target_ok A cfg hv m (map ma_addr post) t" for pre m post t
  proof -
    have "length ?vis = Suc (length pre + length post)" using t(1) by simp
    then have len: "length (map ma_addr post) < 2 ^ 32" using length_filter_le [of visible ms] assms(5) by simp
    have skip: "skips_safely cfg hv pc (ma_addr m) (map ma_addr post)"
      using assms(7) [OF t(1)] t(2) by (simp add: target_ok_def)
    have "set post \<subseteq> set ?vis" unfolding t(1) by auto
    then have addrs: "\<forall>x \<in> set (map ma_addr post). addr_ok A x" using assms(4) by auto
    obtain e where e: "cache_constr cfg hv t = Some e"
        "\<forall>\<rho>. eval \<rho> e = of_bool (still_cached cfg \<rho> (ma_addr m) (firsts hv (map ma_addr post)) c)"
      using target_verdict [OF assms(1) t(2) len assms(9)] by (elim returnsE)
    have "evaluate e \<noteq> Some VFalse \<longleftrightarrow> (\<exists>\<rho>. pc \<rho> \<and> still_cached cfg \<rho> (ma_addr m) (firsts hv (map ma_addr post)) c)"
      unfolding assms(8) using e(2) by simp
    also have "\<dots> \<longleftrightarrow> (\<exists>\<rho>. pc \<rho> \<and> still_cached cfg \<rho> (ma_addr m) (map ma_addr post) c)"
      using still_cached_firsts [OF skip _ assms(9) addrs] by blast
    finally show ?thesis using e(1) by blast
  qed
  have entry: "\<exists>pre m post t. ?vis = pre @ m # post \<and> p = (ma_addr m, Live t) \<and> target_ok A cfg hv m (map ma_addr post) t"
    if "p \<in> set (targets cs)" for p
    using run(2) that unfolding cs_inv_def entry_ok_def by blast
  have "\<forall>p \<in> set (targets cs). \<exists>t e. snd p = Live t \<and> cache_constr cfg hv t = Some e"
    using entry verdict by fastforce
  from verify_targets_ok [OF this, of evaluate Map.empty]
  obtain f where f: "verify_targets cfg hv evaluate (targets cs) Map.empty = Some f"
      "\<And>L. f L \<noteq> None \<longleftrightarrow> (\<exists>p \<in> set (targets cs). reported cfg hv evaluate L p)"
    by (auto simp: returns_iff)
  have "\<exists>m. leaks cfg pc ?vis m c \<and> ii_assemblyLine (ma_info m) = L"
    if p: "p \<in> set (targets cs)" "reported cfg hv evaluate L p" for L p
  proof -
    from entry [OF p(1)] obtain pre m post t where m: "?vis = pre @ m # post" "p = (ma_addr m, Live t)"
        "target_ok A cfg hv m (map ma_addr post) t" by blast
    with verdict [OF m(1,3)] p(2) show ?thesis by (auto simp: leaks_def target_ok_def reported_def)
  qed
  moreover have "\<exists>p \<in> set (targets cs). reported cfg hv evaluate (ii_assemblyLine (ma_info m)) p"
    if l: "leaks cfg pc ?vis m c" for m
  proof -
    from l obtain pre post where m: "?vis = pre @ m # post" "getSensitive (ma_addr m)"
        "\<exists>\<rho>. pc \<rho> \<and> still_cached cfg \<rho> (ma_addr m) (map ma_addr post) c"
      unfolding leaks_def by blast
    obtain t where t: "(ma_addr m, Live t) \<in> set (targets cs)" "target_ok A cfg hv m (map ma_addr post) t"
      using entry_of [OF run(2) assms(6) m(1,2)] .
    with verdict [OF m(1) t(2)] m(3) show ?thesis
      by (intro bexI [OF _ t(1)]) (auto simp: reported_def target_ok_def)
  qed
  ultimately have "\<forall>L. f L \<noteq> None \<longleftrightarrow> (\<exists>m. leaks cfg pc ?vis m c \<and> ii_assemblyLine (ma_info m) = L)"
    unfolding f(2) by blast
  then show ?thesis using room run(1) f(1) by (simp add: verifyCacheSideChannel_def)
qed

text \<open>The input of the witness: one load at a sensitive, symbolic address.\<close>

definition secret_addr :: expr where
  "secret_addr = ZExtExpr (ReadExpr True witness_array NullNode (ConstantExpr (CE 32 0))) 64"

definition secret_load :: mem_access where
  "secret_load = \<lparr>ma_store = False, ma_spec = True, ma_addr = secret_addr, ma_info = \<lparr>ii_file = ''f.c'', ii_line = 3, ii_assemblyLine = 12\<rparr>\<rparr>"

lemma secret_addr_ok: "addr_ok {witness_array} secret_addr" "getSensitive secret_addr"
  by (simp_all add: secret_addr_def addr_ok_def witness_array_def wf_array_def wf_const_def fits_def isSymbolicArray_def)

lemma default_config_ok [simp]: "cfg_ok default_config" "cache_set_size default_config \<le> CACHE_SET_SIZE"
    "cache_ways default_config = 2"
proof -
  have "(64::nat) = 2 ^ 6" "(256::nat) = 2 ^ 8" "(6::nat) < 31" "(8::nat) < 31" by simp_all
  then have "\<exists>l s. l < 31 \<and> s < 31 \<and> (64::nat) = 2 ^ l \<and> (256::nat) = 2 ^ s" by blast
  then show "cfg_ok default_config" by (simp add: cfg_ok_def default_config_def)
qed (simp_all add: default_config_def CACHE_SET_SIZE_def)

text \<open>A direct-mapped cache, and a run that touches every set of it after the secret.\<close>

definition one_way :: cache_config where
  "one_way = default_config\<lparr>cache_ways := 1\<rparr>"

definition plain_load :: "int \<Rightarrow> mem_access" where
  "plain_load v = secret_load\<lparr>ma_spec := False, ma_addr := ConstantExpr (CE 64 v)\<rparr>"

definition sweep :: "mem_access list" where
  "sweep = secret_load # map (\<lambda>i. plain_load (64 * int i)) [0..<CACHE_SET_SIZE]"

lemma one_way_ok: "cfg_ok one_way" "cache_set_size one_way \<le> CACHE_SET_SIZE" "cache_ways one_way = 1"
  using default_config_ok by (simp_all add: one_way_def cfg_ok_def)

lemma sweep_visible: "filter visible sweep = secret_load # tl sweep"
  using secret_addr_ok(2) by (auto simp: sweep_def plain_load_def secret_load_def visible_def filter_empty_conv filter_id_conv)

lemma sweep_tags: "tag_seen one_way (map ma_addr (tl sweep)) s 0" if "s < CACHE_SET_SIZE"
  unfolding tag_seen_def using that
  by (intro exI [of _ "CE 64 (64 * int s)"])
    (auto simp: sweep_def plain_load_def one_way_def default_config_def set_of_def tag_of_def CACHE_SET_SIZE_def)

lemma sweep_full: "\<not> room one_way (filter visible sweep)"
proof -
  have "\<not> card {tag. tag_seen one_way (map ma_addr (tl sweep)) s tag} < cache_ways one_way" if "s < CACHE_SET_SIZE" for s
    using sweep_tags [OF that] by (auto simp: one_way_ok(3) Suc_le_eq card_gt_0_iff)
  then have "\<not> has_room one_way (map ma_addr (tl sweep))" by (auto simp: has_room_def)
  moreover have "filter visible sweep = [] @ secret_load # tl sweep" by (simp add: sweep_visible)
  moreover have "getSensitive (ma_addr secret_load)" using secret_addr_ok(2) by (simp add: secret_load_def)
  ultimately show ?thesis unfolding room_def by blast
qed

theorem verify_leaks_witness:
  "returns (do { (cs, B) \<leftarrow> cs_run default_config (\<lambda>_ _. 0) [secret_load] new_CacheState empty_bufs;
                 verifyCacheSideChannel default_config (\<lambda>_ _. 0)
                   (\<lambda>e. if \<forall>\<rho>. eval \<rho> e = 0 then Some VFalse else Some VUnknown) cs Map.empty })
     (\<lambda>found. found 12 \<noteq> None)
   \<and> cs_run one_way (\<lambda>_ _. 0) sweep new_CacheState empty_bufs = None"
proof
  let ?ev = "\<lambda>e. if \<forall>\<rho>. eval \<rho> e = 0 then Some VFalse else Some VUnknown"
  have c: "cache_ok (cache_ways default_config) (\<lambda>_. [])" by (simp add: cache_ok_def)
  have l: "leaks default_config (\<lambda>_. True) [secret_load] secret_load (\<lambda>_. [])"
    using secret_addr_ok(2)
    by (auto simp: leaks_def still_cached_iff [OF c] secret_load_def Cons_eq_append_conv)
  have v: "filter visible [secret_load] = [secret_load]"
    using secret_addr_ok(2) by (simp add: visible_def secret_load_def)
  have ev: "?ev e = Some VFalse \<longleftrightarrow> (\<forall>\<rho>. True \<longrightarrow> eval \<rho> e = 0)" for e by simp
  have a: "\<forall>m \<in> set [secret_load]. addr_ok {witness_array} (ma_addr m)"
    using secret_addr_ok(1) by (simp add: secret_load_def)
  have d: "apart (\<lambda>_ _. 0) (filter getSensitive (map ma_addr (filter visible [secret_load])))"
    unfolding v by (simp add: apart_def)
  have r: "room default_config (filter visible [secret_load])"
    unfolding v by (auto simp: room_def Cons_eq_append_conv has_room_new)
  have s: "\<And>pre m post. filter visible [secret_load] = pre @ m # post \<Longrightarrow> getSensitive (ma_addr m)
      \<Longrightarrow> skips_safely default_config (\<lambda>_ _. 0) (\<lambda>_. True) (ma_addr m) (map ma_addr post)"
    unfolding v by (auto simp: skips_safely_def apart_def Cons_eq_append_conv)
  have n: "0 < cache_ways default_config" "length [secret_load] < 2 ^ 32" by simp_all
  have "ii_assemblyLine (ma_info secret_load) = 12" by (simp add: secret_load_def)
  with l have ex: "\<exists>m. leaks default_config (\<lambda>_. True) [secret_load] m (\<lambda>_. []) \<and> ii_assemblyLine (ma_info m) = 12"
    by blast
  note found = verify_leaks [OF default_config_ok(1,2) n(1) a n(2) d s ev c, unfolded if_P [OF r], unfolded v]
  show "returns (do { (cs, B) \<leftarrow> cs_run default_config (\<lambda>_ _. 0) [secret_load] new_CacheState empty_bufs;
      verifyCacheSideChannel default_config (\<lambda>_ _. 0) ?ev cs Map.empty }) (\<lambda>found. found 12 \<noteq> None)"
    by (rule returns_mono [OF found], assumption, assumption) (drule spec [of _ 12], rule iffD2, assumption, rule ex)
next
  have c: "cache_ok (cache_ways one_way) (\<lambda>_. [])" by (simp add: cache_ok_def)
  have a: "\<forall>m \<in> set sweep. addr_ok {witness_array} (ma_addr m)"
    using secret_addr_ok(1)
    by (auto simp: sweep_def plain_load_def secret_load_def addr_ok_def wf_const_def fits_def CACHE_SET_SIZE_def)
  have "filter getSensitive (map ma_addr (filter visible sweep)) = [secret_addr]"
    unfolding sweep_visible using secret_addr_ok(2)
    by (auto simp: sweep_def plain_load_def secret_load_def filter_empty_conv)
  then have d: "apart (\<lambda>_ _. 0) (filter getSensitive (map ma_addr (filter visible sweep)))"
    by (simp add: apart_def)
  have n: "0 < cache_ways one_way" "length sweep < 2 ^ 32"
    by (simp_all add: one_way_ok(3) sweep_def CACHE_SET_SIZE_def)
  have s: "skips_safely one_way (\<lambda>_ _. 0) (\<lambda>_. False) x xs" for x xs by (simp add: skips_safely_def)
  have ev: "Some VFalse = Some VFalse \<longleftrightarrow> (\<forall>\<rho>. False \<longrightarrow> eval \<rho> e = 0)" for e by simp
  show "cs_run one_way (\<lambda>_ _. 0) sweep new_CacheState empty_bufs = None"
    using verify_leaks [OF one_way_ok(1,2) n(1) a n(2) d s, where evaluate = "\<lambda>_. Some VFalse", OF ev c] sweep_full
    by (simp only: if_False)
qed

subsection \<open>The same sensitive address twice\<close>

text \<open>
  C11. A sensitive address that is accessed twice in a row. The second access deletes the target of the
  first one but leaves the pointer in the map, because \<^verbatim>\<open>insert\<close> does not replace an entry: the
  accesses themselves return, and from then on every further access to the cache that looks at the
  targets, and the verification, use a deleted object.
\<close>

theorem second_access_dangles:
  assumes "cfg_ok cfg" "cache_set_size cfg \<le> CACHE_SET_SIZE" "0 < cache_ways cfg"
    and "addr_ok A (ma_addr m)" "getSensitive (ma_addr m)" "\<not> ma_store m"
  shows "returns (cs_run cfg hv [m, m] new_CacheState empty_bufs)
    (\<lambda>(cs, B). (\<forall>evaluate found. verifyCacheSideChannel cfg hv evaluate cs found = None)
       \<and> (\<forall>n. visible n \<longrightarrow> cs_access cfg hv n cs B = None))"
proof -
  let ?t = "new_target (ma_addr m) (ma_info m)"
  have vis: "visible m" using assms(5,6) by (simp add: visible_def)
  have sym: "\<not> is_ConstantExpr (ma_addr m)" using assms(5) by (rule sensitive_symbolic)
  have cc: "cc_access cfg (ma_addr m) ConstantCache = Some ConstantCache"
    using sym by (cases "ma_addr m") (simp_all add: cc_access_def)
  have nf: "\<not> isFull ConstantCache" by (simp add: isFull_def ConstantCache_def CACHE_SET_SIZE_def)
  have first: "cs_access cfg hv m new_CacheState empty_bufs
      = Some (\<lparr>targets = [(ma_addr m, Live ?t)], cs_isSensitive = True\<rparr>, empty_bufs)"
    using assms(5,6) by (simp add: cs_access_def cs_load_def handleAccess_def new_CacheState_def add_sensitive_def)
  have inv: "target_inv A cfg hv (ma_addr m) [] ?t" by (rule target_inv_new)
  obtain t' B where step: "access_target cfg hv (ma_addr m) ?t empty_bufs = Some (Some t', B)"
    using access_target_ok [OF assms(1,2) bufs_ok_empty assms(4,4) sym inv] cc nf
    by (auto simp: returns_iff cc_ok_def ConstantCache_def new_target_def split: option.splits)
  have second: "cs_access cfg hv m \<lparr>targets = [(ma_addr m, Live ?t)], cs_isSensitive = True\<rparr> empty_bufs
      = Some (\<lparr>targets = [(ma_addr m, Freed)], cs_isSensitive = True\<rparr>, B)"
    using assms(5,6) step by (simp add: cs_access_def cs_load_def handleAccess_def add_sensitive_def)
  have "cs_access cfg hv n \<lparr>targets = [(ma_addr m, Freed)], cs_isSensitive = True\<rparr> B = None" if "visible n" for n
    using that by (auto simp: cs_access_def cs_load_def cs_store_def handleAccess_def visible_def)
  with first second show ?thesis by (simp add: verifyCacheSideChannel_def)
qed

theorem second_access_dangles_witness:
  "\<exists>cs B. cs_run default_config (\<lambda>_ _. 0) [secret_load, secret_load] new_CacheState empty_bufs = Some (cs, B)
     \<and> verifyCacheSideChannel default_config (\<lambda>_ _. 0) (\<lambda>_. None) cs Map.empty = None"
  using second_access_dangles [of default_config "{witness_array}" secret_load "\<lambda>_ _. 0"] secret_addr_ok
  by (auto simp: secret_load_def returns_iff simp del: cs_run.simps)

subsection \<open>The same address again\<close>

text \<open>The line of address 0, another line of the same set, and address 0 again.\<close>

definition reload_run :: "mem_access list" where
  "reload_run = [secret_load, plain_load 0, plain_load 16384, plain_load 0]"

lemma one_way_acc: "acc one_way \<rho> x = (eval \<rho> x div 64 mod 256, eval \<rho> x div 64)"
  by (simp add: acc_def set_of_def line_of_def one_way_def default_config_def)

definition all_bytes :: "int \<Rightarrow> env" where
  "all_bytes v = \<lparr>env_read = \<lambda>_ _. v, env_div0 = \<lambda>_ _ _. 0\<rparr>"

lemma secret_value: "eval (all_bytes v) secret_addr = take_bit 8 v"
  by (simp add: secret_addr_def all_bytes_def initial_read_def witness_array_def isConstantArray_def isSymbolicArray_def)

lemma reload_addrs: "map ma_addr reload_run = [secret_addr, ConstantExpr (CE 64 0), ConstantExpr (CE 64 16384), ConstantExpr (CE 64 0)]"
  by (simp add: reload_run_def plain_load_def secret_load_def)

lemma reload_visible: "filter visible reload_run = reload_run"
  using secret_addr_ok(2) by (simp add: reload_run_def plain_load_def secret_load_def visible_def)

lemma firsts_repeat:
  assumes "compare hv b a \<noteq> 0" "compare hv a a = 0"
  shows "firsts hv [a, b, a] = [a, b]"
  using assms by (simp add: firsts_def record_access_def)

lemma compare_consts: "compare hv (ConstantExpr c) (ConstantExpr d) = 0 \<longleftrightarrow> c = d"
  using compare_eq_0_iff [of "ConstantExpr c" "ConstantExpr d" hv] by (simp add: expr_eq_def)

lemma reload_split: "reload_run = pre @ m # post \<Longrightarrow> ma_addr m = secret_addr \<Longrightarrow> map ma_addr post = tl (map ma_addr reload_run)"
  by (auto simp: reload_run_def plain_load_def secret_load_def secret_addr_def Cons_eq_append_conv)

lemma reload_room: "room one_way reload_run"
proof -
  have "{tag. tag_seen one_way (map ma_addr post) 1 tag} = {}" if "reload_run = pre @ m # post" for pre m post
  proof -
    have "set (map ma_addr post) \<subseteq> set (map ma_addr reload_run)" unfolding that by auto
    then show ?thesis
      by (auto simp: tag_seen_def reload_addrs secret_addr_def set_of_def one_way_def default_config_def)
  qed
  then show ?thesis
    by (auto simp: room_def has_room_def one_way_ok(3) CACHE_SET_SIZE_def intro!: exI [of _ 1])
qed

text \<open>
  C12. A leak that is missed. In a direct-mapped cache, load a secret-dependent address, the line of
  address 0, another line of that set, and address 0 again. On the input that makes the secret address
  0 the last access brings its line back, so the line is cached at the end, but the formula is false
  there: a repeated address is skipped before the reload constraints are updated.
\<close>

theorem repeated_access_missed:
  "returns (cs_run one_way hv reload_run new_CacheState empty_bufs) (\<lambda>(cs, B).
     \<exists>t e. (secret_addr, Live t) \<in> set (targets cs) \<and> cache_constr one_way hv t = Some e
       \<and> eval (all_bytes 0) e = 0
       \<and> still_cached one_way (all_bytes 0) secret_addr (tl (map ma_addr reload_run)) (\<lambda>_. []))"
proof -
  have c: "cache_ok (cache_ways one_way) (\<lambda>_. [])" by (simp add: cache_ok_def)
  note sc = still_cached_iff [OF c, unfolded one_way_ok(3)]
  have addrs: "\<forall>m \<in> set reload_run. addr_ok {witness_array} (ma_addr m)"
    using secret_addr_ok(1)
    by (auto simp: reload_run_def plain_load_def secret_load_def addr_ok_def wf_const_def fits_def)
  have sens: "filter getSensitive (map ma_addr reload_run) = [secret_addr]"
    using secret_addr_ok(2) by (simp add: reload_addrs)
  obtain cs B where run: "cs_run one_way hv reload_run new_CacheState empty_bufs = Some (cs, B)"
      "cs_inv {witness_array} one_way hv reload_run cs"
    using cs_run_inv [OF one_way_ok(1,2) addrs _ bufs_ok_empty cs_inv_new, of hv] sens reload_room
    by (auto simp: one_way_ok(3) reload_visible apart_def split: option.splits)
  have "secret_load \<in> set reload_run" "ma_addr secret_load = secret_addr"
    by (simp_all add: reload_run_def secret_load_def)
  then have "secret_addr \<in> fst ` set (targets cs)"
    using run(2) secret_addr_ok(2) unfolding cs_inv_def by metis
  then obtain p where p: "p \<in> set (targets cs)" "fst p = secret_addr" by (rule imageE) simp
  with run(2) obtain pre m post t where t: "reload_run = pre @ m # post" "p = (secret_addr, Live t)"
      "ma_addr m = secret_addr" "target_ok {witness_array} one_way hv m (map ma_addr post) t"
    unfolding cs_inv_def entry_ok_def by (metis fst_conv)
  have post: "map ma_addr post = [ConstantExpr (CE 64 0), ConstantExpr (CE 64 16384), ConstantExpr (CE 64 0)]"
    using reload_split [OF t(1,3)] by (simp add: reload_addrs)
  have firsts: "firsts hv (map ma_addr post) = [ConstantExpr (CE 64 0), ConstantExpr (CE 64 16384)]"
    unfolding post by (rule firsts_repeat) (simp_all add: compare_consts)
  obtain e where e: "cache_constr one_way hv t = Some e"
      "\<And>\<rho>. eval \<rho> e = of_bool (still_cached one_way \<rho> secret_addr [ConstantExpr (CE 64 0), ConstantExpr (CE 64 16384)] (\<lambda>_. []))"
    using target_verdict [OF one_way_ok(1) t(4) _ c] unfolding firsts t(3) by (auto simp: post returns_iff)
  have "\<not> still_cached one_way (all_bytes 0) secret_addr [ConstantExpr (CE 64 0), ConstantExpr (CE 64 16384)] (\<lambda>_. [])"
    "still_cached one_way (all_bytes 0) secret_addr (tl (map ma_addr reload_run)) (\<lambda>_. [])"
    by (simp_all add: sc one_way_acc secret_value reload_addrs)
  with run(1) p(1) t(2) e show ?thesis by auto
qed

end
