(* ===== verification/SpectreRecorder.thy ===== *)
theory SpectreRecorder
  imports Prelude
begin

text \<open>
  \<^verbatim>\<open>lib/Core/SpectreRecorder.h\<close> and \<^verbatim>\<open>SpectreRecorder.cpp\<close>: the report of the Spectre detection. For
  every branch (\<^verbatim>\<open>BR\<close>) under which a speculative out-of-bounds read (\<^verbatim>\<open>RS\<close>) happened, the recorder
  keeps the reads and the accesses whose address depends on them (\<^verbatim>\<open>LS\<close>).

  Records are heap objects: \<^verbatim>\<open>tempRecord\<close> and the map \<^verbatim>\<open>recordObjects\<close> share them, so the state has
  a heap of records and both hold indices into it. An \<^verbatim>\<open>InstructionInfo *\<close> is a number; the function
  \<open>asm\<close> gives the assembly line of the object it points to.

  The recorder refines a small specification (\<open>spec_step\<close>): the branch of the last \<open>recordBR\<close>, and for
  every branch the set of reads recorded under it.
\<close>

type_synonym iptr = nat

datatype LeakageKind = inExpression | inConstraint

record leakage_info =
  li_ls :: iptr
  li_kind :: LeakageKind
  li_isConst :: bool
  li_isMarkedSecret :: bool

record spectre_record =
  sr_br :: "iptr option"
  sr_isUserControlled :: bool
  sr_ii :: "iptr set"
  sr_rs :: "leakage_info list"
  sr_ls :: "leakage_info list"
  sr_ls_cache :: "iptr set"

definition SpectreRecord :: spectre_record where
  "SpectreRecord = \<lparr>sr_br = None, sr_isUserControlled = False, sr_ii = {}, sr_rs = [], sr_ls = [], sr_ls_cache = {}\<rparr>"

record spectre_recorder =
  sr_heap :: "spectre_record list"
  recordObjects :: "iptr \<rightharpoonup> nat"
  tempRecord :: "nat option"
  ls_asm_lines :: "nat set"

definition new_SpectreRecorder :: spectre_recorder where
  "new_SpectreRecorder = \<lparr>sr_heap = [], recordObjects = Map.empty, tempRecord = None, ls_asm_lines = {}\<rparr>"

subsection \<open>Operations\<close>

text \<open>The end of \<^verbatim>\<open>recordBR\<close>: an existing record of the branch, or a new one. The argument
  \<^verbatim>\<open>isUserControlled\<close> does not reach the new record.\<close>

definition recordBR_new :: "iptr \<Rightarrow> spectre_recorder \<Rightarrow> spectre_recorder" where
  "recordBR_new br S =
     (case recordObjects S br of
        Some r \<Rightarrow> S\<lparr>tempRecord := Some r\<rparr>
      | None \<Rightarrow> S\<lparr>tempRecord := Some (length (sr_heap S)), sr_heap := sr_heap S @ [SpectreRecord\<lparr>sr_br := Some br\<rparr>]\<rparr>)"

definition recordBR :: "iptr \<Rightarrow> bool \<Rightarrow> spectre_recorder \<Rightarrow> spectre_recorder option" where
  "recordBR br isUserControlled S =
     (case tempRecord S of
        None \<Rightarrow> Some (recordBR_new br S)
      | Some t \<Rightarrow>
          let r = sr_heap S ! t in
          if sr_br r = Some br then Some S
          else (case recordObjects S br of
              Some r' \<Rightarrow> do { assert_that (sr_br (sr_heap S ! r') = Some br); Some (S\<lparr>tempRecord := Some r'\<rparr>) }
            | None \<Rightarrow>
                if sr_rs r = []
                then Some (S\<lparr>sr_heap := (sr_heap S)[t := r\<lparr>sr_br := Some br, sr_isUserControlled := isUserControlled\<rparr>]\<rparr>)
                else Some (recordBR_new br S)))"

definition recordRS :: "iptr \<Rightarrow> bool \<Rightarrow> bool \<Rightarrow> spectre_recorder \<Rightarrow> spectre_recorder option" where
  "recordRS rs isConst isSecret S =
     do { t \<leftarrow> tempRecord S;
          let r = sr_heap S ! t in
          do { br \<leftarrow> sr_br r;
               if rs \<in> sr_ii r then Some S
               else
                 let S = (if sr_rs r = [] \<and> recordObjects S br = None
                          then S\<lparr>recordObjects := (recordObjects S)(br \<mapsto> t)\<rparr> else S) in
                 if length (sr_rs r) < 10000000
                 then Some (S\<lparr>sr_heap := (sr_heap S)[t := r\<lparr>
                        sr_rs := \<lparr>li_ls = rs, li_kind = inExpression, li_isConst = isConst, li_isMarkedSecret = isSecret\<rparr> # sr_rs r,
                        sr_ii := insert rs (sr_ii r)\<rparr>]\<rparr>)
                 else Some S } }"

definition recordLS :: "(iptr \<Rightarrow> nat) \<Rightarrow> iptr \<Rightarrow> LeakageKind \<Rightarrow> bool \<Rightarrow> spectre_recorder \<Rightarrow> spectre_recorder option" where
  "recordLS asm ls lk isConst S =
     do { t \<leftarrow> tempRecord S;
          let r = sr_heap S ! t in
          do { br \<leftarrow> sr_br r;
               if asm ls \<in> ls_asm_lines S then Some S
               else
                 let S = S\<lparr>ls_asm_lines := insert (asm ls) (ls_asm_lines S)\<rparr> in
                 if ls \<in> sr_ls_cache r then Some S
                 else Some (S\<lparr>sr_heap := (sr_heap S)[t := r\<lparr>
                        sr_ls_cache := insert ls (sr_ls_cache r),
                        sr_ls := \<lparr>li_ls = ls, li_kind = lk, li_isConst = isConst, li_isMarkedSecret = False\<rparr> # sr_ls r\<rparr>]\<rparr>) } }"

text \<open>The calls of a run.\<close>

datatype sr_call = BR iptr bool | RS iptr bool bool | LS iptr LeakageKind bool

fun sr_step :: "(iptr \<Rightarrow> nat) \<Rightarrow> sr_call \<Rightarrow> spectre_recorder \<Rightarrow> spectre_recorder option" where
  "sr_step asm (BR br u) S = recordBR br u S"
| "sr_step asm (RS rs c s) S = recordRS rs c s S"
| "sr_step asm (LS ls k c) S = recordLS asm ls k c S"

subsection \<open>Specification\<close>

text \<open>The current branch, the reads of every branch and the lines that leak.\<close>

record sr_spec =
  cur_br :: "iptr option"
  reads :: "iptr \<Rightarrow> iptr set"
  leak_lines :: "nat set"

fun spec_step :: "(iptr \<Rightarrow> nat) \<Rightarrow> sr_call \<Rightarrow> sr_spec \<Rightarrow> sr_spec" where
  "spec_step asm (BR br u) A = A\<lparr>cur_br := Some br\<rparr>"
| "spec_step asm (RS rs c s) A =
     (case cur_br A of Some b \<Rightarrow> A\<lparr>reads := (reads A)(b := insert rs (reads A b))\<rparr> | None \<Rightarrow> A)"
| "spec_step asm (LS ls k c) A = A\<lparr>leak_lines := insert (asm ls) (leak_lines A)\<rparr>"

definition empty_spec :: sr_spec where
  "empty_spec = \<lparr>cur_br = None, reads = \<lambda>_. {}, leak_lines = {}\<rparr>"

definition abs_rec :: "spectre_recorder \<Rightarrow> sr_spec" where
  "abs_rec S = \<lparr>cur_br = (case tempRecord S of Some t \<Rightarrow> sr_br (sr_heap S ! t) | None \<Rightarrow> None),
     reads = (\<lambda>b. case recordObjects S b of Some r \<Rightarrow> sr_ii (sr_heap S ! r) | None \<Rightarrow> {}),
     leak_lines = ls_asm_lines S\<rparr>"

text \<open>
  The invariant after at most \<open>n\<close> calls: a record is in the map exactly when it has a read, under its
  own branch; the sets mirror the lists; every leaking line is reported once.
\<close>

definition rec_ok :: "nat \<Rightarrow> spectre_record \<Rightarrow> bool" where
  "rec_ok n r \<longleftrightarrow> sr_ii r = li_ls ` set (sr_rs r) \<and> distinct (map li_ls (sr_rs r)) \<and> length (sr_rs r) \<le> n
     \<and> sr_ls_cache r = li_ls ` set (sr_ls r)"

definition leaks_of :: "spectre_recorder \<Rightarrow> iptr list" where
  "leaks_of S = concat (map (\<lambda>r. map li_ls (sr_ls r)) (sr_heap S))"

definition sr_inv :: "(iptr \<Rightarrow> nat) \<Rightarrow> nat \<Rightarrow> spectre_recorder \<Rightarrow> bool" where
  "sr_inv asm n S \<longleftrightarrow> (\<forall>r \<in> set (sr_heap S). rec_ok n r)
     \<and> (\<forall>b r. recordObjects S b = Some r \<longrightarrow> r < length (sr_heap S) \<and> sr_br (sr_heap S ! r) = Some b \<and> sr_rs (sr_heap S ! r) \<noteq> [])
     \<and> (\<forall>t. tempRecord S = Some t \<longrightarrow> t < length (sr_heap S) \<and> (\<exists>b. sr_br (sr_heap S ! t) = Some b
          \<and> recordObjects S b = (if sr_rs (sr_heap S ! t) = [] then None else Some t)))
     \<and> distinct (map asm (leaks_of S)) \<and> asm ` set (leaks_of S) = ls_asm_lines S"

lemma sr_inv_new: "sr_inv asm n new_SpectreRecorder"
  by (simp add: sr_inv_def new_SpectreRecorder_def leaks_of_def)

subsection \<open>Refinement\<close>

lemma leaks_of_update:
  assumes "t < length (sr_heap S)"
  obtains xs ys where "leaks_of S = xs @ map li_ls (sr_ls (sr_heap S ! t)) @ ys"
    "\<And>r. leaks_of (S\<lparr>sr_heap := (sr_heap S)[t := r]\<rparr>) = xs @ map li_ls (sr_ls r) @ ys"
proof -
  let ?f = "\<lambda>rs. concat (map (\<lambda>r. map li_ls (sr_ls r)) rs)"
  have "leaks_of S = ?f (take t (sr_heap S) @ sr_heap S ! t # drop (Suc t) (sr_heap S))"
    unfolding leaks_of_def using id_take_nth_drop [OF assms] by simp
  moreover have "leaks_of (S\<lparr>sr_heap := (sr_heap S)[t := r]\<rparr>) = ?f (take t (sr_heap S) @ r # drop (Suc t) (sr_heap S))" for r
    unfolding leaks_of_def using upd_conv_take_nth_drop [OF assms, of r] by simp
  ultimately show thesis using that [of "?f (take t (sr_heap S))" "?f (drop (Suc t) (sr_heap S))"] by simp
qed

lemma leaks_of_same:
  assumes "t < length (sr_heap S)" "sr_ls r = sr_ls (sr_heap S ! t)"
  shows "leaks_of (S\<lparr>sr_heap := (sr_heap S)[t := r]\<rparr>) = leaks_of S"
  using leaks_of_update [OF assms(1)] assms(2) by metis

lemma leaks_of_simps [simp]:
  "leaks_of (S\<lparr>tempRecord := t\<rparr>) = leaks_of S" "leaks_of (S\<lparr>recordObjects := m\<rparr>) = leaks_of S"
  "leaks_of (S\<lparr>ls_asm_lines := L\<rparr>) = leaks_of S"
  by (simp_all add: leaks_of_def)

lemma rec_ok_mono: "rec_ok n r \<Longrightarrow> n \<le> m \<Longrightarrow> rec_ok m r"
  by (auto simp: rec_ok_def)

lemma heap_update_ok:
  "\<forall>r \<in> set rs. rec_ok n r \<Longrightarrow> rec_ok m r' \<Longrightarrow> n \<le> m \<Longrightarrow> \<forall>r \<in> set (rs[t := r']). rec_ok m r"
  using set_update_subset_insert [of rs t r'] rec_ok_mono by blast

text \<open>The parts of the invariant one step at a time.\<close>

lemma recordBR_new_inv:
  assumes "sr_inv asm n S"
  shows "sr_inv asm n (recordBR_new br S) \<and> abs_rec (recordBR_new br S) = (abs_rec S)\<lparr>cur_br := Some br\<rparr>"
proof (cases "recordObjects S br")
  case None
  then show ?thesis using assms
    by (auto simp: recordBR_new_def sr_inv_def abs_rec_def leaks_of_def SpectreRecord_def rec_ok_def nth_append
        less_Suc_eq fun_eq_iff split: option.split)
next
  case (Some r)
  then show ?thesis using assms
    by (auto simp: recordBR_new_def sr_inv_def abs_rec_def cong: option.case_cong)
qed

lemma recordBR_ok:
  assumes "sr_inv asm n S"
  shows "returns (recordBR br u S) (\<lambda>S'. sr_inv asm n S' \<and> abs_rec S' = (abs_rec S)\<lparr>cur_br := Some br\<rparr>)"
proof (cases "tempRecord S")
  case None
  then show ?thesis using recordBR_new_inv [OF assms] by (simp add: recordBR_def)
next
  case (Some t)
  let ?r = "sr_heap S ! t"
  obtain b where t: "t < length (sr_heap S)" "sr_br ?r = Some b" "recordObjects S b = (if sr_rs ?r = [] then None else Some t)"
    using assms Some unfolding sr_inv_def by blast
  consider (same) "b = br" | (old) r where "b \<noteq> br" "recordObjects S br = Some r"
    | (reuse) "b \<noteq> br" "recordObjects S br = None" "sr_rs ?r = []" | (fresh) "b \<noteq> br" "recordObjects S br = None" "sr_rs ?r \<noteq> []"
    by (cases "recordObjects S br") auto
  then show ?thesis
  proof cases
    case same
    with assms Some t(2) show ?thesis by (simp add: recordBR_def) (simp add: abs_rec_def)
  next
    case (old r)
    then have r: "r < length (sr_heap S)" "sr_br (sr_heap S ! r) = Some br" "sr_rs (sr_heap S ! r) \<noteq> []"
      using assms unfolding sr_inv_def by blast+
    have "sr_inv asm n (S\<lparr>tempRecord := Some r\<rparr>)"
      using assms r old(2) unfolding sr_inv_def by simp
    with old Some t r show ?thesis by (simp add: recordBR_def abs_rec_def cong: option.case_cong)
  next
    case reuse
    let ?S = "S\<lparr>sr_heap := (sr_heap S)[t := ?r\<lparr>sr_br := Some br, sr_isUserControlled := u\<rparr>]\<rparr>"
    have other: "recordObjects S b' \<noteq> Some t" for b'
      using assms reuse(3) unfolding sr_inv_def by blast
    have ok: "\<forall>r \<in> set (sr_heap S). rec_ok n r" using assms unfolding sr_inv_def by blast
    then have "rec_ok n ?r" using t(1) by simp
    then have "rec_ok n (?r\<lparr>sr_br := Some br, sr_isUserControlled := u\<rparr>)" by (simp add: rec_ok_def)
    from heap_update_ok [OF ok this order_refl, of t] have recs: "\<forall>r \<in> set (sr_heap ?S). rec_ok n r" by simp
    have lk: "leaks_of ?S = leaks_of S" using t(1) by (intro leaks_of_same) simp_all
    have lines: "distinct (map asm (leaks_of S))" "asm ` set (leaks_of S) = ls_asm_lines S"
      using assms unfolding sr_inv_def by blast+
    have objs: "r < length (sr_heap ?S) \<and> sr_br (sr_heap ?S ! r) = Some b' \<and> sr_rs (sr_heap ?S ! r) \<noteq> []"
      if "recordObjects S b' = Some r" for b' r
    proof -
      from that other have "r \<noteq> t" by blast
      with that assms show ?thesis unfolding sr_inv_def by (metis (no_types, lifting) length_list_update nth_list_update_neq
            spectre_recorder.select_convs(1) spectre_recorder.surjective spectre_recorder.update_convs(1))
    qed
    have "sr_inv asm n ?S"
      unfolding sr_inv_def lk using recs objs t(1) reuse(2,3) Some lines by simp
    moreover have "abs_rec ?S = (abs_rec S)\<lparr>cur_br := Some br\<rparr>"
      using other t(1) Some by (auto simp: abs_rec_def fun_eq_iff nth_list_update split: option.split)
    ultimately show ?thesis using reuse Some t by (simp add: recordBR_def Let_def)
  next
    case fresh
    with Some t show ?thesis using recordBR_new_inv [OF assms] by (simp add: recordBR_def Let_def)
  qed
qed

lemma sr_inv_mono: "sr_inv asm n S \<Longrightarrow> n \<le> m \<Longrightarrow> sr_inv asm m S"
  using rec_ok_mono [of n _ m] unfolding sr_inv_def by simp

lemma sr_inv_temp:
  assumes "sr_inv asm n S" "tempRecord S = Some t"
  obtains b where "t < length (sr_heap S)" "sr_br (sr_heap S ! t) = Some b"
    "recordObjects S b = (if sr_rs (sr_heap S ! t) = [] then None else Some t)" "rec_ok n (sr_heap S ! t)"
proof -
  from assms obtain b where "t < length (sr_heap S)" "sr_br (sr_heap S ! t) = Some b"
    "recordObjects S b = (if sr_rs (sr_heap S ! t) = [] then None else Some t)"
    unfolding sr_inv_def by blast
  moreover from assms(1) this(1) have "rec_ok n (sr_heap S ! t)" unfolding sr_inv_def by simp
  ultimately show thesis by (rule that)
qed

lemma recordRS_ok:
  assumes inv: "sr_inv asm n S" and tmp: "tempRecord S = Some t" and n: "n < 10000000"
  shows "returns (recordRS rs c s S) (\<lambda>S'. sr_inv asm (Suc n) S' \<and> abs_rec S' = spec_step asm (RS rs c s) (abs_rec S)
    \<and> tempRecord S' \<noteq> None)"
proof -
  let ?r = "sr_heap S ! t"
  obtain b where t: "t < length (sr_heap S)" "sr_br ?r = Some b"
      "recordObjects S b = (if sr_rs ?r = [] then None else Some t)" "rec_ok n ?r"
    using sr_inv_temp [OF inv tmp] by blast
  have cur: "cur_br (abs_rec S) = Some b" using tmp t(2) by (simp add: abs_rec_def)
  show ?thesis
  proof (cases "rs \<in> sr_ii ?r")
    case True
    with t(4) have "sr_rs ?r \<noteq> []" by (auto simp: rec_ok_def)
    with t(3) True have "reads (abs_rec S) b = insert rs (reads (abs_rec S) b)" by (auto simp: abs_rec_def)
    then have "spec_step asm (RS rs c s) (abs_rec S) = abs_rec S" using cur by simp
    with True tmp t(2) sr_inv_mono [OF inv, of "Suc n"] show ?thesis by (simp add: recordRS_def)
  next
    case False
    let ?new = "?r\<lparr>sr_rs := \<lparr>li_ls = rs, li_kind = inExpression, li_isConst = c, li_isMarkedSecret = s\<rparr> # sr_rs ?r, sr_ii := insert rs (sr_ii ?r)\<rparr>"
    let ?S = "S\<lparr>recordObjects := (recordObjects S)(b \<mapsto> t), sr_heap := (sr_heap S)[t := ?new]\<rparr>"
    have len: "length (sr_rs ?r) < 10000000" using t(4) n by (simp add: rec_ok_def)
    have objs: "(recordObjects S)(b \<mapsto> t) = (if sr_rs ?r = [] \<and> recordObjects S b = None then (recordObjects S)(b \<mapsto> t) else recordObjects S)"
      using t(3) by (auto simp: fun_eq_iff)
    have run: "recordRS rs c s S = Some ?S"
      using tmp t(2) False len objs by (simp add: recordRS_def Let_def) (auto simp: t(3))
    have other: "r \<noteq> t" if "recordObjects S b' = Some r" "b' \<noteq> b" for b' r
      using inv that t(2) unfolding sr_inv_def by fastforce
    have ok: "\<forall>r \<in> set (sr_heap S). rec_ok n r" using inv unfolding sr_inv_def by blast
    have "rec_ok (Suc n) ?new" using t(4) False by (auto simp: rec_ok_def)
    from heap_update_ok [OF ok this, of t] have recs: "\<forall>r \<in> set (sr_heap ?S). rec_ok (Suc n) r" by simp
    have "leaks_of (S\<lparr>sr_heap := (sr_heap S)[t := ?new]\<rparr>) = leaks_of S" using t(1) by (intro leaks_of_same) simp_all
    then have lk: "leaks_of ?S = leaks_of S" by (simp add: leaks_of_def)
    have lines: "distinct (map asm (leaks_of S))" "asm ` set (leaks_of S) = ls_asm_lines S"
      using inv unfolding sr_inv_def by blast+
    have old: "r < length (sr_heap S) \<and> sr_br (sr_heap S ! r) = Some b' \<and> sr_rs (sr_heap S ! r) \<noteq> []"
      if "recordObjects S b' = Some r" for b' r using inv that unfolding sr_inv_def by blast
    have "r < length (sr_heap ?S) \<and> sr_br (sr_heap ?S ! r) = Some b' \<and> sr_rs (sr_heap ?S ! r) \<noteq> []"
      if "recordObjects ?S b' = Some r" for b' r
      using that t(1,2) old [of b' r] other [of b' r] by (auto simp: nth_list_update split: if_splits)
    then have "sr_inv asm (Suc n) ?S"
      unfolding sr_inv_def lk using recs t(1,2) tmp lines by simp
    moreover have "abs_rec ?S = spec_step asm (RS rs c s) (abs_rec S)"
    proof -
      have "reads (abs_rec ?S) b' = (if b' = b then insert rs (reads (abs_rec S) b) else reads (abs_rec S) b')" for b'
      proof (cases "b' = b")
        case True
        have "reads (abs_rec S) b = sr_ii ?r" using t(3,4) by (simp add: abs_rec_def rec_ok_def)
        with True t(1) show ?thesis by (simp add: abs_rec_def)
      next
        case False
        with other [of b'] show ?thesis by (auto simp: abs_rec_def nth_list_update split: option.split)
      qed
      then have "reads (abs_rec ?S) = (reads (abs_rec S))(b := insert rs (reads (abs_rec S) b))" by (simp add: fun_eq_iff)
      with tmp t(1,2) cur show ?thesis by (simp add: abs_rec_def)
    qed
    ultimately show ?thesis using run tmp by simp
  qed
qed

lemma recordLS_ok:
  assumes inv: "sr_inv asm n S" and tmp: "tempRecord S = Some t"
  shows "returns (recordLS asm ls k c S) (\<lambda>S'. sr_inv asm n S' \<and> abs_rec S' = spec_step asm (LS ls k c) (abs_rec S)
    \<and> tempRecord S' \<noteq> None)"
proof -
  let ?r = "sr_heap S ! t"
  obtain b where t: "t < length (sr_heap S)" "sr_br ?r = Some b"
      "recordObjects S b = (if sr_rs ?r = [] then None else Some t)" "rec_ok n ?r"
    using sr_inv_temp [OF inv tmp] by blast
  have lines: "distinct (map asm (leaks_of S))" "asm ` set (leaks_of S) = ls_asm_lines S"
    using inv unfolding sr_inv_def by blast+
  show ?thesis
  proof (cases "asm ls \<in> ls_asm_lines S")
    case True
    then show ?thesis using tmp t(2) inv by (auto simp: recordLS_def Let_def abs_rec_def)
  next
    case False
    obtain xs ys where lk: "leaks_of S = xs @ map li_ls (sr_ls ?r) @ ys"
        "\<And>r. leaks_of (S\<lparr>sr_heap := (sr_heap S)[t := r]\<rparr>) = xs @ map li_ls (sr_ls r) @ ys"
      using leaks_of_update [OF t(1)] by metis
    have new: "ls \<notin> sr_ls_cache ?r" using False lines(2) t(4) by (auto simp: lk rec_ok_def)
    let ?new = "?r\<lparr>sr_ls_cache := insert ls (sr_ls_cache ?r), sr_ls := \<lparr>li_ls = ls, li_kind = k, li_isConst = c, li_isMarkedSecret = False\<rparr> # sr_ls ?r\<rparr>"
    let ?S = "S\<lparr>ls_asm_lines := insert (asm ls) (ls_asm_lines S), sr_heap := (sr_heap S)[t := ?new]\<rparr>"
    have run: "recordLS asm ls k c S = Some ?S"
      using tmp t(2) False new by (simp add: recordLS_def Let_def)
    have "leaks_of ?S = leaks_of (S\<lparr>sr_heap := (sr_heap S)[t := ?new]\<rparr>)" by (simp add: leaks_of_def)
    then have lk': "leaks_of ?S = xs @ (ls # map li_ls (sr_ls ?r)) @ ys" by (simp add: lk(2))
    have lines': "distinct (map asm (leaks_of ?S))" "asm ` set (leaks_of ?S) = insert (asm ls) (ls_asm_lines S)"
      using lines False unfolding lk' lk(1) by auto
    have ok: "\<forall>r \<in> set (sr_heap S). rec_ok n r" using inv unfolding sr_inv_def by blast
    have "rec_ok n ?new" using t(4) by (auto simp: rec_ok_def)
    from heap_update_ok [OF ok this, of t] have recs: "\<forall>r \<in> set (sr_heap ?S). rec_ok n r" by simp
    have same: "sr_br (sr_heap ?S ! i) = sr_br (sr_heap S ! i)" "sr_rs (sr_heap ?S ! i) = sr_rs (sr_heap S ! i)"
        "sr_ii (sr_heap ?S ! i) = sr_ii (sr_heap S ! i)" for i
      using t(1) by (cases "i = t"; simp)+
    have "sr_inv asm n ?S"
      using inv recs lines' unfolding sr_inv_def same by simp
    moreover have "abs_rec ?S = spec_step asm (LS ls k c) (abs_rec S)"
      unfolding abs_rec_def same by (simp add: same cong: option.case_cong)
    ultimately show ?thesis using run tmp by simp
  qed
qed

fun sr_run :: "(iptr \<Rightarrow> nat) \<Rightarrow> sr_call list \<Rightarrow> spectre_recorder \<Rightarrow> spectre_recorder option" where
  "sr_run asm [] S = Some S"
| "sr_run asm (e # es) S = sr_step asm e S \<bind> sr_run asm es"

lemma sr_step_ok:
  assumes "sr_inv asm n S" "n < 10000000" "tempRecord S \<noteq> None \<or> (\<exists>b u. e = BR b u)"
  shows "returns (sr_step asm e S) (\<lambda>S'. sr_inv asm (Suc n) S' \<and> abs_rec S' = spec_step asm e (abs_rec S) \<and> tempRecord S' \<noteq> None)"
proof (cases e)
  case (BR b u)
  have "cur_br (abs_rec S') = Some b \<Longrightarrow> tempRecord S' \<noteq> None" for S' by (auto simp: abs_rec_def split: option.splits)
  then show ?thesis using recordBR_ok [OF assms(1), of b u] sr_inv_mono [of asm n _ "Suc n"] BR
    by (auto elim!: returns_mono)
next
  case (RS rs c s)
  with assms recordRS_ok [OF assms(1) _ assms(2)] show ?thesis by auto
next
  case (LS ls k c)
  with assms recordLS_ok [OF assms(1)] sr_inv_mono [of asm n _ "Suc n"] show ?thesis by (force elim!: returns_mono)
qed

lemma sr_run_ok:
  assumes "sr_inv asm n S" "n + length es \<le> 10000000" "tempRecord S \<noteq> None \<or> es = [] \<or> (\<exists>b u. hd es = BR b u)"
  shows "returns (sr_run asm es S) (\<lambda>S'. sr_inv asm (n + length es) S' \<and> abs_rec S' = fold (spec_step asm) es (abs_rec S))"
  using assms
proof (induction es arbitrary: S n)
  case (Cons e es)
  have "n < 10000000" "tempRecord S \<noteq> None \<or> (\<exists>b u. e = BR b u)" using Cons.prems by simp_all
  from sr_step_ok [OF Cons.prems(1) this] obtain S' where S': "sr_step asm e S = Some S'" "sr_inv asm (Suc n) S'"
      "abs_rec S' = spec_step asm e (abs_rec S)" "tempRecord S' \<noteq> None"
    by (auto simp: returns_iff)
  with Cons.IH [OF S'(2)] Cons.prems(2) show ?case by simp
qed simp

text \<open>
  C13. The recorder implements its specification. A run of calls that starts with a branch, up to ten
  million calls, fails no assertion. Afterwards the recorded branches are exactly those under which a
  read was recorded, each with exactly its reads, every read once; and every assembly line of a
  leaking access is recorded once.
\<close>

theorem recorder_refines:
  assumes "length es \<le> 10000000" "\<exists>b u. hd es = BR b u"
  shows "\<exists>S. sr_run asm es new_SpectreRecorder = Some S
    \<and> (\<forall>b. recordObjects S b \<noteq> None \<longleftrightarrow> reads (fold (spec_step asm) es empty_spec) b \<noteq> {})
    \<and> (\<forall>b r. recordObjects S b = Some r \<longrightarrow> sr_br (sr_heap S ! r) = Some b
         \<and> distinct (map li_ls (sr_rs (sr_heap S ! r)))
         \<and> li_ls ` set (sr_rs (sr_heap S ! r)) = reads (fold (spec_step asm) es empty_spec) b)
    \<and> distinct (map asm (leaks_of S)) \<and> asm ` set (leaks_of S) = leak_lines (fold (spec_step asm) es empty_spec)"
proof -
  have new: "abs_rec new_SpectreRecorder = empty_spec"
    by (simp add: abs_rec_def new_SpectreRecorder_def empty_spec_def)
  from sr_run_ok [OF sr_inv_new, of 0 es asm] assms obtain S where S: "sr_run asm es new_SpectreRecorder = Some S"
      "sr_inv asm (length es) S" "abs_rec S = fold (spec_step asm) es empty_spec"
    by (auto simp: new returns_iff)
  have rec: "sr_br (sr_heap S ! r) = Some b" "rec_ok (length es) (sr_heap S ! r)" "sr_rs (sr_heap S ! r) \<noteq> []"
      "reads (abs_rec S) b = sr_ii (sr_heap S ! r)"
    if "recordObjects S b = Some r" for b r
    using S(2) that unfolding sr_inv_def by (simp_all add: abs_rec_def)
  have "recordObjects S b \<noteq> None \<longleftrightarrow> reads (abs_rec S) b \<noteq> {}" for b
  proof (cases "recordObjects S b")
    case None
    then show ?thesis by (simp add: abs_rec_def)
  next
    case (Some r)
    with rec [OF Some] show ?thesis by (auto simp: rec_ok_def)
  qed
  moreover have "leak_lines (abs_rec S) = ls_asm_lines S" by (simp add: abs_rec_def)
  ultimately show ?thesis
    using S(1,2) rec unfolding S(3) [symmetric] by (auto simp: rec_ok_def sr_inv_def)
qed

theorem recorder_refines_witness:
  "\<exists>S. sr_run id [BR 1 True, RS 5 False True, BR 2 False, BR 1 True, RS 6 True False, LS 9 inExpression False] new_SpectreRecorder = Some S
     \<and> recordObjects S 1 \<noteq> None \<and> recordObjects S 2 = None"
proof -
  let ?es = "[BR 1 True, RS 5 False True, BR 2 False, BR 1 True, RS 6 True False, LS 9 inExpression False]"
  have "\<exists>b u. hd ?es = BR b u" by auto
  from recorder_refines [OF _ this, of id] obtain S where S: "sr_run id ?es new_SpectreRecorder = Some S"
      "\<forall>b. recordObjects S b \<noteq> None \<longleftrightarrow> reads (fold (spec_step id) ?es empty_spec) b \<noteq> {}"
    by (auto simp del: sr_run.simps)
  have "recordObjects S 1 \<noteq> None" "recordObjects S 2 = None"
    using S(2) [rule_format, of 1] S(2) [rule_format, of 2] by (simp_all add: empty_spec_def)
  with S(1) show ?thesis by blast
qed

subsection \<open>The flag of a branch\<close>

text \<open>A record in the map that says not user controlled says so for ever: \<^verbatim>\<open>recordBR\<close> sets the flag only
  of a record without reads.\<close>

definition uncontrolled :: "iptr \<Rightarrow> spectre_recorder \<Rightarrow> bool" where
  "uncontrolled b S \<longleftrightarrow> (\<exists>r. recordObjects S b = Some r \<and> \<not> sr_isUserControlled (sr_heap S ! r))"

lemma flag_kept [simp]:
  "sr_isUserControlled x = sr_isUserControlled (h ! t) \<Longrightarrow> r < length h \<Longrightarrow> sr_isUserControlled (h[t := x] ! r) = sr_isUserControlled (h ! r)"
  by (cases "t = r") simp_all

lemma sr_step_uncontrolled:
  assumes inv: "sr_inv asm n S" and b: "uncontrolled b S" and step: "sr_step asm e S = Some S'"
  shows "uncontrolled b S'"
proof -
  obtain r where r: "recordObjects S b = Some r" "\<not> sr_isUserControlled (sr_heap S ! r)"
      "r < length (sr_heap S)" "sr_rs (sr_heap S ! r) \<noteq> []"
    using b inv unfolding uncontrolled_def sr_inv_def by blast
  have "recordObjects S' b = Some r \<and> \<not> sr_isUserControlled (sr_heap S' ! r)"
  proof (cases e)
    case (BR br u)
    have "(sr_heap S)[t := x] ! r = sr_heap S ! r" if "sr_rs (sr_heap S ! t) = []" for t x
      using that r(4) by (cases "r = t") simp_all
    with BR r step show ?thesis
      by (auto simp: recordBR_def recordBR_new_def Let_def nth_append bind_eq_Some_conv split: option.splits if_splits)
  next
    case (RS rs c s)
    with r step show ?thesis
      by (auto simp: recordRS_def Let_def bind_eq_Some_conv split: if_splits)
  next
    case (LS ls k c)
    with r step show ?thesis
      by (auto simp: recordLS_def Let_def bind_eq_Some_conv split: if_splits)
  qed
  then show ?thesis unfolding uncontrolled_def by blast
qed

lemma sr_run_append: "sr_run asm (es @ es') S = sr_run asm es S \<bind> sr_run asm es'"
  by (induction es arbitrary: S) (simp, simp cong: Option.bind_cong)

lemma sr_run_uncontrolled:
  assumes "sr_inv asm n S" "n + length es \<le> 10000000" "tempRecord S \<noteq> None" "uncontrolled b S"
  shows "returns (sr_run asm es S) (uncontrolled b)"
  using assms
proof (induction es arbitrary: S n)
  case (Cons e es)
  obtain S' where S': "sr_step asm e S = Some S'" "sr_inv asm (Suc n) S'" "tempRecord S' \<noteq> None"
    using sr_step_ok [OF Cons.prems(1), of e] Cons.prems(2,3) by (auto simp: returns_iff)
  with Cons.IH [OF S'(2)] sr_step_uncontrolled [OF Cons.prems(1,4) S'(1)] Cons.prems(2) show ?case by simp
qed simp

text \<open>A branch that gets a record of its own is not user controlled, whatever the call says.\<close>

lemma new_record_uncontrolled:
  assumes "sr_inv asm n S" "reads (abs_rec S) b = {}"
    and "\<And>b'. cur_br (abs_rec S) = Some b' \<Longrightarrow> reads (abs_rec S) b' \<noteq> {}"
    and "sr_run asm [BR b u, RS rs c s] S = Some S'"
  shows "uncontrolled b S'"
proof -
  have no: "recordObjects S b = None"
    using assms(1,2) by (auto simp: abs_rec_def sr_inv_def rec_ok_def split: option.splits)
  have "recordBR b u S = Some (recordBR_new b S)"
  proof (cases "tempRecord S")
    case (Some t)
    then obtain b' where t: "sr_br (sr_heap S ! t) = Some b'"
        "recordObjects S b' = (if sr_rs (sr_heap S ! t) = [] then None else Some t)"
      using sr_inv_temp [OF assms(1)] by metis
    have "reads (abs_rec S) b' \<noteq> {}" using assms(3) Some t(1) by (simp add: abs_rec_def)
    then have "recordObjects S b' \<noteq> None" by (auto simp: abs_rec_def)
    with t(2) have "b' \<noteq> b" "sr_rs (sr_heap S ! t) \<noteq> []" using no by (auto split: if_splits)
    with Some t(1) no show ?thesis by (simp add: recordBR_def Let_def)
  qed (simp add: recordBR_def)
  with assms(4) no show ?thesis
    by (auto simp: recordBR_new_def recordRS_def SpectreRecord_def uncontrolled_def)
qed

text \<open>
  C14. Whether a branch is user controlled is lost. In any run, take the first branch, or a branch with
  no recorded read that comes after a branch with one, and a read recorded under it: from then on,
  whatever calls follow, the record of this branch says that it is not user controlled, also when
  \<^verbatim>\<open>recordBR\<close> was told that it is.
\<close>

theorem user_controlled_lost:
  assumes "length (es1 @ [BR b u, RS rs c s] @ es2) \<le> 10000000" "es1 = [] \<or> (\<exists>b u. hd es1 = BR b u)"
    and "reads (fold (spec_step asm) es1 empty_spec) b = {}"
    and "\<And>b'. cur_br (fold (spec_step asm) es1 empty_spec) = Some b' \<Longrightarrow> reads (fold (spec_step asm) es1 empty_spec) b' \<noteq> {}"
  shows "\<exists>S r. sr_run asm (es1 @ [BR b u, RS rs c s] @ es2) new_SpectreRecorder = Some S
    \<and> recordObjects S b = Some r \<and> \<not> sr_isUserControlled (sr_heap S ! r)"
proof -
  have new: "abs_rec new_SpectreRecorder = empty_spec"
    by (simp add: abs_rec_def new_SpectreRecorder_def empty_spec_def)
  obtain S1 where S1: "sr_run asm es1 new_SpectreRecorder = Some S1" "sr_inv asm (length es1) S1"
      "abs_rec S1 = fold (spec_step asm) es1 empty_spec"
    using sr_run_ok [OF sr_inv_new, of 0 es1 asm] assms(1,2) by (auto simp: new returns_iff)
  obtain S2 where S2: "sr_run asm [BR b u, RS rs c s] S1 = Some S2" "sr_inv asm (length es1 + 2) S2"
      "abs_rec S2 = spec_step asm (RS rs c s) ((abs_rec S1)\<lparr>cur_br := Some b\<rparr>)"
    using sr_run_ok [OF S1(2), of "[BR b u, RS rs c s]"] assms(1) by (auto simp: returns_iff simp del: sr_run.simps)
  have "cur_br (abs_rec S2) = Some b" unfolding S2(3) by simp
  then have "tempRecord S2 \<noteq> None" by (auto simp: abs_rec_def split: option.splits)
  moreover have "uncontrolled b S2"
    using new_record_uncontrolled [OF S1(2) _ _ S2(1)] assms(3,4) by (simp add: S1(3))
  ultimately have "returns (sr_run asm es2 S2) (uncontrolled b)"
    using sr_run_uncontrolled [OF S2(2)] assms(1) by simp
  then show ?thesis
    unfolding sr_run_append S1(1) using S2(1) by (auto simp: returns_iff uncontrolled_def simp del: sr_run.simps)
qed

theorem user_controlled_lost_witness:
  "\<exists>S r. sr_run id ([BR 1 True, RS 5 False True] @ [BR 2 True, RS 6 False True] @ [BR 1 True, BR 2 True, LS 9 inExpression False])
       new_SpectreRecorder = Some S
     \<and> recordObjects S 2 = Some r \<and> \<not> sr_isUserControlled (sr_heap S ! r)"
  by (rule user_controlled_lost) (auto simp: empty_spec_def)

end
