(* ===== verification/SpecExec.thy ===== *)
theory SpecExec
  imports CacheState SpectreRecorder
begin

text \<open>
  Speculative symbolic execution: the parts of \<^verbatim>\<open>lib/Core/ExecutionState.cpp\<close>, \<^verbatim>\<open>Executor.cpp\<close> and
  \<^verbatim>\<open>Searcher.cpp\<close> that create, schedule, run and retire speculative states.

  Execution states are heap objects that refer to each other (\<^verbatim>\<open>pPerentState\<close>, \<^verbatim>\<open>pSpecState\<close>, the queue
  \<^verbatim>\<open>specStates\<close>), so the executor has a heap from identifiers to states; using a deleted state is
  undefined behaviour and, like a failed assertion, \<^term>\<open>None\<close>. The state's own data that this code
  only copies (stack, address space, constraints, covered lines) is the field \<open>es_data\<close>, of
  any type; the parameter \<open>sc_addConstraint\<close> is \<^verbatim>\<open>Executor::addConstraint\<close> on that data. The solver's
  answers are the parameter \<open>sc_evaluate\<close>.

  The options are at their defaults: no seeds, no replay, no fork limits, no path writers; the memory limit, timers and
  interrupts, which end states from outside, are left out. Weights (floating point), the process tree and test case
  output are not modelled, nor is \<^verbatim>\<open>va_start\<close>, which makes several memory accesses in one instruction.
\<close>

type_synonym sid = nat

record 'p exec_state =
  es_pc :: nat
  es_prevPC :: nat
  es_data :: 'p
  es_depth :: nat
  es_coveredNew :: bool
  es_steppedInstructions :: nat
  es_isSpeculative :: bool
  es_specInstCount :: int
  es_tag :: nat
  es_pTag :: int
  es_pSpecState :: "sid option"
  es_pPerentState :: "sid option"
  es_cacheState :: cache_state
  es_specStates :: "sid list"
  es_finishedSpecStates :: "sid list"

text \<open>Options and the code the executor calls.\<close>

record 'p spec_config =
  maxSEW :: int
  ispecEnabled :: bool
  isCacheEnabled :: bool
  OnlyDetectMarkedSecret :: bool
  MaxDepth :: nat
  sc_cache :: cache_config
  sc_hash :: hasher
  sc_info :: "nat \<Rightarrow> instruction_info"
  sc_evaluate :: "'p \<Rightarrow> expr \<Rightarrow> validity option"
  sc_addConstraint :: "expr \<Rightarrow> 'p \<Rightarrow> 'p option"

record 'p executor =
  ex_heap :: "sid \<rightharpoonup> 'p exec_state"
  ex_next :: sid
  ex_count :: nat
  ex_spCount :: nat
  ex_states :: "sid set"
  ex_addedStates :: "sid list"
  ex_removedStates :: "sid list"
  ex_searcher :: "sid list"
  ex_recorder :: spectre_recorder
  ex_bufs :: cache_bufs
  ex_found_vuls :: "nat \<rightharpoonup> int"
  ex_forks :: nat
  ex_spStates :: nat
  ex_spStatesDone :: nat
  ex_totalSpecInst :: int
  ex_instructions :: nat

abbreviation upd_state :: "sid \<Rightarrow> 'p exec_state \<Rightarrow> 'p executor \<Rightarrow> 'p executor" where
  "upd_state s st X \<equiv> X\<lparr>ex_heap := (ex_heap X)(s \<mapsto> st)\<rparr>"

definition delete_state :: "sid \<Rightarrow> 'p executor \<Rightarrow> 'p executor" where
  "delete_state s X = X\<lparr>ex_heap := (ex_heap X)(s := None)\<rparr>"

subsection \<open>Execution states\<close>

text \<open>Taking the next tag: odd numbers for speculative states, even ones for normal states.\<close>

definition new_tag :: "bool \<Rightarrow> 'p executor \<Rightarrow> nat \<times> 'p executor" where
  "new_tag spec X = (if spec then (ex_spCount X, X\<lparr>ex_spCount := ex_spCount X + 2\<rparr>)
                     else (ex_count X, X\<lparr>ex_count := ex_count X + 2\<rparr>))"

text \<open>The two copy constructors. Fields the constructor does not initialise are null.\<close>

definition copy_state :: "'p spec_config \<Rightarrow> 'p exec_state \<Rightarrow> 'p executor \<Rightarrow> (sid \<times> 'p executor) option" where
  "copy_state C st X =
     do { cs \<leftarrow> copy_CacheState (sc_hash C) (es_cacheState st);
          let (tag, X) = new_tag (es_isSpeculative st) X;
              s = ex_next X;
              st' = st\<lparr>es_tag := tag, es_pTag := 2 ^ 64 - 1, es_pSpecState := None, es_pPerentState := None,
                       es_cacheState := cs, es_specStates := [], es_finishedSpecStates := []\<rparr> in
          Some (s, upd_state s st' (X\<lparr>ex_next := s + 1\<rparr>)) }"

definition copy_state_spec :: "'p spec_config \<Rightarrow> 'p exec_state \<Rightarrow> bool \<Rightarrow> 'p executor \<Rightarrow> (sid \<times> 'p executor) option" where
  "copy_state_spec C st ispec X =
     (let (tag, X) = new_tag ispec X in
      do { cs \<leftarrow> (if es_isSpeculative st then copy_CacheState (sc_hash C) (es_cacheState st) else Some new_CacheState);
           let s = ex_next X;
               st' = st\<lparr>es_isSpeculative := ispec, es_tag := tag, es_pTag := 0, es_pSpecState := None,
                        es_pPerentState := None, es_cacheState := cs, es_specStates := [], es_finishedSpecStates := []\<rparr> in
           Some (s, upd_state s st' (X\<lparr>ex_next := s + 1\<rparr>)) })"

definition specBranch :: "'p spec_config \<Rightarrow> sid \<Rightarrow> int \<Rightarrow> 'p executor \<Rightarrow> (sid \<times> 'p executor) option" where
  "specBranch C this sew X =
     do { st \<leftarrow> ex_heap X this;
          (s, X) \<leftarrow> copy_state_spec C st True X;
          sp \<leftarrow> ex_heap X s;
          let sp = sp\<lparr>es_coveredNew := False\<rparr>;
              sp = (if \<not> es_isSpeculative st then sp\<lparr>es_specInstCount := sew\<rparr> else sp) in
          Some (s, upd_state s sp X) }"

definition branch :: "'p spec_config \<Rightarrow> sid \<Rightarrow> 'p executor \<Rightarrow> (sid \<times> 'p executor) option" where
  "branch C this X =
     do { st \<leftarrow> ex_heap X this;
          let st = st\<lparr>es_depth := es_depth st + 1\<rparr>;
              X = upd_state this st X in
          do { (s, X) \<leftarrow> copy_state C st X;
               fs \<leftarrow> ex_heap X s;
               Some (s, upd_state s (fs\<lparr>es_coveredNew := False\<rparr>) X) } }"

definition addSpeState :: "sid \<Rightarrow> sid \<Rightarrow> 'p executor \<Rightarrow> 'p executor option" where
  "addSpeState this s X =
     do { st \<leftarrow> ex_heap X this; Some (upd_state this (st\<lparr>es_specStates := es_specStates st @ [s]\<rparr>) X) }"

definition selectSpState :: "sid \<Rightarrow> 'p executor \<Rightarrow> sid option" where
  "selectSpState this X =
     do { st \<leftarrow> ex_heap X this; assert_that (es_specStates st \<noteq> []); Some (hd (es_specStates st)) }"

text \<open>\<^verbatim>\<open>CacheState::mergeSpecCacheState\<close> of a state: the finished states are merged and deleted.\<close>

fun cache_states :: "sid list \<Rightarrow> 'p executor \<Rightarrow> cache_state list option" where
  "cache_states [] X = Some []"
| "cache_states (s # ss) X = do { st \<leftarrow> ex_heap X s; cs \<leftarrow> cache_states ss X; Some (es_cacheState st # cs) }"

definition merge_spec :: "'p spec_config \<Rightarrow> sid \<Rightarrow> 'p executor \<Rightarrow> 'p executor option" where
  "merge_spec C this X =
     do { st \<leftarrow> ex_heap X this;
          css \<leftarrow> cache_states (es_finishedSpecStates st) X;
          cs \<leftarrow> mergeSpecCacheState (sc_hash C) (es_specStates st) css (es_cacheState st);
          let X = fold delete_state (es_finishedSpecStates st) X in
          Some (upd_state this (st\<lparr>es_cacheState := cs, es_finishedSpecStates := []\<rparr>) X) }"

definition removeHeadState :: "'p spec_config \<Rightarrow> sid \<Rightarrow> 'p executor \<Rightarrow> 'p executor option" where
  "removeHeadState C this X =
     do { st \<leftarrow> ex_heap X this;
          assert_that (es_specStates st \<noteq> []);
          let es = hd (es_specStates st);
              st = st\<lparr>es_specStates := tl (es_specStates st)\<rparr> in
          if isCacheEnabled C then
            let st = st\<lparr>es_finishedSpecStates := es_finishedSpecStates st @ [es]\<rparr>;
                X = upd_state this st X in
            if es_specStates st = [] then merge_spec C this X else Some X
          else Some (delete_state es (upd_state this st X)) }"

subsection \<open>Ending states\<close>

definition terminateSpecState :: "'p spec_config \<Rightarrow> sid \<Rightarrow> 'p executor \<Rightarrow> 'p executor option" where
  "terminateSpecState C s X =
     do { st \<leftarrow> ex_heap X s;
          assert_that (es_isSpeculative st);
          let X = X\<lparr>ex_totalSpecInst := ex_totalSpecInst X + (maxSEW C - es_specInstCount st),
                    ex_spStatesDone := ex_spStatesDone X + 1\<rparr> in
          do { p \<leftarrow> es_pPerentState st;
               h \<leftarrow> selectSpState p X;
               hst \<leftarrow> ex_heap X h;
               assert_that (es_tag hst = es_tag st);
               removeHeadState C p X } }"

text \<open>\<^verbatim>\<open>terminateState\<close>. \<^verbatim>\<open>terminateStateEarly\<close>, \<^verbatim>\<open>terminateStateOnExit\<close> and \<^verbatim>\<open>terminateStateOnError\<close> differ
  from it in the output they write for normal states.\<close>

definition terminateState :: "'p spec_config \<Rightarrow> sid \<Rightarrow> 'p executor \<Rightarrow> 'p executor option" where
  "terminateState C s X =
     do { st \<leftarrow> ex_heap X s;
          if es_isSpeculative st then terminateSpecState C s X
          else
            do { found \<leftarrow> (if isCacheEnabled C
                           then verifyCacheSideChannel (sc_cache C) (sc_hash C) (sc_evaluate C (es_data st))
                                  (es_cacheState st) (ex_found_vuls X)
                           else Some (ex_found_vuls X));
                 let X = X\<lparr>ex_found_vuls := found\<rparr> in
                 if s \<notin> set (ex_addedStates X)
                 then Some (upd_state s (st\<lparr>es_pc := es_prevPC st\<rparr>) (X\<lparr>ex_removedStates := ex_removedStates X @ [s]\<rparr>))
                 else Some (delete_state s (X\<lparr>ex_addedStates := remove1 s (ex_addedStates X)\<rparr>)) } }"

subsection \<open>Forking\<close>

text \<open>Whether a string occurs in another one, and the files speculation does not look at.\<close>

fun occurs :: "string \<Rightarrow> string \<Rightarrow> bool" where
  "occurs pat [] = (pat = [])"
| "occurs pat (c # cs) = (take (length pat) (c # cs) = pat \<or> occurs pat cs)"

definition in_libs :: "string \<Rightarrow> bool" where
  "in_libs file \<longleftrightarrow> occurs ''POSIX'' file \<or> occurs ''libc/'' file \<or> occurs ''klee-uclibc'' file"

definition set_pSpec :: "sid \<Rightarrow> sid \<Rightarrow> 'p executor \<Rightarrow> 'p executor option" where
  "set_pSpec s sp X = do { st \<leftarrow> ex_heap X s; Some (upd_state s (st\<lparr>es_pSpecState := Some sp\<rparr>) X) }"

definition set_perent :: "sid \<Rightarrow> sid \<Rightarrow> 'p executor \<Rightarrow> 'p executor option" where
  "set_perent s p X = do { st \<leftarrow> ex_heap X s; Some (upd_state s (st\<lparr>es_pPerentState := Some p\<rparr>) X) }"

definition set_pTag :: "sid \<Rightarrow> 'p executor \<Rightarrow> 'p executor option" where
  "set_pTag s X =
     do { st \<leftarrow> ex_heap X s;
          p \<leftarrow> es_pPerentState st;
          pst \<leftarrow> ex_heap X p;
          Some (upd_state s (st\<lparr>es_pTag := int (es_tag pst)\<rparr>) X) }"

definition record_branch :: "'p exec_state \<Rightarrow> expr \<Rightarrow> 'p executor \<Rightarrow> 'p executor option" where
  "record_branch st condition X =
     do { r \<leftarrow> recordBR (es_prevPC st) (\<not> is_ConstantExpr condition) (ex_recorder X);
          Some (X\<lparr>ex_recorder := r\<rparr>) }"

text \<open>The condition is true, or false, on the current path: the other branch is followed
  speculatively. Only the true case sets \<^verbatim>\<open>pTag\<close>.\<close>

definition fork_decided :: "'p spec_config \<Rightarrow> sid \<Rightarrow> expr \<Rightarrow> bool \<Rightarrow> 'p executor \<Rightarrow> 'p executor option" where
  "fork_decided C current condition isTrue X =
     do { (sp, X) \<leftarrow> specBranch C current (maxSEW C) X;
          let X = X\<lparr>ex_spStates := ex_spStates X + 1\<rparr> in
          do { cst \<leftarrow> ex_heap X current;
               p \<leftarrow> (if es_isSpeculative cst then es_pPerentState cst else Some current);
               X \<leftarrow> set_perent sp p X;
               X \<leftarrow> addSpeState p sp X;
               X \<leftarrow> set_pSpec current sp X;
               X \<leftarrow> (if isTrue then set_pTag sp X else Some X);
               cst \<leftarrow> ex_heap X current;
               record_branch cst condition X } }"

definition add_constraint :: "'p spec_config \<Rightarrow> sid \<Rightarrow> expr \<Rightarrow> 'p executor \<Rightarrow> 'p executor option" where
  "add_constraint C s e X =
     do { st \<leftarrow> ex_heap X s; d \<leftarrow> sc_addConstraint C e (es_data st); Some (upd_state s (st\<lparr>es_data := d\<rparr>) X) }"

text \<open>
  Both branches are possible, with speculation: each of the two states gets a speculative
  state that will follow the other branch. A speculative state's three new states are queued at its
  parent; a normal state's two speculative states at the two normal states.
\<close>

definition link_spec :: "sid \<Rightarrow> sid \<Rightarrow> sid \<Rightarrow> sid \<Rightarrow> sid option \<Rightarrow> 'p executor \<Rightarrow> 'p executor option" where
  "link_spec trueState falseState spTrue spFalse perentState X =
     (let X = X\<lparr>ex_spStates := ex_spStates X + 1\<rparr> in
      do { X \<leftarrow> set_pSpec trueState spTrue X;
           X \<leftarrow> set_pSpec falseState spFalse X;
           p \<leftarrow> perentState;
           X \<leftarrow> set_perent spTrue p X;
           X \<leftarrow> set_perent spFalse p X;
           X \<leftarrow> set_perent falseState p X;
           X \<leftarrow> addSpeState p spTrue X;
           X \<leftarrow> addSpeState p spFalse X;
           addSpeState p falseState X })"

definition link_normal :: "sid \<Rightarrow> sid \<Rightarrow> sid \<Rightarrow> sid \<Rightarrow> 'p executor \<Rightarrow> 'p executor option" where
  "link_normal trueState falseState spTrue spFalse X =
     (let X = X\<lparr>ex_addedStates := ex_addedStates X @ [falseState]\<rparr> in
      do { X \<leftarrow> set_pSpec trueState spTrue X;
           X \<leftarrow> set_pSpec falseState spFalse X;
           X \<leftarrow> set_perent spTrue trueState X;
           X \<leftarrow> set_perent spFalse falseState X;
           X \<leftarrow> addSpeState trueState spTrue X;
           addSpeState falseState spFalse X })"

definition fork_both_spec :: "'p spec_config \<Rightarrow> sid \<Rightarrow> expr \<Rightarrow> 'p executor \<Rightarrow> (sid \<times> 'p executor) option" where
  "fork_both_spec C current condition X =
     do { cst \<leftarrow> ex_heap X current;
          let X = X\<lparr>ex_spStates := ex_spStates X + 2, ex_forks := (if es_isSpeculative cst then ex_forks X else ex_forks X + 1)\<rparr> in
          do { X \<leftarrow> record_branch cst condition X;
               (falseState, X) \<leftarrow> branch C current X;
               X \<leftarrow> add_constraint C current condition X;
               notc \<leftarrow> createIsZero condition;
               X \<leftarrow> add_constraint C falseState notc X;
               (spTrue, X) \<leftarrow> specBranch C current (maxSEW C) X;
               (spFalse, X) \<leftarrow> specBranch C falseState (maxSEW C) X;
               X \<leftarrow> (if es_isSpeculative cst
                      then link_spec current falseState spTrue spFalse (es_pPerentState cst) X
                      else link_normal current falseState spTrue spFalse X);
               X \<leftarrow> set_pTag spTrue X;
               X \<leftarrow> set_pTag spFalse X;
               Some (falseState, X) } }"

definition fork_both :: "'p spec_config \<Rightarrow> sid \<Rightarrow> expr \<Rightarrow> 'p executor \<Rightarrow> (sid \<times> 'p executor) option" where
  "fork_both C current condition X =
     (let X = X\<lparr>ex_forks := ex_forks X + 1\<rparr> in
      do { (falseState, X) \<leftarrow> branch C current X;
           let X = X\<lparr>ex_addedStates := ex_addedStates X @ [falseState]\<rparr> in
           do { X \<leftarrow> add_constraint C current condition X;
                notc \<leftarrow> createIsZero condition;
                X \<leftarrow> add_constraint C falseState notc X;
                Some (falseState, X) } })"

text \<open>\<^verbatim>\<open>Executor::fork\<close>: the states that follow the true and the false branch.\<close>

definition fork :: "'p spec_config \<Rightarrow> sid \<Rightarrow> expr \<Rightarrow> bool \<Rightarrow> 'p executor \<Rightarrow> ((sid option \<times> sid option) \<times> 'p executor) option" where
  "fork C current condition isInternal X =
     do { cst \<leftarrow> ex_heap X current;
          let spec = (\<not> in_libs (ii_file (sc_info C (es_prevPC cst))) \<and> \<not> isInternal \<and> ispecEnabled C) in
          case sc_evaluate C (es_data cst) condition of
            None \<Rightarrow>
              do { X \<leftarrow> terminateState C current (upd_state current (cst\<lparr>es_pc := es_prevPC cst\<rparr>) X);
                   Some ((None, None), X) }
          | Some VTrue \<Rightarrow>
              do { X \<leftarrow> (if spec then fork_decided C current condition True X else Some X);
                   Some ((Some current, None), X) }
          | Some VFalse \<Rightarrow>
              do { X \<leftarrow> (if spec then fork_decided C current condition False X else Some X);
                   Some ((None, Some current), X) }
          | Some VUnknown \<Rightarrow>
              do { (falseState, X) \<leftarrow> (if spec then fork_both_spec C current condition X else fork_both C current condition X);
                   tst \<leftarrow> ex_heap X current;
                   if MaxDepth C \<noteq> 0 \<and> MaxDepth C \<le> es_depth tst
                   then do { X \<leftarrow> terminateState C current X;
                             X \<leftarrow> terminateState C falseState X;
                             Some ((None, None), X) }
                   else Some ((Some current, Some falseState), X) } }"

subsection \<open>Running\<close>

definition stepInstruction :: "'p spec_config \<Rightarrow> sid \<Rightarrow> 'p executor \<Rightarrow> 'p executor option" where
  "stepInstruction C s X =
     do { st \<leftarrow> ex_heap X s;
          let st = st\<lparr>es_steppedInstructions := es_steppedInstructions st + 1, es_prevPC := es_pc st, es_pc := es_pc st + 1\<rparr>;
              st = (if ispecEnabled C \<and> es_isSpeculative st then st\<lparr>es_specInstCount := es_specInstCount st - 1\<rparr> else st) in
          Some (upd_state s st (X\<lparr>ex_instructions := ex_instructions X + 1\<rparr>)) }"

text \<open>\<^verbatim>\<open>transferToBasicBlock\<close>: the program counter; phi bookkeeping is part of the data.\<close>

definition transfer :: "nat \<Rightarrow> sid option \<Rightarrow> 'p executor \<Rightarrow> 'p executor option" where
  "transfer dst s X =
     (case s of None \<Rightarrow> Some X
      | Some s \<Rightarrow> do { st \<leftarrow> ex_heap X s; Some (upd_state s (st\<lparr>es_pc := dst\<rparr>) X) })"

text \<open>A speculative state follows the branch its partner did not take.\<close>

definition transfer_spec :: "nat \<Rightarrow> sid option \<Rightarrow> 'p executor \<Rightarrow> 'p executor option" where
  "transfer_spec dst s X =
     (case s of None \<Rightarrow> Some X
      | Some s \<Rightarrow>
          do { st \<leftarrow> ex_heap X s;
               case es_pSpecState st of
                 None \<Rightarrow> Some X
               | Some sp \<Rightarrow>
                   do { X \<leftarrow> transfer dst (Some sp) X;
                        st \<leftarrow> ex_heap X s;
                        Some (upd_state s (st\<lparr>es_pSpecState := None\<rparr>) X) } })"

definition exec_Br :: "'p spec_config \<Rightarrow> sid \<Rightarrow> expr \<Rightarrow> nat \<Rightarrow> nat \<Rightarrow> 'p executor \<Rightarrow> 'p executor option" where
  "exec_Br C s cond succ0 succ1 X =
     do { ((first, second), X) \<leftarrow> fork C s cond False X;
          X \<leftarrow> transfer succ0 first X;
          X \<leftarrow> transfer succ1 second X;
          if ispecEnabled C
          then do { X \<leftarrow> transfer_spec succ1 first X; transfer_spec succ0 second X }
          else Some X }"

text \<open>
  A memory access, with what resolving the address found: the address before and after it was made
  constant, whether one object is in question (\<open>mr_success\<close>), the answer to the bounds check
  (\<^term>\<open>None\<close> is a solver failure), and the objects the address may point to otherwise. The
  effects are those of the read or write on the state's data.
\<close>

record 'p resolution =
  rs_secret :: bool
  rs_inBounds :: expr
  rs_readOnly :: bool
  rs_effect :: "'p \<Rightarrow> 'p"

record 'p mem_request =
  mr_isWrite :: bool
  mr_optimized :: expr
  mr_address :: expr
  mr_bytes :: nat
  mr_success :: bool
  mr_inBounds :: "bool option"
  mr_readOnly :: bool
  mr_effect :: "'p \<Rightarrow> 'p"
  mr_rl :: "'p resolution list"
  mr_incomplete :: bool
  mr_bindSecret :: "'p \<Rightarrow> 'p"

definition apply_data :: "('p \<Rightarrow> 'p) \<Rightarrow> sid \<Rightarrow> 'p executor \<Rightarrow> 'p executor option" where
  "apply_data f s X = do { st \<leftarrow> ex_heap X s; Some (upd_state s (st\<lparr>es_data := f (es_data st)\<rparr>) X) }"

definition record_leak :: "'p spec_config \<Rightarrow> sid \<Rightarrow> bool \<Rightarrow> 'p executor \<Rightarrow> 'p executor option" where
  "record_leak C s isConst X =
     do { st \<leftarrow> ex_heap X s;
          r \<leftarrow> recordLS (\<lambda>i. ii_assemblyLine (sc_info C i)) (es_prevPC st) inExpression isConst (ex_recorder X);
          Some (X\<lparr>ex_recorder := r\<rparr>) }"

definition record_read :: "sid \<Rightarrow> bool \<Rightarrow> bool \<Rightarrow> 'p executor \<Rightarrow> 'p executor option" where
  "record_read s isConst isSecret X =
     do { st \<leftarrow> ex_heap X s;
          r \<leftarrow> recordRS (es_prevPC st) isConst isSecret (ex_recorder X);
          Some (X\<lparr>ex_recorder := r\<rparr>) }"

definition cache_access :: "'p spec_config \<Rightarrow> sid \<Rightarrow> bool \<Rightarrow> expr \<Rightarrow> 'p executor \<Rightarrow> 'p executor option" where
  "cache_access C s isStore address X =
     do { st \<leftarrow> ex_heap X s;
          (cs, B) \<leftarrow> (if isStore then cs_store else cs_load) (sc_cache C) (sc_hash C) (es_isSpeculative st) address
                       (sc_info C (es_prevPC st)) (es_cacheState st) (ex_bufs X);
          Some (upd_state s (st\<lparr>es_cacheState := cs\<rparr>) (X\<lparr>ex_bufs := B\<rparr>)) }"

text \<open>The loop of a normal state over the objects the address may point to.\<close>

fun resolve_loop :: "'p spec_config \<Rightarrow> bool \<Rightarrow> 'p resolution list \<Rightarrow> sid \<Rightarrow> 'p executor \<Rightarrow> (sid option \<times> 'p executor) option" where
  "resolve_loop C isWrite [] unbound X = Some (Some unbound, X)"
| "resolve_loop C isWrite (r # rl) unbound X =
     do { ((bound, unbound), X) \<leftarrow> fork C unbound (rs_inBounds r) True X;
          X \<leftarrow> (case bound of None \<Rightarrow> Some X
                | Some b \<Rightarrow> if isWrite \<and> rs_readOnly r then terminateState C b X else apply_data (rs_effect r) b X);
          (case unbound of None \<Rightarrow> Some (None, X) | Some u \<Rightarrow> resolve_loop C isWrite rl u X) }"

text \<open>In bounds of one object.\<close>

definition mem_in_bounds :: "'p spec_config \<Rightarrow> sid \<Rightarrow> 'p mem_request \<Rightarrow> 'p executor \<Rightarrow> 'p executor option" where
  "mem_in_bounds C s m X =
     do { st \<leftarrow> ex_heap X s;
          if mr_isWrite m then
            if mr_readOnly m then terminateState C s X
            else do { X \<leftarrow> (if isCacheEnabled C \<and> \<not> es_isSpeculative st then cache_access C s True (mr_address m) X else Some X);
                      apply_data (mr_effect m) s X }
          else
            do { X \<leftarrow> (if isCacheEnabled C \<and> (\<not> es_isSpeculative st \<or> getSensitive (mr_address m))
                        then cache_access C s False (mr_address m) X else Some X);
                 apply_data (mr_effect m) s X } }"

text \<open>No object, several objects, or out of bounds of the only one.\<close>

definition mem_error :: "'p spec_config \<Rightarrow> sid \<Rightarrow> 'p mem_request \<Rightarrow> 'p executor \<Rightarrow> 'p executor option" where
  "mem_error C s m X =
     do { st \<leftarrow> ex_heap X s;
          (unbound, X) \<leftarrow> (if es_isSpeculative st then Some (Some s, X) else resolve_loop C (mr_isWrite m) (mr_rl m) s X);
          let isTouchingSecret = (es_isSpeculative st \<and> list_ex rs_secret (mr_rl m));
              isConst = is_ConstantExpr (mr_optimized m) in
          if OnlyDetectMarkedSecret C \<and> \<not> isTouchingSecret then terminateSpecState C s X
          else if es_isSpeculative st \<and> \<not> mr_isWrite m then
            if mr_bytes m \<noteq> 1 then terminateSpecState C s X
            else do { X \<leftarrow> record_read s isConst isTouchingSecret X; apply_data (mr_bindSecret m) s X }
          else
            (case unbound of None \<Rightarrow> Some X
             | Some u \<Rightarrow>
                 if mr_incomplete m then terminateState C u X
                 else do { X \<leftarrow> (if es_isSpeculative st then record_read s isConst False X else Some X);
                           terminateState C u X }) }"

definition executeMemoryOperation :: "'p spec_config \<Rightarrow> sid \<Rightarrow> 'p mem_request \<Rightarrow> 'p executor \<Rightarrow> 'p executor option" where
  "executeMemoryOperation C s m X =
     do { st \<leftarrow> ex_heap X s;
          if mr_success m then
            (case mr_inBounds m of
               None \<Rightarrow> terminateState C s (upd_state s (st\<lparr>es_pc := es_prevPC st\<rparr>) X)
             | Some inBounds \<Rightarrow>
                 do { X \<leftarrow> (if es_isSpeculative st \<and> getSensitive (mr_address m)
                             then record_leak C s (is_ConstantExpr (mr_optimized m)) X else Some X);
                      if inBounds then mem_in_bounds C s m X else mem_error C s m X })
          else mem_error C s m X }"

text \<open>
  \<^verbatim>\<open>Executor::branch\<close>: one state for each of several conditions. Each new state is a copy of one of the states
  made so far, drawn at random (\<open>rng\<close>); the first condition is followed by the state itself.
\<close>

fun branch_states :: "'p spec_config \<Rightarrow> (nat \<Rightarrow> nat) \<Rightarrow> nat \<Rightarrow> sid list \<Rightarrow> 'p executor \<Rightarrow> (sid list \<times> 'p executor) option" where
  "branch_states C rng 0 result X = Some (result, X)"
| "branch_states C rng (Suc n) result X =
     do { (ns, X) \<leftarrow> branch C (result ! (rng (length result) mod length result)) X;
          branch_states C rng n (result @ [ns]) (X\<lparr>ex_addedStates := ex_addedStates X @ [ns]\<rparr>) }"

fun add_constraints :: "'p spec_config \<Rightarrow> (sid \<times> expr) list \<Rightarrow> 'p executor \<Rightarrow> 'p executor option" where
  "add_constraints C [] X = Some X"
| "add_constraints C ((s, e) # ss) X = do { X \<leftarrow> add_constraint C s e X; add_constraints C ss X }"

definition branch_conditions :: "'p spec_config \<Rightarrow> (nat \<Rightarrow> nat) \<Rightarrow> sid \<Rightarrow> expr list \<Rightarrow> 'p executor \<Rightarrow> (sid list \<times> 'p executor) option" where
  "branch_conditions C rng s conditions X =
     do { assert_that (conditions \<noteq> []);
          (result, X) \<leftarrow> branch_states C rng (length conditions - 1) [s]
                           (X\<lparr>ex_forks := ex_forks X + (length conditions - 1)\<rparr>);
          X \<leftarrow> add_constraints C (zip result conditions) X;
          Some (result, X) }"

text \<open>
  The instructions \<^verbatim>\<open>switch\<close> and \<^verbatim>\<open>indirectbr\<close>. A speculative state does not follow them. \<open>sw_target\<close>
  is the successor when the operand has one value, \<open>sw_cases\<close> the conditions of the possible successors
  otherwise, \<open>sw_error\<close> the condition of an illegal label address when that is possible.
\<close>

record switch_request =
  sw_target :: "nat option"
  sw_cases :: "(expr \<times> nat) list"
  sw_error :: "expr option"
  sw_rng :: "nat \<Rightarrow> nat"

fun transfers :: "(nat \<times> sid) list \<Rightarrow> 'p executor \<Rightarrow> 'p executor option" where
  "transfers [] X = Some X"
| "transfers ((dst, s) # ds) X = do { X \<leftarrow> transfer dst (Some s) X; transfers ds X }"

definition exec_Switch :: "'p spec_config \<Rightarrow> sid \<Rightarrow> switch_request \<Rightarrow> 'p executor \<Rightarrow> 'p executor option" where
  "exec_Switch C s sw X =
     do { st \<leftarrow> ex_heap X s;
          if es_isSpeculative st then terminateSpecState C s X
          else case sw_target sw of
            Some dst \<Rightarrow> transfer dst (Some s) X
          | None \<Rightarrow>
              do { (branches, X) \<leftarrow> branch_conditions C (sw_rng sw) s
                     (map fst (sw_cases sw) @ (case sw_error sw of None \<Rightarrow> [] | Some e \<Rightarrow> [e])) X;
                   X \<leftarrow> (case sw_error sw of None \<Rightarrow> Some X | Some _ \<Rightarrow> terminateState C (last branches) X);
                   transfers (zip (map snd (sw_cases sw)) branches) X } }"

text \<open>
  Instructions that fork on a condition of their own (\<^verbatim>\<open>isInternal\<close>). \<^verbatim>\<open>executeAlloc\<close>: whether the size has one
  value (\<open>al_isConst\<close>); if not, the condition that it is the example the solver gave and the
  halving loop made smaller, whether the other state has one value left, and the condition that it is huge. The
  effects allocate and bind the object, or bind the null pointer.
\<close>

record 'p alloc_request =
  al_isConst :: bool
  al_effect :: "'p \<Rightarrow> 'p"
  al_isExample :: expr
  al_twoValues :: bool
  al_otherEffect :: "'p \<Rightarrow> 'p"
  al_isHuge :: expr
  al_bindNull :: "'p \<Rightarrow> 'p"

definition when_some :: "('a \<Rightarrow> 'p executor \<Rightarrow> 'p executor option) \<Rightarrow> 'a option \<Rightarrow> 'p executor \<Rightarrow> 'p executor option" where
  "when_some f u X = (case u of None \<Rightarrow> Some X | Some s \<Rightarrow> f s X)"

definition alloc_other :: "'p spec_config \<Rightarrow> 'p alloc_request \<Rightarrow> sid \<Rightarrow> 'p executor \<Rightarrow> 'p executor option" where
  "alloc_other C al s X =
     (if al_twoValues al then apply_data (al_otherEffect al) s X
      else do { ((huge, notHuge), X) \<leftarrow> fork C s (al_isHuge al) True X;
                X \<leftarrow> when_some (apply_data (al_bindNull al)) huge X;
                when_some (terminateState C) notHuge X })"

definition executeAlloc :: "'p spec_config \<Rightarrow> sid \<Rightarrow> 'p alloc_request \<Rightarrow> 'p executor \<Rightarrow> 'p executor option" where
  "executeAlloc C s al X =
     (if al_isConst al then apply_data (al_effect al) s X
      else do { ((first, second), X) \<leftarrow> fork C s (al_isExample al) True X;
                X \<leftarrow> when_some (alloc_other C al) second X;
                when_some (apply_data (al_effect al)) first X })"

text \<open>\<^verbatim>\<open>resolveExact\<close>: the objects an address may be the base of, with the condition for each.\<close>

fun resolveExact :: "'p spec_config \<Rightarrow> (expr \<times> 'o) list \<Rightarrow> sid \<Rightarrow> 'p executor \<Rightarrow> (('o \<times> sid) list \<times> 'p executor) option" where
  "resolveExact C [] unbound X = do { X \<leftarrow> terminateState C unbound X; Some ([], X) }"
| "resolveExact C ((inBounds, ob) # rl) unbound X =
     do { ((bound, unbound), X) \<leftarrow> fork C unbound inBounds True X;
          let found = (case bound of None \<Rightarrow> [] | Some b \<Rightarrow> [(ob, b)]) in
          (case unbound of
             None \<Rightarrow> Some (found, X)
           | Some u \<Rightarrow> do { (rs, X) \<leftarrow> resolveExact C rl u X; Some (found @ rs, X) }) }"

fun on_each :: "('o \<Rightarrow> sid \<Rightarrow> 'p executor \<Rightarrow> 'p executor option) \<Rightarrow> ('o \<times> sid) list \<Rightarrow> 'p executor \<Rightarrow> 'p executor option" where
  "on_each f [] X = Some X"
| "on_each f ((ob, s) # rs) X = do { X \<leftarrow> f ob s X; on_each f rs X }"

text \<open>\<^verbatim>\<open>executeFree\<close>: a local or global object (\<^term>\<open>None\<close>) is not freed; otherwise the effect unbinds it.\<close>

record 'p free_request =
  fr_isZero :: expr
  fr_bindNull :: "'p \<Rightarrow> 'p"
  fr_rl :: "(expr \<times> ('p \<Rightarrow> 'p) option) list"

definition free_object :: "'p spec_config \<Rightarrow> ('p \<Rightarrow> 'p) option \<Rightarrow> sid \<Rightarrow> 'p executor \<Rightarrow> 'p executor option" where
  "free_object C unbind s X = (case unbind of None \<Rightarrow> terminateState C s X | Some f \<Rightarrow> apply_data f s X)"

text \<open>
  The special functions that look for the object at an address: \<^verbatim>\<open>klee_make_symbolic\<close> (which ends the state when the
  object is read-only or has another size), \<^verbatim>\<open>klee_get_obj_size\<close>, \<^verbatim>\<open>klee_prefer_cex\<close>, \<^verbatim>\<open>klee_mark_global\<close>. After a read-only
  object the first one leaves the other states as they are.
\<close>

definition on_objects :: "'p spec_config \<Rightarrow> (expr \<times> ('p \<Rightarrow> 'p) option) list \<Rightarrow> sid \<Rightarrow> 'p executor \<Rightarrow> 'p executor option" where
  "on_objects C rl s X = do { (rs, X) \<leftarrow> resolveExact C rl s X; on_each (free_object C) rs X }"

definition executeFree :: "'p spec_config \<Rightarrow> sid \<Rightarrow> 'p free_request \<Rightarrow> 'p executor \<Rightarrow> 'p executor option" where
  "executeFree C s fr X =
     do { ((first, second), X) \<leftarrow> fork C s (fr_isZero fr) True X;
          X \<leftarrow> when_some (apply_data (fr_bindNull fr)) first X;
          when_some (on_objects C (fr_rl fr)) second X }"

text \<open>\<^verbatim>\<open>handleRealloc\<close>.\<close>

record 'p realloc_request =
  re_zeroSize :: expr
  re_free :: "'p free_request"
  re_zeroPointer :: expr
  re_alloc :: "'p alloc_request"
  re_rl :: "(expr \<times> 'p alloc_request) list"

definition handleRealloc :: "'p spec_config \<Rightarrow> sid \<Rightarrow> 'p realloc_request \<Rightarrow> 'p executor \<Rightarrow> 'p executor option" where
  "handleRealloc C s re X =
     do { ((zero, nonZero), X) \<leftarrow> fork C s (re_zeroSize re) True X;
          X \<leftarrow> when_some (\<lambda>u. executeFree C u (re_free re)) zero X;
          when_some (\<lambda>u X.
            do { ((null, other), X) \<leftarrow> fork C u (re_zeroPointer re) True X;
                 X \<leftarrow> when_some (\<lambda>v. executeAlloc C v (re_alloc re)) null X;
                 when_some (\<lambda>v X. do { (rs, X) \<leftarrow> resolveExact C (re_rl re) v X;
                                       on_each (\<lambda>al w. executeAlloc C w al) rs X }) other X }) nonZero X }"

text \<open>
  \<^verbatim>\<open>executeCall\<close>: a function with a body is entered (the effect pushes the frame and binds the
  arguments), or an external function changes the data and execution goes on after it; the special functions of the allocator, and those that work on the object at an address; every call that ends the state (an external function that
  fails, or that a speculative state does not call, too few arguments, the limit on the stack).
\<close>

datatype 'p callee = Enter "'p \<Rightarrow> 'p" nat | Alloc "'p alloc_request" | Free "'p free_request"
  | Realloc "'p realloc_request" | OnObject "(expr \<times> ('p \<Rightarrow> 'p) option) list" | Ends

fun executeCall :: "'p spec_config \<Rightarrow> sid \<Rightarrow> 'p callee \<Rightarrow> 'p executor \<Rightarrow> 'p executor option" where
  "executeCall C s (Enter f entry) X = do { X \<leftarrow> apply_data f s X; transfer entry (Some s) X }"
| "executeCall C s (Alloc al) X = executeAlloc C s al X"
| "executeCall C s (Free fr) X = executeFree C s fr X"
| "executeCall C s (Realloc re) X = handleRealloc C s re X"
| "executeCall C s (OnObject rl) X = on_objects C rl s X"
| "executeCall C s Ends X = terminateState C s X"

text \<open>
  A call through a pointer. The list has, for each round of the loop, the condition that the pointer has the value
  the solver gave and the function at that value, if it is one; a list that ends before the loop does has no
  result. The first value that is no function ends the calling state (\<open>state\<close>, not the state
  that has the value); ending it when the call of an earlier round already did makes \<^verbatim>\<open>updateStates\<close> fail
  on \<^verbatim>\<open>removedStates\<close> at the end of the round, here at once.
\<close>

fun call_pointer :: "'p spec_config \<Rightarrow> sid \<Rightarrow> bool \<Rightarrow> (expr \<times> 'p callee option) list \<Rightarrow> sid \<Rightarrow> 'p executor \<Rightarrow> 'p executor option" where
  "call_pointer C state hasInvalid [] free X = None"
| "call_pointer C state hasInvalid ((isValue, f) # vs) free X =
     do { ((first, second), X) \<leftarrow> fork C free isValue True X;
          X \<leftarrow> when_some (\<lambda>u X. case f of
                 Some g \<Rightarrow> executeCall C u g X
               | None \<Rightarrow> if hasInvalid then Some X
                         else do { assert_that (state \<notin> set (ex_removedStates X)); terminateState C state X }) first X;
          let hasInvalid = (hasInvalid \<or> (first \<noteq> None \<and> f = None)) in
          (case second of None \<Rightarrow> Some X | Some u \<Rightarrow> call_pointer C state hasInvalid vs u X) }"

text \<open>
  What an instruction asks for: a change of the state's own data, an unconditional or conditional
  branch, a switch, a memory access, a call, or the end of the state (return from the last frame, an error, an
  instruction speculation does not follow).
\<close>

datatype 'p action = Plain "'p \<Rightarrow> 'p" | Jump nat | Br expr nat nat | Switch switch_request | Mem "'p mem_request"
  | Call "'p callee" | CallPointer "(expr \<times> 'p callee option) list" | Stop

fun exec_action :: "'p spec_config \<Rightarrow> sid \<Rightarrow> 'p action \<Rightarrow> 'p executor \<Rightarrow> 'p executor option" where
  "exec_action C s (Plain f) X = apply_data f s X"
| "exec_action C s (Jump dst) X = transfer dst (Some s) X"
| "exec_action C s (Br cond succ0 succ1) X = exec_Br C s cond succ0 succ1 X"
| "exec_action C s (Switch sw) X = exec_Switch C s sw X"
| "exec_action C s (Mem m) X = executeMemoryOperation C s m X"
| "exec_action C s (Call f) X = executeCall C s f X"
| "exec_action C s (CallPointer vs) X = call_pointer C s False vs s X"
| "exec_action C s Stop X = terminateState C s X"

definition executeInstruction :: "'p spec_config \<Rightarrow> sid \<Rightarrow> 'p action \<Rightarrow> 'p executor \<Rightarrow> 'p executor option" where
  "executeInstruction C s a X =
     do { st \<leftarrow> ex_heap X s;
          if es_isSpeculative st \<and> (es_specInstCount st \<le> 0 \<or> in_libs (ii_file (sc_info C (es_prevPC st))))
          then terminateSpecState C s X
          else exec_action C s a X }"

subsection \<open>The search\<close>

text \<open>\<^verbatim>\<open>DFSSearcher\<close>: the newest state, but its speculative states first.\<close>

definition selectState :: "'p executor \<Rightarrow> sid option" where
  "selectState X =
     do { assert_that (ex_searcher X \<noteq> []);
          let ps = last (ex_searcher X) in
          do { st \<leftarrow> ex_heap X ps;
               if es_specStates st \<noteq> [] then selectSpState ps X else Some ps } }"

fun searcher_remove :: "sid list \<Rightarrow> sid list \<Rightarrow> sid list option" where
  "searcher_remove [] states = Some states"
| "searcher_remove (es # removed) states =
     (if states \<noteq> [] \<and> es = last states then searcher_remove removed (butlast states)
      else do { assert_that (es \<in> set states); searcher_remove removed (remove1 es states) })"

fun remove_states :: "sid list \<Rightarrow> 'p executor \<Rightarrow> 'p executor option" where
  "remove_states [] X = Some X"
| "remove_states (es # removed) X =
     do { assert_that (es \<in> ex_states X);
          remove_states removed (delete_state es (X\<lparr>ex_states := ex_states X - {es}\<rparr>)) }"

definition updateStates :: "'p executor \<Rightarrow> 'p executor option" where
  "updateStates X =
     do { sl \<leftarrow> searcher_remove (ex_removedStates X) (ex_searcher X @ ex_addedStates X);
          let X = X\<lparr>ex_searcher := sl, ex_states := ex_states X \<union> set (ex_addedStates X), ex_addedStates := []\<rparr> in
          do { X \<leftarrow> remove_states (ex_removedStates X) X; Some (X\<lparr>ex_removedStates := []\<rparr>) } }"

text \<open>One round of the loop of \<^verbatim>\<open>Executor::run\<close>.\<close>

definition run_step :: "'p spec_config \<Rightarrow> 'p action \<Rightarrow> 'p executor \<Rightarrow> 'p executor option" where
  "run_step C a X =
     do { s \<leftarrow> selectState X;
          X \<leftarrow> stepInstruction C s X;
          X \<leftarrow> executeInstruction C s a X;
          updateStates X }"

text \<open>
  The start: the counters of tags, the first state, and the search that knows it. The loop of
  \<^verbatim>\<open>Executor::run\<close> goes on until no state is left; a list of actions says what the instructions
  of the first rounds ask for.
\<close>

definition new_executor :: "'p executor" where
  "new_executor = \<lparr>ex_heap = Map.empty, ex_next = 0, ex_count = 0, ex_spCount = 1, ex_states = {}, ex_addedStates = [],
     ex_removedStates = [], ex_searcher = [], ex_recorder = new_SpectreRecorder, ex_bufs = empty_bufs, ex_found_vuls = Map.empty,
     ex_forks = 0, ex_spStates = 0, ex_spStatesDone = 0, ex_totalSpecInst = 0, ex_instructions = 0\<rparr>"

definition new_ExecutionState :: "nat \<Rightarrow> 'p \<Rightarrow> 'p executor \<Rightarrow> sid \<times> 'p executor" where
  "new_ExecutionState pc d X =
     (let s = ex_next X in
      (s, upd_state s \<lparr>es_pc = pc, es_prevPC = pc, es_data = d, es_depth = 0, es_coveredNew = False,
            es_steppedInstructions = 0, es_isSpeculative = False, es_specInstCount = 0, es_tag = ex_count X, es_pTag = 2 ^ 64 - 1,
            es_pSpecState = None, es_pPerentState = None, es_cacheState = new_CacheState, es_specStates = [],
            es_finishedSpecStates = []\<rparr>
          (X\<lparr>ex_next := s + 1, ex_count := ex_count X + 2\<rparr>)))"

definition start_run :: "sid \<Rightarrow> 'p executor \<Rightarrow> 'p executor" where
  "start_run initialState X = X\<lparr>ex_states := insert initialState (ex_states X), ex_searcher := [initialState]\<rparr>"

fun run_loop :: "'p spec_config \<Rightarrow> 'p action list \<Rightarrow> 'p executor \<Rightarrow> 'p executor option" where
  "run_loop C [] X = Some X"
| "run_loop C (a # as) X = (if ex_states X = {} then Some X else do { X \<leftarrow> run_step C a X; run_loop C as X })"

end
