(* ===== verification/SpecInv.thy ===== *)
theory SpecInv
  imports SpecExec
begin

text \<open>
  Invariants of speculative execution. What matters of a state here is its \<^emph>\<open>skeleton\<close>: whether it is
  speculative, how much of its window is left, its tag, its parent and its two lists of speculative states.
  \<open>inv C L X\<close> says that the heap is consistent, except that the states in \<open>L\<close> have been allocated
  but are not queued yet: every queued state is speculative and owned by the state it is
  queued at, every speculative state is queued at its normal parent, windows do not
  exceed \<^verbatim>\<open>maxSEW\<close>, and tags are unique (odd for speculative states, even for normal ones).
\<close>

subsection \<open>Skeletons\<close>

record skel =
  k_spec :: bool
  k_count :: int
  k_tag :: nat
  k_perent :: "sid option"
  k_queue :: "sid list"
  k_fin :: "sid list"

definition skel_of :: "'p exec_state \<Rightarrow> skel" where
  "skel_of st = \<lparr>k_spec = es_isSpeculative st, k_count = es_specInstCount st, k_tag = es_tag st,
     k_perent = es_pPerentState st, k_queue = es_specStates st, k_fin = es_finishedSpecStates st\<rparr>"

lemma skel_of_simps [simp]:
  "k_spec (skel_of st) = es_isSpeculative st" "k_count (skel_of st) = es_specInstCount st"
  "k_tag (skel_of st) = es_tag st" "k_perent (skel_of st) = es_pPerentState st"
  "k_queue (skel_of st) = es_specStates st" "k_fin (skel_of st) = es_finishedSpecStates st"
  by (simp_all add: skel_of_def)

definition sk :: "'p executor \<Rightarrow> sid \<rightharpoonup> skel" where
  "sk X s = map_option skel_of (ex_heap X s)"

lemma sk_SomeD: "ex_heap X s = Some st \<Longrightarrow> sk X s = Some (skel_of st)"
  by (simp add: sk_def)

lemma sk_SomeE: assumes "sk X s = Some k" obtains st where "ex_heap X s = Some st" "k = skel_of st"
  using assms by (auto simp: sk_def)

lemma sk_upd_state [simp]: "sk (upd_state s st X) = (sk X)(s \<mapsto> skel_of st)"
  by (simp add: sk_def fun_eq_iff)

lemma sk_delete [simp]: "sk (delete_state s X) = (sk X)(s := None)"
  by (simp add: sk_def delete_state_def fun_eq_iff)

text \<open>Everything the invariant looks at.\<close>

definition view :: "'p executor \<Rightarrow> (sid \<rightharpoonup> skel) \<times> sid \<times> nat \<times> nat \<times> sid set \<times> sid list \<times> sid list \<times> sid list" where
  "view X = (sk X, ex_next X, ex_count X, ex_spCount X, ex_states X, ex_searcher X, ex_addedStates X, ex_removedStates X)"

lemma same_skel:
  "ex_heap X s = Some st \<Longrightarrow> skel_of st' = skel_of st \<Longrightarrow> view (upd_state s st' X) = view X"
  by (auto simp: view_def sk_def fun_eq_iff)

subsection \<open>The invariant\<close>

definition owned :: "sid \<Rightarrow> (sid \<rightharpoonup> skel) \<Rightarrow> sid \<Rightarrow> bool" where
  "owned p K q \<longleftrightarrow> (\<exists>k. K q = Some k \<and> k_spec k \<and> k_perent k = Some p)"

definition queue_ok :: "'p spec_config \<Rightarrow> sid set \<Rightarrow> (sid \<rightharpoonup> skel) \<Rightarrow> sid \<Rightarrow> skel \<Rightarrow> bool" where
  "queue_ok C L K p k \<longleftrightarrow> distinct (k_queue k @ k_fin k)
     \<and> (\<forall>q \<in> set (k_queue k @ k_fin k). q \<notin> L \<and> owned p K q)
     \<and> (k_queue k = [] \<or> \<not> isCacheEnabled C \<longrightarrow> k_fin k = []) \<and> (k_spec k \<longrightarrow> k_queue k = [])"

definition home_ok :: "(sid \<rightharpoonup> skel) \<Rightarrow> sid list \<Rightarrow> sid \<Rightarrow> skel \<Rightarrow> bool" where
  "home_ok K norm q k \<longleftrightarrow> (if k_spec k
     then \<exists>p kp. k_perent k = Some p \<and> K p = Some kp \<and> \<not> k_spec kp \<and> q \<in> set (k_queue kp @ k_fin kp)
     else q \<in> set norm)"

definition tag_ok :: "nat \<Rightarrow> nat \<Rightarrow> skel \<Rightarrow> bool" where
  "tag_ok cnt sp k \<longleftrightarrow> (if k_spec k then odd (k_tag k) \<and> k_tag k < sp else even (k_tag k) \<and> k_tag k < cnt)"

definition inv_view :: "'p spec_config \<Rightarrow> sid set \<Rightarrow>
    (sid \<rightharpoonup> skel) \<times> sid \<times> nat \<times> nat \<times> sid set \<times> sid list \<times> sid list \<times> sid list \<Rightarrow> bool" where
  "inv_view C L = (\<lambda>(K, nx, cnt, sp, sts, sl, added, removed).
     (\<forall>s k. K s = Some k \<longrightarrow> s < nx \<and> queue_ok C L K s k \<and> (s \<notin> L \<longrightarrow> home_ok K (sl @ added) s k)
        \<and> (k_spec k \<longrightarrow> k_count k \<le> maxSEW C) \<and> tag_ok cnt sp k)
     \<and> inj_on (\<lambda>s. k_tag (the (K s))) (dom K) \<and> even cnt \<and> odd sp
     \<and> distinct (sl @ added) \<and> (\<forall>s \<in> set (sl @ added). \<exists>k. K s = Some k \<and> \<not> k_spec k)
     \<and> set sl = sts \<and> distinct removed
     \<and> (\<forall>s \<in> set removed. s \<in> set sl \<and> (\<exists>k. K s = Some k \<and> k_queue k = [])))"

definition inv :: "'p spec_config \<Rightarrow> sid set \<Rightarrow> 'p executor \<Rightarrow> bool" where
  "inv C L X = inv_view C L (view X)"

lemma inv_cong: "view X = view Y \<Longrightarrow> inv C L X = inv C L Y"
  by (simp add: inv_def)

lemmas inv_unfold = inv_def inv_view_def view_def

type_synonym vw = "(sid \<rightharpoonup> skel) \<times> sid \<times> nat \<times> nat \<times> sid set \<times> sid list \<times> sid list \<times> sid list"

lemma inv_viewI:
  assumes "\<And>s k. K s = Some k \<Longrightarrow> s < nx" "\<And>s k. K s = Some k \<Longrightarrow> queue_ok C L K s k"
    "\<And>s k. K s = Some k \<Longrightarrow> s \<notin> L \<Longrightarrow> home_ok K (sl @ added) s k"
    "\<And>s k. K s = Some k \<Longrightarrow> k_spec k \<Longrightarrow> k_count k \<le> maxSEW C" "\<And>s k. K s = Some k \<Longrightarrow> tag_ok cnt sp k"
    "\<And>s t ks kt. K s = Some ks \<Longrightarrow> K t = Some kt \<Longrightarrow> k_tag ks = k_tag kt \<Longrightarrow> s = t"
    "even cnt" "odd sp" "distinct (sl @ added)" "\<And>s. s \<in> set (sl @ added) \<Longrightarrow> \<exists>k. K s = Some k \<and> \<not> k_spec k"
    "set sl = sts" "distinct removed" "\<And>s. s \<in> set removed \<Longrightarrow> s \<in> set sl \<and> (\<exists>k. K s = Some k \<and> k_queue k = [])"
  shows "inv_view C L (K, nx, cnt, sp, sts, sl, added, removed)"
  unfolding inv_view_def prod.case
  using assms(1-5,7-13) by (intro conjI allI ballI impI inj_onI) (auto dest: assms(6))

lemma inv_viewD:
  assumes "inv_view C L (K, nx, cnt, sp, sts, sl, added, removed)"
  shows "\<And>s k. K s = Some k \<Longrightarrow> s < nx" "\<And>s k. K s = Some k \<Longrightarrow> queue_ok C L K s k"
    "\<And>s k. K s = Some k \<Longrightarrow> s \<notin> L \<Longrightarrow> home_ok K (sl @ added) s k"
    "\<And>s k. K s = Some k \<Longrightarrow> k_spec k \<Longrightarrow> k_count k \<le> maxSEW C" "\<And>s k. K s = Some k \<Longrightarrow> tag_ok cnt sp k"
    "\<And>s t ks kt. K s = Some ks \<Longrightarrow> K t = Some kt \<Longrightarrow> k_tag ks = k_tag kt \<Longrightarrow> s = t"
    "even cnt" "odd sp" "distinct (sl @ added)" "\<And>s. s \<in> set (sl @ added) \<Longrightarrow> \<exists>k. K s = Some k \<and> \<not> k_spec k"
    "set sl = sts" "distinct removed" "\<And>s. s \<in> set removed \<Longrightarrow> s \<in> set sl \<and> (\<exists>k. K s = Some k \<and> k_queue k = [])"
proof -
  note I = assms [unfolded inv_view_def prod.case]
  show "K s = Some ks \<Longrightarrow> K t = Some kt \<Longrightarrow> k_tag ks = k_tag kt \<Longrightarrow> s = t" for s t ks kt
    using I by (auto simp: inj_on_def dom_def)
qed (use assms [unfolded inv_view_def prod.case] in blast)+

subsection \<open>The steps on views\<close>

lemma queue_ok_mono:
  assumes "queue_ok C L K p k" "\<And>q. q \<in> set (k_queue k @ k_fin k) \<Longrightarrow> q \<notin> L' \<and> owned p K' q"
  shows "queue_ok C L' K' p k"
  using assms unfolding queue_ok_def by blast

lemma owned_other [simp]: "q \<noteq> x \<Longrightarrow> owned p (K(x := v)) q = owned p K q"
  by (simp add: owned_def)

lemma home_ok_mono:
  assumes "home_ok K norm s k" "\<not> k_spec k \<Longrightarrow> s \<in> set norm \<Longrightarrow> s \<in> set norm'"
    "\<And>p kp. k_perent k = Some p \<Longrightarrow> K p = Some kp \<Longrightarrow> \<not> k_spec kp \<Longrightarrow> s \<in> set (k_queue kp @ k_fin kp)
      \<Longrightarrow> \<exists>kp'. K' p = Some kp' \<and> \<not> k_spec kp' \<and> s \<in> set (k_queue kp' @ k_fin kp')"
  shows "home_ok K' norm' s k"
  using assms unfolding home_ok_def by (metis (full_types))

text \<open>A new state, not queued yet.\<close>

lemma inv_alloc:
  assumes inv: "inv_view C L (K, nx, cnt, sp, sts, sl, added, removed)"
    and new: "k_queue k = []" "k_fin k = []" "k_spec k \<Longrightarrow> k_count k \<le> maxSEW C"
      "k_tag k = (if k_spec k then sp else cnt)"
  shows "inv_view C (insert nx L) (K(nx \<mapsto> k), nx + 1, if k_spec k then cnt else cnt + 2,
    if k_spec k then sp + 2 else sp, sts, sl, added, removed)"
proof (rule inv_viewI)
  note D = inv_viewD [OF inv]
  have nx: "K nx = None" using D(1) [of nx] by (cases "K nx") auto
  have lt: "q \<noteq> nx" if "K q = Some kq" for q kq using that nx by auto
  have tag: "k_tag kt \<noteq> k_tag k" if "K t = Some kt" for t kt
    using D(5) [OF that] D(7,8) new(4) by (auto simp: tag_ok_def split: if_splits)
  fix s ks assume s: "(K(nx \<mapsto> k)) s = Some ks"
  show "s < nx + 1" using s D(1) by (auto split: if_splits intro: less_SucI)
  show "queue_ok C (insert nx L) (K(nx \<mapsto> k)) s ks"
  proof (cases "s = nx")
    case False
    with s have q: "queue_ok C L K s ks" using D(2) by simp
    then show ?thesis
    proof (rule queue_ok_mono)
      fix q assume "q \<in> set (k_queue ks @ k_fin ks)"
      with q have "q \<notin> L" "owned s K q" by (auto simp: queue_ok_def)
      moreover from this(2) lt have "q \<noteq> nx" by (auto simp: owned_def)
      ultimately show "q \<notin> insert nx L \<and> owned s (K(nx \<mapsto> k)) q" by simp
    qed
  qed (use s new in \<open>simp add: queue_ok_def\<close>)
  show "home_ok (K(nx \<mapsto> k)) (sl @ added) s ks" if "s \<notin> insert nx L"
    by (rule home_ok_mono [of K "sl @ added"]) (use that s D(3) [of s ks] nx in auto)
  show "tag_ok (if k_spec k then cnt else cnt + 2) (if k_spec k then sp + 2 else sp) ks"
    using s new(4) D(5) [of s ks] D(7,8) by (auto simp: tag_ok_def split: if_splits)
  show "s = t" if "(K(nx \<mapsto> k)) t = Some kt" "k_tag ks = k_tag kt" for t kt
    using s that D(6) [of s ks t kt] tag [of s ks] tag [of t kt] by (auto split: if_splits)
  show "k_count ks \<le> maxSEW C" if "k_spec ks" using s that new(3) D(4) [of s ks] by (auto split: if_splits)
next
  note D = inv_viewD [OF inv]
  have nx: "K nx = None" using D(1) [of nx] by (cases "K nx") auto
  show "even (if k_spec k then cnt else cnt + 2)" "odd (if k_spec k then sp + 2 else sp)" using D(7,8) by simp_all
  show "\<exists>ka. (K(nx \<mapsto> k)) s = Some ka \<and> \<not> k_spec ka" if "s \<in> set (sl @ added)" for s
    using D(10) [OF that] nx by (metis fun_upd_other option.distinct(1))
  show "s \<in> set sl \<and> (\<exists>ka. (K(nx \<mapsto> k)) s = Some ka \<and> k_queue ka = [])" if "s \<in> set removed" for s
    using D(13) [OF that] nx by (metis fun_upd_other option.distinct(1))
qed (fact inv_viewD [OF inv])+

text \<open>The parent of a state that is not queued yet.\<close>

lemma inv_set_perent:
  assumes inv: "inv_view C L (K, nx, cnt, sp, sts, sl, added, removed)" and x: "x \<in> L" "K x = Some k"
  shows "inv_view C L (K(x \<mapsto> k\<lparr>k_perent := p\<rparr>), nx, cnt, sp, sts, sl, added, removed)" (is "inv_view _ _ (?K, _)")
proof (rule inv_viewI)
  note D = inv_viewD [OF inv]
  have old: "\<exists>k0. K s = Some k0 \<and> k_spec ks = k_spec k0 \<and> k_count ks = k_count k0 \<and> k_tag ks = k_tag k0
      \<and> k_queue ks = k_queue k0 \<and> k_fin ks = k_fin k0 \<and> (s \<noteq> x \<longrightarrow> ks = k0)" if "?K s = Some ks" for s ks
    using that x(2) by (auto split: if_splits)
  fix s ks assume s: "?K s = Some ks"
  then obtain k0 where k0: "K s = Some k0" "k_spec ks = k_spec k0" "k_count ks = k_count k0" "k_tag ks = k_tag k0"
      "k_queue ks = k_queue k0" "k_fin ks = k_fin k0" "s \<noteq> x \<longrightarrow> ks = k0" using old by blast
  show "s < nx" "k_spec ks \<Longrightarrow> k_count ks \<le> maxSEW C" "tag_ok cnt sp ks"
    using D(1,4,5) [OF k0(1)] k0 by (simp_all add: tag_ok_def)
  have q: "queue_ok C L K s k0" using D(2) k0(1) by blast
  then have "owned s ?K q" if "q \<in> set (k_queue k0 @ k_fin k0)" for q
    using that x(1) by (cases "q = x") (auto simp: queue_ok_def)
  with q k0 show "queue_ok C L ?K s ks" by (simp add: queue_ok_def)
  show "home_ok ?K (sl @ added) s ks" if "s \<notin> L"
    by (rule home_ok_mono [of K "sl @ added"]) (use that s x D(3) [of s ks] in \<open>auto split: if_splits\<close>)
  show "s = t" if "?K t = Some kt" "k_tag ks = k_tag kt" for t kt
    using old [OF that(1)] that(2) k0 D(6) by metis
next
  note D = inv_viewD [OF inv]
  show "\<exists>ka. ?K s = Some ka \<and> \<not> k_spec ka" if "s \<in> set (sl @ added)" for s
    using D(10) [OF that] x(2) by (auto split: if_splits)
  show "s \<in> set sl \<and> (\<exists>ka. ?K s = Some ka \<and> k_queue ka = [])" if "s \<in> set removed" for s
    using D(13) [OF that] x(2) by (auto split: if_splits)
qed (fact inv_viewD [OF inv])+

text \<open>Queueing a state at its parent.\<close>

lemma inv_push:
  assumes inv: "inv_view C L (K, nx, cnt, sp, sts, sl, added, removed)"
    and x: "x \<in> L" "K x = Some kx" "k_spec kx" "k_perent kx = Some p" and p: "K p = Some kp" "\<not> k_spec kp" "p \<notin> set removed"
  shows "inv_view C (L - {x}) (K(p \<mapsto> kp\<lparr>k_queue := k_queue kp @ [x]\<rparr>), nx, cnt, sp, sts, sl, added, removed)"
    (is "inv_view _ _ (?K, _)")
proof (rule inv_viewI)
  note D = inv_viewD [OF inv]
  have old: "\<exists>k0. K s = Some k0 \<and> k_spec ks = k_spec k0 \<and> k_count ks = k_count k0 \<and> k_tag ks = k_tag k0
      \<and> k_perent ks = k_perent k0 \<and> k_fin ks = k_fin k0 \<and> set (k_queue k0) \<subseteq> set (k_queue ks) \<and> (s \<noteq> p \<longrightarrow> ks = k0)"
    if "?K s = Some ks" for s ks using that p(1) by (auto split: if_splits)
  have own: "owned s ?K q \<longleftrightarrow> owned s K q" for s q
    using p(1,2) by (auto simp: owned_def)
  fix s ks assume s: "?K s = Some ks"
  then obtain k0 where k0: "K s = Some k0" "k_spec ks = k_spec k0" "k_count ks = k_count k0" "k_tag ks = k_tag k0"
      "k_perent ks = k_perent k0" "s \<noteq> p \<longrightarrow> ks = k0" using old by blast
  show "s < nx" "k_spec ks \<Longrightarrow> k_count ks \<le> maxSEW C" "tag_ok cnt sp ks"
    using D(1,4,5) [OF k0(1)] k0 by (simp_all add: tag_ok_def)
  have q: "queue_ok C L K s k0" using D(2) k0(1) by blast
  show "queue_ok C (L - {x}) ?K s ks"
  proof (cases "s = p")
    case True
    then have "k0 = kp" "ks = kp\<lparr>k_queue := k_queue kp @ [x]\<rparr>" using s k0(1) p(1) by simp_all
    moreover have "owned p K x" using x by (simp add: owned_def)
    ultimately show ?thesis using q x(1) True p(2) by (auto simp: queue_ok_def own)
  qed (use q k0 in \<open>auto simp: queue_ok_def own\<close>)
  show "home_ok ?K (sl @ added) s ks" if "s \<notin> L - {x}"
  proof (cases "s = x")
    case True
    have "x \<noteq> p" using x(2,3) p(1,2) by auto
    with True s x have "ks = kx" by simp
    with True x p \<open>x \<noteq> p\<close> show ?thesis by (auto simp: home_ok_def)
  next
    case False
    then have "home_ok K (sl @ added) s k0" using D(3) that k0(1) by simp
    then have "home_ok K (sl @ added) s ks" unfolding home_ok_def k0(2,5) .
    then show ?thesis by (rule home_ok_mono) (use p in auto)
  qed
  show "s = t" if "?K t = Some kt" "k_tag ks = k_tag kt" for t kt
    using old [OF that(1)] that(2) k0 D(6) by metis
next
  note D = inv_viewD [OF inv]
  show "\<exists>ka. ?K s = Some ka \<and> \<not> k_spec ka" if "s \<in> set (sl @ added)" for s
    using D(10) [OF that] p by (auto split: if_splits)
  show "s \<in> set sl \<and> (\<exists>ka. ?K s = Some ka \<and> k_queue ka = [])" if "s \<in> set removed" for s
    using D(13) [OF that] that p(3) by (metis fun_upd_other)
qed (fact inv_viewD [OF inv])+

text \<open>Handing a normal state to the searcher.\<close>

lemma inv_add:
  assumes inv: "inv_view C L (K, nx, cnt, sp, sts, sl, added, removed)"
    and x: "K x = Some kx" "\<not> k_spec kx" "x \<notin> set (sl @ added)"
  shows "inv_view C (L - {x}) (K, nx, cnt, sp, sts, sl, added @ [x], removed)"
proof (rule inv_viewI)
  note D = inv_viewD [OF inv]
  fix s k assume s: "K s = Some k"
  show "queue_ok C (L - {x}) K s k" using D(2) [OF s] by (auto simp: queue_ok_def)
  show "home_ok K (sl @ added @ [x]) s k" if "s \<notin> L - {x}"
  proof (cases "s = x")
    case True
    with s x show ?thesis by (simp add: home_ok_def)
  next
    case False
    then have "home_ok K (sl @ added) s k" using D(3) s that by simp
    then show ?thesis by (rule home_ok_mono) auto
  qed
next
  note D = inv_viewD [OF inv]
  show "distinct (sl @ added @ [x])" using D(9) x(3) by auto
  show "\<exists>k. K s = Some k \<and> \<not> k_spec k" if "s \<in> set (sl @ added @ [x])" for s
    using that D(10) x(1,2) by auto
qed (fact inv_viewD [OF inv])+

text \<open>Retiring speculative states of \<open>p\<close>: the states \<open>Del\<close> are deleted, the others stay.\<close>

definition retire :: "sid set \<Rightarrow> sid \<Rightarrow> skel \<Rightarrow> (sid \<rightharpoonup> skel) \<Rightarrow> (sid \<rightharpoonup> skel)" where
  "retire Del p kp K = (\<lambda>s. if s \<in> Del then None else K s)(p \<mapsto> kp)"

lemma inv_retire:
  assumes inv: "inv_view C L (K, nx, cnt, sp, sts, sl, added, removed)"
    and p: "K p = Some kp" "\<not> k_spec kp" "k_queue kp \<noteq> []"
    and Del: "Del \<subseteq> set (k_queue kp @ k_fin kp)"
    and new: "set (qs @ fs) = set (k_queue kp @ k_fin kp) - Del" "distinct (qs @ fs)"
      "qs = [] \<or> \<not> isCacheEnabled C \<longrightarrow> fs = []"
  shows "inv_view C L (retire Del p (kp\<lparr>k_queue := qs, k_fin := fs\<rparr>) K, nx, cnt, sp, sts, sl, added, removed)"
    (is "inv_view _ _ (?K, _)")
proof -
  note D = inv_viewD [OF inv]
  have del: "owned p K d" if "d \<in> Del" for d using D(2) [OF p(1)] Del that by (auto simp: queue_ok_def)
  have pD: "p \<notin> Del" using del p(1,2) by (force simp: owned_def)
  have Ks: "?K s = (if s = p then Some (kp\<lparr>k_queue := qs, k_fin := fs\<rparr>) else if s \<in> Del then None else K s)" for s
    by (simp add: retire_def)
  have old: "\<exists>k0. K s = Some k0 \<and> k_spec ks = k_spec k0 \<and> k_count ks = k_count k0 \<and> k_tag ks = k_tag k0
      \<and> k_perent ks = k_perent k0 \<and> s \<notin> Del \<and> (s \<noteq> p \<longrightarrow> ks = k0)"
    if "?K s = Some ks" for s ks using that p(1) pD by (auto simp: Ks split: if_splits)
  have own: "owned s ?K q \<longleftrightarrow> owned s K q" if "q \<notin> Del" for s q
    using p(1,2) that by (auto simp: owned_def Ks)
  have normal: "s \<notin> Del" if "K s = Some k" "\<not> k_spec k" for s k using del [of s] that by (auto simp: owned_def)
  show ?thesis
  proof (rule inv_viewI)
    fix s ks assume s: "?K s = Some ks"
    then obtain k0 where k0: "K s = Some k0" "k_spec ks = k_spec k0" "k_count ks = k_count k0" "k_tag ks = k_tag k0"
        "k_perent ks = k_perent k0" "s \<notin> Del" "s \<noteq> p \<longrightarrow> ks = k0" using old by blast
    show "s < nx" "k_spec ks \<Longrightarrow> k_count ks \<le> maxSEW C" "tag_ok cnt sp ks"
      using D(1,4,5) [OF k0(1)] k0 by (simp_all add: tag_ok_def)
    have q: "queue_ok C L K s k0" using D(2) k0(1) by blast
    show "queue_ok C L ?K s ks"
    proof (cases "s = p")
      case True
      then have ks: "k0 = kp" "ks = kp\<lparr>k_queue := qs, k_fin := fs\<rparr>" using s k0(1) p(1) by (simp_all add: Ks)
      have "q \<notin> L \<and> owned p ?K q" if "q \<in> set (qs @ fs)" for q
      proof -
        from that new(1) have "q \<in> set (k_queue kp @ k_fin kp)" "q \<notin> Del" by auto
        with D(2) [OF p(1)] own show ?thesis unfolding queue_ok_def by blast
      qed
      with True ks new p(2) show ?thesis by (simp add: queue_ok_def)
    next
      case False
      with k0 have "ks = k0" by simp
      moreover have "q \<notin> Del" if "q \<in> set (k_queue k0 @ k_fin k0)" for q
      proof
        assume "q \<in> Del"
        with del have "owned p K q" by blast
        moreover have "owned s K q" using q that unfolding queue_ok_def by blast
        ultimately show False using False by (auto simp: owned_def)
      qed
      ultimately show ?thesis using q own unfolding queue_ok_def by blast
    qed
    show "home_ok ?K (sl @ added) s ks" if "s \<notin> L"
    proof -
      have "home_ok K (sl @ added) s k0" using D(3) k0(1) that by blast
      then have "home_ok K (sl @ added) s ks" unfolding home_ok_def k0(2,5) .
      then show ?thesis
      proof (rule home_ok_mono)
        fix p' kp' assume p': "K p' = Some kp'" "\<not> k_spec kp'" "s \<in> set (k_queue kp' @ k_fin kp')"
        show "\<exists>kp''. ?K p' = Some kp'' \<and> \<not> k_spec kp'' \<and> s \<in> set (k_queue kp'' @ k_fin kp'')"
        proof (cases "p' = p")
          case True
          with p' p(1) have "s \<in> set (qs @ fs)" using new(1) k0(6) by auto
          with True p(2) show ?thesis by (simp add: Ks)
        next
          case False
          with p' normal [OF p'(1,2)] show ?thesis by (auto simp: Ks)
        qed
      qed
    qed
    show "s = t" if "?K t = Some kt" "k_tag ks = k_tag kt" for t kt
      using old [OF that(1)] that(2) k0 D(6) by metis
  next
    show "\<exists>ka. ?K s = Some ka \<and> \<not> k_spec ka" if "s \<in> set (sl @ added)" for s
      using D(10) [OF that] normal p by (auto simp: Ks)
    show "s \<in> set sl \<and> (\<exists>ka. ?K s = Some ka \<and> k_queue ka = [])" if rm: "s \<in> set removed" for s
    proof -
      obtain k where k: "s \<in> set sl" "K s = Some k" "k_queue k = []" using D(13) [OF rm] by blast
      then have "s \<noteq> p" using p by auto
      moreover have "s \<notin> Del" using D(10) [of s] k(1) normal by auto
      ultimately show ?thesis using k by (simp add: Ks)
    qed
  qed (fact inv_viewD [OF inv])+
qed

text \<open>A normal state that ends: marked for removal, or dropped when the searcher has not seen it.\<close>

lemma inv_mark_removed:
  assumes "inv_view C L (K, nx, cnt, sp, sts, sl, added, removed)"
    "K s = Some k" "k_queue k = []" "s \<in> set sl" "s \<notin> set removed"
  shows "inv_view C L (K, nx, cnt, sp, sts, sl, added, removed @ [s])"
  using inv_viewD [OF assms(1)] assms(2-) by (intro inv_viewI) (auto 0 2)

lemma inv_drop_added:
  assumes inv: "inv_view C L (K, nx, cnt, sp, sts, sl, added, removed)"
    and x: "K x = Some kx" "k_queue kx = []" "x \<in> set added" "x \<notin> L"
  shows "inv_view C L (K(x := None), nx, cnt, sp, sts, sl, remove1 x added, removed)" (is "inv_view _ _ (?K, _)")
proof -
  note D = inv_viewD [OF inv]
  have nx: "\<not> k_spec kx" using D(10) [of x] x by auto
  have fin: "k_fin kx = []" using D(2) [OF x(1)] x(2) by (simp add: queue_ok_def)
  have xsl: "x \<notin> set sl" using D(9) x(3) by auto
  show ?thesis
  proof (rule inv_viewI)
    fix s ks assume "?K s = Some ks"
    then have s: "K s = Some ks" "s \<noteq> x" by (auto split: if_splits)
    show "s < nx" "k_spec ks \<Longrightarrow> k_count ks \<le> maxSEW C" "tag_ok cnt sp ks" using D(1,4,5) [OF s(1)] by simp_all
    have "owned s ?K q" if "q \<in> set (k_queue ks @ k_fin ks)" for q
    proof -
      have "owned s K q" using D(2) [OF s(1)] that unfolding queue_ok_def by blast
      with x(1) nx show ?thesis by (auto simp: owned_def)
    qed
    with D(2) [OF s(1)] show "queue_ok C L ?K s ks" unfolding queue_ok_def by blast
    show "home_ok ?K (sl @ remove1 x added) s ks" if "s \<notin> L"
    proof -
      have "home_ok K (sl @ added) s ks" using D(3) s(1) that by blast
      then show ?thesis by (rule home_ok_mono) (use s(2) x fin in \<open>auto simp: in_set_remove1\<close>)
    qed
    show "s = t" if "?K t = Some kt" "k_tag ks = k_tag kt" for t kt
      using that s(1) D(6) [of s ks t kt] by (auto split: if_splits)
  next
    show "distinct (sl @ remove1 x added)" using D(9) set_remove1_subset [of x added] by (auto simp: distinct_remove1)
    show "\<exists>k. ?K s = Some k \<and> \<not> k_spec k" if "s \<in> set (sl @ remove1 x added)" for s
      using that D(9,10) xsl by (auto simp: set_remove1_eq)
    show "s \<in> set sl \<and> (\<exists>k. ?K s = Some k \<and> k_queue k = [])" if "s \<in> set removed" for s
      using D(13) [OF that] xsl by auto
  qed (fact inv_viewD [OF inv])+
qed

end
