(* ===== verification/SpecSafe.thy ===== *)
theory SpecSafe
  imports SpecInv
begin

text \<open>
  The operations of the executor keep the invariant of \<open>SpecInv\<close>. Each operation is first reduced
  to what it does to the view (\<open>v_alloc\<close>, \<open>v_perent\<close>, \<open>v_push\<close>, retiring); the invariant then follows from the
  lemmas on views.
\<close>

subsection \<open>Operations that do not change the view\<close>

lemma view_simps [simp]:
  "view (X\<lparr>ex_recorder := r\<rparr>) = view X" "view (X\<lparr>ex_bufs := B\<rparr>) = view X" "view (X\<lparr>ex_found_vuls := f\<rparr>) = view X"
  "view (X\<lparr>ex_forks := n\<rparr>) = view X" "view (X\<lparr>ex_spStates := n\<rparr>) = view X" "view (X\<lparr>ex_spStatesDone := n\<rparr>) = view X"
  "view (X\<lparr>ex_totalSpecInst := i\<rparr>) = view X" "view (X\<lparr>ex_instructions := n\<rparr>) = view X"
  by (simp_all add: view_def sk_def fun_eq_iff)

lemma sk_simps [simp]:
  "sk (X\<lparr>ex_recorder := r\<rparr>) = sk X" "sk (X\<lparr>ex_bufs := B\<rparr>) = sk X" "sk (X\<lparr>ex_found_vuls := f\<rparr>) = sk X"
  "sk (X\<lparr>ex_forks := n\<rparr>) = sk X" "sk (X\<lparr>ex_spStates := n\<rparr>) = sk X" "sk (X\<lparr>ex_spStatesDone := n\<rparr>) = sk X"
  "sk (X\<lparr>ex_totalSpecInst := i\<rparr>) = sk X" "sk (X\<lparr>ex_instructions := n\<rparr>) = sk X"
  "sk (X\<lparr>ex_addedStates := a\<rparr>) = sk X" "sk (X\<lparr>ex_removedStates := a\<rparr>) = sk X" "sk (X\<lparr>ex_searcher := a\<rparr>) = sk X"
  "sk (X\<lparr>ex_states := S\<rparr>) = sk X"
  by (simp_all add: sk_def fun_eq_iff)

lemma set_pSpec_view: "set_pSpec s sp X = Some X' \<Longrightarrow> view X' = view X"
  by (auto simp: set_pSpec_def bind_eq_Some_conv skel_of_def intro!: same_skel)

lemma set_pTag_view: "set_pTag s X = Some X' \<Longrightarrow> view X' = view X"
  by (auto simp: set_pTag_def bind_eq_Some_conv skel_of_def intro!: same_skel)

lemma record_branch_view: "record_branch st e X = Some X' \<Longrightarrow> view X' = view X \<and> ex_heap X' = ex_heap X"
  by (auto simp: record_branch_def bind_eq_Some_conv)

lemma add_constraint_view: "add_constraint C s e X = Some X' \<Longrightarrow> view X' = view X"
  by (auto simp: add_constraint_def bind_eq_Some_conv skel_of_def intro!: same_skel)

lemma apply_data_view: "apply_data f s X = Some X' \<Longrightarrow> view X' = view X"
  by (auto simp: apply_data_def bind_eq_Some_conv skel_of_def intro!: same_skel)

lemma record_leak_view: "record_leak C s c X = Some X' \<Longrightarrow> view X' = view X"
  by (auto simp: record_leak_def bind_eq_Some_conv)

lemma record_read_view: "record_read s c t X = Some X' \<Longrightarrow> view X' = view X"
  by (auto simp: record_read_def bind_eq_Some_conv)

lemma cache_access_view: "cache_access C s st a X = Some X' \<Longrightarrow> view X' = view X"
proof -
  assume "cache_access C s st a X = Some X'"
  then obtain st0 cs B where "ex_heap X s = Some st0"
      "X' = upd_state s (st0\<lparr>es_cacheState := cs\<rparr>) (X\<lparr>ex_bufs := B\<rparr>)"
    by (auto simp: cache_access_def bind_eq_Some_conv)
  then show ?thesis using same_skel [of "X\<lparr>ex_bufs := B\<rparr>" s st0 "st0\<lparr>es_cacheState := cs\<rparr>"]
    by (simp add: skel_of_def)
qed

lemma transfer_view: "transfer d s X = Some X' \<Longrightarrow> view X' = view X"
  by (auto simp: transfer_def bind_eq_Some_conv skel_of_def split: option.splits intro!: same_skel)

lemma transfer_spec_view: "transfer_spec d s X = Some X' \<Longrightarrow> view X' = view X"
proof (cases s)
  case (Some t)
  assume *: "transfer_spec d s X = Some X'"
  show ?thesis
  proof (cases "map_option es_pSpecState (ex_heap X t)")
    case None
    with * Some show ?thesis by (simp add: transfer_spec_def)
  next
    case (Some q)
    show ?thesis
    proof (cases q)
      case None
      with * \<open>s = Some t\<close> Some show ?thesis by (auto simp: transfer_spec_def)
    next
      case (Some sp)
      with * \<open>s = Some t\<close> \<open>map_option _ _ = Some q\<close> obtain Y st where "transfer d (Some sp) X = Some Y" "ex_heap Y t = Some st"
          "X' = upd_state t (st\<lparr>es_pSpecState := None\<rparr>) Y"
        by (auto simp: transfer_spec_def bind_eq_Some_conv)
      then show ?thesis using transfer_view [of d "Some sp" X Y] same_skel [of Y t st "st\<lparr>es_pSpecState := None\<rparr>"]
        by (simp add: skel_of_def)
    qed
  qed
qed (simp add: transfer_spec_def)

subsection \<open>Operations on views\<close>

definition v_alloc :: "skel \<Rightarrow> vw \<Rightarrow> vw" where
  "v_alloc k = (\<lambda>(K, nx, cnt, sp, r). (K(nx \<mapsto> k), nx + 1, if k_spec k then cnt else cnt + 2, if k_spec k then sp + 2 else sp, r))"

definition v_perent :: "sid \<Rightarrow> sid \<Rightarrow> vw \<Rightarrow> vw" where
  "v_perent s p = (\<lambda>(K, r). (K(s \<mapsto> (the (K s))\<lparr>k_perent := Some p\<rparr>), r))"

definition v_push :: "sid \<Rightarrow> sid \<Rightarrow> vw \<Rightarrow> vw" where
  "v_push p s = (\<lambda>(K, r). (K(p \<mapsto> (the (K p))\<lparr>k_queue := k_queue (the (K p)) @ [s]\<rparr>), r))"

definition v_add :: "sid \<Rightarrow> vw \<Rightarrow> vw" where
  "v_add s = (\<lambda>(K, nx, cnt, sp, sts, sl, added, removed). (K, nx, cnt, sp, sts, sl, added @ [s], removed))"

lemma set_perent_view:
  assumes "set_perent s p X = Some X'"
  shows "view X' = v_perent s p (view X)"
  using assms by (auto simp: set_perent_def bind_eq_Some_conv v_perent_def view_def sk_def skel_of_def fun_eq_iff)

lemma addSpeState_view:
  assumes "addSpeState p s X = Some X'"
  shows "view X' = v_push p s (view X)"
  using assms by (auto simp: addSpeState_def bind_eq_Some_conv v_push_def view_def sk_def skel_of_def fun_eq_iff)

lemma specBranch_view:
  assumes "specBranch C this sew X = Some (s, X')"
  obtains k where "sk X this = Some k" "s = ex_next X"
    "view X' = v_alloc \<lparr>k_spec = True, k_count = (if k_spec k then k_count k else sew), k_tag = ex_spCount X,
       k_perent = None, k_queue = [], k_fin = []\<rparr> (view X)"
proof -
  from assms obtain st where st: "ex_heap X this = Some st" by (auto simp: specBranch_def bind_eq_Some_conv)
  from assms st have "s = ex_next X" "view X' = v_alloc \<lparr>k_spec = True, k_count = (if es_isSpeculative st then es_specInstCount st else sew),
      k_tag = ex_spCount X, k_perent = None, k_queue = [], k_fin = []\<rparr> (view X)"
    by (auto simp: specBranch_def copy_state_spec_def new_tag_def bind_eq_Some_conv Let_def v_alloc_def view_def sk_def
        skel_of_def fun_eq_iff split: if_splits)
  with st that [of "skel_of st"] show thesis by (simp add: sk_def)
qed

lemma specBranch_at:
  assumes "specBranch C this sew X = Some (s, X')" "sk X this = Some k"
  shows "s = ex_next X"
    "view X' = v_alloc \<lparr>k_spec = True, k_count = (if k_spec k then k_count k else sew), k_tag = ex_spCount X,
       k_perent = None, k_queue = [], k_fin = []\<rparr> (view X)"
  using specBranch_view [OF assms(1)] assms(2) by (metis option.inject)+

lemma branch_view:
  assumes "branch C this X = Some (s, X')"
  obtains k where "sk X this = Some k" "s = ex_next X"
    "view X' = v_alloc \<lparr>k_spec = k_spec k, k_count = k_count k, k_tag = (if k_spec k then ex_spCount X else ex_count X),
       k_perent = None, k_queue = [], k_fin = []\<rparr> (view X)"
proof -
  from assms obtain st where st: "ex_heap X this = Some st" by (auto simp: branch_def bind_eq_Some_conv)
  from assms st have "s = ex_next X" "view X' = v_alloc \<lparr>k_spec = es_isSpeculative st, k_count = es_specInstCount st,
      k_tag = (if es_isSpeculative st then ex_spCount X else ex_count X), k_perent = None, k_queue = [], k_fin = []\<rparr> (view X)"
    by (auto simp: branch_def copy_state_def new_tag_def bind_eq_Some_conv Let_def v_alloc_def view_def sk_def
        skel_of_def fun_eq_iff split: if_splits)
  with st that [of "skel_of st"] show thesis by (simp add: sk_def)
qed

lemma view_sels:
  "fst (view X) = sk X" "fst (snd (view X)) = ex_next X" "fst (snd (snd (view X))) = ex_count X"
  "fst (snd (snd (snd (view X)))) = ex_spCount X" "fst (snd (snd (snd (snd (snd (view X)))))) = ex_searcher X"
  "fst (snd (snd (snd (snd (snd (snd (view X))))))) = ex_addedStates X"
  "snd (snd (snd (snd (snd (snd (snd (view X))))))) = ex_removedStates X"
  by (simp_all add: view_def)

lemma vw_cases:
  fixes v :: vw
  obtains K nx cnt sp sts sl added removed where "v = (K, nx, cnt, sp, sts, sl, added, removed)"
  by (cases v) (metis surj_pair)

lemma inv_v_alloc:
  assumes "inv_view C L v" "k_queue k = []" "k_fin k = []" "k_spec k \<Longrightarrow> k_count k \<le> maxSEW C"
    "k_tag k = (if k_spec k then fst (snd (snd (snd v))) else fst (snd (snd v)))"
  shows "inv_view C (insert (fst (snd v)) L) (v_alloc k v)"
proof -
  obtain K nx cnt sp sts sl added removed where v: "v = (K, nx, cnt, sp, sts, sl, added, removed)" by (rule vw_cases)
  show ?thesis using inv_alloc [OF assms(1) [unfolded v] assms(2-4)] assms(5) unfolding v v_alloc_def by simp
qed

lemma inv_v_perent:
  assumes "inv_view C L v" "s \<in> L" "fst v s = Some k"
  shows "inv_view C L (v_perent s p v)"
proof -
  obtain K nx cnt sp sts sl added removed where v: "v = (K, nx, cnt, sp, sts, sl, added, removed)" by (rule vw_cases)
  show ?thesis using inv_set_perent [OF assms(1) [unfolded v] assms(2), of k "Some p"] assms(3) unfolding v v_perent_def by simp
qed

lemma inv_v_push:
  assumes "inv_view C L v" "s \<in> L" "fst v s = Some ks" "k_spec ks" "k_perent ks = Some p"
    "fst v p = Some kp" "\<not> k_spec kp" "p \<notin> set (snd (snd (snd (snd (snd (snd (snd v)))))))"
  shows "inv_view C (L - {s}) (v_push p s v)"
proof -
  obtain K nx cnt sp sts sl added removed where v: "v = (K, nx, cnt, sp, sts, sl, added, removed)" by (rule vw_cases)
  show ?thesis using inv_push [OF assms(1) [unfolded v] assms(2), of ks p kp] assms(3-) unfolding v v_push_def by simp
qed

lemma inv_v_add:
  assumes "inv_view C L v" "fst v s = Some ks" "\<not> k_spec ks"
    "s \<notin> set (fst (snd (snd (snd (snd (snd v))))) @ fst (snd (snd (snd (snd (snd (snd v)))))))"
  shows "inv_view C (L - {s}) (v_add s v)"
proof -
  obtain K nx cnt sp sts sl added removed where v: "v = (K, nx, cnt, sp, sts, sl, added, removed)" by (rule vw_cases)
  show ?thesis using inv_add [OF assms(1) [unfolded v], of s ks] assms(2-) unfolding v v_add_def by simp
qed

subsection \<open>Forking\<close>

text \<open>A state the scheduler may run: a normal one that is not about to be removed, or a queued one.\<close>

definition runnable :: "sid \<Rightarrow> 'p executor \<Rightarrow> bool" where
  "runnable s X \<longleftrightarrow> (\<exists>k. sk X s = Some k \<and> (\<not> k_spec k \<longrightarrow> s \<notin> set (ex_removedStates X)))"

lemma spec_parent:
  assumes "inv C {} X" "sk X s = Some k" "k_spec k"
  obtains p kp where "k_perent k = Some p" "sk X p = Some kp" "\<not> k_spec kp" "s \<in> set (k_queue kp @ k_fin kp)"
    "p \<notin> set (ex_removedStates X)" "p < ex_next X" "p \<noteq> s" "k_queue kp \<noteq> []"
proof -
  note D = inv_viewD [OF assms(1) [unfolded inv_def view_def]]
  from D(3) [OF assms(2)] assms(3) obtain p kp where p: "k_perent k = Some p" "sk X p = Some kp" "\<not> k_spec kp"
      "s \<in> set (k_queue kp @ k_fin kp)"
    by (auto simp: home_ok_def)
  have q: "k_queue kp \<noteq> []" using D(2) [OF p(2)] p(4) by (auto simp: queue_ok_def)
  then have "p \<notin> set (ex_removedStates X)" using D(13) [of p] p(2) by auto
  moreover have "p \<noteq> s" using p(2,3) assms(2,3) by auto
  ultimately show thesis using that [OF p(1-4)] q D(1) [OF p(2)] by blast
qed

lemma inv_lt: "inv C L X \<Longrightarrow> sk X s = Some k \<Longrightarrow> s < ex_next X"
  using inv_viewD(1) [of C L "sk X"] by (auto simp: inv_def view_def)

lemma alloc_viewD:
  assumes "view Y = v_alloc k (view X)"
  shows "sk Y = (sk X)(ex_next X \<mapsto> k)" "ex_next Y = ex_next X + 1" "ex_count Y = (if k_spec k then ex_count X else ex_count X + 2)"
    "ex_spCount Y = (if k_spec k then ex_spCount X + 2 else ex_spCount X)" "ex_states Y = ex_states X"
    "ex_searcher Y = ex_searcher X" "ex_addedStates Y = ex_addedStates X" "ex_removedStates Y = ex_removedStates X"
  using assms by (simp_all add: view_def v_alloc_def)

lemma fork_decided_inv:
  assumes inv: "inv C {} X" and run: "runnable s X" and f: "fork_decided C s e b X = Some X'"
  obtains p k kp where "sk X s = Some k" "p = (if k_spec k then the (k_perent k) else s)" "sk X p = Some kp"
    "view X' = v_push p (ex_next X) (v_perent (ex_next X) p (v_alloc \<lparr>k_spec = True,
       k_count = (if k_spec k then k_count k else maxSEW C), k_tag = ex_spCount X, k_perent = None, k_queue = [], k_fin = []\<rparr> (view X)))"
    "inv C {} X'"
proof -
  from f obtain sp X1 X2 X3 X4 X5 cst cst' p where st:
      "specBranch C s (maxSEW C) X = Some (sp, X1)" "ex_heap X1 s = Some cst"
      "(if es_isSpeculative cst then es_pPerentState cst else Some s) = Some p"
      "set_perent sp p (X1\<lparr>ex_spStates := ex_spStates X1 + 1\<rparr>) = Some X2"
      "addSpeState p sp X2 = Some X3" "set_pSpec s sp X3 = Some X4"
      "(if b then set_pTag sp X4 else Some X4) = Some X5" "record_branch cst' e X5 = Some X'"
    unfolding fork_decided_def Let_def by (auto simp: bind_eq_Some_conv)
  obtain k where k: "sk X s = Some k" "sp = ex_next X"
      "view X1 = v_alloc \<lparr>k_spec = True, k_count = (if k_spec k then k_count k else maxSEW C), k_tag = ex_spCount X,
         k_perent = None, k_queue = [], k_fin = []\<rparr> (view X)" (is "_ = v_alloc ?k _")
    using specBranch_view [OF st(1)] by metis
  have lt: "s < ex_next X" using inv_lt [OF inv k(1)] .
  have "sk X1 = (sk X)(sp \<mapsto> ?k)" using k(2,3) by (auto simp: v_alloc_def view_def)
  then have cst: "skel_of cst = k" using sk_SomeD [OF st(2)] lt k(1,2) by simp
  then have cst': "es_isSpeculative cst = k_spec k" "es_pPerentState cst = k_perent k" by auto
  have v: "view X' = v_push p sp (v_perent sp p (v_alloc ?k (view X)))"
    using set_perent_view [OF st(4)] addSpeState_view [OF st(5)] set_pSpec_view [OF st(6)] set_pTag_view [of sp X4 X5]
      record_branch_view [OF st(8)] st(7) k(3) by (auto split: if_splits)
  have "\<exists>kp. p = (if k_spec k then the (k_perent k) else s) \<and> sk X p = Some kp \<and> \<not> k_spec kp
      \<and> p \<notin> set (ex_removedStates X) \<and> p < ex_next X"
  proof (cases "k_spec k")
    case True
    obtain p' kp where "k_perent k = Some p'" "sk X p' = Some kp" "\<not> k_spec kp" "p' \<notin> set (ex_removedStates X)" "p' < ex_next X"
      using spec_parent [OF inv k(1) True] by metis
    with True cst' st(3) show ?thesis by auto
  next
    case False
    with cst' st(3) k(1) run lt show ?thesis by (auto simp: runnable_def)
  qed
  then obtain kp where p: "p = (if k_spec k then the (k_perent k) else s)" "sk X p = Some kp" "\<not> k_spec kp"
      "p \<notin> set (ex_removedStates X)" "p < ex_next X" by blast
  have cnt: "k_spec k \<Longrightarrow> k_count k \<le> maxSEW C" using inv_viewD(4) [OF inv [unfolded inv_def view_def]] k(1) by blast
  have a: "inv_view C {sp} (v_alloc ?k (view X))"
    using inv_v_alloc [of C "{}" "view X" ?k] inv cnt k(2) by (simp add: inv_def view_def)
  have b: "inv_view C {sp} (v_perent sp p (v_alloc ?k (view X)))"
    by (rule inv_v_perent [OF a]) (simp_all add: v_alloc_def view_def k(2))
  have "inv_view C ({sp} - {sp}) (v_push p sp (v_perent sp p (v_alloc ?k (view X))))"
    by (rule inv_v_push [OF b, where kp = kp and ks = "?k\<lparr>k_perent := Some p\<rparr>"])
      (use p k(2) in \<open>simp_all add: v_alloc_def v_perent_def view_def\<close>)
  then have "inv C {} X'" by (simp add: inv_def v)
  with that [OF k(1) p(1,2)] v k(2) show thesis by simp
qed


text \<open>The skeleton of a new speculative state, and of a new branch.\<close>

abbreviation new_spec :: "int \<Rightarrow> nat \<Rightarrow> skel" where
  "new_spec c t \<equiv> \<lparr>k_spec = True, k_count = c, k_tag = t, k_perent = None, k_queue = [], k_fin = []\<rparr>"

abbreviation new_branch :: "skel \<Rightarrow> nat \<Rightarrow> skel" where
  "new_branch k t \<equiv> \<lparr>k_spec = k_spec k, k_count = k_count k, k_tag = t, k_perent = None, k_queue = [], k_fin = []\<rparr>"

lemma fork_both_view:
  assumes f: "fork_both C s e X = Some (fs, X')"
  obtains k where "sk X s = Some k" "fs = ex_next X"
    "view X' = v_add (ex_next X) (v_alloc (new_branch k (if k_spec k then ex_spCount X else ex_count X)) (view X))"
proof -
  from f obtain X1 X2 notc where st: "branch C s (X\<lparr>ex_forks := ex_forks X + 1\<rparr>) = Some (fs, X1)"
      "add_constraint C s e (X1\<lparr>ex_addedStates := ex_addedStates X1 @ [fs]\<rparr>) = Some X2"
      "add_constraint C fs notc X2 = Some X'"
    unfolding fork_both_def Let_def by (auto simp: bind_eq_Some_conv)
  obtain k where k: "sk X s = Some k" "fs = ex_next X"
      "view X1 = v_alloc (new_branch k (if k_spec k then ex_spCount X else ex_count X)) (view X)"
    by (rule branch_view [OF st(1)]) simp
  have "view (X1\<lparr>ex_addedStates := ex_addedStates X1 @ [fs]\<rparr>) = v_add fs (view X1)"
    by (simp add: view_def v_add_def sk_def fun_eq_iff)
  with add_constraint_view [OF st(2)] add_constraint_view [OF st(3)] k that show thesis by simp
qed

lemma link_spec_view:
  assumes "link_spec s fs t1 t2 ps X = Some X'"
  obtains p where "ps = Some p"
    "view X' = v_push p fs (v_push p t2 (v_push p t1 (v_perent fs p (v_perent t2 p (v_perent t1 p (view X))))))"
proof -
  from assms obtain Y1 Y2 Y3 Y4 Y5 Y6 Y7 p where "set_pSpec s t1 (X\<lparr>ex_spStates := ex_spStates X + 1\<rparr>) = Some Y1"
      "set_pSpec fs t2 Y1 = Some Y2" "ps = Some p" "set_perent t1 p Y2 = Some Y3"
      "set_perent t2 p Y3 = Some Y4" "set_perent fs p Y4 = Some Y5" "addSpeState p t1 Y5 = Some Y6"
      "addSpeState p t2 Y6 = Some Y7" "addSpeState p fs Y7 = Some X'"
    unfolding link_spec_def Let_def by (auto simp: bind_eq_Some_conv)
  then show thesis using that by (simp add: set_pSpec_view set_perent_view addSpeState_view)
qed

lemma link_normal_view:
  assumes "link_normal s fs t1 t2 X = Some X'"
  shows "view X' = v_push fs t2 (v_push s t1 (v_perent t2 fs (v_perent t1 s (v_add fs (view X)))))"
proof -
  from assms obtain Y1 Y2 Y3 Y4 Y5 where st: "set_pSpec s t1 (X\<lparr>ex_addedStates := ex_addedStates X @ [fs]\<rparr>) = Some Y1"
      "set_pSpec fs t2 Y1 = Some Y2" "set_perent t1 s Y2 = Some Y3"
      "set_perent t2 fs Y3 = Some Y4" "addSpeState s t1 Y4 = Some Y5" "addSpeState fs t2 Y5 = Some X'"
    unfolding link_normal_def Let_def by (auto simp: bind_eq_Some_conv)
  have "view (X\<lparr>ex_addedStates := ex_addedStates X @ [fs]\<rparr>) = v_add fs (view X)" by (simp add: view_def v_add_def)
  with st show ?thesis by (simp add: set_pSpec_view set_perent_view addSpeState_view)
qed

lemma fork_both_spec_view:
  assumes f: "fork_both_spec C s e X = Some (fs, X')" and lt: "s < ex_next X"
  obtains k c w where "sk X s = Some k" "fs = ex_next X" "c = (if k_spec k then k_count k else maxSEW C)"
    "w = v_alloc (new_spec c (if k_spec k then ex_spCount X + 4 else ex_spCount X + 2))
       (v_alloc (new_spec c (if k_spec k then ex_spCount X + 2 else ex_spCount X))
       (v_alloc (new_branch k (if k_spec k then ex_spCount X else ex_count X)) (view X)))"
    "if k_spec k then \<exists>p. k_perent k = Some p \<and>
         view X' = v_push p fs (v_push p (fs + 2) (v_push p (fs + 1) (v_perent fs p (v_perent (fs + 2) p (v_perent (fs + 1) p w)))))
       else view X' = v_push fs (fs + 2) (v_push s (fs + 1) (v_perent (fs + 2) fs (v_perent (fs + 1) s (v_add fs w))))"
proof -
  from f obtain cst X0 X1 X2 notc X3 t1 X4 t2 X5 X6 X7 where st: "ex_heap X s = Some cst"
      "record_branch cst e (X\<lparr>ex_spStates := ex_spStates X + 2,
         ex_forks := (if es_isSpeculative cst then ex_forks X else ex_forks X + 1)\<rparr>) = Some X0"
      "branch C s X0 = Some (fs, X1)" "add_constraint C s e X1 = Some X2" "add_constraint C fs notc X2 = Some X3"
      "specBranch C s (maxSEW C) X3 = Some (t1, X4)" "specBranch C fs (maxSEW C) X4 = Some (t2, X5)"
      "(if es_isSpeculative cst then link_spec s fs t1 t2 (es_pPerentState cst) X5 else link_normal s fs t1 t2 X5) = Some X6"
      "set_pTag t1 X6 = Some X7" "set_pTag t2 X7 = Some X'"
    unfolding fork_both_spec_def Let_def by (auto simp: bind_eq_Some_conv split del: if_split)
  obtain k where k: "sk X0 s = Some k" "fs = ex_next X0"
      "view X1 = v_alloc (new_branch k (if k_spec k then ex_spCount X0 else ex_count X0)) (view X0)"
    by (rule branch_view [OF st(3)])
  have v0: "view X0 = view X" using record_branch_view [OF st(2)] by (simp add: view_def)
  then have e: "sk X0 = sk X" "ex_next X0 = ex_next X" "ex_count X0 = ex_count X" "ex_spCount X0 = ex_spCount X"
    by (simp_all add: view_def)
  let ?kf = "new_branch k (if k_spec k then ex_spCount X else ex_count X)"
  have v3: "view X3 = v_alloc ?kf (view X)"
    using add_constraint_view [OF st(4)] add_constraint_view [OF st(5)] k(3) v0 e by simp
  note E3 = alloc_viewD [OF v3]
  have ks: "sk X3 s = Some k" "sk X3 fs = Some ?kf" using k e lt by (simp_all add: E3(1))
  let ?c = "if k_spec k then k_count k else maxSEW C"
  let ?k1 = "new_spec ?c (ex_spCount X3)"
  have v4: "t1 = ex_next X3" "view X4 = v_alloc ?k1 (view X3)" by (fact specBranch_at [OF st(6) ks(1)])+
  note E4 = alloc_viewD [OF v4(2)]
  have kf: "sk X4 fs = Some ?kf" using ks(2) v4(1) k(2) e by (simp add: E4(1) E3)
  have v5: "t2 = ex_next X4" "view X5 = v_alloc (new_spec ?c (ex_spCount X4)) (view X4)" using specBranch_at [OF st(7) kf] by simp_all
  define w where "w = v_alloc (new_spec ?c (if k_spec k then ex_spCount X + 4 else ex_spCount X + 2))
       (v_alloc (new_spec ?c (if k_spec k then ex_spCount X + 2 else ex_spCount X)) (v_alloc ?kf (view X)))"
  have c: "ex_spCount X4 = (if k_spec k then ex_spCount X + 4 else ex_spCount X + 2)"
      "ex_spCount X3 = (if k_spec k then ex_spCount X + 2 else ex_spCount X)"
    by (simp_all add: E3(4) E4(4))
  have w: "view X5 = w" unfolding v5(2) v4(2) v3 w_def c ..
  have t: "t1 = fs + 1" "t2 = fs + 2" using v4(1) v5(1) k(2) e by (simp_all add: E3 E4)
  have x6: "view X' = view X6" using set_pTag_view [OF st(9)] set_pTag_view [OF st(10)] by simp
  have cst: "es_isSpeculative cst = k_spec k" "es_pPerentState cst = k_perent k" using sk_SomeD [OF st(1)] k(1) e by auto
  show thesis
  proof (rule that [OF _ _ refl w_def])
    show "sk X s = Some k" "fs = ex_next X" using k e by simp_all
    show "if k_spec k then \<exists>p. k_perent k = Some p \<and>
         view X' = v_push p fs (v_push p (fs + 2) (v_push p (fs + 1) (v_perent fs p (v_perent (fs + 2) p (v_perent (fs + 1) p w)))))
       else view X' = v_push fs (fs + 2) (v_push s (fs + 1) (v_perent (fs + 2) fs (v_perent (fs + 1) s (v_add fs w))))"
      using st(8) link_spec_view [of s fs t1 t2 "es_pPerentState cst" X5 X6] link_normal_view [of s fs t1 t2 X5 X6]
      unfolding x6 w t cst by (auto split: if_splits)
  qed
qed

lemmas v_defs = v_alloc_def v_perent_def v_push_def v_add_def

lemma inv_three:
  assumes inv: "inv C {} X" and k: "sk X s = Some k" and c: "c \<le> maxSEW C"
  shows "inv_view C {ex_next X, ex_next X + 1, ex_next X + 2}
    (v_alloc (new_spec c (if k_spec k then ex_spCount X + 4 else ex_spCount X + 2))
       (v_alloc (new_spec c (if k_spec k then ex_spCount X + 2 else ex_spCount X))
       (v_alloc (new_branch k (if k_spec k then ex_spCount X else ex_count X)) (view X))))"
    (is "inv_view C _ (v_alloc ?k2 (v_alloc ?k1 (v_alloc ?k0 _)))")
proof -
  have cnt: "k_spec k \<Longrightarrow> k_count k \<le> maxSEW C" using inv_viewD(4) [OF inv [unfolded inv_def view_def]] k by blast
  have a: "inv_view C {ex_next X} (v_alloc ?k0 (view X))"
    using inv_v_alloc [OF inv [unfolded inv_def], of ?k0] cnt unfolding view_sels by simp
  have b: "inv_view C {ex_next X + 1, ex_next X} (v_alloc ?k1 (v_alloc ?k0 (view X)))"
    using inv_v_alloc [OF a, of ?k1] c by (cases "k_spec k") (simp_all add: v_alloc_def view_def)
  have "inv_view C {ex_next X + 2, ex_next X + 1, ex_next X} (v_alloc ?k2 (v_alloc ?k1 (v_alloc ?k0 (view X))))"
    using inv_v_alloc [OF b, of ?k2] c by (cases "k_spec k") (simp_all add: v_alloc_def view_def numeral_eq_Suc)
  then show ?thesis by (simp add: insert_commute)
qed

lemma fork_spec_spec_inv:
  assumes inv: "inv_view C {n, n + 1, n + 2} w" and k: "fst w n = Some k0" "fst w (n + 1) = Some k1" "fst w (n + 2) = Some k2"
    and spec: "k_spec k0" "k_spec k1" "k_spec k2"
    and p: "fst w p = Some kp" "\<not> k_spec kp" "p \<notin> set (snd (snd (snd (snd (snd (snd (snd w)))))))" "p < n"
  shows "inv_view C {} (v_push p n (v_push p (n + 2) (v_push p (n + 1) (v_perent n p (v_perent (n + 2) p (v_perent (n + 1) p w))))))"
proof -
  obtain K nx cnt sp sts sl added removed where w: "w = (K, nx, cnt, sp, sts, sl, added, removed)" by (rule vw_cases)
  note sim = v_perent_def v_push_def w
  let ?L = "{n, n + 1, n + 2}"
  have K: "K n = Some k0" "K (n + 1) = Some k1" "K (n + 2) = Some k2" "K p = Some kp" "p \<notin> set removed" using k p by (simp_all add: w)
  have 1: "inv_view C ?L (v_perent (n + 1) p w)" by (rule inv_v_perent [OF inv]) (use k in simp_all)
  have 2: "inv_view C ?L (v_perent (n + 2) p (v_perent (n + 1) p w))" by (rule inv_v_perent [OF 1]) (use K in \<open>simp_all add: sim\<close>)
  let ?w3 = "v_perent n p (v_perent (n + 2) p (v_perent (n + 1) p w))"
  have 3: "inv_view C ?L ?w3" by (rule inv_v_perent [OF 2]) (use K in \<open>simp_all add: sim\<close>)
  have 4: "inv_view C (?L - {n + 1}) (v_push p (n + 1) ?w3)"
    by (rule inv_v_push [OF 3, where kp = kp and ks = "k1\<lparr>k_perent := Some p\<rparr>"]) (use K p spec in \<open>simp_all add: sim\<close>)
  have 5: "inv_view C (?L - {n + 1} - {n + 2}) (v_push p (n + 2) (v_push p (n + 1) ?w3))"
    by (rule inv_v_push [OF 4, where kp = "kp\<lparr>k_queue := k_queue kp @ [n + 1]\<rparr>" and ks = "k2\<lparr>k_perent := Some p\<rparr>"])
      (use K p spec in \<open>simp_all add: sim\<close>)
  have 6: "inv_view C (?L - {n + 1} - {n + 2} - {n}) (v_push p n (v_push p (n + 2) (v_push p (n + 1) ?w3)))"
    by (rule inv_v_push [OF 5, where kp = "kp\<lparr>k_queue := k_queue kp @ [n + 1, n + 2]\<rparr>" and ks = "k0\<lparr>k_perent := Some p\<rparr>"])
      (use K p spec in \<open>simp_all add: sim\<close>)
  have L: "?L - {n + 1} - {n + 2} - {n} = {}" by auto
  show ?thesis using 6 unfolding L .
qed

lemma fork_spec_normal_inv:
  assumes inv: "inv_view C {n, n + 1, n + 2} w" and k: "fst w n = Some k0" "fst w (n + 1) = Some k1" "fst w (n + 2) = Some k2"
    and spec: "\<not> k_spec k0" "k_spec k1" "k_spec k2"
    and p: "fst w s = Some ks" "\<not> k_spec ks" "s \<notin> set (snd (snd (snd (snd (snd (snd (snd w)))))))" "s < n"
    and n: "n \<notin> set (fst (snd (snd (snd (snd (snd w))))) @ fst (snd (snd (snd (snd (snd (snd w)))))))"
  shows "inv_view C {} (v_push n (n + 2) (v_push s (n + 1) (v_perent (n + 2) n (v_perent (n + 1) s (v_add n w)))))"
proof -
  obtain K nx cnt sp sts sl added removed where w: "w = (K, nx, cnt, sp, sts, sl, added, removed)" by (rule vw_cases)
  note sim = v_defs w
  let ?L = "{n + 1, n + 2}"
  have K: "K n = Some k0" "K (n + 1) = Some k1" "K (n + 2) = Some k2" "K s = Some ks" "s \<notin> set removed" using k p by (simp_all add: w)
  have rm: "n \<notin> set removed" using inv_viewD(13) [OF inv [unfolded w], of n] n by (auto simp: w)
  have 0: "inv_view C ({n, n + 1, n + 2} - {n}) (v_add n w)" by (rule inv_v_add [OF inv k(1) spec(1) n])
  have "{n, n + 1, n + 2} - {n} = ?L" by auto
  with 0 have 0: "inv_view C ?L (v_add n w)" by simp
  have 1: "inv_view C ?L (v_perent (n + 1) s (v_add n w))" by (rule inv_v_perent [OF 0]) (use K in \<open>simp_all add: sim\<close>)
  let ?w2 = "v_perent (n + 2) n (v_perent (n + 1) s (v_add n w))"
  have 2: "inv_view C ?L ?w2" by (rule inv_v_perent [OF 1]) (use K in \<open>simp_all add: sim\<close>)
  have 3: "inv_view C (?L - {n + 1}) (v_push s (n + 1) ?w2)"
    by (rule inv_v_push [OF 2, where kp = ks and ks = "k1\<lparr>k_perent := Some s\<rparr>"]) (use K p spec in \<open>simp_all add: sim\<close>)
  have 4: "inv_view C (?L - {n + 1} - {n + 2}) (v_push n (n + 2) (v_push s (n + 1) ?w2))"
    by (rule inv_v_push [OF 3, where kp = k0 and ks = "k2\<lparr>k_perent := Some n\<rparr>"]) (use K p spec rm in \<open>simp_all add: sim\<close>)
  have L: "?L - {n + 1} - {n + 2} = {}" by auto
  show ?thesis using 4 unfolding L .
qed

lemma fork_both_spec_inv:
  assumes inv: "inv C {} X" and run: "runnable s X" and f: "fork_both_spec C s e X = Some (fs, X')"
  shows "inv C {} X'"
proof -
  obtain k0 where k0: "sk X s = Some k0" using run by (auto simp: runnable_def)
  have lt: "s < ex_next X" using inv_lt [OF inv k0] .
  note D = inv_viewD [OF inv [unfolded inv_def view_def]]
  obtain k c w where fb: "sk X s = Some k" "fs = ex_next X" "c = (if k_spec k then k_count k else maxSEW C)"
    "w = v_alloc (new_spec c (if k_spec k then ex_spCount X + 4 else ex_spCount X + 2))
       (v_alloc (new_spec c (if k_spec k then ex_spCount X + 2 else ex_spCount X))
       (v_alloc (new_branch k (if k_spec k then ex_spCount X else ex_count X)) (view X)))"
    "if k_spec k then \<exists>p. k_perent k = Some p \<and>
         view X' = v_push p fs (v_push p (fs + 2) (v_push p (fs + 1) (v_perent fs p (v_perent (fs + 2) p (v_perent (fs + 1) p w)))))
       else view X' = v_push fs (fs + 2) (v_push s (fs + 1) (v_perent (fs + 2) fs (v_perent (fs + 1) s (v_add fs w))))"
    by (rule fork_both_spec_view [OF f lt])
  have "c \<le> maxSEW C" using fb(3) D(4) [OF fb(1)] by auto
  from inv_three [OF inv fb(1) this] have w: "inv_view C {fs, fs + 1, fs + 2} w" unfolding fb(2,4) .
  have ws: "fst w = (sk X)(fs \<mapsto> new_branch k (if k_spec k then ex_spCount X else ex_count X),
        fs + 1 \<mapsto> new_spec c (if k_spec k then ex_spCount X + 2 else ex_spCount X),
        fs + 2 \<mapsto> new_spec c (if k_spec k then ex_spCount X + 4 else ex_spCount X + 2))"
      "snd (snd (snd (snd (snd (snd (snd w)))))) = ex_removedStates X"
      "fst (snd (snd (snd (snd (snd w))))) = ex_searcher X" "fst (snd (snd (snd (snd (snd (snd w)))))) = ex_addedStates X"
    unfolding fb(4) v_alloc_def view_def fb(2) by simp_all
  have ks: "fst w fs = Some (new_branch k (if k_spec k then ex_spCount X else ex_count X))"
      "fst w (fs + 1) = Some (new_spec c (if k_spec k then ex_spCount X + 2 else ex_spCount X))"
      "fst w (fs + 2) = Some (new_spec c (if k_spec k then ex_spCount X + 4 else ex_spCount X + 2))"
    unfolding ws by simp_all
  show ?thesis
  proof (cases "k_spec k")
    case True
    with fb(5) obtain p where p: "k_perent k = Some p" "view X' = v_push p fs (v_push p (fs + 2) (v_push p (fs + 1)
        (v_perent fs p (v_perent (fs + 2) p (v_perent (fs + 1) p w)))))" by auto
    obtain kp where kp: "sk X p = Some kp" "\<not> k_spec kp" "p \<notin> set (ex_removedStates X)" "p < ex_next X"
      using spec_parent [OF inv fb(1) True] p(1) by (metis option.inject)
    show ?thesis unfolding inv_def p(2)
      by (rule fork_spec_spec_inv [OF w ks, where kp = kp]) (use True kp fb(2) in \<open>simp_all add: ws\<close>)
  next
    case False
    have n: "fs \<notin> set (ex_searcher X @ ex_addedStates X)" using D(1) [of fs] D(10) [of fs] fb(2) by auto
    have v: "view X' = v_push fs (fs + 2) (v_push s (fs + 1) (v_perent (fs + 2) fs (v_perent (fs + 1) s (v_add fs w))))"
      using fb(5) False by simp
    have "s \<notin> set (ex_removedStates X)" using run fb(1) False by (auto simp: runnable_def)
    then show ?thesis unfolding inv_def v
      by (intro fork_spec_normal_inv [OF w ks, where ks = k]) (use False lt fb(1,2) n in \<open>simp_all add: ws\<close>)
  qed
qed

lemma fork_both_inv:
  assumes inv: "inv C {} X" and k: "sk X s = Some k" "\<not> k_spec k" and f: "fork_both C s e X = Some (fs, X')"
  shows "inv C {} X'"
proof -
  note D = inv_viewD [OF inv [unfolded inv_def view_def]]
  have v: "fs = ex_next X" "view X' = v_add (ex_next X) (v_alloc (new_branch k (ex_count X)) (view X))"
    using fork_both_view [OF f] k by auto
  have a: "inv_view C {ex_next X} (v_alloc (new_branch k (ex_count X)) (view X))"
    using inv_v_alloc [OF inv [unfolded inv_def], of "new_branch k (ex_count X)"] k unfolding view_sels by simp
  have "ex_next X \<notin> set (ex_searcher X @ ex_addedStates X)" using D(1) [of "ex_next X"] D(10) [of "ex_next X"] by auto
  then show ?thesis unfolding inv_def v(2) using inv_v_add [OF a, of "ex_next X" "new_branch k (ex_count X)"] k
    by (simp add: v_alloc_def view_def)
qed

subsection \<open>Ending states\<close>

lemma fold_delete_state:
  "sk (fold delete_state ss X) = (\<lambda>s. if s \<in> set ss then None else sk X s)"
  "view (fold delete_state ss X) = (\<lambda>s. if s \<in> set ss then None else sk X s, snd (view X))"
  by (induction ss arbitrary: X) (auto simp: fun_eq_iff view_def delete_state_def sk_def)

text \<open>What retiring the head of a queue does: with the cache on, finished states are kept until the queue is empty.\<close>

lemma merge_spec_view:
  assumes "merge_spec C p X = Some X'" "sk X p = Some kp"
  shows "view X' = (retire (set (k_fin kp)) p (kp\<lparr>k_fin := []\<rparr>) (sk X), snd (view X))"
proof -
  from assms(1) obtain st cs where st: "ex_heap X p = Some st"
      "X' = upd_state p (st\<lparr>es_cacheState := cs, es_finishedSpecStates := []\<rparr>) (fold delete_state (es_finishedSpecStates st) X)"
    by (auto simp: merge_spec_def bind_eq_Some_conv Let_def)
  have kp: "kp = skel_of st" using assms(2) sk_SomeD [OF st(1)] by simp
  have "sk X' = retire (set (k_fin kp)) p (kp\<lparr>k_fin := []\<rparr>) (sk X)"
    unfolding st(2) sk_upd_state fold_delete_state(1) kp retire_def by (simp add: skel_of_def fun_eq_iff)
  moreover have "snd (view X') = snd (view X)"
    using fold_delete_state(2) [of "es_finishedSpecStates st" X] unfolding st(2) by (simp add: view_def)
  ultimately show ?thesis by (simp add: view_def)
qed

definition retired :: "'p spec_config \<Rightarrow> skel \<Rightarrow> sid set \<times> sid list" where
  "retired C kp = (if \<not> isCacheEnabled C then ({hd (k_queue kp)}, k_fin kp)
     else if tl (k_queue kp) = [] then (set (k_fin kp @ [hd (k_queue kp)]), []) else ({}, k_fin kp @ [hd (k_queue kp)]))"

lemma removeHeadState_view:
  assumes "removeHeadState C p X = Some X'" "sk X p = Some kp" "hd (k_queue kp) \<noteq> p"
  shows "k_queue kp \<noteq> []"
    "view X' = (retire (fst (retired C kp)) p (kp\<lparr>k_queue := tl (k_queue kp), k_fin := snd (retired C kp)\<rparr>) (sk X), snd (view X))"
proof -
  from assms(1) obtain st where st: "ex_heap X p = Some st" "es_specStates st \<noteq> []"
    by (auto simp: removeHeadState_def bind_eq_Some_conv assert_that_def split: if_splits)
  have kp: "kp = skel_of st" using assms(2) sk_SomeD [OF st(1)] by simp
  show "k_queue kp \<noteq> []" using st(2) kp by simp
  let ?h = "hd (es_specStates st)"
  let ?st = "st\<lparr>es_specStates := tl (es_specStates st)\<rparr>"
  let ?st1 = "?st\<lparr>es_finishedSpecStates := es_finishedSpecStates st @ [?h]\<rparr>"
  have R: "(if isCacheEnabled C then if tl (es_specStates st) = [] then merge_spec C p (upd_state p ?st1 X)
        else Some (upd_state p ?st1 X) else Some (delete_state ?h (upd_state p ?st X))) = Some X'"
    using assms(1) st by (auto simp: removeHeadState_def assert_that_def Let_def split: if_splits)
  consider "\<not> isCacheEnabled C" | "isCacheEnabled C" "tl (es_specStates st) \<noteq> []" | "isCacheEnabled C" "tl (es_specStates st) = []" by blast
  then show "view X' = (retire (fst (retired C kp)) p (kp\<lparr>k_queue := tl (k_queue kp), k_fin := snd (retired C kp)\<rparr>) (sk X), snd (view X))"
  proof cases
    case 1
    with R have X': "X' = delete_state ?h (upd_state p ?st X)" by simp
    with 1 kp assms(3) show ?thesis unfolding X' retired_def
      by (auto simp: retire_def skel_of_def fun_eq_iff view_def delete_state_def sk_def)
  next
    case 2
    with R have X': "X' = upd_state p ?st1 X" by simp
    with 2 kp show ?thesis unfolding X' retired_def by (auto simp: retire_def skel_of_def fun_eq_iff view_def)
  next
    case 3
    with R have X': "merge_spec C p (upd_state p ?st1 X) = Some X'" by simp
    have "sk (upd_state p ?st1 X) p = Some (skel_of ?st1)" by simp
    from merge_spec_view [OF X' this] 3 kp show ?thesis unfolding retired_def
      by (auto simp: retire_def skel_of_def fun_eq_iff view_def)
  qed
qed

lemma removeHeadState_inv:
  assumes inv: "inv C {} X" and r: "removeHeadState C p X = Some X'" and kp: "sk X p = Some kp" "\<not> k_spec kp"
  shows "inv C {} X'"
proof -
  note D = inv_viewD [OF inv [unfolded inv_def view_def]]
  have q: "queue_ok C {} (sk X) p kp" using D(2) [OF kp(1)] .
  have ne: "k_queue kp \<noteq> []" using r sk_SomeD kp by (fastforce simp: removeHeadState_def bind_eq_Some_conv assert_that_def split: if_splits)
  then obtain h qs where hq: "k_queue kp = h # qs" by (cases "k_queue kp") auto
  have "h \<noteq> p" using q hq kp by (auto simp: queue_ok_def owned_def)
  then have v: "view X' = (retire (fst (retired C kp)) p (kp\<lparr>k_queue := qs, k_fin := snd (retired C kp)\<rparr>) (sk X), snd (view X))"
    using removeHeadState_view(2) [OF r kp(1)] hq by simp
  have "inv_view C {} (retire (fst (retired C kp)) p (kp\<lparr>k_queue := qs, k_fin := snd (retired C kp)\<rparr>) (sk X), snd (view X))"
    unfolding view_def snd_conv
  proof (rule inv_retire [OF inv [unfolded inv_def view_def] kp ne])
    have "distinct (h # qs @ k_fin kp)" "\<not> isCacheEnabled C \<longrightarrow> k_fin kp = []"
      using q hq unfolding queue_ok_def by auto
    then show "fst (retired C kp) \<subseteq> set (k_queue kp @ k_fin kp)" "distinct (qs @ snd (retired C kp))"
        "set (qs @ snd (retired C kp)) = set (k_queue kp @ k_fin kp) - fst (retired C kp)"
        "qs = [] \<or> \<not> isCacheEnabled C \<longrightarrow> snd (retired C kp) = []"
      using hq by (auto simp: retired_def)
  qed
  then show ?thesis by (simp add: inv_def v)
qed

lemma terminateSpecState_steps:
  assumes "terminateSpecState C s X = Some X'"
  obtains k p h X1 where "sk X s = Some k" "k_spec k" "k_perent k = Some p" "view X1 = view X" "removeHeadState C p X1 = Some X'"
proof -
  from assms obtain st p where st: "ex_heap X s = Some st" "es_isSpeculative st" "es_pPerentState st = Some p"
      "removeHeadState C p (X\<lparr>ex_totalSpecInst := ex_totalSpecInst X + (maxSEW C - es_specInstCount st),
         ex_spStatesDone := ex_spStatesDone X + 1\<rparr>) = Some X'"
    by (auto simp: terminateSpecState_def bind_eq_Some_conv assert_that_def Let_def split: if_splits)
  show thesis by (rule that [OF sk_SomeD [OF st(1)] _ _ _ st(4)]) (use st in simp_all)
qed

lemma terminateSpecState_inv:
  assumes "inv C {} X" "terminateSpecState C s X = Some X'"
  shows "inv C {} X'"
proof -
  obtain k p X1 where k: "sk X s = Some k" "k_spec k" "k_perent k = Some p" "view X1 = view X" "removeHeadState C p X1 = Some X'"
    by (rule terminateSpecState_steps [OF assms(2)])
  obtain kp where kp: "sk X p = Some kp" "\<not> k_spec kp" using spec_parent [OF assms(1) k(1,2)] k(3) by (metis option.inject)
  have "sk X1 = sk X" using k(4) by (simp add: view_def)
  then show ?thesis using removeHeadState_inv [OF _ k(5)] assms(1) k(4) kp inv_cong [OF k(4)] by simp
qed

text \<open>A normal state that has no speculation left to run.\<close>

definition quiet :: "sid \<Rightarrow> 'p executor \<Rightarrow> bool" where
  "quiet s X \<longleftrightarrow> (\<exists>k. sk X s = Some k \<and> \<not> k_spec k \<and> k_queue k = []) \<and> s \<notin> set (ex_removedStates X)"

lemma quiet_cong: "view X = view Y \<Longrightarrow> quiet s X = quiet s Y"
  by (simp add: quiet_def view_def)

lemma terminateState_normal_view:
  assumes "terminateState C s X = Some X'" "quiet s X"
  shows "view X' = (if s \<notin> set (ex_addedStates X)
    then (sk X, ex_next X, ex_count X, ex_spCount X, ex_states X, ex_searcher X, ex_addedStates X, ex_removedStates X @ [s])
    else ((sk X)(s := None), ex_next X, ex_count X, ex_spCount X, ex_states X, ex_searcher X,
      remove1 s (ex_addedStates X), ex_removedStates X))"
proof -
  from assms(2) obtain st where st: "ex_heap X s = Some st" "\<not> es_isSpeculative st" by (auto simp: quiet_def sk_def)
  from assms(1) st obtain f where f: "(if s \<notin> set (ex_addedStates X)
       then Some (upd_state s (st\<lparr>es_pc := es_prevPC st\<rparr>) (X\<lparr>ex_found_vuls := f, ex_removedStates := ex_removedStates X @ [s]\<rparr>))
       else Some (delete_state s (X\<lparr>ex_found_vuls := f, ex_addedStates := remove1 s (ex_addedStates X)\<rparr>))) = Some X'"
    by (auto simp: terminateState_def bind_eq_Some_conv Let_def cong: if_cong split del: if_split)
  have "skel_of (st\<lparr>es_pc := es_prevPC st\<rparr>) = skel_of st" by (simp add: skel_of_def)
  with f st show ?thesis by (auto simp: view_def sk_def delete_state_def fun_eq_iff split: if_splits)
qed

lemma terminateState_normal:
  assumes inv: "inv C {} X" and t: "terminateState C s X = Some X'" and q: "quiet s X"
  shows "inv C {} X'" "quiet u X \<Longrightarrow> u \<noteq> s \<Longrightarrow> quiet u X'"
proof -
  note V = terminateState_normal_view [OF t q]
  note I = inv [unfolded inv_def view_def]
  from q obtain k where k: "sk X s = Some k" "\<not> k_spec k" "k_queue k = []" "s \<notin> set (ex_removedStates X)" by (auto simp: quiet_def)
  have home: "s \<in> set (ex_searcher X @ ex_addedStates X)" using inv_viewD(3) [OF I k(1)] k(2) by (simp add: home_ok_def)
  show "inv C {} X'"
  proof (cases "s \<in> set (ex_addedStates X)")
    case True
    then show ?thesis using inv_drop_added [OF I k(1,3) True] V by (simp add: inv_def)
  next
    case False
    then show ?thesis using inv_mark_removed [OF I k(1,3) _ k(4)] home V by (simp add: inv_def)
  qed
  show "quiet u X'" if "quiet u X" "u \<noteq> s"
    using that V by (cases "s \<in> set (ex_addedStates X)") (auto simp: quiet_def view_def)
qed

lemma terminateState_inv:
  assumes "inv C {} X" "terminateState C s X = Some X'" "sk X s = Some k" "\<not> k_spec k \<Longrightarrow> quiet s X"
  shows "inv C {} X'"
proof (cases "k_spec k")
  case True
  with assms(2,3) have "terminateSpecState C s X = Some X'" by (auto simp: terminateState_def sk_def bind_eq_Some_conv)
  then show ?thesis by (rule terminateSpecState_inv [OF assms(1)])
qed (use terminateState_normal assms in blast)

end
