(* ===== verification/SpecInner.thy ===== *)
theory SpecInner
  imports SpecSafe
begin

text \<open>
  Forks keep the invariant: the branches of a program, and the conditions an instruction forks on by itself
  (\<^verbatim>\<open>isInternal\<close>): resolving an address, allocating, freeing, calling through a pointer. For a normal state these
  make new normal states, each of which is worked on once. For a speculative state the invariant is kept only when
  the solver decides the condition: otherwise the new speculative state goes to \<^verbatim>\<open>addedStates\<close> instead of its
  parent's queue.
\<close>

subsection \<open>Forking keeps the invariant\<close>

lemma quiet_runnable: "quiet s X \<Longrightarrow> runnable s X"
  by (auto simp: quiet_def runnable_def)

lemma spec_runnable: "sk X s = Some k \<Longrightarrow> k_spec k \<Longrightarrow> runnable s X"
  by (auto simp: runnable_def)

definition follows_spec :: "'p spec_config \<Rightarrow> sid \<Rightarrow> bool \<Rightarrow> 'p executor \<Rightarrow> bool" where
  "follows_spec C s isInternal X \<longleftrightarrow> \<not> isInternal \<and> ispecEnabled C
     \<and> (\<exists>st. ex_heap X s = Some st \<and> \<not> in_libs (ii_file (sc_info C (es_prevPC st))))"

lemma fork_cases:
  assumes f: "fork C s e i X = Some ((a, b), X')" and d: "MaxDepth C = 0"
  obtains (Fail) st where "ex_heap X s = Some st" "a = None" "b = None"
      "terminateState C s (upd_state s (st\<lparr>es_pc := es_prevPC st\<rparr>) X) = Some X'"
    | (Decided) v where "follows_spec C s i X" "fork_decided C s e v X = Some X'"
        "a = (if v then Some s else None)" "b = (if v then None else Some s)"
    | (Plain) "\<not> follows_spec C s i X" "X' = X" "a = Some s \<and> b = None \<or> a = None \<and> b = Some s"
    | (BothSpec) fs where "follows_spec C s i X" "fork_both_spec C s e X = Some (fs, X')" "a = Some s" "b = Some fs"
    | (Both) fs where "\<not> follows_spec C s i X" "fork_both C s e X = Some (fs, X')" "a = Some s" "b = Some fs"
proof -
  from f obtain st where st: "ex_heap X s = Some st" by (auto simp: fork_def bind_eq_Some_conv)
  define spec where "spec = (\<not> in_libs (ii_file (sc_info C (es_prevPC st))) \<and> \<not> i \<and> ispecEnabled C)"
  have fs: "follows_spec C s i X \<longleftrightarrow> spec" using st by (auto simp: follows_spec_def spec_def)
  show thesis
  proof (cases "sc_evaluate C (es_data st) e")
    case None
    then have "terminateState C s (upd_state s (st\<lparr>es_pc := es_prevPC st\<rparr>) X) = Some X'" "a = None" "b = None"
      using f st by (auto simp: fork_def bind_eq_Some_conv)
    then show ?thesis by (intro Fail [OF st])
  next
    case (Some v)
    show ?thesis
    proof (cases v)
      case VTrue
      with Some f st have *: "(if spec then fork_decided C s e True X else Some X) = Some X'" "a = Some s" "b = None"
        by (auto simp: fork_def bind_eq_Some_conv Let_def spec_def split: if_splits)
      show ?thesis
      proof (cases spec)
        case True
        with * fs show ?thesis by (intro Decided [of True]) simp_all
      next
        case False
        with * fs show ?thesis by (intro Plain) simp_all
      qed
    next
      case VFalse
      with Some f st have *: "(if spec then fork_decided C s e False X else Some X) = Some X'" "a = None" "b = Some s"
        by (auto simp: fork_def bind_eq_Some_conv Let_def spec_def split: if_splits)
      show ?thesis
      proof (cases spec)
        case True
        with * fs show ?thesis by (intro Decided [of False]) simp_all
      next
        case False
        with * fs show ?thesis by (intro Plain) simp_all
      qed
    next
      case VUnknown
      with Some f st d obtain g where *: "(if spec then fork_both_spec C s e X else fork_both C s e X) = Some (g, X')" "a = Some s" "b = Some g"
        by (auto simp: fork_def bind_eq_Some_conv Let_def spec_def split: if_splits)
      show ?thesis
      proof (cases spec)
        case True
        with * fs show ?thesis by (intro BothSpec [of g]) simp_all
      next
        case False
        with * fs show ?thesis by (intro Both [of g]) simp_all
      qed
    qed
  qed
qed

lemma view_pc: "ex_heap X s = Some st \<Longrightarrow> view (upd_state s (st\<lparr>es_pc := n\<rparr>) X) = view X"
  by (rule same_skel) (simp_all add: skel_of_def)

lemma fork_inv:
  assumes inv: "inv C {} X" and d: "MaxDepth C = 0" and k: "sk X s = Some k"
    and run: "if k_spec k then follows_spec C s i X else quiet s X"
    and f: "fork C s e i X = Some ((a, b), X')"
  shows "inv C {} X'"
  using f d
proof (cases rule: fork_cases)
  case (Fail st)
  note v = view_pc [OF Fail(1), of "es_prevPC st"]
  show ?thesis
    by (rule terminateState_inv [OF _ Fail(4), where k = k])
      (use inv inv_cong [OF v] quiet_cong [OF v] k run v in \<open>auto simp: view_def split: if_splits\<close>)
next
  case (Decided v)
  have "runnable s X" using run k by (auto simp: quiet_runnable spec_runnable split: if_splits)
  then show ?thesis using fork_decided_inv [OF inv _ Decided(2)] by metis
next
  case (BothSpec fs)
  have "runnable s X" using run k by (auto simp: quiet_runnable spec_runnable split: if_splits)
  then show ?thesis using fork_both_spec_inv [OF inv _ BothSpec(2)] by metis
next
  case (Both fs)
  have "\<not> k_spec k" using Both(1) run by auto
  then show ?thesis using fork_both_inv [OF inv k _ Both(2)] by simp
qed (use inv in simp)

text \<open>An internal fork does not speculate: the states it returns are quiet.\<close>

lemma fork_internal_quiet:
  assumes inv: "inv C {} X" and d: "MaxDepth C = 0" and q: "quiet s X" and f: "fork C s e True X = Some ((a, b), X')"
  shows "\<And>u. a = Some u \<Longrightarrow> quiet u X'" "\<And>u. b = Some u \<Longrightarrow> quiet u X'" "a \<noteq> None \<Longrightarrow> a \<noteq> b"
proof -
  obtain k where k: "sk X s = Some k" "\<not> k_spec k" "k_queue k = []" "s \<notin> set (ex_removedStates X)" using q by (auto simp: quiet_def)
  have lt: "s < ex_next X" using inv_lt [OF inv k(1)] .
  have "(\<forall>u. a = Some u \<longrightarrow> quiet u X') \<and> (\<forall>u. b = Some u \<longrightarrow> quiet u X') \<and> (a \<noteq> None \<longrightarrow> a \<noteq> b)"
    using f d
  proof (cases rule: fork_cases)
    case (Both fs)
    have v: "fs = ex_next X" "view X' = v_add (ex_next X) (v_alloc (new_branch k (ex_count X)) (view X))"
      using fork_both_view [OF Both(2)] k by auto
    note I = inv [unfolded inv_def view_def]
    have "fs \<notin> set (ex_removedStates X)"
      using inv_viewD(13) [OF I, of fs] inv_viewD(1) [OF I, of fs] v(1) by auto
    moreover have "sk X' = (sk X)(fs \<mapsto> new_branch k (ex_count X))" "ex_removedStates X' = ex_removedStates X"
      using v unfolding view_def v_add_def v_alloc_def by simp_all
    ultimately have "quiet s X'" "quiet fs X'" using k lt v(1) by (auto simp: quiet_def)
    with Both lt v(1) show ?thesis by auto
  qed (use q in \<open>auto simp: follows_spec_def\<close>)
  then show "\<And>u. a = Some u \<Longrightarrow> quiet u X'" "\<And>u. b = Some u \<Longrightarrow> quiet u X'" "a \<noteq> None \<Longrightarrow> a \<noteq> b" by auto
qed

lemma resolve_loop_inv:
  assumes "inv C {} X" "MaxDepth C = 0" "quiet u X" "resolve_loop C w rl u X = Some (r, X')"
  shows "inv C {} X' \<and> (\<forall>v. r = Some v \<longrightarrow> quiet v X')"
  using assms
proof (induction rl arbitrary: u X)
  case (Cons x rl)
  from Cons.prems(4) obtain a b X1 X2 where f: "fork C u (rs_inBounds x) True X = Some ((a, b), X1)"
      "(case a of None \<Rightarrow> Some X1 | Some c \<Rightarrow> if w \<and> rs_readOnly x then terminateState C c X1 else apply_data (rs_effect x) c X1) = Some X2"
      "(case b of None \<Rightarrow> Some (None, X2) | Some v \<Rightarrow> resolve_loop C w rl v X2) = Some (r, X')"
    by (auto simp: bind_eq_Some_conv)
  obtain k where "sk X u = Some k" "\<not> k_spec k" using Cons.prems(3) by (auto simp: quiet_def)
  then have i1: "inv C {} X1" using fork_inv [OF Cons.prems(1,2) _ _ f(1), of k] Cons.prems(3) by simp
  note Q = fork_internal_quiet [OF Cons.prems(1-3) f(1)]
  have i2: "inv C {} X2 \<and> (\<forall>v. b = Some v \<longrightarrow> quiet v X2)"
  proof (cases a)
    case None
    with f(2) i1 Q(2) show ?thesis by simp
  next
    case (Some c)
    show ?thesis
    proof (cases "w \<and> rs_readOnly x")
      case True
      with f(2) Some have "terminateState C c X1 = Some X2" by simp
      note T = terminateState_normal [OF i1 this Q(1) [OF Some]]
      from T(1) show ?thesis using T(2) Q(2,3) Some by auto
    next
      case False
      with f(2) Some have "apply_data (rs_effect x) c X1 = Some X2" by simp
      from apply_data_view [OF this] i1 Q(2) show ?thesis using inv_cong quiet_cong by blast
    qed
  qed
  show ?case
  proof (cases b)
    case None
    with f(3) i2 show ?thesis by auto
  next
    case (Some v)
    with f(3) i2 show ?thesis using Cons.IH [of X2 v] Cons.prems(2) by simp
  qed
qed auto

subsection \<open>Working on normal states\<close>

text \<open>
  What an operation on the normal states \<open>U\<close> does to the rest: other quiet states stay quiet, and the states of
  the searcher keep their empty queues.
\<close>

definition idle :: "sid \<Rightarrow> 'p executor \<Rightarrow> bool" where
  "idle s X \<longleftrightarrow> (\<exists>k. sk X s = Some k \<and> \<not> k_spec k \<and> k_queue k = [])"

lemma quiet_idle: "quiet s X \<longleftrightarrow> idle s X \<and> s \<notin> set (ex_removedStates X)"
  by (simp add: quiet_def idle_def)

definition works :: "'p spec_config \<Rightarrow> sid set \<Rightarrow> 'p executor \<Rightarrow> 'p executor \<Rightarrow> bool" where
  "works C U X X' \<longleftrightarrow> inv C {} X' \<and> ex_next X \<le> ex_next X' \<and> ex_searcher X' = ex_searcher X \<and> (\<forall>v. quiet v X \<longrightarrow> v \<notin> U \<longrightarrow> quiet v X')
     \<and> (\<forall>v \<in> set (ex_searcher X). idle v X \<longrightarrow> idle v X')"

definition good :: "'p spec_config \<Rightarrow> (sid \<Rightarrow> 'p executor \<Rightarrow> 'p executor option) \<Rightarrow> bool" where
  "good C f \<longleftrightarrow> (\<forall>v X X'. inv C {} X \<longrightarrow> quiet v X \<longrightarrow> f v X = Some X' \<longrightarrow> works C {v} X X')"

lemma worksD:
  assumes "works C U X X'"
  shows "inv C {} X'" "ex_searcher X' = ex_searcher X" "\<And>v. quiet v X \<Longrightarrow> v \<notin> U \<Longrightarrow> quiet v X'"
    "\<And>v. v \<in> set (ex_searcher X) \<Longrightarrow> idle v X \<Longrightarrow> idle v X'" "ex_next X \<le> ex_next X'"
  using assms by (auto simp: works_def)

lemma goodD: "good C f \<Longrightarrow> inv C {} X \<Longrightarrow> quiet v X \<Longrightarrow> f v X = Some X' \<Longrightarrow> works C {v} X X'"
  by (simp add: good_def)

lemma works_view: "inv C {} X \<Longrightarrow> view X' = view X \<Longrightarrow> works C U X X'"
  using inv_cong [of X' X] quiet_cong [of X' X] by (auto simp: works_def idle_def view_def)

lemma works_trans:
  assumes "works C U X X1" "works C V X1 X2" "\<And>v. v \<in> V \<Longrightarrow> quiet v X \<Longrightarrow> v \<in> U"
  shows "works C U X X2"
  using assms unfolding works_def by (metis (no_types, lifting) order_trans)

lemma works_terminate:
  assumes inv: "inv C {} X" and q: "quiet u X" and t: "terminateState C u X = Some X'"
  shows "works C {u} X X'"
proof -
  note V = terminateState_normal_view [OF t q] and T = terminateState_normal [OF inv t q]
  have d: "distinct (ex_searcher X @ ex_addedStates X)" using inv_viewD(9) [OF inv [unfolded inv_def view_def]] .
  have "ex_searcher X' = ex_searcher X" "ex_next X' = ex_next X" using V by (simp_all add: view_def split: if_splits)
  moreover have "idle v X'" if "v \<in> set (ex_searcher X)" "idle v X" for v
    using that V d by (cases "u \<in> set (ex_addedStates X)") (auto simp: idle_def view_def)
  ultimately show ?thesis using T by (simp add: works_def)
qed

lemma good_data: "good C (apply_data f)"
  unfolding good_def using apply_data_view works_view by blast

lemma good_terminate: "good C (terminateState C)"
  unfolding good_def using works_terminate by blast

lemma works_when:
  assumes "inv C {} X" "when_some f u X = Some X'" "\<And>v. u = Some v \<Longrightarrow> quiet v X" "good C f"
  shows "works C (set_option u) X X'"
  using assms goodD [OF assms(4,1)] by (cases u) (auto simp: when_some_def works_view)

text \<open>The states a fork returns are quiet, and new except for the one that forked.\<close>

lemma fork_both_quiet:
  assumes inv: "inv C {} X" and q: "quiet s X" and f: "fork_both C s e X = Some (fs, X')"
  shows "works C {s} X X'" "quiet s X'" "quiet fs X'" "fs \<noteq> s" "fs = ex_next X"
proof -
  obtain k where k: "sk X s = Some k" "\<not> k_spec k" using q by (auto simp: quiet_def)
  note I = inv [unfolded inv_def view_def]
  have v: "fs = ex_next X" "view X' = v_add (ex_next X) (v_alloc (new_branch k (ex_count X)) (view X))"
    using fork_both_view [OF f] k by auto
  show "fs = ex_next X" using v(1) .
  have none: "sk X fs = None" using inv_viewD(1) [OF I, of fs] v(1) by (cases "sk X fs") auto
  then show ne: "fs \<noteq> s" using k by auto
  have e: "sk X' = (sk X)(fs \<mapsto> new_branch k (ex_count X))" "ex_removedStates X' = ex_removedStates X" "ex_searcher X' = ex_searcher X"
      "ex_next X' = ex_next X + 1"
    using v unfolding view_def v_add_def v_alloc_def by simp_all
  have same: "quiet w X'" "idle w X'" if "idle w X" "w \<notin> set (ex_removedStates X)" for w
    using that none by (auto simp: quiet_def idle_def e)
  have "idle w X'" if "idle w X" for w using that none by (auto simp: idle_def e)
  then show "works C {s} X X'" using fork_both_inv [OF inv k f] same e(3,4) by (auto simp: works_def quiet_idle)
  show "quiet s X'" using same q by (simp add: quiet_idle)
  have "fs \<notin> set (ex_removedStates X)" using inv_viewD(13) [OF I, of fs] none by auto
  then show "quiet fs X'" using k(2) by (simp add: quiet_def e)
qed

lemma fork_works:
  assumes inv: "inv C {} X" and d: "MaxDepth C = 0" and q: "quiet s X" and f: "fork C s e True X = Some ((a, b), X')"
  shows "works C {s} X X'" "\<And>v. a = Some v \<or> b = Some v \<Longrightarrow> quiet v X' \<and> (v = s \<or> ex_next X \<le> v)"
    "a \<noteq> None \<Longrightarrow> a \<noteq> b" "a \<noteq> None \<Longrightarrow> b = Some v \<Longrightarrow> ex_next X \<le> v"
proof -
  have "works C {s} X X' \<and> (\<forall>v. a = Some v \<or> b = Some v \<longrightarrow> quiet v X' \<and> (v = s \<or> ex_next X \<le> v)) \<and> (a \<noteq> None \<longrightarrow> a \<noteq> b)
      \<and> (a \<noteq> None \<longrightarrow> (\<forall>v. b = Some v \<longrightarrow> ex_next X \<le> v))"
    using f d
  proof (cases rule: fork_cases)
    case (Fail st)
    note v = view_pc [OF Fail(1), of "es_prevPC st"]
    have "works C {s} (upd_state s (st\<lparr>es_pc := es_prevPC st\<rparr>) X) X'"
      by (rule works_terminate [OF _ _ Fail(4)]) (use inv inv_cong [OF v] q quiet_cong [OF v] in auto)
    then show ?thesis using works_trans [OF works_view [OF inv v]] Fail(2,3) by blast
  next
    case (Both fs)
    then show ?thesis using fork_both_quiet [OF inv q Both(2)] by auto
  qed (use q inv works_view in \<open>auto simp: follows_spec_def\<close>)
  then show "works C {s} X X'" "\<And>v. a = Some v \<or> b = Some v \<Longrightarrow> quiet v X' \<and> (v = s \<or> ex_next X \<le> v)"
    "a \<noteq> None \<Longrightarrow> a \<noteq> b" "a \<noteq> None \<Longrightarrow> b = Some v \<Longrightarrow> ex_next X \<le> v" by auto
qed

lemma quiet_lt: "inv C {} X \<Longrightarrow> quiet v X \<Longrightarrow> v < ex_next X"
  by (auto simp: quiet_def dest: inv_lt)

text \<open>Both states of a fork are worked on, in either order.\<close>

lemma works_pair:
  assumes inv: "inv C {} X" and w: "works C {s} X X1" and u: "\<And>v. u = Some v \<or> u' = Some v \<Longrightarrow> quiet v X1 \<and> (v = s \<or> ex_next X \<le> v)"
    and ne: "u \<noteq> None \<Longrightarrow> u \<noteq> u'" and f: "when_some f u X1 = Some X2" "good C f" and g: "when_some g u' X2 = Some X3" "good C g"
  shows "works C {s} X X3"
proof -
  have 1: "works C (set_option u) X1 X2" by (rule works_when [OF worksD(1) [OF w] f(1) _ f(2)]) (use u in blast)
  then have 2: "works C {s} X X2" by (rule works_trans [OF w]) (use u quiet_lt [OF inv] in fastforce)
  have "quiet v X2" if "u' = Some v" for v using worksD(3) [OF 1, of v] u [of v] ne that by auto
  then have "works C (set_option u') X2 X3" by (rule works_when [OF worksD(1) [OF 2] g(1) _ g(2)])
  then show ?thesis by (rule works_trans [OF 2]) (use u quiet_lt [OF inv] in fastforce)
qed

lemma good_fork:
  assumes d: "MaxDepth C = 0" and g: "good C f" "good C g"
  shows "good C (\<lambda>s X. do { ((a, b), X) \<leftarrow> fork C s e True X; X \<leftarrow> when_some f a X; when_some g b X })"
    "good C (\<lambda>s X. do { ((a, b), X) \<leftarrow> fork C s e True X; X \<leftarrow> when_some g b X; when_some f a X })"
proof -
  have "works C {s} X X3" if p: "inv C {} X" "quiet s X" "fork C s e True X = Some ((a, b), X1)"
      and o: "when_some f a X1 = Some X2 \<and> when_some g b X2 = Some X3 \<or> when_some g b X1 = Some X2 \<and> when_some f a X2 = Some X3"
    for s X a b X1 X2 X3
  proof -
    note F = fork_works [OF p(1) d p(2,3)]
    have G: "\<And>v. b = Some v \<or> a = Some v \<Longrightarrow> quiet v X1 \<and> (v = s \<or> ex_next X \<le> v)" "b \<noteq> None \<Longrightarrow> b \<noteq> a"
      using F(2,3) by auto
    from o show ?thesis using works_pair [OF p(1) F(1-3) _ g(1) _ g(2)] works_pair [OF p(1) F(1) G _ g(2) _ g(1)] by blast
  qed
  then show "good C (\<lambda>s X. do { ((a, b), X) \<leftarrow> fork C s e True X; X \<leftarrow> when_some f a X; when_some g b X })"
    "good C (\<lambda>s X. do { ((a, b), X) \<leftarrow> fork C s e True X; X \<leftarrow> when_some g b X; when_some f a X })"
    unfolding good_def by (auto simp: bind_eq_Some_conv) blast+
qed

lemma good_if: "(b \<Longrightarrow> good C f) \<Longrightarrow> (\<not> b \<Longrightarrow> good C g) \<Longrightarrow> good C (\<lambda>s X. if b then f s X else g s X)"
  by (cases b) simp_all

lemma good_alloc: "MaxDepth C = 0 \<Longrightarrow> good C (\<lambda>s. executeAlloc C s al)"
  unfolding executeAlloc_def alloc_other_def
  by (intro good_if good_fork good_data good_terminate)

text \<open>The states \<^verbatim>\<open>resolveExact\<close> returns are different quiet states.\<close>

lemma resolveExact_works:
  assumes "inv C {} X" "MaxDepth C = 0" "quiet s X" "resolveExact C rl s X = Some (rs, X')"
  shows "works C {s} X X' \<and> (\<forall>v \<in> snd ` set rs. quiet v X' \<and> (v = s \<or> ex_next X \<le> v)) \<and> distinct (map snd rs)"
  using assms
proof (induction rl arbitrary: s X rs)
  case Nil
  then show ?case using works_terminate by (auto simp: bind_eq_Some_conv)
next
  case (Cons x rl)
  obtain e ob where x: "x = (e, ob)" by (cases x)
  from Cons.prems(4) obtain a b X1 where f: "fork C s e True X = Some ((a, b), X1)"
      "(case b of None \<Rightarrow> Some (case a of None \<Rightarrow> [] | Some c \<Rightarrow> [(ob, c)], X1)
        | Some u \<Rightarrow> do { (rs, X) \<leftarrow> resolveExact C rl u X1; Some ((case a of None \<Rightarrow> [] | Some c \<Rightarrow> [(ob, c)]) @ rs, X) }) = Some (rs, X')"
    by (auto simp: x bind_eq_Some_conv Let_def)
  note F = fork_works [OF Cons.prems(1-3) f(1)]
  show ?case
  proof (cases b)
    case None
    with f(2) F(1,2) show ?thesis by (auto split: option.splits)
  next
    case (Some u)
    with f(2) obtain rs1 where r: "resolveExact C rl u X1 = Some (rs1, X')" "rs = (case a of None \<Rightarrow> [] | Some c \<Rightarrow> [(ob, c)]) @ rs1"
      by (auto simp: bind_eq_Some_conv)
    have u: "quiet u X1" "u = s \<or> ex_next X \<le> u" using F(2) Some by auto
    note IH = Cons.IH [OF worksD(1) [OF F(1)] Cons.prems(2) u(1) r(1)]
    have w: "works C {s} X X'" by (rule works_trans [OF F(1), of "{u}"]) (use IH u(2) quiet_lt [OF Cons.prems(1)] in fastforce)+
    have new: "v = s \<or> ex_next X \<le> v" "a \<noteq> Some v" if "v \<in> snd ` set rs1" for v
    proof -
      have v: "v = u \<or> ex_next X1 \<le> v" using IH that by blast
      show "v = s \<or> ex_next X \<le> v" using v u(2) worksD(5) [OF F(1)] by auto
      show "a \<noteq> Some v"
        using v F(2,3) Some quiet_lt [OF worksD(1) [OF F(1)]] by (metis not_le option.distinct(1))
    qed
    have "quiet c X'" if "a = Some c" for c
      using IH worksD(3) [of C "{u}" X1 X' c] F(2,3) Some that by auto
    moreover have "snd ` set rs = set_option a \<union> snd ` set rs1" unfolding r(2) by (cases a) auto
    ultimately have "quiet v X' \<and> (v = s \<or> ex_next X \<le> v)" if "v \<in> snd ` set rs" for v
      using that IH new(1) [of v] F(2) [of v] by (metis UnE elem_set)
    moreover have "distinct (map snd rs)" using IH new(2) unfolding r(2) by (cases a) (auto simp: image_iff)
    ultimately show ?thesis using w by blast
  qed
qed

lemma on_each_works:
  assumes "inv C {} X" "\<And>v. v \<in> snd ` set rs \<Longrightarrow> quiet v X" "distinct (map snd rs)" "on_each f rs X = Some X'" "\<And>ob. good C (f ob)"
  shows "works C (snd ` set rs) X X'"
  using assms
proof (induction rs arbitrary: X)
  case (Cons r rs)
  obtain ob s where r: "r = (ob, s)" by (cases r)
  from Cons.prems(4) obtain X1 where X1: "f ob s X = Some X1" "on_each f rs X1 = Some X'" by (auto simp: r bind_eq_Some_conv)
  have w: "works C {s} X X1" using goodD [OF Cons.prems(5) Cons.prems(1) _ X1(1)] Cons.prems(2) r by simp
  have q: "quiet v X1" if "v \<in> snd ` set rs" for v
    using worksD(3) [OF w, of v] Cons.prems(2,3) that r by auto
  have "works C (snd ` set rs) X1 X'"
    using Cons.IH [OF worksD(1) [OF w] q _ X1(2) Cons.prems(5)] Cons.prems(3) by simp
  moreover have "works C (snd ` set (r # rs)) X X1" using w unfolding works_def r by auto
  ultimately show ?case using works_trans by fastforce
qed (simp add: works_view)

lemma good_resolve:
  assumes d: "MaxDepth C = 0" and f: "\<And>ob. good C (f ob)"
  shows "good C (\<lambda>s X. do { (rs, X) \<leftarrow> resolveExact C rl s X; on_each f rs X })"
  unfolding good_def
proof (intro allI impI)
  fix s X X' assume p: "inv C {} X" "quiet s X" and b: "do { (rs, X) \<leftarrow> resolveExact C rl s X; on_each f rs X } = Some X'"
  from b obtain rs X1 where r: "resolveExact C rl s X = Some (rs, X1)" "on_each f rs X1 = Some X'" by (auto simp: bind_eq_Some_conv)
  note R = resolveExact_works [OF p(1) d p(2) r(1)]
  have "works C (snd ` set rs) X1 X'" by (rule on_each_works [OF _ _ _ r(2) f]) (use R in \<open>auto dest: worksD\<close>)
  then show "works C {s} X X'" by (rule works_trans [OF conjunct1 [OF R]]) (use R quiet_lt [OF p(1)] in fastforce)
qed

lemma good_objects: "MaxDepth C = 0 \<Longrightarrow> good C (on_objects C rl)"
proof -
  assume d: "MaxDepth C = 0"
  have "good C (free_object C ob)" for ob
    using goodD [OF good_terminate, where C = C] goodD [OF good_data, where C = C] by (cases ob) (simp_all add: good_def free_object_def)
  then show ?thesis unfolding on_objects_def [abs_def] by (intro good_resolve d)
qed

lemma good_free: "MaxDepth C = 0 \<Longrightarrow> good C (\<lambda>s. executeFree C s fr)"
  unfolding executeFree_def by (intro good_fork good_data good_objects)

lemma good_realloc: "MaxDepth C = 0 \<Longrightarrow> good C (\<lambda>s. handleRealloc C s re)"
  unfolding handleRealloc_def by (intro good_fork good_free good_alloc good_resolve)

lemma good_call:
  assumes d: "MaxDepth C = 0"
  shows "good C (\<lambda>s. executeCall C s f)"
proof (cases f)
  case (Enter g n)
  have "works C {s} X X'" if "inv C {} X" "executeCall C s (Enter g n) X = Some X'" for s X X'
    using that works_view apply_data_view transfer_view by (fastforce simp: bind_eq_Some_conv)
  then show ?thesis by (auto simp: good_def Enter)
qed (use goodD [OF good_alloc [OF d]] goodD [OF good_free [OF d]] goodD [OF good_realloc [OF d]]
  goodD [OF good_objects [OF d]] goodD [OF good_terminate, where C = C]
  in \<open>simp_all add: good_def\<close>)

text \<open>A call through a pointer.\<close>

lemma call_pointer_inv:
  assumes "inv C {} X" "MaxDepth C = 0" "quiet u X" "s \<in> set (ex_searcher X)" "idle s X" "call_pointer C s h vs u X = Some X'"
  shows "inv C {} X'"
  using assms
proof (induction vs arbitrary: h u X)
  case (Cons x vs)
  obtain e f where x: "x = (e, f)" by (cases x)
  from Cons.prems(6) obtain a b X1 X2 where c: "fork C u e True X = Some ((a, b), X1)"
      "when_some (\<lambda>u X. case f of Some g \<Rightarrow> executeCall C u g X
         | None \<Rightarrow> if h then Some X else do { assert_that (s \<notin> set (ex_removedStates X)); terminateState C s X }) a X1 = Some X2"
      "(case b of None \<Rightarrow> Some X2 | Some v \<Rightarrow> call_pointer C s (h \<or> a \<noteq> None \<and> f = None) vs v X2) = Some X'"
    by (auto simp: x bind_eq_Some_conv Let_def simp del: not_None_eq)
  note F = fork_works [OF Cons.prems(1-3) c(1)]
  have s1: "idle s X1" "s \<in> set (ex_searcher X1)" using worksD(2,4) [OF F(1)] Cons.prems(4,5) by auto
  have "\<exists>V. works C V X1 X2 \<and> (\<forall>v. b = Some v \<longrightarrow> v \<notin> V)"
  proof (cases a)
    case None
    then show ?thesis using c(2) works_view [OF worksD(1) [OF F(1)]] by (auto simp: when_some_def)
  next
    case (Some w)
    show ?thesis
    proof (cases f)
      case f: (Some g)
      then have "works C {w} X1 X2"
        using goodD [OF good_call [OF Cons.prems(2)] worksD(1) [OF F(1)]] F(2) c(2) Some by (simp add: when_some_def)
      then show ?thesis using F(3) Some by blast
    next
      case f: None
      have "s < ex_next X" using Cons.prems(1,5) by (auto simp: idle_def dest: inv_lt)
      then have "b \<noteq> Some s" using F(4) Some by fastforce
      moreover have "works C {s} X1 X2"
        using c(2) Some f s1(1) works_view [OF worksD(1) [OF F(1)]] works_terminate [OF worksD(1) [OF F(1)]]
        by (auto simp: when_some_def assert_that_def quiet_idle bind_eq_Some_conv split: if_splits)
      ultimately show ?thesis by blast
    qed
  qed
  then obtain V where w: "works C V X1 X2" "\<And>v. b = Some v \<Longrightarrow> v \<notin> V" by blast
  show ?case
  proof (cases b)
    case None
    with c(3) worksD(1) [OF w(1)] show ?thesis by simp
  next
    case (Some v)
    then have "quiet v X2" using w F(2) worksD(3) by blast
    then show ?thesis
      using Cons.IH [OF worksD(1) [OF w(1)] Cons.prems(2)] c(3) Some s1 worksD(2,4) [OF w(1)] by auto
  qed
qed simp

subsection \<open>Switches\<close>

lemma branch_add:
  assumes inv: "inv C {} X" and k: "sk X u = Some k" "\<not> k_spec k" and b: "branch C u X = Some (ns, X1)"
  defines "X' \<equiv> X1\<lparr>ex_addedStates := ex_addedStates X1 @ [ns]\<rparr>"
  shows "inv C {} X'" "quiet ns X'" "\<And>v. quiet v X \<Longrightarrow> quiet v X' \<and> v \<noteq> ns"
proof -
  note I = inv [unfolded inv_def view_def]
  have v: "ns = ex_next X" "view X1 = v_alloc (new_branch k (ex_count X)) (view X)"
    using branch_view [OF b] k by auto
  have none: "sk X ns = None" using inv_viewD(1) [OF I, of ns] v(1) by (cases "sk X ns") auto
  have "view X' = v_add ns (view X1)" by (simp add: X'_def view_def v_add_def sk_def)
  then have w: "view X' = v_add (ex_next X) (v_alloc (new_branch k (ex_count X)) (view X))" using v by simp
  have a: "inv_view C {ex_next X} (v_alloc (new_branch k (ex_count X)) (view X))"
    using inv_v_alloc [OF inv [unfolded inv_def], of "new_branch k (ex_count X)"] k unfolding view_sels by simp
  have "ex_next X \<notin> set (ex_searcher X @ ex_addedStates X)" using inv_viewD(10) [OF I, of ns] none v(1) by auto
  then show "inv C {} X'" unfolding inv_def w using inv_v_add [OF a, of "ex_next X" "new_branch k (ex_count X)"] k
    by (simp add: v_alloc_def view_def)
  have e: "sk X' = (sk X)(ns \<mapsto> new_branch k (ex_count X))" "ex_removedStates X' = ex_removedStates X"
    using w v(1) unfolding view_def v_add_def v_alloc_def by simp_all
  have "ns \<notin> set (ex_removedStates X)" using inv_viewD(13) [OF I, of ns] none by auto
  then show "quiet ns X'" using k(2) by (simp add: quiet_def e)
  show "quiet v X' \<and> v \<noteq> ns" if "quiet v X" for v using that none by (auto simp: quiet_def e)
qed

lemma branch_states_inv:
  assumes "inv C {} X" "res \<noteq> []" "\<And>v. v \<in> set res \<Longrightarrow> quiet v X" "branch_states C rng n res X = Some (res', X')"
  shows "inv C {} X' \<and> (\<forall>v \<in> set res'. quiet v X') \<and> res' \<noteq> []"
  using assms
proof (induction n arbitrary: res X)
  case (Suc n)
  let ?u = "res ! (rng (length res) mod length res)"
  from Suc.prems(4) obtain ns X1 where b: "branch C ?u X = Some (ns, X1)"
      "branch_states C rng n (res @ [ns]) (X1\<lparr>ex_addedStates := ex_addedStates X1 @ [ns]\<rparr>) = Some (res', X')"
    by (auto simp: bind_eq_Some_conv)
  have "quiet ?u X" using Suc.prems(2,3) by simp
  then obtain k where k: "sk X ?u = Some k" "\<not> k_spec k" by (auto simp: quiet_def)
  note B = branch_add [OF Suc.prems(1) k b(1)]
  show ?case by (rule Suc.IH [OF B(1) _ _ b(2)]) (use B Suc.prems(3) in auto)
qed auto

lemma add_constraints_view: "add_constraints C ss X = Some X' \<Longrightarrow> view X' = view X"
  by (induction C ss X rule: add_constraints.induct) (auto simp: bind_eq_Some_conv add_constraint_view)

lemma transfers_list_view: "transfers ds X = Some X' \<Longrightarrow> view X' = view X"
  by (induction ds X rule: transfers.induct) (auto simp: bind_eq_Some_conv transfer_view)

lemma exec_Switch_inv:
  assumes inv: "inv C {} X" and k: "sk X s = Some k" and q: "\<not> k_spec k \<Longrightarrow> quiet s X" and e: "exec_Switch C s sw X = Some X'"
  shows "inv C {} X'"
proof -
  obtain st where st: "ex_heap X s = Some st" "k = skel_of st" by (rule sk_SomeE [OF k])
  show ?thesis
  proof (cases "es_isSpeculative st")
    case True
    with e st show ?thesis using terminateSpecState_inv [OF inv] by (simp add: exec_Switch_def)
  next
    case False
    show ?thesis
    proof (cases "sw_target sw")
      case (Some dst)
      with e st False have "view X' = view X" by (auto simp: exec_Switch_def dest: transfer_view)
      then show ?thesis using inv inv_cong by blast
    next
      case None
      with e st False obtain br X1 X2 X3 n Z where b: "branch_states C (sw_rng sw) n [s] Z = Some (br, X1)" "view Z = view X"
          "view X2 = view X1" "(case sw_error sw of None \<Rightarrow> Some X2 | Some _ \<Rightarrow> terminateState C (last br) X2) = Some X3" "view X' = view X3"
        by (auto simp: exec_Switch_def branch_conditions_def bind_eq_Some_conv dest!: transfers_list_view add_constraints_view)
      have "inv C {} X1 \<and> (\<forall>v \<in> set br. quiet v X1) \<and> br \<noteq> []"
        by (rule branch_states_inv [OF _ _ _ b(1)]) (use inv q st False inv_cong [OF b(2)] quiet_cong [OF b(2)] in auto)
      then have "inv C {} X2" "quiet (last br) X2" using inv_cong [OF b(3)] quiet_cong [OF b(3)] by auto
      then have "inv C {} X3" using b(4) terminateState_normal(1) by (auto split: option.splits)
      then show ?thesis using inv_cong [OF b(5)] by simp
    qed
  qed
qed

subsection \<open>Working on a speculative state\<close>

text \<open>The conditions an instruction may fork on by itself, and whether the solver decides them.\<close>

definition alloc_conds :: "'p alloc_request \<Rightarrow> expr list" where
  "alloc_conds al = (if al_isConst al then [] else al_isExample al # (if al_twoValues al then [] else [al_isHuge al]))"

definition free_conds :: "'p free_request \<Rightarrow> expr list" where
  "free_conds fr = fr_isZero fr # map fst (fr_rl fr)"

definition realloc_conds :: "'p realloc_request \<Rightarrow> expr list" where
  "realloc_conds re = re_zeroSize re # re_zeroPointer re # free_conds (re_free re) @ alloc_conds (re_alloc re)
     @ concat (map (\<lambda>(e, al). e # alloc_conds al) (re_rl re))"

fun call_conds :: "'p callee \<Rightarrow> expr list" where
  "call_conds (Enter f n) = []"
| "call_conds (Alloc al) = alloc_conds al"
| "call_conds (Free fr) = free_conds fr"
| "call_conds (Realloc re) = realloc_conds re"
| "call_conds (OnObject rl) = map fst rl"
| "call_conds Ends = []"

fun inner_conds :: "'p action \<Rightarrow> expr list" where
  "inner_conds (Call f) = call_conds f"
| "inner_conds (CallPointer vs) = concat (map (\<lambda>(e, f). e # (case f of None \<Rightarrow> [] | Some g \<Rightarrow> call_conds g)) vs)"
| "inner_conds a = []"

definition decides :: "'p spec_config \<Rightarrow> 'p \<Rightarrow> expr list \<Rightarrow> bool" where
  "decides C d es = list_all (\<lambda>e. sc_evaluate C d e \<noteq> Some VUnknown) es"

text \<open>Such an instruction leaves the queues alone, or ends the state.\<close>

definition stays :: "'p spec_config \<Rightarrow> sid \<Rightarrow> 'p executor \<Rightarrow> 'p executor \<Rightarrow> bool" where
  "stays C s X X' \<longleftrightarrow> view X' = view X \<or> (\<exists>Y. view Y = view X \<and> terminateState C s Y = Some X')"

definition tame :: "'p spec_config \<Rightarrow> 'p \<Rightarrow> (sid \<Rightarrow> 'p executor \<Rightarrow> 'p executor option) \<Rightarrow> bool" where
  "tame C d f \<longleftrightarrow> (\<forall>s X X' st. ex_heap X s = Some st \<longrightarrow> es_data st = d \<longrightarrow> f s X = Some X' \<longrightarrow> stays C s X X')"

lemma tameD: "tame C d f \<Longrightarrow> ex_heap X s = Some st \<Longrightarrow> es_data st = d \<Longrightarrow> f s X = Some X' \<Longrightarrow> stays C s X X'"
  by (simp add: tame_def)

lemma decides_simps [simp]:
  "decides C d []" "decides C d (e # es) \<longleftrightarrow> sc_evaluate C d e \<noteq> Some VUnknown \<and> decides C d es"
  "decides C d (es @ fs) \<longleftrightarrow> decides C d es \<and> decides C d fs"
  by (simp_all add: decides_def)

lemma fork_decides:
  assumes f: "fork C s e True X = Some ((a, b), X')" and st: "ex_heap X s = Some st" "sc_evaluate C (es_data st) e \<noteq> Some VUnknown"
  shows "X' = X \<and> (a = Some s \<and> b = None \<or> a = None \<and> b = Some s) \<or> a = None \<and> b = None \<and> stays C s X X'"
proof (cases "sc_evaluate C (es_data st) e")
  case None
  then have "terminateState C s (upd_state s (st\<lparr>es_pc := es_prevPC st\<rparr>) X) = Some X'" "a = None" "b = None"
    using f st by (auto simp: fork_def bind_eq_Some_conv)
  then show ?thesis using view_pc [OF st(1), of "es_prevPC st"] by (auto simp: stays_def)
next
  case (Some v)
  with f st show ?thesis by (cases v) (auto simp: fork_def)
qed

lemma tame_data: "tame C d (apply_data f)" and tame_terminate: "tame C d (terminateState C)"
  using apply_data_view by (auto simp: tame_def stays_def)

lemma tame_fork:
  assumes "sc_evaluate C d e \<noteq> Some VUnknown" "tame C d f" "tame C d g"
  shows "tame C d (\<lambda>s X. do { ((a, b), X) \<leftarrow> fork C s e True X; X \<leftarrow> when_some f a X; when_some g b X })"
    "tame C d (\<lambda>s X. do { ((a, b), X) \<leftarrow> fork C s e True X; X \<leftarrow> when_some g b X; when_some f a X })"
  unfolding tame_def using assms tameD [OF assms(2)] tameD [OF assms(3)]
  by (auto simp: bind_eq_Some_conv when_some_def dest!: fork_decides)

lemma tame_if: "(b \<Longrightarrow> tame C d f) \<Longrightarrow> (\<not> b \<Longrightarrow> tame C d g) \<Longrightarrow> tame C d (\<lambda>s X. if b then f s X else g s X)"
  by (cases b) simp_all

lemma tame_alloc: "decides C d (alloc_conds al) \<Longrightarrow> tame C d (\<lambda>s. executeAlloc C s al)"
  unfolding executeAlloc_def alloc_other_def
  by (intro tame_if tame_fork tame_data tame_terminate) (simp_all add: alloc_conds_def)

lemma tame_resolve:
  assumes "decides C d (map fst rl)" "\<And>e ob. (e, ob) \<in> set rl \<Longrightarrow> tame C d (f ob)"
  shows "tame C d (\<lambda>s X. do { (rs, X) \<leftarrow> resolveExact C rl s X; on_each f rs X })"
  using assms
proof (induction rl)
  case Nil
  show ?case by (auto simp: tame_def stays_def bind_eq_Some_conv)
next
  case (Cons x rl)
  obtain e ob where x: "x = (e, ob)" by (cases x)
  have IH: "tame C d (\<lambda>s X. do { (rs, X) \<leftarrow> resolveExact C rl s X; on_each f rs X })" using Cons by auto
  have ob: "tame C d (f ob)" using Cons.prems(2) x by auto
  have e: "sc_evaluate C d e \<noteq> Some VUnknown" using Cons.prems(1) x by simp
  show ?case unfolding tame_def
  proof (intro allI impI)
    fix s X X' st assume st: "ex_heap X s = Some st" "es_data st = d"
      and r: "do { (rs, X) \<leftarrow> resolveExact C (x # rl) s X; on_each f rs X } = Some X'"
    from r obtain a b X1 where F: "fork C s e True X = Some ((a, b), X1)" by (auto simp: x bind_eq_Some_conv)
    from fork_decides [OF F st(1)] st(2) e
    consider "X1 = X" "a = Some s" "b = None" | "X1 = X" "a = None" "b = Some s" | "a = None" "b = None" "stays C s X X1" by auto
    then show "stays C s X X'"
    proof cases
      case 1
      with r F have "f ob s X = Some X'" by (auto simp: x bind_eq_Some_conv)
      then show ?thesis using tameD [OF ob st] by blast
    next
      case 2
      with r F have "do { (rs, X) \<leftarrow> resolveExact C rl s X; on_each f rs X } = Some X'" by (auto simp: x bind_eq_Some_conv)
      then show ?thesis by (rule tameD [OF IH st])
    qed (use r F in \<open>simp add: x\<close>)
  qed
qed

lemma tame_objects:
  assumes "decides C d (map fst rl)"
  shows "tame C d (on_objects C rl)"
proof -
  have "tame C d (free_object C ob)" for ob
    using tameD [OF tame_terminate, where C = C] tameD [OF tame_data, where C = C] by (cases ob) (simp_all add: tame_def free_object_def)
  then show ?thesis unfolding on_objects_def [abs_def] by (intro tame_resolve assms)
qed

lemma tame_free: "decides C d (free_conds fr) \<Longrightarrow> tame C d (\<lambda>s. executeFree C s fr)"
  unfolding executeFree_def by (intro tame_fork tame_data tame_objects) (simp_all add: free_conds_def)

lemma tame_realloc: "decides C d (realloc_conds re) \<Longrightarrow> tame C d (\<lambda>s. handleRealloc C s re)"
proof -
  assume d: "decides C d (realloc_conds re)"
  have "decides C d (map fst rl)" "\<And>e al. (e, al) \<in> set rl \<Longrightarrow> decides C d (alloc_conds al)"
    if "decides C d (concat (map (\<lambda>(e, al). e # alloc_conds al) rl))" for rl
    using that by (induction rl) auto
  with d show ?thesis unfolding handleRealloc_def
    by (intro tame_fork tame_free tame_alloc tame_resolve) (auto simp: realloc_conds_def)
qed

lemma tame_call:
  assumes d: "decides C d (call_conds f)"
  shows "tame C d (\<lambda>s. executeCall C s f)"
proof (cases f)
  case (Enter g n)
  have "stays C s X X'" if "executeCall C s (Enter g n) X = Some X'" for s X X'
    using that by (auto simp: stays_def bind_eq_Some_conv dest!: apply_data_view transfer_view)
  then show ?thesis by (auto simp: tame_def Enter)
qed (use d tameD [OF tame_alloc, of C d] tameD [OF tame_free, of C d] tameD [OF tame_realloc, of C d]
  tameD [OF tame_objects, of C d] tameD [OF tame_terminate, where C = C]
  in \<open>simp_all add: tame_def\<close>)

lemma call_pointer_stays:
  assumes "decides C (es_data st) (inner_conds (CallPointer vs))" "ex_heap X s = Some st" "call_pointer C s h vs s X = Some X'"
  shows "stays C s X X'"
  using assms
proof (induction vs arbitrary: h)
  case (Cons x vs)
  obtain e f where x: "x = (e, f)" by (cases x)
  from Cons.prems(3) obtain a b X1 where F: "fork C s e True X = Some ((a, b), X1)" by (auto simp: x bind_eq_Some_conv)
  have e: "sc_evaluate C (es_data st) e \<noteq> Some VUnknown" using Cons.prems(1) x by simp
  from fork_decides [OF F Cons.prems(2) e]
  consider "X1 = X" "a = Some s" "b = None" | "X1 = X" "a = None" "b = Some s" | "a = None" "b = None" "stays C s X X1" by auto
  then show ?case
  proof cases
    case 1
    show ?thesis
    proof (cases f)
      case None
      with 1 Cons.prems(3) F show ?thesis by (auto simp: x when_some_def bind_eq_Some_conv stays_def split: if_splits)
    next
      case (Some g)
      with 1 Cons.prems(3) F have "executeCall C s g X = Some X'" by (auto simp: x when_some_def bind_eq_Some_conv)
      then show ?thesis using tameD [OF tame_call Cons.prems(2), of C "es_data st" g] Cons.prems(1) Some x by simp
    qed
  next
    case 2
    with Cons.prems(3) F have "call_pointer C s h vs s X = Some X'" by (simp add: x when_some_def)
    then show ?thesis using Cons.IH Cons.prems(1,2) x by simp
  next
    case 3
    with Cons.prems(3) F show ?thesis by (simp add: x when_some_def)
  qed
qed simp

end
