(* ===== verification/SpecRun.thy ===== *)
theory SpecRun
  imports SpecInner
begin

text \<open>
  One round of the executor keeps the invariant: memory accesses, branches, calls, the
  instruction step and \<^verbatim>\<open>updateStates\<close>.
\<close>

subsection \<open>Memory accesses\<close>

lemma mem_in_bounds_cases:
  assumes "mem_in_bounds C s m X = Some X'"
  obtains "terminateState C s X = Some X'" | X1 where "view X1 = view X" "apply_data (mr_effect m) s X1 = Some X'"
  using assms by (auto simp: mem_in_bounds_def bind_eq_Some_conv dest: cache_access_view split: if_splits)

lemma mem_error_cases:
  assumes "mem_error C s m X = Some X'" "ex_heap X s = Some st" "es_isSpeculative st"
  obtains "terminateSpecState C s X = Some X'"
    | X1 c t where "record_read s c t X = Some X1" "apply_data (mr_bindSecret m) s X1 = Some X'"
    | X1 where "view X1 = view X" "terminateState C s X1 = Some X'"
  using assms by (simp add: mem_error_def Let_def bind_eq_Some_conv split: if_splits) (use record_read_view in metis)+

lemma executeMemoryOperation_cases:
  assumes "executeMemoryOperation C s m X = Some X'"
  obtains X1 where "view X1 = view X" "terminateState C s X1 = Some X'"
    | X1 where "view X1 = view X" "mem_in_bounds C s m X1 = Some X'" | X1 where "view X1 = view X" "mem_error C s m X1 = Some X'"
  using assms
  by (auto simp: executeMemoryOperation_def bind_eq_Some_conv dest: record_leak_view view_pc split: if_splits option.splits)

lemma mem_in_bounds_inv:
  assumes inv: "inv C {} X" and k: "sk X s = Some k" and q: "\<not> k_spec k \<Longrightarrow> quiet s X"
    and m: "mem_in_bounds C s m X = Some X'"
  shows "inv C {} X'"
proof -
  from m show ?thesis
  proof (cases rule: mem_in_bounds_cases)
    case 1
    then show ?thesis using terminateState_inv [OF inv _ k q] by blast
  next
    case 2
    then have "view X' = view X" using apply_data_view by metis
    then show ?thesis using inv inv_cong by blast
  qed
qed

lemma mem_error_inv:
  assumes inv: "inv C {} X" and k: "sk X s = Some k" and q: "\<not> k_spec k \<Longrightarrow> quiet s X" and d: "MaxDepth C = 0"
    and m: "mem_error C s m X = Some X'"
  shows "inv C {} X'"
proof (cases "k_spec k")
  case True
  obtain st where st: "ex_heap X s = Some st" "es_isSpeculative st" using k True by (auto simp: sk_def)
  from m st show ?thesis
  proof (cases rule: mem_error_cases)
    case 1
    then show ?thesis by (rule terminateSpecState_inv [OF inv])
  next
    case 2
    then show ?thesis using record_read_view apply_data_view inv inv_cong by metis
  next
    case (3 X1)
    then have "inv C {} X1" "sk X1 s = Some k" using inv inv_cong k by (auto simp: view_def)
    then show ?thesis using terminateState_inv [OF _ 3(2)] True by blast
  qed
next
  case False
  then have q: "quiet s X" using q by blast
  obtain st where st: "ex_heap X s = Some st" "\<not> es_isSpeculative st" using k False by (auto simp: sk_def)
  from m st obtain u X1 where r: "resolve_loop C (mr_isWrite m) (mr_rl m) s X = Some (u, X1)"
    by (auto simp: mem_error_def bind_eq_Some_conv)
  note R = resolve_loop_inv [OF inv d q r]
  have "mem_error C s m X = (if OnlyDetectMarkedSecret C then terminateSpecState C s X1
      else case u of None \<Rightarrow> Some X1 | Some v \<Rightarrow> terminateState C v X1)"
    using st r by (cases u) (simp_all add: mem_error_def Let_def)
  with m consider "terminateSpecState C s X1 = Some X'" | "X' = X1" | v where "u = Some v" "terminateState C v X1 = Some X'"
    by (cases u) (auto split: if_splits)
  then show ?thesis
  proof cases
    case 1
    with R show ?thesis using terminateSpecState_inv by blast
  next
    case 3
    with R show ?thesis using terminateState_normal by blast
  qed (use R in simp)
qed

lemma executeMemoryOperation_inv:
  assumes inv: "inv C {} X" and k: "sk X s = Some k" and q: "\<not> k_spec k \<Longrightarrow> quiet s X" and d: "MaxDepth C = 0"
    and m: "executeMemoryOperation C s m X = Some X'"
  shows "inv C {} X'"
proof -
  from m show ?thesis
  proof (cases rule: executeMemoryOperation_cases)
    case (1 X1)
    then show ?thesis using terminateState_inv [of C X1 s X' k] inv k q inv_cong [OF 1(1)] quiet_cong [OF 1(1)]
      by (simp add: view_def)
  next
    case (2 X1)
    then show ?thesis using mem_in_bounds_inv [of C X1 s k m X'] inv k q inv_cong [OF 2(1)] quiet_cong [OF 2(1)]
      by (simp add: view_def)
  next
    case (3 X1)
    then show ?thesis using mem_error_inv [of C X1 s k m X'] inv k q d inv_cong [OF 3(1)] quiet_cong [OF 3(1)]
      by (simp add: view_def)
  qed
qed

subsection \<open>One round\<close>

lemma exec_Br_inv:
  assumes inv: "inv C {} X" and d: "MaxDepth C = 0" and k: "sk X s = Some k"
    and run: "if k_spec k then follows_spec C s False X else quiet s X"
    and b: "exec_Br C s e d0 d1 X = Some X'"
  shows "inv C {} X'"
proof -
  from b obtain x y X1 X2 X3 where f: "fork C s e False X = Some ((x, y), X1)" "transfer d0 x X1 = Some X2" "transfer d1 y X2 = Some X3"
      "(if ispecEnabled C then transfer_spec d1 x X3 \<bind> transfer_spec d0 y else Some X3) = Some X'"
    by (auto simp: exec_Br_def bind_eq_Some_conv split del: if_split)
  have "view X' = view X1"
    using transfer_view [OF f(2)] transfer_view [OF f(3)] f(4)
    by (auto simp: bind_eq_Some_conv dest!: transfer_spec_view split: if_splits)
  then show ?thesis using fork_inv [OF inv d k run f(1)] inv_cong by blast
qed

text \<open>The solver decides the conditions the instruction of a speculative state forks on by itself.\<close>

definition settled :: "'p spec_config \<Rightarrow> sid \<Rightarrow> 'p action \<Rightarrow> 'p executor \<Rightarrow> bool" where
  "settled C s a X = (case ex_heap X s of None \<Rightarrow> True
     | Some st \<Rightarrow> es_isSpeculative st \<longrightarrow> decides C (es_data st) (inner_conds a))"

lemma settledD: "settled C s a X \<Longrightarrow> ex_heap X s = Some st \<Longrightarrow> es_isSpeculative st \<Longrightarrow> decides C (es_data st) (inner_conds a)"
  by (simp add: settled_def)

lemma stays_inv:
  assumes inv: "inv C {} X" and k: "sk X s = Some k" "k_spec k" and s: "stays C s X X'"
  shows "inv C {} X'"
  using s unfolding stays_def
proof (elim disjE exE conjE)
  show "view X' = view X \<Longrightarrow> inv C {} X'" using inv inv_cong by blast
  fix Y assume Y: "view Y = view X" "terminateState C s Y = Some X'"
  then have "inv C {} Y" "sk Y s = Some k" using inv inv_cong k by (auto simp: view_def)
  then show "inv C {} X'" using terminateState_inv [OF _ Y(2)] k(2) by blast
qed

lemma calls_stay:
  assumes st: "ex_heap X s = Some st" "es_isSpeculative st" and c: "settled C s a X" and a: "exec_action C s a X = Some X'"
    and b: "a = Call f \<or> a = CallPointer vs"
  shows "stays C s X X'"
  using b
proof
  assume "a = Call f"
  then show ?thesis using tameD [OF tame_call st(1), of C "es_data st" f] settledD [OF c st] a by simp
next
  assume "a = CallPointer vs"
  then show ?thesis using call_pointer_stays [OF _ st(1)] settledD [OF c st] a by simp
qed

lemma exec_action_inv:
  assumes inv: "inv C {} X" and d: "MaxDepth C = 0" and k: "sk X s = Some k"
    and run: "if k_spec k then follows_spec C s False X else quiet s X" and home: "\<not> k_spec k \<Longrightarrow> s \<in> set (ex_searcher X)"
    and c: "settled C s a X" and a: "exec_action C s a X = Some X'"
  shows "inv C {} X'"
proof (cases a)
  case (Plain f)
  with a have "view X' = view X" by (auto dest: apply_data_view)
  then show ?thesis using inv inv_cong by blast
next
  case (Jump n)
  with a have "view X' = view X" by (auto dest: transfer_view)
  then show ?thesis using inv inv_cong by blast
next
  case (Br e d0 d1)
  with a show ?thesis using exec_Br_inv [OF inv d k run] by simp
next
  case (Switch sw)
  with a show ?thesis using exec_Switch_inv [OF inv k] run by (simp split: if_splits)
next
  case (Call f)
  show ?thesis
  proof (cases "k_spec k")
    case True
    with k obtain st where "ex_heap X s = Some st" "es_isSpeculative st" by (auto simp: sk_def)
    from stays_inv [OF inv k True calls_stay [OF this c a]] Call show ?thesis by blast
  next
    case False
    then show ?thesis using a Call run worksD(1) [OF goodD [OF good_call [OF d] inv]] by simp
  qed
next
  case (CallPointer vs)
  show ?thesis
  proof (cases "k_spec k")
    case True
    with k obtain st where "ex_heap X s = Some st" "es_isSpeculative st" by (auto simp: sk_def)
    from stays_inv [OF inv k True calls_stay [OF this c a]] CallPointer show ?thesis by blast
  next
    case False
    then show ?thesis using a CallPointer run home call_pointer_inv [OF inv d] by (simp add: quiet_idle)
  qed
next
  case (Mem m)
  with a show ?thesis using executeMemoryOperation_inv [OF inv k _ d] run by (simp split: if_splits)
next
  case Stop
  with a show ?thesis using terminateState_inv [OF inv _ k] run by (simp split: if_splits)
qed

text \<open>A step of a speculative state shortens its window.\<close>

definition v_step :: "sid \<Rightarrow> vw \<Rightarrow> vw" where
  "v_step s = (\<lambda>(K, r). (K(s \<mapsto> (the (K s))\<lparr>k_count := k_count (the (K s)) - 1\<rparr>), r))"

lemma stepInstruction_view:
  assumes "stepInstruction C s X = Some X'" "sk X s = Some k" "ispecEnabled C"
  shows "view X' = (if k_spec k then v_step s (view X) else view X)"
proof -
  from assms(1) obtain st where st: "ex_heap X s = Some st" by (auto simp: stepInstruction_def bind_eq_Some_conv)
  let ?st = "st\<lparr>es_steppedInstructions := es_steppedInstructions st + 1, es_prevPC := es_pc st, es_pc := es_pc st + 1\<rparr>"
  have k: "k = skel_of st" using assms(2) sk_SomeD [OF st] by simp
  have X': "X' = upd_state s (if es_isSpeculative st then ?st\<lparr>es_specInstCount := es_specInstCount st - 1\<rparr> else ?st)
      (X\<lparr>ex_instructions := ex_instructions X + 1\<rparr>)"
    using assms(1,3) st by (auto simp: stepInstruction_def Let_def)
  have "sk X' = (sk X)(s \<mapsto> if k_spec k then k\<lparr>k_count := k_count k - 1\<rparr> else k)"
    unfolding X' k by (simp add: skel_of_def sk_def fun_eq_iff)
  moreover have "snd (view X') = snd (view X)" unfolding X' by (simp add: view_def)
  ultimately show ?thesis using assms(2) by (simp add: view_def v_step_def fun_upd_idem)
qed

lemma inv_v_step:
  assumes inv: "inv_view C L v" and k: "fst v s = Some k" "k_spec k"
  shows "inv_view C L (v_step s v)"
proof -
  obtain K nx cnt sp sts sl added removed where v: "v = (K, nx, cnt, sp, sts, sl, added, removed)" by (rule vw_cases)
  note D = inv_viewD [OF inv [unfolded v]]
  let ?K = "K(s \<mapsto> k\<lparr>k_count := k_count k - 1\<rparr>)"
  have Ks: "K s = Some k" using k v by simp
  have old: "\<exists>k0. K t = Some k0 \<and> k_spec kt = k_spec k0 \<and> k_count kt \<le> k_count k0 \<and> k_tag kt = k_tag k0
      \<and> k_queue kt = k_queue k0 \<and> k_fin kt = k_fin k0 \<and> k_perent kt = k_perent k0" if "?K t = Some kt" for t kt
    using that Ks by (auto split: if_splits)
  have own: "owned p ?K q \<longleftrightarrow> owned p K q" for p q using Ks by (auto simp: owned_def)
  have "inv_view C L (?K, nx, cnt, sp, sts, sl, added, removed)"
  proof (rule inv_viewI)
    fix t kt assume t: "?K t = Some kt"
    then obtain k0 where k0: "K t = Some k0" "k_spec kt = k_spec k0" "k_count kt \<le> k_count k0" "k_tag kt = k_tag k0"
        "k_queue kt = k_queue k0" "k_fin kt = k_fin k0" "k_perent kt = k_perent k0" using old by blast
    show "t < nx" using D(1) [OF k0(1)] .
    show "k_count kt \<le> maxSEW C" if "k_spec kt" using D(4) [OF k0(1)] that k0 by simp
    show "tag_ok cnt sp kt" using D(5) [OF k0(1)] k0 by (simp add: tag_ok_def)
    show "queue_ok C L ?K t kt" using D(2) [OF k0(1)] unfolding queue_ok_def own k0(2,5,6) .
    show "home_ok ?K (sl @ added) t kt" if "t \<notin> L"
    proof -
      have "home_ok K (sl @ added) t kt" using D(3) [OF k0(1) that] unfolding home_ok_def k0(2,7) .
      then show ?thesis by (rule home_ok_mono) (use Ks k(2) in auto)
    qed
    show "t = u" if "?K u = Some ku" "k_tag kt = k_tag ku" for u ku
      using old [OF that(1)] that(2) k0 D(6) by metis
  next
    show "\<exists>ka. ?K t = Some ka \<and> \<not> k_spec ka" if "t \<in> set (sl @ added)" for t
      using D(10) [OF that] Ks by (auto split: if_splits)
    show "t \<in> set sl \<and> (\<exists>ka. ?K t = Some ka \<and> k_queue ka = [])" if "t \<in> set removed" for t
      using D(13) [OF that] Ks by (auto split: if_splits)
  qed (fact D)+
  then show ?thesis using Ks by (simp add: v v_step_def)
qed

lemma executeInstruction_inv:
  assumes inv: "inv C {} X" and d: "MaxDepth C = 0" "ispecEnabled C" and k: "sk X s = Some k"
    and q: "\<not> k_spec k \<Longrightarrow> quiet s X" "\<not> k_spec k \<Longrightarrow> s \<in> set (ex_searcher X)"
    and c: "settled C s a X" and a: "executeInstruction C s a X = Some X'"
  shows "inv C {} X'"
proof -
  obtain st where st: "ex_heap X s = Some st" "k = skel_of st" by (rule sk_SomeE [OF k])
  show ?thesis
  proof (cases "es_isSpeculative st \<and> (es_specInstCount st \<le> 0 \<or> in_libs (ii_file (sc_info C (es_prevPC st))))")
    case True
    with a st have "terminateSpecState C s X = Some X'" by (simp add: executeInstruction_def)
    then show ?thesis by (rule terminateSpecState_inv [OF inv])
  next
    case False
    with a st have "exec_action C s a X = Some X'" by (simp add: executeInstruction_def)
    moreover have "if k_spec k then follows_spec C s False X else quiet s X"
      using False st d(2) q by (auto simp: follows_spec_def)
    ultimately show ?thesis using exec_action_inv [OF inv d(1) k _ q(2) c] by blast
  qed
qed

lemma stepInstruction_settled: "stepInstruction C s X = Some X' \<Longrightarrow> settled C s a X' = settled C s a X"
  by (auto simp: stepInstruction_def settled_def bind_eq_Some_conv Let_def split: if_splits)

subsection \<open>Updating the sets of states\<close>

lemma searcher_remove_spec:
  "searcher_remove rm sl = Some sl' \<Longrightarrow> distinct sl \<Longrightarrow> distinct sl' \<and> set sl' = set sl - set rm"
proof (induction rm sl arbitrary: sl' rule: searcher_remove.induct)
  case (2 es rm sl)
  show ?case
  proof (cases "sl \<noteq> [] \<and> es = last sl")
    case True
    then obtain ys where sl: "sl = ys @ [es]" by (metis append_butlast_last_id)
    have "searcher_remove rm (butlast sl) = Some sl'" using "2.prems"(1) True by simp
    with "2.IH"(1) [OF True] "2.prems"(2) have "distinct sl'" "set sl' = set ys - set rm" by (simp_all add: sl)
    with "2.prems"(2) show ?thesis by (auto simp: sl)
  next
    case False
    then have "es \<in> set sl" "searcher_remove rm (remove1 es sl) = Some sl'"
      using "2.prems"(1) by (simp_all add: bind_eq_Some_conv assert_that_def split: if_splits)
    with "2.IH"(2) [OF False] "2.prems"(2) have "distinct sl'" "set sl' = set sl - {es} - set rm"
      by (simp_all add: assert_that_def)
    then show ?thesis by auto
  qed
qed simp

lemma remove_states_view:
  "remove_states rm X = Some X' \<Longrightarrow>
     view X' = (\<lambda>s. if s \<in> set rm then None else sk X s, ex_next X, ex_count X, ex_spCount X, ex_states X - set rm,
       ex_searcher X, ex_addedStates X, ex_removedStates X)"
proof (induction rm X rule: remove_states.induct)
  case (2 es rm X)
  then show ?case
    by (auto simp: bind_eq_Some_conv assert_that_def delete_state_def sk_def fun_eq_iff split: if_splits)
qed (simp add: view_def sk_def fun_eq_iff)

lemma inv_update:
  assumes inv: "inv_view C {} (K, nx, cnt, sp, sts, sl, added, removed)"
    and sl': "distinct sl'" "set sl' = set (sl @ added) - set removed"
  shows "inv_view C {} (\<lambda>s. if s \<in> set removed then None else K s, nx, cnt, sp, (sts \<union> set added) - set removed, sl', [], [])"
    (is "inv_view _ _ (?K, _)")
proof -
  note D = inv_viewD [OF inv]
  have rm: "s \<notin> set removed" if "K s = Some k" "k_spec k \<or> k_queue k \<noteq> [] \<or> k_fin k \<noteq> []" for s k
  proof
    assume s: "s \<in> set removed"
    from D(13) [OF s] that(1) have "s \<in> set sl" "k_queue k = []" by auto
    moreover from this(1) D(10) [of s] that(1) have "\<not> k_spec k" by auto
    moreover have "k_fin k = []" using D(2) [OF that(1)] calculation(2) by (simp add: queue_ok_def)
    ultimately show False using that(2) by simp
  qed
  show ?thesis
  proof (rule inv_viewI)
    fix s k assume "?K s = Some k"
    then have s: "K s = Some k" "s \<notin> set removed" by (auto split: if_splits)
    show "s < nx" "k_spec k \<Longrightarrow> k_count k \<le> maxSEW C" "tag_ok cnt sp k" using D(1,4,5) [OF s(1)] by simp_all
    have "owned s ?K q" if "q \<in> set (k_queue k @ k_fin k)" for q
    proof -
      have "owned s K q" using D(2) [OF s(1)] that unfolding queue_ok_def by blast
      then show ?thesis using rm by (auto simp: owned_def)
    qed
    with D(2) [OF s(1)] show "queue_ok C {} ?K s k" unfolding queue_ok_def by blast
    have "home_ok K (sl @ added) s k" using D(3) [OF s(1)] by simp
    then show "home_ok ?K (sl' @ []) s k"
    proof (rule home_ok_mono)
      show "s \<in> set (sl' @ [])" if "s \<in> set (sl @ added)" using that s(2) sl'(2) by simp
      show "\<exists>kp'. ?K p = Some kp' \<and> \<not> k_spec kp' \<and> s \<in> set (k_queue kp' @ k_fin kp')"
        if "K p = Some kp" "\<not> k_spec kp" "s \<in> set (k_queue kp @ k_fin kp)" for p kp
      proof -
        have "k_queue kp \<noteq> [] \<or> k_fin kp \<noteq> []" using that(3) by auto
        with that rm [OF that(1)] show ?thesis by auto
      qed
    qed
    show "s = t" if "?K t = Some kt" "k_tag k = k_tag kt" for t kt
      using that s(1) D(6) [of s k t kt] by (simp split: if_splits)
  next
    show "\<exists>k. ?K s = Some k \<and> \<not> k_spec k" if "s \<in> set (sl' @ [])" for s
      using that sl'(2) D(10) [of s] by auto
    show "set sl' = sts \<union> set added - set removed" using sl'(2) D(11) by auto
  qed (use sl' D(7,8) in simp_all)
qed

lemma updateStates_inv:
  assumes inv: "inv C {} X" and u: "updateStates X = Some X'"
  shows "inv C {} X'" "ex_addedStates X' = []" "ex_removedStates X' = []"
proof -
  from u obtain sl X1 where sl: "searcher_remove (ex_removedStates X) (ex_searcher X @ ex_addedStates X) = Some sl"
      "remove_states (ex_removedStates X)
         (X\<lparr>ex_searcher := sl, ex_states := ex_states X \<union> set (ex_addedStates X), ex_addedStates := []\<rparr>) = Some X1"
      "X' = X1\<lparr>ex_removedStates := []\<rparr>"
    by (auto simp: updateStates_def bind_eq_Some_conv Let_def)
  note I = inv [unfolded inv_def view_def]
  have s: "distinct sl" "set sl = set (ex_searcher X @ ex_addedStates X) - set (ex_removedStates X)"
    using searcher_remove_spec [OF sl(1)] inv_viewD(9) [OF I] by auto
  have "view X' = (\<lambda>s. if s \<in> set (ex_removedStates X) then None else sk X s, ex_next X, ex_count X, ex_spCount X,
      (ex_states X \<union> set (ex_addedStates X)) - set (ex_removedStates X), sl, [], [])"
    using remove_states_view [OF sl(2)] unfolding sl(3) by (simp add: view_def cong: if_cong)
  then show "inv C {} X'" "ex_addedStates X' = []" "ex_removedStates X' = []"
    using inv_update [OF I s] by (simp_all add: inv_def view_def)
qed

text \<open>
  A state that is ended twice in one round is twice in \<^verbatim>\<open>removedStates\<close>, and the searcher's assertion fails. This is
  why \<^term>\<open>call_pointer\<close> can give up as soon as it ends its state a second time.
\<close>

lemma ended_twice:
  assumes "distinct (ex_searcher X @ ex_addedStates X)" "\<not> distinct (ex_removedStates X)"
  shows "updateStates X = None"
proof -
  have "searcher_remove rm sl = None" if "distinct sl" "\<not> distinct rm \<or> \<not> set rm \<subseteq> set sl" for rm sl :: "sid list"
    using that
  proof (induction rm sl rule: searcher_remove.induct)
    case (2 es rm sl)
    show ?case
    proof (cases "sl \<noteq> [] \<and> es = last sl")
      case True
      then obtain ys where sl: "sl = ys @ [es]" by (metis append_butlast_last_id)
      have "\<not> distinct rm \<or> \<not> set rm \<subseteq> set (butlast sl)" "distinct (butlast sl)" using "2.prems" sl by auto
      then show ?thesis using "2.IH"(1) [OF True] True by simp
    next
      case False
      show ?thesis
      proof (cases "es \<in> set sl")
        case in_sl: True
        have "\<not> distinct rm \<or> \<not> set rm \<subseteq> set (remove1 es sl)" "distinct (remove1 es sl)" using "2.prems" in_sl by auto
        then show ?thesis using "2.IH"(2) [OF False] False in_sl by (auto simp: assert_that_def)
      qed (use False in \<open>auto simp: assert_that_def\<close>)
    qed
  qed simp
  then show ?thesis using assms by (simp add: updateStates_def)
qed

lemma selectState_spec:
  assumes inv: "inv C {} X" and rm: "ex_removedStates X = []" and s: "selectState X = Some s"
  obtains k where "sk X s = Some k" "\<not> k_spec k \<Longrightarrow> quiet s X" "\<not> k_spec k \<Longrightarrow> s = last (ex_searcher X)"
    "ex_searcher X \<noteq> []"
    "k_spec k \<Longrightarrow> \<exists>kp. sk X (last (ex_searcher X)) = Some kp \<and> \<not> k_spec kp \<and> k_queue kp \<noteq> [] \<and> hd (k_queue kp) = s
       \<and> k_perent k = Some (last (ex_searcher X))"
proof -
  note D = inv_viewD [OF inv [unfolded inv_def view_def]]
  let ?p = "last (ex_searcher X)"
  from s obtain st where st: "ex_searcher X \<noteq> []" "ex_heap X ?p = Some st"
      "if es_specStates st \<noteq> [] then s = hd (es_specStates st) else s = ?p"
    by (auto simp: selectState_def selectSpState_def bind_eq_Some_conv assert_that_def Let_def split: if_splits)
  have p: "sk X ?p = Some (skel_of st)" using sk_SomeD [OF st(2)] .
  have np: "\<not> es_isSpeculative st" using D(10) [of ?p] st(1) p by auto
  show thesis
  proof (cases "es_specStates st = []")
    case True
    with st(1,3) p np rm that [of "skel_of st"] show thesis by (simp add: quiet_def)
  next
    case False
    with st(3) have "s = hd (k_queue (skel_of st))" "s \<in> set (k_queue (skel_of st))" by auto
    moreover from D(2) [OF p] this(2) have "owned ?p (sk X) s" by (auto simp: queue_ok_def)
    ultimately show thesis using that p np False st(1) by (auto simp: owned_def)
  qed
qed

definition calm_step :: "'p spec_config \<Rightarrow> 'p action \<Rightarrow> 'p executor \<Rightarrow> bool" where
  "calm_step C a X = (case selectState X of None \<Rightarrow> True | Some s \<Rightarrow> settled C s a X)"

lemma run_step_keeps:
  assumes inv: "inv C {} X" and d: "MaxDepth C = 0" "ispecEnabled C" and rm: "ex_removedStates X = []"
    and c: "calm_step C a X" and r: "run_step C a X = Some X'"
  shows "inv C {} X'" "ex_addedStates X' = []" "ex_removedStates X' = []"
proof -
  from r obtain s X1 X2 where st: "selectState X = Some s" "stepInstruction C s X = Some X1"
      "executeInstruction C s a X1 = Some X2" "updateStates X2 = Some X'"
    by (auto simp: run_step_def bind_eq_Some_conv)
  obtain k where k: "sk X s = Some k" "\<not> k_spec k \<Longrightarrow> quiet s X" "\<not> k_spec k \<Longrightarrow> s = last (ex_searcher X)" "ex_searcher X \<noteq> []"
    using selectState_spec [OF inv rm st(1)] by metis
  note v = stepInstruction_view [OF st(2) k(1) d(2)]
  have i1: "inv C {} X1" using inv_v_step [OF inv [unfolded inv_def], of s k] v k(1) inv by (auto simp: inv_def view_sels split: if_splits)
  obtain k1 where k1: "sk X1 s = Some k1" "k_spec k1 = k_spec k"
    using v k(1) by (auto simp: view_def v_step_def split: if_splits)
  have "\<not> k_spec k1 \<Longrightarrow> quiet s X1 \<and> s \<in> set (ex_searcher X1)" using v k1 k quiet_cong [of X1 X s] by (simp add: view_def)
  moreover have "settled C s a X1" using c st(1) stepInstruction_settled [OF st(2)] by (simp add: calm_step_def)
  ultimately have "inv C {} X2" using executeInstruction_inv [OF i1 d k1(1) _ _ _ st(3)] by blast
  then show "inv C {} X'" "ex_addedStates X' = []" "ex_removedStates X' = []" using updateStates_inv [OF _ st(4)] by blast+
qed

end
