(* ===== verification/SpecTerm.thy ===== *)
theory SpecTerm
  imports SpecRun
begin

text \<open>
  Speculation ends. The work left at a normal state is the sum, over its queue, of \<open>5\<close> to the power of
  what is left of the window: a branch of a speculative state adds at most three states with its own window, which
  has just been shortened by one.
\<close>

definition spec_work :: "(sid \<rightharpoonup> skel) \<Rightarrow> sid \<Rightarrow> nat" where
  "spec_work K p = (case K p of None \<Rightarrow> 0 | Some k \<Rightarrow> sum_list (map (\<lambda>q. 5 ^ nat (k_count (the (K q)))) (k_queue k)))"

definition grows :: "sid \<Rightarrow> sid \<Rightarrow> 'p executor \<Rightarrow> 'p executor \<Rightarrow> bool" where
  "grows s p X X' \<longleftrightarrow> (\<exists>ns kp kp'. sk X p = Some kp \<and> sk X' p = Some kp' \<and> length ns \<le> 3 \<and> k_queue kp' = k_queue kp @ ns
     \<and> (\<forall>n \<in> set ns. k_count (the (sk X' n)) = k_count (the (sk X s)))
     \<and> (\<forall>q \<in> set (k_queue kp). k_count (the (sk X' q)) = k_count (the (sk X q))))
     \<and> ex_searcher X' = ex_searcher X \<and> ex_addedStates X' = ex_addedStates X \<and> ex_removedStates X' = ex_removedStates X"

definition shrinks :: "sid \<Rightarrow> 'p executor \<Rightarrow> 'p executor \<Rightarrow> bool" where
  "shrinks p X X' \<longleftrightarrow> (\<exists>kp kp'. sk X p = Some kp \<and> sk X' p = Some kp' \<and> k_queue kp \<noteq> [] \<and> k_queue kp' = tl (k_queue kp)
     \<and> (\<forall>q \<in> set (k_queue kp'). k_count (the (sk X' q)) = k_count (the (sk X q))))
     \<and> ex_searcher X' = ex_searcher X \<and> ex_addedStates X' = ex_addedStates X \<and> ex_removedStates X' = ex_removedStates X"

lemma grows_work:
  assumes "grows s p X X'"
  shows "spec_work (sk X') p \<le> spec_work (sk X) p + 3 * 5 ^ nat (k_count (the (sk X s)))"
proof -
  from assms obtain ns kp kp' where g: "sk X p = Some kp" "sk X' p = Some kp'" "length ns \<le> 3" "k_queue kp' = k_queue kp @ ns"
      "\<And>n. n \<in> set ns \<Longrightarrow> k_count (the (sk X' n)) = k_count (the (sk X s))"
      "\<And>q. q \<in> set (k_queue kp) \<Longrightarrow> k_count (the (sk X' q)) = k_count (the (sk X q))"
    by (auto simp: grows_def)
  let ?w = "5 ^ nat (k_count (the (sk X s))) :: nat"
  have "spec_work (sk X') p = spec_work (sk X) p + sum_list (map (\<lambda>_. ?w) ns)"
    unfolding spec_work_def g(1,2,4) option.case map_append sum_list_append
    using g(5,6) by (auto intro!: arg_cong2 [of _ _ _ _ "(+)"] arg_cong [of _ _ sum_list] map_cong)
  moreover have "sum_list (map (\<lambda>_. ?w) ns) = length ns * ?w" by (simp add: map_replicate_const sum_list_replicate)
  ultimately show ?thesis using g(3) by (simp add: mult_le_mono1)
qed

lemma shrinks_work:
  assumes "shrinks p X X'" "sk X p = Some kp"
  shows "spec_work (sk X) p = 5 ^ nat (k_count (the (sk X (hd (k_queue kp))))) + spec_work (sk X') p"
proof -
  from assms obtain kp' where g: "sk X' p = Some kp'" "k_queue kp \<noteq> []" "k_queue kp' = tl (k_queue kp)"
      "\<And>q. q \<in> set (k_queue kp') \<Longrightarrow> k_count (the (sk X' q)) = k_count (the (sk X q))"
    by (auto simp: shrinks_def)
  obtain h t where q: "k_queue kp = h # t" using g(2) by (cases "k_queue kp") auto
  have "map (\<lambda>q. 5 ^ nat (k_count (the (sk X' q)))) t = (map (\<lambda>q. 5 ^ nat (k_count (the (sk X q)))) t :: nat list)"
    using g(3,4) q by (intro map_cong) auto
  then show ?thesis unfolding spec_work_def assms(2) g(1) option.case g(3) q list.sel list.map sum_list.Cons by (simp only:)
qed

lemma same_grows: "view X' = view X \<Longrightarrow> sk X p = Some kp \<Longrightarrow> grows s p X X'"
  by (auto simp: grows_def view_def intro!: exI [of _ "[]"])

lemma grows_cong: "view X = view Y \<Longrightarrow> view X' = view Y' \<Longrightarrow> grows s p X X' = grows s p Y Y'"
  by (simp add: grows_def view_def)

lemma shrinks_cong: "view X = view Y \<Longrightarrow> shrinks p X X' = shrinks p Y X'"
  by (simp add: shrinks_def view_def)

lemma growsI:
  assumes "sk X p = Some kp" "sk X' p = Some kp'" "length ns \<le> 3" "k_queue kp' = k_queue kp @ ns"
    "\<And>n. n \<in> set ns \<Longrightarrow> k_count (the (sk X' n)) = k_count (the (sk X s))"
    "\<And>q. q \<in> set (k_queue kp) \<Longrightarrow> k_count (the (sk X' q)) = k_count (the (sk X q))"
    "ex_searcher X' = ex_searcher X" "ex_addedStates X' = ex_addedStates X" "ex_removedStates X' = ex_removedStates X"
  shows "grows s p X X'"
  using assms unfolding grows_def by blast

lemma queued:
  assumes "inv C {} X" "sk X p = Some kp" "q \<in> set (k_queue kp @ k_fin kp)"
  shows "q < ex_next X \<and> (\<exists>kq. sk X q = Some kq \<and> k_spec kq \<and> k_perent kq = Some p)"
proof -
  note D = inv_viewD [OF assms(1) [unfolded inv_def view_def]]
  have "owned p (sk X) q" using D(2) [OF assms(2)] assms(3) unfolding queue_ok_def by blast
  then show ?thesis using D(1) by (auto simp: owned_def)
qed

lemma fork_decided_grows:
  assumes inv: "inv C {} X" and k: "sk X s = Some k" "k_spec k" "k_perent k = Some p" and f: "fork_decided C s e b X = Some X'"
  shows "grows s p X X'"
proof -
  obtain kp where kp: "sk X p = Some kp" "p < ex_next X" using spec_parent [OF inv k(1,2)] k(3) by (metis option.inject)
  have v: "view X' = v_push p (ex_next X) (v_perent (ex_next X) p (v_alloc (new_spec (k_count k) (ex_spCount X)) (view X)))"
    by (rule fork_decided_inv [OF inv spec_runnable [OF k(1,2)] f]) (use k in simp)
  have q: "q < ex_next X" if "q \<in> set (k_queue kp)" for q
    using queued [OF inv kp(1)] that by simp
  have X': "sk X' = (sk X)(ex_next X \<mapsto> new_spec (k_count k) (ex_spCount X)\<lparr>k_perent := Some p\<rparr>,
      p \<mapsto> kp\<lparr>k_queue := k_queue kp @ [ex_next X]\<rparr>)"
      "ex_searcher X' = ex_searcher X" "ex_addedStates X' = ex_addedStates X" "ex_removedStates X' = ex_removedStates X"
    using v kp unfolding view_def v_push_def v_perent_def v_alloc_def by simp_all
  have p': "sk X' p = Some (kp\<lparr>k_queue := k_queue kp @ [ex_next X]\<rparr>)" by (simp add: X')
  have old: "k_count (the (sk X' q)) = k_count (the (sk X q))" if "q \<in> set (k_queue kp)" for q
    using q [OF that] kp by (auto simp: X')
  have new: "k_count (the (sk X' n)) = k_count (the (sk X s))" if "n \<in> set [ex_next X]" for n
    using kp k(1) that by (simp add: X')
  show ?thesis by (rule growsI [OF kp(1) p' _ _ new old X'(2-4)]) auto
qed

lemma fork_both_spec_grows:
  assumes inv: "inv C {} X" and k: "sk X s = Some k" "k_spec k" "k_perent k = Some p" and f: "fork_both_spec C s e X = Some (fs, X')"
  shows "grows s p X X'"
proof -
  obtain kp where kp: "sk X p = Some kp" "p < ex_next X" using spec_parent [OF inv k(1,2)] k(3) by (metis option.inject)
  let ?n = "ex_next X" and ?k = "\<lambda>t. new_spec (k_count k) t\<lparr>k_perent := Some p\<rparr>"
  have v: "view X' = v_push p ?n (v_push p (?n + 2) (v_push p (?n + 1) (v_perent ?n p (v_perent (?n + 2) p (v_perent (?n + 1) p
      (v_alloc (new_spec (k_count k) (ex_spCount X + 4)) (v_alloc (new_spec (k_count k) (ex_spCount X + 2))
         (v_alloc (new_branch k (ex_spCount X)) (view X)))))))))"
    by (rule fork_both_spec_view [OF f inv_lt [OF inv k(1)]]) (use k in simp)
  have X': "sk X' = (sk X)(?n \<mapsto> ?k (ex_spCount X), ?n + 1 \<mapsto> ?k (ex_spCount X + 2), ?n + 2 \<mapsto> ?k (ex_spCount X + 4),
      p \<mapsto> kp\<lparr>k_queue := k_queue kp @ [?n + 1, ?n + 2, ?n]\<rparr>)"
      "ex_searcher X' = ex_searcher X" "ex_addedStates X' = ex_addedStates X" "ex_removedStates X' = ex_removedStates X"
    using v kp k(2) unfolding view_def v_push_def v_perent_def v_alloc_def by (simp_all add: fun_eq_iff)
  have p': "sk X' p = Some (kp\<lparr>k_queue := k_queue kp @ [?n + 1, ?n + 2, ?n]\<rparr>)" by (simp add: X')
  have old: "k_count (the (sk X' q)) = k_count (the (sk X q))" if "q \<in> set (k_queue kp)" for q
    using queued [OF inv kp(1), of q] that kp by (auto simp: X')
  have new: "k_count (the (sk X' n)) = k_count (the (sk X s))" if "n \<in> set [?n + 1, ?n + 2, ?n]" for n
    using kp k(1) that by (auto simp: X')
  show ?thesis by (rule growsI [OF kp(1) p' _ _ new old X'(2-4)]) auto
qed

lemma removeHeadState_shrinks:
  assumes inv: "inv C {} X" and kp: "sk X p = Some kp" "\<not> k_spec kp" and r: "removeHeadState C p X = Some X'"
  shows "shrinks p X X'"
proof -
  note D = inv_viewD [OF inv [unfolded inv_def view_def]]
  have q: "queue_ok C {} (sk X) p kp" using D(2) [OF kp(1)] .
  have ne: "k_queue kp \<noteq> []" using r sk_SomeD kp by (fastforce simp: removeHeadState_def bind_eq_Some_conv assert_that_def split: if_splits)
  then obtain h qs where hq: "k_queue kp = h # qs" by (cases "k_queue kp") auto
  have own: "q \<noteq> p" if "q \<in> set (h # qs)" for q using queued [OF inv kp(1), of q] that hq kp by auto
  have v: "view X' = (retire (fst (retired C kp)) p (kp\<lparr>k_queue := qs, k_fin := snd (retired C kp)\<rparr>) (sk X), snd (view X))"
    using removeHeadState_view(2) [OF r kp(1)] hq own by simp
  have sk': "sk X' = retire (fst (retired C kp)) p (kp\<lparr>k_queue := qs, k_fin := snd (retired C kp)\<rparr>) (sk X)"
    "ex_searcher X' = ex_searcher X" "ex_addedStates X' = ex_addedStates X" "ex_removedStates X' = ex_removedStates X"
    using v by (simp_all add: view_def)
  have d: "distinct (h # qs @ k_fin kp)" using q hq unfolding queue_ok_def by simp
  have "q \<notin> fst (retired C kp)" if "q \<in> set qs" for q using d that hq by (auto simp: retired_def)
  with own have "sk X' q = sk X q" if "q \<in> set qs" for q using that by (simp add: sk' retire_def)
  moreover have "sk X' p = Some (kp\<lparr>k_queue := qs, k_fin := snd (retired C kp)\<rparr>)" by (simp add: sk' retire_def)
  ultimately show ?thesis unfolding shrinks_def using kp(1) hq sk'(2-) by simp
qed

lemma terminateSpecState_shrinks:
  assumes inv: "inv C {} X" and k: "sk X s = Some k" "k_perent k = Some p" and t: "terminateSpecState C s X = Some X'"
  shows "shrinks p X X'"
proof -
  obtain X1 where x: "k_spec k" "view X1 = view X" "removeHeadState C p X1 = Some X'"
    by (rule terminateSpecState_steps [OF t]) (use k in simp)
  obtain kp where kp: "sk X p = Some kp" "\<not> k_spec kp" using spec_parent [OF inv k(1) x(1)] k(2) by (metis option.inject)
  have "shrinks p X1 X'"
    by (rule removeHeadState_shrinks [OF _ _ kp(2) x(3)]) (use inv inv_cong [OF x(2)] kp x(2) in \<open>simp_all add: view_def\<close>)
  then show ?thesis using shrinks_cong [OF x(2)] by simp
qed

lemma terminateState_shrinks:
  assumes "inv C {} X" "sk X s = Some k" "k_spec k" "k_perent k = Some p" "terminateState C s X = Some X'"
  shows "shrinks p X X'"
proof -
  have "terminateSpecState C s X = Some X'" using assms(2,3,5) by (auto simp: terminateState_def sk_def bind_eq_Some_conv)
  then show ?thesis using terminateSpecState_shrinks assms(1,2,4) by blast
qed

subsection \<open>A speculative step\<close>

lemma transfers_view:
  assumes "transfer d0 x X1 = Some X2" "transfer d1 y X2 = Some X3"
    "(if ispecEnabled C then transfer_spec d1 x X3 \<bind> transfer_spec d0 y else Some X3) = Some X'"
  shows "view X' = view X1"
  using transfer_view [OF assms(1)] transfer_view [OF assms(2)] assms(3)
  by (auto simp: bind_eq_Some_conv dest!: transfer_spec_view split: if_splits)

text \<open>What a speculative state's action does to the queue it is in.\<close>

definition moves :: "sid \<Rightarrow> sid \<Rightarrow> 'p executor \<Rightarrow> 'p executor \<Rightarrow> bool" where
  "moves s p X X' \<longleftrightarrow> grows s p X X' \<or> shrinks p X X'"

lemma moves_cong: "view X = view Y \<Longrightarrow> moves s p X X' = moves s p Y X'"
  unfolding moves_def using grows_cong [of X Y X' X'] shrinks_cong [of X Y] by simp

lemma moves_view: "view X' = view X \<Longrightarrow> sk X p = Some kp \<Longrightarrow> moves s p X X'"
  by (simp add: moves_def same_grows)

lemma exec_Br_moves:
  assumes inv: "inv C {} X" and d: "MaxDepth C = 0" and k: "sk X s = Some k" "k_spec k" "k_perent k = Some p"
    and run: "follows_spec C s False X" and b: "exec_Br C s e d0 d1 X = Some X'"
  shows "moves s p X X'"
proof -
  from b obtain x y X1 X2 X3 where f: "fork C s e False X = Some ((x, y), X1)" "transfer d0 x X1 = Some X2" "transfer d1 y X2 = Some X3"
      "(if ispecEnabled C then transfer_spec d1 x X3 \<bind> transfer_spec d0 y else Some X3) = Some X'"
    by (auto simp: exec_Br_def bind_eq_Some_conv split del: if_split)
  have v: "view X' = view X1" by (rule transfers_view [OF f(2-4)])
  have "moves s p X X1" using f(1) d
  proof (cases rule: fork_cases)
    case (Fail st)
    note w = view_pc [OF Fail(1), of "es_prevPC st"]
    have "shrinks p (upd_state s (st\<lparr>es_pc := es_prevPC st\<rparr>) X) X1"
      by (rule terminateState_shrinks [OF _ _ k(2,3) Fail(4)]) (use inv inv_cong [OF w] k(1) w in \<open>simp_all add: view_def\<close>)
    then show ?thesis using shrinks_cong [OF w] by (simp add: moves_def)
  next
    case (Decided v)
    then show ?thesis using fork_decided_grows [OF inv k] by (simp add: moves_def)
  next
    case (BothSpec fs)
    then show ?thesis using fork_both_spec_grows [OF inv k] by (simp add: moves_def)
  qed (use run in simp_all)
  then show ?thesis unfolding moves_def using grows_cong [of X X X' X1] v by (auto simp: shrinks_def view_def)
qed

lemma mem_moves:
  assumes inv: "inv C {} X" and k: "sk X s = Some k" "k_spec k" "k_perent k = Some p" and m: "executeMemoryOperation C s m X = Some X'"
  shows "moves s p X X'"
proof -
  obtain st where st: "ex_heap X s = Some st" "es_isSpeculative st" using k by (auto simp: sk_def)
  obtain kp where kp: "sk X p = Some kp" using spec_parent [OF inv k(1,2)] k(3) by (metis option.inject)
  have same: "moves s p X X'" if "view Y = view X" "apply_data f s Y = Some X'" for Y f
    using moves_view [OF _ kp] apply_data_view [OF that(2)] that(1) by simp
  have ends: "moves s p X X'" if "view Y = view X" "terminateState C s Y = Some X'" for Y
  proof -
    have "shrinks p Y X'"
      by (rule terminateState_shrinks [OF _ _ k(2,3) that(2)]) (use inv inv_cong [OF that(1)] k(1) that(1) in \<open>simp_all add: view_def\<close>)
    then show ?thesis using shrinks_cong [OF that(1)] by (simp add: moves_def)
  qed
  have ends': "moves s p X X'" if "view Y = view X" "terminateSpecState C s Y = Some X'" for Y
  proof (rule ends [OF that(1)])
    have "sk Y s = Some k" using that(1) k(1) by (simp add: view_def)
    then show "terminateState C s Y = Some X'" using that(2) k(2) by (auto simp: terminateState_def sk_def)
  qed
  show ?thesis using m
  proof (cases rule: executeMemoryOperation_cases)
    case (1 X1)
    then show ?thesis by (rule ends)
  next
    case (2 X1)
    from 2(2) show ?thesis using ends [OF 2(1)] same 2(1) by (cases rule: mem_in_bounds_cases) auto
  next
    case (3 X1)
    have "sk X1 s = Some k" using 3(1) k(1) by (simp add: view_def)
    then obtain st1 where st1: "ex_heap X1 s = Some st1" "es_isSpeculative st1" using k(2) by (auto simp: sk_def)
    from 3(2) st1 show ?thesis
    proof (cases rule: mem_error_cases)
      case 1
      then show ?thesis by (rule ends' [OF 3(1)])
    next
      case (2 Y c t)
      then show ?thesis using same record_read_view 3(1) by metis
    next
      case a: (3 Y)
      then show ?thesis using ends 3(1) by simp
    qed
  qed
qed

lemma updateStates_idle:
  assumes "updateStates X = Some X'" "ex_addedStates X = []" "ex_removedStates X = []"
  shows "sk X' = sk X" "ex_searcher X' = ex_searcher X"
  using assms by (auto simp: updateStates_def Let_def sk_def fun_eq_iff)

lemma stays_moves:
  assumes inv: "inv C {} X" and k: "sk X s = Some k" "k_spec k" "k_perent k = Some p" and s: "stays C s X X'"
  shows "moves s p X X'"
proof -
  obtain kp where kp: "sk X p = Some kp" using spec_parent [OF inv k(1,2)] k(3) by (metis option.inject)
  from s consider "view X' = view X" | Y where "view Y = view X" "terminateState C s Y = Some X'" by (auto simp: stays_def)
  then show ?thesis
  proof cases
    case (2 Y)
    have "shrinks p Y X'"
      by (rule terminateState_shrinks [OF _ _ k(2,3) 2(2)]) (use inv inv_cong [OF 2(1)] k(1) 2(1) in \<open>simp_all add: view_def\<close>)
    then show ?thesis using shrinks_cong [OF 2(1)] by (simp add: moves_def)
  qed (rule moves_view [OF _ kp])
qed

lemma exec_action_moves:
  assumes inv: "inv C {} X" and d: "MaxDepth C = 0" and k: "sk X s = Some k" "k_spec k" "k_perent k = Some p"
    and run: "follows_spec C s False X" and c: "settled C s a X" and a: "exec_action C s a X = Some X'"
  shows "moves s p X X'"
proof -
  obtain kp where kp: "sk X p = Some kp" using spec_parent [OF inv k(1,2)] k(3) by (metis option.inject)
  obtain st where st: "ex_heap X s = Some st" "es_isSpeculative st" using k by (auto simp: sk_def)
  show ?thesis
  proof (cases a)
    case (Plain f)
    then show ?thesis using a moves_view [OF apply_data_view kp] by simp
  next
    case (Jump n)
    then show ?thesis using a moves_view [OF transfer_view kp] by simp
  next
    case (Br e d0 d1)
    then show ?thesis using a exec_Br_moves [OF inv d k run] by simp
  next
    case (Switch sw)
    then show ?thesis using a st terminateSpecState_shrinks [OF inv k(1,3)] by (simp add: exec_Switch_def moves_def)
  next
    case (Call f)
    then show ?thesis using stays_moves [OF inv k calls_stay [OF st c a]] by blast
  next
    case (CallPointer vs)
    then show ?thesis using stays_moves [OF inv k calls_stay [OF st c a]] by blast
  next
    case (Mem m)
    then show ?thesis using a mem_moves [OF inv k] by simp
  next
    case Stop
    then show ?thesis using a terminateState_shrinks [OF inv k] by (simp add: moves_def)
  qed
qed

lemma run_step_works:
  assumes inv: "inv C {} X" and d: "MaxDepth C = 0" "ispecEnabled C" and idle: "ex_addedStates X = []" "ex_removedStates X = []"
    and p: "ex_searcher X \<noteq> []" "p = last (ex_searcher X)" "sk X p = Some kp" "k_queue kp \<noteq> []"
    and c: "calm_step C a X" and r: "run_step C a X = Some X'"
  shows "spec_work (sk X') p < spec_work (sk X) p" "ex_searcher X' = ex_searcher X" "sk X' p \<noteq> None"
proof -
  from r obtain s X1 X2 where st: "selectState X = Some s" "stepInstruction C s X = Some X1"
      "executeInstruction C s a X1 = Some X2" "updateStates X2 = Some X'"
    by (auto simp: run_step_def bind_eq_Some_conv)
  obtain k where k: "sk X s = Some k" "\<not> k_spec k \<Longrightarrow> quiet s X" "\<not> k_spec k \<Longrightarrow> s = p"
      "k_spec k \<Longrightarrow> hd (k_queue kp) = s \<and> k_perent k = Some p"
    using selectState_spec [OF inv idle(2) st(1)] p(2,3) by (metis option.inject)
  have sp: "k_spec k" using k(2,3) p(3,4) by (auto simp: quiet_def)
  then have hd: "hd (k_queue kp) = s" "k_perent k = Some p" using k(4) by simp_all
  have "s \<noteq> p" using sp k(1) p(3) inv_viewD(10) [OF inv [unfolded inv_def view_def], of p] p(1,2) by auto
  have v: "view X1 = v_step s (view X)" using stepInstruction_view [OF st(2) k(1) d(2)] sp by simp
  have i1: "inv C {} X1" using inv_v_step [OF inv [unfolded inv_def], of s k] k(1) sp by (simp add: inv_def view_sels v)
  let ?k = "k\<lparr>k_count := k_count k - 1\<rparr>"
  have X1: "sk X1 = (sk X)(s \<mapsto> ?k)" "ex_searcher X1 = ex_searcher X" "ex_addedStates X1 = []" "ex_removedStates X1 = []"
    using v k(1) idle by (simp_all add: view_def v_step_def)
  obtain t where t: "k_queue kp = s # t" using hd(1) p(4) by (cases "k_queue kp") auto
  have dt: "s \<notin> set t" using inv_viewD(2) [OF inv [unfolded inv_def view_def] p(3)] t by (simp add: queue_ok_def)
  have q1: "sk X1 p = Some kp" "sk X1 s = Some ?k" using X1(1) p(3) \<open>s \<noteq> p\<close> by simp_all
  have same: "map (\<lambda>q. 5 ^ nat (k_count (the (sk X1 q)))) t = (map (\<lambda>q. 5 ^ nat (k_count (the (sk X q)))) t :: nat list)"
    using dt by (intro map_cong) (auto simp: X1(1))
  have w: "spec_work (sk X1) p = 5 ^ nat (k_count k - 1) + sum_list (map (\<lambda>q. 5 ^ nat (k_count (the (sk X q)))) t)"
      "spec_work (sk X) p = 5 ^ nat (k_count k) + sum_list (map (\<lambda>q. 5 ^ nat (k_count (the (sk X q)))) t)"
    unfolding spec_work_def q1 p(3) option.case t list.map sum_list.Cons k(1) option.sel same by simp_all
  obtain st1 where st1: "ex_heap X1 s = Some st1" "?k = skel_of st1" by (rule sk_SomeE [OF q1(2)])
  have e1: "es_isSpeculative st1" "es_specInstCount st1 = k_count k - 1" using arg_cong [OF st1(2), of k_spec] arg_cong [OF st1(2), of k_count] sp by simp_all
  have "moves s p X1 X2 \<and> (k_count k - 1 \<le> 0 \<longrightarrow> shrinks p X1 X2)"
  proof (cases "es_specInstCount st1 \<le> 0 \<or> in_libs (ii_file (sc_info C (es_prevPC st1)))")
    case True
    with st(3) st1(1) e1 have "terminateSpecState C s X1 = Some X2" by (auto simp: executeInstruction_def)
    then show ?thesis using terminateSpecState_shrinks [OF i1 q1(2)] hd(2) by (simp add: moves_def)
  next
    case False
    then have "follows_spec C s False X1" using st1(1) d(2) by (auto simp: follows_spec_def)
    moreover from False st(3) st1(1) e1 have "exec_action C s a X1 = Some X2" by (auto simp: executeInstruction_def)
    moreover have "settled C s a X1" using c st(1) stepInstruction_settled [OF st(2)] by (simp add: calm_step_def)
    ultimately show ?thesis using exec_action_moves [OF i1 d(1) q1(2)] sp hd(2) False e1(2) by simp
  qed
  then have "spec_work (sk X2) p < spec_work (sk X) p \<and> ex_searcher X2 = ex_searcher X \<and> ex_addedStates X2 = []
      \<and> ex_removedStates X2 = [] \<and> sk X2 p \<noteq> None"
  proof (cases "shrinks p X1 X2")
    case True
    from shrinks_work [OF this q1(1)] have "spec_work (sk X2) p < spec_work (sk X) p"
      using w t q1(2) by simp
    with True X1 show ?thesis by (auto simp: shrinks_def)
  next
    case False
    assume "moves s p X1 X2 \<and> (k_count k - 1 \<le> 0 \<longrightarrow> shrinks p X1 X2)"
    with False have g: "grows s p X1 X2" and c: "0 < k_count k - 1" by (auto simp: moves_def)
    have n: "nat (k_count k) = Suc (nat (k_count k - 1))" using c by simp
    have pos: "0 < (5::nat) ^ nat (k_count k - 1)" by simp
    have "spec_work (sk X2) p \<le> spec_work (sk X1) p + 3 * 5 ^ nat (k_count k - 1)" using grows_work [OF g] q1(2) by simp
    with pos w have "spec_work (sk X2) p < spec_work (sk X) p" unfolding n power_Suc by linarith
    with g X1 show ?thesis by (auto simp: grows_def)
  qed
  then show "spec_work (sk X') p < spec_work (sk X) p" "ex_searcher X' = ex_searcher X" "sk X' p \<noteq> None"
    using updateStates_idle [OF st(4)] by auto
qed

subsection \<open>Reachable states\<close>

text \<open>The states the executor is in between two rounds, from the start on.\<close>

definition initial :: "nat \<Rightarrow> 'p \<Rightarrow> 'p executor" where
  "initial pc d = (let (s, X) = new_ExecutionState pc d new_executor in start_run s X)"

definition between :: "'p spec_config \<Rightarrow> 'p executor \<Rightarrow> bool" where
  "between C X \<longleftrightarrow> inv C {} X \<and> ex_addedStates X = [] \<and> ex_removedStates X = []"

lemma between_initial: "between C (initial pc d)"
proof -
  have v: "view (initial pc d :: 'p executor) = ([0 \<mapsto> \<lparr>k_spec = False, k_count = 0, k_tag = 0, k_perent = None, k_queue = [], k_fin = []\<rparr>],
      1, 2, 1, {0}, [0], [], [])" for pc and d :: 'p
    by (simp add: initial_def new_ExecutionState_def new_executor_def start_run_def view_def sk_def skel_of_def fun_eq_iff Let_def)
  have "inv C {} (initial pc d)" unfolding inv_def v
    by (rule inv_viewI) (auto simp: queue_ok_def home_ok_def tag_ok_def split: if_splits)
  then show ?thesis using v [of pc d] by (simp add: between_def view_def)
qed

text \<open>
  A run in which the solver decides every condition that an instruction of a speculative state forks on by itself:
  sizes to allocate, addresses to free, function pointers. Branches are not among them.
\<close>

fun calm :: "'p spec_config \<Rightarrow> 'p action list \<Rightarrow> 'p executor \<Rightarrow> bool" where
  "calm C [] X = True"
| "calm C (a # as) X = (calm_step C a X \<and> (case run_step C a X of None \<Rightarrow> True | Some X' \<Rightarrow> calm C as X'))"

lemma run_loop_between:
  assumes "between C X" "MaxDepth C = 0" "ispecEnabled C" "run_loop C as X = Some X'" "calm C as X"
  shows "between C X'"
  using assms
proof (induction as arbitrary: X)
  case (Cons a as)
  show ?case
  proof (cases "ex_states X = {}")
    case False
    with Cons.prems(4) obtain X1 where X1: "run_step C a X = Some X1" "run_loop C as X1 = Some X'"
      by (auto simp: bind_eq_Some_conv)
    have c: "calm_step C a X" "calm C as X1" using Cons.prems(5) X1(1) by simp_all
    have "between C X1" using run_step_keeps [OF _ Cons.prems(2,3) _ c(1) X1(1)] Cons.prems(1) by (simp add: between_def)
    then show ?thesis using Cons.IH [OF _ Cons.prems(2,3) X1(2) c(2)] by blast
  qed (use Cons.prems in simp)
qed simp

subsection \<open>Properties\<close>

text \<open>The speculative states waiting at the state the search is at.\<close>

definition pending :: "'p executor \<Rightarrow> sid list" where
  "pending X = (case ex_searcher X of [] \<Rightarrow> [] | _ \<Rightarrow>
     (case ex_heap X (last (ex_searcher X)) of None \<Rightarrow> [] | Some st \<Rightarrow> es_specStates st))"

lemma pending_queue:
  assumes "sk X (last (ex_searcher X)) = Some kp" "ex_searcher X \<noteq> []"
  shows "pending X = k_queue kp"
  using assms by (auto simp: pending_def sk_def neq_Nil_conv)

lemma work_bound:
  assumes inv: "inv C {} X" and p: "sk X p = Some kp"
  shows "spec_work (sk X) p \<le> length (k_queue kp) * 5 ^ nat (maxSEW C)"
proof -
  have "5 ^ nat (k_count (the (sk X q))) \<le> (5 ^ nat (maxSEW C) :: nat)" if q: "q \<in> set (k_queue kp)" for q
  proof -
    obtain kq where kq: "sk X q = Some kq" "k_spec kq" using queued [OF inv p] q by auto
    then have "k_count kq \<le> maxSEW C" using inv_viewD(4) [OF inv [unfolded inv_def view_def]] by blast
    with kq show ?thesis by (simp add: power_increasing nat_mono)
  qed
  then have "sum_list (map (\<lambda>q. 5 ^ nat (k_count (the (sk X q)))) (k_queue kp)) \<le> sum_list (map (\<lambda>q. 5 ^ nat (maxSEW C) :: nat) (k_queue kp))"
    by (rule sum_list_mono)
  then show ?thesis by (simp add: spec_work_def p map_replicate_const sum_list_replicate)
qed

lemma searcher_head:
  assumes "inv C {} X" "ex_searcher X \<noteq> []"
  obtains kp where "sk X (last (ex_searcher X)) = Some kp" "\<not> k_spec kp"
  using inv_viewD(10) [OF assms(1) [unfolded inv_def view_def], of "last (ex_searcher X)"] assms(2) by auto

lemma drains:
  assumes "between C X" "MaxDepth C = 0" "ispecEnabled C" "run_loop C as X = Some X'" "ex_searcher X \<noteq> []"
    "spec_work (sk X) (last (ex_searcher X)) \<le> length as" "calm C as X"
  shows "\<exists>n Y. n \<le> spec_work (sk X) (last (ex_searcher X)) \<and> run_loop C (take n as) X = Some Y
    \<and> ex_searcher Y = ex_searcher X \<and> pending Y = []"
  using assms
proof (induction as arbitrary: X)
  case Nil
  obtain kp where kp: "sk X (last (ex_searcher X)) = Some kp"
    using searcher_head [of C X] Nil.prems(1,5) by (auto simp: between_def)
  then have "k_queue kp = []" using Nil.prems(6) by (cases "k_queue kp") (auto simp: spec_work_def)
  then have "pending X = []" using pending_queue [OF kp Nil.prems(5)] by simp
  then show ?case by (intro exI [of _ 0]) auto
next
  case (Cons a as)
  let ?p = "last (ex_searcher X)"
  note I = Cons.prems(1) [unfolded between_def]
  obtain kp where kp: "sk X ?p = Some kp" using searcher_head [of C X] I Cons.prems(5) by auto
  show ?case
  proof (cases "k_queue kp = []")
    case True
    then have "pending X = []" using pending_queue [OF kp Cons.prems(5)] by simp
    then show ?thesis by (intro exI [of _ 0]) auto
  next
    case False
    have ne: "ex_states X \<noteq> {}" using inv_viewD(11) [OF conjunct1 [OF I, unfolded inv_def view_def]] Cons.prems(5) by auto
    with Cons.prems(4) obtain X1 where X1: "run_step C a X = Some X1" "run_loop C as X1 = Some X'"
      by (auto simp: bind_eq_Some_conv)
    have c: "calm_step C a X" "calm C as X1" using Cons.prems(7) X1(1) by simp_all
    note W = run_step_works [OF _ Cons.prems(2,3) _ _ Cons.prems(5) refl kp False c(1) X1(1)]
    have w: "spec_work (sk X1) ?p < spec_work (sk X) ?p" "ex_searcher X1 = ex_searcher X" using W I by auto
    have "between C X1" using run_step_keeps [OF _ Cons.prems(2,3) _ c(1) X1(1)] I by (simp add: between_def)
    moreover have "spec_work (sk X1) ?p \<le> length as" using w(1) Cons.prems(6) by simp
    ultimately obtain n Y where n: "n \<le> spec_work (sk X1) ?p" "run_loop C (take n as) X1 = Some Y"
        "ex_searcher Y = ex_searcher X" "pending Y = []"
      using Cons.IH [OF _ Cons.prems(2,3) X1(2)] w(2) Cons.prems(5) c(2) by auto
    show ?thesis
    proof (intro exI conjI)
      show "run_loop C (take (Suc n) (a # as)) X = Some Y" using ne X1(1) n(2) by simp
    qed (use n w in auto)
  qed
qed

lemma reachable_between:
  "MaxDepth C = 0 \<Longrightarrow> ispecEnabled C \<Longrightarrow> run_loop C as (initial pc d) = Some X \<Longrightarrow> calm C as (initial pc d)
    \<Longrightarrow> between C X"
  by (rule run_loop_between [OF between_initial])

text \<open>A configuration and a branch condition to try the properties on.\<close>

definition demo_config :: "unit spec_config" where
  "demo_config = \<lparr>maxSEW = 3, ispecEnabled = True, isCacheEnabled = False, OnlyDetectMarkedSecret = False, MaxDepth = 0,
     sc_cache = default_config, sc_hash = (\<lambda>_ _. 0), sc_info = (\<lambda>i. \<lparr>ii_file = ''f.c'', ii_line = i, ii_assemblyLine = i\<rparr>),
     sc_evaluate = (\<lambda>_ e. if is_ConstantExpr e then Some VTrue else Some VUnknown), sc_addConstraint = (\<lambda>_ d. Some d)\<rparr>"

definition demo_cond :: expr where
  "demo_cond = BinaryExpr Ult (ConstantExpr (CE 8 5)) (ReadExpr True witness_array NullNode (ConstantExpr (CE 32 0)))"

text \<open>A branch, and a call through a pointer that has one value.\<close>

definition demo_run :: "unit action list" where
  "demo_run = [Br demo_cond 5 6, CallPointer [(true_expr, Some (Enter id 20))]]"

lemma demo_simps: "MaxDepth demo_config = 0" "ispecEnabled demo_config" "\<not> isCacheEnabled demo_config"
  by (simp_all add: demo_config_def)

text \<open>
  What goes wrong without that hypothesis: when an instruction of a speculative state forks on a condition the solver does not
  decide, the new state is speculative but has no parent, and it is added to the searcher's states. Ending it then
  dereferences the missing parent.
\<close>

lemma internal_fork_escapes:
  assumes st: "ex_heap X s = Some st" "es_isSpeculative st" and u: "sc_evaluate C (es_data st) e = Some VUnknown"
    and d: "MaxDepth C = 0" and f: "fork C s e True X = Some ((a, b), X')"
  shows "\<exists>v sv. b = Some v \<and> v \<in> set (ex_addedStates X') \<and> ex_heap X' v = Some sv \<and> es_isSpeculative sv
    \<and> es_pPerentState sv = None \<and> terminateState C v X' = None"
proof -
  from f st u d obtain v where v: "fork_both C s e X = Some (v, X')" "b = Some v"
    by (auto simp: fork_def bind_eq_Some_conv)
  obtain k where k: "sk X s = Some k" "v = ex_next X"
      "view X' = v_add (ex_next X) (v_alloc (new_branch k (if k_spec k then ex_spCount X else ex_count X)) (view X))"
    by (rule fork_both_view [OF v(1)])
  have sk: "sk X' v = Some (new_branch k (ex_spCount X))" "v \<in> set (ex_addedStates X')"
    using k st unfolding view_def v_add_def v_alloc_def by (auto simp: sk_def)
  then obtain sv where sv: "ex_heap X' v = Some sv" "new_branch k (ex_spCount X) = skel_of sv" by (metis sk_SomeE)
  have "es_isSpeculative sv" "es_pPerentState sv = None"
    using arg_cong [OF sv(2), of k_spec] arg_cong [OF sv(2), of k_perent] k(1) st by (auto simp: sk_def)
  then show ?thesis using v(2) sk(2) sv(1) by (auto simp: terminateState_def terminateSpecState_def assert_that_def Let_def)
qed

text \<open>
  C15. In every state that the executor reaches by the modelled instructions with the depth-first searcher, speculation on and no
  depth limit, and in a run in which the solver decides every condition a speculative state's own instruction forks on (sizes to
  allocate, addresses to free, function pointers; not the program's branches): a state in a queue of speculative
  states is alive, speculative, has the state it is queued at as its parent and a window of at most \<^verbatim>\<open>maxSEW\<close>; every
  speculative state is queued, or kept as finished, at its parent, which is a normal state; no two
  states have the same tag; and the searcher and the set \<^verbatim>\<open>states\<close> hold exactly the normal states.
\<close>

theorem run_consistent:
  assumes "MaxDepth C = 0" "ispecEnabled C" "run_loop C as (initial pc d) = Some X" "calm C as (initial pc d)"
  shows "(\<forall>p st q. ex_heap X p = Some st \<longrightarrow> q \<in> set (es_specStates st) \<longrightarrow>
          (\<exists>sq. ex_heap X q = Some sq \<and> es_isSpeculative sq \<and> es_pPerentState sq = Some p \<and> es_specInstCount sq \<le> maxSEW C))
    \<and> (\<forall>q sq. ex_heap X q = Some sq \<longrightarrow> es_isSpeculative sq \<longrightarrow>
          (\<exists>p st. es_pPerentState sq = Some p \<and> ex_heap X p = Some st \<and> \<not> es_isSpeculative st
             \<and> q \<in> set (es_specStates st @ es_finishedSpecStates st)))
    \<and> (\<forall>s t ss st. ex_heap X s = Some ss \<longrightarrow> ex_heap X t = Some st \<longrightarrow> es_tag ss = es_tag st \<longrightarrow> s = t)
    \<and> set (ex_searcher X) = ex_states X \<and> ex_states X = {s. \<exists>st. ex_heap X s = Some st \<and> \<not> es_isSpeculative st}"
proof -
  have B: "inv C {} X" "ex_addedStates X = []" using reachable_between [OF assms] by (simp_all add: between_def)
  note D = inv_viewD [OF B(1) [unfolded inv_def view_def]]
  show ?thesis
  proof (intro conjI allI impI)
    fix p st q assume p: "ex_heap X p = Some st" and q: "q \<in> set (es_specStates st)"
    obtain kq where kq: "sk X q = Some kq" "k_spec kq" "k_perent kq = Some p"
      using queued [OF B(1) sk_SomeD [OF p], of q] q by auto
    with D(4) [OF kq(1)] show "\<exists>sq. ex_heap X q = Some sq \<and> es_isSpeculative sq \<and> es_pPerentState sq = Some p \<and> es_specInstCount sq \<le> maxSEW C"
      by (auto simp: sk_def)
  next
    fix q sq assume q: "ex_heap X q = Some sq" "es_isSpeculative sq"
    obtain p kp where p: "es_pPerentState sq = Some p" "sk X p = Some kp" "\<not> k_spec kp" "q \<in> set (k_queue kp @ k_fin kp)"
      by (rule spec_parent [OF B(1) sk_SomeD [OF q(1)]]) (use q(2) in auto)
    from p(2) obtain st where "ex_heap X p = Some st" "kp = skel_of st" by (rule sk_SomeE)
    with p show "\<exists>p st. es_pPerentState sq = Some p \<and> ex_heap X p = Some st \<and> \<not> es_isSpeculative st
        \<and> q \<in> set (es_specStates st @ es_finishedSpecStates st)" by auto
  next
    fix s t ss st assume "ex_heap X s = Some ss" "ex_heap X t = Some st" "es_tag ss = es_tag st"
    then show "s = t" using D(6) [OF sk_SomeD sk_SomeD] by auto
  next
    show "set (ex_searcher X) = ex_states X" by (rule D(11))
    show "ex_states X = {s. \<exists>st. ex_heap X s = Some st \<and> \<not> es_isSpeculative st}"
    proof (intro set_eqI iffI)
      fix s assume "s \<in> ex_states X"
      then show "s \<in> {s. \<exists>st. ex_heap X s = Some st \<and> \<not> es_isSpeculative st}" using D(10) [of s] D(11) by (auto simp: sk_def)
    next
      fix s assume "s \<in> {s. \<exists>st. ex_heap X s = Some st \<and> \<not> es_isSpeculative st}"
      then obtain st where "ex_heap X s = Some st" "\<not> es_isSpeculative st" by auto
      then show "s \<in> ex_states X" using D(3) [OF sk_SomeD, of s st] D(11) B(2) by (simp add: home_ok_def)
    qed
  qed
qed

theorem run_consistent_witness:
  "\<exists>X. run_loop demo_config demo_run (initial 0 ()) = Some X \<and> ex_next X = 4 \<and> set (ex_searcher X) = ex_states X
     \<and> calm demo_config demo_run (initial 0 ())"
proof -
  have c: "map_option ex_next (run_loop demo_config demo_run (initial 0 ())) = Some 4" by code_simp
  have calm: "calm demo_config demo_run (initial 0 ())" by code_simp
  from c obtain X where X: "run_loop demo_config demo_run (initial 0 ()) = Some X" "ex_next X = 4" by auto
  from run_consistent [OF demo_simps(1,2) X(1) calm] X calm show ?thesis by auto
qed

text \<open>
  C16. Speculation ends: from every state the executor reaches, under the conditions of C15 and when they go on to hold, if the next
  \<open>n = |queue| * 5 ^ maxSEW\<close> rounds are carried out without an error, then the queue of the normal state the search is at
  becomes empty within them and the search is still at that state. This bounds the work speculation adds to
  every branch by the window.
\<close>

theorem speculation_ends:
  assumes "MaxDepth C = 0" "ispecEnabled C" "run_loop C as (initial pc d) = Some X" "calm C as (initial pc d)" "ex_states X \<noteq> {}"
    and "run_loop C bs X = Some X'" "calm C bs X" "length (pending X) * 5 ^ nat (maxSEW C) \<le> length bs"
  shows "\<exists>n Y. n \<le> length (pending X) * 5 ^ nat (maxSEW C) \<and> run_loop C (take n bs) X = Some Y
    \<and> ex_searcher Y = ex_searcher X \<and> pending Y = []"
proof -
  have b: "between C X" using reachable_between [OF assms(1-4)] .
  then have i: "inv C {} X" by (simp add: between_def)
  have ne: "ex_searcher X \<noteq> []" using inv_viewD(11) [OF i [unfolded inv_def view_def]] assms(5) by auto
  obtain kp where kp: "sk X (last (ex_searcher X)) = Some kp" using searcher_head [OF i ne] by metis
  have w: "spec_work (sk X) (last (ex_searcher X)) \<le> length (pending X) * 5 ^ nat (maxSEW C)"
    using work_bound [OF i kp] pending_queue [OF kp ne] by simp
  with drains [OF b assms(1,2,6) ne] assms(7,8) show ?thesis by (meson order_trans)
qed

definition demo_actions :: "unit action list" where
  "demo_actions = CallPointer [(true_expr, Some (Enter id 20))] # replicate 125 Stop"

theorem speculation_ends_witness:
  "\<exists>X n Y. run_loop demo_config [Br demo_cond 5 6] (initial 0 ()) = Some X \<and> pending X \<noteq> []
     \<and> run_loop demo_config (take n demo_actions) X = Some Y \<and> ex_searcher Y = ex_searcher X \<and> pending Y = []"
proof -
  have c: "map_option (\<lambda>X. (pending X \<noteq> [], ex_states X \<noteq> {}, length (pending X), run_loop demo_config demo_actions X \<noteq> None,
        calm demo_config demo_actions X))
      (run_loop demo_config [Br demo_cond 5 6] (initial 0 ())) = Some (True, True, 1, True, True)" by code_simp
  have calm: "calm demo_config [Br demo_cond 5 6] (initial 0 ())" by code_simp
  from c obtain X where X: "run_loop demo_config [Br demo_cond 5 6] (initial 0 ()) = Some X" "pending X \<noteq> []" "ex_states X \<noteq> {}"
      "length (pending X) = 1" "run_loop demo_config demo_actions X \<noteq> None" "calm demo_config demo_actions X"
    by (auto simp del: run_loop.simps calm.simps)
  then obtain X' where X': "run_loop demo_config demo_actions X = Some X'" by auto
  have l: "length (pending X) * 5 ^ nat (maxSEW demo_config) \<le> length demo_actions"
    unfolding X(4) by (simp add: demo_config_def demo_actions_def)
  show ?thesis using speculation_ends [OF demo_simps(1,2) X(1) calm X(3) X' X(6) l] X(1,2) by blast
qed

subsection \<open>The assertions hold\<close>







end
