(* ===== verification/KTestFile.thy ===== *)
theory KTestFile
  imports Prelude
begin

text \<open>
  Test case files (\<^verbatim>\<open>lib/Basic/KTest.cpp\<close>). A file is its list of bytes, a byte a number below 256. Reading consumes a
  prefix of what is left; writing appends, up to the capacity of the disk. A call returns a value, or
  reports an error (returns 0, after which the caller gives up), or its behaviour is undefined (it writes outside
  an allocated buffer or dereferences a null pointer). \<open>alloc n\<close> says whether allocating \<open>n\<close> bytes succeeds.
\<close>

datatype 'a outcome = Undefined | Error | Ok 'a

fun andthen :: "'a outcome \<Rightarrow> ('a \<Rightarrow> 'b outcome) \<Rightarrow> 'b outcome" where
  "andthen Undefined f = Undefined"
| "andthen Error f = Error"
| "andthen (Ok x) f = f x"

lemma andthen_eq_Ok [simp]: "andthen m f = Ok y \<longleftrightarrow> (\<exists>x. m = Ok x \<and> f x = Ok y)"
  by (cases m) auto

type_synonym bytes = "nat list"

record KTestObject =
  o_name :: bytes
  numBytes :: nat
  o_bytes :: bytes

record KTest =
  version :: nat
  numArgs :: nat
  args :: "bytes list"
  symArgvs :: nat
  symArgvLen :: nat
  numObjects :: nat
  objects :: "KTestObject list"

definition KTEST_VERSION :: nat where "KTEST_VERSION = 3"
definition KTEST_MAGIC :: bytes where "KTEST_MAGIC = [75, 84, 69, 83, 84]"
definition BOUT_MAGIC :: bytes where "BOUT_MAGIC = [66, 79, 85, 84, 10]"

subsection \<open>The standard library\<close>

text \<open>\<^verbatim>\<open>fread(buf, n, 1, f) != 1\<close> is an error; so is reading an item of size 0.\<close>

definition fread :: "nat \<Rightarrow> bytes \<Rightarrow> (bytes \<times> bytes) outcome" where
  "fread n f = (if n = 0 \<or> length f < n then Error else Ok (take n f, drop n f))"

definition fwrite :: "nat \<Rightarrow> bytes \<Rightarrow> bytes \<Rightarrow> bytes outcome" where
  "fwrite cap data f = (if data = [] \<or> cap < length f + length data then Error else Ok (f @ data))"

text \<open>A C string ends at its first zero byte.\<close>

definition strlen :: "bytes \<Rightarrow> nat" where
  "strlen s = length (takeWhile (\<lambda>c. c \<noteq> 0) s)"

subsection \<open>Numbers and strings\<close>

definition read_uint32 :: "bytes \<Rightarrow> (nat \<times> bytes) outcome" where
  "read_uint32 f = andthen (fread 4 f) (\<lambda>(data, f).
     Ok ((((data ! 0 * 2 ^ 8 + data ! 1) * 2 ^ 8 + data ! 2) * 2 ^ 8 + data ! 3) mod 2 ^ 32, f))"

definition write_uint32 :: "nat \<Rightarrow> nat \<Rightarrow> bytes \<Rightarrow> bytes outcome" where
  "write_uint32 cap value f =
     fwrite cap [value div 2 ^ 24 mod 256, value div 2 ^ 16 mod 256, value div 2 ^ 8 mod 256, value mod 256] f"

text \<open>
  The buffer has \<open>len + 1\<close> bytes, computed in 32 bits. \<^verbatim>\<open>fread\<close> copies what there is, up to \<open>len\<close> bytes, before it
  reports an error. The result is the bytes stored; read as a C string it ends at its first zero byte.
\<close>

definition read_string :: "(nat \<Rightarrow> bool) \<Rightarrow> bytes \<Rightarrow> (bytes \<times> bytes) outcome" where
  "read_string alloc f = andthen (read_uint32 f) (\<lambda>(len, f).
     let size = (len + 1) mod 2 ^ 32 in
     if \<not> alloc size then Error
     else if size < min len (length f) then Undefined
     else andthen (fread len f) (\<lambda>(value, f). if len < size then Ok (value, f) else Undefined))"

definition write_string :: "nat \<Rightarrow> bytes \<Rightarrow> bytes \<Rightarrow> bytes outcome" where
  "write_string cap value f =
     andthen (write_uint32 cap (strlen value mod 2 ^ 32) f) (\<lambda>f. fwrite cap (take (strlen value mod 2 ^ 32) value) f)"

subsection \<open>Reading\<close>

definition kTest_checkHeader :: "bytes \<Rightarrow> bytes outcome" where
  "kTest_checkHeader f = andthen (fread 5 f) (\<lambda>(header, f).
     if header \<noteq> KTEST_MAGIC \<and> header \<noteq> BOUT_MAGIC then Error else Ok f)"

definition kTest_isKTestFile :: "bytes option \<Rightarrow> bool" where
  "kTest_isKTestFile file = (case file of None \<Rightarrow> False | Some f \<Rightarrow> kTest_checkHeader f \<noteq> Error)"

fun read_args :: "(nat \<Rightarrow> bool) \<Rightarrow> nat \<Rightarrow> bytes \<Rightarrow> (bytes list \<times> bytes) outcome" where
  "read_args alloc 0 f = Ok ([], f)"
| "read_args alloc (Suc n) f =
     andthen (read_string alloc f) (\<lambda>(a, f). andthen (read_args alloc n f) (\<lambda>(as, f). Ok (a # as, f)))"

text \<open>The allocation of an object's bytes is not checked before they are read.\<close>

definition read_object :: "(nat \<Rightarrow> bool) \<Rightarrow> bytes \<Rightarrow> (KTestObject \<times> bytes) outcome" where
  "read_object alloc f =
     andthen (read_string alloc f) (\<lambda>(name, f).
     andthen (read_uint32 f) (\<lambda>(n, f).
     if \<not> alloc n \<and> 0 < min n (length f) then Undefined
     else andthen (fread n f) (\<lambda>(bs, f). Ok (\<lparr>o_name = name, numBytes = n, o_bytes = bs\<rparr>, f))))"

fun read_objects :: "(nat \<Rightarrow> bool) \<Rightarrow> nat \<Rightarrow> bytes \<Rightarrow> (KTestObject list \<times> bytes) outcome" where
  "read_objects alloc 0 f = Ok ([], f)"
| "read_objects alloc (Suc n) f =
     andthen (read_object alloc f) (\<lambda>(x, f). andthen (read_objects alloc n f) (\<lambda>(xs, f). Ok (x # xs, f)))"

definition read_symArgs :: "nat \<Rightarrow> bytes \<Rightarrow> (nat \<times> nat \<times> bytes) outcome" where
  "read_symArgs ver f =
     (if 2 \<le> ver then andthen (read_uint32 f) (\<lambda>(a, f). andthen (read_uint32 f) (\<lambda>(b, f). Ok (a, b, f)))
      else Ok (0, 0, f))"

text \<open>The sizes of \<^verbatim>\<open>KTest\<close>, of a pointer and of \<^verbatim>\<open>KTestObject\<close> on a 64-bit machine.\<close>

definition kTest_fromFile :: "(nat \<Rightarrow> bool) \<Rightarrow> bytes option \<Rightarrow> KTest outcome" where
  "kTest_fromFile alloc file =
     (case file of None \<Rightarrow> Error
      | Some f \<Rightarrow>
         andthen (kTest_checkHeader f) (\<lambda>f.
         if \<not> alloc 48 then Error else
         andthen (read_uint32 f) (\<lambda>(version, f).
         if KTEST_VERSION < version then Error else
         andthen (read_uint32 f) (\<lambda>(numArgs, f).
         if \<not> alloc (numArgs * 8) then Error else
         andthen (read_args alloc numArgs f) (\<lambda>(args, f).
         andthen (read_symArgs version f) (\<lambda>(symArgvs, symArgvLen, f).
         andthen (read_uint32 f) (\<lambda>(numObjects, f).
         if \<not> alloc (numObjects * 24) then Error else
         andthen (read_objects alloc numObjects f) (\<lambda>(objects, f).
         Ok \<lparr>version = version, numArgs = numArgs, args = args, symArgvs = symArgvs, symArgvLen = symArgvLen,
              numObjects = numObjects, objects = objects\<rparr>))))))))"

subsection \<open>Writing\<close>

fun write_args :: "nat \<Rightarrow> nat \<Rightarrow> bytes list \<Rightarrow> bytes \<Rightarrow> bytes outcome" where
  "write_args cap 0 as f = Ok f"
| "write_args cap (Suc n) [] f = Undefined"
| "write_args cap (Suc n) (a # as) f = andthen (write_string cap a f) (write_args cap n as)"

definition write_object :: "nat \<Rightarrow> KTestObject \<Rightarrow> bytes \<Rightarrow> bytes outcome" where
  "write_object cap x f =
     andthen (write_string cap (o_name x) f) (\<lambda>f.
     andthen (write_uint32 cap (numBytes x) f) (\<lambda>f.
     if length (o_bytes x) < numBytes x then Undefined else fwrite cap (take (numBytes x) (o_bytes x)) f))"

fun write_objects :: "nat \<Rightarrow> nat \<Rightarrow> KTestObject list \<Rightarrow> bytes \<Rightarrow> bytes outcome" where
  "write_objects cap 0 xs f = Ok f"
| "write_objects cap (Suc n) [] f = Undefined"
| "write_objects cap (Suc n) (x # xs) f = andthen (write_object cap x f) (write_objects cap n xs)"

text \<open>\<open>writable\<close> says whether the file can be opened for writing.\<close>

definition kTest_toFile :: "bool \<Rightarrow> nat \<Rightarrow> KTest \<Rightarrow> bytes outcome" where
  "kTest_toFile writable cap bo =
     (if \<not> writable then Error else
      andthen (fwrite cap KTEST_MAGIC []) (\<lambda>f.
      andthen (write_uint32 cap KTEST_VERSION f) (\<lambda>f.
      andthen (write_uint32 cap (numArgs bo) f) (\<lambda>f.
      andthen (write_args cap (numArgs bo) (args bo) f) (\<lambda>f.
      andthen (write_uint32 cap (symArgvs bo) f) (\<lambda>f.
      andthen (write_uint32 cap (symArgvLen bo) f) (\<lambda>f.
      andthen (write_uint32 cap (numObjects bo) f) (\<lambda>f.
      write_objects cap (numObjects bo) (objects bo) f))))))))"

definition kTest_numBytes :: "KTest \<Rightarrow> nat" where
  "kTest_numBytes bo = fold (\<lambda>x res. (res + numBytes x) mod 2 ^ 32) (take (numObjects bo) (objects bo)) 0"

subsection \<open>Encodings\<close>

text \<open>
  What writer and reader of one kind of item promise each other: a valid item is written as its encoding, if there is
  room for it, and reading the encoding gives the item back and leaves the rest.
\<close>

locale codec =
  fixes valid :: "'a \<Rightarrow> bool" and enc :: "'a \<Rightarrow> bytes"
    and wr :: "nat \<Rightarrow> 'a \<Rightarrow> bytes \<Rightarrow> bytes outcome" and rd :: "bytes \<Rightarrow> ('a \<times> bytes) outcome"
  assumes wr_enc: "valid x \<Longrightarrow> length f + length (enc x) \<le> cap \<Longrightarrow> wr cap x f = Ok (f @ enc x)"
    and rd_enc: "valid x \<Longrightarrow> rd (enc x @ r) = Ok (x, r)"

text \<open>Loops over items.\<close>

locale list_codec = codec +
  fixes wrs :: "nat \<Rightarrow> nat \<Rightarrow> 'a list \<Rightarrow> bytes \<Rightarrow> bytes outcome" and rds :: "nat \<Rightarrow> bytes \<Rightarrow> ('a list \<times> bytes) outcome"
  assumes wrs_0: "wrs cap 0 xs f = Ok f"
    and wrs_Suc: "wrs cap (Suc n) (x # xs) f = andthen (wr cap x f) (wrs cap n xs)"
    and rds_0: "rds 0 f = Ok ([], f)"
    and rds_Suc: "rds (Suc n) f = andthen (rd f) (\<lambda>(x, f). andthen (rds n f) (\<lambda>(xs, f). Ok (x # xs, f)))"
begin

lemma wrs_enc:
  "list_all valid xs \<Longrightarrow> length f + length (concat (map enc xs)) \<le> cap
    \<Longrightarrow> wrs cap (length xs) xs f = Ok (f @ concat (map enc xs))"
  by (induction xs arbitrary: f) (simp_all add: wrs_0 wrs_Suc wr_enc)

lemma rds_enc: "list_all valid xs \<Longrightarrow> rds (length xs) (concat (map enc xs) @ r) = Ok (xs, r)"
  by (induction xs) (simp_all add: rds_0 rds_Suc rd_enc)

end

definition enc_uint32 :: "nat \<Rightarrow> bytes" where
  "enc_uint32 v = [v div 2 ^ 24 mod 256, v div 2 ^ 16 mod 256, v div 2 ^ 8 mod 256, v mod 256]"

lemma length_enc_uint32 [simp]: "length (enc_uint32 v) = 4"
  by (simp add: enc_uint32_def)

lemma uint32_digits:
  fixes v :: nat
  assumes "v < 2 ^ 32"
  shows "((v div 2 ^ 24 mod 256 * 2 ^ 8 + v div 2 ^ 16 mod 256) * 2 ^ 8 + v div 2 ^ 8 mod 256) * 2 ^ 8 + v mod 256 = v"
proof -
  have top: "v div 2 ^ 24 mod 256 = v div 2 ^ 24" using assms by (intro mod_less) (simp add: less_mult_imp_div_less)
  have step: "v div 2 ^ (n + 8) * 2 ^ 8 + v div 2 ^ n mod 256 = v div 2 ^ n" for n
    using div_mult_mod_eq [of "v div 2 ^ n" 256] by (simp add: power_add div_mult2_eq)
  from step [of 16] step [of 8] step [of 0] show ?thesis unfolding top by simp
qed

lemma write_uint32_ok: "length f + 4 \<le> cap \<Longrightarrow> write_uint32 cap v f = Ok (f @ enc_uint32 v)"
  by (simp add: write_uint32_def fwrite_def enc_uint32_def)

lemma read_uint32_ok:
  assumes "v < 2 ^ 32"
  shows "read_uint32 (enc_uint32 v @ r) = Ok (v, r)"
proof -
  have "fread 4 (enc_uint32 v @ r) = Ok (enc_uint32 v, r)" by (simp add: fread_def)
  moreover have n: "enc_uint32 v ! 0 = v div 2 ^ 24 mod 256" "enc_uint32 v ! 1 = v div 2 ^ 16 mod 256"
      "enc_uint32 v ! 2 = v div 2 ^ 8 mod 256" "enc_uint32 v ! 3 = v mod 256"
    by (simp_all add: enc_uint32_def)
  have "((enc_uint32 v ! 0 * 2 ^ 8 + enc_uint32 v ! 1) * 2 ^ 8 + enc_uint32 v ! 2) * 2 ^ 8 + enc_uint32 v ! 3 = v"
    unfolding n by (rule uint32_digits [OF assms])
  ultimately show ?thesis using assms by (simp add: read_uint32_def del: power_numeral)
qed

interpretation u32: codec "\<lambda>v. v < 2 ^ 32" enc_uint32 write_uint32 read_uint32
  by unfold_locales (simp_all only: write_uint32_ok read_uint32_ok length_enc_uint32)

definition valid_string :: "bytes \<Rightarrow> bool" where
  "valid_string s \<longleftrightarrow> s \<noteq> [] \<and> 0 \<notin> set s \<and> length s + 1 < 2 ^ 32"

definition enc_string :: "bytes \<Rightarrow> bytes" where
  "enc_string s = enc_uint32 (length s) @ s"

lemma strlen_valid: "valid_string s \<Longrightarrow> strlen s = length s"
  unfolding strlen_def valid_string_def by (metis (mono_tags, lifting) takeWhile_eq_all_conv)

lemma write_string_ok:
  assumes "valid_string s" "length f + length (enc_string s) \<le> cap"
  shows "write_string cap s f = Ok (f @ enc_string s)"
proof -
  have m: "strlen s mod 2 ^ 32 = length s" using strlen_valid [OF assms(1)] assms(1) by (simp add: valid_string_def)
  have "s \<noteq> []" using assms(1) by (simp add: valid_string_def)
  then show ?thesis using assms(2) unfolding write_string_def m by (simp add: write_uint32_ok enc_string_def fwrite_def)
qed

lemma read_string_ok:
  assumes "valid_string s" "\<forall>n. alloc n"
  shows "read_string alloc (enc_string s @ r) = Ok (s, r)"
proof -
  have l: "length s < 2 ^ 32" "Suc (length s) mod 4294967296 = Suc (length s)" "s \<noteq> []"
    using assms(1) by (simp_all add: valid_string_def)
  have "fread (length s) (s @ r) = Ok (s, r)" using l(3) by (simp add: fread_def)
  then show ?thesis unfolding read_string_def enc_string_def append_assoc read_uint32_ok [OF l(1)]
    by (simp add: l(2) assms(2) Let_def)
qed

definition valid_object :: "KTestObject \<Rightarrow> bool" where
  "valid_object x \<longleftrightarrow> valid_string (o_name x) \<and> o_bytes x \<noteq> [] \<and> numBytes x = length (o_bytes x) \<and> numBytes x < 2 ^ 32"

definition enc_object :: "KTestObject \<Rightarrow> bytes" where
  "enc_object x = enc_string (o_name x) @ enc_uint32 (numBytes x) @ o_bytes x"

lemma write_object_ok:
  assumes "valid_object x" "length f + length (enc_object x) \<le> cap"
  shows "write_object cap x f = Ok (f @ enc_object x)"
  using assms by (simp add: write_object_def enc_object_def valid_object_def write_string_ok write_uint32_ok fwrite_def)

lemma read_object_ok:
  assumes "valid_object x" "\<forall>n. alloc n"
  shows "read_object alloc (enc_object x @ r) = Ok (x, r)"
proof -
  have v: "valid_string (o_name x)" "o_bytes x \<noteq> []" "numBytes x = length (o_bytes x)" "numBytes x < 2 ^ 32"
    using assms(1) by (simp_all add: valid_object_def)
  have "fread (numBytes x) (o_bytes x @ r) = Ok (o_bytes x, r)" using v(2,3) by (simp add: fread_def)
  then show ?thesis
    unfolding read_object_def enc_object_def append_assoc read_string_ok [OF v(1) assms(2)]
    by (simp add: read_uint32_ok [OF v(4)] assms(2))
qed

interpretation strs: list_codec valid_string enc_string write_string "read_string (\<lambda>_. True)" write_args "read_args (\<lambda>_. True)"
  by unfold_locales (simp_all add: write_string_ok read_string_ok)

interpretation objs: list_codec valid_object enc_object write_object "read_object (\<lambda>_. True)" write_objects "read_objects (\<lambda>_. True)"
  by unfold_locales (simp_all add: write_object_ok read_object_ok)

subsection \<open>Properties\<close>

definition valid_ktest :: "KTest \<Rightarrow> bool" where
  "valid_ktest bo \<longleftrightarrow> numArgs bo = length (args bo) \<and> numArgs bo < 2 ^ 32 \<and> list_all valid_string (args bo)
     \<and> symArgvs bo < 2 ^ 32 \<and> symArgvLen bo < 2 ^ 32
     \<and> numObjects bo = length (objects bo) \<and> numObjects bo < 2 ^ 32 \<and> list_all valid_object (objects bo)"

definition enc_ktest :: "KTest \<Rightarrow> bytes" where
  "enc_ktest bo = KTEST_MAGIC @ enc_uint32 KTEST_VERSION @ enc_uint32 (numArgs bo) @ concat (map enc_string (args bo))
     @ enc_uint32 (symArgvs bo) @ enc_uint32 (symArgvLen bo) @ enc_uint32 (numObjects bo) @ concat (map enc_object (objects bo))"

lemma kTest_toFile_ok:
  assumes "valid_ktest bo" "length (enc_ktest bo) \<le> cap"
  shows "kTest_toFile True cap bo = Ok (enc_ktest bo)"
proof -
  have v: "numArgs bo = length (args bo)" "numObjects bo = length (objects bo)" "list_all valid_string (args bo)"
      "list_all valid_object (objects bo)" using assms(1) by (simp_all add: valid_ktest_def)
  have m: "fwrite cap KTEST_MAGIC [] = Ok KTEST_MAGIC" using assms(2) by (simp add: enc_ktest_def fwrite_def KTEST_MAGIC_def)
  show ?thesis using assms(2) unfolding kTest_toFile_def m v enc_ktest_def
    by (simp add: write_uint32_ok strs.wrs_enc [OF v(3)] objs.wrs_enc [OF v(4)])
qed

lemma check_magic: "kTest_checkHeader (KTEST_MAGIC @ r) = Ok r"
  by (simp add: kTest_checkHeader_def fread_def KTEST_MAGIC_def)

lemma kTest_fromFile_ok:
  assumes "valid_ktest bo"
  shows "kTest_fromFile (\<lambda>_. True) (Some (enc_ktest bo)) = Ok (bo\<lparr>version := KTEST_VERSION\<rparr>)"
proof -
  have v: "numArgs bo = length (args bo)" "numObjects bo = length (objects bo)" "list_all valid_string (args bo)"
      "list_all valid_object (objects bo)" using assms by (simp_all add: valid_ktest_def)
  have n: "numArgs bo < 2 ^ 32" "numObjects bo < 2 ^ 32" "symArgvs bo < 2 ^ 32" "symArgvLen bo < 2 ^ 32" "KTEST_VERSION < 2 ^ 32"
    using assms by (simp_all add: valid_ktest_def KTEST_VERSION_def)
  have a: "read_args (\<lambda>_. True) (numArgs bo) (concat (map enc_string (args bo)) @ r) = Ok (args bo, r)" for r
    unfolding v(1) by (rule strs.rds_enc [OF v(3)])
  have b: "read_objects (\<lambda>_. True) (numObjects bo) (concat (map enc_object (objects bo))) = Ok (objects bo, [])"
    using objs.rds_enc [OF v(4), of "[]"] unfolding v(2) by simp
  show ?thesis unfolding kTest_fromFile_def enc_ktest_def
    by (simp add: check_magic n [THEN read_uint32_ok] a b read_symArgs_def del: andthen_eq_Ok)
      (simp add: KTEST_VERSION_def)
qed

text \<open>
  C18. Writing a test case and reading it back gives the same test case, in the current version of the format: for every
  test case whose counts match its lists, whose numbers fit 32 bits, and whose names and objects are not empty and contain
  no zero byte in a name, writing succeeds when there is room on the disk, the file is recognised, and
  reading it returns the test case.
\<close>

theorem ktest_roundtrip:
  assumes "valid_ktest bo" "length (enc_ktest bo) \<le> cap"
  shows "\<exists>f. kTest_toFile True cap bo = Ok f \<and> kTest_isKTestFile (Some f)
    \<and> kTest_fromFile (\<lambda>_. True) (Some f) = Ok (bo\<lparr>version := 3\<rparr>)"
  using kTest_toFile_ok [OF assms] kTest_fromFile_ok [OF assms(1)]
  by (simp add: kTest_isKTestFile_def enc_ktest_def check_magic KTEST_VERSION_def)

definition demo_ktest :: KTest where
  "demo_ktest = \<lparr>version = 3, numArgs = 1, args = [[112]], symArgvs = 0, symArgvLen = 7, numObjects = 1,
     objects = [\<lparr>o_name = [97, 98], numBytes = 3, o_bytes = [0, 255, 1]\<rparr>]\<rparr>"

theorem ktest_roundtrip_witness:
  "\<exists>f. kTest_toFile True 1000 demo_ktest = Ok f \<and> kTest_isKTestFile (Some f)
    \<and> kTest_fromFile (\<lambda>_. True) (Some f) = Ok demo_ktest"
  using ktest_roundtrip [of demo_ktest 1000]
  by (simp add: demo_ktest_def valid_ktest_def valid_string_def valid_object_def enc_ktest_def KTEST_MAGIC_def enc_string_def enc_object_def)

lemma write_objects_empty:
  "i < n \<Longrightarrow> i < length xs \<Longrightarrow> numBytes (xs ! i) = 0 \<Longrightarrow> write_objects cap n xs f \<noteq> Ok g"
proof (induction cap n xs f arbitrary: i g rule: write_objects.induct)
  case (3 cap n x xs f)
  then show ?case by (cases i) (auto simp: write_object_def fwrite_def)
qed simp_all

text \<open>
  C19. A test case with an empty object cannot be written: whatever room there is, \<^verbatim>\<open>kTest_toFile\<close> does not succeed,
  because \<^verbatim>\<open>fwrite\<close> of an item of size 0 does not return 1.
\<close>

theorem empty_object_not_written:
  assumes "i < numObjects bo" "i < length (objects bo)" "numBytes (objects bo ! i) = 0"
  shows "kTest_toFile writable cap bo \<noteq> Ok f"
  using write_objects_empty [OF assms] by (auto simp: kTest_toFile_def)

theorem empty_object_not_written_witness:
  "\<forall>f. kTest_toFile True 1000 (demo_ktest\<lparr>objects := [\<lparr>o_name = [97], numBytes = 0, o_bytes = []\<rparr>]\<rparr>) \<noteq> Ok f"
  by (rule allI, rule empty_object_not_written [of 0]) (simp_all add: demo_ktest_def)

subsection \<open>What is read\<close>

text \<open>
  A reader that is exact on files of bytes: it returns an item and what is left exactly on the item's encoding followed
  by what is left, and is undefined exactly on the files that start in a bad way. A loop over such a reader is exact too.
\<close>

abbreviation is_bytes :: "bytes \<Rightarrow> bool" where
  "is_bytes f \<equiv> list_all (\<lambda>b. b < 256) f"

lemma andthen_eq_Undefined [simp]: "andthen m f = Undefined \<longleftrightarrow> m = Undefined \<or> (\<exists>x. m = Ok x \<and> f x = Undefined)"
  by (cases m) auto

locale exact_reader =
  fixes stored :: "'a \<Rightarrow> bool" and enc :: "'a \<Rightarrow> bytes" and bad :: "bytes \<Rightarrow> bool"
    and rd :: "bytes \<Rightarrow> ('a \<times> bytes) outcome" and rds :: "nat \<Rightarrow> bytes \<Rightarrow> ('a list \<times> bytes) outcome"
  assumes rd_Ok: "is_bytes f \<Longrightarrow> rd f = Ok (x, r) \<longleftrightarrow> stored x \<and> f = enc x @ r"
    and rd_Undefined: "is_bytes f \<Longrightarrow> rd f = Undefined \<longleftrightarrow> bad f"
    and rds_0: "rds 0 f = Ok ([], f)"
    and rds_Suc: "rds (Suc n) f = andthen (rd f) (\<lambda>(x, f). andthen (rds n f) (\<lambda>(xs, f). Ok (x # xs, f)))"
begin

lemma rds_Ok:
  "is_bytes f \<Longrightarrow> rds n f = Ok (xs, r) \<longleftrightarrow> length xs = n \<and> list_all stored xs \<and> f = concat (map enc xs) @ r"
proof (induction n arbitrary: f xs)
  case (Suc n)
  have "rds (Suc n) f = Ok (xs, r) \<longleftrightarrow> (\<exists>x f' ys. stored x \<and> f = enc x @ f' \<and> rds n f' = Ok (ys, r) \<and> xs = x # ys)"
    using rd_Ok [OF Suc.prems] by (auto simp: rds_Suc)
  also have "\<dots> \<longleftrightarrow> (\<exists>x f' ys. stored x \<and> f = enc x @ f'
      \<and> length ys = n \<and> list_all stored ys \<and> f' = concat (map enc ys) @ r \<and> xs = x # ys)"
    using Suc.IH Suc.prems by (metis (no_types, lifting) list_all_append)
  also have "\<dots> \<longleftrightarrow> length xs = Suc n \<and> list_all stored xs \<and> f = concat (map enc xs) @ r"
    by (cases xs) auto
  finally show ?case .
qed (auto simp: rds_0)

lemma rds_Undefined:
  "is_bytes f \<Longrightarrow> rds n f = Undefined \<longleftrightarrow> (\<exists>xs r. length xs < n \<and> list_all stored xs \<and> f = concat (map enc xs) @ r \<and> bad r)"
proof (induction n arbitrary: f)
  case (Suc n)
  have "rds (Suc n) f = Undefined \<longleftrightarrow> bad f \<or> (\<exists>x f'. stored x \<and> f = enc x @ f' \<and> rds n f' = Undefined)"
    using rd_Ok [OF Suc.prems] rd_Undefined [OF Suc.prems] by (auto simp: rds_Suc)
  also have "\<dots> \<longleftrightarrow> bad f \<or> (\<exists>x f'. stored x \<and> f = enc x @ f'
      \<and> (\<exists>xs r. length xs < n \<and> list_all stored xs \<and> f' = concat (map enc xs) @ r \<and> bad r))"
    using Suc.IH Suc.prems by (metis (no_types, lifting) list_all_append)
  also have "\<dots> \<longleftrightarrow> (\<exists>xs r. length xs < Suc n \<and> list_all stored xs \<and> f = concat (map enc xs) @ r \<and> bad r)" (is "?L \<longleftrightarrow> ?R")
  proof
    assume ?L
    then show ?R
    proof
      assume "bad f"
      then show ?R by (intro exI [of _ "[]"] exI [of _ f]) simp
    next
      assume "\<exists>x f'. stored x \<and> f = enc x @ f' \<and> (\<exists>xs r. length xs < n \<and> list_all stored xs \<and> f' = concat (map enc xs) @ r \<and> bad r)"
      then obtain x xs r where "stored x" "f = enc x @ concat (map enc xs) @ r" "length xs < n" "list_all stored xs" "bad r" by blast
      then show ?R by (intro exI [of _ "x # xs"] exI [of _ r]) simp
    qed
  next
    assume ?R
    then obtain xs r where "length xs < Suc n" "list_all stored xs" "f = concat (map enc xs) @ r" "bad r" by blast
    then show ?L by (cases xs) auto
  qed
  finally show ?case .
qed (auto simp: rds_0)

end

lemma read_uint32_Ok: "is_bytes f \<Longrightarrow> read_uint32 f = Ok (v, r) \<longleftrightarrow> v < 2 ^ 32 \<and> f = enc_uint32 v @ r"
proof
  assume b: "is_bytes f" and ok: "read_uint32 f = Ok (v, r)"
  then have len: "4 \<le> length f" by (auto simp: read_uint32_def fread_def split: if_splits)
  then obtain b0 b1 b2 b3 g where f: "f = b0 # b1 # b2 # b3 # g"
    by (auto simp: numeral_eq_Suc Suc_le_length_iff)
  have bs: "b0 < 256" "b1 < 256" "b2 < 256" "b3 < 256" using b by (simp_all add: f)
  have v: "v = ((b0 * 256 + b1) * 256 + b2) * 256 + b3" "r = g"
    using ok bs by (auto simp: read_uint32_def fread_def f)
  have digit: "(c * 256 + b) div 256 = c" "(c * 256 + b) mod 256 = b" if "b < 256" for b c :: nat using that by simp_all
  have d: "v div 256 = (b0 * 256 + b1) * 256 + b2" "v mod 256 = b3" unfolding v(1) by (rule digit [OF bs(4)])+
  have e: "v div 256 div 256 = b0 * 256 + b1" "v div 256 mod 256 = b2" unfolding d by (rule digit [OF bs(3)])+
  have h: "v div 256 div 256 div 256 = b0" "v div 256 div 256 mod 256 = b1" unfolding e by (rule digit [OF bs(2)])+
  have "v div 2 ^ 24 = b0" "v div 2 ^ 16 mod 256 = b1" "v div 2 ^ 8 mod 256 = b2"
    using e h by (simp_all flip: div_mult2_eq)
  then show "v < 2 ^ 32 \<and> f = enc_uint32 v @ r"
    using bs d(2) v by (simp add: enc_uint32_def f)
next
  assume "v < 2 ^ 32 \<and> f = enc_uint32 v @ r"
  then show "read_uint32 f = Ok (v, r)" using read_uint32_ok by simp
qed

lemma read_uint32_defined [simp]: "read_uint32 f \<noteq> Undefined"
  by (auto simp: read_uint32_def fread_def)

text \<open>A string in a file: at least one byte, any bytes, and a length whose buffer size does not wrap. The overlong
  length is the one that does, with at least one byte after it.\<close>

definition stored_string :: "bytes \<Rightarrow> bool" where
  "stored_string s \<longleftrightarrow> s \<noteq> [] \<and> length s + 1 < 2 ^ 32"

definition overlong :: "bytes \<Rightarrow> bool" where
  "overlong f \<longleftrightarrow> (\<exists>r. r \<noteq> [] \<and> f = enc_uint32 (2 ^ 32 - 1) @ r)"

lemma fread_Ok: "fread n f = Ok (s, r) \<longleftrightarrow> s \<noteq> [] \<and> length s = n \<and> f = s @ r"
  by (auto simp: fread_def)

lemma read_string_Ok:
  assumes "is_bytes f"
  shows "read_string (\<lambda>_. True) f = Ok (s, r) \<longleftrightarrow> stored_string s \<and> f = enc_string s @ r"
proof -
  have "read_string (\<lambda>_. True) f = Ok (s, r) \<longleftrightarrow> (\<exists>len g. read_uint32 f = Ok (len, g) \<and> \<not> (len + 1) mod 2 ^ 32 < min len (length g)
      \<and> fread len g = Ok (s, r) \<and> len < (len + 1) mod 2 ^ 32)"
    by (auto simp: read_string_def Let_def simp del: power_numeral split: if_splits)
  also have "\<dots> \<longleftrightarrow> (\<exists>len g. read_uint32 f = Ok (len, g) \<and> fread len g = Ok (s, r) \<and> len + 1 < 2 ^ 32)"
  proof -
    have "len < (len + 1) mod 2 ^ 32 \<longleftrightarrow> len + 1 < 2 ^ 32" if "read_uint32 f = Ok (len, g)" for len g
    proof (cases "len + 1 < 2 ^ 32")
      case False
      then have "len + 1 = 2 ^ 32" using that read_uint32_Ok [OF assms] by fastforce
      then show ?thesis by simp
    qed simp
    then show ?thesis by (metis (no_types, opaque_lifting) linorder_not_less min.coboundedI1 nat_less_le)
  qed
  also have "\<dots> \<longleftrightarrow> stored_string s \<and> f = enc_string s @ r"
    unfolding read_uint32_Ok [OF assms] fread_Ok stored_string_def enc_string_def by auto
  finally show ?thesis .
qed

lemma read_string_Undefined:
  assumes "is_bytes f"
  shows "read_string (\<lambda>_. True) f = Undefined \<longleftrightarrow> overlong f"
proof -
  have fd: "fread n g \<noteq> Undefined" for n g by (simp add: fread_def)
  have wrap: "(len + 1) mod 2 ^ 32 < min len (length g) \<or> (\<exists>s r. fread len g = Ok (s, r) \<and> \<not> len < (len + 1) mod 2 ^ 32)
      \<longleftrightarrow> len = 2 ^ 32 - 1 \<and> g \<noteq> []" if "len < 2 ^ 32" for len g
  proof (cases "len + 1 < 2 ^ 32")
    case False
    then have len: "len + 1 = 2 ^ 32" "0 < len" "len = 2 ^ 32 - 1" using that by simp_all
    then have "(len + 1) mod 2 ^ 32 = 0" by simp
    then show ?thesis using len(2,3) fread_Ok [of len g] by auto
  next
    case True
    then have "(len + 1) mod 2 ^ 32 = len + 1" "len \<noteq> 2 ^ 32 - 1" by simp_all
    then show ?thesis by simp
  qed
  have over: "overlong f \<longleftrightarrow> (\<exists>g. g \<noteq> [] \<and> read_uint32 f = Ok (2 ^ 32 - 1, g))"
    unfolding overlong_def read_uint32_Ok [OF assms] by simp
  show ?thesis
  proof (cases "read_uint32 f")
    case (Ok p)
    obtain len g where p: "p = (len, g)" by force
    with Ok have len: "len < 2 ^ 32" by (simp only: read_uint32_Ok [OF assms])
    have "read_string (\<lambda>_. True) f = Undefined \<longleftrightarrow> (len + 1) mod 2 ^ 32 < min len (length g)
        \<or> (\<exists>s r. fread len g = Ok (s, r) \<and> \<not> len < (len + 1) mod 2 ^ 32)"
      using fd [of len g] by (simp add: read_string_def Ok p Let_def del: power_numeral) blast
    also have "\<dots> \<longleftrightarrow> overlong f" unfolding wrap [OF len] over Ok p by auto
    finally show ?thesis .
  qed (simp_all add: over, simp add: read_string_def)
qed

definition stored_object :: "KTestObject \<Rightarrow> bool" where
  "stored_object x \<longleftrightarrow> stored_string (o_name x) \<and> o_bytes x \<noteq> [] \<and> numBytes x = length (o_bytes x) \<and> numBytes x < 2 ^ 32"

lemma read_object_Ok:
  assumes "is_bytes f"
  shows "read_object (\<lambda>_. True) f = Ok (x, r) \<longleftrightarrow> stored_object x \<and> f = enc_object x @ r"
proof -
  have "read_object (\<lambda>_. True) f = Ok (x, r) \<longleftrightarrow> (\<exists>name g n h bs. read_string (\<lambda>_. True) f = Ok (name, g)
      \<and> read_uint32 g = Ok (n, h) \<and> fread n h = Ok (bs, r) \<and> x = \<lparr>o_name = name, numBytes = n, o_bytes = bs\<rparr>)"
    by (auto simp: read_object_def)
  also have "\<dots> \<longleftrightarrow> stored_object x \<and> f = enc_object x @ r" (is "?L \<longleftrightarrow> ?R")
  proof
    assume ?L
    then obtain name g n h bs where r: "read_string (\<lambda>_. True) f = Ok (name, g)" "read_uint32 g = Ok (n, h)"
        "fread n h = Ok (bs, r)" "x = \<lparr>o_name = name, numBytes = n, o_bytes = bs\<rparr>" by blast
    from r(1) have f: "stored_string name" "f = enc_string name @ g" by (simp_all add: read_string_Ok [OF assms])
    then have "is_bytes g" using assms by simp
    with r(2) have "n < 2 ^ 32" "g = enc_uint32 n @ h" by (simp_all only: read_uint32_Ok)
    with f r(3,4) show ?R by (auto simp: stored_object_def enc_object_def fread_Ok)
  next
    assume ?R
    then have v: "stored_string (o_name x)" "f = enc_string (o_name x) @ enc_uint32 (numBytes x) @ o_bytes x @ r"
        "numBytes x < 2 ^ 32" "fread (numBytes x) (o_bytes x @ r) = Ok (o_bytes x, r)"
      by (simp_all add: stored_object_def enc_object_def fread_Ok)
    then have "read_string (\<lambda>_. True) f = Ok (o_name x, enc_uint32 (numBytes x) @ o_bytes x @ r)"
      unfolding read_string_Ok [OF assms] by blast
    with read_uint32_ok [OF v(3)] v(4) show ?L
      by (intro exI [of _ "o_name x"] exI [of _ "enc_uint32 (numBytes x) @ o_bytes x @ r"] exI [of _ "numBytes x"]
          exI [of _ "o_bytes x @ r"] exI [of _ "o_bytes x"] conjI) simp_all
  qed
  finally show ?thesis .
qed

lemma read_object_Undefined:
  "is_bytes f \<Longrightarrow> read_object (\<lambda>_. True) f = Undefined \<longleftrightarrow> overlong f"
  using read_string_Undefined [of f] by (auto simp: read_object_def fread_def split: if_splits)

interpretation rstrs: exact_reader stored_string enc_string overlong "read_string (\<lambda>_. True)" "read_args (\<lambda>_. True)"
  by unfold_locales (simp_all add: read_string_Ok read_string_Undefined)

interpretation robjs: exact_reader stored_object enc_object overlong "read_object (\<lambda>_. True)" "read_objects (\<lambda>_. True)"
  by unfold_locales (simp_all add: read_object_Ok read_object_Undefined)

text \<open>The fields of a file, in either format; a version below 2 has no \<^verbatim>\<open>symArgvs\<close> and \<^verbatim>\<open>symArgvLen\<close>.\<close>

definition enc_symArgs :: "nat \<Rightarrow> nat \<Rightarrow> nat \<Rightarrow> bytes" where
  "enc_symArgs ver a b = (if 2 \<le> ver then enc_uint32 a @ enc_uint32 b else [])"

definition stored_symArgs :: "nat \<Rightarrow> nat \<Rightarrow> nat \<Rightarrow> bool" where
  "stored_symArgs ver a b \<longleftrightarrow> (if 2 \<le> ver then a < 2 ^ 32 \<and> b < 2 ^ 32 else a = 0 \<and> b = 0)"

lemma read_symArgs_Ok:
  assumes "is_bytes f"
  shows "read_symArgs ver f = Ok (a, b, r) \<longleftrightarrow> stored_symArgs ver a b \<and> f = enc_symArgs ver a b @ r"
proof (cases "2 \<le> ver")
  case True
  show ?thesis (is "?L \<longleftrightarrow> ?R")
  proof
    assume ?L
    then obtain g where r: "read_uint32 f = Ok (a, g)" "read_uint32 g = Ok (b, r)" using True by (auto simp: read_symArgs_def)
    from r(1) have f: "a < 2 ^ 32" "f = enc_uint32 a @ g" by (simp_all only: read_uint32_Ok [OF assms])
    then have "is_bytes g" using assms by simp
    with r(2) have "b < 2 ^ 32" "g = enc_uint32 b @ r" by (simp_all only: read_uint32_Ok)
    with f True show ?R by (simp add: stored_symArgs_def enc_symArgs_def)
  next
    assume ?R
    then show ?L using True by (simp add: stored_symArgs_def enc_symArgs_def read_symArgs_def read_uint32_ok)
  qed
qed (auto simp: read_symArgs_def stored_symArgs_def enc_symArgs_def)

lemma read_symArgs_defined [simp]: "read_symArgs ver f \<noteq> Undefined"
  by (auto simp: read_symArgs_def)

lemma checkHeader_Ok: "kTest_checkHeader f = Ok r \<longleftrightarrow> (\<exists>magic \<in> {KTEST_MAGIC, BOUT_MAGIC}. f = magic @ r)"
proof -
  have "kTest_checkHeader f = Ok r \<longleftrightarrow> (\<exists>h. (h = KTEST_MAGIC \<or> h = BOUT_MAGIC) \<and> fread 5 f = Ok (h, r))"
    by (auto simp: kTest_checkHeader_def)
  then show ?thesis unfolding fread_Ok by (auto simp: KTEST_MAGIC_def BOUT_MAGIC_def)
qed

lemma checkHeader_defined [simp]: "kTest_checkHeader f \<noteq> Undefined"
  by (auto simp: kTest_checkHeader_def fread_def)

text \<open>Everything up to the arguments, and up to the objects.\<close>

definition enc_head :: "bytes \<Rightarrow> nat \<Rightarrow> nat \<Rightarrow> bytes" where
  "enc_head magic ver n = magic @ enc_uint32 ver @ enc_uint32 n"

definition enc_mid :: "nat \<Rightarrow> nat \<Rightarrow> nat \<Rightarrow> nat \<Rightarrow> bytes" where
  "enc_mid ver a b m = enc_symArgs ver a b @ enc_uint32 m"

definition read_head :: "bytes \<Rightarrow> (nat \<times> nat \<times> bytes) outcome" where
  "read_head f = andthen (kTest_checkHeader f) (\<lambda>f. andthen (read_uint32 f) (\<lambda>(ver, f).
     if KTEST_VERSION < ver then Error else andthen (read_uint32 f) (\<lambda>(n, f). Ok (ver, n, f))))"

definition read_mid :: "nat \<Rightarrow> bytes \<Rightarrow> (nat \<times> nat \<times> nat \<times> bytes) outcome" where
  "read_mid ver f = andthen (read_symArgs ver f) (\<lambda>(a, b, f). andthen (read_uint32 f) (\<lambda>(m, f). Ok (a, b, m, f)))"

lemma read_head_Ok:
  assumes "is_bytes f"
  shows "read_head f = Ok (ver, n, r) \<longleftrightarrow>
    (\<exists>magic \<in> {KTEST_MAGIC, BOUT_MAGIC}. ver \<le> KTEST_VERSION \<and> n < 2 ^ 32 \<and> f = enc_head magic ver n @ r)" (is "?L \<longleftrightarrow> ?R")
proof
  assume ?L
  then obtain g h where r: "kTest_checkHeader f = Ok g" "read_uint32 g = Ok (ver, h)" "ver \<le> KTEST_VERSION" "read_uint32 h = Ok (n, r)"
    by (auto simp: read_head_def not_less split: if_splits)
  from r(1) obtain magic where m: "magic \<in> {KTEST_MAGIC, BOUT_MAGIC}" "f = magic @ g" unfolding checkHeader_Ok by blast
  with assms r(2) have g: "g = enc_uint32 ver @ h" by (simp add: read_uint32_Ok)
  with assms m(2) r(4) have "n < 2 ^ 32" "h = enc_uint32 n @ r" by (simp_all only: read_uint32_Ok list_all_append)
  with m g r(3) show ?R unfolding enc_head_def by auto
next
  assume ?R
  then obtain magic where m: "magic \<in> {KTEST_MAGIC, BOUT_MAGIC}" "ver \<le> KTEST_VERSION" "n < 2 ^ 32"
      "f = magic @ enc_uint32 ver @ enc_uint32 n @ r" unfolding enc_head_def by auto
  have "kTest_checkHeader f = Ok (enc_uint32 ver @ enc_uint32 n @ r)" unfolding checkHeader_Ok using m(1,4) by blast
  moreover have "ver < 2 ^ 32" using m(2) by (simp add: KTEST_VERSION_def)
  ultimately show ?L using m(2,3) by (simp add: read_head_def read_uint32_ok)
qed

lemma read_mid_Ok:
  assumes "is_bytes f"
  shows "read_mid ver f = Ok (a, b, m, r) \<longleftrightarrow> stored_symArgs ver a b \<and> m < 2 ^ 32 \<and> f = enc_mid ver a b m @ r" (is "?L \<longleftrightarrow> ?R")
proof
  assume ?L
  then obtain g where r: "read_symArgs ver f = Ok (a, b, g)" "read_uint32 g = Ok (m, r)" by (auto simp: read_mid_def)
  with assms show ?R by (auto simp: read_symArgs_Ok read_uint32_Ok enc_mid_def)
next
  assume ?R
  then show ?L using read_symArgs_Ok [OF assms, of ver a b "enc_uint32 m @ r"] by (simp add: read_mid_def enc_mid_def read_uint32_ok)
qed

lemma read_defined [simp]: "read_head f \<noteq> Undefined" "read_mid ver f \<noteq> Undefined"
  by (auto simp: read_head_def read_mid_def split: if_splits)

lemma fromFile_parts:
  "kTest_fromFile (\<lambda>_. True) (Some f) =
     andthen (read_head f) (\<lambda>(ver, n, f). andthen (read_args (\<lambda>_. True) n f) (\<lambda>(as, f).
     andthen (read_mid ver f) (\<lambda>(a, b, m, f). andthen (read_objects (\<lambda>_. True) m f) (\<lambda>(xs, f).
     Ok \<lparr>version = ver, numArgs = n, args = as, symArgvs = a, symArgvLen = b, numObjects = m, objects = xs\<rparr>))))"
proof -
  have assoc: "andthen (andthen x f) g = andthen x (\<lambda>y. andthen (f y) g)"
    for x :: "'a outcome" and f :: "'a \<Rightarrow> 'b outcome" and g :: "'b \<Rightarrow> 'c outcome"
    by (cases x) simp_all
  show ?thesis by (simp add: kTest_fromFile_def read_head_def read_mid_def assoc case_prod_unfold if_distrib [of "\<lambda>x. andthen x _"] cong: if_cong)
qed

subsection \<open>Properties of the reader\<close>

text \<open>
  C20. The files on which reading writes outside a buffer. When allocation succeeds, the behaviour of
  \<^verbatim>\<open>kTest_fromFile\<close> is undefined exactly on the files that follow the format up to some argument or up to the name of
  some object and store there the length \<open>2 ^ 32 - 1\<close>, with at least one byte after it: the buffer has
  \<open>(len + 1) mod 2 ^ 32 = 0\<close> bytes.
\<close>

theorem long_string_overflows:
  assumes "is_bytes f"
  shows "kTest_fromFile (\<lambda>_. True) (Some f) = Undefined \<longleftrightarrow>
    (\<exists>magic \<in> {KTEST_MAGIC, BOUT_MAGIC}. \<exists>ver n as r. ver \<le> KTEST_VERSION \<and> n < 2 ^ 32 \<and> list_all stored_string as \<and> overlong r
      \<and> (length as < n \<and> f = enc_head magic ver n @ concat (map enc_string as) @ r
         \<or> length as = n \<and> (\<exists>a b m xs. stored_symArgs ver a b \<and> m < 2 ^ 32 \<and> length xs < m \<and> list_all stored_object xs
             \<and> f = enc_head magic ver n @ concat (map enc_string as) @ enc_mid ver a b m @ concat (map enc_object xs) @ r)))"
    (is "?U \<longleftrightarrow> (\<exists>magic \<in> ?M. ?R magic)")
proof
  assume ?U
  then obtain ver n g where h: "read_head f = Ok (ver, n, g)" and u: "read_args (\<lambda>_. True) n g = Undefined
      \<or> (\<exists>as g2 a b m g3. read_args (\<lambda>_. True) n g = Ok (as, g2) \<and> read_mid ver g2 = Ok (a, b, m, g3) \<and> read_objects (\<lambda>_. True) m g3 = Undefined)"
    unfolding fromFile_parts by auto
  from h obtain magic where m: "magic \<in> ?M" "ver \<le> KTEST_VERSION" "n < 2 ^ 32" "f = enc_head magic ver n @ g"
    unfolding read_head_Ok [OF assms] by blast
  then have g: "is_bytes g" using assms by simp
  from u have "?R magic"
  proof
    assume "read_args (\<lambda>_. True) n g = Undefined"
    with m show ?thesis unfolding rstrs.rds_Undefined [OF g] by blast
  next
    assume "\<exists>as g2 a b m g3. read_args (\<lambda>_. True) n g = Ok (as, g2) \<and> read_mid ver g2 = Ok (a, b, m, g3) \<and> read_objects (\<lambda>_. True) m g3 = Undefined"
    then obtain as g2 a b k g3 where r: "read_args (\<lambda>_. True) n g = Ok (as, g2)" "read_mid ver g2 = Ok (a, b, k, g3)"
        "read_objects (\<lambda>_. True) k g3 = Undefined" by blast
    from r(1) have as: "length as = n" "list_all stored_string as" "g = concat (map enc_string as) @ g2"
      by (simp_all only: rstrs.rds_Ok [OF g])
    then have g2: "is_bytes g2" using g by simp
    from r(2) have md: "stored_symArgs ver a b" "k < 2 ^ 32" "g2 = enc_mid ver a b k @ g3" by (simp_all only: read_mid_Ok [OF g2])
    then have g3: "is_bytes g3" using g2 by simp
    from r(3) obtain xs q where "length xs < k" "list_all stored_object xs" "g3 = concat (map enc_object xs) @ q" "overlong q"
      unfolding robjs.rds_Undefined [OF g3] by blast
    with m as md show ?thesis by blast
  qed
  with m(1) show "\<exists>magic \<in> ?M. ?R magic" by blast
next
  assume "\<exists>magic \<in> ?M. ?R magic"
  then obtain magic ver n as r where m: "magic \<in> ?M" "ver \<le> KTEST_VERSION" "n < 2 ^ 32" "list_all stored_string as" "overlong r"
      and c: "length as < n \<and> f = enc_head magic ver n @ concat (map enc_string as) @ r
         \<or> length as = n \<and> (\<exists>a b m xs. stored_symArgs ver a b \<and> m < 2 ^ 32 \<and> length xs < m \<and> list_all stored_object xs
             \<and> f = enc_head magic ver n @ concat (map enc_string as) @ enc_mid ver a b m @ concat (map enc_object xs) @ r)" by blast
  have head: "read_head f = Ok (ver, n, g) \<and> is_bytes g" if "f = enc_head magic ver n @ g" for g
    unfolding read_head_Ok [OF assms] using m(1-3) that assms by auto
  from c show ?U
  proof
    assume a: "length as < n \<and> f = enc_head magic ver n @ concat (map enc_string as) @ r"
    with head have g: "read_head f = Ok (ver, n, concat (map enc_string as) @ r)" "is_bytes (concat (map enc_string as) @ r)" by blast+
    have "read_args (\<lambda>_. True) n (concat (map enc_string as) @ r) = Undefined"
      unfolding rstrs.rds_Undefined [OF g(2)] using a m(4,5) by blast
    then show ?U by (simp add: fromFile_parts g(1))
  next
    assume "length as = n \<and> (\<exists>a b m xs. stored_symArgs ver a b \<and> m < 2 ^ 32 \<and> length xs < m \<and> list_all stored_object xs
      \<and> f = enc_head magic ver n @ concat (map enc_string as) @ enc_mid ver a b m @ concat (map enc_object xs) @ r)"
    then obtain a b k xs where a: "length as = n" "stored_symArgs ver a b" "k < 2 ^ 32" "length xs < k" "list_all stored_object xs"
        "f = enc_head magic ver n @ concat (map enc_string as) @ enc_mid ver a b k @ concat (map enc_object xs) @ r" by blast
    let ?g3 = "concat (map enc_object xs) @ r"
    let ?g = "concat (map enc_string as) @ enc_mid ver a b k @ ?g3"
    have g: "read_head f = Ok (ver, n, ?g)" "is_bytes ?g" using head [OF a(6)] by blast+
    then have b: "is_bytes (enc_mid ver a b k @ ?g3)" "is_bytes ?g3" by simp_all
    have "read_args (\<lambda>_. True) n ?g = Ok (as, enc_mid ver a b k @ ?g3)"
      unfolding rstrs.rds_Ok [OF g(2)] using a(1) m(4) by simp
    moreover have "read_mid ver (enc_mid ver a b k @ ?g3) = Ok (a, b, k, ?g3)"
      unfolding read_mid_Ok [OF b(1)] using a(2,3) by simp
    moreover have "read_objects (\<lambda>_. True) k ?g3 = Undefined"
      unfolding robjs.rds_Undefined [OF b(2)] using a(4,5) m(5) by blast
    ultimately show ?U by (simp add: fromFile_parts g(1))
  qed
qed

theorem long_string_overflows_witness:
  "kTest_fromFile (\<lambda>_. True) (Some (enc_head KTEST_MAGIC 3 1 @ enc_string [112] @ enc_mid 3 0 7 2 @ enc_uint32 (2 ^ 32 - 1) @ [0])) = Undefined"
proof -
  let ?f = "enc_head KTEST_MAGIC 3 1 @ enc_string [112] @ enc_mid 3 0 7 2 @ enc_uint32 (2 ^ 32 - 1) @ [0]"
  have b: "is_bytes ?f" by (simp add: enc_head_def enc_mid_def enc_symArgs_def enc_string_def enc_uint32_def KTEST_MAGIC_def)
  have o: "overlong (enc_uint32 (2 ^ 32 - 1) @ [0])" unfolding overlong_def by blast
  have s: "list_all stored_string [[112]]" "stored_symArgs 3 0 7" by (simp_all add: stored_string_def stored_symArgs_def)
  have "?f = enc_head KTEST_MAGIC 3 1 @ concat (map enc_string [[112]]) @ enc_mid 3 0 7 2 @ concat (map enc_object []) @ enc_uint32 (2 ^ 32 - 1) @ [0]"
    by simp
  then show ?thesis unfolding long_string_overflows [OF b] using o s
    by (intro bexI [of _ KTEST_MAGIC] exI [of _ 3] exI [of _ 1] exI [of _ "[[112]]"] exI [of _ "enc_uint32 (2 ^ 32 - 1) @ [0]"]
        conjI disjI2 exI [of _ 0] exI [of _ 7] exI [of _ 2] exI [of _ "[]"]) (simp_all add: KTEST_VERSION_def)
qed

text \<open>What a file holds: the magic, and a test case as it is stored. A name is any sequence of at least one byte;
  as a C string it ends at its first zero byte.\<close>

definition stored_ktest :: "KTest \<Rightarrow> bool" where
  "stored_ktest bo \<longleftrightarrow> version bo \<le> KTEST_VERSION \<and> numArgs bo = length (args bo) \<and> numArgs bo < 2 ^ 32 \<and> list_all stored_string (args bo)
     \<and> stored_symArgs (version bo) (symArgvs bo) (symArgvLen bo)
     \<and> numObjects bo = length (objects bo) \<and> numObjects bo < 2 ^ 32 \<and> list_all stored_object (objects bo)"

definition enc_file :: "bytes \<Rightarrow> KTest \<Rightarrow> bytes" where
  "enc_file magic bo = enc_head magic (version bo) (numArgs bo) @ concat (map enc_string (args bo))
     @ enc_mid (version bo) (symArgvs bo) (symArgvLen bo) (numObjects bo) @ concat (map enc_object (objects bo))"

text \<open>
  C21. The reader accepts exactly the files of the format, of any version up to the current one and with either magic, and
  returns exactly what they hold; bytes after the last object are ignored.
\<close>

theorem fromFile_exact:
  assumes "is_bytes f"
  shows "kTest_fromFile (\<lambda>_. True) (Some f) = Ok bo \<longleftrightarrow>
    stored_ktest bo \<and> (\<exists>magic \<in> {KTEST_MAGIC, BOUT_MAGIC}. \<exists>rest. f = enc_file magic bo @ rest)" (is "?L \<longleftrightarrow> ?R")
proof
  assume ?L
  then obtain ver n g as g2 a b k g3 xs g4 where r: "read_head f = Ok (ver, n, g)" "read_args (\<lambda>_. True) n g = Ok (as, g2)"
      "read_mid ver g2 = Ok (a, b, k, g3)" "read_objects (\<lambda>_. True) k g3 = Ok (xs, g4)"
      and bo: "bo = \<lparr>version = ver, numArgs = n, args = as, symArgvs = a, symArgvLen = b, numObjects = k, objects = xs\<rparr>"
    unfolding fromFile_parts by auto
  from r(1) obtain magic where m: "magic \<in> {KTEST_MAGIC, BOUT_MAGIC}" "ver \<le> KTEST_VERSION" "n < 2 ^ 32" "f = enc_head magic ver n @ g"
    unfolding read_head_Ok [OF assms] by blast
  then have g: "is_bytes g" using assms by simp
  from r(2) have as: "length as = n" "list_all stored_string as" "g = concat (map enc_string as) @ g2"
    by (simp_all only: rstrs.rds_Ok [OF g])
  then have g2: "is_bytes g2" using g by simp
  from r(3) have md: "stored_symArgs ver a b" "k < 2 ^ 32" "g2 = enc_mid ver a b k @ g3" by (simp_all only: read_mid_Ok [OF g2])
  then have g3: "is_bytes g3" using g2 by simp
  from r(4) have xs: "length xs = k" "list_all stored_object xs" "g3 = concat (map enc_object xs) @ g4"
    by (simp_all only: robjs.rds_Ok [OF g3])
  have "f = enc_file magic bo @ g4" using m(4) as(3) md(3) xs(3) by (simp add: enc_file_def bo)
  moreover have "stored_ktest bo" using m as md xs by (simp add: stored_ktest_def bo)
  ultimately show ?R using m(1) by blast
next
  assume ?R
  then obtain magic rest where m: "magic \<in> {KTEST_MAGIC, BOUT_MAGIC}" "f = enc_file magic bo @ rest" and st: "stored_ktest bo" by blast
  let ?g3 = "concat (map enc_object (objects bo)) @ rest"
  let ?g2 = "enc_mid (version bo) (symArgvs bo) (symArgvLen bo) (numObjects bo) @ ?g3"
  let ?g = "concat (map enc_string (args bo)) @ ?g2"
  have f: "f = enc_head magic (version bo) (numArgs bo) @ ?g" using m(2) by (simp add: enc_file_def)
  then have b: "is_bytes ?g" "is_bytes ?g2" "is_bytes ?g3" using assms by simp_all
  have "read_head f = Ok (version bo, numArgs bo, ?g)"
    unfolding read_head_Ok [OF assms] using m(1) f st unfolding stored_ktest_def by blast
  moreover have "read_args (\<lambda>_. True) (numArgs bo) ?g = Ok (args bo, ?g2)"
    unfolding rstrs.rds_Ok [OF b(1)] using st by (simp add: stored_ktest_def)
  moreover have "read_mid (version bo) ?g2 = Ok (symArgvs bo, symArgvLen bo, numObjects bo, ?g3)"
    unfolding read_mid_Ok [OF b(2)] using st by (simp add: stored_ktest_def)
  moreover have "read_objects (\<lambda>_. True) (numObjects bo) ?g3 = Ok (objects bo, rest)"
    unfolding robjs.rds_Ok [OF b(3)] using st by (simp add: stored_ktest_def)
  ultimately show ?L by (simp add: fromFile_parts)
qed

text \<open>A file of version 1 with the old magic, an argument that is a zero byte, and a byte left over.\<close>

definition old_ktest :: KTest where
  "old_ktest = \<lparr>version = 1, numArgs = 1, args = [[0]], symArgvs = 0, symArgvLen = 0, numObjects = 1,
     objects = [\<lparr>o_name = [97, 98], numBytes = 3, o_bytes = [0, 255, 1]\<rparr>]\<rparr>"

theorem fromFile_exact_witness:
  "kTest_fromFile (\<lambda>_. True) (Some (enc_file BOUT_MAGIC old_ktest @ [7])) = Ok old_ktest"
proof -
  have b: "is_bytes (enc_file BOUT_MAGIC old_ktest @ [7])"
    by (simp add: enc_file_def old_ktest_def enc_head_def enc_mid_def enc_symArgs_def enc_string_def enc_object_def enc_uint32_def BOUT_MAGIC_def)
  have "stored_ktest old_ktest"
    by (simp add: stored_ktest_def old_ktest_def stored_string_def stored_object_def stored_symArgs_def KTEST_VERSION_def)
  then show ?thesis unfolding fromFile_exact [OF b] by blast
qed

end
