(* ===== verification/Bits.thy ===== *)
theory Bits
  imports Prelude
begin

text \<open>
  The bit tricks of \<^verbatim>\<open>include/klee/util/Bits.h\<close>. A \<^verbatim>\<open>uint32_t\<close> or \<^verbatim>\<open>uint64_t\<close> is an integer below
  \<open>2 ^ 32\<close> or \<open>2 ^ 64\<close>; the wrap-around of unsigned arithmetic is \<^const>\<open>take_bit\<close>.
\<close>

subsection \<open>32 bits\<close>

definition maxValueOfNBits32 :: "nat \<Rightarrow> int option" where
  "maxValueOfNBits32 N = do { assert_that (N \<le> 32); Some (if N = 0 then 0 else drop_bit (32 - N) (2 ^ 32 - 1)) }"

definition truncateToNBits32 :: "int \<Rightarrow> nat \<Rightarrow> int option" where
  "truncateToNBits32 x N = do { assert_that (0 < N \<and> N \<le> 32); Some (x AND drop_bit (32 - N) (2 ^ 32 - 1)) }"

definition withoutRightmostBit32 :: "int \<Rightarrow> int" where
  "withoutRightmostBit32 x = x AND take_bit 32 (x - 1)"

definition isolateRightmostBit32 :: "int \<Rightarrow> int" where
  "isolateRightmostBit32 x = x AND take_bit 32 (- x)"

definition isPowerOfTwo32 :: "int \<Rightarrow> bool" where
  "isPowerOfTwo32 x = (if x = 0 then False else x AND take_bit 32 (x - 1) = 0)"

definition indexOfSingleBit32 :: "int \<Rightarrow> nat option" where
  "indexOfSingleBit32 x =
     do { assert_that (withoutRightmostBit32 x = 0);
          let res = (if x AND 0xFFFF0000 \<noteq> 0 then 16 else 0) + (if x AND 0xFF00FF00 \<noteq> 0 then 8 else 0)
                    + (if x AND 0xF0F0F0F0 \<noteq> 0 then 4 else 0) + (if x AND 0xCCCCCCCC \<noteq> 0 then 2 else 0)
                    + (if x AND 0xAAAAAAAA \<noteq> 0 then 1 else 0) in
          do { assert_that (res < 32); assert_that (take_bit 32 (2 ^ res) = x); Some res } }"

definition indexOfRightmostBit32 :: "int \<Rightarrow> nat option" where
  "indexOfRightmostBit32 x = indexOfSingleBit32 (isolateRightmostBit32 x)"

subsection \<open>64 bits\<close>

definition maxValueOfNBits64 :: "nat \<Rightarrow> int option" where
  "maxValueOfNBits64 N = do { assert_that (N \<le> 64); Some (if N = 0 then 0 else drop_bit (64 - N) (2 ^ 64 - 1)) }"

definition truncateToNBits64 :: "int \<Rightarrow> nat \<Rightarrow> int option" where
  "truncateToNBits64 x N = do { assert_that (0 < N \<and> N \<le> 64); Some (x AND drop_bit (64 - N) (2 ^ 64 - 1)) }"

definition withoutRightmostBit64 :: "int \<Rightarrow> int" where
  "withoutRightmostBit64 x = x AND take_bit 64 (x - 1)"

definition isolateRightmostBit64 :: "int \<Rightarrow> int" where
  "isolateRightmostBit64 x = x AND take_bit 64 (- x)"

definition isPowerOfTwo64 :: "int \<Rightarrow> bool" where
  "isPowerOfTwo64 x = (if x = 0 then False else x AND take_bit 64 (x - 1) = 0)"

definition indexOfSingleBit64 :: "int \<Rightarrow> nat option" where
  "indexOfSingleBit64 x =
     do { assert_that (x AND take_bit 64 (x - 1) = 0);
          res \<leftarrow> indexOfSingleBit32 (take_bit 32 (x OR drop_bit 32 x));
          let res = (if x AND 0xFFFFFFFF00000000 \<noteq> 0 then res + 32 else res) in
          do { assert_that (res < 64); assert_that (take_bit 64 (2 ^ res) = x); Some res } }"

definition indexOfRightmostBit64 :: "int \<Rightarrow> nat option" where
  "indexOfRightmostBit64 x = indexOfSingleBit64 (isolateRightmostBit64 x)"

subsection \<open>The lowest bit\<close>

text \<open>A positive number is a power of two times an odd number.\<close>

lemma lowest_bit:
  fixes x :: int
  assumes "0 < x"
  obtains i m where "x = 2 ^ i * m" "odd m" "0 < m"
proof -
  have "\<exists>i m. x = 2 ^ i * m \<and> odd m \<and> 0 < m"
    using assms
  proof (induction "nat x" arbitrary: x rule: less_induct)
    case less
    show ?case
    proof (cases "odd x")
      case True
      with less.prems show ?thesis by (intro exI [of _ 0] exI [of _ x]) simp
    next
      case False
      then obtain y where y: "x = 2 * y" by (auto elim: evenE)
      with less.prems have "nat y < nat x" "0 < y" by auto
      from less.hyps [OF this] obtain i m where "y = 2 ^ i * m" "odd m" "0 < m" by blast
      with y show ?thesis by (intro exI [of _ "Suc i"] exI [of _ m]) simp
    qed
  qed
  with that show thesis by blast
qed

lemma and_double: "(2 * a) AND (2 * b) = 2 * (a AND b)" for a b :: int
  by (simp add: and_rec [of "2 * a"])

lemma odd_and_minus: "odd m \<Longrightarrow> m AND - m = 1" for m :: int
proof (elim oddE)
  fix q assume m: "m = 2 * q + 1"
  have "- m = 2 * (NOT q) + 1" by (simp add: m not_int_def)
  moreover have "(2 * q + 1) AND (2 * (NOT q) + 1) = 1 + 2 * (q AND NOT q)" by (simp add: and_rec [of "2 * q + 1"])
  ultimately show "m AND - m = 1" by (simp only: m bit.conj_cancel_right)
qed

lemma odd_and_pred: "odd m \<Longrightarrow> m AND (m - 1) = m - 1" for m :: int
  by (elim oddE) (simp add: and_rec [of "2 * _ + 1"])

lemma isolate_lowest: "odd m \<Longrightarrow> (2 ^ i * m) AND - (2 ^ i * m) = 2 ^ i" for m :: int
proof (induction i)
  case (Suc i)
  then show ?case using and_double [of "2 ^ i * m" "- (2 ^ i * m)"] by (simp add: mult.assoc)
qed (simp add: odd_and_minus)

lemma without_lowest: "odd m \<Longrightarrow> (2 ^ i * m) AND (2 ^ i * m - 1) = 2 ^ i * (m - 1)" for m :: int
proof (induction i)
  case (Suc i)
  let ?a = "2 ^ i * m"
  have "(2 * ?a) AND (2 * ?a - 1) = 2 * (?a AND (?a - 1))"
  proof -
    have "(2 * ?a - 1) div 2 = ?a - 1" by simp
    then show ?thesis by (simp add: and_rec [of "2 * ?a"])
  qed
  with Suc show ?case by (simp add: mult.assoc)
qed (simp add: odd_and_pred)

text \<open>The masks of the two widths.\<close>

lemma and_take_bit: "fits w x \<Longrightarrow> x AND take_bit w y = take_bit w (x AND y)"
  by (metis take_bit_and take_bit_fits)

lemma isolate64: "fits 64 (2 ^ i * m) \<Longrightarrow> odd m \<Longrightarrow> isolateRightmostBit64 (2 ^ i * m) = take_bit 64 (2 ^ i)"
  using isolate_lowest [of m i] and_take_bit [of 64 "2 ^ i * m" "- (2 ^ i * m)"] by (metis isolateRightmostBit64_def)

lemma lowest_fits:
  fixes m :: int
  assumes "fits w (2 ^ i * m)" "0 < m"
  shows "i < w" "fits w (2 ^ i)"
proof -
  have "(2::int) ^ i \<le> 2 ^ i * m" using assms(2) by simp
  also have "2 ^ i * m < 2 ^ w" using assms(1) by (simp add: fits_def)
  finally show "i < w" "fits w (2 ^ i)" by (simp_all add: fits_def)
qed

lemma without64: "fits 64 (2 ^ i * m) \<Longrightarrow> odd m \<Longrightarrow> (2 ^ i * m) AND take_bit 64 (2 ^ i * m - 1) = take_bit 64 (2 ^ i * (m - 1))"
  using without_lowest [of m i] and_take_bit [of 64 "2 ^ i * m" "2 ^ i * m - 1"] by metis

lemma index32: "i < 32 \<Longrightarrow> indexOfSingleBit32 (2 ^ i) = Some i"
proof -
  have "\<forall>i \<in> set [0..<32]. indexOfSingleBit32 (2 ^ i) = Some i" by code_simp
  then show "i < 32 \<Longrightarrow> indexOfSingleBit32 (2 ^ i) = Some i" by simp
qed

lemma index64: "i < 64 \<Longrightarrow> indexOfSingleBit64 (2 ^ i) = Some i"
proof -
  have "\<forall>i \<in> set [0..<64]. indexOfSingleBit64 (2 ^ i) = Some i" by code_simp
  then show "i < 64 \<Longrightarrow> indexOfSingleBit64 (2 ^ i) = Some i" by simp
qed

lemma index64_SomeD: "indexOfSingleBit64 x = Some i \<Longrightarrow> i < 64 \<and> x = 2 ^ i"
  by (auto simp: indexOfSingleBit64_def bind_eq_Some_conv Let_def split: if_splits)

lemma isPowerOfTwo64_iff:
  assumes "fits 64 x"
  shows "isPowerOfTwo64 x \<longleftrightarrow> (\<exists>i < 64. x = 2 ^ i)"
proof (cases "x = 0")
  case False
  then have "0 < x" using assms by (simp add: fits_def)
  then obtain i m where x: "x = 2 ^ i * m" "odd m" "0 < m" by (rule lowest_bit)
  note L = lowest_fits [OF assms [unfolded x(1)] x(3)]
  have "fits 64 (2 ^ i * (m - 1))"
  proof -
    have "2 ^ i * (m - 1) < 2 ^ i * m" using x(3) by simp
    also have "2 ^ i * m < 2 ^ 64" using assms x(1) by (simp add: fits_def)
    finally show ?thesis using x(3) by (simp add: fits_def)
  qed
  then have p: "isPowerOfTwo64 x \<longleftrightarrow> m = 1" using False without64 [of i m] assms x by (simp add: isPowerOfTwo64_def)
  show ?thesis
  proof
    assume "isPowerOfTwo64 x"
    with p x L show "\<exists>i < 64. x = 2 ^ i" by auto
  next
    assume "\<exists>i < 64. x = 2 ^ i"
    then obtain j where j: "2 ^ i * m = (2::int) ^ j" using x by auto
    have "m = 1"
    proof (cases "i < j")
      case True
      then have "(2::int) ^ j = 2 ^ i * 2 ^ (j - i)" by (simp flip: power_add)
      with j have "m = 2 ^ (j - i)" by simp
      with True x(2) show ?thesis by simp
    next
      case False
      then have "(2::int) ^ i = 2 ^ j * 2 ^ (i - j)" by (simp flip: power_add)
      with j have "2 ^ (i - j) * m = 1" by simp
      with x(3) show ?thesis using zmult_eq_1_iff by auto
    qed
    with p show "isPowerOfTwo64 x" by simp
  qed
qed (simp add: isPowerOfTwo64_def)

lemma maxValueOfNBits64_eq: "N \<le> 64 \<Longrightarrow> maxValueOfNBits64 N = Some (2 ^ N - 1)"
proof -
  have "drop_bit (64 - N) (2 ^ 64 - 1 :: int) = 2 ^ N - 1" if "N \<le> 64"
    using drop_bit_mask_eq [of "64 - N" 64, where 'a = int] that unfolding mask_eq_exp_minus_1 by simp
  then show "N \<le> 64 \<Longrightarrow> maxValueOfNBits64 N = Some (2 ^ N - 1)" by (auto simp: maxValueOfNBits64_def)
qed

lemma truncateToNBits64_eq: "0 < N \<Longrightarrow> N \<le> 64 \<Longrightarrow> truncateToNBits64 x N = Some (take_bit N x)"
proof -
  assume N: "0 < N" "N \<le> 64"
  have "drop_bit (64 - N) (2 ^ 64 - 1 :: int) = mask N"
    using drop_bit_mask_eq [of "64 - N" 64, where 'a = int] N(2) unfolding mask_eq_exp_minus_1 by simp
  then show ?thesis using N by (simp add: truncateToNBits64_def take_bit_eq_mask)
qed

lemma lowest64:
  assumes "fits 64 x" "x \<noteq> 0"
  obtains i m where "x = 2 ^ i * m" "odd m" "0 < m" "i < 64" "isolateRightmostBit64 x = 2 ^ i" "indexOfRightmostBit64 x = Some i"
    "withoutRightmostBit64 x = x - 2 ^ i"
proof -
  have "0 < x" using assms by (simp add: fits_def)
  then obtain i m where x: "x = 2 ^ i * m" "odd m" "0 < m" by (rule lowest_bit)
  note L = lowest_fits [OF assms(1) [unfolded x(1)] x(3)]
  have iso: "isolateRightmostBit64 x = 2 ^ i" using isolate64 [of i m] assms(1) x L by simp
  have "fits 64 (x - 2 ^ i)"
  proof -
    have "x - 2 ^ i = 2 ^ i * (m - 1)" by (simp add: x right_diff_distrib)
    then have "0 \<le> x - 2 ^ i" using x(3) by simp
    moreover have "x - 2 ^ i < x" by simp
    ultimately show ?thesis using assms(1) unfolding fits_def by linarith
  qed
  then have "withoutRightmostBit64 x = x - 2 ^ i"
    using without64 [of i m] assms(1) x by (simp add: withoutRightmostBit64_def right_diff_distrib)
  with that x L(1) iso index64 [OF L(1)] show thesis by (simp add: indexOfRightmostBit64_def)
qed

text \<open>
  C22. The 64-bit helpers do what their comments say. For every 64-bit value: it passes \<^verbatim>\<open>isPowerOfTwo\<close> exactly when it is a
  power of two; \<^verbatim>\<open>indexOfSingleBit\<close> returns the exponent of a power of two and fails an assertion otherwise; and
  if the value is not zero, \<^verbatim>\<open>indexOfRightmostBit\<close>, \<^verbatim>\<open>isolateRightmostBit\<close> and \<^verbatim>\<open>withoutRightmostBit\<close> find, isolate and clear
  its lowest bit.
\<close>

theorem bits64_correct:
  assumes "fits 64 x"
  shows "(isPowerOfTwo64 x \<longleftrightarrow> (\<exists>i < 64. x = 2 ^ i)) \<and> (\<forall>i. indexOfSingleBit64 x = Some i \<longleftrightarrow> i < 64 \<and> x = 2 ^ i)
    \<and> (x \<noteq> 0 \<longrightarrow> (\<exists>i m. x = 2 ^ i * m \<and> odd m \<and> indexOfRightmostBit64 x = Some i \<and> isolateRightmostBit64 x = 2 ^ i
         \<and> withoutRightmostBit64 x = x - 2 ^ i))"
proof (intro conjI impI allI)
  show "isPowerOfTwo64 x \<longleftrightarrow> (\<exists>i < 64. x = 2 ^ i)" by (rule isPowerOfTwo64_iff [OF assms])
  show "indexOfSingleBit64 x = Some i \<longleftrightarrow> i < 64 \<and> x = 2 ^ i" for i using index64 [of i] index64_SomeD [of x i] by auto
  assume "x \<noteq> 0"
  from lowest64 [OF assms this] show "\<exists>i m. x = 2 ^ i * m \<and> odd m \<and> indexOfRightmostBit64 x = Some i \<and> isolateRightmostBit64 x = 2 ^ i
      \<and> withoutRightmostBit64 x = x - 2 ^ i" by metis
qed

theorem bits64_correct_witness:
  "indexOfSingleBit64 (2 ^ 40) = Some 40 \<and> (\<exists>i m. (40::int) = 2 ^ i * m \<and> odd m \<and> indexOfRightmostBit64 40 = Some i)"
proof
  show "indexOfSingleBit64 (2 ^ 40) = Some 40" using bits64_correct [of "2 ^ 40"] by (simp add: fits_def)
  show "\<exists>i m. (40::int) = 2 ^ i * m \<and> odd m \<and> indexOfRightmostBit64 40 = Some i"
    using bits64_correct [of 40] by (auto simp: fits_def)
qed

end
