(* ===== verification/ConstantDivision.thy ===== *)
theory ConstantDivision
  imports Ints Bits
begin

text \<open>
  \<^verbatim>\<open>lib/Solver/ConstantDivision.cpp\<close>: the constants that replace a multiplication by additions and
  subtractions of shifted values, and a 32-bit division by a multiplication. Unsigned
  numbers are integers with the wrap-around written out by \<^const>\<open>take_bit\<close>, signed ones integers in their range. A division by
  zero is \<^term>\<open>None\<close>. A shift by the width or more, which C++ leaves undefined, gives 0 here; it only happens to the value 0, in
  \<^verbatim>\<open>exp_base_2(32)\<close>.
\<close>

definition ones :: "int \<Rightarrow> int" where
  "ones x =
     (let x = take_bit 32 (x - (drop_bit 1 x AND 0x55555555));
          x = take_bit 32 ((drop_bit 2 x AND 0x33333333) + (x AND 0x33333333));
          x = take_bit 32 (drop_bit 4 x + x) AND 0x0f0f0f0f;
          x = take_bit 32 (x + drop_bit 8 x);
          x = take_bit 32 (x + drop_bit 16 x) in
      x AND 0x3f)"

definition ldz :: "int \<Rightarrow> int" where
  "ldz x =
     (let x = x OR drop_bit 1 x; x = x OR drop_bit 2 x; x = x OR drop_bit 4 x; x = x OR drop_bit 8 x; x = x OR drop_bit 16 x in
      take_bit 32 (32 - ones x))"

definition LOG2_CEIL :: "int \<Rightarrow> int" where
  "LOG2_CEIL x = take_bit 32 (32 - ldz (take_bit 32 (x - 1)))"

definition exp_base_2 :: "int \<Rightarrow> int" where
  "exp_base_2 n = (let x = drop_bit 31 (take_bit 32 (NOT n AND (n - 32))) in take_bit 32 (push_bit (nat n) x))"

definition mult_region :: "nat \<Rightarrow> nat \<Rightarrow> int \<Rightarrow> int \<Rightarrow> int \<times> int" where
  "mult_region low high add sub =
     (let lowbit = 2 ^ low in
      if high = low + 1 then (add OR lowbit, sub)
      else
        let (add, sub) = (if low \<noteq> 0 \<and> add AND drop_bit 1 lowbit \<noteq> 0
                          then (add XOR drop_bit 1 lowbit, sub XOR drop_bit 1 lowbit) else (add, sub OR lowbit)) in
        (if high \<noteq> 64 then add OR 2 ^ high else add, sub))"

partial_function (option) mult_loop :: "int \<Rightarrow> int \<Rightarrow> int \<Rightarrow> (int \<times> int) option" where
  "mult_loop x add sub =
     (if x = 0 then Some (add, sub)
      else do { low \<leftarrow> indexOfRightmostBit64 x;
                let p = take_bit 64 (x + 2 ^ low);
                    q = isolateRightmostBit64 p in
                do { high \<leftarrow> (if q \<noteq> 0 then indexOfSingleBit64 q else Some 64);
                     let (add, sub) = mult_region low high add sub in
                     mult_loop (p XOR q) add sub } })"

definition ComputeMultConstants64 :: "int \<Rightarrow> (int \<times> int) option" where
  "ComputeMultConstants64 multiplicand =
     do { (add, sub) \<leftarrow> mult_loop multiplicand 0 0;
          assert_that (multiplicand = take_bit 64 (add - sub));
          Some (add, sub) }"

definition ComputeUDivConstants32 :: "int \<Rightarrow> (int \<times> int \<times> int) option" where
  "ComputeUDivConstants32 d =
     (let l = LOG2_CEIL d; mid = take_bit 32 (exp_base_2 l - d) in
      do { assert_that (d \<noteq> 0);
           Some (take_bit 32 (take_bit 64 (2 ^ 32 * mid) div d + 1), min l 1, max (l - 1) 0) })"

definition ComputeSDivConstants32 :: "int \<Rightarrow> (int \<times> int \<times> int) option" where
  "ComputeSDivConstants32 d =
     (let abs_d = (if 0 < d then d else - d);
          l = max 1 (LOG2_CEIL (take_bit 32 abs_d));
          l = (if abs_d = 2 ^ 31 then 31 else l);
          mid = exp_base_2 (l - 1) in
      do { assert_that (abs_d \<noteq> 0);
           let m = take_bit 64 (take_bit 64 (2 ^ 32 * mid) div abs_d + 1) in
           Some (signed_take_bit 31 (m - 2 ^ 32), drop_bit 31 d, l - 1) })"

subsection \<open>Logarithms\<close>

text \<open>\<^verbatim>\<open>ldz\<close> first sets all bits below the highest one.\<close>

definition covers :: "nat \<Rightarrow> int \<Rightarrow> int \<Rightarrow> bool" where
  "covers k x y \<longleftrightarrow> (\<forall>n. bit y n \<longleftrightarrow> (\<exists>j < k. bit x (n + j)))"

lemma ex_less_double: "(\<exists>j < k + k. P j) \<longleftrightarrow> (\<exists>j < k. P j) \<or> (\<exists>j < k. P (k + j))" for k :: nat
proof
  assume "\<exists>j < k + k. P j"
  then obtain j where j: "j < k + k" "P j" by blast
  show "(\<exists>j < k. P j) \<or> (\<exists>j < k. P (k + j))"
  proof (cases "j < k")
    case False
    with j have "j - k < k" "P (k + (j - k))" by auto
    then show ?thesis by blast
  qed (use j in blast)
next
  assume "(\<exists>j < k. P j) \<or> (\<exists>j < k. P (k + j))"
  then show "\<exists>j < k + k. P j" by (metis add_less_cancel_left trans_less_add1)
qed

lemma covers_step: "covers k x y \<Longrightarrow> covers (k + k) x (y OR drop_bit k y)"
  unfolding covers_def ex_less_double by (simp add: bit_or_iff bit_drop_bit_eq add.left_commute add.commute)

lemma smear: "let x1 = x OR drop_bit 1 x; x2 = x1 OR drop_bit 2 x1; x4 = x2 OR drop_bit 4 x2; x8 = x4 OR drop_bit 8 x4 in
    covers 32 x (x8 OR drop_bit 16 x8)"
proof -
  have "covers 1 x x" by (simp add: covers_def)
  note c = covers_step [OF covers_step [OF covers_step [OF covers_step [OF covers_step [OF this]]]]]
  have e: "(1::nat) + 1 = 2" "(2::nat) + 2 = 4" "(4::nat) + 4 = 8" "(8::nat) + 8 = 16" "(16::nat) + 16 = 32" by simp_all
  show ?thesis using c unfolding e Let_def .
qed

lemma covers_mask:
  assumes c: "covers 32 x y" and x: "2 ^ k \<le> x" "x < 2 ^ Suc k" and k: "k < 32"
  shows "y = mask (Suc k)"
proof (rule bit_eqI)
  fix n
  have "x div 2 ^ k = 1" using x by (intro int_div_pos_eq [of _ _ _ "x - 2 ^ k"]) auto
  then have top: "bit x k" by (simp add: bit_iff_odd)
  have high: "\<not> bit x i" if "k < i" for i
  proof -
    have "x < 2 ^ i" using x(2) that by (meson Suc_leI less_le_trans one_le_numeral power_increasing)
    moreover have "0 \<le> x" using x(1) by (meson order_trans zero_le_numeral zero_le_power)
    ultimately show ?thesis by (simp add: bit_iff_odd)
  qed
  show "bit y n \<longleftrightarrow> bit (mask (Suc k) :: int) n"
  proof
    assume "bit y n"
    then obtain j where "bit x (n + j)" using c by (auto simp: covers_def)
    with high [of "n + j"] have "n \<le> k" by (meson le_add1 not_less order_trans)
    then show "bit (mask (Suc k) :: int) n" by (simp add: bit_mask_iff)
  next
    assume "bit (mask (Suc k) :: int) n"
    then have "n \<le> k" by (simp add: bit_mask_iff)
    then have "k - n < 32" "bit x (n + (k - n))" using top k by auto
    then show "bit y n" using c unfolding covers_def by blast
  qed
qed

lemma ones_mask: "k \<le> 32 \<Longrightarrow> ones (mask k) = int k"
proof -
  have "\<forall>k \<in> set [0..<33]. ones (mask k) = int k" by code_simp
  then show "k \<le> 32 \<Longrightarrow> ones (mask k) = int k" by simp
qed

lemma ldz_eq:
  assumes "2 ^ k \<le> x" "x < 2 ^ Suc k" "k < 32"
  shows "ldz x = 31 - int k"
proof -
  have "ldz x = take_bit 32 (32 - ones (mask (Suc k)))"
    using covers_mask [OF smear [of x, unfolded Let_def] assms] unfolding ldz_def Let_def by simp
  also have "\<dots> = 31 - int k" using ones_mask [of "Suc k"] assms(3) by (simp add: take_bit_int_eq_self)
  finally show ?thesis .
qed

lemma ldz_0: "ldz 0 = 32"
  by code_simp

lemma LOG2_CEIL_1: "LOG2_CEIL 1 = 0"
  by code_simp

lemma LOG2_CEIL_eq:
  assumes "2 ^ k < x" "x \<le> 2 ^ Suc k" "k < 32" "x < 2 ^ 32"
  shows "LOG2_CEIL x = int (Suc k)"
proof -
  have "0 < x" using assms(1) by (meson less_trans zero_less_numeral zero_less_power)
  then have "take_bit 32 (x - 1) = x - 1" using assms(4) by (simp add: take_bit_int_eq_self)
  then have "LOG2_CEIL x = take_bit 32 (32 - (31 - int k))"
    using ldz_eq [of k "x - 1"] assms by (simp add: LOG2_CEIL_def)
  also have "\<dots> = int (Suc k)" using assms(3) by (simp add: take_bit_int_eq_self)
  finally show ?thesis .
qed

lemma log2_exists:
  assumes "1 < x" "x < 2 ^ 32"
  obtains k where "(2::int) ^ k < x" "x \<le> 2 ^ Suc k" "k < 32"
proof -
  define P where "P = (\<lambda>n. x \<le> (2::int) ^ n)"
  have "P 32" using assms by (simp add: P_def)
  moreover have "\<not> P 0" using assms by (simp add: P_def)
  ultimately obtain k where "k < 32" "\<not> P k" "P (Suc k)" using ex_least_nat_less [of P 32] by auto
  with that show thesis by (auto simp: P_def not_le)
qed

lemma exp_base_2_eq: "n < 32 \<Longrightarrow> exp_base_2 (int n) = 2 ^ n" "exp_base_2 32 = 0"
proof -
  have "\<forall>n \<in> set [0..<32]. exp_base_2 (int n) = 2 ^ n" by code_simp
  then show "n < 32 \<Longrightarrow> exp_base_2 (int n) = 2 ^ n" by simp
  show "exp_base_2 32 = 0" by code_simp
qed

subsection \<open>Division by multiplication\<close>

text \<open>Multiplying by \<open>m\<close>, a little more than \<open>N / d\<close>, and dividing by \<open>N\<close>.\<close>

lemma magic_div:
  fixes n m d N :: int
  assumes d: "0 < d" and N: "0 < N" and n: "0 \<le> n" and e: "N \<le> m * d" "n * (m * d - N) < N"
  shows "(m * n) div N = n div d"
proof -
  define q r where "q = n div d" and "r = n mod d"
  have nq: "n = q * d + r" "0 \<le> r" "r < d" using d by (simp_all add: q_def r_def)
  have "d * (q * N) \<le> n * N" using nq N by (simp add: algebra_simps)
  also have "n * N \<le> n * (m * d)" using e(1) n by (rule mult_left_mono)
  finally have "d * (q * N) \<le> d * (m * n)" by (simp add: mult.commute mult.left_commute)
  then have lo: "q * N \<le> m * n" using d by (simp only: mult_le_cancel_left_pos)
  have "n * (m * d) < (n + 1) * N" using e(2) by (simp add: algebra_simps)
  also have "(n + 1) * N \<le> (q + 1) * d * N"
  proof -
    have "n + 1 \<le> (q + 1) * d" unfolding nq(1) using nq(3) by (simp add: algebra_simps)
    then show ?thesis using N by (simp add: mult_right_mono)
  qed
  finally have "d * (m * n) < d * ((q + 1) * N)" by (simp only: mult.commute mult.left_commute)
  then have hi: "m * n < (q + 1) * N" using d by (simp only: mult_less_cancel_left_pos)
  from lo hi have "(m * n) div N = q" by (intro int_div_pos_eq [of _ _ _ "m * n - N * q"]) (auto simp: algebra_simps)
  then show ?thesis by (simp add: q_def)
qed

lemma magic_div_neg:
  fixes n m d N :: int
  assumes d: "0 < d" and N: "0 < N" and n: "0 < n" and e: "N < m * d" "n * (m * d - N) \<le> N"
  shows "(m * - n) div N = - (n div d) - 1"
proof -
  define q r where "q = n div d" and "r = n mod d"
  have nq: "n = q * d + r" "0 \<le> r" "r < d" using d by (simp_all add: q_def r_def)
  have "d * (q * N) \<le> n * N" using nq N by (simp add: algebra_simps)
  also have "n * N < n * (m * d)" using e(1) n by simp
  finally have "d * (q * N) < d * (m * n)" by (simp only: mult.commute mult.left_commute)
  then have lo: "q * N < m * n" using d by (simp only: mult_less_cancel_left_pos)
  have "n * (m * d) \<le> (n + 1) * N" using e(2) by (simp add: algebra_simps)
  also have "(n + 1) * N \<le> (q + 1) * d * N"
  proof -
    have "n + 1 \<le> (q + 1) * d" unfolding nq(1) using nq(3) by (simp add: algebra_simps)
    then show ?thesis using N by (simp add: mult_right_mono)
  qed
  finally have "d * (m * n) \<le> d * ((q + 1) * N)" by (simp only: mult.commute mult.left_commute)
  then have hi: "m * n \<le> (q + 1) * N" using d by (simp only: mult_le_cancel_left_pos)
  from lo hi have "(m * - n) div N = - q - 1"
    by (intro int_div_pos_eq [of _ _ _ "(q + 1) * N - m * n"]) (auto simp: algebra_simps)
  then show ?thesis by (simp add: q_def)
qed

text \<open>The multiplier \<open>N / d + 1\<close> rounded down.\<close>

lemma multiplier:
  fixes d N :: int
  assumes "0 < d"
  shows "N < (N div d + 1) * d" "(N div d + 1) * d - N \<le> d"
proof -
  have "N = N div d * d + N mod d" "0 \<le> N mod d" "N mod d < d" using assms by simp_all
  then show "N < (N div d + 1) * d" "(N div d + 1) * d - N \<le> d" by (simp_all only: distrib_right mult_1_left)
qed

lemma div_lessI:
  fixes a c d :: int
  assumes "0 < d" "a < c * d"
  shows "a div d < c"
proof (rule ccontr)
  assume "\<not> a div d < c"
  then have "c * d \<le> a div d * d" using assms(1) by (intro mult_right_mono) auto
  also have "\<dots> \<le> a" using div_mult_mod_eq [of a d] pos_mod_sign [OF assms(1), of a] by linarith
  finally show False using assms(2) by simp
qed

text \<open>What the builder computes from the constants of an unsigned division.\<close>

definition udiv_by :: "int \<times> int \<times> int \<Rightarrow> int \<Rightarrow> int" where
  "udiv_by c n = (case c of (mprime, sh1, sh2) \<Rightarrow>
     let t1 = drop_bit 32 (take_bit 64 (n * mprime)) in
     drop_bit (nat sh2) (take_bit 32 (drop_bit (nat sh1) (take_bit 32 (n - t1)) + t1)))"

lemma udiv_value:
  assumes m: "0 \<le> mp" "mp < 2 ^ 32" and n: "0 \<le> n" "n < 2 ^ 32" and l: "0 < l"
  shows "udiv_by (mp, 1, int l - 1) n = ((2 ^ 32 + mp) * n) div 2 ^ (32 + l)"
proof -
  define t where "t = (mp * n) div 2 ^ 32"
  have "mp * n \<le> (2 ^ 32 - 1) * n" using m n by (intro mult_right_mono) auto
  then have le: "mp * n \<le> 2 ^ 32 * n" using n by (simp add: algebra_simps)
  have "mp * n < 2 ^ 64"
  proof -
    have "mp * n \<le> 2 ^ 32 * n" by (rule le)
    also have "\<dots> < 2 ^ 32 * 2 ^ 32" using n by simp
    finally show ?thesis by simp
  qed
  then have tb: "take_bit 64 (n * mp) = mp * n" using m n by (simp add: take_bit_int_eq_self mult.commute)
  have t': "mp * n div 4294967296 = t" by (simp add: t_def)
  have t0: "0 \<le> t" using m n by (simp add: t_def pos_imp_zdiv_nonneg_iff)
  have "t \<le> (2 ^ 32 * n) div 2 ^ 32" unfolding t_def using le by (rule zdiv_mono1) simp
  then have tn: "t \<le> n" by simp
  have a: "take_bit 32 (n - t) = n - t" using t0 tn n by (simp add: take_bit_int_eq_self)
  have h: "(n - t) div 2 + t = (n + t) div 2"
  proof -
    have "(n - t) div 2 + t = ((n - t) + t * 2) div 2" by simp
    also have "(n - t) + t * 2 = n + t" by simp
    finally show ?thesis .
  qed
  have b: "take_bit 32 ((n + t) div 2) = (n + t) div 2" using t0 tn n by (intro take_bit_int_eq_self) auto
  have "udiv_by (mp, 1, int l - 1) n = (n + t) div 2 div 2 ^ (l - 1)"
    unfolding udiv_by_def prod.case Let_def tb using l
    by (simp add: drop_bit_eq_div t' a h b nat_diff_distrib)
  also have "\<dots> = (n + t) div 2 ^ l"
    using l zdiv_zmult2_eq [of "2 ^ (l - 1)" "n + t" 2] power_Suc [of "2::int" "l - 1"] by simp
  also have "n + t = ((2 ^ 32 + mp) * n) div 2 ^ 32" unfolding t_def by (simp add: distrib_right)
  also have "((2 ^ 32 + mp) * n) div 2 ^ 32 div 2 ^ l = ((2 ^ 32 + mp) * n) div 2 ^ (32 + l)"
    unfolding power_add by (rule zdiv_zmult2_eq [symmetric]) simp
  finally show ?thesis .
qed

lemma exp_minus:
  assumes "k < 32" "2 ^ k < d" "d \<le> 2 ^ Suc k" "d < 2 ^ 32"
  shows "take_bit 32 (exp_base_2 (int (Suc k)) - d) = 2 ^ Suc k - d"
proof (cases "Suc k = 32")
  case True
  have "0 < d" using assms(2) by (meson less_trans zero_less_numeral zero_less_power)
  then have "take_bit 32 (- d) = 2 ^ 32 - d" using assms(4) by (simp add: take_bit_minus_small_eq)
  with True show ?thesis using exp_base_2_eq(2) by simp
next
  case False
  then have "Suc k < 32" using assms(1) by simp
  then have "exp_base_2 (int (Suc k)) = 2 ^ Suc k" by (rule exp_base_2_eq(1))
  moreover have "(2::int) ^ Suc k < 2 ^ 32" using \<open>Suc k < 32\<close> by (intro power_strict_increasing) auto
  moreover have "0 < d" using assms(2) by (meson less_trans zero_less_numeral zero_less_power)
  ultimately show ?thesis using assms(3) by (simp add: take_bit_int_eq_self)
qed

lemma ComputeUDivConstants32_ok:
  assumes "0 < d" "d < 2 ^ 32"
  obtains mp sh1 sh2 where "ComputeUDivConstants32 d = Some (mp, int sh1, int sh2)" "fits 32 mp" "sh1 < 32" "sh2 < 32"
    "\<And>n. fits 32 n \<Longrightarrow> udiv_by (mp, int sh1, int sh2) n = n div d"
proof (cases "d = 1")
  case True
  have "ComputeUDivConstants32 1 = Some (1, int 0, int 0)" by code_simp
  moreover have "udiv_by (1, int 0, int 0) n = n div 1" if "fits 32 n" for n
  proof -
    have "n div 4294967296 = 0" using that by (simp add: fits_def)
    moreover have "take_bit 64 n = n" using that fits_mono [of 32 n 64] by simp
    ultimately show ?thesis using that by (simp add: udiv_by_def drop_bit_eq_div)
  qed
  ultimately show thesis using that [of 1 0 0] True by simp
next
  case False
  then obtain k where k: "2 ^ k < d" "d \<le> 2 ^ Suc k" "k < 32" using log2_exists [of d] assms by auto
  let ?N = "2 ^ (32 + Suc k) :: int"
  define mp where "mp = (2 ^ 32 * (2 ^ Suc k - d)) div d + 1"
  have mid: "0 \<le> 2 ^ Suc k - d" "2 ^ Suc k - d < d" "2 ^ Suc k - d < 2 ^ 32" using k assms(2) by simp_all
  have N: "2 ^ 32 + mp = ?N div d + 1"
  proof -
    have "2 ^ 32 * (2 ^ Suc k - d) = ?N + (- (2 ^ 32)) * d" by (simp add: power_add algebra_simps)
    then have "(2 ^ 32 * (2 ^ Suc k - d)) div d = ?N div d - 2 ^ 32"
      using assms(1) div_mult_self1 [of d ?N "- (2 ^ 32)"] by simp
    then show ?thesis by (simp add: mp_def)
  qed
  have mp: "0 \<le> mp" "mp < 2 ^ 32"
  proof -
    show "0 \<le> mp" using mid assms(1) by (simp add: mp_def pos_imp_zdiv_nonneg_iff)
    have "2 ^ 32 * (2 ^ Suc k - d) \<le> 2 ^ 32 * (d - 1)" using mid(2) by simp
    also have "\<dots> < (2 ^ 32 - 1) * d" using assms(2) by (simp add: algebra_simps)
    finally have "(2 ^ 32 * (2 ^ Suc k - d)) div d < 2 ^ 32 - 1" by (rule div_lessI [OF assms(1)])
    then show "mp < 2 ^ 32" by (simp add: mp_def)
  qed
  have "take_bit 64 (2 ^ 32 * (2 ^ Suc k - d)) = 2 ^ 32 * (2 ^ Suc k - d)"
    using mid by (intro take_bit_int_eq_self) (simp_all del: power_Suc)
  moreover have "take_bit 32 mp = mp" using mp by (simp add: take_bit_int_eq_self)
  ultimately have c: "ComputeUDivConstants32 d = Some (mp, int 1, int k)"
    unfolding ComputeUDivConstants32_def LOG2_CEIL_eq [OF k assms(2)] Let_def exp_minus [OF k(3,1,2) assms(2)]
    using assms(1) by (simp add: mp_def)
  have "udiv_by (mp, int 1, int k) n = n div d" if "fits 32 n" for n
  proof -
    have n: "0 \<le> n" "n < 2 ^ 32" using that by (simp_all add: fits_def)
    have "udiv_by (mp, 1, int (Suc k) - 1) n = ((?N div d + 1) * n) div ?N"
      using udiv_value [OF mp n, of "Suc k"] unfolding N by simp
    also have "\<dots> = n div d"
    proof (rule magic_div)
      show "?N \<le> (?N div d + 1) * d" using multiplier(1) [OF assms(1), of ?N] by simp
      have "n * ((?N div d + 1) * d - ?N) \<le> n * d" using multiplier(2) [OF assms(1), of ?N] n by (intro mult_left_mono) auto
      also have "n * d < 2 ^ 32 * 2 ^ Suc k"
        using n k(2) assms(1) by (meson le_less_trans mult_left_mono mult_strict_right_mono order_less_imp_le less_le_trans)
      finally show "n * ((?N div d + 1) * d - ?N) < ?N" by (simp add: power_add)
    qed (use assms n in simp_all)
    finally show ?thesis by simp
  qed
  with that [OF c] k(3) mp show thesis by (simp add: fits_def)
qed

text \<open>What the builder computes from the constants of a signed division, on bit patterns.\<close>

definition sdiv_by :: "int \<times> int \<times> int \<Rightarrow> int \<Rightarrow> int" where
  "sdiv_by c n = (case c of (mprime, dsign, shpost) \<Rightarrow>
     let mulsh = drop_bit 32 (take_bit 64 (ap_sext 32 64 n * take_bit 64 mprime));
         npm = take_bit 32 (n + mulsh);
         s = take_bit 32 (drop_bit (nat shpost) (ap_sext 32 64 npm));
         q0 = take_bit 32 (s - (if bit n 31 then mask 32 else 0)) in
     take_bit 32 ((q0 XOR take_bit 32 dsign) - take_bit 32 dsign))"

lemma take_bit_negate: "take_bit w ((take_bit w q XOR mask w) - mask w) = take_bit w (- q)" for q :: int
proof -
  have "take_bit w q XOR mask w = take_bit w (NOT q)"
    by (rule bit_eqI) (auto simp: bit_xor_iff bit_take_bit_iff bit_mask_iff bit_not_iff)
  then have "take_bit w ((take_bit w q XOR mask w) - mask w) = take_bit w (take_bit w (NOT q) - take_bit w (-1))"
    by (simp only: take_bit_minus_one_eq_mask)
  also have "\<dots> = take_bit w (NOT q - (-1))" by (rule take_bit_diff)
  also have "NOT q - (-1) = - q" by (simp add: not_int_def)
  finally show ?thesis .
qed

lemma mulsh_eq:
  assumes "fits 32 n"
  shows "take_bit 32 (n + drop_bit 32 (take_bit 64 (ap_sext 32 64 n * take_bit 64 mp)))
    = take_bit 32 ((ap_signed 32 n * (2 ^ 32 + mp)) div 2 ^ 32)"
proof -
  let ?s = "ap_signed 32 n"
  have "take_bit 64 (ap_sext 32 64 n * take_bit 64 mp) = take_bit 64 (?s * mp)"
    unfolding ap_sext_def by (rule take_bit_mult)
  then have "drop_bit 32 (take_bit 64 (ap_sext 32 64 n * take_bit 64 mp)) = take_bit 32 (?s * mp div 2 ^ 32)"
    using drop_bit_take_bit [of 32 64 "?s * mp"] by (simp add: drop_bit_eq_div)
  moreover have "n = take_bit 32 ?s" using assms by simp
  ultimately have "take_bit 32 (n + drop_bit 32 (take_bit 64 (ap_sext 32 64 n * take_bit 64 mp)))
      = take_bit 32 (?s + ?s * mp div 2 ^ 32)" by (metis take_bit_add)
  also have "?s + ?s * mp div 2 ^ 32 = (?s * (2 ^ 32 + mp)) div 2 ^ 32" by (simp add: distrib_left)
  finally show ?thesis .
qed

lemma shift_sext:
  assumes "- (2 ^ 31) \<le> t" "t < 2 ^ 31" "k < 32"
  shows "take_bit 32 (drop_bit k (ap_sext 32 64 (take_bit 32 t))) = take_bit 32 (t div 2 ^ k)"
proof -
  have "ap_signed 32 (take_bit 32 t) = t"
    using assms by (simp add: ap_signed_def signed_take_bit_take_bit signed_take_bit_int_eq_self)
  then have "drop_bit k (ap_sext 32 64 (take_bit 32 t)) = take_bit (64 - k) (t div 2 ^ k)"
    using drop_bit_take_bit [of k 64 t] by (simp add: ap_sext_def drop_bit_eq_div)
  then show ?thesis using assms(3) by (simp add: min_def)
qed

lemma signed_range: "fits 32 n \<Longrightarrow> - (2 ^ 31) \<le> ap_signed 32 n \<and> ap_signed 32 n < 2 ^ 31 \<and> (bit n 31 \<longleftrightarrow> ap_signed 32 n < 0)"
  using signed_take_bit_int_greater_eq_minus_exp [of 31 n] signed_take_bit_int_less_exp [of 31 n]
  by (simp add: ap_signed_def)

text \<open>The quotient of a non-negative by a positive number, with the sign put back.\<close>

lemma sdiv_abs:
  fixes s d :: int
  assumes "0 < d"
  shows "s sdiv d = (if 0 \<le> s then s div d else - (- s div d))" "s sdiv (- d) = - (s sdiv d)"
  using assms by (simp_all add: signed_divide_int_def sgn_if)

lemma signed_magic:
  fixes s d :: int
  defines "m k \<equiv> 2 ^ (32 + k) div d + 1"
  assumes s: "- (2 ^ 31) \<le> s" "s < 2 ^ 31" and d: "2 ^ k < d" "d \<le> 2 ^ Suc k"
  shows "(s * m k) div 2 ^ (32 + k) + of_bool (s < 0) = s sdiv d"
proof -
  let ?N = "2 ^ (32 + k) :: int"
  have d0: "0 < d" using d(1) by (meson less_trans zero_less_numeral zero_less_power)
  note mult = multiplier [OF d0, of ?N, folded m_def]
  have err: "n * (m k * d - ?N) \<le> n * d" if "0 \<le> n" for n using mult(2) that by (intro mult_left_mono) auto
  have N: "2 ^ 31 * (2 * 2 ^ k) = ?N" by (simp add: power_add)
  show ?thesis
  proof (cases "0 \<le> s")
    case True
    have "s * d < 2 ^ 31 * d" using s(2) d0 by simp
    also have "\<dots> \<le> ?N" unfolding N [symmetric] using d(2) by simp
    finally have "s * (m k * d - ?N) < ?N" using err [OF True] by simp
    then have "(m k * s) div ?N = s div d" using magic_div [of d ?N s "m k"] mult(1) d0 True by simp
    with True show ?thesis by (simp add: sdiv_abs(1) [OF d0] mult.commute)
  next
    case False
    then have n: "0 < - s" by simp
    have "- s * d \<le> 2 ^ 31 * d" using s(1) d0 by (intro mult_right_mono) auto
    also have "\<dots> \<le> ?N" unfolding N [symmetric] using d(2) by simp
    finally have "- s * (m k * d - ?N) \<le> ?N" using err [OF less_imp_le [OF n]] by linarith
    then have "(m k * - (- s)) div ?N = - (- s div d) - 1" using magic_div_neg [OF d0 _ n mult(1)] by simp
    with False show ?thesis by (simp add: sdiv_abs(1) [OF d0] mult.commute)
  qed
qed

lemma signed_multiplier:
  fixes d :: int
  assumes "2 ^ k < d" "d \<le> 2 ^ Suc k"
  shows "2 ^ 31 \<le> 2 ^ (32 + k) div d" "2 ^ (32 + k) div d < 2 ^ 32"
proof -
  have d0: "0 < d" using assms(1) by (meson less_trans zero_less_numeral zero_less_power)
  have "2 ^ 31 * d \<le> 2 ^ (32 + k)" using assms(2) by (simp add: power_add)
  then have "2 ^ 31 * d div d \<le> 2 ^ (32 + k) div d" using d0 by (intro zdiv_mono1) auto
  then show "2 ^ 31 \<le> 2 ^ (32 + k) div d" using d0 by simp
  have "2 ^ (32 + k) < 2 ^ 32 * d" using assms(1) by (simp add: power_add)
  then show "2 ^ (32 + k) div d < 2 ^ 32" by (rule div_lessI [OF d0])
qed

lemma ComputeSDivConstants32_eq:
  assumes k: "2 ^ k < \<bar>d\<bar>" "\<bar>d\<bar> \<le> 2 ^ Suc k" "k < 31" "d < 2 ^ 31"
  shows "ComputeSDivConstants32 d = Some (2 ^ (32 + k) div \<bar>d\<bar> + 1 - 2 ^ 32, if d < 0 then -1 else 0, int k)"
proof -
  let ?a = "\<bar>d\<bar>"
  have a: "(if 0 < d then d else - d) = ?a" by simp
  have "(2::int) ^ Suc k \<le> 2 ^ 31" using k(3) by (intro power_increasing) auto
  with k(2) have le: "?a \<le> 2 ^ 31" by linarith
  have a0: "0 < ?a" using k(1) by (meson less_trans zero_less_numeral zero_less_power)
  have fit: "take_bit 32 ?a = ?a" using le by (simp add: take_bit_int_eq_self)
  have l: "LOG2_CEIL ?a = int (Suc k)" using k le by (intro LOG2_CEIL_eq) auto
  have k30: "k = 30" if "?a = 2 ^ 31"
  proof -
    have "(2::int) ^ 31 \<le> 2 ^ Suc k" using k(2) that by simp
    then have "31 \<le> Suc k" by (rule power_le_imp_le_exp [rotated]) simp
    with k(3) show ?thesis by simp
  qed
  have l2: "(if ?a = 2 ^ 31 then 31 else max 1 (int (Suc k))) = int (Suc k)" using k30 by auto
  have e: "exp_base_2 (int (Suc k) - 1) = 2 ^ k" using exp_base_2_eq(1) [of k] k(3) by simp
  have "(2::int) ^ (32 + k) < 2 ^ 64" using k(3) by (intro power_strict_increasing) auto
  then have t: "take_bit 64 (2 ^ 32 * 2 ^ k) = (2 ^ (32 + k) :: int)"
    unfolding power_add [symmetric] by (intro take_bit_int_eq_self) auto
  note q = signed_multiplier [OF k(1,2)]
  have t2: "take_bit 64 (2 ^ (32 + k) div ?a + 1) = 2 ^ (32 + k) div ?a + 1"
    using q by (intro take_bit_int_eq_self) auto
  have t3: "signed_take_bit 31 (2 ^ (32 + k) div ?a + 1 - 2 ^ 32) = 2 ^ (32 + k) div ?a + 1 - 2 ^ 32"
    using q by (intro signed_take_bit_int_eq_self) auto
  have sg: "drop_bit 31 d = (if d < 0 then -1 else 0)"
  proof (cases "d < 0")
    case True
    with le have "d div 2 ^ 31 = -1" by (intro int_div_pos_eq [of _ _ _ "d + 2 ^ 31"]) auto
    with True show ?thesis by (simp add: drop_bit_eq_div)
  next
    case False
    with k(4) show ?thesis by (simp add: drop_bit_eq_div)
  qed
  show ?thesis
    unfolding ComputeSDivConstants32_def a fit l Let_def l2 e t t2 t3 sg using a0 by simp
qed

lemma sdiv_by_eq:
  assumes k: "2 ^ k < \<bar>d\<bar>" "\<bar>d\<bar> \<le> 2 ^ Suc k" "k < 31" and n: "fits 32 n"
  shows "sdiv_by (2 ^ (32 + k) div \<bar>d\<bar> + 1 - 2 ^ 32, if d < 0 then -1 else 0, int k) n = take_bit 32 (ap_signed 32 n sdiv d)"
proof -
  let ?s = "ap_signed 32 n" and ?m = "2 ^ (32 + k) div \<bar>d\<bar> + 1"
  let ?t = "(?s * ?m) div 2 ^ 32"
  have a0: "0 < \<bar>d\<bar>" using k(1) by (meson less_trans zero_less_numeral zero_less_power)
  note r = signed_range [OF n] and q = signed_multiplier [OF k(1,2)]
  have m: "0 < ?m" "?m \<le> 2 ^ 32" using q by simp_all
  have t: "- (2 ^ 31) \<le> ?t" "?t < 2 ^ 31"
  proof -
    have "- (2 ^ 31) * 2 ^ 32 \<le> ?s * ?m"
    proof (cases "0 \<le> ?s")
      case True
      then have "0 \<le> ?s * ?m" using m by simp
      then show ?thesis by simp
    next
      case False
      then have "?s * 2 ^ 32 \<le> ?s * ?m" using m(2) by (simp add: mult_left_mono_neg)
      moreover have "- (2 ^ 31) * 2 ^ 32 \<le> ?s * 2 ^ 32" using r by simp
      ultimately show ?thesis by linarith
    qed
    then have "(- (2 ^ 31) * 2 ^ 32) div 2 ^ 32 \<le> ?t" by (rule zdiv_mono1) simp
    then show "- (2 ^ 31) \<le> ?t" by simp
    have "?s * ?m \<le> (2 ^ 31 - 1) * ?m" using r m by (intro mult_right_mono) auto
    also have "\<dots> \<le> (2 ^ 31 - 1) * 2 ^ 32" using m by (intro mult_left_mono) auto
    finally have "?s * ?m < 2 ^ 31 * 2 ^ 32" by simp
    then show "?t < 2 ^ 31" by (intro div_lessI) auto
  qed
  have sign: "- (if bit n 31 then mask 32 else 0) mod (2 ^ 32 :: int) = of_bool (?s < 0)" using r by (simp add: mask_eq_exp_minus_1)
  have q0: "take_bit 32 (take_bit 32 (?t div 2 ^ k) - (if bit n 31 then mask 32 else 0)) = take_bit 32 (?s sdiv \<bar>d\<bar>)"
  proof -
    have "?t div 2 ^ k = (?s * ?m) div 2 ^ (32 + k)" unfolding power_add by (rule zdiv_zmult2_eq [symmetric]) simp
    then have "?t div 2 ^ k + of_bool (?s < 0) = ?s sdiv \<bar>d\<bar>" using signed_magic [OF _ _ k(1,2), of ?s] r by simp
    moreover have "take_bit 32 (take_bit 32 (?t div 2 ^ k) - (if bit n 31 then mask 32 else 0))
        = take_bit 32 (?t div 2 ^ k + of_bool (?s < 0))"
      unfolding take_bit_eq_mod diff_conv_add_uminus sign [symmetric] by (simp only: mod_add_eq mod_add_left_eq mod_add_right_eq)
    ultimately show ?thesis by simp
  qed
  have sd: "?s sdiv d = (if d < 0 then - (?s sdiv \<bar>d\<bar>) else ?s sdiv \<bar>d\<bar>)" using sdiv_abs(2) [OF a0] by simp
  have "sdiv_by (?m - 2 ^ 32, dsign, int k) n = take_bit 32 ((take_bit 32 (?s sdiv \<bar>d\<bar>) XOR take_bit 32 dsign) - take_bit 32 dsign)" for dsign
  proof -
    have m': "2 ^ 32 + (?m - 2 ^ 32) = ?m" by simp
    have "k < 32" using k(3) by simp
    note e = shift_sext [OF t this]
    show ?thesis unfolding sdiv_by_def prod.case Let_def mulsh_eq [OF n] nat_int m' e q0 by (rule refl)
  qed
  then show ?thesis unfolding sd using take_bit_negate [of 32 "?s sdiv \<bar>d\<bar>"]
    by (cases "d < 0") (simp_all add: take_bit_minus_one_eq_mask)
qed

subsection \<open>Multiplication by shifts\<close>

lemma toggle_clear: "\<not> bit a j \<Longrightarrow> a OR 2 ^ j = a + 2 ^ j" "\<not> bit a j \<Longrightarrow> a XOR 2 ^ j = a + 2 ^ j" for a :: int
proof -
  assume "\<not> bit a j"
  then have "a AND 2 ^ j = 0" by (auto intro!: bit_eqI simp: bit_and_iff bit_exp_iff)
  then show "a OR 2 ^ j = a + 2 ^ j" "a XOR 2 ^ j = a + 2 ^ j"
    by (simp_all add: disjunctive_add_eq_or disjunctive_xor_eq_or)
qed

lemma toggle_set: "bit a j \<Longrightarrow> a XOR 2 ^ j = a - 2 ^ j" for a :: int
proof -
  assume "bit a j"
  then have "\<not> bit (a XOR 2 ^ j) j" by (simp add: bit_xor_iff bit_exp_iff)
  from toggle_clear(2) [OF this] have "a = (a XOR 2 ^ j) + 2 ^ j" by (simp add: xor.assoc)
  then show "a XOR 2 ^ j = a - 2 ^ j" by simp
qed

lemma fits_bit: "fits b a \<Longrightarrow> b \<le> n \<Longrightarrow> \<not> bit a n"
  by (metis bit_take_bit_iff not_le take_bit_fits)

lemma fits_exp [simp]: "fits b (2 ^ j) \<longleftrightarrow> j < b"
  by (simp add: fits_def)

lemma and_exp: "a AND 2 ^ j \<noteq> 0 \<longleftrightarrow> bit a j" for a :: int
  by (simp add: and_exp_eq_0_iff_not_bit)

lemma mult_region_ok:
  assumes "fits b add" "fits b sub" "add AND sub = 0" "b \<le> low" "low < high" "high \<le> 64"
  shows "case mult_region low high add sub of (add', sub') \<Rightarrow>
    fits (min (Suc high) 64) add' \<and> fits (min (Suc high) 64) sub' \<and> add' AND sub' = 0
    \<and> take_bit 64 (add' - sub') = take_bit 64 (add - sub + 2 ^ high - 2 ^ low)"
proof -
  let ?b = "min (Suc high) 64"
  have low: "\<not> bit add n" "\<not> bit sub n" if "b \<le> n" for n using fits_bit [OF assms(1) that] fits_bit [OF assms(2) that] by auto
  have f: "fits ?b add" "fits ?b sub" "low < ?b" using assms fits_mono by auto
  have dis: "\<not> (bit add n \<and> bit sub n)" for n using assms(3) by (metis bit_and_iff bit_0_eq bot_apply bot_bool_def)
  have dj: "a AND s = 0" if "\<And>n. \<not> (bit a n \<and> bit s n)" for a s :: int
    using that by (intro bit_eqI) (auto simp: bit_and_iff)
  define c where "c = (if low \<noteq> 0 \<and> add AND drop_bit 1 (2 ^ low) \<noteq> 0
      then (add XOR drop_bit 1 (2 ^ low), sub XOR drop_bit 1 (2 ^ low)) else (add, sub OR 2 ^ low))"
  obtain a s where as: "c = (a, s)" by (cases c)
  have half: "drop_bit 1 (2 ^ low) = (2 ^ (low - 1) :: int)" if "low \<noteq> 0" using that by (cases low) (simp_all add: drop_bit_eq_div)
  have g: "(low \<noteq> 0 \<and> add AND drop_bit 1 (2 ^ low) \<noteq> 0) = (low \<noteq> 0 \<and> bit add (low - 1))"
    using half and_exp [of add "low - 1"] by auto
  have c: "fits ?b a \<and> fits ?b s \<and> a AND s = 0 \<and> a - s = add - sub - 2 ^ low \<and> (\<forall>n > low. \<not> bit a n \<and> \<not> bit s n)"
  proof (cases "low \<noteq> 0 \<and> bit add (low - 1)")
    case True
    then have a: "a = add XOR 2 ^ (low - 1)" "s = sub XOR 2 ^ (low - 1)" and nb: "\<not> bit sub (low - 1)"
      using as half dis [of "low - 1"] unfolding c_def g by auto
    have "a - s = add - sub - 2 * 2 ^ (low - 1)" unfolding a using toggle_set [of add] toggle_clear(2) [OF nb] True by simp
    moreover have "(2::int) * 2 ^ (low - 1) = 2 ^ low" using True by (cases low) simp_all
    moreover have "fits ?b a" "fits ?b s" using f unfolding a by (simp_all add: less_imp_diff_less)
    moreover have "a AND s = 0" unfolding a by (rule dj) (use dis True nb in \<open>auto simp: bit_xor_iff bit_exp_iff\<close>)
    moreover have "\<not> bit a n \<and> \<not> bit s n" if "low < n" for n
      using low [of n] that assms(4) unfolding a by (simp add: bit_xor_iff bit_exp_iff)
    ultimately show ?thesis by simp
  next
    case False
    then have a: "a = add" "s = sub OR 2 ^ low" using as unfolding c_def g by auto
    have "s = sub + 2 ^ low" unfolding a using toggle_clear(1) low(2) [OF assms(4)] by simp
    moreover have "a AND s = 0" unfolding a by (rule dj) (use dis low(1) [OF assms(4)] in \<open>auto simp: bit_or_iff bit_exp_iff\<close>)
    moreover have "\<not> bit a n \<and> \<not> bit s n" if "low < n" for n
      using low [of n] that assms(4) unfolding a by (simp add: bit_or_iff bit_exp_iff)
    moreover have "fits ?b s" using f unfolding a by simp
    ultimately show ?thesis using f unfolding a by simp
  qed
  show ?thesis
  proof (cases "high = low + 1")
    case True
    have "add OR 2 ^ low = add + 2 ^ low" using toggle_clear(1) low(1) [OF assms(4)] by simp
    moreover have "(add OR 2 ^ low) AND sub = 0" by (rule dj) (use dis low(2) [OF assms(4)] in \<open>auto simp: bit_or_iff bit_exp_iff\<close>)
    moreover have "fits ?b (add OR 2 ^ low)" using f by simp
    ultimately show ?thesis using True f by (simp add: mult_region_def algebra_simps)
  next
    case False
    then have m: "mult_region low high add sub = (if high \<noteq> 64 then a OR 2 ^ high else a, s)"
      using as by (simp add: mult_region_def c_def Let_def split: prod.splits)
    show ?thesis
    proof (cases "high = 64")
      case True
      have "take_bit 64 (add - sub + 2 ^ high - 2 ^ low) = take_bit 64 ((add - sub - 2 ^ low) + 2 ^ 64)"
        using True by (simp add: algebra_simps)
      also have "\<dots> = take_bit 64 (add - sub - 2 ^ low)" by (simp add: take_bit_eq_mod)
      finally show ?thesis using c True m by simp
    next
      case False
      have nb: "\<not> bit a high" "\<not> bit s high" using c assms(5) by auto
      have e: "(a OR 2 ^ high) - s = add - sub + 2 ^ high - 2 ^ low" using toggle_clear(1) [OF nb(1)] c by linarith
      have z: "(a OR 2 ^ high) AND s = 0"
      proof (rule dj)
        fix n
        have "\<not> (bit a n \<and> bit s n)" using c by (metis bit_and_iff bit_0_eq bot_apply bot_bool_def)
        then show "\<not> (bit (a OR 2 ^ high) n \<and> bit s n)" using nb(2) by (auto simp: bit_or_iff bit_exp_iff)
      qed
      have fa: "fits ?b (a OR 2 ^ high)" using c False assms(6) by simp
      have "mult_region low high add sub = (a OR 2 ^ high, s)" using m False by simp
      then show ?thesis using c z fa by (simp only: prod.case e)
    qed
  qed
qed

lemma lowest_ge:
  fixes m y :: int
  assumes "2 ^ b * y = 2 ^ i * m" "odd m"
  shows "b \<le> i"
proof (rule ccontr)
  assume "\<not> b \<le> i"
  then have "(2::int) ^ b = 2 ^ i * (2 * 2 ^ (b - Suc i))" by (simp flip: power_Suc power_add)
  then have "2 ^ i * m = 2 ^ i * (2 * 2 ^ (b - Suc i) * y)" using assms(1) by (simp add: mult.assoc)
  then have "m = 2 * 2 ^ (b - Suc i) * y" by simp
  with assms(2) show False by simp
qed

text \<open>One round of the loop: the region found and what is left of the number.\<close>

lemma region:
  assumes x: "fits 64 x" "x \<noteq> 0" "x = 2 ^ b * y"
  defines "p low \<equiv> take_bit 64 (x + 2 ^ low)"
  defines "q low \<equiv> isolateRightmostBit64 (p low)"
  obtains low high z where "indexOfRightmostBit64 x = Some low" "b \<le> low" "low < high" "high \<le> 64"
    "(if q low \<noteq> 0 then indexOfSingleBit64 (q low) else Some 64) = Some high"
    "x = (p low XOR q low) + 2 ^ high - 2 ^ low" "p low XOR q low = 2 ^ (min (Suc high) 64) * z"
    "fits 64 (p low XOR q low)"
proof -
  obtain i m where i: "x = 2 ^ i * m" "odd m" "0 < m" "i < 64" "indexOfRightmostBit64 x = Some i"
    using lowest64 [OF x(1,2)] by metis
  have bi: "b \<le> i" using lowest_ge [of b y i m] i(1,2) x(3) by simp
  have e: "x + 2 ^ i = 2 ^ Suc i * ((m + 1) div 2)" 
  proof -
    obtain z where "m = 2 * z + 1" using i(2) by (elim oddE)
    then show ?thesis by (simp add: i(1) algebra_simps)
  qed
  have le: "x + 2 ^ i \<le> 2 ^ 64"
  proof -
    have "2 ^ i * m < 2 ^ i * 2 ^ (64 - i)" using x(1) i(4) by (simp add: i(1) fits_def flip: power_add)
    then have "m < 2 ^ (64 - i)" by simp
    then have "2 ^ i * (m + 1) \<le> 2 ^ i * 2 ^ (64 - i)" by simp
    then show ?thesis using i(4) by (simp add: i(1) algebra_simps flip: power_add)
  qed
  show thesis
  proof (cases "p i = 0")
    case True
    have "2 ^ 64 dvd x + 2 ^ i" using True by (simp add: p_def take_bit_eq_0_iff)
    moreover have "0 < x + 2 ^ i" using i(3) by (simp add: i(1) add_pos_pos)
    ultimately have "x + 2 ^ i = 2 ^ 64" using zdvd_imp_le le by fastforce
    moreover have "q i = 0" using True by (simp add: q_def isolateRightmostBit64_def)
    moreover from calculation have "x = 2 ^ 64 - 2 ^ i" by linarith
    ultimately show thesis using that [of i 64 0, OF i(5) bi i(4)] True by simp
  next
    case False
    have lt: "x + 2 ^ i < 2 ^ 64"
    proof (rule ccontr)
      assume "\<not> x + 2 ^ i < 2 ^ 64"
      with le have "x + 2 ^ i = 2 ^ 64" by linarith
      with False show False by (simp add: p_def)
    qed
    have "0 \<le> x + 2 ^ i" using i(3) by (simp add: i(1))
    then have p: "p i = x + 2 ^ i" using lt by (simp add: p_def take_bit_int_eq_self)
    have pf: "fits 64 (p i)" by (simp add: p_def)
    obtain h n where h: "p i = 2 ^ h * n" "odd n" "h < 64" "q i = 2 ^ h"
      using lowest64 [OF pf False] unfolding q_def by metis
    have hi: "i < h" using lowest_ge [of "Suc i" "(m + 1) div 2" h n] h(1,2) e p by simp
    have "bit (p i) h" using h(1,2) by (simp add: bit_iff_odd)
    then have r: "p i XOR q i = p i - 2 ^ h" unfolding h(4) by (rule toggle_set)
    obtain z where z: "n = 2 * z + 1" using h(2) by (elim oddE)
    have "p i - 2 ^ h = 2 ^ min (Suc h) 64 * z" unfolding h(1) z using h(3) by (simp add: algebra_simps)
    with r have rz: "p i XOR q i = 2 ^ min (Suc h) 64 * z" by (rule trans)
    have rf: "fits 64 (p i XOR q i)" using pf h(3,4) by simp
    have rx: "x = (p i XOR q i) + 2 ^ h - 2 ^ i" unfolding r using p by linarith
    have hq: "(if q i \<noteq> 0 then indexOfSingleBit64 (q i) else Some 64) = Some h" unfolding h(4) using index64 [OF h(3)] by simp
    show thesis by (rule that [OF i(5) bi hi less_imp_le [OF h(3)] hq rx rz rf])
  qed
qed

lemma mult_loop_ok:
  assumes "fits 64 x" "x = 2 ^ b * y" "fits b add" "fits b sub" "add AND sub = 0" "b \<le> 64"
  shows "returns (mult_loop x add sub) (\<lambda>(a, s). fits 64 a \<and> fits 64 s \<and> a AND s = 0
    \<and> take_bit 64 (a - s) = take_bit 64 (add - sub + x))"
  using assms
proof (induction "nat x" arbitrary: x b y add sub rule: less_induct)
  case less
  show ?case
  proof (cases "x = 0")
    case True
    have "fits 64 add" "fits 64 sub" using less.prems(3,4,6) fits_mono by blast+
    with True less.prems(5) show ?thesis by (subst mult_loop.simps) simp
  next
    case False
    obtain low high z where r: "indexOfRightmostBit64 x = Some low" "b \<le> low" "low < high" "high \<le> 64"
      and h: "(if isolateRightmostBit64 (take_bit 64 (x + 2 ^ low)) \<noteq> 0
          then indexOfSingleBit64 (isolateRightmostBit64 (take_bit 64 (x + 2 ^ low))) else Some 64) = Some high"
      and xx: "x = (take_bit 64 (x + 2 ^ low) XOR isolateRightmostBit64 (take_bit 64 (x + 2 ^ low))) + 2 ^ high - 2 ^ low"
        "take_bit 64 (x + 2 ^ low) XOR isolateRightmostBit64 (take_bit 64 (x + 2 ^ low)) = 2 ^ (min (Suc high) 64) * z"
        "fits 64 (take_bit 64 (x + 2 ^ low) XOR isolateRightmostBit64 (take_bit 64 (x + 2 ^ low)))"
      by (rule region [OF less.prems(1) False less.prems(2)])
    define x' where "x' = take_bit 64 (x + 2 ^ low) XOR isolateRightmostBit64 (take_bit 64 (x + 2 ^ low))"
    note xx = xx [folded x'_def]
    obtain a s where m: "mult_region low high add sub = (a, s)" by fastforce
    have step: "mult_loop x add sub = mult_loop x' a s"
      by (subst mult_loop.simps) (simp only: False r(1) h m Let_def x'_def if_False bind.bind_lunit prod.case)
    have ok: "fits (min (Suc high) 64) a" "fits (min (Suc high) 64) s" "a AND s = 0"
        "take_bit 64 (a - s) = take_bit 64 (add - sub + 2 ^ high - 2 ^ low)"
      using mult_region_ok [OF less.prems(3,4,5) r(2,3,4)] m by auto
    have "(2::int) ^ low < 2 ^ high" using r(3) by simp
    then have "nat x' < nat x" using xx(1,3) fits_nonneg [OF xx(3)] by linarith
    from less.hyps [OF this xx(3,2) ok(1,2,3)]
    have "returns (mult_loop x' a s) (\<lambda>(a', s'). fits 64 a' \<and> fits 64 s' \<and> a' AND s' = 0 \<and> take_bit 64 (a' - s') = take_bit 64 (a - s + x'))"
      by simp
    moreover have "take_bit 64 (a - s + x') = take_bit 64 (add - sub + x)"
    proof -
      have "take_bit 64 (a - s + x') = take_bit 64 ((add - sub + 2 ^ high - 2 ^ low) + x')" using ok(4) by (metis take_bit_add)
      also have "(add - sub + 2 ^ high - 2 ^ low) + x' = add - sub + x" using xx(1) by linarith
      finally show ?thesis .
    qed
    ultimately show ?thesis unfolding step by simp
  qed
qed

lemma ComputeMultConstants64_ok:
  assumes "fits 64 x"
  shows "returns (ComputeMultConstants64 x) (\<lambda>(a, s). fits 64 a \<and> fits 64 s \<and> a AND s = 0 \<and> take_bit 64 (a - s) = x)"
  using mult_loop_ok [of x 0 x 0 0] assms unfolding ComputeMultConstants64_def
  by (auto simp: returns_iff)

lemma division_constants_exist:
  fixes d :: int
  assumes "2 \<le> \<bar>d\<bar>" "- (2 ^ 31) \<le> d" "d < 2 ^ 31"
  obtains k where "2 ^ k < \<bar>d\<bar>" "\<bar>d\<bar> \<le> 2 ^ Suc k" "k < (31::nat)"
proof -
  have le: "\<bar>d\<bar> \<le> 2 ^ 31" using assms unfolding abs_le_iff by linarith
  then have "1 < \<bar>d\<bar>" "\<bar>d\<bar> < 2 ^ 32" using assms(1) by simp_all
  then obtain k where k: "2 ^ k < \<bar>d\<bar>" "\<bar>d\<bar> \<le> 2 ^ Suc k" by (rule log2_exists)
  then have "(2::int) ^ k < 2 ^ 31" using le by linarith
  then have "k < 31" by (rule power_less_imp_less_exp [rotated]) simp
  with that k show thesis by blast
qed

text \<open>
  C23. For every 64-bit multiplicand \<^verbatim>\<open>ComputeMultConstants64\<close> ends with two constants without a common bit whose
  difference is the multiplicand modulo \<open>2^64\<close>; its assertion holds.
\<close>

theorem mult_constants_correct:
  assumes "fits 64 x"
  shows "\<exists>a s. ComputeMultConstants64 x = Some (a, s) \<and> fits 64 a \<and> fits 64 s \<and> a AND s = 0 \<and> take_bit 64 (a - s) = x"
  using ComputeMultConstants64_ok [OF assms] by (auto simp: returns_iff)

theorem mult_constants_correct_witness:
  "\<exists>a s. ComputeMultConstants64 0xF0F7 = Some (a, s) \<and> fits 64 a \<and> fits 64 s \<and> a AND s = 0 \<and> take_bit 64 (a - s) = 0xF0F7"
  by (rule mult_constants_correct) (simp add: fits_def)

text \<open>
  C24. The constants of \<^verbatim>\<open>ComputeUDivConstants32\<close> divide: for every divisor other than 0 and every 32-bit number,
  the multiplication and the two shifts they prescribe give the quotient. Those of \<^verbatim>\<open>ComputeSDivConstants32\<close>
  give the signed quotient, rounded towards zero, for every divisor other than 0, 1 and -1 (the builder does not use them for those).
\<close>

theorem division_constants_correct:
  assumes "fits 32 n"
  shows "(\<forall>d. fits 32 d \<longrightarrow> d \<noteq> 0 \<longrightarrow> (\<exists>c. ComputeUDivConstants32 d = Some c \<and> udiv_by c n = n div d))
    \<and> (\<forall>d. - (2 ^ 31) \<le> d \<longrightarrow> d < 2 ^ 31 \<longrightarrow> 2 \<le> \<bar>d\<bar> \<longrightarrow>
         (\<exists>c. ComputeSDivConstants32 d = Some c \<and> sdiv_by c n = take_bit 32 (ap_signed 32 n sdiv d)))"
proof (intro conjI allI impI)
  fix d :: int assume "fits 32 d" "d \<noteq> 0"
  then have "0 < d" "d < 2 ^ 32" by (simp_all add: fits_def)
  from ComputeUDivConstants32_ok [OF this] assms
  show "\<exists>c. ComputeUDivConstants32 d = Some c \<and> udiv_by c n = n div d" by metis
next
  fix d :: int assume d: "- (2 ^ 31) \<le> d" "d < 2 ^ 31" "2 \<le> \<bar>d\<bar>"
  obtain k where "2 ^ k < \<bar>d\<bar>" "\<bar>d\<bar> \<le> 2 ^ Suc k" "k < (31::nat)" by (rule division_constants_exist [OF d(3,1,2)])
  from ComputeSDivConstants32_eq [OF this d(2)] sdiv_by_eq [OF this assms]
  show "\<exists>c. ComputeSDivConstants32 d = Some c \<and> sdiv_by c n = take_bit 32 (ap_signed 32 n sdiv d)" by blast
qed

theorem division_constants_correct_witness:
  "(\<exists>c. ComputeUDivConstants32 7 = Some c \<and> udiv_by c 100 = 100 div 7)
    \<and> (\<exists>c. ComputeSDivConstants32 (-7) = Some c \<and> sdiv_by c 100 = take_bit 32 (ap_signed 32 100 sdiv (-7)))"
proof
  note c = division_constants_correct [of 100]
  show "\<exists>c. ComputeUDivConstants32 7 = Some c \<and> udiv_by c 100 = 100 div 7"
    using c [THEN conjunct1, rule_format, of 7] by (simp add: fits_def)
  show "\<exists>c. ComputeSDivConstants32 (-7) = Some c \<and> sdiv_by c 100 = take_bit 32 (ap_signed 32 100 sdiv (-7))"
    by (rule c [THEN conjunct2, rule_format, of "-7"]) (simp_all add: fits_def)
qed

end
