(* ===== verification/STPBuilder.thy ===== *)
theory STPBuilder
  imports ExprCreate ConstantDivision
begin

text \<open>
  \<^verbatim>\<open>lib/Solver/STPBuilder.cpp\<close>: the translation of expressions into terms of the solver STP. The functions of
  STP's C interface that the builder calls are the fields of the record \<open>stp\<close>, a parameter: terms are a type
  variable and every call is a function of its arguments. A failed assertion is \<^term>\<open>None\<close>. The builder's state
  holds the three tables: terms of arrays, of update nodes, and of expressions of the current query.

  The table of update nodes is keyed by the address of the node, compared by \<^verbatim>\<open>UpdateNodeCmpFn\<close> as a pointer, and holds
  no reference to it: an entry outlives its node. Update nodes are values here; where they are in memory during a
  query is the parameter \<open>adr\<close>, the address of the node that holds an array's chain of updates. (Two nodes with the
  same contents in the same array count as one. Buckets are not modelled; \<^verbatim>\<open>UpdateNode::computeHash\<close> gives
  equal hashes to equal updates, whatever the array.)
\<close>

record 'v stp =
  vc_trueExpr :: 'v
  vc_falseExpr :: 'v
  vc_arrayVar :: "string \<Rightarrow> nat \<Rightarrow> nat \<Rightarrow> 'v"
  vc_bvConstExprFromInt :: "nat \<Rightarrow> int \<Rightarrow> 'v"
  vc_bvConstExprFromLL :: "nat \<Rightarrow> int \<Rightarrow> 'v"
  vc_bvConcatExpr :: "'v \<Rightarrow> 'v \<Rightarrow> 'v"
  vc_bvExtract :: "'v \<Rightarrow> nat \<Rightarrow> nat \<Rightarrow> 'v"
  vc_bvSignExtend :: "'v \<Rightarrow> nat \<Rightarrow> 'v"
  vc_bvPlusExpr :: "nat \<Rightarrow> 'v \<Rightarrow> 'v \<Rightarrow> 'v"
  vc_bvMinusExpr :: "nat \<Rightarrow> 'v \<Rightarrow> 'v \<Rightarrow> 'v"
  vc_bvUMinusExpr :: "'v \<Rightarrow> 'v"
  vc_bvMultExpr :: "nat \<Rightarrow> 'v \<Rightarrow> 'v \<Rightarrow> 'v"
  vc_bvDivExpr :: "nat \<Rightarrow> 'v \<Rightarrow> 'v \<Rightarrow> 'v"
  vc_sbvDivExpr :: "nat \<Rightarrow> 'v \<Rightarrow> 'v \<Rightarrow> 'v"
  vc_bvModExpr :: "nat \<Rightarrow> 'v \<Rightarrow> 'v \<Rightarrow> 'v"
  vc_sbvRemExpr :: "nat \<Rightarrow> 'v \<Rightarrow> 'v \<Rightarrow> 'v"
  vc_bvNotExpr :: "'v \<Rightarrow> 'v"
  vc_bvAndExpr :: "'v \<Rightarrow> 'v \<Rightarrow> 'v"
  vc_bvOrExpr :: "'v \<Rightarrow> 'v \<Rightarrow> 'v"
  vc_bvXorExpr :: "'v \<Rightarrow> 'v \<Rightarrow> 'v"
  vc_notExpr :: "'v \<Rightarrow> 'v"
  vc_andExpr :: "'v \<Rightarrow> 'v \<Rightarrow> 'v"
  vc_orExpr :: "'v \<Rightarrow> 'v \<Rightarrow> 'v"
  vc_iffExpr :: "'v \<Rightarrow> 'v \<Rightarrow> 'v"
  vc_iteExpr :: "'v \<Rightarrow> 'v \<Rightarrow> 'v \<Rightarrow> 'v"
  vc_eqExpr :: "'v \<Rightarrow> 'v \<Rightarrow> 'v"
  vc_bvLtExpr :: "'v \<Rightarrow> 'v \<Rightarrow> 'v"
  vc_bvLeExpr :: "'v \<Rightarrow> 'v \<Rightarrow> 'v"
  vc_sbvLtExpr :: "'v \<Rightarrow> 'v \<Rightarrow> 'v"
  vc_sbvLeExpr :: "'v \<Rightarrow> 'v \<Rightarrow> 'v"
  vc_readExpr :: "'v \<Rightarrow> 'v \<Rightarrow> 'v"
  vc_writeExpr :: "'v \<Rightarrow> 'v \<Rightarrow> 'v \<Rightarrow> 'v"
  vc_getBVLength :: "'v \<Rightarrow> nat"

record 'v builder =
  array_hash :: "(array \<times> 'v) list"
  update_node_hash :: "(nat \<times> 'v) list"
  constructed :: "(expr \<times> 'v \<times> nat) list"

record builder_options =
  UseConstructHash :: bool
  optimizeDivides :: bool

definition STPBuilder_new :: "'v builder" where
  "STPBuilder_new = \<lparr>array_hash = [], update_node_hash = [], constructed = []\<rparr>"

subsection \<open>Constants and shifts\<close>

definition buildArray :: "'v stp \<Rightarrow> string \<Rightarrow> nat \<Rightarrow> nat \<Rightarrow> 'v" where
  "buildArray vc name indexWidth valueWidth = vc_arrayVar vc name indexWidth valueWidth"

definition bvConst32 :: "'v stp \<Rightarrow> nat \<Rightarrow> int \<Rightarrow> 'v" where
  "bvConst32 vc width v = vc_bvConstExprFromInt vc width v"

definition bvConst64 :: "'v stp \<Rightarrow> nat \<Rightarrow> int \<Rightarrow> 'v" where
  "bvConst64 vc width v = vc_bvConstExprFromLL vc width v"

fun bvZExtConst_loop :: "'v stp \<Rightarrow> nat \<Rightarrow> 'v \<Rightarrow> 'v" where
  "bvZExtConst_loop vc width e =
     (if 64 < width then bvZExtConst_loop vc (width - 64) (vc_bvConcatExpr vc (bvConst64 vc 64 0) e)
      else vc_bvConcatExpr vc (bvConst64 vc width 0) e)"

declare bvZExtConst_loop.simps [simp del]

definition bvZExtConst :: "'v stp \<Rightarrow> nat \<Rightarrow> int \<Rightarrow> 'v" where
  "bvZExtConst vc width v =
     (if width \<le> 64 then bvConst64 vc width v else bvZExtConst_loop vc (width - 64) (bvConst64 vc 64 v))"

definition bvSExtConst :: "'v stp \<Rightarrow> nat \<Rightarrow> int \<Rightarrow> 'v" where
  "bvSExtConst vc width v =
     (if width \<le> 64 then bvConst64 vc width v else vc_bvSignExtend vc (bvConst64 vc 64 v) width)"

definition bvOne :: "'v stp \<Rightarrow> nat \<Rightarrow> 'v" where
  "bvOne vc width = bvZExtConst vc width 1"

definition bvZero :: "'v stp \<Rightarrow> nat \<Rightarrow> 'v" where
  "bvZero vc width = bvZExtConst vc width 0"

definition bvMinusOne :: "'v stp \<Rightarrow> nat \<Rightarrow> 'v" where
  "bvMinusOne vc width = bvSExtConst vc width (take_bit 64 (-1))"

definition bvExtract :: "'v stp \<Rightarrow> 'v \<Rightarrow> nat \<Rightarrow> nat \<Rightarrow> 'v" where
  "bvExtract vc e hi lo = vc_bvExtract vc e hi lo"

definition bvBoolExtract :: "'v stp \<Rightarrow> 'v \<Rightarrow> nat \<Rightarrow> 'v" where
  "bvBoolExtract vc e b = vc_eqExpr vc (bvExtract vc e b b) (bvOne vc 1)"

definition eqExpr :: "'v stp \<Rightarrow> 'v \<Rightarrow> 'v \<Rightarrow> 'v option" where
  "eqExpr vc a b = do { assert_that (vc_getBVLength vc a = vc_getBVLength vc b); Some (vc_eqExpr vc a b) }"

definition bvRightShift :: "'v stp \<Rightarrow> 'v \<Rightarrow> nat \<Rightarrow> 'v" where
  "bvRightShift vc e shift =
     (let width = vc_getBVLength vc e in
      if shift = 0 then e
      else if width \<le> shift then bvZero vc width
      else vc_bvConcatExpr vc (bvZero vc shift) (bvExtract vc e (width - 1) shift))"

definition bvLeftShift :: "'v stp \<Rightarrow> 'v \<Rightarrow> nat \<Rightarrow> 'v" where
  "bvLeftShift vc e shift =
     (let width = vc_getBVLength vc e in
      if shift = 0 then e
      else if width \<le> shift then bvZero vc width
      else vc_bvConcatExpr vc (bvExtract vc e (width - shift - 1) 0) (bvZero vc shift))"

text \<open>\<^verbatim>\<open>APInt::getActiveBits\<close>.\<close>

fun getActiveBits :: "nat \<Rightarrow> nat" where
  "getActiveBits n = (if n = 0 then 0 else Suc (getActiveBits (n div 2)))"

declare getActiveBits.simps [simp del]

definition extractPartialShiftValue :: "'v stp \<Rightarrow> 'v \<Rightarrow> nat \<Rightarrow> 'v \<times> nat" where
  "extractPartialShiftValue vc shift width =
     (let shiftBits = getActiveBits width in (vc_bvExtract vc shift (shiftBits - 1) 0, shiftBits))"

text \<open>One case per shift amount: the if-then-else chain the three variable shifts build.\<close>

definition shift_cases :: "'v stp \<Rightarrow> 'v \<times> nat \<Rightarrow> (nat \<Rightarrow> 'v) \<Rightarrow> nat list \<Rightarrow> 'v \<Rightarrow> 'v option" where
  "shift_cases vc ext f is res = (case ext of (shift_ext, shiftBits) \<Rightarrow>
     fold_abort (\<lambda>i res. do { c \<leftarrow> eqExpr vc shift_ext (bvConst32 vc shiftBits (int i)); Some (vc_iteExpr vc c (f i) res) }) is res)"

definition overshift_zero :: "'v stp \<Rightarrow> 'v \<Rightarrow> nat \<Rightarrow> 'v \<Rightarrow> 'v" where
  "overshift_zero vc shift width res =
     vc_iteExpr vc (vc_bvLtExpr vc shift (bvConst32 vc (vc_getBVLength vc shift) (int width))) res (bvZero vc width)"

definition bvVarLeftShift :: "'v stp \<Rightarrow> 'v \<Rightarrow> 'v \<Rightarrow> 'v option" where
  "bvVarLeftShift vc e shift =
     (let width = vc_getBVLength vc e; ext = extractPartialShiftValue vc shift width in
      do { res \<leftarrow> shift_cases vc ext (bvLeftShift vc e) (rev [0..<width]) (bvZero vc width);
           Some (overshift_zero vc shift width res) })"

definition bvVarRightShift :: "'v stp \<Rightarrow> 'v \<Rightarrow> 'v \<Rightarrow> 'v option" where
  "bvVarRightShift vc e shift =
     (let width = vc_getBVLength vc e; ext = extractPartialShiftValue vc shift width in
      do { res \<leftarrow> shift_cases vc ext (bvRightShift vc e) (rev [0..<width]) (bvZero vc width);
           Some (overshift_zero vc shift width res) })"

definition constructAShrByConstant :: "'v stp \<Rightarrow> 'v \<Rightarrow> nat \<Rightarrow> 'v \<Rightarrow> 'v" where
  "constructAShrByConstant vc e shift isSigned =
     (let width = vc_getBVLength vc e in
      if shift = 0 then e
      else if width \<le> shift then bvZero vc width
      else vc_iteExpr vc isSigned (vc_bvConcatExpr vc (bvMinusOne vc shift) (bvExtract vc e (width - 1) shift))
             (bvRightShift vc e shift))"

definition bvVarArithRightShift :: "'v stp \<Rightarrow> 'v \<Rightarrow> 'v \<Rightarrow> 'v option" where
  "bvVarArithRightShift vc e shift =
     (let width = vc_getBVLength vc e; ext = extractPartialShiftValue vc shift width;
          signedBool = bvBoolExtract vc e (width - 1);
          res = constructAShrByConstant vc e (width - 1) signedBool in
      do { res \<leftarrow> shift_cases vc ext (\<lambda>i. constructAShrByConstant vc e i signedBool) (rev [0..<width - 1]) res;
           Some (overshift_zero vc shift width res) })"

subsection \<open>Multiplication and division by constants\<close>

definition mul_bit :: "'v stp \<Rightarrow> 'v \<Rightarrow> nat \<Rightarrow> int \<Rightarrow> int \<Rightarrow> nat \<Rightarrow> 'v option \<Rightarrow> 'v option option" where
  "mul_bit vc e width add sub j res =
     (if bit add j \<or> bit sub j
      then do { assert_that (\<not> (bit add j \<and> bit sub j));
                let op = bvLeftShift vc e j in
                Some (Some (if bit add j
                            then (case res of Some r \<Rightarrow> vc_bvPlusExpr vc width r op | None \<Rightarrow> op)
                            else (case res of Some r \<Rightarrow> vc_bvMinusExpr vc width r op | None \<Rightarrow> vc_bvUMinusExpr vc op))) }
      else Some res)"

definition constructMulByConstant :: "'v stp \<Rightarrow> 'v \<Rightarrow> nat \<Rightarrow> int \<Rightarrow> 'v option" where
  "constructMulByConstant vc e width x =
     do { (add, sub) \<leftarrow> ComputeMultConstants64 x;
          add \<leftarrow> truncateToNBits64 add width;
          sub \<leftarrow> truncateToNBits64 sub width;
          res \<leftarrow> fold_abort (mul_bit vc e width add sub) (rev [0..<64]) None;
          Some (case res of Some r \<Rightarrow> r | None \<Rightarrow> bvZero vc width) }"

definition constructUDivByConstant :: "'v stp \<Rightarrow> 'v \<Rightarrow> nat \<Rightarrow> int \<Rightarrow> 'v option" where
  "constructUDivByConstant vc expr_n width d =
     do { assert_that (width = 32);
          (mprime, sh1, sh2) \<leftarrow> ComputeUDivConstants32 (take_bit 32 d);
          let expr_sh1 = bvConst32 vc 32 sh1; expr_sh2 = bvConst32 vc 32 sh2;
              expr_n_64 = vc_bvConcatExpr vc (bvZero vc 32) expr_n in
          do { t1_64bits \<leftarrow> constructMulByConstant vc expr_n_64 64 mprime;
               let t1 = vc_bvExtract vc t1_64bits 63 32; n_minus_t1 = vc_bvMinusExpr vc width expr_n t1 in
               do { shift_sh1 \<leftarrow> bvVarRightShift vc n_minus_t1 expr_sh1;
                    bvVarRightShift vc (vc_bvPlusExpr vc width shift_sh1 t1) expr_sh2 } } }"

definition constructSDivByConstant :: "'v stp \<Rightarrow> 'v \<Rightarrow> nat \<Rightarrow> int \<Rightarrow> 'v option" where
  "constructSDivByConstant vc expr_n width d =
     do { assert_that (width = 32);
          (mprime, dsign, shpost) \<leftarrow> ComputeSDivConstants32 (signed_take_bit 31 d);
          let expr_dsign = bvConst32 vc 32 (take_bit 32 dsign); expr_shpost = bvConst32 vc 32 (take_bit 32 shpost);
              mprime_64 = take_bit 64 mprime;
              expr_n_64 = vc_bvSignExtend vc expr_n 64 in
          do { mult_64 \<leftarrow> constructMulByConstant vc expr_n_64 64 mprime_64;
               let mulsh = vc_bvExtract vc mult_64 63 32;
                   n_plus_mulsh = vc_bvPlusExpr vc width expr_n mulsh;
                   extend_npm = vc_bvSignExtend vc n_plus_mulsh 64 in
               do { shift_npm \<leftarrow> bvVarRightShift vc extend_npm expr_shpost;
                    let shift_shpost = vc_bvExtract vc shift_npm 31 0;
                        is_signed = bvBoolExtract vc expr_n 31;
                        xsign_of_n = vc_iteExpr vc is_signed (bvMinusOne vc 32) (bvZero vc 32);
                        q0 = vc_bvMinusExpr vc width shift_shpost xsign_of_n;
                        q0_xor_dsign = vc_bvXorExpr vc q0 expr_dsign in
                    Some (vc_bvMinusExpr vc width q0_xor_dsign expr_dsign) } } }"

subsection \<open>Constants and arrays\<close>

function construct_const_loop :: "'v stp \<Rightarrow> const_expr \<Rightarrow> 'v \<Rightarrow> 'v option" where
  "construct_const_loop vc tmp res =
     (if 64 < ce_width tmp
      then do { tmp \<leftarrow> CE_Extract tmp 64 (ce_width tmp - 64);
                let width = min 64 (ce_width tmp) in
                do { part \<leftarrow> CE_Extract tmp 0 width;
                     v \<leftarrow> ce_getZExtValue part 64;
                     construct_const_loop vc tmp (vc_bvConcatExpr vc (bvConst64 vc width v) res) } }
      else Some res)"
  by pat_completeness auto

termination
proof (relation "measure (\<lambda>(_, c, _). ce_width c)")
  fix vc :: "'v stp" and tmp tmp' :: const_expr and res x xa xb
  assume "64 < ce_width tmp" "CE_Extract tmp 64 (ce_width tmp - 64) = Some tmp'"
  then show "((vc, tmp', vc_bvConcatExpr vc (bvConst64 vc x xb) res), vc, tmp, res) \<in> measure (\<lambda>(_, c, _). ce_width c)"
    by (cases tmp) (auto simp: bind_eq_Some_conv)
qed simp

declare construct_const_loop.simps [simp del]

definition construct_const :: "'v stp \<Rightarrow> const_expr \<Rightarrow> ('v \<times> nat) option" where
  "construct_const vc c =
     (let width = ce_width c in
      if width = 1 then Some (if ce_isTrue c then vc_trueExpr vc else vc_falseExpr vc, width)
      else if width \<le> 32 then do { v \<leftarrow> ce_getZExtValue c 32; Some (bvConst32 vc width v, width) }
      else if width \<le> 64 then do { v \<leftarrow> ce_getZExtValue c 64; Some (bvConst64 vc width v, width) }
      else do { low \<leftarrow> CE_Extract c 0 64; v \<leftarrow> ce_getZExtValue low 64;
                res \<leftarrow> construct_const_loop vc c (bvConst64 vc 64 v);
                Some (res, width) })"

text \<open>\<^verbatim>\<open>llvm::itostr\<close> of a number that is not negative, and the name STP knows an array by.\<close>

fun itostr :: "nat \<Rightarrow> string" where
  "itostr n = (if n < 10 then [char_of (48 + n)] else itostr (n div 10) @ [char_of (48 + n mod 10)])"

declare itostr.simps [simp del]

definition unique_name :: "array \<Rightarrow> nat \<Rightarrow> string" where
  "unique_name root n =
     (let unique_id = itostr n;
          uid_length = length unique_id;
          space = (if 32 - uid_length < length (arr_name root) then 32 - uid_length else length (arr_name root)) in
      take space (arr_name root) @ unique_id)"

definition write_const :: "'v stp \<Rightarrow> array \<Rightarrow> nat \<Rightarrow> 'v \<Rightarrow> 'v option" where
  "write_const vc root i prev =
     do { (ix, _) \<leftarrow> construct_const vc (ce_alloc (int i) (arr_domain root));
          (v, _) \<leftarrow> construct_const vc (constantValues root ! i);
          Some (vc_writeExpr vc prev ix v) }"

definition getInitialArray :: "'v stp \<Rightarrow> array \<Rightarrow> 'v builder \<Rightarrow> ('v \<times> 'v builder) option" where
  "getInitialArray vc root B =
     (case map_of (array_hash B) root of
        Some v \<Rightarrow> Some (v, B)
      | None \<Rightarrow>
          let array_expr = buildArray vc (unique_name root (length (array_hash B))) (arr_domain root) (arr_range root) in
          do { array_expr \<leftarrow> (if isConstantArray root then fold_abort (write_const vc root) [0..<arr_size root] array_expr
                              else Some array_expr);
               Some (array_expr, B\<lparr>array_hash := (root, array_expr) # array_hash B\<rparr>) })"

definition getInitialRead :: "'v stp \<Rightarrow> array \<Rightarrow> nat \<Rightarrow> 'v builder \<Rightarrow> ('v \<times> 'v builder) option" where
  "getInitialRead vc root index B =
     do { (a, B) \<leftarrow> getInitialArray vc root B; Some (vc_readExpr vc a (bvConst32 vc 32 (int index)), B) }"

subsection \<open>Expressions\<close>

type_synonym 'v build = "'v builder \<Rightarrow> (('v \<times> nat) \<times> 'v builder) option"

definition construct_memo :: "builder_options \<Rightarrow> expr \<Rightarrow> 'v build \<Rightarrow> 'v build" where
  "construct_memo opt e actual B =
     (if \<not> UseConstructHash opt \<or> is_ConstantExpr e then actual B
      else case List.find (\<lambda>(e', _). expr_eq e' e) (constructed B) of
             Some (_, r) \<Rightarrow> Some (r, B)
           | None \<Rightarrow> do { (r, B) \<leftarrow> actual B; Some (r, B\<lparr>constructed := (e, r) # constructed B\<rparr>) })"

text \<open>The kinds whose operands are both built before the term is.\<close>

definition arith_term :: "'v stp \<Rightarrow> bkind \<Rightarrow> 'v \<Rightarrow> 'v \<Rightarrow> nat \<Rightarrow> ('v \<times> nat) option" where
  "arith_term vc k left right width =
     do { assert_that (width \<noteq> 1);
          Some (case k of
                  Add \<Rightarrow> vc_bvPlusExpr vc width left right
                | Sub \<Rightarrow> vc_bvMinusExpr vc width left right
                | _ \<Rightarrow> vc_sbvRemExpr vc width left right, width) }"

definition bitwise_term :: "'v stp \<Rightarrow> bkind \<Rightarrow> 'v \<Rightarrow> 'v \<Rightarrow> nat \<Rightarrow> 'v \<times> nat" where
  "bitwise_term vc k left right width =
     (case k of
        And \<Rightarrow> if width = 1 then vc_andExpr vc left right else vc_bvAndExpr vc left right
      | Or \<Rightarrow> if width = 1 then vc_orExpr vc left right else vc_bvOrExpr vc left right
      | _ \<Rightarrow> if width = 1 then vc_iteExpr vc left (vc_notExpr vc right) right else vc_bvXorExpr vc left right, width)"

definition eq_term :: "'v stp \<Rightarrow> expr \<Rightarrow> 'v \<Rightarrow> 'v \<Rightarrow> nat \<Rightarrow> 'v \<times> nat" where
  "eq_term vc l left right width =
     (if width = 1
      then (case l of
              ConstantExpr c \<Rightarrow> (if ce_isTrue c then right else vc_notExpr vc right, width)
            | _ \<Rightarrow> (vc_iffExpr vc left right, width))
      else (vc_eqExpr vc left right, 1))"

definition compare_term :: "'v stp \<Rightarrow> bkind \<Rightarrow> 'v \<Rightarrow> 'v \<Rightarrow> nat \<Rightarrow> ('v \<times> nat) option" where
  "compare_term vc k left right width =
     do { assert_that (width \<noteq> 1);
          Some (case k of
                  Ult \<Rightarrow> vc_bvLtExpr vc left right
                | Ule \<Rightarrow> vc_bvLeExpr vc left right
                | Slt \<Rightarrow> vc_sbvLtExpr vc left right
                | _ \<Rightarrow> vc_sbvLeExpr vc left right, 1) }"

definition binary_term :: "'v stp \<Rightarrow> bkind \<Rightarrow> expr \<Rightarrow> 'v \<Rightarrow> 'v \<Rightarrow> nat \<Rightarrow> ('v \<times> nat) option" where
  "binary_term vc k l left right width =
     (if k \<in> {Add, Sub, SRem} then arith_term vc k left right width
      else if k \<in> {And, Or, Xor} then Some (bitwise_term vc k left right width)
      else if k = Eq then Some (eq_term vc l left right width)
      else if k \<in> {Ult, Ule, Slt, Sle} then compare_term vc k left right width
      else None)"

lemmas binary_term_defs = binary_term_def arith_term_def bitwise_term_def eq_term_def compare_term_def

text \<open>
  Multiplications, divisions and remainders by a constant: \<^term>\<open>Some None\<close> if there is no special case and the
  general term is built.
\<close>

definition mul_by_const :: "'v stp \<Rightarrow> expr \<Rightarrow> 'v \<Rightarrow> nat \<Rightarrow> 'v option option" where
  "mul_by_const vc l right width =
     (case l of
        ConstantExpr c \<Rightarrow>
          if ce_width c \<le> 64
          then do { x \<leftarrow> ce_getZExtValue c 64; v \<leftarrow> constructMulByConstant vc right width x; Some (Some v) }
          else Some None
      | _ \<Rightarrow> Some None)"

definition udiv_by_const :: "builder_options \<Rightarrow> 'v stp \<Rightarrow> 'v \<Rightarrow> nat \<Rightarrow> expr \<Rightarrow> 'v option option" where
  "udiv_by_const opt vc left width r =
     (case r of
        ConstantExpr c \<Rightarrow>
          if ce_width c \<le> 64
          then do { divisor \<leftarrow> ce_getZExtValue c 64;
                    if isPowerOfTwo64 divisor
                    then do { i \<leftarrow> indexOfSingleBit64 divisor; Some (Some (bvRightShift vc left i)) }
                    else if optimizeDivides opt \<and> width = 32
                    then do { v \<leftarrow> constructUDivByConstant vc left width (take_bit 32 divisor); Some (Some v) }
                    else Some None }
          else Some None
      | _ \<Rightarrow> Some None)"

definition sdiv_by_const :: "builder_options \<Rightarrow> 'v stp \<Rightarrow> 'v \<Rightarrow> nat \<Rightarrow> expr \<Rightarrow> 'v option option" where
  "sdiv_by_const opt vc left width r =
     (case r of
        ConstantExpr c \<Rightarrow>
          if optimizeDivides opt \<and> ce_value c \<noteq> take_bit (ce_width c) 1 \<and> ce_value c \<noteq> take_bit (ce_width c) (-1) \<and> width = 32
          then do { d \<leftarrow> ce_getZExtValue c 32; v \<leftarrow> constructSDivByConstant vc left width d; Some (Some v) }
          else Some None
      | _ \<Rightarrow> Some None)"

definition urem_by_const :: "builder_options \<Rightarrow> 'v stp \<Rightarrow> 'v \<Rightarrow> nat \<Rightarrow> expr \<Rightarrow> 'v option option" where
  "urem_by_const opt vc left width r =
     (case r of
        ConstantExpr c \<Rightarrow>
          if ce_width c \<le> 64
          then do { divisor \<leftarrow> ce_getZExtValue c 64;
                    if isPowerOfTwo64 divisor
                    then do { bits \<leftarrow> indexOfSingleBit64 divisor;
                              Some (Some (if bits = 0 then bvZero vc width
                                          else vc_bvConcatExpr vc (bvZero vc (width - bits)) (bvExtract vc left (bits - 1) 0))) }
                    else if optimizeDivides opt \<and> width = 32
                    then do { quotient \<leftarrow> constructUDivByConstant vc left width (take_bit 32 divisor);
                              quot_times_divisor \<leftarrow> constructMulByConstant vc quotient width divisor;
                              Some (Some (vc_bvMinusExpr vc width left quot_times_divisor)) }
                    else Some None }
          else Some None
      | _ \<Rightarrow> Some None)"

text \<open>A shift by a constant: \<^verbatim>\<open>(unsigned) CE->getLimitedValue()\<close>.\<close>

definition const_shift :: "const_expr \<Rightarrow> nat" where
  "const_shift c = nat (take_bit 32 (ce_getLimitedValue c (2 ^ 64 - 1)))"

type_synonym node_addresses = "array \<Rightarrow> unode \<Rightarrow> nat"

fun construct :: "builder_options \<Rightarrow> 'v stp \<Rightarrow> node_addresses \<Rightarrow> expr \<Rightarrow> 'v build"
  and constructActual :: "builder_options \<Rightarrow> 'v stp \<Rightarrow> node_addresses \<Rightarrow> expr \<Rightarrow> 'v build"
  and getArrayForUpdate :: "builder_options \<Rightarrow> 'v stp \<Rightarrow> node_addresses \<Rightarrow> array \<Rightarrow> unode \<Rightarrow> 'v builder \<Rightarrow> ('v \<times> 'v builder) option" where
  "construct opt vc adr e = construct_memo opt e (constructActual opt vc adr e)"
| "constructActual opt vc adr (ConstantExpr c) = (\<lambda>B. do { r \<leftarrow> construct_const vc c; Some (r, B) })"
| "constructActual opt vc adr (NotOptimizedExpr e) = construct opt vc adr e"
| "constructActual opt vc adr (ReadExpr s root us i) =
     (\<lambda>B. do { (a, B) \<leftarrow> getArrayForUpdate opt vc adr root us B;
               ((ix, _), B) \<leftarrow> construct opt vc adr i B;
               Some ((vc_readExpr vc a ix, arr_range root), B) })"
| "constructActual opt vc adr (SelectExpr c t f) =
     (\<lambda>B. do { ((cond, _), B) \<leftarrow> construct opt vc adr c B;
               ((tExpr, _), B) \<leftarrow> construct opt vc adr t B;
               ((fExpr, w), B) \<leftarrow> construct opt vc adr f B;
               Some ((vc_iteExpr vc cond tExpr fExpr, w), B) })"
| "constructActual opt vc adr (ConcatExpr l r) =
     (\<lambda>B. do { ((res, _), B) \<leftarrow> construct opt vc adr r B;
               ((left, _), B) \<leftarrow> construct opt vc adr l B;
               Some ((vc_bvConcatExpr vc left res, getWidth (ConcatExpr l r)), B) })"
| "constructActual opt vc adr (ExtractExpr e off w) =
     (\<lambda>B. do { ((src, _), B) \<leftarrow> construct opt vc adr e B;
               Some ((if w = 1 then bvBoolExtract vc src off else vc_bvExtract vc src (off + w - 1) off, w), B) })"
| "constructActual opt vc adr (ZExtExpr e w) =
     (\<lambda>B. do { ((src, srcWidth), B) \<leftarrow> construct opt vc adr e B;
               Some ((if srcWidth = 1 then vc_iteExpr vc src (bvOne vc w) (bvZero vc w)
                      else vc_bvConcatExpr vc (bvZero vc (w - srcWidth)) src, w), B) })"
| "constructActual opt vc adr (SExtExpr e w) =
     (\<lambda>B. do { ((src, srcWidth), B) \<leftarrow> construct opt vc adr e B;
               Some ((if srcWidth = 1 then vc_iteExpr vc src (bvMinusOne vc w) (bvZero vc w)
                      else vc_bvSignExtend vc src w, w), B) })"
| "constructActual opt vc adr (NotExpr e) =
     (\<lambda>B. do { ((src, w), B) \<leftarrow> construct opt vc adr e B;
               Some ((if w = 1 then vc_notExpr vc src else vc_bvNotExpr vc src, w), B) })"
| "constructActual opt vc adr (BinaryExpr k l r) =
     (\<lambda>B. case k of
        Mul \<Rightarrow>
          do { ((right, w), B) \<leftarrow> construct opt vc adr r B;
               assert_that (w \<noteq> 1);
               fast \<leftarrow> mul_by_const vc l right w;
               case fast of
                 Some v \<Rightarrow> Some ((v, w), B)
               | None \<Rightarrow> do { ((left, w), B) \<leftarrow> construct opt vc adr l B; Some ((vc_bvMultExpr vc w left right, w), B) } }
      | UDiv \<Rightarrow>
          do { ((left, w), B) \<leftarrow> construct opt vc adr l B;
               assert_that (w \<noteq> 1);
               fast \<leftarrow> udiv_by_const opt vc left w r;
               case fast of
                 Some v \<Rightarrow> Some ((v, w), B)
               | None \<Rightarrow> do { ((right, w), B) \<leftarrow> construct opt vc adr r B; Some ((vc_bvDivExpr vc w left right, w), B) } }
      | SDiv \<Rightarrow>
          do { ((left, w), B) \<leftarrow> construct opt vc adr l B;
               assert_that (w \<noteq> 1);
               fast \<leftarrow> sdiv_by_const opt vc left w r;
               case fast of
                 Some v \<Rightarrow> Some ((v, w), B)
               | None \<Rightarrow> do { ((right, w), B) \<leftarrow> construct opt vc adr r B; Some ((vc_sbvDivExpr vc w left right, w), B) } }
      | URem \<Rightarrow>
          do { ((left, w), B) \<leftarrow> construct opt vc adr l B;
               assert_that (w \<noteq> 1);
               fast \<leftarrow> urem_by_const opt vc left w r;
               case fast of
                 Some v \<Rightarrow> Some ((v, w), B)
               | None \<Rightarrow> do { ((right, w), B) \<leftarrow> construct opt vc adr r B; Some ((vc_bvModExpr vc w left right, w), B) } }
      | Shl \<Rightarrow>
          do { ((left, w), B) \<leftarrow> construct opt vc adr l B;
               assert_that (w \<noteq> 1);
               case r of
                 ConstantExpr c \<Rightarrow> Some ((bvLeftShift vc left (const_shift c), w), B)
               | _ \<Rightarrow> do { ((amount, _), B) \<leftarrow> construct opt vc adr r B; v \<leftarrow> bvVarLeftShift vc left amount; Some ((v, w), B) } }
      | LShr \<Rightarrow>
          do { ((left, w), B) \<leftarrow> construct opt vc adr l B;
               assert_that (w \<noteq> 1);
               case r of
                 ConstantExpr c \<Rightarrow> Some ((bvRightShift vc left (const_shift c), w), B)
               | _ \<Rightarrow> do { ((amount, _), B) \<leftarrow> construct opt vc adr r B; v \<leftarrow> bvVarRightShift vc left amount; Some ((v, w), B) } }
      | AShr \<Rightarrow>
          do { ((left, w), B) \<leftarrow> construct opt vc adr l B;
               assert_that (w \<noteq> 1);
               case r of
                 ConstantExpr c \<Rightarrow>
                   Some ((constructAShrByConstant vc left (const_shift c) (bvBoolExtract vc left (w - 1)), w), B)
               | _ \<Rightarrow> do { ((amount, _), B) \<leftarrow> construct opt vc adr r B; v \<leftarrow> bvVarArithRightShift vc left amount; Some ((v, w), B) } }
      | _ \<Rightarrow>
          do { ((left, _), B) \<leftarrow> construct opt vc adr l B;
               ((right, w), B) \<leftarrow> construct opt vc adr r B;
               v \<leftarrow> binary_term vc k l left right w;
               Some (v, B) })"
| "getArrayForUpdate opt vc adr root NullNode = getInitialArray vc root"
| "getArrayForUpdate opt vc adr root (UpdateNode n ix v) =
     (\<lambda>B. case map_of (update_node_hash B) (adr root (UpdateNode n ix v)) of
        Some a \<Rightarrow> Some (a, B)
      | None \<Rightarrow>
          do { (a, B) \<leftarrow> getArrayForUpdate opt vc adr root n B;
               ((ix', _), B) \<leftarrow> construct opt vc adr ix B;
               ((v', _), B) \<leftarrow> construct opt vc adr v B;
               let a = vc_writeExpr vc a ix' v' in
               Some (a, B\<lparr>update_node_hash := (adr root (UpdateNode n ix v), a) # update_node_hash B\<rparr>) })"

text \<open>The public operation forgets the expressions of the query.\<close>

definition construct_query :: "builder_options \<Rightarrow> 'v stp \<Rightarrow> node_addresses \<Rightarrow> expr \<Rightarrow> 'v builder \<Rightarrow> ('v \<times> 'v builder) option" where
  "construct_query opt vc adr e B =
     do { ((v, _), B) \<leftarrow> construct opt vc adr e B; Some (v, B\<lparr>constructed := []\<rparr>) }"

end
