(* ===== verification/STPTerms.thy ===== *)
theory STPTerms
  imports STPBuilder ExprSem
begin

text \<open>
  What STP promises of its terms, as a locale: every term denotes a truth value, a bit vector or an array under
  the model the solver looks at, and each function of the interface has the denotation of its documentation.
  Here the helpers of the builder are shown to denote the operation they are named after.
\<close>

datatype sval = BoolV bool | BVV nat int | ArrV nat nat "int \<Rightarrow> int"

fun same_type :: "sval \<Rightarrow> sval \<Rightarrow> bool" where
  "same_type (BoolV _) (BoolV _) = True"
| "same_type (BVV w _) (BVV w' _) = (w = w')"
| "same_type _ _ = False"

text \<open>Truncating an operand first does not change a truncated result.\<close>

lemma take_bit_absorb:
  fixes x y :: int
  shows "take_bit w (x + take_bit w y) = take_bit w (x + y)" "take_bit w (take_bit w x + y) = take_bit w (x + y)"
    "take_bit w (x - take_bit w y) = take_bit w (x - y)" "take_bit w (x * take_bit w y) = take_bit w (x * y)"
  by (simp_all add: take_bit_eq_mod mod_add_right_eq mod_add_left_eq mod_diff_right_eq mod_mult_right_eq)

text \<open>An arithmetic shift fills in copies of the sign bit.\<close>

lemma ashr_eq:
  assumes "fits w x" "0 < w" "s < w"
  shows "(if bit x (w - 1) then push_bit (w - s) (mask s) + take_bit (w - s) (drop_bit s x) else ap_lshr w x (int s)) = ap_ashr w x (int s)"
proof -
  have hi: "\<not> bit x n" if "w \<le> n" for n using assms(1) that by (rule fits_bit)
  have sg: "bit (ap_ashr w x (int s)) n \<longleftrightarrow> n < w \<and> bit x (min (n + s) (w - 1))" for n
    using assms by (simp add: ap_ashr_def ap_signed_def bit_take_bit_iff bit_drop_bit_eq bit_signed_take_bit_iff min.commute add.commute)
  show ?thesis
  proof (cases "bit x (w - 1)")
    case True
    have "push_bit (w - s) (mask s) + take_bit (w - s) (drop_bit s x) = push_bit (w - s) (mask s) OR take_bit (w - s) (drop_bit s x)"
      by (rule disjunctive_add_eq_or) (auto intro!: bit_eqI simp: bit_and_iff bit_push_bit_iff bit_take_bit_iff)
    moreover have "\<dots> = ap_ashr w x (int s)"
      by (rule bit_eqI)
        (use True assms(3) in \<open>auto simp: sg bit_or_iff bit_push_bit_iff bit_take_bit_iff bit_mask_iff bit_drop_bit_eq min_def add.commute\<close>)
    ultimately show ?thesis using True by simp
  next
    case False
    have "drop_bit s x = ap_ashr w x (int s)"
    proof (rule bit_eqI)
      fix n
      have "bit x (s + n) \<longleftrightarrow> n < w \<and> bit x (min (n + s) (w - 1))"
        using False hi [of "s + n"] assms(3) by (cases "s + n < w - 1") (auto simp: min_def add.commute not_less le_less_Suc_eq)
      then show "bit (drop_bit s x) n \<longleftrightarrow> bit (ap_ashr w x (int s)) n" by (simp add: sg bit_drop_bit_eq)
    qed
    then show ?thesis using False assms(3) by (simp add: ap_lshr_def)
  qed
qed

locale stp_semantics =
  fixes vc :: "'v stp" and den :: "'v \<Rightarrow> sval"
  assumes bv_wf: "den v = BVV w x \<Longrightarrow> 0 < w \<and> fits w x"
    and arr_wf: "den v = ArrV iw vw f \<Longrightarrow> fits vw (f i)"
    and den_true: "den (vc_trueExpr vc) = BoolV True"
    and den_false: "den (vc_falseExpr vc) = BoolV False"
    and den_var: "0 < iw \<Longrightarrow> 0 < vw \<Longrightarrow> \<exists>f. den (vc_arrayVar vc nm iw vw) = ArrV iw vw f"
    and den_int: "0 < w \<Longrightarrow> w \<le> 64 \<Longrightarrow> fits w x \<Longrightarrow> fits 32 x \<Longrightarrow> den (vc_bvConstExprFromInt vc w x) = BVV w x"
    and den_LL: "0 < w \<Longrightarrow> w \<le> 64 \<Longrightarrow> fits 64 x \<Longrightarrow> den (vc_bvConstExprFromLL vc w x) = BVV w (take_bit w x)"
    and den_concat: "den a = BVV w x \<Longrightarrow> den b = BVV w' y \<Longrightarrow> den (vc_bvConcatExpr vc a b) = BVV (w + w') (push_bit w' x + y)"
    and den_extract: "den a = BVV w x \<Longrightarrow> lo \<le> hi \<Longrightarrow> hi < w \<Longrightarrow>
          den (vc_bvExtract vc a hi lo) = BVV (Suc hi - lo) (take_bit (Suc hi - lo) (drop_bit lo x))"
    and den_sext: "den a = BVV w x \<Longrightarrow> w \<le> w' \<Longrightarrow> den (vc_bvSignExtend vc a w') = BVV w' (ap_sext w w' x)"
    and den_plus: "den a = BVV w x \<Longrightarrow> den b = BVV w y \<Longrightarrow> den (vc_bvPlusExpr vc w a b) = BVV w (take_bit w (x + y))"
    and den_minus: "den a = BVV w x \<Longrightarrow> den b = BVV w y \<Longrightarrow> den (vc_bvMinusExpr vc w a b) = BVV w (take_bit w (x - y))"
    and den_uminus: "den a = BVV w x \<Longrightarrow> den (vc_bvUMinusExpr vc a) = BVV w (take_bit w (- x))"
    and den_mult: "den a = BVV w x \<Longrightarrow> den b = BVV w y \<Longrightarrow> den (vc_bvMultExpr vc w a b) = BVV w (take_bit w (x * y))"
    and den_div: "den a = BVV w x \<Longrightarrow> den b = BVV w y \<Longrightarrow> \<exists>z. den (vc_bvDivExpr vc w a b) = BVV w z \<and> (y \<noteq> 0 \<longrightarrow> z = x div y)"
    and den_mod: "den a = BVV w x \<Longrightarrow> den b = BVV w y \<Longrightarrow> \<exists>z. den (vc_bvModExpr vc w a b) = BVV w z \<and> (y \<noteq> 0 \<longrightarrow> z = x mod y)"
    and den_sdiv: "den a = BVV w x \<Longrightarrow> den b = BVV w y \<Longrightarrow> \<exists>z. den (vc_sbvDivExpr vc w a b) = BVV w z \<and> (y \<noteq> 0 \<longrightarrow> z = ap_sdiv w x y)"
    and den_srem: "den a = BVV w x \<Longrightarrow> den b = BVV w y \<Longrightarrow> \<exists>z. den (vc_sbvRemExpr vc w a b) = BVV w z \<and> (y \<noteq> 0 \<longrightarrow> z = ap_srem w x y)"
    and den_bvnot: "den a = BVV w x \<Longrightarrow> den (vc_bvNotExpr vc a) = BVV w (take_bit w (NOT x))"
    and den_bvand: "den a = BVV w x \<Longrightarrow> den b = BVV w y \<Longrightarrow> den (vc_bvAndExpr vc a b) = BVV w (x AND y)"
    and den_bvor: "den a = BVV w x \<Longrightarrow> den b = BVV w y \<Longrightarrow> den (vc_bvOrExpr vc a b) = BVV w (x OR y)"
    and den_bvxor: "den a = BVV w x \<Longrightarrow> den b = BVV w y \<Longrightarrow> den (vc_bvXorExpr vc a b) = BVV w (x XOR y)"
    and den_not: "den a = BoolV p \<Longrightarrow> den (vc_notExpr vc a) = BoolV (\<not> p)"
    and den_and: "den a = BoolV p \<Longrightarrow> den b = BoolV q \<Longrightarrow> den (vc_andExpr vc a b) = BoolV (p \<and> q)"
    and den_or: "den a = BoolV p \<Longrightarrow> den b = BoolV q \<Longrightarrow> den (vc_orExpr vc a b) = BoolV (p \<or> q)"
    and den_iff: "den a = BoolV p \<Longrightarrow> den b = BoolV q \<Longrightarrow> den (vc_iffExpr vc a b) = BoolV (p = q)"
    and den_ite: "den c = BoolV p \<Longrightarrow> same_type (den a) (den b) \<Longrightarrow> den (vc_iteExpr vc c a b) = (if p then den a else den b)"
    and den_eq: "den a = BVV w x \<Longrightarrow> den b = BVV w y \<Longrightarrow> den (vc_eqExpr vc a b) = BoolV (x = y)"
    and den_lt: "den a = BVV w x \<Longrightarrow> den b = BVV w y \<Longrightarrow> den (vc_bvLtExpr vc a b) = BoolV (x < y)"
    and den_le: "den a = BVV w x \<Longrightarrow> den b = BVV w y \<Longrightarrow> den (vc_bvLeExpr vc a b) = BoolV (x \<le> y)"
    and den_slt: "den a = BVV w x \<Longrightarrow> den b = BVV w y \<Longrightarrow> den (vc_sbvLtExpr vc a b) = BoolV (ap_signed w x < ap_signed w y)"
    and den_sle: "den a = BVV w x \<Longrightarrow> den b = BVV w y \<Longrightarrow> den (vc_sbvLeExpr vc a b) = BoolV (ap_signed w x \<le> ap_signed w y)"
    and den_read: "den a = ArrV iw vw f \<Longrightarrow> den b = BVV iw i \<Longrightarrow> den (vc_readExpr vc a b) = BVV vw (f i)"
    and den_write: "den a = ArrV iw vw f \<Longrightarrow> den b = BVV iw i \<Longrightarrow> den c = BVV vw x \<Longrightarrow> den (vc_writeExpr vc a b c) = ArrV iw vw (f(i := x))"
    and length_bv: "den a = BVV w x \<Longrightarrow> vc_getBVLength vc a = w"
begin

lemma ite_bv: "den c = BoolV p \<Longrightarrow> den a = BVV w x \<Longrightarrow> den b = BVV w y \<Longrightarrow> den (vc_iteExpr vc c a b) = BVV w (if p then x else y)"
  by (simp add: den_ite)

subsection \<open>Constants\<close>

lemma const64: "0 < w \<Longrightarrow> w \<le> 64 \<Longrightarrow> fits 64 x \<Longrightarrow> den (bvConst64 vc w x) = BVV w (take_bit w x)"
  by (simp add: bvConst64_def den_LL)

lemma const32: "0 < w \<Longrightarrow> w \<le> 64 \<Longrightarrow> fits w x \<Longrightarrow> fits 32 x \<Longrightarrow> den (bvConst32 vc w x) = BVV w x"
  by (simp add: bvConst32_def den_int)

lemma zext_loop: "den e = BVV w x \<Longrightarrow> 0 < n \<Longrightarrow> den (bvZExtConst_loop vc n e) = BVV (n + w) x"
proof (induction n arbitrary: e w rule: less_induct)
  case (less n)
  show ?case
  proof (cases "64 < n")
    case True
    have "den (vc_bvConcatExpr vc (bvConst64 vc 64 0) e) = BVV (64 + w) x"
      using den_concat [OF const64 [of 64 0] less.prems(1)] by simp
    from less.IH [OF _ this, of "n - 64"] True show ?thesis by (subst bvZExtConst_loop.simps) simp
  next
    case False
    then show ?thesis using den_concat [OF const64 [of n 0] less.prems(1)] less.prems(2) by (subst bvZExtConst_loop.simps) simp
  qed
qed

lemma zext_const: "0 < w \<Longrightarrow> fits 64 x \<Longrightarrow> den (bvZExtConst vc w x) = BVV w (take_bit w x)"
proof (cases "w \<le> 64")
  case False
  assume "fits 64 x"
  then have "den (bvConst64 vc 64 x) = BVV 64 x" using const64 [of 64 x] by simp
  moreover have "take_bit w x = x" using \<open>fits 64 x\<close> False fits_mono [of 64 x w] by simp
  ultimately show ?thesis using zext_loop [of "bvConst64 vc 64 x" 64 x "w - 64"] False by (simp add: bvZExtConst_def)
qed (simp add: bvZExtConst_def const64)

lemma one: "0 < w \<Longrightarrow> den (bvOne vc w) = BVV w 1"
  using zext_const [of w 1] by (simp add: bvOne_def)

lemma zero: "0 < w \<Longrightarrow> den (bvZero vc w) = BVV w 0"
  using zext_const [of w 0] by (simp add: bvZero_def)

lemma minus_one: "0 < w \<Longrightarrow> den (bvMinusOne vc w) = BVV w (mask w)"
proof (cases "w \<le> 64")
  case True
  assume "0 < w"
  with True show ?thesis using const64 [of w "mask 64"] True
    by (simp add: bvMinusOne_def bvSExtConst_def min_def fits_iff_take_bit)
next
  case False
  have "den (bvConst64 vc 64 (mask 64)) = BVV 64 (mask 64)" using const64 [of 64 "mask 64"] by (simp add: fits_iff_take_bit)
  moreover have "ap_sext 64 w (mask 64) = mask w"
    using signed_take_bit_take_bit [of 63 64 "-1 :: int"] by (simp add: ap_sext_def ap_signed_def)
  ultimately show ?thesis using den_sext [of "bvConst64 vc 64 (mask 64)" 64 "mask 64" w] False
    by (simp add: bvMinusOne_def bvSExtConst_def)
qed

subsection \<open>Shifts by constants\<close>

lemma extract_bits: "den a = BVV w x \<Longrightarrow> lo \<le> hi \<Longrightarrow> hi < w \<Longrightarrow>
    den (bvExtract vc a hi lo) = BVV (Suc hi - lo) (take_bit (Suc hi - lo) (drop_bit lo x))"
  by (simp add: bvExtract_def den_extract)

lemma extract_upper: "den a = BVV w x \<Longrightarrow> s < w \<Longrightarrow> den (bvExtract vc a (w - 1) s) = BVV (w - s) (take_bit (w - s) (drop_bit s x))"
  using extract_bits [of a w x s "w - 1"] by (auto simp: Suc_diff_le)

lemma extract_lower: "den a = BVV w x \<Longrightarrow> 0 < n \<Longrightarrow> n \<le> w \<Longrightarrow> den (bvExtract vc a (n - 1) 0) = BVV n (take_bit n x)"
  using extract_bits [of a w x 0 "n - 1"] by auto

lemma bool_extract: "den e = BVV w x \<Longrightarrow> b < w \<Longrightarrow> den (bvBoolExtract vc e b) = BoolV (bit x b)"
proof -
  assume "den e = BVV w x" "b < w"
  then have "den (bvExtract vc e b b) = BVV 1 (take_bit 1 (drop_bit b x))" using extract_bits [of e w x b b] by simp
  from den_eq [OF this one [of 1]] show ?thesis
    by (simp add: bvBoolExtract_def take_bit_Suc bit_iff_odd_drop_bit mod_2_eq_odd)
qed

lemma right_shift:
  assumes e: "den e = BVV w x"
  shows "den (bvRightShift vc e s) = BVV w (ap_lshr w x (int s))"
proof (cases "s = 0 \<or> w \<le> s")
  case True
  then show ?thesis using e zero [of w] bv_wf [OF e] by (auto simp: bvRightShift_def Let_def length_bv [OF e] ap_lshr_def)
next
  case False
  then have "den (bvExtract vc e (w - 1) s) = BVV (w - s) (take_bit (w - s) (drop_bit s x))"
    using extract_upper [OF e] by simp
  from den_concat [OF zero this] False
  have "den (bvRightShift vc e s) = BVV w (take_bit (w - s) (drop_bit s x))"
    by (simp add: bvRightShift_def Let_def length_bv [OF e])
  moreover have "take_bit (w - s) (drop_bit s x) = drop_bit s x"
    using bv_wf [OF e] drop_bit_take_bit [of s w x] by simp
  ultimately show ?thesis using False by (simp add: ap_lshr_def)
qed

lemma left_shift:
  assumes e: "den e = BVV w x"
  shows "den (bvLeftShift vc e s) = BVV w (ap_shl w x (int s))"
proof (cases "s = 0 \<or> w \<le> s")
  case True
  then show ?thesis using e zero [of w] bv_wf [OF e] by (auto simp: bvLeftShift_def Let_def length_bv [OF e] ap_shl_def)
next
  case False
  then have "den (bvExtract vc e (w - s - 1) 0) = BVV (w - s) (take_bit (w - s) x)"
    using extract_lower [OF e, of "w - s"] by simp
  from den_concat [OF this zero [of s]] False
  have "den (bvLeftShift vc e s) = BVV w (push_bit s (take_bit (w - s) x))"
    by (simp add: bvLeftShift_def Let_def length_bv [OF e])
  moreover have "push_bit s (take_bit (w - s) x) = take_bit w (push_bit s x)"
    using False by (simp add: push_bit_take_bit)
  ultimately show ?thesis using False by (simp add: ap_shl_def)
qed

lemma ashr_const:
  assumes e: "den e = BVV w x" and sg: "den sg = BoolV (bit x (w - 1))"
  shows "den (constructAShrByConstant vc e s sg) = BVV w (if w \<le> s then 0 else ap_ashr w x (int s))"
proof (cases "s = 0 \<or> w \<le> s")
  case True
  have "ap_ashr w x 0 = x" using bv_wf [OF e] by (simp add: ap_ashr_def)
  then show ?thesis using True e zero [of w] bv_wf [OF e] by (auto simp: constructAShrByConstant_def Let_def length_bv [OF e])
next
  case False
  have "den (bvExtract vc e (w - 1) s) = BVV (w - s) (take_bit (w - s) (drop_bit s x))"
    using extract_upper [OF e] False by simp
  from den_concat [OF minus_one [of s] this] False
  have c: "den (vc_bvConcatExpr vc (bvMinusOne vc s) (bvExtract vc e (w - 1) s)) = BVV w (push_bit (w - s) (mask s) + take_bit (w - s) (drop_bit s x))"
    by simp
  have v: "(if bit x (w - 1) then push_bit (w - s) (mask s) + take_bit (w - s) (drop_bit s x) else ap_lshr w x (int s)) = ap_ashr w x (int s)"
    using ashr_eq [of w x s] bv_wf [OF e] False by simp
  have "den (constructAShrByConstant vc e s sg) = BVV w (ap_ashr w x (int s))"
    using ite_bv [OF sg c right_shift [OF e, of s]] False unfolding v
    by (simp add: constructAShrByConstant_def Let_def length_bv [OF e])
  with False show ?thesis by simp
qed

subsection \<open>Shifts by terms\<close>

lemma eq_const:
  assumes "den a = BVV w x" "w \<le> 64" "fits w c" "fits 32 c"
  shows "\<exists>p. eqExpr vc a (bvConst32 vc w c) = Some p \<and> den p = BoolV (x = c)"
proof -
  have c: "den (bvConst32 vc w c) = BVV w c" using assms bv_wf [OF assms(1)] by (intro const32) auto
  show ?thesis by (simp add: eqExpr_def length_bv [OF assms(1)] length_bv [OF c] den_eq [OF assms(1) c])
qed

lemma shift_cases_ok:
  assumes s: "den s = BVV sb y" "sb \<le> 64" and n: "n \<le> 2 ^ sb" "n \<le> 2 ^ 32"
    and f: "\<And>i. i < n \<Longrightarrow> den (f i) = BVV w (g i)" and r: "den r = BVV w x"
  shows "\<exists>v. shift_cases vc (s, sb) f (rev [0..<n]) r = Some v \<and> den v = BVV w (if y < int n then g (nat y) else x)"
  using n f r
proof (induction n arbitrary: r x)
  case 0
  then show ?case using bv_wf [OF s(1)] by (simp add: shift_cases_def fits_def)
next
  case (Suc n)
  have "fits sb (int n)" "fits 32 (int n)" using Suc.prems by (simp_all add: fits_def)
  from eq_const [OF s this] obtain p where p: "eqExpr vc s (bvConst32 vc sb (int n)) = Some p" "den p = BoolV (y = int n)" by blast
  have "den (vc_iteExpr vc p (f n) r) = BVV w (if y = int n then g n else x)"
    using Suc.prems(3,4) by (intro ite_bv [OF p(2)]) auto
  from Suc.IH [OF _ _ _ this] obtain v where
    "shift_cases vc (s, sb) f (rev [0..<n]) (vc_iteExpr vc p (f n) r) = Some v"
    "den v = BVV w (if y < int n then g (nat y) else if y = int n then g n else x)"
    using Suc.prems by auto
  moreover have "(if y < int n then g (nat y) else if y = int n then g n else x) = (if y < int (Suc n) then g (nat y) else x)"
    by (cases "y < int n"; cases "y = int n") auto
  ultimately show ?case using p(1) by (simp add: shift_cases_def)
qed

lemma overshift:
  assumes "den s = BVV ws y" "ws \<le> 64" "w < 2 ^ ws" "w < 2 ^ 32" "0 < w" "den r = BVV w x"
  shows "den (overshift_zero vc s w r) = BVV w (if y < int w then x else 0)"
proof -
  have "den (bvConst32 vc ws (int w)) = BVV ws (int w)" using assms bv_wf [OF assms(1)] by (intro const32) (auto simp: fits_def)
  from den_lt [OF assms(1) this] show ?thesis
    unfolding overshift_zero_def length_bv [OF assms(1)] by (rule ite_bv) (use assms zero in auto)
qed

lemma partial_shift:
  assumes "den s = BVV ws y" "0 < w" "getActiveBits w \<le> ws"
  shows "extractPartialShiftValue vc s w = (vc_bvExtract vc s (getActiveBits w - 1) 0, getActiveBits w)
    \<and> den (vc_bvExtract vc s (getActiveBits w - 1) 0) = BVV (getActiveBits w) (take_bit (getActiveBits w) y)"
proof -
  have "0 < getActiveBits w" using assms(2) by (subst getActiveBits.simps) simp
  then show ?thesis using extract_lower [OF assms(1), of "getActiveBits w"] assms(3)
    by (simp add: extractPartialShiftValue_def bvExtract_def Let_def)
qed

lemma active_bits: "n < 2 ^ getActiveBits n" "0 < n \<Longrightarrow> getActiveBits n \<le> n"
proof (induction n rule: less_induct)
  case (less n)
  { case 1
    show ?case
    proof (cases "n = 0")
      case False
      then have "n div 2 < 2 ^ getActiveBits (n div 2)" using less(1) by simp
      with False show ?thesis by (subst getActiveBits.simps) simp
    qed simp
  next
    case 2
    show ?case
    proof (cases "n div 2 = 0")
      case True
      with 2 show ?thesis by (subst getActiveBits.simps) (simp add: getActiveBits.simps [of 0])
    next
      case False
      then have "getActiveBits (n div 2) \<le> n div 2" using less(2) [of "n div 2"] 2 by simp
      with 2 False show ?thesis by (subst getActiveBits.simps) simp
    qed }
qed

lemma take_active: "0 \<le> y \<Longrightarrow> y < int w \<Longrightarrow> take_bit (getActiveBits w) y = y"
proof -
  assume y: "0 \<le> y" "y < int w"
  have "int w < 2 ^ getActiveBits w" using active_bits(1) [of w] by (metis of_nat_less_iff of_nat_numeral of_nat_power)
  with y show ?thesis by (intro take_bit_int_eq_self) linarith+
qed

text \<open>The amount a variable shift may have: a bit vector of a width that holds the width of the value.\<close>

definition shift_term :: "nat \<Rightarrow> 'v \<Rightarrow> int \<Rightarrow> bool" where
  "shift_term w s y \<longleftrightarrow> (\<exists>ws. den s = BVV ws y \<and> ws \<le> 64 \<and> getActiveBits w \<le> ws \<and> w < 2 ^ ws \<and> 0 < w \<and> w < 2 ^ 32 \<and> getActiveBits w \<le> 64)"

lemma var_shift:
  assumes s: "shift_term w s y" and n: "n \<le> w" and f: "\<And>i. i < n \<Longrightarrow> den (f i) = BVV w (g i)" and r: "den r = BVV w x"
  shows "\<exists>v. shift_cases vc (extractPartialShiftValue vc s w) f (rev [0..<n]) r = Some v
    \<and> den (overshift_zero vc s w v) = BVV w (if y < int n then g (nat y) else if y < int w then x else 0)"
proof -
  from s obtain ws where ws: "den s = BVV ws y" "ws \<le> 64" "getActiveBits w \<le> ws" "w < 2 ^ ws" "0 < w" "w < 2 ^ 32" "getActiveBits w \<le> 64"
    unfolding shift_term_def by blast
  let ?sb = "getActiveBits w"
  from partial_shift [OF ws(1,5,3)] obtain s' where s': "extractPartialShiftValue vc s w = (s', ?sb)" "den s' = BVV ?sb (take_bit ?sb y)" by blast
  have "n \<le> 2 ^ ?sb" "n \<le> 2 ^ 32" using n ws(6) active_bits(1) [of w] by linarith+
  from shift_cases_ok [where f = f and g = g, OF s'(2) ws(7) this _ r] f obtain v where
    v: "shift_cases vc (s', ?sb) f (rev [0..<n]) r = Some v"
      "den v = BVV w (if take_bit ?sb y < int n then g (nat (take_bit ?sb y)) else x)" by blast
  have "take_bit ?sb y = y" if "y < int w" using bv_wf [OF ws(1)] that by (intro take_active) (auto simp: fits_def)
  then show ?thesis using overshift [OF ws(1,2,4,6,5) v(2)] v(1) s'(1) n by auto
qed

lemma var_left_shift:
  assumes e: "den e = BVV w x" and s: "shift_term w s y"
  shows "\<exists>v. bvVarLeftShift vc e s = Some v \<and> den v = BVV w (ap_shl w x y)"
proof -
  have y: "0 \<le> y" and w: "0 < w" using s bv_wf unfolding shift_term_def fits_def by blast+
  from var_shift [where f = "bvLeftShift vc e", OF s order_refl left_shift [OF e] zero [OF w]] show ?thesis
    using y by (auto simp: bvVarLeftShift_def Let_def length_bv [OF e] ap_shl_def)
qed

lemma var_right_shift:
  assumes e: "den e = BVV w x" and s: "shift_term w s y"
  shows "\<exists>v. bvVarRightShift vc e s = Some v \<and> den v = BVV w (ap_lshr w x y)"
proof -
  have y: "0 \<le> y" and w: "0 < w" using s bv_wf unfolding shift_term_def fits_def by blast+
  from var_shift [where f = "bvRightShift vc e", OF s order_refl right_shift [OF e] zero [OF w]] show ?thesis
    using y by (auto simp: bvVarRightShift_def Let_def length_bv [OF e] ap_lshr_def)
qed

lemma var_arith_right_shift:
  assumes e: "den e = BVV w x" and s: "shift_term w s y"
  shows "\<exists>v. bvVarArithRightShift vc e s = Some v \<and> den v = BVV w (if y < int w then ap_ashr w x y else 0)"
proof -
  have y: "0 \<le> y" and w: "0 < w" using s bv_wf unfolding shift_term_def fits_def by blast+
  note sg = bool_extract [OF e, of "w - 1"]
  have c: "den (constructAShrByConstant vc e i (bvBoolExtract vc e (w - 1))) = BVV w (ap_ashr w x (int i))" if "i < w" for i
    using ashr_const [OF e sg, of i] that w by simp
  from var_shift [OF s, of "w - 1" "\<lambda>i. constructAShrByConstant vc e i (bvBoolExtract vc e (w - 1))" "\<lambda>i. ap_ashr w x (int i)",
      OF _ _ c [of "w - 1"]] c w
  obtain v where "shift_cases vc (extractPartialShiftValue vc s w) (\<lambda>i. constructAShrByConstant vc e i (bvBoolExtract vc e (w - 1)))
      (rev [0..<w - 1]) (constructAShrByConstant vc e (w - 1) (bvBoolExtract vc e (w - 1))) = Some v"
    "den (overshift_zero vc s w v) = BVV w (if y < int (w - 1) then ap_ashr w x (int (nat y))
       else if y < int w then ap_ashr w x (int (w - 1)) else 0)"
    by force
  moreover have "(if y < int (w - 1) then ap_ashr w x (int (nat y)) else if y < int w then ap_ashr w x (int (w - 1)) else 0)
      = (if y < int w then ap_ashr w x y else 0)"
  proof -
    have "int (w - 1) = int w - 1" using w by simp
    then show ?thesis using y by (cases "y < int w - 1"; cases "y = int w - 1") auto
  qed
  ultimately show ?thesis by (simp add: bvVarArithRightShift_def Let_def length_bv [OF e])
qed

subsection \<open>Multiplication and division by constants\<close>

lemma take_bit_exp_mult: "take_bit w (x * 2 ^ n) = ap_shl w x (int n)" for x :: int
proof (cases "w \<le> n")
  case True
  then have "(2::int) ^ w dvd x * 2 ^ n" by (simp add: le_imp_power_dvd)
  with True show ?thesis by (simp add: ap_shl_def take_bit_eq_0_iff)
qed (simp add: ap_shl_def push_bit_eq_mult)

definition acc_den :: "nat \<Rightarrow> 'v option \<Rightarrow> int \<Rightarrow> bool" where
  "acc_den w res z \<longleftrightarrow> (case res of Some r \<Rightarrow> den r = BVV w z | None \<Rightarrow> z = 0)"

lemma mul_bit_ok:
  assumes e: "den e = BVV w x" and d: "\<not> (bit add n \<and> bit sub n)" and a: "acc_den w res z"
  shows "\<exists>res'. mul_bit vc e w add sub n res = Some res' \<and> acc_den w res' (take_bit w (z + x * (of_bool (bit add n) * 2 ^ n - of_bool (bit sub n) * 2 ^ n)))"
proof -
  have op: "den (bvLeftShift vc e n) = BVV w (take_bit w (x * 2 ^ n))" using left_shift [OF e] by (simp add: take_bit_exp_mult)
  have z: "take_bit w z = z" using a bv_wf by (cases res) (auto simp: acc_den_def)
  consider "bit add n" "\<not> bit sub n" | "\<not> bit add n" "bit sub n" | "\<not> bit add n" "\<not> bit sub n" using d by blast
  then show ?thesis
  proof cases
    case 1
    have "take_bit w (z + take_bit w (x * 2 ^ n)) = take_bit w (z + x * 2 ^ n)" by (rule take_bit_absorb)
    then show ?thesis using a op 1 den_plus [OF _ op] by (cases res) (auto simp: mul_bit_def acc_den_def)
  next
    case 2
    have "take_bit w (z - take_bit w (x * 2 ^ n)) = take_bit w (z - x * 2 ^ n)" by (rule take_bit_absorb)
    then show ?thesis using a op 2 den_minus [OF _ op] den_uminus [OF op] by (cases res) (auto simp: mul_bit_def acc_den_def)
  next
    case 3
    then show ?thesis using a z by (simp add: mul_bit_def)
  qed
qed

lemma mul_fold:
  assumes e: "den e = BVV w x" and d: "add AND sub = 0" and a: "acc_den w res z"
  shows "\<exists>res'. fold_abort (mul_bit vc e w add sub) (rev [0..<n]) res = Some res'
    \<and> acc_den w res' (take_bit w (z + x * (take_bit n add - take_bit n sub)))"
  using a
proof (induction n arbitrary: res z)
  case 0
  then show ?case using bv_wf by (cases res) (auto simp: acc_den_def)
next
  case (Suc n)
  have "\<not> (bit add n \<and> bit sub n)" using d by (metis bit_and_iff bit_0_eq bot_apply bot_bool_def)
  from mul_bit_ok [OF e this Suc.prems] obtain res1 where r1: "mul_bit vc e w add sub n res = Some res1"
    "acc_den w res1 (take_bit w (z + x * (of_bool (bit add n) * 2 ^ n - of_bool (bit sub n) * 2 ^ n)))" by blast
  have t: "take_bit (Suc n) b = take_bit n b + of_bool (bit b n) * 2 ^ n" for b :: int
    by (simp add: take_bit_Suc_from_most)
  have "take_bit w (take_bit w (z + x * (of_bool (bit add n) * 2 ^ n - of_bool (bit sub n) * 2 ^ n)) + x * (take_bit n add - take_bit n sub))
      = take_bit w (z + x * (of_bool (bit add n) * 2 ^ n - of_bool (bit sub n) * 2 ^ n) + x * (take_bit n add - take_bit n sub))"
    by (rule take_bit_absorb)
  also have "z + x * (of_bool (bit add n) * 2 ^ n - of_bool (bit sub n) * 2 ^ n) + x * (take_bit n add - take_bit n sub)
      = z + x * (take_bit (Suc n) add - take_bit (Suc n) sub)"
    unfolding t by (simp add: algebra_simps)
  finally show ?case using Suc.IH [OF r1(2)] r1(1) by simp
qed

lemma mul_by_constant:
  assumes e: "den e = BVV w x" and w: "w \<le> 64" and m: "fits 64 m"
  shows "\<exists>v. constructMulByConstant vc e w m = Some v \<and> den v = BVV w (take_bit w (x * m))"
proof -
  obtain a s where as: "ComputeMultConstants64 m = Some (a, s)" "a AND s = 0" "take_bit 64 (a - s) = m"
    using ComputeMultConstants64_ok [OF m] by (auto simp: returns_iff)
  have w0: "0 < w" using bv_wf [OF e] by simp
  let ?a = "take_bit w a" and ?s = "take_bit w s"
  have "?a AND ?s = 0" using as(2) by (simp flip: take_bit_and)
  from mul_fold [OF e this, of None 0 64] obtain res where
    r: "fold_abort (mul_bit vc e w ?a ?s) (rev [0..<64]) None = Some res" "acc_den w res (take_bit w (x * (?a - ?s)))"
    using w by (auto simp: acc_den_def min_def)
  have "take_bit w (?a - ?s) = take_bit w (take_bit 64 (a - s))" using w by (simp add: take_bit_diff min_def)
  then have "take_bit w (x * (?a - ?s)) = take_bit w (x * m)" unfolding as(3) by (metis take_bit_absorb(4))
  then have v: "take_bit w (x * (?a - ?s)) = take_bit w (x * m)" .
  show ?thesis
    unfolding constructMulByConstant_def as(1)
    using r v zero [OF w0] by (cases res) (simp_all add: truncateToNBits64_eq w0 w acc_den_def)
qed

lemma const_shift_term: "w \<in> {32, 64} \<Longrightarrow> k < 32 \<Longrightarrow> shift_term w (bvConst32 vc 32 (int k)) (int k)"
proof -
  assume w: "w \<in> {32, 64}" and k: "k < 32"
  have "den (bvConst32 vc 32 (int k)) = BVV 32 (int k)" using k by (intro const32) (auto simp: fits_def)
  moreover have "getActiveBits 32 = 6" "getActiveBits 64 = 7" by code_simp+
  ultimately show ?thesis using w unfolding shift_term_def by (intro exI [of _ 32]) auto
qed

lemma shift_by_const:
  assumes "den e = BVV w x" "w \<in> {32, 64}" "k < 32"
  shows "\<exists>v. bvVarRightShift vc e (bvConst32 vc 32 (int k)) = Some v \<and> den v = BVV w (drop_bit k x)"
  using var_right_shift [OF assms(1) const_shift_term [OF assms(2,3)]] assms(2,3) by (auto simp: ap_lshr_def)

lemma high_word: "den a = BVV 64 x \<Longrightarrow> den (vc_bvExtract vc a 63 32) = BVV 32 (drop_bit 32 x)"
proof -
  assume a: "den a = BVV 64 x"
  have "take_bit 32 (drop_bit 32 x) = drop_bit 32 x" using bv_wf [OF a] drop_bit_take_bit [of 32 64 x] by simp
  then show ?thesis using den_extract [OF a, of 32 63] by simp
qed

lemma udiv_by_constant:
  assumes n: "den e = BVV 32 n" and d: "fits 32 d" "d \<noteq> 0"
  shows "\<exists>v. constructUDivByConstant vc e 32 d = Some v \<and> den v = BVV 32 (n div d)"
proof -
  have "0 < d" "d < 2 ^ 32" using d by (auto simp: fits_def)
  then obtain mp sh1 sh2 where c: "ComputeUDivConstants32 d = Some (mp, int sh1, int sh2)" "fits 32 mp" "sh1 < 32" "sh2 < 32"
    "\<And>n. fits 32 n \<Longrightarrow> udiv_by (mp, int sh1, int sh2) n = n div d" by (rule ComputeUDivConstants32_ok) blast
  have "den (vc_bvConcatExpr vc (bvZero vc 32) e) = BVV 64 n" using den_concat [OF zero [of 32] n] by simp
  from mul_by_constant [OF this, of mp] obtain t where t: "constructMulByConstant vc (vc_bvConcatExpr vc (bvZero vc 32) e) 64 mp = Some t"
    "den t = BVV 64 (take_bit 64 (n * mp))" using fits_mono [OF c(2)] by auto
  note t1 = high_word [OF t(2)]
  from shift_by_const [OF den_minus [OF n t1] _ c(3)] obtain v1 where
    v1: "bvVarRightShift vc (vc_bvMinusExpr vc 32 e (vc_bvExtract vc t 63 32)) (bvConst32 vc 32 (int sh1)) = Some v1"
      "den v1 = BVV 32 (drop_bit sh1 (take_bit 32 (n - drop_bit 32 (take_bit 64 (n * mp)))))" by auto
  from shift_by_const [OF den_plus [OF v1(2) t1] _ c(4)] obtain v2 where
    v2: "bvVarRightShift vc (vc_bvPlusExpr vc 32 v1 (vc_bvExtract vc t 63 32)) (bvConst32 vc 32 (int sh2)) = Some v2"
      "den v2 = BVV 32 (udiv_by (mp, int sh1, int sh2) n)" by (auto simp: udiv_by_def Let_def)
  have "den v2 = BVV 32 (n div d)" using v2(2) c(5) [of n] bv_wf [OF n] by simp
  then show ?thesis using c(1) t(1) v1(1) v2(1) d(1) by (simp add: constructUDivByConstant_def)
qed

lemma sdiv_by_constant:
  assumes n: "den e = BVV 32 n" and d: "fits 32 d" "d \<noteq> 0" "d \<noteq> 1" "d \<noteq> 2 ^ 32 - 1"
  shows "\<exists>v. constructSDivByConstant vc e 32 d = Some v \<and> den v = BVV 32 (ap_sdiv 32 n d)"
proof -
  let ?d = "ap_signed 32 d"
  have sd: "signed_take_bit 31 d = ?d" by (simp add: ap_signed_def)
  have td: "take_bit 32 ?d = d" using d(1) by simp
  have "take_bit 32 0 = (0::int)" "take_bit 32 1 = (1::int)" "take_bit 32 (-1) = (2 ^ 32 - 1 :: int)"
    by (simp_all add: mask_eq_exp_minus_1)
  with td d have "?d \<noteq> 0" "?d \<noteq> 1" "?d \<noteq> -1" by metis+
  then have "2 \<le> \<bar>?d\<bar>" by linarith
  with signed_range [OF d(1)] obtain k where k: "2 ^ k < \<bar>?d\<bar>" "\<bar>?d\<bar> \<le> 2 ^ Suc k" "k < 31"
    using division_constants_exist [of ?d] by blast
  define mp where "mp = 2 ^ (32 + k) div \<bar>?d\<bar> + 1 - 2 ^ 32"
  define sg where "sg = (if ?d < 0 then - 1 else 0 :: int)"
  have c: "ComputeSDivConstants32 ?d = Some (mp, sg, int k)"
    using ComputeSDivConstants32_eq [OF k] signed_range [OF d(1)] by (simp add: mp_def sg_def)
  have r: "sdiv_by (mp, sg, int k) n = take_bit 32 (ap_signed 32 n sdiv ?d)"
    using sdiv_by_eq [OF k] bv_wf [OF n] unfolding mp_def sg_def by blast
  have dsg: "den (bvConst32 vc 32 (take_bit 32 sg)) = BVV 32 (take_bit 32 sg)" by (intro const32) auto
  have tk: "take_bit 32 (int k) = int k" using k(3) by (intro take_bit_int_eq_self) auto
  from mul_by_constant [OF den_sext [OF n], of 64 "take_bit 64 mp"] obtain m where
    m: "constructMulByConstant vc (vc_bvSignExtend vc e 64) 64 (take_bit 64 mp) = Some m"
      "den m = BVV 64 (take_bit 64 (ap_sext 32 64 n * take_bit 64 mp))" by auto
  note npm = den_sext [OF den_plus [OF n high_word [OF m(2)]], of 64]
  from shift_by_const [OF npm, of k] k(3) obtain sn where
    sn: "bvVarRightShift vc (vc_bvSignExtend vc (vc_bvPlusExpr vc 32 e (vc_bvExtract vc m 63 32)) 64) (bvConst32 vc 32 (int k)) = Some sn"
      "den sn = BVV 64 (drop_bit k (ap_sext 32 64 (take_bit 32 (n + drop_bit 32 (take_bit 64 (ap_sext 32 64 n * take_bit 64 mp))))))" by auto
  from den_extract [OF sn(2), of 0 31] have low: "den (vc_bvExtract vc sn 31 0)
      = BVV 32 (take_bit 32 (drop_bit k (ap_sext 32 64 (take_bit 32 (n + drop_bit 32 (take_bit 64 (ap_sext 32 64 n * take_bit 64 mp)))))))" by simp
  have xs: "den (vc_iteExpr vc (bvBoolExtract vc e 31) (bvMinusOne vc 32) (bvZero vc 32)) = BVV 32 (if bit n 31 then mask 32 else 0)"
    using ite_bv [OF bool_extract [OF n, of 31] minus_one [of 32] zero [of 32]] by simp
  note res = den_minus [OF den_bvxor [OF den_minus [OF low xs] dsg] dsg]
  show ?thesis
    using c m(1) sn(1) res r by (simp add: constructSDivByConstant_def sd tk Let_def sdiv_by_def ap_sdiv_def)
qed

end

end
