(* ===== verification/STPSound.thy ===== *)
theory STPSound
  imports STPTerms
begin

text \<open>
  The terms \<^verbatim>\<open>STPBuilder::construct\<close> builds denote the values of the expressions. \<open>denotes\<close> ties the
  denotation of a term to a width and a value: expressions of width 1 become truth values, all others bit vectors.
  \<open>buildable\<close> collects what the builder relies on about the shape of an expression, \<open>safe\<close> that under an assignment
  no divisor is zero and no arithmetic right shift is by the width or more.
\<close>

definition denotes_val :: "sval \<Rightarrow> nat \<Rightarrow> int \<Rightarrow> bool" where
  "denotes_val d w x \<longleftrightarrow> 0 < w \<and> fits w x \<and> d = (if w = 1 then BoolV (x = 1) else BVV w x)"

definition kind_buildable :: "bkind \<Rightarrow> nat \<Rightarrow> expr \<Rightarrow> bool" where
  "kind_buildable k w r \<longleftrightarrow>
     (w = 1 \<longrightarrow> k \<in> {And, Or, Xor, Eq}) \<and> k \<notin> {Ne, Ugt, Uge, Sgt, Sge}
     \<and> (case r of
          ConstantExpr c \<Rightarrow> (k \<in> {UDiv, SDiv, URem} \<longrightarrow> ce_value c \<noteq> 0) \<and> (k \<in> {Shl, LShr, AShr} \<longrightarrow> ce_value c < 2 ^ 32)
        | _ \<Rightarrow> k \<in> {Shl, LShr, AShr} \<longrightarrow> w \<le> 64)"

fun buildable :: "expr \<Rightarrow> bool" and buildable_node :: "unode \<Rightarrow> bool" where
  "buildable (ConstantExpr c) = True"
| "buildable (NotOptimizedExpr e) = buildable e"
| "buildable (ReadExpr _ a us i) = (arr_domain a \<noteq> 1 \<and> arr_range a \<noteq> 1 \<and> buildable_node us \<and> buildable i)"
| "buildable (SelectExpr c t f) = (buildable c \<and> buildable t \<and> buildable f)"
| "buildable (ConcatExpr l r) = (buildable l \<and> buildable r \<and> getWidth l \<noteq> 1 \<and> getWidth r \<noteq> 1)"
| "buildable (ExtractExpr e off w) = (buildable e \<and> getWidth e \<noteq> 1)"
| "buildable (ZExtExpr e w) = (buildable e \<and> getWidth e < w)"
| "buildable (SExtExpr e w) = (buildable e \<and> getWidth e < w)"
| "buildable (NotExpr e) = buildable e"
| "buildable (BinaryExpr k l r) = (buildable l \<and> buildable r \<and> kind_buildable k (getWidth l) r)"
| "buildable_node NullNode = True"
| "buildable_node (UpdateNode n i v) = (buildable_node n \<and> buildable i \<and> buildable v)"

fun safe :: "env \<Rightarrow> expr \<Rightarrow> bool" and safe_read :: "env \<Rightarrow> unode \<Rightarrow> int \<Rightarrow> bool" where
  "safe \<rho> (ConstantExpr c) = True"
| "safe \<rho> (NotOptimizedExpr e) = safe \<rho> e"
| "safe \<rho> (ReadExpr _ a us i) = (safe \<rho> i \<and> safe_read \<rho> us (eval \<rho> i))"
| "safe \<rho> (SelectExpr c t f) = (safe \<rho> c \<and> (if eval \<rho> c = 1 then safe \<rho> t else safe \<rho> f))"
| "safe \<rho> (ConcatExpr l r) = (safe \<rho> l \<and> safe \<rho> r)"
| "safe \<rho> (ExtractExpr e off w) = safe \<rho> e"
| "safe \<rho> (ZExtExpr e w) = safe \<rho> e"
| "safe \<rho> (SExtExpr e w) = safe \<rho> e"
| "safe \<rho> (NotExpr e) = safe \<rho> e"
| "safe \<rho> (BinaryExpr k l r) =
     (safe \<rho> l \<and> safe \<rho> r \<and> (k \<in> {UDiv, SDiv, URem, SRem} \<longrightarrow> eval \<rho> r \<noteq> 0) \<and> (k = AShr \<longrightarrow> eval \<rho> r < int (getWidth l)))"
| "safe_read \<rho> NullNode i = True"
| "safe_read \<rho> (UpdateNode n ix v) i = (safe \<rho> ix \<and> (if eval \<rho> ix = i then safe \<rho> v else safe_read \<rho> n i))"

lemma safe_erase [simp]: "safe \<rho> (erase e) = safe \<rho> e"
  and safe_read_erase [simp]: "safe_read \<rho> (erase_node n) i = safe_read \<rho> n i"
  by (induction e and n arbitrary: and i) simp_all

lemma expr_eq_safe: "expr_eq a b \<Longrightarrow> safe \<rho> a = safe \<rho> b"
  unfolding expr_eq_def by (metis safe_erase)

text \<open>
  An assignment agrees with the model the terms are looked at in if it gives every array in the builder's table the
  contents the model gives the array variable of that name.
\<close>

fun agrees :: "'v stp \<Rightarrow> ('v \<Rightarrow> sval) \<Rightarrow> env \<Rightarrow> (array \<times> 'v) list \<Rightarrow> bool" where
  "agrees vc den \<rho> [] = True"
| "agrees vc den \<rho> ((a, _) # h) =
     (agrees vc den \<rho> h
      \<and> (\<forall>f. den (buildArray vc (unique_name a (length h)) (arr_domain a) (arr_range a)) = ArrV (arr_domain a) (arr_range a) f
            \<longrightarrow> (\<forall>i. fits (arr_domain a) i \<longrightarrow> f i = take_bit (arr_range a) (env_read \<rho> a (nat i)))))"

lemma agrees_append: "agrees vc den \<rho> (g @ h) \<Longrightarrow> agrees vc den \<rho> h"
  by (induction g) auto

text \<open>
  The update nodes of an expression, each with its array, and the one node \<open>own k\<close> that the address \<open>k\<close> stands for
  throughout a sequence of queries.
\<close>

fun nodes :: "expr \<Rightarrow> (array \<times> unode) set" and chain_nodes :: "array \<Rightarrow> unode \<Rightarrow> (array \<times> unode) set" where
  "nodes (ConstantExpr c) = {}"
| "nodes (NotOptimizedExpr e) = nodes e"
| "nodes (ReadExpr _ a us i) = chain_nodes a us \<union> nodes i"
| "nodes (SelectExpr c t f) = nodes c \<union> nodes t \<union> nodes f"
| "nodes (ConcatExpr l r) = nodes l \<union> nodes r"
| "nodes (ExtractExpr e off w) = nodes e"
| "nodes (ZExtExpr e w) = nodes e"
| "nodes (SExtExpr e w) = nodes e"
| "nodes (NotExpr e) = nodes e"
| "nodes (BinaryExpr k l r) = nodes l \<union> nodes r"
| "chain_nodes a NullNode = {}"
| "chain_nodes a (UpdateNode n i v) = insert (a, UpdateNode n i v) (chain_nodes a n \<union> nodes i \<union> nodes v)"

definition owned :: "(nat \<Rightarrow> array \<times> unode) \<Rightarrow> node_addresses \<Rightarrow> (array \<times> unode) set \<Rightarrow> bool" where
  "owned own adr N \<longleftrightarrow> (\<forall>(a, n) \<in> N. own (adr a n) = (a, n))"

lemma owned_simps [simp]:
  "owned own adr {}" "owned own adr (M \<union> N) \<longleftrightarrow> owned own adr M \<and> owned own adr N"
  "owned own adr (insert (a, n) N) \<longleftrightarrow> own (adr a n) = (a, n) \<and> owned own adr N"
  by (auto simp: owned_def)

definition val_ok :: "'v stp \<Rightarrow> ('v \<Rightarrow> sval) \<Rightarrow> env \<Rightarrow> (array \<times> 'v) list \<Rightarrow> expr \<Rightarrow> 'v \<Rightarrow> bool" where
  "val_ok vc den \<rho> h e v \<longleftrightarrow> (\<exists>x. denotes_val (den v) (getWidth e) x \<and> (agrees vc den \<rho> h \<longrightarrow> safe \<rho> e \<longrightarrow> x = eval \<rho> e))"

definition arr_ok :: "'v stp \<Rightarrow> ('v \<Rightarrow> sval) \<Rightarrow> env \<Rightarrow> (array \<times> 'v) list \<Rightarrow> array \<Rightarrow> unode \<Rightarrow> 'v \<Rightarrow> bool" where
  "arr_ok vc den \<rho> h a n v \<longleftrightarrow> (\<exists>f. den v = ArrV (arr_domain a) (arr_range a) f
     \<and> (agrees vc den \<rho> h \<longrightarrow> (\<forall>i. fits (arr_domain a) i \<longrightarrow> safe_read \<rho> n i \<longrightarrow> f i = eval_read \<rho> a n i)))"

definition builder_inv :: "(nat \<Rightarrow> array \<times> unode) \<Rightarrow> 'v stp \<Rightarrow> ('v \<Rightarrow> sval) \<Rightarrow> env \<Rightarrow> 'v builder \<Rightarrow> bool" where
  "builder_inv own vc den \<rho> B \<longleftrightarrow>
     (\<forall>(a, v) \<in> set (array_hash B). arr_ok vc den \<rho> (array_hash B) a NullNode v)
   \<and> (\<forall>(k, v) \<in> set (update_node_hash B). arr_ok vc den \<rho> (array_hash B) (fst (own k)) (snd (own k)) v)
   \<and> (\<forall>(e, v, w) \<in> set (constructed B). w = getWidth e \<and> val_ok vc den \<rho> (array_hash B) e v)"

lemma val_ok_mono: "val_ok vc den \<rho> h e v \<Longrightarrow> val_ok vc den \<rho> (g @ h) e v"
  unfolding val_ok_def using agrees_append by blast

lemma arr_ok_mono: "arr_ok vc den \<rho> h a n v \<Longrightarrow> arr_ok vc den \<rho> (g @ h) a n v"
  unfolding arr_ok_def using agrees_append by blast

definition build_ok :: "(nat \<Rightarrow> array \<times> unode) \<Rightarrow> 'v stp \<Rightarrow> ('v \<Rightarrow> sval) \<Rightarrow> env \<Rightarrow> expr \<Rightarrow> 'v build \<Rightarrow> bool" where
  "build_ok own vc den \<rho> e m \<longleftrightarrow> (\<forall>B. builder_inv own vc den \<rho> B \<longrightarrow>
     (\<exists>v B' g. m B = Some ((v, getWidth e), B') \<and> builder_inv own vc den \<rho> B' \<and> array_hash B' = g @ array_hash B
        \<and> val_ok vc den \<rho> (array_hash B') e v))"

definition build_array_ok :: "(nat \<Rightarrow> array \<times> unode) \<Rightarrow> 'v stp \<Rightarrow> ('v \<Rightarrow> sval) \<Rightarrow> env \<Rightarrow> array \<Rightarrow> unode \<Rightarrow> ('v builder \<Rightarrow> ('v \<times> 'v builder) option) \<Rightarrow> bool" where
  "build_array_ok own vc den \<rho> a n m \<longleftrightarrow> (\<forall>B. builder_inv own vc den \<rho> B \<longrightarrow>
     (\<exists>v B' g. m B = Some (v, B') \<and> builder_inv own vc den \<rho> B' \<and> array_hash B' = g @ array_hash B
        \<and> arr_ok vc den \<rho> (array_hash B') a n v))"

lemma build_okE:
  assumes "build_ok own vc den \<rho> e m" "builder_inv own vc den \<rho> B"
  obtains v B' g x where "m B = Some ((v, getWidth e), B')" "builder_inv own vc den \<rho> B'" "array_hash B' = g @ array_hash B"
    "denotes_val (den v) (getWidth e) x" "agrees vc den \<rho> (array_hash B') \<longrightarrow> safe \<rho> e \<longrightarrow> x = eval \<rho> e"
  using assms unfolding build_ok_def val_ok_def by (metis (no_types, lifting))

lemma memo_ok:
  assumes "build_ok own vc den \<rho> e m"
  shows "build_ok own vc den \<rho> e (construct_memo opt e m)"
  unfolding build_ok_def
proof (intro allI impI)
  fix B assume B: "builder_inv own vc den \<rho> B"
  from assms B obtain v B' g where m: "m B = Some ((v, getWidth e), B')" "builder_inv own vc den \<rho> B'" "array_hash B' = g @ array_hash B"
    "val_ok vc den \<rho> (array_hash B') e v" unfolding build_ok_def by blast
  show "\<exists>v B' g. construct_memo opt e m B = Some ((v, getWidth e), B') \<and> builder_inv own vc den \<rho> B' \<and> array_hash B' = g @ array_hash B
        \<and> val_ok vc den \<rho> (array_hash B') e v"
  proof (cases "\<not> UseConstructHash opt \<or> is_ConstantExpr e")
    case True
    with m show ?thesis by (simp add: construct_memo_def)
  next
    case False
    show ?thesis
    proof (cases "List.find (\<lambda>(e', _). expr_eq e' e) (constructed B)")
      case None
      let ?B = "B'\<lparr>constructed := (e, v, getWidth e) # constructed B'\<rparr>"
      have "builder_inv own vc den \<rho> ?B" using m(2,4) by (simp add: builder_inv_def)
      with None False m show ?thesis by (simp add: construct_memo_def)
    next
      case (Some p)
      then obtain e' v' w' where p: "p = (e', v', w')" "(e', v', w') \<in> set (constructed B)" "expr_eq e' e"
        by (cases p) (fastforce simp: find_Some_iff in_set_conv_nth)
      then have "w' = getWidth e'" "val_ok vc den \<rho> (array_hash B) e' v'" using B by (auto simp: builder_inv_def)
      then have "w' = getWidth e" "val_ok vc den \<rho> (array_hash B) e v'"
        using expr_eq_getWidth [OF p(3)] expr_eq_eval [OF p(3)] expr_eq_safe [OF p(3)] by (auto simp: val_ok_def)
      with Some False p(1) B show ?thesis by (simp add: construct_memo_def)
    qed
  qed
qed

context stp_semantics
begin

lemma denotes_bv: "denotes_val (den v) w x \<Longrightarrow> w \<noteq> 1 \<Longrightarrow> den v = BVV w x"
  by (simp add: denotes_val_def)

lemma denotes_bool: "denotes_val (den v) 1 x \<Longrightarrow> den v = BoolV (x = 1) \<and> (x = 0 \<or> x = 1)"
  using fits_bool_cases [of x] by (simp add: denotes_val_def)

lemma bv_denotes: "den v = BVV w x \<Longrightarrow> w \<noteq> 1 \<Longrightarrow> denotes_val (den v) w x"
  using bv_wf by (simp add: denotes_val_def)

lemma bool_denotes: "den v = BoolV b \<Longrightarrow> denotes_val (den v) 1 (of_bool b)"
  by (simp add: denotes_val_def)

subsection \<open>Constants and arrays\<close>

lemma const_loop:
  assumes "wf_const c" "den r = BVV wr x"
  shows "\<exists>v. construct_const_loop vc c r = Some v \<and> den v = BVV (wr + (ce_width c - 64)) (x + push_bit wr (drop_bit 64 (ce_value c)))"
  using assms
proof (induction "ce_width c" arbitrary: c r wr x rule: less_induct)
  case less
  show ?case
  proof (cases "64 < ce_width c")
    case False
    then have "fits 64 (ce_value c)" using less.prems(1) fits_mono by (auto simp: wf_const_def)
    then have "drop_bit 64 (ce_value c) = 0" by (simp add: drop_bit_eq_div fits_def)
    with False less.prems(2) show ?thesis by (subst construct_const_loop.simps) simp
  next
    case True
    let ?w = "ce_width c - 64"
    obtain t where t: "CE_Extract c 64 ?w = Some t" "wf_const t" "ce_width t = ?w" "ce_value t = take_bit ?w (drop_bit 64 (ce_value c))"
      using CE_Extract_correct [of c ?w 64] less.prems(1) True by (auto simp: returns_iff)
    have tv: "ce_value t = drop_bit 64 (ce_value c)"
      using t(4) less.prems(1) drop_bit_take_bit [of 64 "ce_width c" "ce_value c"] by (simp add: wf_const_def)
    let ?m = "min 64 ?w"
    obtain p where p: "CE_Extract t 0 ?m = Some p" "ce_width p = ?m" "ce_value p = take_bit ?m (ce_value t)"
      using CE_Extract_correct [of t ?m 0] t(2,3) True by (auto simp: returns_iff)
    have m: "0 < ?m" using True by simp
    have "fits 64 (ce_value p)" unfolding p(3) by (rule fits_mono [of ?m]) auto
    then have pv: "ce_getZExtValue p 64 = Some (ce_value p)" "den (bvConst64 vc ?m (ce_value p)) = BVV ?m (ce_value p)"
      using p(2,3) const64 [of ?m "ce_value p"] m by (simp_all add: ce_getZExtValue_def)
    have n: "den (vc_bvConcatExpr vc (bvConst64 vc ?m (ce_value p)) r) = BVV (wr + ?m) (push_bit wr (ce_value p) + x)"
      using den_concat [OF pv(2) less.prems(2)] by (simp add: add.commute)
    from less.hyps [OF _ t(2) n] t(3) True obtain v where
      v: "construct_const_loop vc t (vc_bvConcatExpr vc (bvConst64 vc ?m (ce_value p)) r) = Some v"
        "den v = BVV (wr + ?m + (?w - 64)) (push_bit wr (ce_value p) + x + push_bit (wr + ?m) (drop_bit 64 (ce_value t)))" by auto
    have "push_bit wr (ce_value p) + push_bit (wr + ?m) (drop_bit 64 (ce_value t)) = push_bit wr (ce_value t)"
    proof -
      have "push_bit ?m (drop_bit 64 (ce_value t)) = push_bit ?m (drop_bit ?m (ce_value t))"
      proof (cases "?w \<le> 64")
        case True
        then have "fits 64 (ce_value t)" "fits ?w (ce_value t)" using t(2,3) fits_mono by (auto simp: wf_const_def)
        then have "drop_bit 64 (ce_value t) = 0" "drop_bit ?w (ce_value t) = 0" by (auto simp: drop_bit_eq_div fits_def)
        with True show ?thesis by (simp add: min_def)
      qed (simp add: min_def)
      then have "ce_value p + push_bit ?m (drop_bit 64 (ce_value t)) = ce_value t"
        unfolding p(3) using bits_ident [of ?m "ce_value t"] by (simp add: add.commute)
      then have "push_bit wr (ce_value p + push_bit ?m (drop_bit 64 (ce_value t))) = push_bit wr (ce_value t)" by simp
      then show ?thesis by (simp add: push_bit_add add.commute)
    qed
    moreover have "wr + ?m + (?w - 64) = wr + ?w" by (simp add: min_def)
    ultimately have "den v = BVV (wr + ?w) (x + push_bit wr (drop_bit 64 (ce_value c)))"
      using v(2) tv by (simp add: algebra_simps)
    moreover have "construct_const_loop vc c r = Some v"
      using True t(1,3) p(1) pv(1) v(1) by (subst construct_const_loop.simps) (simp add: Let_def)
    ultimately show ?thesis by blast
  qed
qed

lemma construct_const_ok:
  assumes "wf_const c"
  shows "\<exists>v. construct_const vc c = Some (v, ce_width c) \<and> denotes_val (den v) (ce_width c) (ce_value c)"
proof -
  let ?w = "ce_width c" and ?x = "ce_value c"
  have w: "0 < ?w" "fits ?w ?x" using assms by (auto simp: wf_const_def)
  consider "?w = 1" | "?w \<noteq> 1" "?w \<le> 32" | "32 < ?w" "?w \<le> 64" | "64 < ?w" by linarith
  then show ?thesis
  proof cases
    case 1
    then show ?thesis using w fits_bool_cases [of ?x] den_true den_false
      by (auto simp: construct_const_def denotes_val_def ce_isTrue_def)
  next
    case 2
    then have "den (bvConst32 vc ?w ?x) = BVV ?w ?x" using w fits_mono by (intro const32) auto
    with 2 show ?thesis using bv_denotes by (simp add: construct_const_def ce_getZExtValue_def Let_def)
  next
    case 3
    then have "den (bvConst64 vc ?w ?x) = BVV ?w ?x" using w fits_mono [of ?w ?x 64] const64 [of ?w ?x] by simp
    with 3 show ?thesis using bv_denotes by (simp add: construct_const_def ce_getZExtValue_def Let_def)
  next
    case 4
    obtain l where l: "CE_Extract c 0 64 = Some l" "ce_width l = 64" "ce_value l = take_bit 64 ?x"
      using CE_Extract_correct [of c 64 0] assms 4 by (auto simp: returns_iff)
    have "den (bvConst64 vc 64 (ce_value l)) = BVV 64 (take_bit 64 ?x)" using const64 [of 64 "ce_value l"] l(3) by simp
    from const_loop [OF assms this] obtain v where
      v: "construct_const_loop vc c (bvConst64 vc 64 (ce_value l)) = Some v"
        "den v = BVV (64 + (?w - 64)) (take_bit 64 ?x + push_bit 64 (drop_bit 64 ?x))" by blast
    have "den v = BVV ?w ?x" using v(2) 4 bits_ident [of 64 ?x] by (simp add: add.commute)
    with 4 l v(1) show ?thesis using bv_denotes by (simp add: construct_const_def ce_getZExtValue_def Let_def)
  qed
qed

lemma write_const_ok:
  assumes a: "wf_array a" "isConstantArray a" "arr_domain a \<noteq> 1" "arr_range a \<noteq> 1" and i: "i < arr_size a"
    and p: "den p = ArrV (arr_domain a) (arr_range a) f"
  shows "\<exists>v. write_const vc a i p = Some v \<and> den v = ArrV (arr_domain a) (arr_range a) (f(int i := ce_value (constantValues a ! i)))"
proof -
  let ?d = "arr_domain a"
  have "int i < int (2 ^ ?d)" using i a(1) unfolding wf_array_def by linarith
  then have ix: "ce_alloc (int i) ?d = CE ?d (int i)" "wf_const (CE ?d (int i))"
    using a(1) by (auto simp: ce_alloc_def wf_array_def wf_const_def fits_def take_bit_int_eq_self)
  have "constantValues a ! i \<in> set (constantValues a)" using i a(1,2) by (auto simp: wf_array_def isConstantArray_def)
  then have c: "wf_const (constantValues a ! i)" "ce_width (constantValues a ! i) = arr_range a"
    using a(1) by (auto simp: wf_array_def list_all_iff)
  obtain v1 where v1: "construct_const vc (CE ?d (int i)) = Some (v1, ?d)" "den v1 = BVV ?d (int i)"
    using construct_const_ok [OF ix(2)] denotes_bv [of _ ?d "int i"] a(3) by auto
  obtain v2 where v2: "construct_const vc (constantValues a ! i) = Some (v2, arr_range a)" "den v2 = BVV (arr_range a) (ce_value (constantValues a ! i))"
    using construct_const_ok [OF c(1)] denotes_bv [of _ "arr_range a"] a(4) c(2) by auto
  show ?thesis using den_write [OF p v1(2) v2(2)] v1(1) v2(1) ix(1) by (simp add: write_const_def)
qed

lemma write_consts:
  assumes a: "wf_array a" "isConstantArray a" "arr_domain a \<noteq> 1" "arr_range a \<noteq> 1"
    and p: "den p = ArrV (arr_domain a) (arr_range a) f"
  shows "\<exists>v. fold_abort (write_const vc a) [0..<arr_size a] p = Some v
    \<and> den v = ArrV (arr_domain a) (arr_range a) (\<lambda>i. if fits (arr_domain a) i \<and> nat i < arr_size a then ce_value (constantValues a ! nat i) else f i)"
proof -
  define g where "g ys = (\<lambda>i. if fits (arr_domain a) i \<and> nat i \<in> set ys then ce_value (constantValues a ! nat i) else f i)" for ys
  have "returns (fold_abort (write_const vc a) [0..<arr_size a] p) (\<lambda>v. den v = ArrV (arr_domain a) (arr_range a) (g [0..<arr_size a]))"
  proof (rule returns_fold_abort [where I = "\<lambda>ys v. den v = ArrV (arr_domain a) (arr_range a) (g ys)"])
    show "den p = ArrV (arr_domain a) (arr_range a) (g [])" using p by (simp add: g_def)
    fix ys i s assume i: "set (ys @ [i]) \<subseteq> set [0..<arr_size a]" and s: "den s = ArrV (arr_domain a) (arr_range a) (g ys)"
    then have lt: "i < arr_size a" by simp
    have "int i < int (2 ^ arr_domain a)" using lt a(1) unfolding wf_array_def by linarith
    then have fi: "fits (arr_domain a) (int i)" by (simp add: fits_def)
    have "(g ys)(int i := ce_value (constantValues a ! i)) = g (ys @ [i])"
    proof
      fix j
      have "j = int i" if "fits (arr_domain a) j" "nat j = i" using that by (auto simp: fits_def)
      then show "((g ys)(int i := ce_value (constantValues a ! i))) j = g (ys @ [i]) j"
        using fi by (cases "j = int i") (auto simp: g_def)
    qed
    then show "returns (write_const vc a i s) (\<lambda>v. den v = ArrV (arr_domain a) (arr_range a) (g (ys @ [i])))"
      using write_const_ok [OF a lt s] by (auto simp: returns_iff)
  qed
  then show ?thesis by (simp add: returns_iff g_def)
qed

lemma builder_inv_array:
  assumes "builder_inv own vc den \<rho> B" "arr_ok vc den \<rho> ((a, v) # array_hash B) a NullNode v"
  shows "builder_inv own vc den \<rho> (B\<lparr>array_hash := (a, v) # array_hash B\<rparr>)"
  using assms val_ok_mono [of vc den \<rho> "array_hash B" _ _ "[(a, v)]"] arr_ok_mono [of vc den \<rho> "array_hash B" _ _ _ "[(a, v)]"]
  unfolding builder_inv_def by fastforce

lemma initial_array:
  assumes a: "wf_array a" "arr_domain a \<noteq> 1" "arr_range a \<noteq> 1"
  shows "build_array_ok own vc den \<rho> a NullNode (getInitialArray vc a)"
  unfolding build_array_ok_def
proof (intro allI impI)
  fix B assume B: "builder_inv own vc den \<rho> B"
  show "\<exists>v B' g. getInitialArray vc a B = Some (v, B') \<and> builder_inv own vc den \<rho> B' \<and> array_hash B' = g @ array_hash B
      \<and> arr_ok vc den \<rho> (array_hash B') a NullNode v"
  proof (cases "map_of (array_hash B) a")
    case (Some v)
    then have "arr_ok vc den \<rho> (array_hash B) a NullNode v" using map_of_SomeD B by (fastforce simp: builder_inv_def)
    with Some B show ?thesis by (simp add: getInitialArray_def)
  next
    case None
    let ?d = "arr_domain a" and ?r = "arr_range a" and ?h = "array_hash B"
    let ?v0 = "buildArray vc (unique_name a (length ?h)) ?d ?r"
    obtain f where f: "den ?v0 = ArrV ?d ?r f" using den_var [of ?d ?r] a(1) by (auto simp: wf_array_def buildArray_def)
    obtain v h where v: "(if isConstantArray a then fold_abort (write_const vc a) [0..<arr_size a] ?v0 else Some ?v0) = Some v"
      "den v = ArrV ?d ?r h" "\<And>i. fits ?d i \<Longrightarrow> h i = (if isConstantArray a \<and> nat i < arr_size a then ce_value (constantValues a ! nat i) else f i)"
      using write_consts [OF a(1) _ a(2,3) f] f by (cases "isConstantArray a") auto
    have "arr_ok vc den \<rho> ((a, v) # ?h) a NullNode v"
      unfolding arr_ok_def using v(2,3) f by (intro exI [of _ h]) (auto simp: initial_read_def)
    with builder_inv_array [OF B] None v(1) show ?thesis by (simp add: getInitialArray_def)
  qed
qed

subsection \<open>Operators\<close>

lemma binary_term_ok:
  assumes l: "denotes_val (den vl) w x" and r: "denotes_val (den vr) w y" and lw: "wf_expr l" "getWidth l = w"
    and k: "k \<in> {Add, Sub, SRem, And, Or, Xor, Eq, Ult, Ule, Slt, Sle}" "w = 1 \<longrightarrow> k \<in> {And, Or, Xor, Eq}"
  shows "\<exists>v z. binary_term vc k l vl vr w = Some (v, if is_cmp k then 1 else w) \<and> denotes_val (den v) (if is_cmp k then 1 else w) z
    \<and> (x = eval \<rho> l \<longrightarrow> (k = SRem \<longrightarrow> y \<noteq> 0) \<longrightarrow> z = bin_sem \<rho> k w x y)"
proof (cases "w = 1")
  case True
  note b = denotes_bool [OF l [unfolded True]] denotes_bool [OF r [unfolded True]]
  have k': "k = And \<or> k = Or \<or> k = Xor \<or> k = Eq" using k True by auto
  from k' show ?thesis
  proof (elim disjE)
    assume k: "k = And"
    show ?thesis using b bool_denotes [OF den_and [of vl "x = 1" vr "y = 1"]] k True by (auto simp: binary_term_defs)
  next
    assume k: "k = Or"
    show ?thesis using b bool_denotes [OF den_or [of vl "x = 1" vr "y = 1"]] k True by (auto simp: binary_term_defs)
  next
    assume k: "k = Xor"
    show ?thesis using b bool_denotes [of "vc_iteExpr vc vl (vc_notExpr vc vr) vr" "(x = 1) \<noteq> (y = 1)"] k True
        den_ite [of vl "x = 1" "vc_notExpr vc vr" vr] den_not [of vr "y = 1"] by (auto simp: binary_term_defs)
  next
    assume k: "k = Eq"
    show ?thesis
    proof (cases "is_ConstantExpr l")
      case True
      then obtain c where c: "l = ConstantExpr c" by (cases l) auto
      then have cw: "ce_width c = 1" "ce_value c = 0 \<or> ce_value c = 1" using lw \<open>w = 1\<close> fits_bool_cases [of "ce_value c"] by (auto simp: wf_const_def)
      show ?thesis using b bool_denotes [of vr "y = 1"] bool_denotes [OF den_not [of vr "y = 1"]] k \<open>w = 1\<close> cw c
        by (auto simp: binary_term_defs ce_isTrue_def)
    next
      case False
      then have "binary_term vc Eq l vl vr 1 = Some (vc_iffExpr vc vl vr, 1)" by (cases l) (auto simp: binary_term_defs)
      then show ?thesis using b bool_denotes [OF den_iff [of vl "x = 1" vr "y = 1"]] k \<open>w = 1\<close> by auto
    qed
  qed
next
  case False
  note b = denotes_bv [OF l False] denotes_bv [OF r False]
  have t: "take_bit w x = x" "take_bit w y = y" using l r by (auto simp: denotes_val_def)
  show ?thesis using k(1)
  proof (elim insertE emptyE)
    assume k: "k = SRem"
    obtain z where "den (vc_sbvRemExpr vc w vl vr) = BVV w z" "y \<noteq> 0 \<longrightarrow> z = ap_srem w x y" using den_srem [OF b] by blast
    with False k show ?thesis using bv_denotes by (auto simp: binary_term_defs)
  qed (use False bv_denotes [OF den_plus [OF b]] bv_denotes [OF den_minus [OF b]] bv_denotes [OF den_bvand [OF b]]
      bv_denotes [OF den_bvor [OF b]] bv_denotes [OF den_bvxor [OF b]] bool_denotes [OF den_eq [OF b]]
      bool_denotes [OF den_lt [OF b]] bool_denotes [OF den_le [OF b]] bool_denotes [OF den_slt [OF b]]
      bool_denotes [OF den_sle [OF b]] in \<open>auto simp: binary_term_defs\<close>)
qed

text \<open>The special cases for constants: either there is none, or the term built denotes the result.\<close>

definition fast_ok :: "'v option option \<Rightarrow> nat \<Rightarrow> int \<Rightarrow> bool" where
  "fast_ok m w z \<longleftrightarrow> m = Some None \<or> (\<exists>v. m = Some (Some v) \<and> den v = BVV w z)"

lemma mul_by_const_ok:
  assumes "wf_expr l" "getWidth l = w" "den vr = BVV w y"
  shows "fast_ok (mul_by_const vc l vr w) w (take_bit w (eval \<rho> l * y))"
proof (cases l)
  case (ConstantExpr c)
  then have c: "fits w (ce_value c)" "ce_width c = w" using assms by (auto simp: wf_const_def)
  show ?thesis
  proof (cases "w \<le> 64")
    case True
    then have "fits 64 (ce_value c)" using c(1) fits_mono by blast
    from mul_by_constant [OF assms(3) True this] show ?thesis
      using ConstantExpr c True by (auto simp: fast_ok_def mul_by_const_def ce_getZExtValue_def mult.commute)
  qed (simp add: fast_ok_def mul_by_const_def ConstantExpr c)
qed (simp_all add: fast_ok_def mul_by_const_def)

lemma udiv_by_const_ok:
  assumes r: "wf_expr r" "getWidth r = w" "\<And>c. r = ConstantExpr c \<Longrightarrow> ce_value c \<noteq> 0" and l: "den vl = BVV w x"
  shows "fast_ok (udiv_by_const opt vc vl w r) w (x div eval \<rho> r)"
proof (cases r)
  case (ConstantExpr c)
  then have c: "fits w (ce_value c)" "ce_width c = w" "ce_value c \<noteq> 0" using r by (auto simp: wf_const_def)
  show ?thesis
  proof (cases "w \<le> 64")
    case True
    then have f: "fits 64 (ce_value c)" using c(1) fits_mono by blast
    show ?thesis
    proof (cases "isPowerOfTwo64 (ce_value c)")
      case p: True
      then obtain i where i: "i < 64" "ce_value c = 2 ^ i" using isPowerOfTwo64_iff [OF f] by blast
      then have "i < w" using c(1) by simp
      then have "den (bvRightShift vc vl i) = BVV w (x div 2 ^ i)" using right_shift [OF l, of i] by (simp add: ap_lshr_def drop_bit_eq_div)
      with p i index64 [OF i(1)] True c(2) ConstantExpr show ?thesis by (simp add: fast_ok_def udiv_by_const_def ce_getZExtValue_def)
    next
      case False
      then show ?thesis using udiv_by_constant [of vl x "ce_value c"] l c True ConstantExpr
        by (auto simp: fast_ok_def udiv_by_const_def ce_getZExtValue_def)
    qed
  qed (simp add: fast_ok_def udiv_by_const_def ConstantExpr c)
qed (simp_all add: fast_ok_def udiv_by_const_def)

lemma sdiv_by_const_ok:
  assumes r: "wf_expr r" "getWidth r = w" "\<And>c. r = ConstantExpr c \<Longrightarrow> ce_value c \<noteq> 0" and l: "den vl = BVV w x"
  shows "fast_ok (sdiv_by_const opt vc vl w r) w (ap_sdiv w x (eval \<rho> r))"
proof (cases r)
  case (ConstantExpr c)
  then have c: "fits w (ce_value c)" "ce_width c = w" "ce_value c \<noteq> 0" using r by (auto simp: wf_const_def)
  have t: "take_bit 32 1 = (1::int)" "take_bit 32 (-1) = (2 ^ 32 - 1 :: int)" by (simp_all add: mask_eq_exp_minus_1)
  show ?thesis
  proof (cases "optimizeDivides opt \<and> ce_value c \<noteq> take_bit w 1 \<and> ce_value c \<noteq> take_bit w (-1) \<and> w = 32")
    case True
    then have "den vl = BVV 32 x" "fits 32 (ce_value c)" "ce_value c \<noteq> 1" "ce_value c \<noteq> 2 ^ 32 - 1" using l c(1) t by auto
    from sdiv_by_constant [OF this(1,2) c(3) this(3,4)] show ?thesis
      using True c ConstantExpr by (auto simp: fast_ok_def sdiv_by_const_def ce_getZExtValue_def)
  next
    case False
    then have "sdiv_by_const opt vc vl w r = Some None" unfolding ConstantExpr sdiv_by_const_def expr.case c(2) by (simp only: if_False)
    then show ?thesis by (simp add: fast_ok_def)
  qed
qed (simp_all add: fast_ok_def sdiv_by_const_def)

lemma urem_by_const_ok:
  assumes r: "wf_expr r" "getWidth r = w" "\<And>c. r = ConstantExpr c \<Longrightarrow> ce_value c \<noteq> 0" and l: "den vl = BVV w x"
  shows "fast_ok (urem_by_const opt vc vl w r) w (x mod eval \<rho> r)"
proof (cases r)
  case (ConstantExpr c)
  then have c: "fits w (ce_value c)" "ce_width c = w" "ce_value c \<noteq> 0" using r by (auto simp: wf_const_def)
  show ?thesis
  proof (cases "w \<le> 64")
    case True
    then have f: "fits 64 (ce_value c)" using c(1) fits_mono by blast
    consider (pow) "isPowerOfTwo64 (ce_value c)" | (fast) "\<not> isPowerOfTwo64 (ce_value c)" "optimizeDivides opt" "w = 32"
      | (no) "\<not> isPowerOfTwo64 (ce_value c)" "\<not> (optimizeDivides opt \<and> w = 32)" by blast
    then show ?thesis
    proof cases
      case pow
      then obtain i where i: "i < 64" "ce_value c = 2 ^ i" using isPowerOfTwo64_iff [OF f] by blast
      then have iw: "i < w" using c(1) by simp
      have "den (if i = 0 then bvZero vc w else vc_bvConcatExpr vc (bvZero vc (w - i)) (bvExtract vc vl (i - 1) 0)) = BVV w (x mod 2 ^ i)"
      proof (cases "i = 0")
        case False
        from den_concat [OF zero extract_lower [OF l], of "w - i" i] False iw show ?thesis by (simp add: take_bit_eq_mod)
      qed (use zero iw in simp)
      with pow i index64 [OF i(1)] True c(2) ConstantExpr show ?thesis by (simp add: fast_ok_def urem_by_const_def ce_getZExtValue_def)
    next
      case fast
      then have l': "den vl = BVV 32 x" and d: "fits 32 (ce_value c)" using l c by auto
      obtain q where q: "constructUDivByConstant vc vl 32 (ce_value c) = Some q" "den q = BVV 32 (x div ce_value c)"
        using udiv_by_constant [OF l' d c(3)] by blast
      obtain t where t: "constructMulByConstant vc q 32 (ce_value c) = Some t" "den t = BVV 32 (take_bit 32 (x div ce_value c * ce_value c))"
        using mul_by_constant [OF q(2) _ f] by auto
      have "0 \<le> ce_value c" "fits 32 x" using d bv_wf [OF l'] by (auto simp: fits_def)
      then have "fits 32 (x mod ce_value c)" using fits_urem d by blast
      then have "take_bit 32 (x - take_bit 32 (x div ce_value c * ce_value c)) = x mod ce_value c"
        by (simp add: take_bit_absorb minus_div_mult_eq_mod)
      with den_minus [OF l' t(2)] fast q(1) t(1) d c ConstantExpr show ?thesis
        by (simp add: fast_ok_def urem_by_const_def ce_getZExtValue_def)
    next
      case no
      then show ?thesis using True c ConstantExpr by (auto simp: fast_ok_def urem_by_const_def ce_getZExtValue_def)
    qed
  qed (simp add: fast_ok_def urem_by_const_def ConstantExpr c)
qed (simp_all add: fast_ok_def urem_by_const_def)

lemma const_shift_eq: "fits w (ce_value c) \<Longrightarrow> ce_value c < 2 ^ 32 \<Longrightarrow> int (const_shift c) = ce_value c"
  by (simp add: const_shift_def ce_getLimitedValue_def fits_def take_bit_int_eq_self)

lemma amount_term: "denotes_val (den v) w y \<Longrightarrow> w \<noteq> 1 \<Longrightarrow> w \<le> 64 \<Longrightarrow> shift_term w v y"
  using denotes_bv [of v w y] active_bits(2) [of w] less_exp [of w]
  unfolding shift_term_def denotes_val_def by (intro exI [of _ w]) auto

subsection \<open>Expressions\<close>

lemma build_okI:
  assumes "\<And>B. builder_inv own vc den \<rho> B \<Longrightarrow> \<exists>v B' g x. m B = Some ((v, getWidth e), B') \<and> builder_inv own vc den \<rho> B'
      \<and> array_hash B' = g @ array_hash B \<and> denotes_val (den v) (getWidth e) x
      \<and> (agrees vc den \<rho> (array_hash B') \<longrightarrow> safe \<rho> e \<longrightarrow> x = eval \<rho> e)"
  shows "build_ok own vc den \<rho> e m"
  unfolding build_ok_def val_ok_def
proof (intro allI impI)
  fix B assume "builder_inv own vc den \<rho> B"
  from assms [OF this] obtain v B' g x where "m B = Some ((v, getWidth e), B')" "builder_inv own vc den \<rho> B'"
    "array_hash B' = g @ array_hash B" "denotes_val (den v) (getWidth e) x"
    "agrees vc den \<rho> (array_hash B') \<longrightarrow> safe \<rho> e \<longrightarrow> x = eval \<rho> e" by (elim exE conjE)
  then show "\<exists>v B' g. m B = Some ((v, getWidth e), B') \<and> builder_inv own vc den \<rho> B' \<and> array_hash B' = g @ array_hash B
      \<and> (\<exists>x. denotes_val (den v) (getWidth e) x \<and> (agrees vc den \<rho> (array_hash B') \<longrightarrow> safe \<rho> e \<longrightarrow> x = eval \<rho> e))"
    by (intro exI conjI)
qed

lemma build_twoE:
  assumes "build_ok own vc den \<rho> e1 m1" "build_ok own vc den \<rho> e2 m2" "builder_inv own vc den \<rho> B"
  obtains v1 B1 v2 B2 g x1 x2 where "m1 B = Some ((v1, getWidth e1), B1)" "m2 B1 = Some ((v2, getWidth e2), B2)"
    "builder_inv own vc den \<rho> B2" "array_hash B2 = g @ array_hash B"
    "denotes_val (den v1) (getWidth e1) x1" "denotes_val (den v2) (getWidth e2) x2"
    "agrees vc den \<rho> (array_hash B2) \<longrightarrow> safe \<rho> e1 \<longrightarrow> x1 = eval \<rho> e1"
    "agrees vc den \<rho> (array_hash B2) \<longrightarrow> safe \<rho> e2 \<longrightarrow> x2 = eval \<rho> e2"
proof -
  obtain v1 B1 g1 x1 where 1: "m1 B = Some ((v1, getWidth e1), B1)" "builder_inv own vc den \<rho> B1" "array_hash B1 = g1 @ array_hash B"
    "denotes_val (den v1) (getWidth e1) x1" "agrees vc den \<rho> (array_hash B1) \<longrightarrow> safe \<rho> e1 \<longrightarrow> x1 = eval \<rho> e1"
    by (rule build_okE [OF assms(1,3)])
  obtain v2 B2 g2 x2 where 2: "m2 B1 = Some ((v2, getWidth e2), B2)" "builder_inv own vc den \<rho> B2" "array_hash B2 = g2 @ array_hash B1"
    "denotes_val (den v2) (getWidth e2) x2" "agrees vc den \<rho> (array_hash B2) \<longrightarrow> safe \<rho> e2 \<longrightarrow> x2 = eval \<rho> e2"
    by (rule build_okE [OF assms(2) 1(2)])
  have g: "array_hash B2 = (g2 @ g1) @ array_hash B" using 1(3) 2(3) by simp
  have "agrees vc den \<rho> (array_hash B1)" if "agrees vc den \<rho> (array_hash B2)" using that 2(3) agrees_append by simp
  with 1(5) have "agrees vc den \<rho> (array_hash B2) \<longrightarrow> safe \<rho> e1 \<longrightarrow> x1 = eval \<rho> e1" by simp
  from that [OF 1(1) 2(1,2) g 1(4) 2(4) this 2(5)] show thesis .
qed

lemma actual_const: "wf_const c \<Longrightarrow> build_ok own vc den \<rho> (ConstantExpr c) (constructActual opt vc adr (ConstantExpr c))"
  by (rule build_okI) (use construct_const_ok [of c] in fastforce)

lemma actual_read:
  assumes a: "build_array_ok own vc den \<rho> a us (getArrayForUpdate opt vc adr a us)" and i: "build_ok own vc den \<rho> i (construct opt vc adr i)"
    and wf: "wf_expr (ReadExpr s a us i)" and b: "arr_domain a \<noteq> 1" "arr_range a \<noteq> 1"
  shows "build_ok own vc den \<rho> (ReadExpr s a us i) (constructActual opt vc adr (ReadExpr s a us i))"
proof (rule build_okI)
  fix B assume "builder_inv own vc den \<rho> B"
  with a obtain v B1 g1 f where 1: "getArrayForUpdate opt vc adr a us B = Some (v, B1)" "builder_inv own vc den \<rho> B1" "array_hash B1 = g1 @ array_hash B"
    "den v = ArrV (arr_domain a) (arr_range a) f"
    "agrees vc den \<rho> (array_hash B1) \<Longrightarrow> fits (arr_domain a) j \<Longrightarrow> safe_read \<rho> us j \<Longrightarrow> f j = eval_read \<rho> a us j" for j
    unfolding build_array_ok_def arr_ok_def by blast
  obtain ix B2 g2 x where 2: "construct opt vc adr i B1 = Some ((ix, getWidth i), B2)" "builder_inv own vc den \<rho> B2" "array_hash B2 = g2 @ array_hash B1"
    "denotes_val (den ix) (getWidth i) x" "agrees vc den \<rho> (array_hash B2) \<longrightarrow> safe \<rho> i \<longrightarrow> x = eval \<rho> i"
    by (rule build_okE [OF i 1(2)])
  have w: "getWidth i = arr_domain a" "fits (arr_domain a) (eval \<rho> i)" using wf eval_fits [of i \<rho>] by simp_all
  have ix: "den ix = BVV (arr_domain a) x" using denotes_bv [OF 2(4)] b(1) w(1) by simp
  have d: "denotes_val (den (vc_readExpr vc v ix)) (arr_range a) (f x)" by (rule bv_denotes [OF den_read [OF 1(4) ix] b(2)])
  have "f x = eval_read \<rho> a us (eval \<rho> i)" if "agrees vc den \<rho> (array_hash B2)" "safe \<rho> (ReadExpr s a us i)"
  proof -
    have "agrees vc den \<rho> (array_hash B1)" using that(1) 2(3) agrees_append by simp
    then show ?thesis using 1(5) 2(5) that w(2) by simp
  qed
  with 1(1,3) 2(1,2,3) d show "\<exists>v B' g x. constructActual opt vc adr (ReadExpr s a us i) B = Some ((v, getWidth (ReadExpr s a us i)), B')
      \<and> builder_inv own vc den \<rho> B' \<and> array_hash B' = g @ array_hash B \<and> denotes_val (den v) (getWidth (ReadExpr s a us i)) x
      \<and> (agrees vc den \<rho> (array_hash B') \<longrightarrow> safe \<rho> (ReadExpr s a us i) \<longrightarrow> x = eval \<rho> (ReadExpr s a us i))"
    by (intro exI [of _ "vc_readExpr vc v ix"] exI [of _ B2] exI [of _ "g2 @ g1"] exI [of _ "f x"])
      (simp del: construct.simps getArrayForUpdate.simps)
qed

text \<open>Expressions with one operand.\<close>

lemma build_one:
  assumes e: "build_ok own vc den \<rho> e m" and m': "\<And>v B B'. m B = Some ((v, getWidth e), B') \<Longrightarrow> m' B = Some ((t v, getWidth e'), B')"
    and t: "\<And>v x. denotes_val (den v) (getWidth e) x \<Longrightarrow> \<exists>z. denotes_val (den (t v)) (getWidth e') z \<and> (x = eval \<rho> e \<longrightarrow> z = eval \<rho> e')"
    and s: "safe \<rho> e' \<Longrightarrow> safe \<rho> e"
  shows "build_ok own vc den \<rho> e' m'"
proof (rule build_okI)
  fix B assume "builder_inv own vc den \<rho> B"
  then obtain v B' g x where 1: "m B = Some ((v, getWidth e), B')" "builder_inv own vc den \<rho> B'" "array_hash B' = g @ array_hash B"
    "denotes_val (den v) (getWidth e) x" "agrees vc den \<rho> (array_hash B') \<longrightarrow> safe \<rho> e \<longrightarrow> x = eval \<rho> e"
    by (rule build_okE [OF e])
  from t [OF 1(4)] m' [OF 1(1)] 1(2,3,5) s
  show "\<exists>v B' g x. m' B = Some ((v, getWidth e'), B') \<and> builder_inv own vc den \<rho> B' \<and> array_hash B' = g @ array_hash B
      \<and> denotes_val (den v) (getWidth e') x \<and> (agrees vc den \<rho> (array_hash B') \<longrightarrow> safe \<rho> e' \<longrightarrow> x = eval \<rho> e')" by blast
qed

lemma actual_extract:
  assumes e: "build_ok own vc den \<rho> e (construct opt vc adr e)" and wf: "wf_expr (ExtractExpr e off w)" and b: "getWidth e \<noteq> 1"
  shows "build_ok own vc den \<rho> (ExtractExpr e off w) (constructActual opt vc adr (ExtractExpr e off w))"
proof (rule build_one [OF e, where t = "\<lambda>src. if w = 1 then bvBoolExtract vc src off else vc_bvExtract vc src (off + w - 1) off"])
  fix v x assume "denotes_val (den v) (getWidth e) x"
  then have v: "den v = BVV (getWidth e) x" using denotes_bv b by blast
  show "\<exists>z. denotes_val (den (if w = 1 then bvBoolExtract vc v off else vc_bvExtract vc v (off + w - 1) off)) (getWidth (ExtractExpr e off w)) z
      \<and> (x = eval \<rho> e \<longrightarrow> z = eval \<rho> (ExtractExpr e off w))"
  proof (cases "w = 1")
    case True
    have "take_bit 1 (drop_bit off x) = of_bool (bit x off)" by (simp add: take_bit_Suc bit_iff_odd_drop_bit mod_2_eq_odd)
    then show ?thesis using True wf bool_denotes [OF bool_extract [OF v, of off]] by auto
  next
    case False
    have "den (vc_bvExtract vc v (off + w - 1) off) = BVV w (take_bit w (drop_bit off x))"
      using den_extract [OF v, of off "off + w - 1"] wf by auto
    then show ?thesis using False bv_denotes by auto
  qed
qed (simp_all del: construct.simps)

lemma bool_ite:
  assumes "den c = BoolV (x = 1)" "den a = BVV w p" "den b = BVV w q" "w \<noteq> 1"
  shows "denotes_val (den (vc_iteExpr vc c a b)) w (if x = 1 then p else q)"
  using bv_denotes [OF ite_bv [OF assms(1,2,3)] assms(4)] .

lemma actual_zext:
  assumes e: "build_ok own vc den \<rho> e (construct opt vc adr e)" and wf: "wf_expr e" and b: "getWidth e < w"
  shows "build_ok own vc den \<rho> (ZExtExpr e w) (constructActual opt vc adr (ZExtExpr e w))"
proof (rule build_one [OF e, where t = "\<lambda>src. if getWidth e = 1 then vc_iteExpr vc src (bvOne vc w) (bvZero vc w)
      else vc_bvConcatExpr vc (bvZero vc (w - getWidth e)) src"])
  have w: "0 < getWidth e" "0 < w" "w \<noteq> 1" using wf_expr_width_pos [OF wf] b by auto
  fix v x assume v: "denotes_val (den v) (getWidth e) x"
  show "\<exists>z. denotes_val (den (if getWidth e = 1 then vc_iteExpr vc v (bvOne vc w) (bvZero vc w)
      else vc_bvConcatExpr vc (bvZero vc (w - getWidth e)) v)) (getWidth (ZExtExpr e w)) z \<and> (x = eval \<rho> e \<longrightarrow> z = eval \<rho> (ZExtExpr e w))"
  proof (cases "getWidth e = 1")
    case True
    note d = denotes_bool [OF v [unfolded True]]
    show ?thesis using bool_ite [OF d [THEN conjunct1] one [OF w(2)] zero [OF w(2)] w(3)] d True by auto
  next
    case False
    from den_concat [OF zero denotes_bv [OF v False], of "w - getWidth e"] b
    have "den (vc_bvConcatExpr vc (bvZero vc (w - getWidth e)) v) = BVV w x" by simp
    then show ?thesis using False bv_denotes w(3) by auto
  qed
qed (simp_all del: construct.simps)

lemma actual_sext:
  assumes e: "build_ok own vc den \<rho> e (construct opt vc adr e)" and wf: "wf_expr e" and b: "getWidth e < w"
  shows "build_ok own vc den \<rho> (SExtExpr e w) (constructActual opt vc adr (SExtExpr e w))"
proof (rule build_one [OF e, where t = "\<lambda>src. if getWidth e = 1 then vc_iteExpr vc src (bvMinusOne vc w) (bvZero vc w)
      else vc_bvSignExtend vc src w"])
  have w: "0 < getWidth e" "0 < w" "w \<noteq> 1" using wf_expr_width_pos [OF wf] b by auto
  fix v x assume v: "denotes_val (den v) (getWidth e) x"
  show "\<exists>z. denotes_val (den (if getWidth e = 1 then vc_iteExpr vc v (bvMinusOne vc w) (bvZero vc w) else vc_bvSignExtend vc v w)) (getWidth (SExtExpr e w)) z
      \<and> (x = eval \<rho> e \<longrightarrow> z = eval \<rho> (SExtExpr e w))"
  proof (cases "getWidth e = 1")
    case True
    note d = denotes_bool [OF v [unfolded True]]
    have "ap_sext 1 w x = (if x = 1 then mask w else 0)" using d ap_signed_bool [of x] by (auto simp: ap_sext_def fits_def)
    then show ?thesis using bool_ite [OF d [THEN conjunct1] minus_one [OF w(2)] zero [OF w(2)] w(3)] True by auto
  next
    case False
    from den_sext [OF denotes_bv [OF v False], of w] b show ?thesis using False bv_denotes w(3) by auto
  qed
qed (simp_all del: construct.simps)

lemma actual_not:
  assumes e: "build_ok own vc den \<rho> e (construct opt vc adr e)"
  shows "build_ok own vc den \<rho> (NotExpr e) (constructActual opt vc adr (NotExpr e))"
proof (rule build_one [OF e, where t = "\<lambda>src. if getWidth e = 1 then vc_notExpr vc src else vc_bvNotExpr vc src"])
  fix v x assume v: "denotes_val (den v) (getWidth e) x"
  show "\<exists>z. denotes_val (den (if getWidth e = 1 then vc_notExpr vc v else vc_bvNotExpr vc v)) (getWidth (NotExpr e)) z \<and> (x = eval \<rho> e \<longrightarrow> z = eval \<rho> (NotExpr e))"
  proof (cases "getWidth e = 1")
    case True
    note d = denotes_bool [OF v [unfolded True]]
    have "take_bit 1 (NOT x) = of_bool (x \<noteq> 1)" using d by auto
    then show ?thesis using bool_denotes [OF den_not [OF d [THEN conjunct1]]] True by auto
  next
    case False
    from bv_denotes [OF den_bvnot [OF denotes_bv [OF v False]] False] show ?thesis using False by auto
  qed
qed (simp_all del: construct.simps)

text \<open>Expressions whose two operands are both built, in either order.\<close>

lemma build_two:
  assumes e1: "build_ok own vc den \<rho> e1 m1" and e2: "build_ok own vc den \<rho> e2 m2"
    and m': "\<And>v1 v2 B B1 B2. m1 B = Some ((v1, getWidth e1), B1) \<Longrightarrow> m2 B1 = Some ((v2, getWidth e2), B2) \<Longrightarrow> m' B = (case t v1 v2 of Some v \<Rightarrow> Some ((v, getWidth e'), B2) | None \<Rightarrow> None)"
    and t: "\<And>v1 v2 x1 x2. denotes_val (den v1) (getWidth e1) x1 \<Longrightarrow> denotes_val (den v2) (getWidth e2) x2 \<Longrightarrow>
        \<exists>v z. t v1 v2 = Some v \<and> denotes_val (den v) (getWidth e') z \<and> (safe \<rho> e' \<longrightarrow> x1 = eval \<rho> e1 \<longrightarrow> x2 = eval \<rho> e2 \<longrightarrow> z = eval \<rho> e')"
    and s: "safe \<rho> e' \<Longrightarrow> safe \<rho> e1 \<and> safe \<rho> e2"
  shows "build_ok own vc den \<rho> e' m'"
proof (rule build_okI)
  fix B assume "builder_inv own vc den \<rho> B"
  then obtain v1 B1 v2 B2 g x1 x2 where 1: "m1 B = Some ((v1, getWidth e1), B1)" "m2 B1 = Some ((v2, getWidth e2), B2)"
    "builder_inv own vc den \<rho> B2" "array_hash B2 = g @ array_hash B"
    "denotes_val (den v1) (getWidth e1) x1" "denotes_val (den v2) (getWidth e2) x2"
    "agrees vc den \<rho> (array_hash B2) \<longrightarrow> safe \<rho> e1 \<longrightarrow> x1 = eval \<rho> e1"
    "agrees vc den \<rho> (array_hash B2) \<longrightarrow> safe \<rho> e2 \<longrightarrow> x2 = eval \<rho> e2"
    by (rule build_twoE [OF e1 e2])
  from t [OF 1(5,6)] obtain v z where v: "t v1 v2 = Some v" "denotes_val (den v) (getWidth e') z"
    "safe \<rho> e' \<longrightarrow> x1 = eval \<rho> e1 \<longrightarrow> x2 = eval \<rho> e2 \<longrightarrow> z = eval \<rho> e'" by blast
  have "m' B = Some ((v, getWidth e'), B2)" using m' [OF 1(1,2)] v(1) by simp
  moreover have "agrees vc den \<rho> (array_hash B2) \<longrightarrow> safe \<rho> e' \<longrightarrow> z = eval \<rho> e'" using v(3) 1(7,8) s by blast
  ultimately show "\<exists>v B' g x. m' B = Some ((v, getWidth e'), B') \<and> builder_inv own vc den \<rho> B' \<and> array_hash B' = g @ array_hash B
      \<and> denotes_val (den v) (getWidth e') x \<and> (agrees vc den \<rho> (array_hash B') \<longrightarrow> safe \<rho> e' \<longrightarrow> x = eval \<rho> e')"
    using 1(3,4) v(2) by blast
qed

lemma actual_concat:
  assumes l: "build_ok own vc den \<rho> l (construct opt vc adr l)" and r: "build_ok own vc den \<rho> r (construct opt vc adr r)"
    and b: "getWidth l \<noteq> 1" "getWidth r \<noteq> 1" and wf: "wf_expr l" "wf_expr r"
  shows "build_ok own vc den \<rho> (ConcatExpr l r) (constructActual opt vc adr (ConcatExpr l r))"
proof (rule build_two [OF r l, where t = "\<lambda>res left. Some (vc_bvConcatExpr vc left res)"])
  fix v1 v2 x1 x2 assume "denotes_val (den v1) (getWidth r) x1" "denotes_val (den v2) (getWidth l) x2"
  note d = den_concat [OF denotes_bv [OF this(2) b(1)] denotes_bv [OF this(1) b(2)]]
  have "getWidth l + getWidth r \<noteq> 1" using wf_expr_width_pos [OF wf(1)] wf_expr_width_pos [OF wf(2)] by linarith
  from bv_denotes [OF d this] show "\<exists>v z. Some (vc_bvConcatExpr vc v2 v1) = Some v \<and> denotes_val (den v) (getWidth (ConcatExpr l r)) z
      \<and> (safe \<rho> (ConcatExpr l r) \<longrightarrow> x1 = eval \<rho> r \<longrightarrow> x2 = eval \<rho> l \<longrightarrow> z = eval \<rho> (ConcatExpr l r))" by auto
qed (simp_all del: construct.simps)

lemma actual_select:
  assumes c: "build_ok own vc den \<rho> c (construct opt vc adr c)" and t: "build_ok own vc den \<rho> t (construct opt vc adr t)" and f: "build_ok own vc den \<rho> f (construct opt vc adr f)"
    and wf: "wf_expr (SelectExpr c t f)"
  shows "build_ok own vc den \<rho> (SelectExpr c t f) (constructActual opt vc adr (SelectExpr c t f))"
proof (rule build_okI)
  fix B assume "builder_inv own vc den \<rho> B"
  then obtain vc' B1 g1 xc where 1: "construct opt vc adr c B = Some ((vc', getWidth c), B1)" "builder_inv own vc den \<rho> B1" "array_hash B1 = g1 @ array_hash B"
    "denotes_val (den vc') (getWidth c) xc" "agrees vc den \<rho> (array_hash B1) \<longrightarrow> safe \<rho> c \<longrightarrow> xc = eval \<rho> c"
    by (rule build_okE [OF c])
  from 1(2) obtain vt B2 vf B3 g xt xf where 2: "construct opt vc adr t B1 = Some ((vt, getWidth t), B2)" "construct opt vc adr f B2 = Some ((vf, getWidth f), B3)"
    "builder_inv own vc den \<rho> B3" "array_hash B3 = g @ array_hash B1"
    "denotes_val (den vt) (getWidth t) xt" "denotes_val (den vf) (getWidth f) xf"
    "agrees vc den \<rho> (array_hash B3) \<longrightarrow> safe \<rho> t \<longrightarrow> xt = eval \<rho> t"
    "agrees vc den \<rho> (array_hash B3) \<longrightarrow> safe \<rho> f \<longrightarrow> xf = eval \<rho> f"
    by (rule build_twoE [OF t f])
  have w: "getWidth c = 1" "getWidth f = getWidth t" using wf by simp_all
  note b = denotes_bool [OF 1(4) [unfolded w(1)]]
  have "same_type (den vt) (den vf)" using 2(5,6) w(2) by (simp add: denotes_val_def)
  then have "den (vc_iteExpr vc vc' vt vf) = (if xc = 1 then den vt else den vf)" using den_ite b by blast
  then have d: "denotes_val (den (vc_iteExpr vc vc' vt vf)) (getWidth t) (if xc = 1 then xt else xf)" using 2(5,6) w(2) by simp
  have "(if xc = 1 then xt else xf) = eval \<rho> (SelectExpr c t f)" if "agrees vc den \<rho> (array_hash B3)" "safe \<rho> (SelectExpr c t f)"
  proof -
    have "agrees vc den \<rho> (array_hash B1)" using that(1) 2(4) agrees_append by simp
    then show ?thesis using that 1(5) 2(7,8) by (auto split: if_splits)
  qed
  then show "\<exists>v B' g x. constructActual opt vc adr (SelectExpr c t f) B = Some ((v, getWidth (SelectExpr c t f)), B')
      \<and> builder_inv own vc den \<rho> B' \<and> array_hash B' = g @ array_hash B \<and> denotes_val (den v) (getWidth (SelectExpr c t f)) x
      \<and> (agrees vc den \<rho> (array_hash B') \<longrightarrow> safe \<rho> (SelectExpr c t f) \<longrightarrow> x = eval \<rho> (SelectExpr c t f))"
    using 1(1,3) 2(1,2,3,4) d w(2)
    by (intro exI [of _ "vc_iteExpr vc vc' vt vf"] exI [of _ B3] exI [of _ "g @ g1"] exI [of _ "if xc = 1 then xt else xf"])
      (simp del: construct.simps eval.simps safe.simps)
qed

text \<open>Operators with a special case for constants: the first operand is built, the second only if there is none.\<close>

lemma build_fast:
  assumes e1: "build_ok own vc den \<rho> e1 m1" and e2: "build_ok own vc den \<rho> e2 m2"
    and m1': "\<And>v1 v B B1. m1 B = Some ((v1, getWidth e1), B1) \<Longrightarrow> fast v1 = Some (Some v) \<Longrightarrow> m' B = Some ((v, w), B1)"
    and m2': "\<And>v1 v2 B B1 B2. m1 B = Some ((v1, getWidth e1), B1) \<Longrightarrow> fast v1 = Some None \<Longrightarrow> m2 B1 = Some ((v2, getWidth e2), B2) \<Longrightarrow> m' B = Some ((t v1 v2, w), B2)"
    and w: "getWidth e1 = w" "getWidth e2 = w" "getWidth e' = w" "w \<noteq> 1"
    and f: "\<And>v1 x1. den v1 = BVV w x1 \<Longrightarrow> fast_ok (fast v1) w (op x1 (eval \<rho> e2))"
    and t: "\<And>v1 v2 x1 x2. den v1 = BVV w x1 \<Longrightarrow> den v2 = BVV w x2 \<Longrightarrow> \<exists>z. den (t v1 v2) = BVV w z \<and> (Q x2 \<longrightarrow> z = op x1 x2)"
    and s: "safe \<rho> e' \<Longrightarrow> safe \<rho> e1 \<and> safe \<rho> e2 \<and> Q (eval \<rho> e2)" and v: "eval \<rho> e' = op (eval \<rho> e1) (eval \<rho> e2) \<or> \<not> safe \<rho> e'"
  shows "build_ok own vc den \<rho> e' m'"
proof (rule build_okI)
  fix B assume "builder_inv own vc den \<rho> B"
  then obtain v1 B1 v2 B2 g x1 x2 where 1: "m1 B = Some ((v1, getWidth e1), B1)" "m2 B1 = Some ((v2, getWidth e2), B2)"
    "builder_inv own vc den \<rho> B2" "array_hash B2 = g @ array_hash B"
    "denotes_val (den v1) (getWidth e1) x1" "denotes_val (den v2) (getWidth e2) x2"
    "agrees vc den \<rho> (array_hash B2) \<longrightarrow> safe \<rho> e1 \<longrightarrow> x1 = eval \<rho> e1"
    "agrees vc den \<rho> (array_hash B2) \<longrightarrow> safe \<rho> e2 \<longrightarrow> x2 = eval \<rho> e2"
    by (rule build_twoE [OF e1 e2])
  obtain v1' B1' g1 x1' where 2: "m1 B = Some ((v1', getWidth e1), B1')" "builder_inv own vc den \<rho> B1'" "array_hash B1' = g1 @ array_hash B"
    "denotes_val (den v1') (getWidth e1) x1'" "agrees vc den \<rho> (array_hash B1') \<longrightarrow> safe \<rho> e1 \<longrightarrow> x1' = eval \<rho> e1"
    by (rule build_okE [OF e1 \<open>builder_inv own vc den \<rho> B\<close>])
  have eq: "v1' = v1" "B1' = B1" using 1(1) 2(1) by simp_all
  have d1: "den v1 = BVV w x1'" using 2(4) w(1,4) eq denotes_bv by blast
  from f [OF d1] consider "fast v1 = Some None" | u where "fast v1 = Some (Some u)" "den u = BVV w (op x1' (eval \<rho> e2))"
    unfolding fast_ok_def by blast
  then show "\<exists>v B' g x. m' B = Some ((v, getWidth e'), B') \<and> builder_inv own vc den \<rho> B' \<and> array_hash B' = g @ array_hash B
      \<and> denotes_val (den v) (getWidth e') x \<and> (agrees vc den \<rho> (array_hash B') \<longrightarrow> safe \<rho> e' \<longrightarrow> x = eval \<rho> e')"
  proof cases
    case 1
    have d: "den v1 = BVV w x1" "den v2 = BVV w x2" using \<open>denotes_val (den v1) (getWidth e1) x1\<close> \<open>denotes_val (den v2) (getWidth e2) x2\<close> w denotes_bv by auto
    from t [OF this] obtain z where z: "den (t v1 v2) = BVV w z" "Q x2 \<longrightarrow> z = op x1 x2" by blast
    have "agrees vc den \<rho> (array_hash B2) \<longrightarrow> safe \<rho> e' \<longrightarrow> z = eval \<rho> e'"
      using z(2) s v \<open>agrees vc den \<rho> (array_hash B2) \<longrightarrow> safe \<rho> e1 \<longrightarrow> x1 = eval \<rho> e1\<close>
        \<open>agrees vc den \<rho> (array_hash B2) \<longrightarrow> safe \<rho> e2 \<longrightarrow> x2 = eval \<rho> e2\<close> by auto
    moreover have "m' B = Some ((t v1 v2, w), B2)"
      by (rule m2' [OF \<open>m1 B = Some ((v1, getWidth e1), B1)\<close> 1 \<open>m2 B1 = Some ((v2, getWidth e2), B2)\<close>])
    ultimately show ?thesis
      using bv_denotes [OF z(1) w(4)] w(3) \<open>builder_inv own vc den \<rho> B2\<close> \<open>array_hash B2 = g @ array_hash B\<close> by blast
  next
    case (2 u)
    have "agrees vc den \<rho> (array_hash B1) \<longrightarrow> safe \<rho> e' \<longrightarrow> op x1' (eval \<rho> e2) = eval \<rho> e'"
      using s v \<open>agrees vc den \<rho> (array_hash B1') \<longrightarrow> safe \<rho> e1 \<longrightarrow> x1' = eval \<rho> e1\<close> eq by auto
    moreover have "m' B = Some ((u, w), B1)" by (rule m1' [OF \<open>m1 B = Some ((v1, getWidth e1), B1)\<close> 2(1)])
    ultimately show ?thesis
      using bv_denotes [OF 2(2) w(4)] w(3) eq \<open>builder_inv own vc den \<rho> B1'\<close> \<open>array_hash B1' = g1 @ array_hash B\<close> by blast
  qed
qed

lemma actual_mul:
  assumes l: "build_ok own vc den \<rho> l (construct opt vc adr l)" and r: "build_ok own vc den \<rho> r (construct opt vc adr r)"
    and wf: "wf_expr (BinaryExpr Mul l r)" and k: "getWidth l \<noteq> 1"
  shows "build_ok own vc den \<rho> (BinaryExpr Mul l r) (constructActual opt vc adr (BinaryExpr Mul l r))"
proof (rule build_fast [OF r l, where fast = "\<lambda>right. mul_by_const vc l right (getWidth l)" and w = "getWidth l"
      and t = "\<lambda>right left. vc_bvMultExpr vc (getWidth l) left right" and op = "\<lambda>y x. take_bit (getWidth l) (x * y)" and Q = "\<lambda>_. True"])
  show "fast_ok (mul_by_const vc l v1 (getWidth l)) (getWidth l) (take_bit (getWidth l) (eval \<rho> l * x1))" if "den v1 = BVV (getWidth l) x1" for v1 x1
    using mul_by_const_ok [OF _ refl that] wf by simp
  show "\<exists>z. den (vc_bvMultExpr vc (getWidth l) v2 v1) = BVV (getWidth l) z \<and> (True \<longrightarrow> z = take_bit (getWidth l) (x2 * x1))"
    if "den v1 = BVV (getWidth l) x1" "den v2 = BVV (getWidth l) x2" for v1 v2 x1 x2
    using den_mult [OF that(2,1)] by blast
qed (use wf k in \<open>auto simp del: construct.simps\<close>)

lemma actual_div:
  fixes fast :: "builder_options \<Rightarrow> 'v stp \<Rightarrow> 'v \<Rightarrow> nat \<Rightarrow> expr \<Rightarrow> 'v option option" and g :: "'v stp \<Rightarrow> nat \<Rightarrow> 'v \<Rightarrow> 'v \<Rightarrow> 'v"
  assumes l: "build_ok own vc den \<rho> l (construct opt vc adr l)" and r: "build_ok own vc den \<rho> r (construct opt vc adr r)"
    and wf: "wf_expr (BinaryExpr k l r)" and w: "getWidth l \<noteq> 1" and c: "\<And>c. r = ConstantExpr c \<Longrightarrow> ce_value c \<noteq> 0"
    and k: "(k, fast, g, op) \<in> {(UDiv, udiv_by_const, vc_bvDivExpr, (div)), (SDiv, sdiv_by_const, vc_sbvDivExpr, ap_sdiv (getWidth l)), (URem, urem_by_const, vc_bvModExpr, (mod))}"
  shows "build_ok own vc den \<rho> (BinaryExpr k l r) (constructActual opt vc adr (BinaryExpr k l r))"
proof (rule build_fast [OF l r, where fast = "\<lambda>left. fast opt vc left (getWidth l) r" and w = "getWidth l"
      and t = "\<lambda>left right. g vc (getWidth l) left right" and op = op and Q = "\<lambda>y. y \<noteq> 0"])
  have rw: "wf_expr r" "getWidth r = getWidth l" using wf by simp_all
  show "fast_ok (fast opt vc v1 (getWidth l) r) (getWidth l) (op x1 (eval \<rho> r))" if "den v1 = BVV (getWidth l) x1" for v1 x1
    using udiv_by_const_ok [OF rw c that] sdiv_by_const_ok [OF rw c that] urem_by_const_ok [OF rw c that] k by auto
  show "\<exists>z. den (g vc (getWidth l) v1 v2) = BVV (getWidth l) z \<and> (x2 \<noteq> 0 \<longrightarrow> z = op x1 x2)"
    if "den v1 = BVV (getWidth l) x1" "den v2 = BVV (getWidth l) x2" for v1 v2 x1 x2
    using den_div [OF that] den_sdiv [OF that] den_mod [OF that] k by auto
qed (use wf k w in \<open>auto simp del: construct.simps\<close>)

lemma binary_term_width: "binary_term vc k l v1 v2 w = Some (v, w') \<Longrightarrow> w' = (if is_cmp k then 1 else w)"
  by (cases k) (auto simp: binary_term_defs bind_eq_Some_conv split: if_splits expr.splits)

lemma actual_simple:
  assumes l: "build_ok own vc den \<rho> l (construct opt vc adr l)" and r: "build_ok own vc den \<rho> r (construct opt vc adr r)"
    and wf: "wf_expr (BinaryExpr k l r)"
    and k: "k \<in> {Add, Sub, SRem, And, Or, Xor, Eq, Ult, Ule, Slt, Sle}" "getWidth l = 1 \<longrightarrow> k \<in> {And, Or, Xor, Eq}"
  shows "build_ok own vc den \<rho> (BinaryExpr k l r) (constructActual opt vc adr (BinaryExpr k l r))"
proof (rule build_two [OF l r, where t = "\<lambda>v1 v2. map_option fst (binary_term vc k l v1 v2 (getWidth l))"])
  have w: "wf_expr l" "getWidth r = getWidth l" using wf by simp_all
  fix v1 v2 x1 x2 assume d: "denotes_val (den v1) (getWidth l) x1" "denotes_val (den v2) (getWidth r) x2"
  from binary_term_ok [OF d(1) d(2) [unfolded w(2)] w(1) refl k] obtain v z where
    v: "binary_term vc k l v1 v2 (getWidth l) = Some (v, if is_cmp k then 1 else getWidth l)"
      "denotes_val (den v) (if is_cmp k then 1 else getWidth l) z"
      "x1 = eval \<rho> l \<longrightarrow> (k = SRem \<longrightarrow> x2 \<noteq> 0) \<longrightarrow> z = bin_sem \<rho> k (getWidth l) x1 x2" by blast
  show "\<exists>v z. map_option fst (binary_term vc k l v1 v2 (getWidth l)) = Some v \<and> denotes_val (den v) (getWidth (BinaryExpr k l r)) z
      \<and> (safe \<rho> (BinaryExpr k l r) \<longrightarrow> x1 = eval \<rho> l \<longrightarrow> x2 = eval \<rho> r \<longrightarrow> z = eval \<rho> (BinaryExpr k l r))"
    using v by (intro exI [of _ v] exI [of _ z]) auto
next
  fix v1 v2 B B1 B2
  assume 1: "construct opt vc adr l B = Some ((v1, getWidth l), B1)" "construct opt vc adr r B1 = Some ((v2, getWidth r), B2)"
  have w: "getWidth r = getWidth l" using wf by simp
  have b: "w' = getWidth (BinaryExpr k l r)" if "binary_term vc k l v1 v2 (getWidth l) = Some (v, w')" for v w'
    using binary_term_width [OF that] by simp
  have "constructActual opt vc adr (BinaryExpr k l r) B = do { v \<leftarrow> binary_term vc k l v1 v2 (getWidth l); Some (v, B2) }"
    using k(1) 1 w by (elim insertE emptyE) (simp_all del: construct.simps)
  with b show "constructActual opt vc adr (BinaryExpr k l r) B = (case map_option fst (binary_term vc k l v1 v2 (getWidth l)) of
      Some v \<Rightarrow> Some ((v, getWidth (BinaryExpr k l r)), B2) | None \<Rightarrow> None)"
    by (cases "binary_term vc k l v1 v2 (getWidth l)") (auto simp del: construct.simps constructActual.simps getWidth.simps)
qed simp

text \<open>Shifts: by a constant, or by a term.\<close>

lemma actual_shift_const:
  assumes l: "build_ok own vc den \<rho> l (construct opt vc adr l)" and wf: "wf_expr (BinaryExpr k l (ConstantExpr c))"
    and k: "k \<in> {Shl, LShr, AShr}" "getWidth l \<noteq> 1" "ce_value c < 2 ^ 32"
  shows "build_ok own vc den \<rho> (BinaryExpr k l (ConstantExpr c)) (constructActual opt vc adr (BinaryExpr k l (ConstantExpr c)))"
proof (rule build_okI)
  let ?e = "BinaryExpr k l (ConstantExpr c)" and ?w = "getWidth l"
  define t where "t v = (if k = Shl then bvLeftShift vc v (const_shift c) else if k = LShr then bvRightShift vc v (const_shift c)
    else constructAShrByConstant vc v (const_shift c) (bvBoolExtract vc v (?w - 1)))" for v
  have n: "int (const_shift c) = ce_value c" using const_shift_eq [of ?w c] wf k(3) by (auto simp: wf_const_def)
  have w: "getWidth ?e = ?w" "0 < ?w" using k(1) wf wf_expr_width_pos [of l] by (auto simp: is_cmp_def)
  fix B assume "builder_inv own vc den \<rho> B"
  then obtain v B' g x where 1: "construct opt vc adr l B = Some ((v, ?w), B')" "builder_inv own vc den \<rho> B'" "array_hash B' = g @ array_hash B"
    "denotes_val (den v) ?w x" "agrees vc den \<rho> (array_hash B') \<longrightarrow> safe \<rho> l \<longrightarrow> x = eval \<rho> l"
    by (rule build_okE [OF l])
  note d = denotes_bv [OF 1(4) k(2)]
  have "\<exists>z. den (t v) = BVV ?w z \<and> (x = eval \<rho> l \<longrightarrow> safe \<rho> ?e \<longrightarrow> z = eval \<rho> ?e)"
    using k(1) left_shift [OF d, of "const_shift c"] right_shift [OF d, of "const_shift c"]
      ashr_const [OF d bool_extract [OF d], of "const_shift c"] n w(2) by (auto simp: t_def)
  then obtain z where z: "den (t v) = BVV ?w z" "x = eval \<rho> l \<longrightarrow> safe \<rho> ?e \<longrightarrow> z = eval \<rho> ?e" by blast
  moreover have "constructActual opt vc adr ?e B = Some ((t v, ?w), B')"
    using k(1,2) 1(1) by (elim insertE emptyE) (simp_all add: t_def del: construct.simps)
  ultimately show "\<exists>v B' g x. constructActual opt vc adr ?e B = Some ((v, getWidth ?e), B') \<and> builder_inv own vc den \<rho> B'
      \<and> array_hash B' = g @ array_hash B \<and> denotes_val (den v) (getWidth ?e) x \<and> (agrees vc den \<rho> (array_hash B') \<longrightarrow> safe \<rho> ?e \<longrightarrow> x = eval \<rho> ?e)"
    unfolding w(1) using 1(2,3,5) bv_denotes [OF z(1) k(2)]
    by (intro exI [of _ "t v"] exI [of _ B'] exI [of _ g] exI [of _ z]) auto
qed

lemma actual_shift_term:
  assumes l: "build_ok own vc den \<rho> l (construct opt vc adr l)" and r: "build_ok own vc den \<rho> r (construct opt vc adr r)" and wf: "wf_expr (BinaryExpr k l r)"
    and k: "k \<in> {Shl, LShr, AShr}" "getWidth l \<noteq> 1" "getWidth l \<le> 64" and c: "\<not> is_ConstantExpr r"
  shows "build_ok own vc den \<rho> (BinaryExpr k l r) (constructActual opt vc adr (BinaryExpr k l r))"
proof (rule build_two [OF l r, where t = "\<lambda>v1 v2. if k = Shl then bvVarLeftShift vc v1 v2 else if k = LShr then bvVarRightShift vc v1 v2
    else bvVarArithRightShift vc v1 v2"])
  have w: "getWidth r = getWidth l" "getWidth (BinaryExpr k l r) = getWidth l" using k(1) wf by (auto simp: is_cmp_def)
  fix v1 v2 x1 x2 assume d: "denotes_val (den v1) (getWidth l) x1" "denotes_val (den v2) (getWidth r) x2"
  note d1 = denotes_bv [OF d(1) k(2)] and s = amount_term [OF d(2) [unfolded w(1)] k(2,3)]
  show "\<exists>v z. (if k = Shl then bvVarLeftShift vc v1 v2 else if k = LShr then bvVarRightShift vc v1 v2 else bvVarArithRightShift vc v1 v2) = Some v
      \<and> denotes_val (den v) (getWidth (BinaryExpr k l r)) z
      \<and> (safe \<rho> (BinaryExpr k l r) \<longrightarrow> x1 = eval \<rho> l \<longrightarrow> x2 = eval \<rho> r \<longrightarrow> z = eval \<rho> (BinaryExpr k l r))"
    using k(1)
  proof (elim insertE emptyE)
    assume "k = Shl"
    with var_left_shift [OF d1 s] bv_denotes k(2) show ?thesis by fastforce
  next
    assume "k = LShr"
    with var_right_shift [OF d1 s] bv_denotes k(2) show ?thesis by fastforce
  next
    assume ka: "k = AShr"
    obtain v where v: "bvVarArithRightShift vc v1 v2 = Some v" "den v = BVV (getWidth l) (if x2 < int (getWidth l) then ap_ashr (getWidth l) x1 x2 else 0)"
      using var_arith_right_shift [OF d1 s] by blast
    with ka bv_denotes [OF v(2) k(2)] show ?thesis by auto
  qed
next
  fix v1 v2 B B1 B2
  assume "construct opt vc adr l B = Some ((v1, getWidth l), B1)" "construct opt vc adr r B1 = Some ((v2, getWidth r), B2)"
  then show "constructActual opt vc adr (BinaryExpr k l r) B = (case (if k = Shl then bvVarLeftShift vc v1 v2
      else if k = LShr then bvVarRightShift vc v1 v2 else bvVarArithRightShift vc v1 v2) of
      Some v \<Rightarrow> Some ((v, getWidth (BinaryExpr k l r)), B2) | None \<Rightarrow> None)"
    using k(1,2) c wf
    by (elim insertE emptyE; cases r; simp add: is_cmp_def del: construct.simps split: option.splits)
qed simp

lemma actual_binary:
  assumes l: "build_ok own vc den \<rho> l (construct opt vc adr l)" and r: "build_ok own vc den \<rho> r (construct opt vc adr r)"
    and wf: "wf_expr (BinaryExpr k l r)" and b: "kind_buildable k (getWidth l) r"
  shows "build_ok own vc den \<rho> (BinaryExpr k l r) (constructActual opt vc adr (BinaryExpr k l r))"
proof -
  consider (s) "k \<in> {Add, Sub, SRem, And, Or, Xor, Eq, Ult, Ule, Slt, Sle}" | (m) "k = Mul" | (d) "k \<in> {UDiv, SDiv, URem}" | (sh) "k \<in> {Shl, LShr, AShr}"
    using b by (cases k) (auto simp: kind_buildable_def)
  then show ?thesis
  proof cases
    case s
    then show ?thesis using actual_simple [OF l r wf] b by (auto simp: kind_buildable_def)
  next
    case m
    then show ?thesis using actual_mul [OF l r] wf b by (auto simp: kind_buildable_def)
  next
    case d
    have "getWidth l \<noteq> 1" "\<And>c. r = ConstantExpr c \<Longrightarrow> ce_value c \<noteq> 0" using d b by (auto simp: kind_buildable_def)
    then show ?thesis using actual_div [OF l r wf] d by blast
  next
    case sh
    then show ?thesis using actual_shift_const [OF l, of k] actual_shift_term [OF l r wf sh] wf b
      by (cases r) (auto simp: kind_buildable_def)
  qed
qed

lemma update_node:
  assumes n: "build_array_ok own vc den \<rho> a n (getArrayForUpdate opt vc adr a n)"
    and i: "build_ok own vc den \<rho> ix (construct opt vc adr ix)" and v: "build_ok own vc den \<rho> v (construct opt vc adr v)"
    and wf: "wf_unode a (UpdateNode n ix v)" and a: "arr_domain a \<noteq> 1" "arr_range a \<noteq> 1"
    and k: "own (adr a (UpdateNode n ix v)) = (a, UpdateNode n ix v)"
  shows "build_array_ok own vc den \<rho> a (UpdateNode n ix v) (getArrayForUpdate opt vc adr a (UpdateNode n ix v))"
  unfolding build_array_ok_def
proof (intro allI impI)
  let ?n = "UpdateNode n ix v"
  fix B assume B: "builder_inv own vc den \<rho> B"
  show "\<exists>t B' g. getArrayForUpdate opt vc adr a ?n B = Some (t, B') \<and> builder_inv own vc den \<rho> B' \<and> array_hash B' = g @ array_hash B
      \<and> arr_ok vc den \<rho> (array_hash B') a ?n t"
  proof (cases "map_of (update_node_hash B) (adr a ?n)")
    case (Some t)
    then have "arr_ok vc den \<rho> (array_hash B) a ?n t" using map_of_SomeD [OF Some] B k by (fastforce simp: builder_inv_def)
    with Some B show ?thesis by simp
  next
    case None
    from n B obtain t B1 g1 f where 1: "getArrayForUpdate opt vc adr a n B = Some (t, B1)" "builder_inv own vc den \<rho> B1" "array_hash B1 = g1 @ array_hash B"
      "den t = ArrV (arr_domain a) (arr_range a) f"
      "agrees vc den \<rho> (array_hash B1) \<longrightarrow> (\<forall>j. fits (arr_domain a) j \<longrightarrow> safe_read \<rho> n j \<longrightarrow> f j = eval_read \<rho> a n j)"
      unfolding build_array_ok_def arr_ok_def by blast
    from 1(2) obtain vi B2 vv B3 g x y where 2: "construct opt vc adr ix B1 = Some ((vi, getWidth ix), B2)" "construct opt vc adr v B2 = Some ((vv, getWidth v), B3)"
      "builder_inv own vc den \<rho> B3" "array_hash B3 = g @ array_hash B1" "denotes_val (den vi) (getWidth ix) x" "denotes_val (den vv) (getWidth v) y"
      "agrees vc den \<rho> (array_hash B3) \<longrightarrow> safe \<rho> ix \<longrightarrow> x = eval \<rho> ix" "agrees vc den \<rho> (array_hash B3) \<longrightarrow> safe \<rho> v \<longrightarrow> y = eval \<rho> v"
      by (rule build_twoE [OF i v])
    have d: "den vi = BVV (arr_domain a) x" "den vv = BVV (arr_range a) y"
      using denotes_bv [OF 2(5)] denotes_bv [OF 2(6)] wf a by simp_all
    note t = den_write [OF 1(4) d]
    let ?t = "vc_writeExpr vc t vi vv" and ?B = "B3\<lparr>update_node_hash := (adr a ?n, vc_writeExpr vc t vi vv) # update_node_hash B3\<rparr>"
    have "(f(x := y)) j = eval_read \<rho> a ?n j" if "agrees vc den \<rho> (array_hash B3)" "fits (arr_domain a) j" "safe_read \<rho> ?n j" for j
    proof -
      have "agrees vc den \<rho> (array_hash B1)" using that(1) 2(4) agrees_append by simp
      then show ?thesis using that 1(5) 2(7,8) by (auto split: if_splits)
    qed
    then have ok: "arr_ok vc den \<rho> (array_hash B3) a ?n ?t" unfolding arr_ok_def using t by blast
    then have "builder_inv own vc den \<rho> ?B" using 2(3) k by (auto simp: builder_inv_def)
    moreover have "getArrayForUpdate opt vc adr a ?n B = Some (?t, ?B)" using None 1(1) 2(1,2) by (simp add: Let_def del: construct.simps)
    moreover have "array_hash ?B = (g @ g1) @ array_hash B" using 1(3) 2(4) by simp
    moreover have "arr_ok vc den \<rho> (array_hash ?B) a ?n ?t" using ok by simp
    ultimately show ?thesis by blast
  qed
qed

lemma via_memo: "build_ok own vc den \<rho> e (constructActual opt vc adr e) \<Longrightarrow> build_ok own vc den \<rho> e (construct opt vc adr e)"
  by (simp add: memo_ok)

theorem construct_ok:
  "wf_expr e \<Longrightarrow> buildable e \<Longrightarrow> owned own adr (nodes e) \<Longrightarrow> build_ok own vc den \<rho> e (construct opt vc adr e)"
  "wf_array a \<Longrightarrow> wf_unode a n \<Longrightarrow> arr_domain a \<noteq> 1 \<Longrightarrow> arr_range a \<noteq> 1 \<Longrightarrow> buildable_node n \<Longrightarrow> owned own adr (chain_nodes a n)
    \<Longrightarrow> build_array_ok own vc den \<rho> a n (getArrayForUpdate opt vc adr a n)"
proof (induction e and n arbitrary: and a)
  case (NotOptimizedExpr e)
  then have "build_ok own vc den \<rho> (NotOptimizedExpr e) (construct opt vc adr e)" by (simp add: build_ok_def val_ok_def del: construct.simps)
  then have "build_ok own vc den \<rho> (NotOptimizedExpr e) (constructActual opt vc adr (NotOptimizedExpr e))" by (simp del: construct.simps)
  then show ?case by (rule via_memo)
next
  case (ReadExpr s a us i)
  then show ?case by (intro via_memo [OF actual_read]) (simp_all del: construct.simps)
next
  case (BinaryExpr k l r)
  then show ?case by (intro via_memo [OF actual_binary]) (simp_all del: construct.simps)
next
  case NullNode
  then show ?case using initial_array by simp
next
  case (UpdateNode n ix v)
  then show ?case by (intro update_node) (simp_all del: construct.simps)
next
  case (SelectExpr c t f)
  then show ?case by (intro via_memo [OF actual_select]) (simp_all del: construct.simps)
next
  case (ConcatExpr l r)
  then show ?case by (intro via_memo [OF actual_concat]) (simp_all del: construct.simps)
next
  case (ExtractExpr e off w)
  then show ?case by (intro via_memo [OF actual_extract]) (simp_all del: construct.simps)
qed (simp_all add: via_memo [OF actual_const] via_memo [OF actual_zext] via_memo [OF actual_sext] via_memo [OF actual_not] del: construct.simps)

end

subsection \<open>Queries\<close>

text \<open>A query is an expression, and where its update nodes are in memory.\<close>

fun construct_queries :: "builder_options \<Rightarrow> 'v stp \<Rightarrow> (node_addresses \<times> expr) list \<Rightarrow> 'v builder \<Rightarrow> ('v list \<times> 'v builder) option" where
  "construct_queries opt vc [] B = Some ([], B)"
| "construct_queries opt vc ((adr, e) # qs) B =
     do { (v, B) \<leftarrow> construct_query opt vc adr e B; (vs, B) \<leftarrow> construct_queries opt vc qs B; Some (v # vs, B) }"

lemma construct_query_ok:
  assumes S: "stp_semantics vc den" and e: "wf_expr e" "buildable e" "owned own adr (nodes e)" and B: "\<And>\<rho>. builder_inv own vc den \<rho> B"
  obtains v B' g where "construct_query opt vc adr e B = Some (v, B')" "\<And>\<rho>. builder_inv own vc den \<rho> B'" "array_hash B' = g @ array_hash B"
    "\<And>\<rho>. val_ok vc den \<rho> (array_hash B') e v"
proof -
  have ok: "build_ok own vc den \<rho> e (construct opt vc adr e)" for \<rho> using stp_semantics.construct_ok(1) [OF S e] .
  from ok [of "\<lparr>env_read = \<lambda>_ _. 0, env_div0 = \<lambda>_ _ _. 0\<rparr>"] B obtain v B' g where c: "construct opt vc adr e B = Some ((v, getWidth e), B')" "array_hash B' = g @ array_hash B"
    unfolding build_ok_def by blast
  have "builder_inv own vc den \<rho> B' \<and> val_ok vc den \<rho> (array_hash B') e v" for \<rho>
  proof -
    from ok [of \<rho>] B [of \<rho>] obtain v2 B2 where "construct opt vc adr e B = Some ((v2, getWidth e), B2)" "builder_inv own vc den \<rho> B2"
      "val_ok vc den \<rho> (array_hash B2) e v2" unfolding build_ok_def by blast
    with c(1) show ?thesis by (simp del: construct.simps)
  qed
  then have "builder_inv own vc den \<rho> (B'\<lparr>constructed := []\<rparr>)" "val_ok vc den \<rho> (array_hash (B'\<lparr>constructed := []\<rparr>)) e v" for \<rho>
    by (simp_all add: builder_inv_def)
  moreover have "construct_query opt vc adr e B = Some (v, B'\<lparr>constructed := []\<rparr>)" using c(1) by (simp add: construct_query_def del: construct.simps)
  moreover have "array_hash (B'\<lparr>constructed := []\<rparr>) = g @ array_hash B" using c(2) by simp
  ultimately show thesis by (intro that [of v "B'\<lparr>constructed := []\<rparr>" g])
qed

lemma construct_queries_ok:
  assumes S: "stp_semantics vc den"
  shows "list_all (\<lambda>(adr, e). wf_expr e \<and> buildable e \<and> owned own adr (nodes e)) qs \<Longrightarrow> (\<And>\<rho>. builder_inv own vc den \<rho> B) \<Longrightarrow>
    \<exists>vs B' g. construct_queries opt vc qs B = Some (vs, B') \<and> (\<forall>\<rho>. builder_inv own vc den \<rho> B') \<and> array_hash B' = g @ array_hash B
      \<and> list_all2 (\<lambda>(adr, e) v. \<forall>\<rho>. val_ok vc den \<rho> (array_hash B') e v) qs vs"
proof (induction qs arbitrary: B)
  case (Cons q qs)
  obtain adr e where q: "q = (adr, e)" by force
  obtain v B1 g1 where 1: "construct_query opt vc adr e B = Some (v, B1)" "\<And>\<rho>. builder_inv own vc den \<rho> B1" "array_hash B1 = g1 @ array_hash B"
    "\<And>\<rho>. val_ok vc den \<rho> (array_hash B1) e v"
    using construct_query_ok [OF S _ _ _ Cons.prems(2), of e adr opt] Cons.prems(1) by (auto simp: q)
  from Cons.IH [OF _ 1(2)] Cons.prems(1) obtain vs B' g where
    2: "construct_queries opt vc qs B1 = Some (vs, B')" "\<forall>\<rho>. builder_inv own vc den \<rho> B'" "array_hash B' = g @ array_hash B1"
      "list_all2 (\<lambda>(adr, e) v. \<forall>\<rho>. val_ok vc den \<rho> (array_hash B') e v) qs vs" by auto
  have "\<forall>\<rho>. val_ok vc den \<rho> (array_hash B') e v" using 1(4) 2(3) val_ok_mono by metis
  with 1(1,3) 2 show ?case by (simp add: q)
qed simp

text \<open>No address is used twice: two update nodes of the queries at the same address are the same node.\<close>

definition no_address_reused :: "(node_addresses \<times> expr) list \<Rightarrow> bool" where
  "no_address_reused qs \<longleftrightarrow> (\<forall>(adr, e) \<in> set qs. \<forall>(adr', e') \<in> set qs. \<forall>(a, n) \<in> nodes e. \<forall>(a', n') \<in> nodes e'.
     adr a n = adr' a' n' \<longrightarrow> (a, n) = (a', n'))"

lemma owners:
  assumes "no_address_reused qs"
  obtains own where "\<And>adr e. (adr, e) \<in> set qs \<Longrightarrow> owned own adr (nodes e)"
proof -
  let ?at = "\<lambda>k p. \<exists>(adr, e) \<in> set qs. p \<in> nodes e \<and> adr (fst p) (snd p) = k"
  have "(SOME p. ?at (adr a n) p) = (a, n)" if q: "(adr, e) \<in> set qs" "(a, n) \<in> nodes e" for adr e a n
  proof (rule some_equality)
    show "?at (adr a n) (a, n)" using q by auto
    show "p = (a, n)" if "?at (adr a n) p" for p using assms that q unfolding no_address_reused_def by (cases p) fastforce
  qed
  then have "owned (\<lambda>k. SOME p. ?at k p) adr (nodes e)" if "(adr, e) \<in> set qs" for adr e
    using that unfolding owned_def by blast
  then show thesis by (rule that)
qed

lemma builder_inv_new: "builder_inv own vc den \<rho> STPBuilder_new"
  by (simp add: builder_inv_def STPBuilder_new_def)

end
