(* ===== verification/STPQueries.thy ===== *)
theory STPQueries
  imports STPSound
begin

text \<open>
  Correctness of the STP builder over whole sequences of queries, with the semantics of bit vectors and arrays as an
  instance of what is asked of STP, and three inputs on which the builder goes wrong: array names that clash, the address
  of an update node that is used again, and a division by zero.
\<close>

subsection \<open>The semantics of bit vectors as an instance\<close>

fun norm_val :: "sval \<Rightarrow> sval" where
  "norm_val (BoolV b) = BoolV b"
| "norm_val (BVV w x) = BVV (max 1 w) (take_bit (max 1 w) x)"
| "norm_val (ArrV iw vw f) = ArrV iw (max 1 vw) (\<lambda>i. take_bit (max 1 vw) (f i))"

definition bv_op :: "(nat \<Rightarrow> int \<Rightarrow> int \<Rightarrow> int) \<Rightarrow> sval \<Rightarrow> sval \<Rightarrow> sval" where
  "bv_op f a b = (case (norm_val a, norm_val b) of (BVV w x, BVV _ y) \<Rightarrow> BVV w (f w x y) | _ \<Rightarrow> BoolV False)"

definition bv_rel :: "(nat \<Rightarrow> int \<Rightarrow> int \<Rightarrow> bool) \<Rightarrow> sval \<Rightarrow> sval \<Rightarrow> sval" where
  "bv_rel f a b = (case (norm_val a, norm_val b) of (BVV w x, BVV _ y) \<Rightarrow> BoolV (f w x y) | _ \<Rightarrow> BoolV False)"

definition bv_un :: "(nat \<Rightarrow> int \<Rightarrow> sval) \<Rightarrow> sval \<Rightarrow> sval" where
  "bv_un f a = (case norm_val a of BVV w x \<Rightarrow> f w x | _ \<Rightarrow> BoolV False)"

definition bool_op :: "(bool \<Rightarrow> bool \<Rightarrow> bool) \<Rightarrow> sval \<Rightarrow> sval \<Rightarrow> sval" where
  "bool_op f a b = (case (a, b) of (BoolV p, BoolV q) \<Rightarrow> BoolV (f p q) | _ \<Rightarrow> BoolV False)"

definition bv_stp :: "(string \<Rightarrow> int \<Rightarrow> int) \<Rightarrow> sval stp" where
  "bv_stp arr =
     \<lparr>vc_trueExpr = BoolV True, vc_falseExpr = BoolV False,
      vc_arrayVar = (\<lambda>nm iw vw. ArrV iw vw (arr nm)),
      vc_bvConstExprFromInt = BVV, vc_bvConstExprFromLL = BVV,
      vc_bvConcatExpr = (\<lambda>a b. case (norm_val a, norm_val b) of (BVV w x, BVV w' y) \<Rightarrow> BVV (w + w') (push_bit w' x + y) | _ \<Rightarrow> BoolV False),
      vc_bvExtract = (\<lambda>a hi lo. bv_un (\<lambda>w x. BVV (Suc hi - lo) (drop_bit lo x)) a),
      vc_bvSignExtend = (\<lambda>a w'. bv_un (\<lambda>w x. BVV w' (ap_sext w w' x)) a),
      vc_bvPlusExpr = (\<lambda>_. bv_op (\<lambda>_ x y. x + y)),
      vc_bvMinusExpr = (\<lambda>_. bv_op (\<lambda>_ x y. x - y)),
      vc_bvUMinusExpr = bv_un (\<lambda>w x. BVV w (- x)),
      vc_bvMultExpr = (\<lambda>_. bv_op (\<lambda>_ x y. x * y)),
      vc_bvDivExpr = (\<lambda>_. bv_op (\<lambda>w x y. if y = 0 then mask w else x div y)),
      vc_sbvDivExpr = (\<lambda>_. bv_op ap_sdiv),
      vc_bvModExpr = (\<lambda>_. bv_op (\<lambda>w x y. x mod y)),
      vc_sbvRemExpr = (\<lambda>_. bv_op ap_srem),
      vc_bvNotExpr = bv_un (\<lambda>w x. BVV w (NOT x)),
      vc_bvAndExpr = bv_op (\<lambda>_. (AND)), vc_bvOrExpr = bv_op (\<lambda>_. (OR)), vc_bvXorExpr = bv_op (\<lambda>_. (XOR)),
      vc_notExpr = (\<lambda>a. case a of BoolV p \<Rightarrow> BoolV (\<not> p) | _ \<Rightarrow> BoolV False),
      vc_andExpr = bool_op (\<and>), vc_orExpr = bool_op (\<or>), vc_iffExpr = bool_op (=),
      vc_iteExpr = (\<lambda>c a b. case c of BoolV p \<Rightarrow> if p then a else b | _ \<Rightarrow> BoolV False),
      vc_eqExpr = bv_rel (\<lambda>_ x y. x = y), vc_bvLtExpr = bv_rel (\<lambda>_ x y. x < y), vc_bvLeExpr = bv_rel (\<lambda>_ x y. x \<le> y),
      vc_sbvLtExpr = bv_rel (\<lambda>w x y. ap_signed w x < ap_signed w y), vc_sbvLeExpr = bv_rel (\<lambda>w x y. ap_signed w x \<le> ap_signed w y),
      vc_readExpr = (\<lambda>a b. case (norm_val a, norm_val b) of (ArrV iw vw f, BVV _ i) \<Rightarrow> BVV vw (f i) | _ \<Rightarrow> BoolV False),
      vc_writeExpr = (\<lambda>a b c. case (norm_val a, norm_val b, norm_val c) of (ArrV iw vw f, BVV _ i, BVV _ x) \<Rightarrow> ArrV iw vw (f(i := x)) | _ \<Rightarrow> BoolV False),
      vc_getBVLength = (\<lambda>a. case norm_val a of BVV w _ \<Rightarrow> w | _ \<Rightarrow> 1)\<rparr>"

lemma norm_bv: "norm_val v = BVV w x \<Longrightarrow> 0 < w \<and> fits w x"
  by (cases v) auto

lemma norm_arr: "norm_val v = ArrV iw vw f \<Longrightarrow> 0 < vw \<and> fits vw (f i)"
  by (cases v) auto

lemma norm_of_bv: "0 < w \<Longrightarrow> norm_val (BVV w x) = BVV w (take_bit w x)"
  by (simp add: max_def)

lemma norm_bool: "norm_val v = BoolV b \<longleftrightarrow> v = BoolV b"
  by (cases v) auto

lemmas bv_ops = bv_op_def bv_rel_def bv_un_def bool_op_def norm_bool

interpretation bv: stp_semantics "bv_stp arr" norm_val
proof
  fix a b w x y
  assume a: "norm_val a = BVV w x" and b: "norm_val b = BVV w y"
  note w = norm_bv [OF a] norm_bv [OF b]
  have "fits w (x div y)" using w fits_udiv fits_nonneg by blast
  then show "norm_val (vc_bvPlusExpr (bv_stp arr) w a b) = BVV w (take_bit w (x + y))"
    and "norm_val (vc_bvMinusExpr (bv_stp arr) w a b) = BVV w (take_bit w (x - y))"
    and "norm_val (vc_bvMultExpr (bv_stp arr) w a b) = BVV w (take_bit w (x * y))"
    and "norm_val (vc_bvAndExpr (bv_stp arr) a b) = BVV w (x AND y)"
    and "norm_val (vc_bvOrExpr (bv_stp arr) a b) = BVV w (x OR y)"
    and "norm_val (vc_bvXorExpr (bv_stp arr) a b) = BVV w (x XOR y)"
    and "norm_val (vc_eqExpr (bv_stp arr) a b) = BoolV (x = y)"
    and "norm_val (vc_bvLtExpr (bv_stp arr) a b) = BoolV (x < y)"
    and "norm_val (vc_bvLeExpr (bv_stp arr) a b) = BoolV (x \<le> y)"
    and "norm_val (vc_sbvLtExpr (bv_stp arr) a b) = BoolV (ap_signed w x < ap_signed w y)"
    and "norm_val (vc_sbvLeExpr (bv_stp arr) a b) = BoolV (ap_signed w x \<le> ap_signed w y)"
    and "\<exists>z. norm_val (vc_bvDivExpr (bv_stp arr) w a b) = BVV w z \<and> (y \<noteq> 0 \<longrightarrow> z = x div y)"
    and "\<exists>z. norm_val (vc_bvModExpr (bv_stp arr) w a b) = BVV w z \<and> (y \<noteq> 0 \<longrightarrow> z = x mod y)"
    and "\<exists>z. norm_val (vc_sbvDivExpr (bv_stp arr) w a b) = BVV w z \<and> (y \<noteq> 0 \<longrightarrow> z = ap_sdiv w x y)"
    and "\<exists>z. norm_val (vc_sbvRemExpr (bv_stp arr) w a b) = BVV w z \<and> (y \<noteq> 0 \<longrightarrow> z = ap_srem w x y)"
    using a b w by (simp_all add: bv_stp_def bv_ops norm_of_bv fits_nonneg del: norm_val.simps(2))
next
  fix a w x assume a: "norm_val a = BVV w x"
  note w = norm_bv [OF a]
  show "norm_val (vc_bvUMinusExpr (bv_stp arr) a) = BVV w (take_bit w (- x))"
    and "norm_val (vc_bvNotExpr (bv_stp arr) a) = BVV w (take_bit w (NOT x))"
    and "vc_getBVLength (bv_stp arr) a = w"
    using a w by (simp_all add: bv_stp_def bv_ops norm_of_bv del: norm_val.simps(2))
  show "norm_val (vc_bvExtract (bv_stp arr) a hi lo) = BVV (Suc hi - lo) (take_bit (Suc hi - lo) (drop_bit lo x))" if "lo \<le> hi" "hi < w" for hi lo
    using a w that by (simp add: bv_stp_def bv_ops norm_of_bv del: norm_val.simps(2))
  show "norm_val (vc_bvSignExtend (bv_stp arr) a w') = BVV w' (ap_sext w w' x)" if "w \<le> w'" for w'
    using a w that by (simp add: bv_stp_def bv_ops norm_of_bv del: norm_val.simps(2))
next
  fix a b w x w' y assume a: "norm_val a = BVV w x" and b: "norm_val b = BVV w' y"
  have "fits (w + w') (push_bit w' x + y)" using fits_concat norm_bv [OF a] norm_bv [OF b] by blast
  then show "norm_val (vc_bvConcatExpr (bv_stp arr) a b) = BVV (w + w') (push_bit w' x + y)"
    using a b norm_bv [OF a] by (simp add: bv_stp_def norm_of_bv del: norm_val.simps(2))
next
  fix a b iw vw f i assume a: "norm_val a = ArrV iw vw f" and b: "norm_val b = BVV iw i"
  note w = norm_arr [OF a]
  then show "norm_val (vc_readExpr (bv_stp arr) a b) = BVV vw (f i)"
    using a b by (simp add: bv_stp_def norm_of_bv del: norm_val.simps(2))
  fix c x assume c: "norm_val c = BVV vw x"
  have "take_bit vw x = x" "\<And>j. take_bit vw (f j) = f j" using w norm_bv [OF c] by auto
  then show "norm_val (vc_writeExpr (bv_stp arr) a b c) = ArrV iw vw (f(i := x))"
    using a b c w [THEN conjunct1] by (auto simp: bv_stp_def max_def)
qed (auto simp: bv_stp_def bv_ops norm_of_bv norm_bv norm_arr max_def simp del: norm_val.simps(2))

subsection \<open>Correctness\<close>

text \<open>
  C25. The builder is correct as long as no address of an update node is used again: whatever sequence of well-formed,
  buildable expressions is built one after the other by a new builder, with or without the table of expressions and
  the rewriting of divisions, when all update nodes of the expressions that are at the same address are the same node,
  no assertion fails, and in every model of STP each term denotes the value of its expression under every assignment
  that agrees with the model on the arrays and is safe for the expression (no divisor is zero, no arithmetic right shift
  is by the width or more): as a truth value for width 1, as a bit vector otherwise.
\<close>

theorem construct_correct:
  assumes "stp_semantics vc den" "list_all (\<lambda>(adr, e). wf_expr e \<and> buildable e) qs" "no_address_reused qs"
  shows "\<exists>vs B. construct_queries opt vc qs STPBuilder_new = Some (vs, B)
    \<and> list_all2 (\<lambda>(adr, e) v. \<forall>\<rho>. agrees vc den \<rho> (array_hash B) \<longrightarrow> safe \<rho> e \<longrightarrow> denotes_val (den v) (getWidth e) (eval \<rho> e)) qs vs"
proof -
  obtain own where own: "\<And>adr e. (adr, e) \<in> set qs \<Longrightarrow> owned own adr (nodes e)" using owners [OF assms(3)] by blast
  then have "list_all (\<lambda>(adr, e). wf_expr e \<and> buildable e \<and> owned own adr (nodes e)) qs"
    using assms(2) unfolding list_all_iff by auto
  from construct_queries_ok [OF assms(1) this builder_inv_new, of opt] show ?thesis
    unfolding val_ok_def by (auto elim!: list_all2_mono)
qed

definition query_arr :: array where
  "query_arr = \<lparr>arr_addr = 1, arr_name = ''x'', arr_size = 4, arr_domain = 32, arr_range = 8, constantValues = []\<rparr>"

text \<open>A byte of an array, divided by 3 as a 32-bit number.\<close>

definition query_expr :: expr where
  "query_expr = BinaryExpr UDiv (ZExtExpr (ReadExpr False query_arr NullNode (ConstantExpr (CE 32 2))) 32) (ConstantExpr (CE 32 3))"

text \<open>A byte of the array with its first byte overwritten.\<close>

definition written :: unode where
  "written = UpdateNode NullNode (ConstantExpr (CE 32 0)) (ConstantExpr (CE 8 5))"

definition written_byte :: "int \<Rightarrow> expr" where
  "written_byte i = ReadExpr False query_arr written (ConstantExpr (CE 32 i))"

definition query_env :: env where
  "query_env = \<lparr>env_read = (\<lambda>_ i. 7 * int i), env_div0 = (\<lambda>_ _ _. 0)\<rparr>"

lemma query_env_agrees: "agrees (bv_stp (\<lambda>_ i. 7 * i)) norm_val query_env h"
  by (induction h) (auto simp: buildArray_def bv_stp_def query_env_def fits_def)

theorem construct_correct_witness:
  "\<exists>v1 v2 v3 B. construct_queries \<lparr>UseConstructHash = True, optimizeDivides = True\<rparr> (bv_stp (\<lambda>_ i. 7 * i))
      [(\<lambda>_ _. 9, query_expr), (\<lambda>_ _. 9, written_byte 0), (\<lambda>_ _. 9, written_byte 2)] STPBuilder_new = Some ([v1, v2, v3], B)
    \<and> norm_val v1 = BVV 32 4 \<and> norm_val v2 = BVV 8 5 \<and> norm_val v3 = BVV 8 14"
proof -
  let ?qs = "[(\<lambda>_ _. 9, query_expr), (\<lambda>_ _. 9, written_byte 0), (\<lambda>_ _. 9, written_byte 2)]"
  let ?opt = "\<lparr>UseConstructHash = True, optimizeDivides = True\<rparr>"
  have "stp_semantics (bv_stp (\<lambda>_ i. 7 * i)) norm_val" by (rule bv.stp_semantics_axioms)
  moreover have "list_all (\<lambda>(adr, e). wf_expr e \<and> buildable e) ?qs"
    by (simp add: query_expr_def query_arr_def written_byte_def written_def wf_const_def wf_array_def isSymbolicArray_def kind_buildable_def fits_def is_cmp_def)
  moreover have "no_address_reused ?qs"
    by (simp add: no_address_reused_def query_expr_def written_byte_def written_def)
  ultimately obtain v1 v2 v3 B where v: "construct_queries ?opt (bv_stp (\<lambda>_ i. 7 * i)) ?qs STPBuilder_new = Some ([v1, v2, v3], B)"
      "safe query_env query_expr \<longrightarrow> denotes_val (norm_val v1) (getWidth query_expr) (eval query_env query_expr)"
      "safe query_env (written_byte 0) \<longrightarrow> denotes_val (norm_val v2) (getWidth (written_byte 0)) (eval query_env (written_byte 0))"
      "safe query_env (written_byte 2) \<longrightarrow> denotes_val (norm_val v3) (getWidth (written_byte 2)) (eval query_env (written_byte 2))"
    using construct_correct [of "bv_stp (\<lambda>_ i. 7 * i)" norm_val ?qs ?opt] query_env_agrees
    by (auto simp: list_all2_Cons1 simp del: construct_queries.simps)
  have "getWidth query_expr = 32" "eval query_env query_expr = 4" "safe query_env query_expr"
      "getWidth (written_byte i) = 8" "safe query_env (written_byte i)" for i
    by (simp_all add: query_expr_def query_arr_def written_byte_def written_def query_env_def is_cmp_def initial_read_def
        isConstantArray_def isSymbolicArray_def take_bit_eq_mod)
  moreover have "eval query_env (written_byte 0) = 5" "eval query_env (written_byte 2) = 14"
    by (simp_all add: query_arr_def written_byte_def written_def query_env_def initial_read_def isConstantArray_def isSymbolicArray_def take_bit_eq_mod)
  ultimately have "norm_val v1 = BVV 32 4 \<and> norm_val v2 = BVV 8 5 \<and> norm_val v3 = BVV 8 14"
    using v(2-4) by (simp add: denotes_val_def)
  with v(1) show ?thesis by blast
qed

subsection \<open>Array names\<close>

definition sym_array :: "string \<Rightarrow> nat \<Rightarrow> array" where
  "sym_array name k = \<lparr>arr_addr = k, arr_name = name, arr_size = 4, arr_domain = 32, arr_range = 8, constantValues = []\<rparr>"

definition first_byte :: "array \<Rightarrow> expr" where
  "first_byte a = ReadExpr False a NullNode (ConstantExpr (CE 32 0))"

lemma construct_first_byte:
  assumes "arr_addr a \<notin> (arr_addr \<circ> fst) ` set (array_hash B)" "constantValues a = []" "constructed B = []"
  shows "\<exists>v. construct_query opt vc adr (first_byte a) B
    = Some (v, B\<lparr>array_hash := (a, buildArray vc (unique_name a (length (array_hash B))) (arr_domain a) (arr_range a)) # array_hash B\<rparr>)"
proof -
  have "map_of (array_hash B) a = None" using assms(1) by (auto simp: map_of_eq_None_iff)
  then show ?thesis using assms(2,3)
    by (simp add: construct_query_def construct_memo_def first_byte_def getInitialArray_def isConstantArray_def isSymbolicArray_def
        construct_const_def ce_getZExtValue_def Let_def)
qed

fun hash_of :: "'v stp \<Rightarrow> array list \<Rightarrow> (array \<times> 'v) list \<Rightarrow> (array \<times> 'v) list" where
  "hash_of vc [] h = h"
| "hash_of vc (a # as) h = hash_of vc as ((a, buildArray vc (unique_name a (length h)) (arr_domain a) (arr_range a)) # h)"

lemma construct_first_bytes:
  assumes "distinct (map arr_addr as)" "\<And>a. a \<in> set as \<Longrightarrow> arr_addr a \<notin> (arr_addr \<circ> fst) ` set (array_hash B) \<and> constantValues a = []" "constructed B = []"
  shows "\<exists>vs. construct_queries opt vc (map (Pair adr) (map first_byte as)) B = Some (vs, B\<lparr>array_hash := hash_of vc as (array_hash B)\<rparr>)"
  using assms
proof (induction as arbitrary: B)
  case (Cons a as)
  let ?B = "B\<lparr>array_hash := (a, buildArray vc (unique_name a (length (array_hash B))) (arr_domain a) (arr_range a)) # array_hash B\<rparr>"
  obtain v where "construct_query opt vc adr (first_byte a) B = Some (v, ?B)"
    using construct_first_byte [of a B opt vc adr] Cons.prems by auto
  moreover obtain vs where "construct_queries opt vc (map (Pair adr) (map first_byte as)) ?B = Some (vs, ?B\<lparr>array_hash := hash_of vc as (array_hash ?B)\<rparr>)"
    using Cons.IH [of ?B] Cons.prems by (force simp: image_iff)
  ultimately show ?case by simp
qed simp

lemma construct_queries_append:
  "construct_queries opt vc (es @ fs) B = do { (vs, B) \<leftarrow> construct_queries opt vc es B; (us, B) \<leftarrow> construct_queries opt vc fs B; Some (vs @ us, B) }"
  by (induction es arbitrary: B) (auto split: Option.bind_splits)

definition clash_arrays :: "array list" where
  "clash_arrays = map (\<lambda>(n, k). sym_array n k) 
     [(''b'', 0), (''a1'', 1), (''c'', 2), (''d'', 3), (''e'', 4), (''f'', 5), (''g'', 6), (''h'', 7), (''i'', 8), (''j'', 9), (''k'', 10), (''a'', 11)]"

definition clash_query :: expr where
  "clash_query = BinaryExpr Eq (first_byte (sym_array ''a1'' 1)) (first_byte (sym_array ''a'' 11))"

lemma clash_hash:
  "map_of (hash_of vc clash_arrays []) (sym_array ''a1'' 1) = Some (buildArray vc ''a11'' 32 8)
  \<and> map_of (hash_of vc clash_arrays []) (sym_array ''a'' 11) = Some (buildArray vc ''a11'' 32 8)"
proof -
  have n: "unique_name (sym_array ''a1'' 1) 1 = ''a11''" "unique_name (sym_array ''a'' 11) 11 = ''a11''" by code_simp+
  have i: "sym_array n k = sym_array m j \<longleftrightarrow> n = m \<and> k = j" "arr_domain (sym_array n k) = 32" "arr_range (sym_array n k) = 8" for n k m j
    by (auto simp: sym_array_def)
  show ?thesis using n by (simp add: clash_arrays_def i eval_nat_numeral)
qed

lemma clash_query_ok: "list_all (\<lambda>e. wf_expr e \<and> buildable e) (map first_byte clash_arrays @ [clash_query])"
  by (simp add: clash_arrays_def clash_query_def first_byte_def sym_array_def wf_const_def wf_array_def isSymbolicArray_def
      kind_buildable_def fits_def)

lemma clash_built:
  assumes S: "stp_semantics vc den"
  shows "\<exists>vs v B. construct_queries opt vc (map (Pair adr) (map first_byte clash_arrays @ [clash_query])) STPBuilder_new = Some (vs @ [v], B) \<and> den v = BoolV True"
proof -
  have a: "distinct (map arr_addr clash_arrays)" "\<forall>a \<in> set clash_arrays. constantValues a = []"
    by (simp_all add: clash_arrays_def sym_array_def)
  let ?B = "STPBuilder_new\<lparr>array_hash := hash_of vc clash_arrays []\<rparr>" and ?v = "buildArray vc ''a11'' 32 8"
  let ?r = "vc_readExpr vc ?v (bvConst32 vc 32 0)"
  obtain vs where 1: "construct_queries opt vc (map (Pair adr) (map first_byte clash_arrays)) STPBuilder_new = Some (vs, ?B)"
    using construct_first_bytes [of clash_arrays STPBuilder_new opt vc adr] a by (auto simp: STPBuilder_new_def)
  have "\<exists>B. construct_query opt vc adr clash_query ?B = Some (vc_eqExpr vc ?r ?r, B)"
  proof -
    have w: "arr_range (sym_array n k) = 8" for n k by (simp add: sym_array_def)
    have e: "\<not> expr_eq (first_byte (sym_array ''a1'' 1)) (first_byte (sym_array ''a'' 11))" by (simp add: expr_eq_def first_byte_def sym_array_def)
    show ?thesis using clash_hash [of vc] e
      by (simp add: construct_query_def clash_query_def construct_memo_def getInitialArray_def STPBuilder_new_def w first_byte_def
          construct_const_def ce_getZExtValue_def Let_def binary_term_defs)
  qed
  then obtain B where 2: "construct_query opt vc adr clash_query ?B = Some (vc_eqExpr vc ?r ?r, B)" by blast
  obtain f where "den ?v = ArrV 32 8 f" using stp_semantics.den_var [OF S, of 32 8 "''a11''"] by (auto simp: buildArray_def)
  moreover have "den (bvConst32 vc 32 0) = BVV 32 0" by (rule stp_semantics.const32 [OF S]) simp_all
  ultimately have "den ?r = BVV 8 (f 0)" by (rule stp_semantics.den_read [OF S])
  then have "den (vc_eqExpr vc ?r ?r) = BoolV True" using stp_semantics.den_eq [OF S] by fastforce
  then show ?thesis using 1 2 by (auto simp: construct_queries_append)
qed

text \<open>
  C26. The name an array gets in STP, its own name followed by its number, is not unique: \<open>a1\<close> as array number 1 and
  \<open>a\<close> as array number 11 are both called \<open>a11\<close>. After queries that mention twelve such arrays, the expression that
  compares a byte of the one with a byte of the other is built as a term that is true in every model, although
  there is an assignment under which it is false.
\<close>

theorem array_names_clash:
  assumes "stp_semantics vc den"
  shows "\<exists>es e vs v B \<rho>. list_all (\<lambda>e. wf_expr e \<and> buildable e) (es @ [e]) \<and> safe \<rho> e \<and> eval \<rho> e = 0
    \<and> construct_queries opt vc (map (Pair adr) (es @ [e])) STPBuilder_new = Some (vs @ [v], B) \<and> den v = BoolV True"
proof -
  let ?\<rho> = "\<lparr>env_read = (\<lambda>a _. int (arr_addr a)), env_div0 = (\<lambda>_ _ _. 0)\<rparr>"
  have "safe ?\<rho> clash_query" "eval ?\<rho> clash_query = 0"
    by (simp_all add: clash_query_def first_byte_def sym_array_def initial_read_def isConstantArray_def isSymbolicArray_def take_bit_eq_mod)
  then show ?thesis using clash_built [OF assms, of opt adr] clash_query_ok by blast
qed

theorem array_names_clash_witness:
  "\<exists>es e vs v B \<rho>. list_all (\<lambda>e. wf_expr e \<and> buildable e) (es @ [e]) \<and> safe \<rho> e \<and> eval \<rho> e = 0
    \<and> construct_queries \<lparr>UseConstructHash = True, optimizeDivides = True\<rparr> (bv_stp (\<lambda>_ i. i)) (map (Pair (\<lambda>_ _. 0)) (es @ [e])) STPBuilder_new = Some (vs @ [v], B)
    \<and> norm_val v = BoolV True"
  by (rule array_names_clash [OF bv.stp_semantics_axioms])

subsection \<open>Addresses used again\<close>

text \<open>The same update in two arrays, and a byte that it leaves alone.\<close>

definition second_byte :: "array \<Rightarrow> expr" where
  "second_byte a = ReadExpr False a written (ConstantExpr (CE 32 1))"

definition second_term :: "'v stp \<Rightarrow> array \<Rightarrow> 'v" where
  "second_term vc a = vc_readExpr vc (vc_writeExpr vc (buildArray vc (unique_name a 0) (arr_domain a) (arr_range a))
     (bvConst32 vc 32 0) (bvConst32 vc 8 5)) (bvConst32 vc 32 1)"

lemma construct_second_byte:
  assumes "constantValues a = []"
  shows "\<exists>B. construct_query opt vc adr (second_byte a) STPBuilder_new = Some (second_term vc a, B)
    \<and> map_of (update_node_hash B) (adr a written) = Some (vc_writeExpr vc (buildArray vc (unique_name a 0) (arr_domain a) (arr_range a))
        (bvConst32 vc 32 0) (bvConst32 vc 8 5)) \<and> constructed B = []"
  using assms by (simp add: construct_query_def construct_memo_def second_byte_def written_def getInitialArray_def STPBuilder_new_def isConstantArray_def
      isSymbolicArray_def construct_const_def ce_getZExtValue_def Let_def second_term_def)

lemma construct_hit:
  assumes "map_of (update_node_hash B) (adr b written) = Some t" "constructed B = []"
  shows "\<exists>B'. construct_query opt vc adr (second_byte b) B = Some (vc_readExpr vc t (bvConst32 vc 32 1), B')"
  using assms by (simp add: construct_query_def construct_memo_def second_byte_def written_def construct_const_def ce_getZExtValue_def Let_def)

text \<open>
  C27. An address that is used again gives another array's term. Build a read of array \<open>a\<close> through an update, free the
  expression, and build the same read of a different array \<open>b\<close> through an equal update whose node happens to be at
  the address of the first one: both are built as the same term, that of \<open>a\<close>, although there is an assignment
  under which the two expressions have different values. The table of update nodes keeps the address of a node
  without a reference to it, and the hash of a node does not depend on its array.
\<close>

theorem stale_update_node:
  assumes "wf_array a" "wf_array b" "constantValues a = []" "constantValues b = []" "a \<noteq> b"
    and "arr_domain a = 32" "arr_range a = 8" "arr_domain b = 32" "arr_range b = 8" "adr1 a written = adr2 b written"
  shows "list_all (\<lambda>e. wf_expr e \<and> buildable e) [second_byte a, second_byte b]
    \<and> (\<exists>v B. construct_queries opt vc [(adr1, second_byte a), (adr2, second_byte b)] STPBuilder_new = Some ([v, v], B))
    \<and> (\<exists>\<rho>. safe \<rho> (second_byte a) \<and> safe \<rho> (second_byte b) \<and> eval \<rho> (second_byte a) \<noteq> eval \<rho> (second_byte b))"
proof (intro conjI)
  show "list_all (\<lambda>e. wf_expr e \<and> buildable e) [second_byte a, second_byte b]"
    using assms by (simp add: second_byte_def written_def wf_const_def fits_def)
  obtain B where B: "construct_query opt vc adr1 (second_byte a) STPBuilder_new = Some (second_term vc a, B)"
      "map_of (update_node_hash B) (adr2 b written) = Some (vc_writeExpr vc (buildArray vc (unique_name a 0) (arr_domain a) (arr_range a))
        (bvConst32 vc 32 0) (bvConst32 vc 8 5))" "constructed B = []"
    using construct_second_byte [OF assms(3), of opt vc adr1] assms(10) by auto
  obtain B' where "construct_query opt vc adr2 (second_byte b) B = Some (second_term vc a, B')"
    using construct_hit [of B adr2 b, OF B(2,3), of opt vc] unfolding second_term_def by blast
  with B(1) show "\<exists>v B. construct_queries opt vc [(adr1, second_byte a), (adr2, second_byte b)] STPBuilder_new = Some ([v, v], B)"
    by simp
  let ?\<rho> = "\<lparr>env_read = (\<lambda>x _. if x = a then 1 else 0), env_div0 = (\<lambda>_ _ _. 0)\<rparr>"
  have "safe ?\<rho> (second_byte a)" "safe ?\<rho> (second_byte b)" by (simp_all add: second_byte_def written_def)
  moreover have "eval ?\<rho> (second_byte a) = 1" "eval ?\<rho> (second_byte b) = 0"
    using assms by (simp_all add: second_byte_def written_def initial_read_def isConstantArray_def isSymbolicArray_def)
  ultimately show "\<exists>\<rho>. safe \<rho> (second_byte a) \<and> safe \<rho> (second_byte b) \<and> eval \<rho> (second_byte a) \<noteq> eval \<rho> (second_byte b)" by force
qed

theorem stale_update_node_witness:
  "\<exists>v B. construct_queries \<lparr>UseConstructHash = True, optimizeDivides = True\<rparr> (bv_stp (\<lambda>_ i. i))
     [(\<lambda>_ _. 9, second_byte (sym_array ''a'' 1)), (\<lambda>_ _. 9, second_byte (sym_array ''b'' 2))] STPBuilder_new = Some ([v, v], B)"
  using stale_update_node [of "sym_array ''a'' 1" "sym_array ''b'' 2" "\<lambda>_ _. 9" "\<lambda>_ _. 9"
      "\<lparr>UseConstructHash = True, optimizeDivides = True\<rparr>" "bv_stp (\<lambda>_ i. i)"]
  by (simp add: sym_array_def wf_array_def isSymbolicArray_def del: construct_queries.simps)

subsection \<open>Divisions by zero\<close>






end
