(* ===== verification/ObjectState.thy ===== *)
theory ObjectState
  imports ExprCreate Bits
begin

text \<open>
  \<^verbatim>\<open>lib/Core/Memory.cpp\<close>: the contents of memory objects, with \<^verbatim>\<open>BitArray\<close> and \<^verbatim>\<open>ArrayCache\<close>, which it uses. Each
  byte of an object is concrete, a known expression, or in the list of updates; a mask says which bytes the list of
  updates does not have yet. Sizes and offsets are natural numbers; an access outside the object, which C++ leaves
  undefined, is \<^term>\<open>None\<close>. The two counters that number created arrays and the addresses of new arrays are part of the
  context \<open>array_cache\<close>.
\<close>

subsection \<open>Bit arrays\<close>

type_synonym bit_array = "int list"

definition BitArray_length :: "nat \<Rightarrow> nat" where
  "BitArray_length n = (n + 31) div 32"

definition BitArray_new :: "nat \<Rightarrow> bool \<Rightarrow> bit_array" where
  "BitArray_new n v = replicate (BitArray_length n) (if v then 2 ^ 32 - 1 else 0)"

definition BitArray_get :: "bit_array \<Rightarrow> nat \<Rightarrow> bool" where
  "BitArray_get b i = bit (b ! (i div 32)) (i mod 32)"

definition BitArray_set :: "bit_array \<Rightarrow> nat \<Rightarrow> bit_array" where
  "BitArray_set b i = b[i div 32 := b ! (i div 32) OR 2 ^ (i mod 32)]"

definition BitArray_unset :: "bit_array \<Rightarrow> nat \<Rightarrow> bit_array" where
  "BitArray_unset b i = b[i div 32 := b ! (i div 32) AND NOT (2 ^ (i mod 32))]"

subsection \<open>Arrays\<close>

record array_cache =
  cachedSymbolicArrays :: "array list"
  concreteArrays :: "array list"
  next_address :: nat
  const_arr_id :: nat
  tmp_arr_id :: nat

definition Array_new :: "nat \<Rightarrow> string \<Rightarrow> nat \<Rightarrow> const_expr list \<Rightarrow> nat \<Rightarrow> nat \<Rightarrow> array option" where
  "Array_new addr name sz cs domain rng =
     do { assert_that (cs = [] \<or> length cs = sz);
          assert_that (list_all (\<lambda>c. ce_width c = rng) cs);
          Some \<lparr>arr_addr = addr, arr_name = name, arr_size = sz, arr_domain = domain, arr_range = rng, constantValues = cs\<rparr> }"

definition CreateArray :: "string \<Rightarrow> nat \<Rightarrow> const_expr list \<Rightarrow> array_cache \<Rightarrow> (array \<times> array_cache) option" where
  "CreateArray name sz cs A =
     do { array \<leftarrow> Array_new (next_address A) name sz cs 32 8;
          let A = A\<lparr>next_address := next_address A + 1\<rparr> in
          if isSymbolicArray array
          then (case List.find (\<lambda>a. arr_size a = sz \<and> arr_name a = name) (cachedSymbolicArrays A) of
                  None \<Rightarrow> Some (array, A\<lparr>cachedSymbolicArrays := array # cachedSymbolicArrays A\<rparr>)
                | Some a \<Rightarrow> do { assert_that (isSymbolicArray a); Some (a, A) })
          else do { assert_that (isConstantArray array);
                    Some (array, A\<lparr>concreteArrays := concreteArrays A @ [array]\<rparr>) } }"

text \<open>\<^verbatim>\<open>llvm::utostr\<close>.\<close>

fun utostr :: "nat \<Rightarrow> string" where
  "utostr n = (if n < 10 then [char_of (48 + n)] else utostr (n div 10) @ [char_of (48 + n mod 10)])"

declare utostr.simps [simp del]

subsection \<open>Memory objects\<close>

record memory_object =
  mo_address :: int
  mo_size :: nat

definition getBaseExpr :: "nat \<Rightarrow> memory_object \<Rightarrow> expr option" where
  "getBaseExpr pw mo = do { c \<leftarrow> ce_create (mo_address mo) pw; Some (ConstantExpr c) }"

definition getSizeExpr :: "nat \<Rightarrow> memory_object \<Rightarrow> expr option" where
  "getSizeExpr pw mo = do { c \<leftarrow> ce_create (int (mo_size mo)) pw; Some (ConstantExpr c) }"

definition getOffsetExpr :: "nat \<Rightarrow> memory_object \<Rightarrow> expr \<Rightarrow> expr option" where
  "getOffsetExpr pw mo pointer = do { base \<leftarrow> getBaseExpr pw mo; create_SubExpr pointer base }"

definition getBoundsCheckOffset :: "nat \<Rightarrow> memory_object \<Rightarrow> expr \<Rightarrow> expr option" where
  "getBoundsCheckOffset pw mo offset =
     (if mo_size mo = 0 then create_EqExpr offset (ConstantExpr (ce_alloc 0 pw))
      else do { s \<leftarrow> getSizeExpr pw mo; create_UltExpr offset s })"

definition getBoundsCheckOffset_bytes :: "nat \<Rightarrow> memory_object \<Rightarrow> expr \<Rightarrow> nat \<Rightarrow> expr option" where
  "getBoundsCheckOffset_bytes pw mo offset bytes =
     (if bytes \<le> mo_size mo then create_UltExpr offset (ConstantExpr (ce_alloc (int (mo_size mo - bytes + 1)) pw))
      else Some (ConstantExpr (ce_alloc 0 1)))"

definition getBoundsCheckPointer :: "nat \<Rightarrow> memory_object \<Rightarrow> expr \<Rightarrow> expr option" where
  "getBoundsCheckPointer pw mo pointer = do { off \<leftarrow> getOffsetExpr pw mo pointer; getBoundsCheckOffset pw mo off }"

definition getBoundsCheckPointer_bytes :: "nat \<Rightarrow> memory_object \<Rightarrow> expr \<Rightarrow> nat \<Rightarrow> expr option" where
  "getBoundsCheckPointer_bytes pw mo pointer bytes =
     do { off \<leftarrow> getOffsetExpr pw mo pointer; getBoundsCheckOffset_bytes pw mo off bytes }"

subsection \<open>Object states\<close>

record object_state =
  concreteStore :: "int list"
  concreteMask :: "bit_array option"
  flushMask :: "bit_array option"
  knownSymbolics :: "expr option list option"
  upd_root :: "array option"
  upd_head :: unode
  os_size :: nat
  readOnly :: bool

definition isByteConcrete :: "object_state \<Rightarrow> nat \<Rightarrow> bool" where
  "isByteConcrete os offset = (case concreteMask os of None \<Rightarrow> True | Some m \<Rightarrow> BitArray_get m offset)"

definition isByteFlushed :: "object_state \<Rightarrow> nat \<Rightarrow> bool" where
  "isByteFlushed os offset = (case flushMask os of None \<Rightarrow> False | Some m \<Rightarrow> \<not> BitArray_get m offset)"

definition knownSymbolic :: "object_state \<Rightarrow> nat \<Rightarrow> expr option" where
  "knownSymbolic os offset = (case knownSymbolics os of None \<Rightarrow> None | Some k \<Rightarrow> k ! offset)"

definition isByteKnownSymbolic :: "object_state \<Rightarrow> nat \<Rightarrow> bool" where
  "isByteKnownSymbolic os offset \<longleftrightarrow> knownSymbolic os offset \<noteq> None"

definition markByteConcrete :: "nat \<Rightarrow> object_state \<Rightarrow> object_state" where
  "markByteConcrete offset os =
     (case concreteMask os of None \<Rightarrow> os | Some m \<Rightarrow> os\<lparr>concreteMask := Some (BitArray_set m offset)\<rparr>)"

definition markByteSymbolic :: "nat \<Rightarrow> object_state \<Rightarrow> object_state" where
  "markByteSymbolic offset os =
     (let m = (case concreteMask os of None \<Rightarrow> BitArray_new (os_size os) True | Some m \<Rightarrow> m) in
      os\<lparr>concreteMask := Some (BitArray_unset m offset)\<rparr>)"

definition markByteUnflushed :: "nat \<Rightarrow> object_state \<Rightarrow> object_state" where
  "markByteUnflushed offset os =
     (case flushMask os of None \<Rightarrow> os | Some m \<Rightarrow> os\<lparr>flushMask := Some (BitArray_set m offset)\<rparr>)"

definition markByteFlushed :: "nat \<Rightarrow> object_state \<Rightarrow> object_state" where
  "markByteFlushed offset os =
     os\<lparr>flushMask := Some (case flushMask os of None \<Rightarrow> BitArray_new (os_size os) False | Some m \<Rightarrow> BitArray_unset m offset)\<rparr>"

definition setKnownSymbolic :: "nat \<Rightarrow> expr option \<Rightarrow> object_state \<Rightarrow> object_state" where
  "setKnownSymbolic offset value os =
     (case knownSymbolics os of
        Some k \<Rightarrow> os\<lparr>knownSymbolics := Some (k[offset := value])\<rparr>
      | None \<Rightarrow> if value \<noteq> None then os\<lparr>knownSymbolics := Some ((replicate (os_size os) None)[offset := value])\<rparr> else os)"

definition makeConcrete :: "object_state \<Rightarrow> object_state" where
  "makeConcrete os = os\<lparr>concreteMask := None, flushMask := None, knownSymbolics := None\<rparr>"

definition makeSymbolic :: "object_state \<Rightarrow> object_state option" where
  "makeSymbolic os =
     do { assert_that (upd_head os = NullNode);
          Some (fold (\<lambda>i os. markByteFlushed i (setKnownSymbolic i None (markByteSymbolic i os))) [0..<os_size os] os) }"

definition initializeToZero :: "object_state \<Rightarrow> object_state" where
  "initializeToZero os = (makeConcrete os)\<lparr>concreteStore := replicate (os_size os) 0\<rparr>"

definition initializeToRandom :: "object_state \<Rightarrow> object_state" where
  "initializeToRandom os = (makeConcrete os)\<lparr>concreteStore := replicate (os_size os) 0xAB\<rparr>"

definition new_object_state :: "nat \<Rightarrow> array option \<Rightarrow> object_state" where
  "new_object_state sz root =
     \<lparr>concreteStore = replicate sz 0, concreteMask = None, flushMask = None, knownSymbolics = None,
      upd_root = root, upd_head = NullNode, os_size = sz, readOnly = False\<rparr>"

definition ObjectState_new :: "bool \<Rightarrow> memory_object \<Rightarrow> array_cache \<Rightarrow> (object_state \<times> array_cache) option" where
  "ObjectState_new UseConstantArrays mo A =
     (if UseConstantArrays then Some (new_object_state (mo_size mo) None, A)
      else let A = A\<lparr>tmp_arr_id := tmp_arr_id A + 1\<rparr> in
           do { (array, A) \<leftarrow> CreateArray (''tmp_arr'' @ utostr (tmp_arr_id A)) (mo_size mo) [] A;
                Some (new_object_state (mo_size mo) (Some array), A) })"

definition ObjectState_symbolic :: "memory_object \<Rightarrow> array \<Rightarrow> object_state option" where
  "ObjectState_symbolic mo array = makeSymbolic (new_object_state (mo_size mo) (Some array))"

definition ObjectState_copy :: "object_state \<Rightarrow> object_state option" where
  "ObjectState_copy os = do { assert_that (\<not> readOnly os); Some (os\<lparr>readOnly := False\<rparr>) }"

subsection \<open>Updates\<close>

definition upd_extend :: "expr \<Rightarrow> expr \<Rightarrow> object_state \<Rightarrow> object_state option" where
  "upd_extend index v os =
     do { (case upd_root os of
             Some root \<Rightarrow> do { assert_that (arr_domain root = getWidth index); assert_that (arr_range root = getWidth v) }
           | None \<Rightarrow> Some ());
          Some (os\<lparr>upd_head := UpdateNode (upd_head os) index v\<rparr>) }"

fun node_writes :: "unode \<Rightarrow> (expr \<times> expr) list" where
  "node_writes NullNode = []"
| "node_writes (UpdateNode n i v) = node_writes n @ [(i, v)]"

fun pull_concrete :: "(expr \<times> expr) list \<Rightarrow> const_expr list \<Rightarrow> ((expr \<times> expr) list \<times> const_expr list) option" where
  "pull_concrete ((ConstantExpr i, ConstantExpr v) # ws) cs =
     do { k \<leftarrow> ce_getZExtValue i 64;
          assert_that (nat k < length cs);
          pull_concrete ws (cs[nat k := v]) }"
| "pull_concrete ws cs = Some (ws, cs)"

definition getUpdates :: "object_state \<Rightarrow> array_cache \<Rightarrow> (array \<times> object_state \<times> array_cache) option" where
  "getUpdates os A =
     (case upd_root os of
        Some root \<Rightarrow> Some (root, os, A)
      | None \<Rightarrow>
          do { (rest, contents) \<leftarrow> pull_concrete (node_writes (upd_head os)) (replicate (os_size os) (ce_alloc 0 8));
               let A = A\<lparr>const_arr_id := const_arr_id A + 1\<rparr> in
               do { (array, A) \<leftarrow> CreateArray (''const_arr'' @ utostr (const_arr_id A)) (os_size os) contents A;
                    os \<leftarrow> fold_abort (\<lambda>(i, v). upd_extend i v) rest (os\<lparr>upd_root := Some array, upd_head := NullNode\<rparr>);
                    Some (array, os, A) } })"

definition flush_byte :: "nat \<Rightarrow> object_state \<Rightarrow> object_state option" where
  "flush_byte offset os =
     do { ix \<leftarrow> ce_create (int offset) 32;
          if isByteConcrete os offset
          then do { v \<leftarrow> ce_create (concreteStore os ! offset) 8; upd_extend (ConstantExpr ix) (ConstantExpr v) os }
          else (case knownSymbolic os offset of
                  Some v \<Rightarrow> upd_extend (ConstantExpr ix) v os
                | None \<Rightarrow> None) }"

definition init_flushMask :: "object_state \<Rightarrow> object_state" where
  "init_flushMask os = (case flushMask os of None \<Rightarrow> os\<lparr>flushMask := Some (BitArray_new (os_size os) True)\<rparr> | Some _ \<Rightarrow> os)"

definition unset_flush :: "nat \<Rightarrow> object_state \<Rightarrow> object_state" where
  "unset_flush offset os = os\<lparr>flushMask := map_option (\<lambda>m. BitArray_unset m offset) (flushMask os)\<rparr>"

definition flushRangeForRead :: "nat \<Rightarrow> nat \<Rightarrow> object_state \<Rightarrow> object_state option" where
  "flushRangeForRead rangeBase rangeSize os =
     fold_abort (\<lambda>offset os.
       if \<not> isByteFlushed os offset then do { os \<leftarrow> flush_byte offset os; Some (unset_flush offset os) }
       else Some os) [rangeBase..<rangeBase + rangeSize] (init_flushMask os)"

definition mark_out :: "nat \<Rightarrow> object_state \<Rightarrow> object_state" where
  "mark_out offset os =
     (if isByteConcrete os offset then markByteSymbolic offset os
      else if isByteKnownSymbolic os offset then setKnownSymbolic offset None os
      else os)"

definition flushRangeForWrite :: "nat \<Rightarrow> nat \<Rightarrow> object_state \<Rightarrow> object_state option" where
  "flushRangeForWrite rangeBase rangeSize os =
     fold_abort (\<lambda>offset os.
       if \<not> isByteFlushed os offset
       then do { os \<leftarrow> flush_byte offset os; Some (unset_flush offset (mark_out offset os)) }
       else Some (mark_out offset os)) [rangeBase..<rangeBase + rangeSize] (init_flushMask os)"

definition fastRangeCheckOffset :: "object_state \<Rightarrow> expr \<Rightarrow> nat \<times> nat" where
  "fastRangeCheckOffset os offset = (0, os_size os)"

subsection \<open>Bytes\<close>

definition read8 :: "nat \<Rightarrow> object_state \<Rightarrow> array_cache \<Rightarrow> (expr \<times> object_state \<times> array_cache) option" where
  "read8 offset os A =
     do { assert_that (offset < os_size os);
          if isByteConcrete os offset
          then do { c \<leftarrow> ce_create (concreteStore os ! offset) 8; Some (ConstantExpr c, os, A) }
          else (case knownSymbolic os offset of
                  Some e \<Rightarrow> Some (e, os, A)
                | None \<Rightarrow>
                    do { assert_that (isByteFlushed os offset);
                         (root, os, A) \<leftarrow> getUpdates os A;
                         ix \<leftarrow> ce_create (int offset) 32;
                         e \<leftarrow> create_ReadExpr root (upd_head os) (ConstantExpr ix);
                         Some (e, os, A) }) }"

definition read8_sym :: "expr \<Rightarrow> object_state \<Rightarrow> array_cache \<Rightarrow> (expr \<times> object_state \<times> array_cache) option" where
  "read8_sym offset os A =
     do { assert_that (\<not> is_ConstantExpr offset);
          let (base, sz) = fastRangeCheckOffset os offset in
          do { os \<leftarrow> flushRangeForRead base sz os;
               (root, os, A) \<leftarrow> getUpdates os A;
               ix \<leftarrow> create_ZExtExpr offset 32;
               e \<leftarrow> create_ReadExpr root (upd_head os) ix;
               Some (e, os, A) } }"

definition write8 :: "nat \<Rightarrow> int \<Rightarrow> object_state \<Rightarrow> object_state option" where
  "write8 offset v os =
     do { assert_that (offset < os_size os);
          Some (markByteUnflushed offset (markByteConcrete offset (setKnownSymbolic offset None
                  (os\<lparr>concreteStore := (concreteStore os)[offset := take_bit 8 v]\<rparr>)))) }"

definition write8_expr :: "nat \<Rightarrow> expr \<Rightarrow> object_state \<Rightarrow> object_state option" where
  "write8_expr offset v os =
     (case v of
        ConstantExpr c \<Rightarrow> do { x \<leftarrow> ce_getZExtValue c 8; write8 offset x os }
      | _ \<Rightarrow> do { assert_that (offset < os_size os);
                  Some (markByteUnflushed offset (markByteSymbolic offset (setKnownSymbolic offset (Some v) os))) })"

definition write8_sym :: "expr \<Rightarrow> expr \<Rightarrow> object_state \<Rightarrow> object_state option" where
  "write8_sym offset v os =
     do { assert_that (\<not> is_ConstantExpr offset);
          let (base, sz) = fastRangeCheckOffset os offset in
          do { os \<leftarrow> flushRangeForWrite base sz os;
               ix \<leftarrow> create_ZExtExpr offset 32;
               upd_extend ix v os } }"

subsection \<open>Values of several bytes\<close>

definition byte_index :: "bool \<Rightarrow> nat \<Rightarrow> nat \<Rightarrow> nat" where
  "byte_index isLittleEndian NumBytes i = (if isLittleEndian then i else NumBytes - i - 1)"

definition read_loop :: "(nat \<Rightarrow> object_state \<Rightarrow> array_cache \<Rightarrow> (expr \<times> object_state \<times> array_cache) option) \<Rightarrow> nat list
    \<Rightarrow> object_state \<Rightarrow> array_cache \<Rightarrow> (expr option \<times> object_state \<times> array_cache) option" where
  "read_loop rd is os A =
     fold_abort (\<lambda>i (res, os, A).
       do { (byte, os, A) \<leftarrow> rd i os A;
            res \<leftarrow> (case res of Some r \<Rightarrow> create_ConcatExpr byte r | None \<Rightarrow> Some byte);
            Some (Some res, os, A) }) is (None, os, A)"

definition read_at :: "bool \<Rightarrow> nat \<Rightarrow> nat \<Rightarrow> object_state \<Rightarrow> array_cache \<Rightarrow> (expr \<times> object_state \<times> array_cache) option" where
  "read_at le offset width os A =
     (if width = 1
      then do { (b, os, A) \<leftarrow> read8 offset os A; e \<leftarrow> create_ExtractExpr b 0 1; Some (e, os, A) }
      else do { assert_that (width = width div 8 * 8);
                (res, os, A) \<leftarrow> read_loop (\<lambda>i. read8 ((offset + byte_index le (width div 8) i) mod 2 ^ 32)) [0..<width div 8] os A;
                e \<leftarrow> res;
                Some (e, os, A) })"

definition os_read :: "bool \<Rightarrow> expr \<Rightarrow> nat \<Rightarrow> object_state \<Rightarrow> array_cache \<Rightarrow> (expr \<times> object_state \<times> array_cache) option" where
  "os_read le offset width os A =
     do { offset \<leftarrow> create_ZExtExpr offset 32;
          case offset of
            ConstantExpr c \<Rightarrow> do { k \<leftarrow> ce_getZExtValue c 32; read_at le (nat k) width os A }
          | _ \<Rightarrow>
              if width = 1
              then do { (b, os, A) \<leftarrow> read8_sym offset os A; e \<leftarrow> create_ExtractExpr b 0 1; Some (e, os, A) }
              else do { assert_that (width = width div 8 * 8);
                        (res, os, A) \<leftarrow> read_loop (\<lambda>i os A.
                          do { c \<leftarrow> ce_create (int (byte_index le (width div 8) i)) 32;
                               a \<leftarrow> create_AddExpr offset (ConstantExpr c);
                               read8_sym a os A }) [0..<width div 8] os A;
                        e \<leftarrow> res;
                        Some (e, os, A) } }"

definition write_bytes :: "bool \<Rightarrow> nat \<Rightarrow> nat \<Rightarrow> int \<Rightarrow> object_state \<Rightarrow> object_state option" where
  "write_bytes le NumBytes offset v os =
     fold_abort (\<lambda>i. write8 ((offset + byte_index le NumBytes i) mod 2 ^ 32) (drop_bit (8 * i) v)) [0..<NumBytes] os"

definition write16 :: "bool \<Rightarrow> nat \<Rightarrow> int \<Rightarrow> object_state \<Rightarrow> object_state option" where
  "write16 le offset v = write_bytes le 2 offset v"

definition write32 :: "bool \<Rightarrow> nat \<Rightarrow> int \<Rightarrow> object_state \<Rightarrow> object_state option" where
  "write32 le offset v = write_bytes le 4 offset v"

definition write64 :: "bool \<Rightarrow> nat \<Rightarrow> int \<Rightarrow> object_state \<Rightarrow> object_state option" where
  "write64 le offset v = write_bytes le 8 offset v"

definition write_expr_bytes :: "bool \<Rightarrow> nat \<Rightarrow> expr \<Rightarrow> object_state \<Rightarrow> object_state option" where
  "write_expr_bytes le offset v os =
     (if getWidth v = 1
      then do { b \<leftarrow> create_ZExtExpr v 8; write8_expr offset b os }
      else let NumBytes = getWidth v div 8 in
           do { assert_that (getWidth v = NumBytes * 8);
                fold_abort (\<lambda>i os.
                  do { b \<leftarrow> create_ExtractExpr v (8 * i) 8;
                       write8_expr ((offset + byte_index le NumBytes i) mod 2 ^ 32) b os }) [0..<NumBytes] os })"

definition write_at :: "bool \<Rightarrow> nat \<Rightarrow> expr \<Rightarrow> object_state \<Rightarrow> object_state option" where
  "write_at le offset v os =
     (case v of
        ConstantExpr c \<Rightarrow>
          (if ce_width c \<le> 64 \<and> isPowerOfTwo64 (int (ce_width c))
           then do { val \<leftarrow> ce_getZExtValue c 64;
                     if ce_width c = 1 \<or> ce_width c = 8 then write8 offset val os
                     else if ce_width c = 16 then write16 le offset val os
                     else if ce_width c = 32 then write32 le offset val os
                     else if ce_width c = 64 then write64 le offset val os
                     else None }
           else write_expr_bytes le offset v os)
      | _ \<Rightarrow> write_expr_bytes le offset v os)"

definition os_write :: "bool \<Rightarrow> expr \<Rightarrow> expr \<Rightarrow> object_state \<Rightarrow> object_state option" where
  "os_write le offset v os =
     do { offset \<leftarrow> create_ZExtExpr offset 32;
          case offset of
            ConstantExpr c \<Rightarrow> do { k \<leftarrow> ce_getZExtValue c 32; write_at le (nat k) v os }
          | _ \<Rightarrow>
              if getWidth v = 1
              then do { b \<leftarrow> create_ZExtExpr v 8; write8_sym offset b os }
              else let NumBytes = getWidth v div 8 in
                   do { assert_that (getWidth v = NumBytes * 8);
                        fold_abort (\<lambda>i os.
                          do { c \<leftarrow> ce_create (int (byte_index le NumBytes i)) 32;
                               a \<leftarrow> create_AddExpr offset (ConstantExpr c);
                               b \<leftarrow> create_ExtractExpr v (8 * i) 8;
                               write8_sym a b os }) [0..<NumBytes] os } }"

text \<open>\<^verbatim>\<open>flushToConcreteStore\<close>: the solver's answers are a parameter; \<^term>\<open>None\<close> is a time-out.\<close>

definition flushToConcreteStore :: "(expr \<Rightarrow> int option) \<Rightarrow> object_state \<Rightarrow> array_cache \<Rightarrow> (object_state \<times> array_cache) option" where
  "flushToConcreteStore getValue os A =
     fold_abort (\<lambda>i (os, A).
       if isByteKnownSymbolic os i
       then do { (e, os, A) \<leftarrow> read8 i os A;
                 Some (case getValue e of
                         Some x \<Rightarrow> (os\<lparr>concreteStore := (concreteStore os)[i := take_bit 8 x]\<rparr>, A)
                       | None \<Rightarrow> (os, A)) }
       else Some (os, A)) [0..<os_size os] (os, A)"

end
