(* ===== verification/ObjectSound.thy ===== *)
theory ObjectSound
  imports ObjectState ExprCreateSound
begin

text \<open>
  An object state represents an array of bytes: \<open>byte\<close> is the value of a byte under an assignment. \<open>os_inv\<close> is the
  invariant, with the three laws of the comment on cache invariants in \<^verbatim>\<open>Memory.cpp\<close> and the one it leaves out: the list of
  updates has the value of every flushed byte.
\<close>

subsection \<open>Bit arrays\<close>

definition bits_of :: "nat \<Rightarrow> bit_array \<Rightarrow> bool" where
  "bits_of n b \<longleftrightarrow> length b = BitArray_length n"

text \<open>What a mask promises its users.\<close>

locale bit_mask =
  fixes valid :: "nat \<Rightarrow> 'm \<Rightarrow> bool" and new :: "nat \<Rightarrow> bool \<Rightarrow> 'm" and get :: "'m \<Rightarrow> nat \<Rightarrow> bool"
    and set_bit_at unset :: "'m \<Rightarrow> nat \<Rightarrow> 'm"
  assumes valid_new: "valid n (new n v)"
    and valid_set: "valid n b \<Longrightarrow> valid n (set_bit_at b i)"
    and valid_unset: "valid n b \<Longrightarrow> valid n (unset b i)"
    and get_new: "i < n \<Longrightarrow> get (new n v) i = v"
    and get_set: "valid n b \<Longrightarrow> i < n \<Longrightarrow> j < n \<Longrightarrow> get (set_bit_at b i) j = (j = i \<or> get b j)"
    and get_unset: "valid n b \<Longrightarrow> i < n \<Longrightarrow> j < n \<Longrightarrow> get (unset b i) j = (j \<noteq> i \<and> get b j)"
begin

lemma get_fold_unset:
  "valid n b \<Longrightarrow> set is \<subseteq> {..<n} \<Longrightarrow> j < n \<Longrightarrow> get (fold (\<lambda>i b. unset b i) is b) j = (j \<notin> set is \<and> get b j)"
proof (induction "is" arbitrary: b)
  case (Cons i "is")
  then show ?case using Cons.IH [of "unset b i"] valid_unset [of n b i] get_unset [of n b i j] by auto
qed simp

end

lemma word_index: "i < n \<Longrightarrow> i div 32 < BitArray_length n"
  by (simp add: BitArray_length_def)

lemma same_word: "i div 32 = j div 32 \<Longrightarrow> i mod 32 = j mod 32 \<Longrightarrow> i = (j::nat)"
  by (metis div_mult_mod_eq)

interpretation bits: bit_mask bits_of BitArray_new BitArray_get BitArray_set BitArray_unset
proof
  fix n i j :: nat and b v
  show "bits_of n (BitArray_new n v)" by (simp add: bits_of_def BitArray_new_def)
  show "bits_of n b \<Longrightarrow> bits_of n (BitArray_set b i)" "bits_of n b \<Longrightarrow> bits_of n (BitArray_unset b i)"
    by (simp_all add: bits_of_def BitArray_set_def BitArray_unset_def)
  have "bit (2 ^ 32 - 1 :: int) k" if "k < 32" for k
    using that bit_mask_iff [of 32 k, where 'a = int] by (simp add: mask_eq_exp_minus_1)
  then show "BitArray_get (BitArray_new n v) i = v" if "i < n"
    using word_index [OF that] by (simp add: BitArray_get_def BitArray_new_def)
  assume b: "bits_of n b" and i: "i < n" and j: "j < n"
  have l: "i div 32 < length b" "j div 32 < length b" using b word_index [OF i] word_index [OF j] by (simp_all add: bits_of_def)
  show "BitArray_get (BitArray_set b i) j = (j = i \<or> BitArray_get b j)"
    using l same_word [of j i] by (auto simp: BitArray_get_def BitArray_set_def nth_list_update bit_or_iff bit_exp_iff)
  show "BitArray_get (BitArray_unset b i) j = (j \<noteq> i \<and> BitArray_get b j)"
    using l same_word [of j i] by (auto simp: BitArray_get_def BitArray_unset_def nth_list_update bit_and_iff bit_not_iff bit_exp_iff)
qed

subsection \<open>The invariant\<close>

fun node_read :: "env \<Rightarrow> (int \<Rightarrow> int) \<Rightarrow> unode \<Rightarrow> int \<Rightarrow> int" where
  "node_read \<rho> base NullNode i = base i"
| "node_read \<rho> base (UpdateNode n ix v) i = (if eval \<rho> ix = i then eval \<rho> v else node_read \<rho> base n i)"

lemma eval_read_node: "eval_read \<rho> a n i = node_read \<rho> (initial_read \<rho> a) n i"
  by (induction n rule: node_writes.induct) auto

definition root_read :: "env \<Rightarrow> object_state \<Rightarrow> int \<Rightarrow> int" where
  "root_read \<rho> os = (case upd_root os of Some a \<Rightarrow> initial_read \<rho> a | None \<Rightarrow> (\<lambda>_. 0))"

definition upd_value :: "env \<Rightarrow> object_state \<Rightarrow> nat \<Rightarrow> int" where
  "upd_value \<rho> os i = node_read \<rho> (root_read \<rho> os) (upd_head os) (int i)"

definition byte :: "env \<Rightarrow> object_state \<Rightarrow> nat \<Rightarrow> int" where
  "byte \<rho> os i =
     (if isByteConcrete os i then concreteStore os ! i
      else case knownSymbolic os i of Some e \<Rightarrow> eval \<rho> e | None \<Rightarrow> upd_value \<rho> os i)"

definition byte_array :: array where
  "byte_array = \<lparr>arr_addr = 0, arr_name = '''', arr_size = 0, arr_domain = 32, arr_range = 8, constantValues = []\<rparr>"

definition os_shape :: "object_state \<Rightarrow> bool" where
  "os_shape os \<longleftrightarrow> 0 < os_size os \<and> os_size os \<le> 2 ^ 32 \<and> length (concreteStore os) = os_size os
     \<and> (\<forall>x \<in> set (concreteStore os). fits 8 x)
     \<and> pred_option (bits_of (os_size os)) (concreteMask os) \<and> pred_option (bits_of (os_size os)) (flushMask os)
     \<and> pred_option (\<lambda>k. length k = os_size os) (knownSymbolics os)
     \<and> (\<forall>i < os_size os. \<forall>e. knownSymbolic os i = Some e \<longrightarrow> wf_expr e \<and> getWidth e = 8)"

definition upd_shape :: "object_state \<Rightarrow> bool" where
  "upd_shape os \<longleftrightarrow> wf_unode byte_array (upd_head os)
     \<and> (case upd_root os of
          Some a \<Rightarrow> wf_array a \<and> arr_domain a = 32 \<and> arr_range a = 8
        | None \<Rightarrow> \<forall>(i, v) \<in> set (node_writes (upd_head os)). \<forall>c. i = ConstantExpr c \<longrightarrow> ce_value c < int (os_size os))"

definition cache_inv :: "object_state \<Rightarrow> bool" where
  "cache_inv os \<longleftrightarrow> (\<forall>i < os_size os.
     (isByteKnownSymbolic os i \<longrightarrow> \<not> isByteConcrete os i)
     \<and> (\<not> isByteFlushed os i \<longrightarrow> isByteConcrete os i \<or> isByteKnownSymbolic os i)
     \<and> (isByteFlushed os i \<longrightarrow> (\<forall>\<rho>. upd_value \<rho> os i = byte \<rho> os i)))"

definition os_inv :: "object_state \<Rightarrow> bool" where
  "os_inv os \<longleftrightarrow> os_shape os \<and> upd_shape os \<and> cache_inv os"

subsection \<open>Marks\<close>

lemma concrete_marks:
  assumes "os_shape os" "i < os_size os" "j < os_size os"
  shows "isByteConcrete (markByteConcrete i os) j \<longleftrightarrow> j = i \<or> isByteConcrete os j"
    "isByteConcrete (markByteSymbolic i os) j \<longleftrightarrow> j \<noteq> i \<and> isByteConcrete os j"
  using assms bits.get_set [of "os_size os"] bits.get_unset [of "os_size os"] bits.get_new [of j "os_size os"] bits.valid_new
  by (auto simp: isByteConcrete_def markByteConcrete_def markByteSymbolic_def os_shape_def split: option.splits)

lemma flushed_marks:
  assumes "os_shape os" "i < os_size os" "j < os_size os"
  shows "isByteFlushed (markByteUnflushed i os) j \<longleftrightarrow> j \<noteq> i \<and> isByteFlushed os j"
    "isByteFlushed (init_flushMask os) j = isByteFlushed os j"
    "flushMask os \<noteq> None \<Longrightarrow> isByteFlushed (unset_flush i os) j \<longleftrightarrow> j = i \<or> isByteFlushed os j"
  using assms bits.get_set [of "os_size os"] bits.get_unset [of "os_size os"] bits.get_new [of j "os_size os"] bits.valid_new
  by (auto simp: isByteFlushed_def markByteUnflushed_def init_flushMask_def unset_flush_def os_shape_def split: option.splits)

lemma known_marks:
  assumes "os_shape os" "i < os_size os" "j < os_size os"
  shows "knownSymbolic (setKnownSymbolic i e os) j = (if j = i then e else knownSymbolic os j)"
  using assms by (auto simp: knownSymbolic_def setKnownSymbolic_def os_shape_def nth_list_update split: option.splits)

lemma marks_frame [simp]:
  "concreteStore (markByteConcrete i os) = concreteStore os" "concreteStore (markByteSymbolic i os) = concreteStore os"
  "concreteStore (markByteUnflushed i os) = concreteStore os" "concreteStore (setKnownSymbolic i e os) = concreteStore os"
  "concreteStore (unset_flush i os) = concreteStore os" "concreteStore (init_flushMask os) = concreteStore os"
  "os_size (markByteConcrete i os) = os_size os" "os_size (markByteSymbolic i os) = os_size os"
  "os_size (markByteUnflushed i os) = os_size os" "os_size (setKnownSymbolic i e os) = os_size os"
  "os_size (unset_flush i os) = os_size os" "os_size (init_flushMask os) = os_size os"
  "upd_root (markByteConcrete i os) = upd_root os" "upd_root (markByteSymbolic i os) = upd_root os"
  "upd_root (markByteUnflushed i os) = upd_root os" "upd_root (setKnownSymbolic i e os) = upd_root os"
  "upd_root (unset_flush i os) = upd_root os" "upd_root (init_flushMask os) = upd_root os"
  "upd_head (markByteConcrete i os) = upd_head os" "upd_head (markByteSymbolic i os) = upd_head os"
  "upd_head (markByteUnflushed i os) = upd_head os" "upd_head (setKnownSymbolic i e os) = upd_head os"
  "upd_head (unset_flush i os) = upd_head os" "upd_head (init_flushMask os) = upd_head os"
  "knownSymbolics (markByteConcrete i os) = knownSymbolics os" "knownSymbolics (markByteSymbolic i os) = knownSymbolics os"
  "knownSymbolics (markByteUnflushed i os) = knownSymbolics os"
  "knownSymbolics (unset_flush i os) = knownSymbolics os" "knownSymbolics (init_flushMask os) = knownSymbolics os"
  "concreteMask (markByteUnflushed i os) = concreteMask os" "concreteMask (setKnownSymbolic i e os) = concreteMask os"
  "concreteMask (unset_flush i os) = concreteMask os" "concreteMask (init_flushMask os) = concreteMask os"
  "flushMask (markByteConcrete i os) = flushMask os" "flushMask (markByteSymbolic i os) = flushMask os"
  "flushMask (setKnownSymbolic i e os) = flushMask os" "flushMask (init_flushMask os) \<noteq> None"
  "flushMask (unset_flush i os) = None \<longleftrightarrow> flushMask os = None"
  by (auto simp: markByteConcrete_def markByteSymbolic_def markByteUnflushed_def setKnownSymbolic_def unset_flush_def
      init_flushMask_def Let_def split: option.splits)

lemma shape_marks:
  assumes "os_shape os"
  shows "os_shape (markByteConcrete i os)" "os_shape (markByteSymbolic i os)" "os_shape (markByteUnflushed i os)"
    "os_shape (unset_flush i os)" "os_shape (init_flushMask os)"
  using assms bits.valid_set [of "os_size os"] bits.valid_unset [of "os_size os"] bits.valid_new [of "os_size os"]
  by (auto simp: os_shape_def knownSymbolic_def markByteConcrete_def markByteSymbolic_def markByteUnflushed_def unset_flush_def
      init_flushMask_def option.pred_map comp_def elim: option.pred_mono_strong split: option.splits)

lemma shape_known:
  assumes "os_shape os" "i < os_size os" "\<And>x. e = Some x \<Longrightarrow> wf_expr x \<and> getWidth x = 8"
  shows "os_shape (setKnownSymbolic i e os)"
proof -
  have "pred_option (\<lambda>k. length k = os_size os) (knownSymbolics (setKnownSymbolic i e os))"
    using assms(1) by (auto simp: os_shape_def setKnownSymbolic_def split: option.splits)
  then show ?thesis using assms known_marks [OF assms(1,2)] by (auto simp: os_shape_def split: if_splits)
qed

subsection \<open>Lists of updates\<close>

definition wf_write :: "expr \<times> expr \<Rightarrow> bool" where
  "wf_write = (\<lambda>(i, v). wf_expr i \<and> getWidth i = 32 \<and> wf_expr v \<and> getWidth v = 8)"

definition apply_write :: "env \<Rightarrow> expr \<times> expr \<Rightarrow> (int \<Rightarrow> int) \<Rightarrow> int \<Rightarrow> int" where
  "apply_write \<rho> = (\<lambda>(i, v) f. f(eval \<rho> i := eval \<rho> v))"

lemma wf_writes: "arr_domain a = 32 \<Longrightarrow> arr_range a = 8 \<Longrightarrow> wf_unode a n \<longleftrightarrow> list_all wf_write (node_writes n)"
  by (induction n rule: node_writes.induct) (auto simp: wf_write_def)

lemma wf_byte_writes: "wf_unode byte_array n \<longleftrightarrow> list_all wf_write (node_writes n)"
  by (rule wf_writes) (simp_all add: byte_array_def)

lemma node_read_writes: "node_read \<rho> base n = fold (apply_write \<rho>) (node_writes n) base"
  by (induction n rule: node_writes.induct) (auto simp: apply_write_def fun_eq_iff)

lemma apply_writes_agree:
  assumes "\<And>j. P j \<Longrightarrow> f j = g j" "P j"
  shows "fold (apply_write \<rho>) ws f j = fold (apply_write \<rho>) ws g j"
  using assms
proof (induction ws arbitrary: f g)
  case (Cons w ws)
  have "apply_write \<rho> w f k = apply_write \<rho> w g k" if "P k" for k
    using Cons.prems(1) [OF that] by (simp add: apply_write_def split: prod.split)
  from Cons.IH [OF this Cons.prems(2)] show ?case by simp
qed simp

definition holds_contents :: "nat \<Rightarrow> (int \<Rightarrow> int) \<Rightarrow> const_expr list \<Rightarrow> bool" where
  "holds_contents n f cs \<longleftrightarrow> (\<forall>j<n. f (int j) = ce_value (cs ! j))"

definition byte_contents :: "nat \<Rightarrow> const_expr list \<Rightarrow> bool" where
  "byte_contents n cs \<longleftrightarrow> length cs = n \<and> list_all (\<lambda>c. ce_width c = 8 \<and> wf_const c) cs"

definition pulled :: "nat \<Rightarrow> (expr \<times> expr) list \<Rightarrow> const_expr list \<Rightarrow> (expr \<times> expr) list \<times> const_expr list \<Rightarrow> bool" where
  "pulled n ws cs = (\<lambda>(rest, cs'). byte_contents n cs' \<and> set rest \<subseteq> set ws
     \<and> (\<forall>\<rho> f g j. holds_contents n f cs \<longrightarrow> holds_contents n g cs' \<longrightarrow> j < n
          \<longrightarrow> fold (apply_write \<rho>) ws f (int j) = fold (apply_write \<rho>) rest g (int j)))"

lemma pull_stop: "\<nexists>i v. w = (ConstantExpr i, ConstantExpr v) \<Longrightarrow> pull_concrete (w # ws) cs = Some (w # ws, cs)"
  by (cases "(w # ws, cs)" rule: pull_concrete.cases) simp_all

lemma pulled_self:
  assumes "byte_contents n cs"
  shows "pulled n ws cs (ws, cs)"
proof -
  have "fold (apply_write \<rho>) ws f (int j) = fold (apply_write \<rho>) ws g (int j)"
    if "holds_contents n f cs" "holds_contents n g cs" "j < n" for \<rho> f g j
    by (rule apply_writes_agree [where P = "\<lambda>j. \<exists>k<n. j = int k"]) (use that in \<open>auto simp: holds_contents_def\<close>)
  then show ?thesis using assms unfolding pulled_def prod.case by blast
qed

lemma pulled_values:
  "pulled n ws cs (rest, cs') \<Longrightarrow> holds_contents n f cs \<Longrightarrow> holds_contents n g cs' \<Longrightarrow> j < n
     \<Longrightarrow> fold (apply_write \<rho>) ws f (int j) = fold (apply_write \<rho>) rest g (int j)"
  unfolding pulled_def prod.case by blast

lemma pull_concrete_ok:
  assumes "byte_contents n cs" "list_all wf_write ws" "\<forall>(i, v) \<in> set ws. \<forall>c. i = ConstantExpr c \<longrightarrow> ce_value c < int n"
  shows "returns (pull_concrete ws cs) (pulled n ws cs)"
  using assms
proof (induction ws arbitrary: cs)
  case (Cons w ws)
  show ?case
  proof (cases "\<exists>i v. w = (ConstantExpr i, ConstantExpr v)")
    case True
    then obtain i v where w: "w = (ConstantExpr i, ConstantExpr v)" by blast
    with Cons.prems have i: "wf_const i" "ce_width i = 32" "ce_value i < int n" "wf_const v" "ce_width v = 8"
      by (auto simp: wf_write_def)
    then have k: "0 \<le> ce_value i" "nat (ce_value i) < n" by (auto simp: wf_const_def fits_def)
    let ?cs = "cs[nat (ce_value i) := v]"
    have l: "length cs = n" using Cons.prems by (simp add: byte_contents_def)
    have cs: "byte_contents n ?cs"
      using Cons.prems(1) i by (auto simp: byte_contents_def list_all_length nth_list_update)
    have step: "holds_contents n (apply_write \<rho> w f) ?cs" if "holds_contents n f cs" for \<rho> f
      using that k l by (auto simp: w holds_contents_def apply_write_def nth_list_update)
    have "returns (pull_concrete ws ?cs) (pulled n ws ?cs)" using Cons cs by simp
    then have "returns (pull_concrete ws ?cs) (pulled n (w # ws) cs)"
      by (rule returns_mono) (use step in \<open>auto simp: pulled_def\<close>)
    then show ?thesis using i k l by (simp add: w ce_getZExtValue_def)
  qed (use Cons.prems pulled_self in \<open>simp add: pull_stop\<close>)
qed (simp add: pulled_self)

lemma upd_value_writes: "upd_value \<rho> os i = fold (apply_write \<rho>) (node_writes (upd_head os)) (root_read \<rho> os) (int i)"
  by (simp add: upd_value_def node_read_writes)

lemma upd_extend_Some:
  assumes "pred_option (\<lambda>a. arr_domain a = 32 \<and> arr_range a = 8) (upd_root os)" "wf_write (i, v)"
  shows "upd_extend i v os = Some (os\<lparr>upd_head := UpdateNode (upd_head os) i v\<rparr>)"
  using assms by (auto simp: upd_extend_def wf_write_def split: option.splits)

lemma extend_all:
  assumes "pred_option (\<lambda>a. arr_domain a = 32 \<and> arr_range a = 8) (upd_root os)" "list_all wf_write ws"
  shows "\<exists>n. fold_abort (\<lambda>(i, v). upd_extend i v) ws os = Some (os\<lparr>upd_head := n\<rparr>) \<and> node_writes n = node_writes (upd_head os) @ ws"
  using assms
proof (induction ws arbitrary: os)
  case Nil
  then show ?case by (intro exI [of _ "upd_head os"]) simp
next
  case (Cons w ws)
  obtain i v where w: "w = (i, v)" by fastforce
  from Cons.IH [of "os\<lparr>upd_head := UpdateNode (upd_head os) i v\<rparr>"] Cons.prems show ?case
    by (auto simp: w upd_extend_Some)
qed

subsection \<open>Equal contents\<close>

text \<open>The marks and the bytes that are not in the list of updates.\<close>

definition same_marks :: "object_state \<Rightarrow> object_state \<Rightarrow> bool" where
  "same_marks os os' \<longleftrightarrow> os_size os' = os_size os \<and> concreteStore os' = concreteStore os \<and> concreteMask os' = concreteMask os
     \<and> flushMask os' = flushMask os \<and> knownSymbolics os' = knownSymbolics os"

definition same_bytes :: "object_state \<Rightarrow> object_state \<Rightarrow> bool" where
  "same_bytes os os' \<longleftrightarrow> os_size os' = os_size os \<and> (\<forall>\<rho>. \<forall>i < os_size os. byte \<rho> os' i = byte \<rho> os i)"

lemma same_bytes_refl [simp]: "same_bytes os os"
  by (simp add: same_bytes_def)

lemma same_bytes_trans: "same_bytes a b \<Longrightarrow> same_bytes b c \<Longrightarrow> same_bytes a c"
  by (simp add: same_bytes_def)

lemma same_marks_sel:
  assumes "same_marks os os'"
  shows "isByteConcrete os' i = isByteConcrete os i" "isByteFlushed os' i = isByteFlushed os i"
    "knownSymbolic os' i = knownSymbolic os i" "isByteKnownSymbolic os' i = isByteKnownSymbolic os i"
    "os_shape os' = os_shape os" "os_size os' = os_size os" "concreteStore os' = concreteStore os"
  using assms by (auto simp: same_marks_def isByteConcrete_def isByteFlushed_def isByteKnownSymbolic_def knownSymbolic_def os_shape_def)

lemma same_values:
  assumes "same_marks os os'" "\<And>\<rho> i. i < os_size os \<Longrightarrow> upd_value \<rho> os' i = upd_value \<rho> os i"
  shows "same_bytes os os'" "cache_inv os' = cache_inv os"
proof -
  note sel = same_marks_sel [OF assms(1)]
  have eq: "byte \<rho> os' i = byte \<rho> os i" if "i < os_size os" for \<rho> i
    using assms(2) [OF that] by (simp add: byte_def sel split: option.split)
  then show "same_bytes os os'" by (simp add: same_bytes_def sel)
  show "cache_inv os' = cache_inv os" by (simp add: cache_inv_def sel eq assms(2))
qed

definition updates_ok :: "object_state \<Rightarrow> array \<times> object_state \<times> array_cache \<Rightarrow> bool" where
  "updates_ok os = (\<lambda>(root, os', A). os_inv os' \<and> upd_root os' = Some root \<and> same_marks os os' \<and> same_bytes os os')"

lemma Array_new_const:
  "byte_contents n cs \<Longrightarrow> Array_new addr name n cs 32 8
     = Some \<lparr>arr_addr = addr, arr_name = name, arr_size = n, arr_domain = 32, arr_range = 8, constantValues = cs\<rparr>"
  by (simp add: Array_new_def byte_contents_def list_all_iff)

definition holds_array :: "nat \<Rightarrow> const_expr list \<Rightarrow> array \<Rightarrow> bool" where
  "holds_array n cs a \<longleftrightarrow> wf_array a \<and> arr_domain a = 32 \<and> arr_range a = 8
     \<and> (\<forall>\<rho>. holds_contents n (initial_read \<rho> a) cs)"

lemma CreateArray_const:
  assumes "byte_contents n cs" "0 < n" "n \<le> 2 ^ 32"
  shows "returns (CreateArray name n cs A) (\<lambda>(a, A'). holds_array n cs a)"
  using assms
  by (simp add: CreateArray_def Array_new_const isConstantArray_def isSymbolicArray_def holds_array_def wf_array_def
      holds_contents_def initial_read_def byte_contents_def list_all_iff)
    (auto simp: isConstantArray_def isSymbolicArray_def)

lemma getUpdates_ok:
  assumes "os_inv os"
  shows "returns (getUpdates os A) (updates_ok os)"
proof (cases "upd_root os")
  case None
  from assms have sh: "os_shape os" "upd_shape os" "cache_inv os" by (simp_all add: os_inv_def)
  let ?n = "os_size os" and ?ws = "node_writes (upd_head os)" and ?zero = "replicate (os_size os) (ce_alloc 0 8)"
  have ws: "list_all wf_write ?ws" using sh(2) by (simp add: upd_shape_def wf_byte_writes)
  have z: "byte_contents ?n ?zero" by (simp add: byte_contents_def list_all_iff)
  obtain rest cs where p: "pull_concrete ?ws ?zero = Some (rest, cs)" "pulled ?n ?ws ?zero (rest, cs)"
    using pull_concrete_ok [OF z ws] sh(2) None by (auto simp: upd_shape_def returns_iff)
  then have cs: "byte_contents ?n cs" by (simp add: pulled_def)
  let ?A = "A\<lparr>const_arr_id := const_arr_id A + 1\<rparr>"
  have "returns (CreateArray (''const_arr'' @ utostr (const_arr_id ?A)) ?n cs ?A) (\<lambda>(a, A'). holds_array ?n cs a)"
    using cs sh(1) by (intro CreateArray_const) (simp_all add: os_shape_def)
  then obtain a A' where a: "CreateArray (''const_arr'' @ utostr (const_arr_id ?A)) ?n cs ?A = Some (a, A')" "holds_array ?n cs a"
    by (auto elim!: returnsE simp del: append.simps)
  let ?os = "os\<lparr>upd_root := Some a, upd_head := NullNode\<rparr>"
  have rest: "list_all wf_write rest" using p(2) ws by (auto simp: pulled_def list_all_iff)
  obtain n where n: "fold_abort (\<lambda>(i, v). upd_extend i v) rest ?os = Some (?os\<lparr>upd_head := n\<rparr>)" "node_writes n = rest"
    using extend_all [of ?os rest] rest a(2) by (auto simp: holds_array_def)
  let ?os' = "?os\<lparr>upd_head := n\<rparr>"
  have m: "same_marks os ?os'" by (simp add: same_marks_def)
  have v: "upd_value \<rho> ?os' i = upd_value \<rho> os i" if "i < ?n" for \<rho> i
    using pulled_values [OF p(2), of "\<lambda>_. 0" "initial_read \<rho> a" i \<rho>] a(2) that None
    by (simp add: upd_value_writes root_read_def holds_array_def n(2)) (simp add: holds_contents_def)
  have "upd_shape ?os'" using a(2) rest n(2) by (simp add: upd_shape_def wf_byte_writes holds_array_def)
  moreover have "os_shape ?os'" using same_marks_sel(5) [OF m] sh(1) by blast
  ultimately have "updates_ok os (a, ?os', A')"
    using same_values [OF m v] sh(3) m by (simp add: updates_ok_def os_inv_def)
  then show ?thesis using None p(1) a(1) n(1) by (simp add: getUpdates_def)
qed (use assms in \<open>simp add: getUpdates_def updates_ok_def same_marks_def\<close>)

subsection \<open>Flushing\<close>

definition wide_root :: "object_state \<Rightarrow> bool" where
  "wide_root os \<longleftrightarrow> pred_option (\<lambda>a. arr_domain a = 32 \<and> arr_range a = 8) (upd_root os)"

lemma upd_shape_root: "upd_shape os \<Longrightarrow> wide_root os"
  by (auto simp: upd_shape_def wide_root_def split: option.splits)

definition add_update :: "expr \<Rightarrow> expr \<Rightarrow> object_state \<Rightarrow> object_state" where
  "add_update i v os = os\<lparr>upd_head := UpdateNode (upd_head os) i v\<rparr>"

lemma add_update_sel [simp]:
  "upd_head (add_update i v os) = UpdateNode (upd_head os) i v" "upd_root (add_update i v os) = upd_root os"
  "same_marks os (add_update i v os)"
  by (simp_all add: add_update_def same_marks_def)

lemmas add_update_marks = same_marks_sel [OF add_update_sel(3)]

lemma upd_extend_add: "wide_root os \<Longrightarrow> wf_write (i, v) \<Longrightarrow> upd_extend i v os = Some (add_update i v os)"
  by (simp add: upd_extend_Some wide_root_def add_update_def)

lemma upd_value_add: "upd_value \<rho> (add_update i v os) j = (if eval \<rho> i = int j then eval \<rho> v else upd_value \<rho> os j)"
  by (simp add: upd_value_def root_read_def)

lemma upd_shape_add:
  assumes "upd_shape os" "wf_write (i, v)" "\<And>c. i = ConstantExpr c \<Longrightarrow> ce_value c < int (os_size os)"
  shows "upd_shape (add_update i v os)"
  using assms
  by (auto simp: upd_shape_def wf_write_def byte_array_def add_update_marks split: option.splits)

text \<open>The byte of an offset as an expression: what flushing puts into the list of updates.\<close>

lemma flush_byte_ok:
  assumes "os_inv os" "i < os_size os" "\<not> isByteFlushed os i"
  obtains v where "flush_byte i os = Some (add_update (ConstantExpr (ce_alloc (int i) 32)) v os)"
    "wf_write (ConstantExpr (ce_alloc (int i) 32), v)" "\<And>\<rho>. eval \<rho> v = byte \<rho> os i"
proof -
  from assms have sh: "os_shape os" "upd_shape os" "cache_inv os" by (simp_all add: os_inv_def)
  note root = upd_shape_root [OF sh(2)]
  have i: "fits 32 (int i)" using sh(1) assms(2) by (simp add: os_shape_def fits_def)
  show thesis
  proof (cases "isByteConcrete os i")
    case True
    have f: "fits 8 (concreteStore os ! i)" using sh(1) assms(2) by (simp add: os_shape_def)
    show thesis
      by (rule that [of "ConstantExpr (ce_alloc (concreteStore os ! i) 8)"])
        (use True i f root in \<open>simp_all add: flush_byte_def upd_extend_add wf_write_def byte_def\<close>)
  next
    case False
    then obtain v where v: "knownSymbolic os i = Some v"
      using sh(3) assms(2,3) by (auto simp: cache_inv_def isByteKnownSymbolic_def)
    then have "wf_expr v" "getWidth v = 8" using sh(1) assms(2) by (auto simp: os_shape_def)
    then show thesis
      by (intro that [of v]) (use False i v root in \<open>simp_all add: flush_byte_def upd_extend_add wf_write_def byte_def\<close>)
  qed
qed

lemma value_frame:
  assumes "upd_root os' = upd_root os" "upd_head os' = upd_head os"
  shows "upd_value \<rho> os' i = upd_value \<rho> os i"
  using assms by (simp add: upd_value_def root_read_def)

lemma shape_frame:
  assumes "upd_root os' = upd_root os" "upd_head os' = upd_head os" "os_size os' = os_size os"
  shows "upd_shape os' = upd_shape os"
  using assms by (simp add: upd_shape_def split: option.split)

lemma marks_indep [simp]:
  "isByteConcrete (unset_flush i os) j = isByteConcrete os j" "isByteConcrete (init_flushMask os) j = isByteConcrete os j"
  "isByteConcrete (setKnownSymbolic i e os) j = isByteConcrete os j" "isByteConcrete (markByteUnflushed i os) j = isByteConcrete os j"
  "knownSymbolic (unset_flush i os) j = knownSymbolic os j" "knownSymbolic (init_flushMask os) j = knownSymbolic os j"
  "knownSymbolic (markByteConcrete i os) j = knownSymbolic os j" "knownSymbolic (markByteSymbolic i os) j = knownSymbolic os j"
  "knownSymbolic (markByteUnflushed i os) j = knownSymbolic os j"
  "isByteFlushed (setKnownSymbolic i e os) j = isByteFlushed os j" "isByteFlushed (markByteConcrete i os) j = isByteFlushed os j"
  "isByteFlushed (markByteSymbolic i os) j = isByteFlushed os j"
  by (simp_all add: isByteConcrete_def knownSymbolic_def isByteFlushed_def)

text \<open>A step that flushes byte \<open>i\<close>: \<open>gone\<close> says whether the byte is also dropped from the cache.\<close>

definition flushes :: "bool \<Rightarrow> nat \<Rightarrow> object_state \<Rightarrow> object_state \<Rightarrow> bool" where
  "flushes gone i os os' \<longleftrightarrow> os_shape os' \<and> upd_shape os' \<and> flushMask os' \<noteq> None \<and> os_size os' = os_size os \<and> concreteStore os' = concreteStore os
     \<and> (\<forall>j < os_size os. (isByteFlushed os' j \<longleftrightarrow> j = i \<or> isByteFlushed os j)
          \<and> (isByteConcrete os' j \<longleftrightarrow> \<not> (gone \<and> j = i) \<and> isByteConcrete os j)
          \<and> knownSymbolic os' j = (if gone \<and> j = i then None else knownSymbolic os j)
          \<and> (\<forall>\<rho>. upd_value \<rho> os' j = (if j = i then byte \<rho> os i else upd_value \<rho> os j)))"

lemma flushes_inv:
  assumes "flushes gone i os os'" "os_inv os"
  shows "os_inv os'" "same_bytes os os'"
proof -
  have c: "(isByteKnownSymbolic os j \<longrightarrow> \<not> isByteConcrete os j)
     \<and> (\<not> isByteFlushed os j \<longrightarrow> isByteConcrete os j \<or> isByteKnownSymbolic os j)
     \<and> (isByteFlushed os j \<longrightarrow> (\<forall>\<rho>. upd_value \<rho> os j = byte \<rho> os j))" if "j < os_size os" for j
    using assms(2) that by (simp add: os_inv_def cache_inv_def)
  have eq: "byte \<rho> os' j = byte \<rho> os j" if j: "j < os_size os" for \<rho> j
  proof (cases "j = i")
    case True
    then show ?thesis using assms(1) j by (auto simp: flushes_def byte_def split: option.splits)
  next
    case False
    then show ?thesis using assms(1) j by (auto simp: flushes_def byte_def split: option.splits)
  qed
  then show "same_bytes os os'" using assms(1) by (simp add: same_bytes_def flushes_def)
  have "cache_inv os'"
    unfolding cache_inv_def
  proof (intro allI impI)
    fix j assume "j < os_size os'"
    then have j: "j < os_size os" using assms(1) by (simp add: flushes_def)
    show "(isByteKnownSymbolic os' j \<longrightarrow> \<not> isByteConcrete os' j)
     \<and> (\<not> isByteFlushed os' j \<longrightarrow> isByteConcrete os' j \<or> isByteKnownSymbolic os' j)
     \<and> (isByteFlushed os' j \<longrightarrow> (\<forall>\<rho>. upd_value \<rho> os' j = byte \<rho> os' j))"
      using assms(1) j c [OF j] eq [OF j] by (auto simp: flushes_def isByteKnownSymbolic_def)
  qed
  then show "os_inv os'" using assms(1) by (simp add: os_inv_def flushes_def)
qed

lemma mark_out_sel:
  assumes "os_shape os" "isByteKnownSymbolic os i \<Longrightarrow> \<not> isByteConcrete os i" "i < os_size os"
  shows "os_shape (mark_out i os)" "flushMask (mark_out i os) = flushMask os" "os_size (mark_out i os) = os_size os"
    "concreteStore (mark_out i os) = concreteStore os" "upd_root (mark_out i os) = upd_root os" "upd_head (mark_out i os) = upd_head os"
    "isByteFlushed (mark_out i os) j = isByteFlushed os j"
    "j < os_size os \<Longrightarrow> isByteConcrete (mark_out i os) j \<longleftrightarrow> j \<noteq> i \<and> isByteConcrete os j"
    "j < os_size os \<Longrightarrow> knownSymbolic (mark_out i os) j = (if j = i then None else knownSymbolic os j)"
proof -
  show "os_shape (mark_out i os)" using assms by (auto simp: mark_out_def shape_marks intro: shape_known)
  show "j < os_size os \<Longrightarrow> isByteConcrete (mark_out i os) j \<longleftrightarrow> j \<noteq> i \<and> isByteConcrete os j"
    using concrete_marks(2) [OF assms(1,3)] by (auto simp: mark_out_def)
  show "j < os_size os \<Longrightarrow> knownSymbolic (mark_out i os) j = (if j = i then None else knownSymbolic os j)"
    using known_marks [OF assms(1,3)] assms(2) by (auto simp: mark_out_def isByteKnownSymbolic_def)
qed (simp_all add: mark_out_def)

text \<open>What byte \<open>i\<close> looks like after \<open>flush_byte\<close>, when it is needed.\<close>

definition flush_if :: "nat \<Rightarrow> object_state \<Rightarrow> object_state option" where
  "flush_if i os = (if isByteFlushed os i then Some os else flush_byte i os)"

lemma flush_if_ok:
  assumes "os_inv os" "i < os_size os"
  shows "returns (flush_if i os) (\<lambda>os'. same_marks os os' \<and> upd_shape os'
    \<and> (\<forall>\<rho> j. j < os_size os \<longrightarrow> upd_value \<rho> os' j = (if j = i then byte \<rho> os i else upd_value \<rho> os j)))"
proof (cases "isByteFlushed os i")
  case True
  then show ?thesis using assms by (auto simp: flush_if_def same_marks_def os_inv_def cache_inv_def)
next
  case False
  from flush_byte_ok [OF assms False] obtain v
    where v: "flush_byte i os = Some (add_update (ConstantExpr (ce_alloc (int i) 32)) v os)"
      "wf_write (ConstantExpr (ce_alloc (int i) 32), v)" "\<And>\<rho>. eval \<rho> v = byte \<rho> os i" by metis
  have i: "take_bit 32 (int i) = int i" using assms by (simp add: os_inv_def os_shape_def take_bit_int_eq_self)
  have "upd_shape (add_update (ConstantExpr (ce_alloc (int i) 32)) v os)"
    using assms v(2) i by (intro upd_shape_add) (auto simp: os_inv_def)
  with v i False show ?thesis by (auto simp: flush_if_def upd_value_add)
qed

lemma flushesI:
  assumes inv: "os_inv os" and i: "i < os_size os" and fm: "flushMask os \<noteq> None" and m: "same_marks os os1" and u: "upd_shape os1"
    and v: "\<And>\<rho> j. j < os_size os \<Longrightarrow> upd_value \<rho> os1 j = (if j = i then byte \<rho> os i else upd_value \<rho> os j)"
    and os2: "os2 = (if gone then mark_out i os1 else os1)"
    and os3: "os3 = unset_flush i os2 \<or> os3 = os2 \<and> isByteFlushed os i"
  shows "flushes gone i os os3"
proof -
  note sel = same_marks_sel [OF m]
  have sh1: "os_shape os1" and k1: "isByteKnownSymbolic os1 i \<Longrightarrow> \<not> isByteConcrete os1 i" and i1: "i < os_size os1"
    using inv i by (auto simp: os_inv_def cache_inv_def sel)
  note mo = mark_out_sel [OF sh1 k1 i1]
  have two: "os_shape os2" "flushMask os2 = flushMask os" "os_size os2 = os_size os" "concreteStore os2 = concreteStore os"
      "upd_root os2 = upd_root os1" "upd_head os2 = upd_head os1" "isByteFlushed os2 j = isByteFlushed os j"
      "j < os_size os \<Longrightarrow> isByteConcrete os2 j \<longleftrightarrow> \<not> (gone \<and> j = i) \<and> isByteConcrete os j"
      "j < os_size os \<Longrightarrow> knownSymbolic os2 j = (if gone \<and> j = i then None else knownSymbolic os j)" for j
    using mo m sh1 by (simp_all add: os2 sel same_marks_def)
  have "flushMask os3 \<noteq> None" using os3 two(2) fm by (auto simp: unset_flush_def)
  moreover have three: "os_shape os3" "os_size os3 = os_size os" "concreteStore os3 = concreteStore os"
      "upd_root os3 = upd_root os1" "upd_head os3 = upd_head os1"
      "j < os_size os \<Longrightarrow> isByteFlushed os3 j \<longleftrightarrow> j = i \<or> isByteFlushed os j"
      "isByteConcrete os3 j = isByteConcrete os2 j" "knownSymbolic os3 j = knownSymbolic os2 j" for j
    using os3 two fm i shape_marks(4) [OF two(1), of i] flushed_marks(3) [of os2 i j] by auto
  moreover have "upd_shape os3" using u shape_frame [of os3 os1] three sel by simp
  ultimately show ?thesis using two v by (simp add: flushes_def value_frame [OF three(4,5)])
qed

text \<open>A loop that flushes the whole object.\<close>

definition flushed_upto :: "bool \<Rightarrow> object_state \<Rightarrow> nat list \<Rightarrow> object_state \<Rightarrow> bool" where
  "flushed_upto gone os is os' \<longleftrightarrow> os_inv os' \<and> flushMask os' \<noteq> None \<and> same_bytes os os'
     \<and> (\<forall>i \<in> set is. isByteFlushed os' i \<and> (gone \<longrightarrow> \<not> isByteConcrete os' i \<and> knownSymbolic os' i = None))"

lemma flushed_upto_step:
  assumes "flushed_upto gone os is os'" "flushes gone i os' os''" "set (is @ [i]) \<subseteq> set [0..<os_size os]"
  shows "flushed_upto gone os (is @ [i]) os''"
proof -
  have inv: "os_inv os'" "same_bytes os os'" "os_size os' = os_size os" using assms(1) by (auto simp: flushed_upto_def same_bytes_def)
  note f = flushes_inv [OF assms(2) inv(1)]
  have "isByteFlushed os'' j \<and> (gone \<longrightarrow> \<not> isByteConcrete os'' j \<and> knownSymbolic os'' j = None)" if "j \<in> set (is @ [i])" for j
    using that assms inv(3) by (auto simp: flushed_upto_def flushes_def)
  then show ?thesis using f same_bytes_trans [OF inv(2) f(2)] assms(2) by (simp add: flushed_upto_def flushes_def)
qed

lemma init_flush_ok:
  assumes "os_inv os"
  shows "flushed_upto gone os [] (init_flushMask os)"
proof -
  have sh: "os_shape os" "upd_shape os" "cache_inv os" using assms by (simp_all add: os_inv_def)
  have v: "upd_value \<rho> (init_flushMask os) i = upd_value \<rho> os i" for \<rho> i by (rule value_frame) simp_all
  have b: "byte \<rho> (init_flushMask os) i = byte \<rho> os i" for \<rho> i by (simp add: byte_def v split: option.split)
  have "isByteFlushed (init_flushMask os) i = isByteFlushed os i" if "i < os_size os" for i
    using flushed_marks(2) [OF sh(1) that that] .
  then have "cache_inv (init_flushMask os)" using sh(3) by (simp add: cache_inv_def v b isByteKnownSymbolic_def)
  then show ?thesis
    using sh shape_marks(5) [OF sh(1)] shape_frame [of "init_flushMask os" os] b
    by (simp add: flushed_upto_def os_inv_def same_bytes_def)
qed

lemma flushRangeForRead_ok:
  assumes "os_inv os"
  shows "returns (flushRangeForRead 0 (os_size os) os) (flushed_upto False os [0..<os_size os])"
  unfolding flushRangeForRead_def add_0
proof (rule returns_fold_abort)
  show "flushed_upto False os [] (init_flushMask os)" by (rule init_flush_ok [OF assms])
  fix "is" i os' assume i: "set (is @ [i]) \<subseteq> set [0..<os_size os]" and up: "flushed_upto False os is os'"
  then have inv: "os_inv os'" "i < os_size os'" "flushMask os' \<noteq> None" by (auto simp: flushed_upto_def same_bytes_def)
  obtain os1 where f: "flush_if i os' = Some os1" "same_marks os' os1" "upd_shape os1"
    "\<And>\<rho> j. j < os_size os' \<Longrightarrow> upd_value \<rho> os1 j = (if j = i then byte \<rho> os' i else upd_value \<rho> os' j)"
    using flush_if_ok [OF inv(1,2)] by (auto simp: returns_iff)
  note fl = flushesI [OF inv f(2-4), where gone = False]
  have *: "flushed_upto False os (is @ [i]) os''" if "flushes False i os' os''" for os''
    by (rule flushed_upto_step [OF up that i])
  show "returns (if \<not> isByteFlushed os' i then do { os \<leftarrow> flush_byte i os'; Some (unset_flush i os) } else Some os')
      (flushed_upto False os (is @ [i]))"
    using f(1) * [OF fl, of "unset_flush i os1"] * [OF fl, of os1] by (auto simp: flush_if_def split: if_splits)
qed

lemma flushRangeForWrite_ok:
  assumes "os_inv os"
  shows "returns (flushRangeForWrite 0 (os_size os) os) (flushed_upto True os [0..<os_size os])"
  unfolding flushRangeForWrite_def add_0
proof (rule returns_fold_abort)
  show "flushed_upto True os [] (init_flushMask os)" by (rule init_flush_ok [OF assms])
  fix "is" i os' assume i: "set (is @ [i]) \<subseteq> set [0..<os_size os]" and up: "flushed_upto True os is os'"
  then have inv: "os_inv os'" "i < os_size os'" "flushMask os' \<noteq> None" by (auto simp: flushed_upto_def same_bytes_def)
  obtain os1 where f: "flush_if i os' = Some os1" "same_marks os' os1" "upd_shape os1"
    "\<And>\<rho> j. j < os_size os' \<Longrightarrow> upd_value \<rho> os1 j = (if j = i then byte \<rho> os' i else upd_value \<rho> os' j)"
    using flush_if_ok [OF inv(1,2)] by (auto simp: returns_iff)
  note fl = flushesI [OF inv f(2-4), where gone = True]
  have *: "flushed_upto True os (is @ [i]) os''" if "flushes True i os' os''" for os''
    by (rule flushed_upto_step [OF up that i])
  show "returns (if \<not> isByteFlushed os' i then do { os \<leftarrow> flush_byte i os'; Some (unset_flush i (mark_out i os)) }
      else Some (mark_out i os')) (flushed_upto True os (is @ [i]))"
    using f(1) * [OF fl, of "mark_out i os1" "unset_flush i (mark_out i os1)"] * [OF fl, of "mark_out i os1" "mark_out i os1"]
    by (auto simp: flush_if_def split: if_splits)
qed

subsection \<open>Bytes\<close>

definition stores :: "object_state \<Rightarrow> (env \<Rightarrow> nat \<Rightarrow> bool) \<Rightarrow> (env \<Rightarrow> int) \<Rightarrow> object_state \<Rightarrow> bool" where
  "stores os here f os' \<longleftrightarrow> os_inv os' \<and> os_size os' = os_size os
     \<and> (\<forall>\<rho>. \<forall>j < os_size os. byte \<rho> os' j = (if here \<rho> j then f \<rho> else byte \<rho> os j))"

text \<open>A step that puts byte \<open>i\<close> into the cache: concrete or known, and not flushed.\<close>

definition caches :: "nat \<Rightarrow> object_state \<Rightarrow> object_state \<Rightarrow> bool" where
  "caches i os os' \<longleftrightarrow> os_shape os' \<and> os_size os' = os_size os \<and> upd_root os' = upd_root os \<and> upd_head os' = upd_head os
     \<and> (isByteConcrete os' i \<longleftrightarrow> knownSymbolic os' i = None)
     \<and> (\<forall>j < os_size os. (isByteFlushed os' j \<longleftrightarrow> j \<noteq> i \<and> isByteFlushed os j)
          \<and> (j \<noteq> i \<longrightarrow> isByteConcrete os' j = isByteConcrete os j \<and> knownSymbolic os' j = knownSymbolic os j
               \<and> concreteStore os' ! j = concreteStore os ! j))"

lemma caches_stores:
  assumes "caches i os os'" "os_inv os" "\<And>\<rho>. byte \<rho> os' i = f \<rho>"
  shows "stores os (\<lambda>_ j. j = i) f os'"
proof -
  have fr: "upd_root os' = upd_root os" "upd_head os' = upd_head os" "os_size os' = os_size os" using assms(1) by (simp_all add: caches_def)
  note v = value_frame [OF fr(1,2)]
  have eq: "byte \<rho> os' j = byte \<rho> os j" if "j < os_size os" "j \<noteq> i" for \<rho> j
    using assms(1) that by (simp add: caches_def byte_def v split: option.split)
  have "cache_inv os'"
    unfolding cache_inv_def
  proof (intro allI impI)
    fix j assume "j < os_size os'"
    then have j: "j < os_size os" by (simp add: fr)
    show "(isByteKnownSymbolic os' j \<longrightarrow> \<not> isByteConcrete os' j)
     \<and> (\<not> isByteFlushed os' j \<longrightarrow> isByteConcrete os' j \<or> isByteKnownSymbolic os' j)
     \<and> (isByteFlushed os' j \<longrightarrow> (\<forall>\<rho>. upd_value \<rho> os' j = byte \<rho> os' j))"
      using assms(1,2) j eq [OF j]
      by (cases "j = i") (auto simp: caches_def os_inv_def cache_inv_def isByteKnownSymbolic_def v)
  qed
  then show ?thesis
    using assms shape_frame [OF fr] eq by (simp add: stores_def os_inv_def caches_def)
qed

lemma write8_ok:
  assumes "os_inv os" "i < os_size os"
  shows "returns (write8 i v os) (stores os (\<lambda>_ j. j = i) (\<lambda>_. take_bit 8 v))"
proof -
  let ?a = "os\<lparr>concreteStore := (concreteStore os)[i := take_bit 8 v]\<rparr>"
  let ?b = "setKnownSymbolic i None ?a" let ?c = "markByteConcrete i ?b" let ?d = "markByteUnflushed i ?c"
  have sh: "os_shape os" using assms by (simp add: os_inv_def)
  have m: "isByteConcrete ?a j = isByteConcrete os j" "knownSymbolic ?a j = knownSymbolic os j" "isByteFlushed ?a j = isByteFlushed os j" for j
    by (simp_all add: isByteConcrete_def knownSymbolic_def isByteFlushed_def)
  have a: "os_shape ?a" using sh by (auto simp: os_shape_def knownSymbolic_def dest!: set_update_subset_insert [THEN subsetD])
  then have b: "os_shape ?b" using assms(2) by (intro shape_known) simp_all
  then have c: "os_shape ?c" by (rule shape_marks)
  have "caches i os ?d"
    using shape_marks(3) [OF c] flushed_marks(1) [OF c] concrete_marks(1) [OF b] known_marks [OF a] assms(2)
    by (simp add: caches_def m)
  moreover have "byte \<rho> ?d i = take_bit 8 v" for \<rho>
    using concrete_marks(1) [OF b] assms(2) sh by (simp add: byte_def os_shape_def)
  ultimately show ?thesis using caches_stores [OF _ assms(1)] assms(2) by (simp add: write8_def)
qed

lemma write8_expr_ok:
  assumes "os_inv os" "i < os_size os" "wf_expr e" "getWidth e = 8"
  shows "returns (write8_expr i e os) (stores os (\<lambda>_ j. j = i) (\<lambda>\<rho>. eval \<rho> e))"
proof (cases "\<exists>c. e = ConstantExpr c")
  case True
  then obtain c where c: "e = ConstantExpr c" by blast
  with assms(3,4) have "take_bit 8 (ce_value c) = ce_value c" by (simp add: wf_const_def)
  then show ?thesis using write8_ok [OF assms(1,2), of "ce_value c"] assms(4) by (simp add: write8_expr_def c ce_getZExtValue_def)
next
  case False
  let ?b = "setKnownSymbolic i (Some e) os" let ?c = "markByteSymbolic i ?b" let ?d = "markByteUnflushed i ?c"
  have sh: "os_shape os" using assms(1) by (simp add: os_inv_def)
  then have b: "os_shape ?b" using assms by (intro shape_known) auto
  then have c: "os_shape ?c" by (rule shape_marks)
  have "caches i os ?d"
    using shape_marks(3) [OF c] flushed_marks(1) [OF c] concrete_marks(2) [OF b] known_marks [OF sh] assms(2)
    by (simp add: caches_def)
  moreover have "byte \<rho> ?d i = eval \<rho> e" for \<rho>
    using concrete_marks(2) [OF b] known_marks [OF sh] assms(2) by (simp add: byte_def)
  ultimately show ?thesis
    using False caches_stores [OF _ assms(1)] assms(2) by (cases e) (simp_all add: write8_expr_def)
qed

lemma byte_updates: "\<not> isByteConcrete os i \<Longrightarrow> knownSymbolic os i = None \<Longrightarrow> byte \<rho> os i = upd_value \<rho> os i"
  by (simp add: byte_def)

lemma upd_read:
  assumes "updates_ok os (root, os', A)" "wf_expr ix" "getWidth ix = 32"
  shows "returns (create_ReadExpr root (upd_head os') ix)
    (\<lambda>e. denotes e 8 (\<lambda>\<rho>. node_read \<rho> (root_read \<rho> os') (upd_head os') (eval \<rho> ix)))"
proof -
  have "wf_array root" "arr_domain root = 32" "arr_range root = 8" "wf_unode root (upd_head os')" "upd_root os' = Some root"
    using assms(1) wf_writes [of root] by (auto simp: updates_ok_def os_inv_def upd_shape_def wf_byte_writes)
  then show ?thesis using create_ReadExpr_sound [of root "upd_head os'" ix] assms(2,3)
    by (simp add: eval_read_node root_read_def)
qed

lemma read8_ok:
  assumes "os_inv os" "i < os_size os"
  shows "returns (read8 i os A) (\<lambda>(e, os', A'). denotes e 8 (\<lambda>\<rho>. byte \<rho> os i) \<and> os_inv os' \<and> same_bytes os os')"
proof -
  have sh: "os_shape os" "cache_inv os" using assms(1) by (simp_all add: os_inv_def)
  consider (concrete) "isByteConcrete os i" | (known) e where "\<not> isByteConcrete os i" "knownSymbolic os i = Some e"
    | (updates) "\<not> isByteConcrete os i" "knownSymbolic os i = None" by fastforce
  then show ?thesis
  proof cases
    case concrete
    moreover have "fits 8 (concreteStore os ! i)" using sh(1) assms(2) by (simp add: os_shape_def)
    ultimately show ?thesis using assms by (simp add: read8_def denotes_def byte_def)
  next
    case known
    moreover have "wf_expr e" "getWidth e = 8" using known sh(1) assms(2) by (auto simp: os_shape_def)
    ultimately show ?thesis using assms by (simp add: read8_def denotes_def byte_def)
  next
    case updates
    then have fl: "isByteFlushed os i" using sh(2) assms(2) by (auto simp: cache_inv_def isByteKnownSymbolic_def)
    obtain root os' A' where u: "getUpdates os A = Some (root, os', A')" "updates_ok os (root, os', A')"
      using getUpdates_ok [OF assms(1), of A] by (auto simp: returns_iff)
    have i: "fits 32 (int i)" using sh(1) assms(2) by (simp add: os_shape_def fits_def)
    have "node_read \<rho> (root_read \<rho> os') (upd_head os') (int i) = byte \<rho> os i" for \<rho>
      using u(2) updates assms(2) byte_updates [of os' i \<rho>]
      by (simp add: updates_ok_def same_bytes_def same_marks_sel [of os os'] upd_value_def)
    with upd_read [OF u(2), of "ConstantExpr (ce_alloc (int i) 32)"] i updates fl u assms(2)
    show ?thesis by (auto simp: read8_def updates_ok_def returns_bind_iff elim!: returns_mono)
  qed
qed

text \<open>Offsets that are not constant.\<close>

definition sym_offset :: "expr \<Rightarrow> bool" where
  "sym_offset off \<longleftrightarrow> wf_expr off \<and> getWidth off = 32 \<and> \<not> is_ConstantExpr off"

lemma read8_sym_ok:
  assumes "os_inv os" "sym_offset off"
  shows "returns (read8_sym off os A) (\<lambda>(e, os', A'). wf_expr e \<and> getWidth e = 8
    \<and> (\<forall>\<rho>. eval \<rho> off < int (os_size os) \<longrightarrow> eval \<rho> e = byte \<rho> os (nat (eval \<rho> off))) \<and> os_inv os' \<and> same_bytes os os')"
proof -
  obtain os1 where f: "flushRangeForRead 0 (os_size os) os = Some os1" "flushed_upto False os [0..<os_size os] os1"
    using flushRangeForRead_ok [OF assms(1)] by (auto simp: returns_iff)
  then have inv: "os_inv os1" "same_bytes os os1" by (simp_all add: flushed_upto_def)
  obtain root os' A' where u: "getUpdates os1 A = Some (root, os', A')" "updates_ok os1 (root, os', A')"
    using getUpdates_ok [OF inv(1), of A] by (auto simp: returns_iff)
  have off: "wf_expr off" "getWidth off = 32" "\<not> is_ConstantExpr off" using assms(2) by (auto simp: sym_offset_def)
  have inv': "os_inv os'" "same_bytes os os'" using u(2) inv(2) same_bytes_trans by (auto simp: updates_ok_def)
  have val: "node_read \<rho> (root_read \<rho> os') (upd_head os') (int i) = byte \<rho> os i" if "i < os_size os" for \<rho> i
  proof -
    have "isByteFlushed os' i" using f(2) u(2) that by (auto simp: flushed_upto_def updates_ok_def same_marks_sel)
    then have "upd_value \<rho> os' i = byte \<rho> os' i" using inv' that by (auto simp: os_inv_def cache_inv_def same_bytes_def)
    then show ?thesis using inv'(2) that by (simp add: upd_value_def same_bytes_def)
  qed
  have "node_read \<rho> (root_read \<rho> os') (upd_head os') (eval \<rho> off) = byte \<rho> os (nat (eval \<rho> off))" if "eval \<rho> off < int (os_size os)" for \<rho>
    using val [of "nat (eval \<rho> off)" \<rho>] that eval_nonneg [OF off(1), of \<rho>] by simp
  with upd_read [OF u(2) off(1,2)] f(1) u(1) inv' off show ?thesis
    by (auto simp: read8_sym_def fastRangeCheckOffset_def create_ZExtExpr_def denotes_def returns_bind_iff elim!: returns_mono)
qed

lemma write8_sym_ok:
  assumes "os_inv os" "sym_offset off" "wf_expr v" "getWidth v = 8"
  shows "returns (write8_sym off v os) (stores os (\<lambda>\<rho> j. eval \<rho> off = int j) (\<lambda>\<rho>. eval \<rho> v))"
proof -
  obtain os1 where f: "flushRangeForWrite 0 (os_size os) os = Some os1" "flushed_upto True os [0..<os_size os] os1"
    using flushRangeForWrite_ok [OF assms(1)] by (auto simp: returns_iff)
  then have inv: "os_inv os1" "same_bytes os os1" and sz: "os_size os1 = os_size os"
    by (auto simp: flushed_upto_def same_bytes_def)
  have off: "wf_expr off" "getWidth off = 32" "\<not> is_ConstantExpr off" using assms(2) by (auto simp: sym_offset_def)
  have w: "wf_write (off, v)" using off assms by (simp add: wf_write_def)
  let ?os = "add_update off v os1"
  have ext: "upd_extend off v os1 = Some ?os" using w inv(1) by (intro upd_extend_add upd_shape_root) (simp_all add: os_inv_def)
  have all: "isByteFlushed ?os i" "\<not> isByteConcrete ?os i" "knownSymbolic ?os i = None" if "i < os_size os" for i
    using f(2) that by (auto simp: flushed_upto_def add_update_marks)
  have b: "byte \<rho> ?os i = (if eval \<rho> off = int i then eval \<rho> v else byte \<rho> os i)" if "i < os_size os" for \<rho> i
    using byte_updates [OF all(2,3) [OF that]] byte_updates [of os1 i \<rho>] all [OF that] inv(2) that
    by (simp add: upd_value_add same_bytes_def add_update_marks)
  have "upd_shape ?os" using w inv(1) off by (intro upd_shape_add) (auto simp: os_inv_def)
  moreover have "cache_inv ?os" using all sz by (auto simp: cache_inv_def add_update_marks isByteKnownSymbolic_def byte_def)
  ultimately have "stores os (\<lambda>\<rho> j. eval \<rho> off = int j) (\<lambda>\<rho>. eval \<rho> v) ?os"
    using b inv(1) sz by (simp add: stores_def os_inv_def add_update_marks)
  then show ?thesis using f(1) ext off by (simp add: write8_sym_def fastRangeCheckOffset_def create_ZExtExpr_def)
qed

subsection \<open>New objects\<close>

lemma makeConcrete_ok:
  assumes "os_shape os" "upd_shape os"
  shows "os_inv (makeConcrete os)" "byte \<rho> (makeConcrete os) i = concreteStore os ! i"
proof -
  have "os_shape (makeConcrete os)" "upd_shape (makeConcrete os)"
    using assms shape_frame [of "makeConcrete os" os] by (simp_all add: os_shape_def makeConcrete_def knownSymbolic_def)
  moreover have "isByteConcrete (makeConcrete os) j" "\<not> isByteFlushed (makeConcrete os) j" "\<not> isByteKnownSymbolic (makeConcrete os) j" for j
    by (simp_all add: makeConcrete_def isByteConcrete_def isByteFlushed_def isByteKnownSymbolic_def knownSymbolic_def)
  ultimately show "os_inv (makeConcrete os)" "byte \<rho> (makeConcrete os) i = concreteStore os ! i"
    by (simp_all add: os_inv_def cache_inv_def byte_def) (simp add: makeConcrete_def)
qed

definition made_symbolic :: "nat \<Rightarrow> object_state \<Rightarrow> object_state \<Rightarrow> bool" where
  "made_symbolic k os os' \<longleftrightarrow> os_shape os' \<and> os_size os' = os_size os \<and> upd_root os' = upd_root os \<and> upd_head os' = upd_head os
     \<and> concreteStore os' = concreteStore os
     \<and> knownSymbolics os' = None \<and> (\<forall>j < k. \<not> isByteConcrete os' j) \<and> (0 < k \<longrightarrow> (\<forall>j < os_size os. isByteFlushed os' j))"

lemma markByteFlushed_sel:
  assumes "os_shape os" "i < os_size os"
  shows "os_shape (markByteFlushed i os)" "os_size (markByteFlushed i os) = os_size os" "upd_root (markByteFlushed i os) = upd_root os"
    "upd_head (markByteFlushed i os) = upd_head os" "knownSymbolics (markByteFlushed i os) = knownSymbolics os"
    "isByteConcrete (markByteFlushed i os) j = isByteConcrete os j" "concreteStore (markByteFlushed i os) = concreteStore os"
    "j < os_size os \<Longrightarrow> flushMask os = None \<or> isByteFlushed os j \<Longrightarrow> isByteFlushed (markByteFlushed i os) j"
  using assms bits.valid_new [of "os_size os"] bits.valid_unset [of "os_size os"] bits.get_new [of j "os_size os"] bits.get_unset [of "os_size os"]
  by (auto simp: markByteFlushed_def os_shape_def knownSymbolic_def isByteConcrete_def isByteFlushed_def split: option.splits)

lemma makeSymbolic_loop:
  assumes "os_shape os" "knownSymbolics os = None" "flushMask os = None" "k \<le> os_size os"
  shows "made_symbolic k os (fold (\<lambda>i os. markByteFlushed i (setKnownSymbolic i None (markByteSymbolic i os))) [0..<k] os)
    \<and> (k = 0 \<longrightarrow> flushMask (fold (\<lambda>i os. markByteFlushed i (setKnownSymbolic i None (markByteSymbolic i os))) [0..<k] os) = None)"
  using assms(4)
proof (induction k)
  case 0
  then show ?case using assms by (simp add: made_symbolic_def)
next
  case (Suc k)
  let ?os = "fold (\<lambda>i os. markByteFlushed i (setKnownSymbolic i None (markByteSymbolic i os))) [0..<k] os"
  let ?a = "markByteSymbolic k ?os" let ?b = "setKnownSymbolic k None ?a"
  have k: "made_symbolic k os ?os" "k = 0 \<longrightarrow> flushMask ?os = None" "k < os_size os" using Suc by auto
  then have sh: "os_shape ?os" "os_size ?os = os_size os" by (simp_all add: made_symbolic_def)
  have b: "?b = ?a" using k(1) by (simp add: setKnownSymbolic_def made_symbolic_def)
  have a: "os_shape ?a" by (rule shape_marks(2) [OF sh(1)])
  have fl: "flushMask ?a = None \<or> isByteFlushed ?a j" if "j < os_size os" for j
    using k that by (cases k) (simp_all add: made_symbolic_def)
  have "made_symbolic (Suc k) os (markByteFlushed k ?a)"
    using k sh markByteFlushed_sel [OF a, of k] concrete_marks(2) [OF sh(1), of k] fl
    by (auto simp: made_symbolic_def less_Suc_eq)
  then show ?case by (simp add: b)
qed

lemma ObjectState_symbolic_ok:
  assumes "0 < mo_size mo" "mo_size mo \<le> 2 ^ 32" "wf_array a" "arr_domain a = 32" "arr_range a = 8"
  shows "returns (ObjectState_symbolic mo a) (\<lambda>os. os_inv os \<and> os_size os = mo_size mo \<and> knownSymbolics os = None
    \<and> concreteStore os = replicate (mo_size mo) 0 \<and> (\<forall>\<rho>. \<forall>i < mo_size mo. \<not> isByteConcrete os i \<and> byte \<rho> os i = initial_read \<rho> a (int i)))"
proof -
  let ?os = "new_object_state (mo_size mo) (Some a)"
  let ?os' = "fold (\<lambda>i os. markByteFlushed i (setKnownSymbolic i None (markByteSymbolic i os))) [0..<os_size ?os] ?os"
  have new: "os_shape ?os" "knownSymbolics ?os = None" "flushMask ?os = None" "os_size ?os = mo_size mo" "upd_head ?os = NullNode"
      "upd_shape ?os" "upd_root ?os = Some a" "concreteStore ?os = replicate (mo_size mo) 0"
    using assms by (auto simp: os_shape_def new_object_state_def knownSymbolic_def upd_shape_def)
  have m: "made_symbolic (mo_size mo) ?os ?os'" using makeSymbolic_loop [OF new(1-3), of "mo_size mo"] new(4) by simp
  then have c: "\<not> isByteConcrete ?os' i" "isByteFlushed ?os' i" "knownSymbolic ?os' i = None" if "i < mo_size mo" for i
    using that by (auto simp: made_symbolic_def new(4) knownSymbolic_def)
  have b: "byte \<rho> ?os' i = initial_read \<rho> a (int i)" if "i < mo_size mo" for \<rho> i
    using c [OF that] m new by (simp add: byte_updates upd_value_def root_read_def made_symbolic_def)
  have "cache_inv ?os'" using c m by (auto simp: cache_inv_def isByteKnownSymbolic_def byte_updates made_symbolic_def new(4))
  moreover have "upd_shape ?os'" using m shape_frame [of ?os' ?os] new by (simp add: made_symbolic_def)
  ultimately have "os_inv ?os'" using m by (simp add: os_inv_def made_symbolic_def)
  with b m c show ?thesis by (simp add: ObjectState_symbolic_def makeSymbolic_def new made_symbolic_def)
qed

end
