(* ===== verification/ObjectAccess.thy ===== *)
theory ObjectAccess
  imports ObjectSound
begin

text \<open>
  Reads and writes of values of several bytes at any offset, over the byte operations of \<open>ObjectSound\<close>. The reference is
  an array of bytes with \<open>put\<close> and \<open>get\<close> in the byte order of the target.
\<close>

subsection \<open>The reference\<close>

definition nbytes :: "nat \<Rightarrow> nat" where
  "nbytes w = (if w = 1 then 1 else w div 8)"

definition valid_width :: "nat \<Rightarrow> bool" where
  "valid_width w \<longleftrightarrow> w = 1 \<or> 0 < w \<and> w mod 8 = 0 \<and> w < 2 ^ 32"

definition put :: "bool \<Rightarrow> nat \<Rightarrow> nat \<Rightarrow> int \<Rightarrow> (nat \<Rightarrow> int) \<Rightarrow> nat \<Rightarrow> int" where
  "put le k n v m j = (if k \<le> j \<and> j < k + n then take_bit 8 (drop_bit (8 * byte_index le n (j - k)) v) else m j)"

definition fetch :: "bool \<Rightarrow> nat \<Rightarrow> nat \<Rightarrow> (nat \<Rightarrow> int) \<Rightarrow> int" where
  "fetch le k n m = (\<Sum>i<n. push_bit (8 * i) (m (k + byte_index le n i)))"

lemma byte_index_less: "i < n \<Longrightarrow> byte_index le n i < n"
  by (simp add: byte_index_def)

lemma byte_index_involution: "i < n \<Longrightarrow> byte_index le n (byte_index le n i) = i"
  by (simp add: byte_index_def)

lemma sum_bytes: "(\<Sum>i<n. push_bit (8 * i) (take_bit 8 (drop_bit (8 * i) v))) = take_bit (8 * n) (v::int)"
proof (induction n)
  case (Suc n)
  have "take_bit (8 * Suc n) v = take_bit (8 * n) v + push_bit (8 * n) (take_bit 8 (drop_bit (8 * n) v))"
  proof -
    have "take_bit (8 * n + 8) v = take_bit (8 * n) v OR push_bit (8 * n) (take_bit 8 (drop_bit (8 * n) v))"
      by (rule bit_eqI) (auto simp: bit_or_iff bit_take_bit_iff bit_push_bit_iff bit_drop_bit_eq)
    also have "\<dots> = take_bit (8 * n) v + push_bit (8 * n) (take_bit 8 (drop_bit (8 * n) v))"
      by (rule disjunctive_add [symmetric]) (auto simp: bit_take_bit_iff bit_push_bit_iff)
    finally show ?thesis by (simp add: add.commute)
  qed
  with Suc show ?case by simp
qed simp

theorem fetch_put: "fetch le k n (put le k n v m) = take_bit (8 * n) v"
proof -
  have "put le k n v m (k + byte_index le n i) = take_bit 8 (drop_bit (8 * i) v)" if "i < n" for i
    using that byte_index_less [OF that, of le] byte_index_involution [OF that, of le] by (simp add: put_def)
  then show ?thesis by (simp add: fetch_def sum_bytes)
qed

lemma fetch_cong: "(\<And>j. k \<le> j \<Longrightarrow> j < k + n \<Longrightarrow> m j = m' j) \<Longrightarrow> fetch le k n m = fetch le k n m'"
  by (simp add: fetch_def byte_index_less)

lemma fetch_1: "fetch le k 1 m = m k" "fetch le k (Suc 0) m = m k"
  by (simp_all add: fetch_def byte_index_def)

lemma put_1: "put le k (Suc 0) v m j = (if j = k then take_bit 8 v else m j)"
  by (simp add: put_def byte_index_def)

lemma fold_upd_other: "j \<notin> p ` {..<n} \<Longrightarrow> fold (\<lambda>i m. m(p i := b i)) [0..<n] m j = m j"
  by (induction n) (auto simp: lessThan_Suc)

lemma fold_upd_at: "inj_on p {..<n} \<Longrightarrow> i < n \<Longrightarrow> fold (\<lambda>i m. m(p i := b i)) [0..<n] m (p i) = b i"
proof (induction n)
  case (Suc n)
  then have "p i \<noteq> p n" if "i \<noteq> n" using that by (auto simp: inj_on_def)
  moreover have "inj_on p {..<n}" using Suc.prems(1) by (simp add: lessThan_Suc)
  ultimately show ?case using Suc by (cases "i = n") (auto simp: less_Suc_eq)
qed simp

lemma fold_put:
  assumes "\<And>i. i < n \<Longrightarrow> b i = take_bit 8 (drop_bit (8 * i) v)"
  shows "fold (\<lambda>i m. m(k + byte_index le n i := b i)) [0..<n] m = put le k n v m"
proof
  fix j
  have inj: "inj_on (\<lambda>i. k + byte_index le n i) {..<n}"
    by (rule inj_onI) (metis add_left_cancel byte_index_involution lessThan_iff)
  show "fold (\<lambda>i m. m(k + byte_index le n i := b i)) [0..<n] m j = put le k n v m j"
  proof (cases "k \<le> j \<and> j < k + n")
    case True
    let ?i = "byte_index le n (j - k)"
    have jk: "j - k < n" using True by linarith
    have i: "?i < n" "k + byte_index le n ?i = j" using True byte_index_less [OF jk] byte_index_involution [OF jk] by simp_all
    then show ?thesis using fold_upd_at [OF inj i(1), of b m] i(2) True assms by (simp add: put_def)
  next
    case False
    then have "j \<notin> (\<lambda>i. k + byte_index le n i) ` {..<n}" using byte_index_less by fastforce
    then show ?thesis using fold_upd_other [of j _ n b m] False by (auto simp: put_def)
  qed
qed

subsection \<open>Loops over the bytes\<close>

lemma fold_abort_append: "fold_abort f (xs @ ys) s = fold_abort f xs s \<bind> fold_abort f ys"
proof (induction xs arbitrary: s)
  case (Cons x xs)
  then show ?case by (cases "f x s") simp_all
qed simp

definition stores_all :: "object_state \<Rightarrow> (env \<Rightarrow> nat \<Rightarrow> nat) \<Rightarrow> (env \<Rightarrow> nat \<Rightarrow> int) \<Rightarrow> nat \<Rightarrow> object_state \<Rightarrow> bool" where
  "stores_all os pos val n os' \<longleftrightarrow> os_inv os' \<and> os_size os' = os_size os
     \<and> (\<forall>\<rho>. \<forall>j < os_size os. byte \<rho> os' j = fold (\<lambda>i m. m(pos \<rho> i := val \<rho> i)) [0..<n] (byte \<rho> os) j)"

lemma write_loop_ok:
  assumes "os_inv os"
    and "\<And>i os'. i < n \<Longrightarrow> os_inv os' \<Longrightarrow> os_size os' = os_size os
      \<Longrightarrow> returns (step i os') (stores os' (\<lambda>\<rho> j. j = pos \<rho> i) (\<lambda>\<rho>. val \<rho> i))"
  shows "returns (fold_abort step [0..<n] os) (stores_all os pos val n)"
  using assms(2)
proof (induction n)
  case 0
  then show ?case using assms(1) by (simp add: stores_all_def)
next
  case (Suc n)
  then obtain os' where os': "fold_abort step [0..<n] os = Some os'" "stores_all os pos val n os'" by (auto simp: returns_iff)
  moreover from this have "returns (step n os') (stores os' (\<lambda>\<rho> j. j = pos \<rho> n) (\<lambda>\<rho>. val \<rho> n))"
    by (intro Suc.prems) (simp_all add: stores_all_def)
  then obtain os'' where "step n os' = Some os''" "stores os' (\<lambda>\<rho> j. j = pos \<rho> n) (\<lambda>\<rho>. val \<rho> n) os''" by (auto simp: returns_iff)
  ultimately show ?case by (auto simp: fold_abort_append stores_all_def stores_def)
qed

definition reads :: "object_state \<Rightarrow> nat \<Rightarrow> (env \<Rightarrow> bool) \<Rightarrow> (env \<Rightarrow> int) \<Rightarrow> expr \<times> object_state \<times> array_cache \<Rightarrow> bool" where
  "reads os w ok f = (\<lambda>(e, os', A). wf_expr e \<and> getWidth e = w \<and> (\<forall>\<rho>. ok \<rho> \<longrightarrow> eval \<rho> e = f \<rho>) \<and> os_inv os' \<and> same_bytes os os')"

lemma reads_cong: "reads os w ok f r \<Longrightarrow> (\<And>\<rho>. ok \<rho> \<Longrightarrow> f \<rho> = g \<rho>) \<Longrightarrow> reads os w ok g r"
  by (auto simp: reads_def)

lemma read_loop_ok:
  assumes "os_inv os" "0 < n"
    and "\<And>i os' A. i < n \<Longrightarrow> os_inv os' \<Longrightarrow> same_bytes os os' \<Longrightarrow> returns (rd i os' A) (reads os' 8 ok (\<lambda>\<rho>. b \<rho> i))"
  shows "returns (read_loop rd [0..<n] os A)
    (\<lambda>(res, os', A'). \<exists>e. res = Some e \<and> reads os (8 * n) ok (\<lambda>\<rho>. \<Sum>i<n. push_bit (8 * i) (b \<rho> i)) (e, os', A'))"
  using assms(2,3)
proof (induction n)
  case (Suc n)
  show ?case
  proof (cases "n = 0")
    case True
    then show ?thesis
      using Suc.prems(2) [of 0 os A] assms(1) by (auto simp: read_loop_def returns_bind_iff elim!: returns_mono)
  next
    case False
    then obtain e os' A' where r: "read_loop rd [0..<n] os A = Some (Some e, os', A')"
      "reads os (8 * n) ok (\<lambda>\<rho>. \<Sum>i<n. push_bit (8 * i) (b \<rho> i)) (e, os', A')"
      using Suc by (fastforce simp: returns_iff)
    then have inv: "os_inv os'" "same_bytes os os'" by (simp_all add: reads_def)
    obtain x os'' A'' where x: "rd n os' A' = Some (x, os'', A'')" "reads os' 8 ok (\<lambda>\<rho>. b \<rho> n) (x, os'', A'')"
      using Suc.prems(2) [OF lessI inv, of A'] by (auto simp: returns_iff)
    have "returns (create_ConcatExpr x e) (concat_spec x e)" using r(2) x(2) by (intro create_ConcatExpr_sound) (simp_all add: reads_def)
    then have "returns (create_ConcatExpr x e) (\<lambda>c. reads os (8 * Suc n) ok (\<lambda>\<rho>. \<Sum>i<Suc n. push_bit (8 * i) (b \<rho> i)) (c, os'', A''))"
      by (rule returns_mono) (use r(2) x(2) same_bytes_trans [OF inv(2)] in \<open>simp add: concat_spec_def reads_def denotes_def\<close>)
    then show ?thesis using r(1) x(1) by (auto simp: read_loop_def fold_abort_append returns_bind_iff elim!: returns_mono)
  qed
qed simp

subsection \<open>Constant offsets\<close>

definition writes_value :: "bool \<Rightarrow> nat \<Rightarrow> expr \<Rightarrow> object_state \<Rightarrow> object_state \<Rightarrow> bool" where
  "writes_value le k v os = stores_all os (\<lambda>_ i. k + byte_index le (nbytes (getWidth v)) i)
     (\<lambda>\<rho> i. take_bit 8 (drop_bit (8 * i) (eval \<rho> v))) (nbytes (getWidth v))"

lemma stores_one:
  assumes "stores os (\<lambda>_ j. j = k) (\<lambda>\<rho>. eval \<rho> v) os'" "wf_expr v" "nbytes (getWidth v) = 1" "getWidth v \<le> 8"
  shows "writes_value le k v os os'"
  using assms by (auto simp: writes_value_def stores_all_def stores_def byte_index_def)

lemma offset_in:
  assumes "os_inv os" "k + n \<le> os_size os" "i < n"
  shows "(k + byte_index le n i) mod 2 ^ 32 = k + byte_index le n i" "k + byte_index le n i < os_size os"
  using assms byte_index_less [OF assms(3), of le] by (auto simp: os_inv_def os_shape_def)

lemma write_bytes_ok:
  assumes "os_inv os" "k + nbytes (getWidth v) \<le> os_size os" "n = nbytes (getWidth v)" "\<And>\<rho>. eval \<rho> v = x"
  shows "returns (write_bytes le n k x os) (writes_value le k v os)"
  unfolding write_bytes_def writes_value_def assms(3)[symmetric] assms(4)
proof (rule write_loop_ok [OF assms(1)])
  fix i os' assume i: "i < n" and os': "os_inv os'" "os_size os' = os_size os"
  have "k + n \<le> os_size os'" using assms os' by simp
  from offset_in [OF os'(1) this i, of le]
  show "returns (write8 ((k + byte_index le n i) mod 2 ^ 32) (drop_bit (8 * i) x) os')
      (stores os' (\<lambda>\<rho> j. j = k + byte_index le n i) (\<lambda>\<rho>. take_bit 8 (drop_bit (8 * i) x)))"
    using write8_ok [OF os'(1)] by simp
qed

lemma write_expr_bytes_ok:
  assumes "os_inv os" "wf_expr v" "valid_width (getWidth v)" "k + nbytes (getWidth v) \<le> os_size os"
  shows "returns (write_expr_bytes le k v os) (writes_value le k v os)"
proof (cases "getWidth v = 1")
  case True
  obtain b where b: "create_ZExtExpr v 8 = Some b" "denotes b 8 (\<lambda>\<rho>. eval \<rho> v)"
    using create_ZExtExpr_sound [OF assms(2), of 8] True assms(2) by (auto simp: returns_iff)
  have "returns (write8_expr k b os) (stores os (\<lambda>_ j. j = k) (\<lambda>\<rho>. eval \<rho> b))"
    using b(2) assms True by (intro write8_expr_ok) (simp_all add: denotes_def nbytes_def)
  then have "returns (write8_expr k b os) (writes_value le k v os)"
    by (rule returns_mono) (use b(2) assms(2) True in \<open>auto intro!: stores_one simp: denotes_def nbytes_def\<close>)
  then show ?thesis using True b(1) by (simp add: write_expr_bytes_def)
next
  case False
  let ?n = "getWidth v div 8"
  have w: "getWidth v = ?n * 8" "nbytes (getWidth v) = ?n" using assms(3) False by (auto simp: valid_width_def nbytes_def)
  have "returns (fold_abort (\<lambda>i os. do { b \<leftarrow> create_ExtractExpr v (8 * i) 8; write8_expr ((k + byte_index le ?n i) mod 2 ^ 32) b os })
      [0..<?n] os) (writes_value le k v os)"
    unfolding writes_value_def w(2)
  proof (rule write_loop_ok [OF assms(1)])
    fix i os' assume i: "i < ?n" and os': "os_inv os'" "os_size os' = os_size os"
    have k: "k + ?n \<le> os_size os'" using assms(4) w(2) os' by simp
    have "8 * i + 8 \<le> getWidth v" using i w(1) by linarith
    then obtain b where b: "create_ExtractExpr v (8 * i) 8 = Some b" "extract_spec v (8 * i) 8 b"
      using create_ExtractExpr_sound [OF assms(2), of 8 "8 * i"] by (auto simp: returns_iff)
    then show "returns (do { b \<leftarrow> create_ExtractExpr v (8 * i) 8; write8_expr ((k + byte_index le ?n i) mod 2 ^ 32) b os' })
        (stores os' (\<lambda>\<rho> j. j = k + byte_index le ?n i) (\<lambda>\<rho>. take_bit 8 (drop_bit (8 * i) (eval \<rho> v))))"
      using write8_expr_ok [OF os'(1) offset_in(2) [OF os'(1) k i], of b le] offset_in(1) [OF os'(1) k i, of le]
      by (simp add: extract_spec_def denotes_def)
  qed
  then show ?thesis using False w(1) by (simp add: write_expr_bytes_def Let_def)
qed

lemma pow2_widths:
  assumes "valid_width w" "w \<le> 64" "isPowerOfTwo64 (int w)"
  shows "w \<in> {1, 8, 16, 32, 64}"
proof -
  have "fits 64 (int w)" using assms(2) by (simp add: fits_def)
  then obtain i where i: "int w = 2 ^ i" using assms(3) isPowerOfTwo64_iff by blast
  then have w: "w = 2 ^ i" by (metis of_nat_eq_iff of_nat_numeral of_nat_power)
  then have "2 ^ i \<le> (2::nat) ^ 6" using assms(2) by simp
  then have "i \<le> 6" by (rule power_le_imp_le_exp [rotated]) simp
  then have "i \<in> {0, 1, 2, 3, 4, 5, 6}" by auto
  with w show ?thesis using assms(1) by (auto simp: valid_width_def)
qed

lemma write_at_ok:
  assumes "os_inv os" "wf_expr v" "valid_width (getWidth v)" "k + nbytes (getWidth v) \<le> os_size os"
  shows "returns (write_at le k v os) (writes_value le k v os)"
proof (cases "\<exists>c. v = ConstantExpr c \<and> ce_width c \<le> 64 \<and> isPowerOfTwo64 (int (ce_width c))")
  case True
  then obtain c where c: "v = ConstantExpr c" "ce_width c \<le> 64" "isPowerOfTwo64 (int (ce_width c))" by blast
  have w: "ce_width c \<in> {1, 8, 16, 32, 64}" using pow2_widths assms(3) c by simp
  have one: "returns (write8 k (ce_value c) os) (writes_value le k v os)" if "ce_width c \<le> 8"
  proof -
    have "fits 8 (ce_value c)" using assms(2) that fits_mono by (auto simp: c(1) wf_const_def)
    moreover have "nbytes (ce_width c) = 1" using w that by (auto simp: nbytes_def)
    ultimately show ?thesis
      using write8_ok [of os k "ce_value c"] assms that stores_one [of os k v _ le]
      by (auto simp: c(1) elim!: returns_mono)
  qed
  have more: "returns (write_bytes le n k (ce_value c) os) (writes_value le k v os)" if "n = nbytes (ce_width c)" for n
    using that assms by (intro write_bytes_ok) (simp_all add: c(1))
  show ?thesis
    using w c(2,3) one more [of 2] more [of 4] more [of 8]
    by (auto simp: write_at_def c(1) ce_getZExtValue_def write16_def write32_def write64_def nbytes_def)
next
  case False
  then have "write_at le k v os = write_expr_bytes le k v os" by (auto simp: write_at_def split: expr.split)
  then show ?thesis using write_expr_bytes_ok [OF assms] by simp
qed

lemma read_at_ok:
  assumes "os_inv os" "valid_width w" "k + nbytes w \<le> os_size os"
  shows "returns (read_at le k w os A) (reads os w (\<lambda>_. True) (\<lambda>\<rho>. take_bit w (fetch le k (nbytes w) (byte \<rho> os))))"
proof (cases "w = 1")
  case True
  obtain b os' A' where b: "read8 k os A = Some (b, os', A')" "denotes b 8 (\<lambda>\<rho>. byte \<rho> os k)" "os_inv os'" "same_bytes os os'"
    using read8_ok [OF assms(1), of k A] assms(3) True by (auto simp: returns_iff nbytes_def)
  then have "returns (create_ExtractExpr b 0 1) (extract_spec b 0 1)" by (intro create_ExtractExpr_sound) (simp_all add: denotes_def)
  then show ?thesis
    using b by (auto simp: True read_at_def reads_def extract_spec_def denotes_def nbytes_def fetch_1 returns_bind_iff elim!: returns_mono)
next
  case False
  let ?n = "w div 8"
  have w: "w = ?n * 8" "nbytes w = ?n" "0 < ?n" using assms(2) False by (auto simp: valid_width_def nbytes_def)
  have "returns (read_loop (\<lambda>i. read8 ((k + byte_index le ?n i) mod 2 ^ 32)) [0..<?n] os A)
      (\<lambda>(res, os', A'). \<exists>e. res = Some e
         \<and> reads os (8 * ?n) (\<lambda>_. True) (\<lambda>\<rho>. \<Sum>i<?n. push_bit (8 * i) (byte \<rho> os (k + byte_index le ?n i))) (e, os', A'))"
  proof (rule read_loop_ok [OF assms(1) w(3)])
    fix i os' A assume i: "i < ?n" and os': "os_inv os'" "same_bytes os os'"
    have k: "k + ?n \<le> os_size os'" using assms(3) w(2) os' by (simp add: same_bytes_def)
    note o = offset_in [OF os'(1) k i, of le]
    show "returns (read8 ((k + byte_index le ?n i) mod 2 ^ 32) os' A) (reads os' 8 (\<lambda>_. True) (\<lambda>\<rho>. byte \<rho> os (k + byte_index le ?n i)))"
      using read8_ok [OF os'(1) o(2), of A] os'(2) o
      by (auto simp: reads_def same_bytes_def denotes_def elim!: returns_mono)
  qed
  then obtain e os' A' where r: "read_loop (\<lambda>i. read8 ((k + byte_index le ?n i) mod 2 ^ 32)) [0..<?n] os A = Some (Some e, os', A')"
      "reads os w (\<lambda>_. True) (\<lambda>\<rho>. fetch le k ?n (byte \<rho> os)) (e, os', A')"
    using w(1) by (auto simp: returns_iff fetch_def mult.commute)
  then have "take_bit w (fetch le k ?n (byte \<rho> os)) = fetch le k ?n (byte \<rho> os)" for \<rho>
    by (auto simp: reads_def) (metis eval_fits take_bit_fits)
  then show ?thesis using r w(1,2) False by (simp add: read_at_def)
qed

subsection \<open>Offsets that are not constant\<close>

text \<open>
  An access is executed when, for a constant offset, it is in bounds and otherwise no byte of it has a constant offset: the
  assertion of the byte operations on expressions.
\<close>

definition sums_symbolic :: "nat \<Rightarrow> expr \<Rightarrow> bool" where
  "sums_symbolic n off \<longleftrightarrow>
     list_all (\<lambda>i. case create_AddExpr off (ConstantExpr (ce_alloc (int i) 32)) of Some a \<Rightarrow> \<not> is_ConstantExpr a | None \<Rightarrow> False) [0..<n]"

definition accessible :: "nat \<Rightarrow> expr \<Rightarrow> nat \<Rightarrow> bool" where
  "accessible w off sz =
     (case create_ZExtExpr off 32 of
        Some (ConstantExpr c) \<Rightarrow> nat (ce_value c) + nbytes w \<le> sz
      | Some off' \<Rightarrow> w \<noteq> 1 \<longrightarrow> sums_symbolic (nbytes w) off'
      | None \<Rightarrow> False)"

definition in_bounds :: "nat \<Rightarrow> expr \<Rightarrow> nat \<Rightarrow> env \<Rightarrow> bool" where
  "in_bounds w off sz \<rho> \<longleftrightarrow> nat (take_bit 32 (eval \<rho> off)) + nbytes w \<le> sz"

lemma sum_ok:
  assumes "sym_offset off" "sums_symbolic n off" "i < n"
  shows "returns (create_AddExpr off (ConstantExpr (ce_alloc (int i) 32)))
    (\<lambda>a. sym_offset a \<and> (\<forall>\<rho>. eval \<rho> a = take_bit 32 (eval \<rho> off + int i)))"
proof -
  let ?c = "ConstantExpr (ce_alloc (int i) 32)"
  have "returns (create_AddExpr off ?c) (bin_spec Add off ?c)"
    using assms(1) by (intro AddSub_sound) (simp_all add: sym_offset_def)
  then obtain a where a: "create_AddExpr off ?c = Some a" "bin_spec Add off ?c a" by (auto simp: returns_iff)
  then have "\<not> is_ConstantExpr a" using assms(2,3) by (auto simp: sums_symbolic_def list_all_iff split: option.splits)
  moreover have "take_bit 32 (eval \<rho> off + take_bit 32 (int i)) = take_bit 32 (eval \<rho> off + int i)" for \<rho>
    by (simp add: take_bit_eq_mod mod_add_right_eq)
  ultimately show ?thesis using a assms(1) by (simp add: bin_spec_def denotes_def sym_offset_def)
qed

lemma offset_cases:
  assumes "wf_expr off" "accessible w off (os_size os)" "valid_width w"
  obtains (const) c where "create_ZExtExpr off 32 = Some (ConstantExpr c)" "ce_getZExtValue c 32 = Some (ce_value c)"
      "nat (ce_value c) + nbytes w \<le> os_size os" "\<And>\<rho>. take_bit 32 (eval \<rho> off) = ce_value c"
  | (symbolic) off' where "create_ZExtExpr off 32 = Some off'" "sym_offset off'" "w \<noteq> 1 \<Longrightarrow> sums_symbolic (nbytes w) off'"
      "\<And>\<rho>. eval \<rho> off' = take_bit 32 (eval \<rho> off)"
proof -
  obtain o' where o': "create_ZExtExpr off 32 = Some o'" "denotes o' 32 (\<lambda>\<rho>. take_bit 32 (eval \<rho> off))"
    using create_ZExtExpr_sound [OF assms(1), of 32] by (auto simp: returns_iff)
  show thesis
  proof (cases "is_ConstantExpr o'")
    case True
    then obtain c where "o' = ConstantExpr c" by (cases o') auto
    then show thesis using o' assms(2) by (intro const [of c]) (simp_all add: accessible_def denotes_def ce_getZExtValue_def)
  next
    case False
    then have "w \<noteq> 1 \<longrightarrow> sums_symbolic (nbytes w) o'"
      using assms(2) o'(1) by (cases o') (simp_all add: accessible_def)
    then show thesis using o' False by (intro symbolic [of o']) (simp_all add: denotes_def sym_offset_def)
  qed
qed

lemma sum_in_bounds:
  assumes "os_inv os" "nat x + n \<le> os_size os" "i < n" "0 \<le> x"
  shows "nat (take_bit 32 (x + int (byte_index le n i))) = nat x + byte_index le n i"
    "take_bit 32 (x + int (byte_index le n i)) < int (os_size os)"
proof -
  have "x + int (byte_index le n i) < int (os_size os)" using assms byte_index_less [OF assms(3), of le] by linarith
  moreover have "os_size os \<le> 2 ^ 32" using assms(1) by (simp add: os_inv_def os_shape_def)
  ultimately have "take_bit 32 (x + int (byte_index le n i)) = x + int (byte_index le n i)"
    using assms(4) by (intro take_bit_int_eq_self) simp_all
  then show "nat (take_bit 32 (x + int (byte_index le n i))) = nat x + byte_index le n i"
      "take_bit 32 (x + int (byte_index le n i)) < int (os_size os)"
    using assms(4) \<open>x + int (byte_index le n i) < int (os_size os)\<close> by (simp_all add: nat_add_distrib)
qed

text \<open>The contract of a write: the bytes of the object are those of the reference after \<open>put\<close>.\<close>

definition write_spec :: "bool \<Rightarrow> expr \<Rightarrow> expr \<Rightarrow> object_state \<Rightarrow> object_state \<Rightarrow> bool" where
  "write_spec le off v os os' \<longleftrightarrow> os_inv os' \<and> os_size os' = os_size os
     \<and> (\<forall>\<rho>. in_bounds (getWidth v) off (os_size os) \<rho> \<longrightarrow> (\<forall>j < os_size os. byte \<rho> os' j
          = put le (nat (take_bit 32 (eval \<rho> off))) (nbytes (getWidth v)) (eval \<rho> v) (byte \<rho> os) j))"

lemma write_sym_loop:
  assumes "os_inv os" "wf_expr v" "getWidth v = n * 8" "n < 2 ^ 32" "sym_offset off" "sums_symbolic n off"
  shows "returns (fold_abort (\<lambda>i os. do { c \<leftarrow> ce_create (int (byte_index le n i)) 32; a \<leftarrow> create_AddExpr off (ConstantExpr c);
      b \<leftarrow> create_ExtractExpr v (8 * i) 8; write8_sym a b os }) [0..<n] os)
    (stores_all os (\<lambda>\<rho> i. nat (take_bit 32 (eval \<rho> off + int (byte_index le n i)))) (\<lambda>\<rho> i. take_bit 8 (drop_bit (8 * i) (eval \<rho> v))) n)"
proof (rule write_loop_ok [OF assms(1)])
  fix i os' assume i: "i < n" and os': "os_inv os'" "os_size os' = os_size os"
  let ?k = "byte_index le n i"
  show "returns (do { c \<leftarrow> ce_create (int ?k) 32; a \<leftarrow> create_AddExpr off (ConstantExpr c);
      b \<leftarrow> create_ExtractExpr v (8 * i) 8; write8_sym a b os' })
    (stores os' (\<lambda>\<rho> j. j = nat (take_bit 32 (eval \<rho> off + int ?k))) (\<lambda>\<rho>. take_bit 8 (drop_bit (8 * i) (eval \<rho> v))))"
  proof -
    have k: "?k < n" by (rule byte_index_less [OF i])
    then have c: "ce_create (int ?k) 32 = Some (ce_alloc (int ?k) 32)" using assms(4) by (simp add: fits_def)
    obtain a where a: "create_AddExpr off (ConstantExpr (ce_alloc (int ?k) 32)) = Some a" "sym_offset a"
        "\<And>\<rho>. eval \<rho> a = take_bit 32 (eval \<rho> off + int ?k)"
      using sum_ok [OF assms(5,6) k] by (auto simp: returns_iff)
    obtain b where b: "create_ExtractExpr v (8 * i) 8 = Some b" "extract_spec v (8 * i) 8 b"
      using create_ExtractExpr_sound [OF assms(2), of 8 "8 * i"] i assms(3) by (auto simp: returns_iff)
    have "returns (write8_sym a b os') (stores os' (\<lambda>\<rho> j. eval \<rho> a = int j) (\<lambda>\<rho>. eval \<rho> b))"
      using b(2) by (intro write8_sym_ok os' a) (simp_all add: extract_spec_def denotes_def)
    moreover have "(eval \<rho> a = int j) = (j = nat (take_bit 32 (eval \<rho> off + int ?k)))" for \<rho> j
      by (auto simp: a(3))
    ultimately show ?thesis using a(1) b by (simp add: c extract_spec_def denotes_def)
  qed
qed

theorem os_write_ok:
  assumes "os_inv os" "wf_expr off" "wf_expr v" "valid_width (getWidth v)" "accessible (getWidth v) off (os_size os)"
  shows "returns (os_write le off v os) (write_spec le off v os)"
  using assms(2,5,4)
proof (cases rule: offset_cases)
  case (const c)
  from write_at_ok [OF assms(1,3,4) const(3)] obtain os' where os': "write_at le (nat (ce_value c)) v os = Some os'"
    "writes_value le (nat (ce_value c)) v os os'" by (auto simp: returns_iff)
  then have "write_spec le off v os os'"
    using fold_put [where b = "\<lambda>i. take_bit 8 (drop_bit (8 * i) (eval _ v))"]
    by (simp add: write_spec_def writes_value_def stores_all_def const(4))
  then show ?thesis using const(1,2) os'(1) by (simp add: os_write_def)
next
  case (symbolic off')
  have nc: "\<not> is_ConstantExpr off'" using symbolic(2) by (simp add: sym_offset_def)
  have eq_nat: "(eval \<rho> off' = int j) = (j = nat (take_bit 32 (eval \<rho> off)))" for \<rho> j by (auto simp: symbolic(4))
  show ?thesis
  proof (cases "getWidth v = 1")
    case True
    obtain b where b: "create_ZExtExpr v 8 = Some b" "denotes b 8 (\<lambda>\<rho>. eval \<rho> v)"
      using create_ZExtExpr_sound [OF assms(3), of 8] True assms(3) by (auto simp: returns_iff)
    obtain os' where os': "write8_sym off' b os = Some os'" "stores os (\<lambda>\<rho> j. eval \<rho> off' = int j) (\<lambda>\<rho>. eval \<rho> b) os'"
      using write8_sym_ok [OF assms(1) symbolic(2), of b] b(2) by (auto simp: returns_iff denotes_def)
    have "write_spec le off v os os'"
      using os'(2) b(2) True assms(3) eq_nat by (simp add: write_spec_def stores_def put_1 denotes_def nbytes_def)
    then show ?thesis using symbolic(1) nc True b(1) os'(1) by (cases off') (simp_all add: os_write_def)
  next
    case False
    let ?n = "getWidth v div 8"
    have w: "getWidth v = ?n * 8" "nbytes (getWidth v) = ?n" "?n < 2 ^ 32" using assms(4) False by (auto simp: valid_width_def nbytes_def)
    from write_sym_loop [OF assms(1,3) w(1,3) symbolic(2), of le] symbolic(3) [OF False] w(2)
    obtain os' where os': "fold_abort (\<lambda>i os. do { c \<leftarrow> ce_create (int (byte_index le ?n i)) 32; a \<leftarrow> create_AddExpr off' (ConstantExpr c);
        b \<leftarrow> create_ExtractExpr v (8 * i) 8; write8_sym a b os }) [0..<?n] os = Some os'"
      "stores_all os (\<lambda>\<rho> i. nat (take_bit 32 (eval \<rho> off' + int (byte_index le ?n i)))) (\<lambda>\<rho> i. take_bit 8 (drop_bit (8 * i) (eval \<rho> v))) ?n os'"
      by (auto simp: returns_iff)
    have "fold (\<lambda>i m. m(nat (take_bit 32 (eval \<rho> off' + int (byte_index le ?n i))) := take_bit 8 (drop_bit (8 * i) (eval \<rho> v)))) [0..<?n] m
        = put le (nat (eval \<rho> off')) ?n (eval \<rho> v) m" if "in_bounds (getWidth v) off (os_size os) \<rho>" for \<rho> m
      unfolding fold_put [OF refl, symmetric]
      by (rule fold_cong) (use that sum_in_bounds(1) [OF assms(1), of "eval \<rho> off'" ?n] w(2) in \<open>auto simp: in_bounds_def symbolic(4)\<close>)
    then have "write_spec le off v os os'"
      using os'(2) by (simp add: write_spec_def stores_all_def w(2) symbolic(4))
    then show ?thesis using symbolic(1) nc False w(1) os'(1) by (cases off') (simp_all add: os_write_def Let_def)
  qed
qed

definition read_spec :: "bool \<Rightarrow> expr \<Rightarrow> nat \<Rightarrow> object_state \<Rightarrow> expr \<times> object_state \<times> array_cache \<Rightarrow> bool" where
  "read_spec le off w os = reads os w (in_bounds w off (os_size os))
     (\<lambda>\<rho>. take_bit w (fetch le (nat (take_bit 32 (eval \<rho> off))) (nbytes w) (byte \<rho> os)))"

lemma read_sym_loop:
  assumes "os_inv os" "0 < n" "n < 2 ^ 32" "sym_offset off" "sums_symbolic n off"
  shows "returns (read_loop (\<lambda>i os A. do { c \<leftarrow> ce_create (int (byte_index le n i)) 32; a \<leftarrow> create_AddExpr off (ConstantExpr c);
      read8_sym a os A }) [0..<n] os A)
    (\<lambda>(res, os', A'). \<exists>e. res = Some e \<and> reads os (8 * n) (\<lambda>\<rho>. nat (eval \<rho> off) + n \<le> os_size os)
       (\<lambda>\<rho>. \<Sum>i<n. push_bit (8 * i) (byte \<rho> os (nat (eval \<rho> off) + byte_index le n i))) (e, os', A'))"
proof (rule read_loop_ok [OF assms(1,2)])
  fix i os' A assume i: "i < n" and os': "os_inv os'" "same_bytes os os'"
  let ?k = "byte_index le n i"
  have k: "?k < n" by (rule byte_index_less [OF i])
  then have c: "ce_create (int ?k) 32 = Some (ce_alloc (int ?k) 32)" using assms(3) by (simp add: fits_def)
  obtain a where a: "create_AddExpr off (ConstantExpr (ce_alloc (int ?k) 32)) = Some a" "sym_offset a"
      "\<And>\<rho>. eval \<rho> a = take_bit 32 (eval \<rho> off + int ?k)"
    using sum_ok [OF assms(4,5) k] by (auto simp: returns_iff)
  have v: "eval \<rho> a < int (os_size os)" "nat (eval \<rho> a) = nat (eval \<rho> off) + ?k" "nat (eval \<rho> off) + ?k < os_size os"
    if "nat (eval \<rho> off) + n \<le> os_size os" for \<rho>
    using sum_in_bounds [OF assms(1) that i, of le] assms(4) eval_nonneg [of off \<rho>] k that by (simp_all add: a(3) sym_offset_def)
  show "returns (do { c \<leftarrow> ce_create (int ?k) 32; a \<leftarrow> create_AddExpr off (ConstantExpr c); read8_sym a os' A })
      (reads os' 8 (\<lambda>\<rho>. nat (eval \<rho> off) + n \<le> os_size os) (\<lambda>\<rho>. byte \<rho> os (nat (eval \<rho> off) + ?k)))"
    using read8_sym_ok [OF os'(1) a(2), of A] v os'(2)
    by (auto simp: c a(1) reads_def same_bytes_def elim!: returns_mono)
qed

theorem os_read_ok:
  assumes "os_inv os" "wf_expr off" "valid_width w" "accessible w off (os_size os)"
  shows "returns (os_read le off w os A) (read_spec le off w os)"
  using assms(2,4,3)
proof (cases rule: offset_cases)
  case (const c)
  then show ?thesis using read_at_ok [OF assms(1,3) const(3), of le A]
    by (auto simp: os_read_def read_spec_def reads_def elim!: returns_mono)
next
  case (symbolic off')
  have nc: "\<not> is_ConstantExpr off'" using symbolic(2) by (simp add: sym_offset_def)
  show ?thesis
  proof (cases "w = 1")
    case True
    obtain b os' A' where b: "read8_sym off' os A = Some (b, os', A')" "wf_expr b" "getWidth b = 8"
        "\<And>\<rho>. eval \<rho> off' < int (os_size os) \<Longrightarrow> eval \<rho> b = byte \<rho> os (nat (eval \<rho> off'))" "os_inv os'" "same_bytes os os'"
      using read8_sym_ok [OF assms(1) symbolic(2), of A] by (auto simp: returns_iff)
    have "returns (create_ExtractExpr b 0 1) (extract_spec b 0 1)" using b by (intro create_ExtractExpr_sound) simp_all
    then have "returns (create_ExtractExpr b 0 1) (\<lambda>e. read_spec le off w os (e, os', A'))"
      by (rule returns_mono)
        (use b in \<open>auto simp: True read_spec_def reads_def extract_spec_def denotes_def nbytes_def fetch_1 in_bounds_def symbolic(4)\<close>)
    then show ?thesis using symbolic(1) nc True b(1) by (cases off') (simp_all add: os_read_def returns_bind_iff)
  next
    case False
    let ?n = "w div 8"
    have w: "w = ?n * 8" "nbytes w = ?n" "0 < ?n" "?n < 2 ^ 32" using assms(3) False by (auto simp: valid_width_def nbytes_def)
    from read_sym_loop [OF assms(1) w(3,4) symbolic(2), of le A] symbolic(3) [OF False] w(2)
    obtain e os' A' where r: "read_loop (\<lambda>i os A. do { c \<leftarrow> ce_create (int (byte_index le ?n i)) 32; a \<leftarrow> create_AddExpr off' (ConstantExpr c);
        read8_sym a os A }) [0..<?n] os A = Some (Some e, os', A')"
      "reads os (8 * ?n) (\<lambda>\<rho>. nat (eval \<rho> off') + ?n \<le> os_size os) (\<lambda>\<rho>. fetch le (nat (eval \<rho> off')) ?n (byte \<rho> os)) (e, os', A')"
      by (auto simp: returns_iff fetch_def)
    have "take_bit w (fetch le (nat (eval \<rho> off')) ?n (byte \<rho> os)) = fetch le (nat (eval \<rho> off')) ?n (byte \<rho> os)"
      if "nat (eval \<rho> off') + ?n \<le> os_size os" for \<rho>
      using r(2) that w(1) by (auto simp: reads_def mult.commute) (metis eval_fits take_bit_fits)
    then have "read_spec le off w os (e, os', A')"
      using r(2) w(1) by (simp add: read_spec_def reads_def in_bounds_def w(2) symbolic(4) mult.commute)
    then show ?thesis using symbolic(1) nc False w(1) r(1) by (cases off') (simp_all add: os_read_def)
  qed
qed

subsection \<open>Sequences of accesses\<close>

datatype access = Read_access expr nat | Write_access expr expr

fun access_width :: "access \<Rightarrow> nat" where
  "access_width (Read_access off w) = w"
| "access_width (Write_access off v) = getWidth v"

fun access_offset :: "access \<Rightarrow> expr" where
  "access_offset (Read_access off w) = off"
| "access_offset (Write_access off v) = off"

fun access_ok :: "nat \<Rightarrow> access \<Rightarrow> bool" where
  "access_ok sz op \<longleftrightarrow> wf_expr (access_offset op) \<and> valid_width (access_width op) \<and> accessible (access_width op) (access_offset op) sz
     \<and> (case op of Write_access _ v \<Rightarrow> wf_expr v | _ \<Rightarrow> True)"

fun access_in_bounds :: "nat \<Rightarrow> env \<Rightarrow> access \<Rightarrow> bool" where
  "access_in_bounds sz \<rho> op = in_bounds (access_width op) (access_offset op) sz \<rho>"

declare access_ok.simps [simp del] access_in_bounds.simps [simp del]

fun object_run :: "bool \<Rightarrow> access list \<Rightarrow> object_state \<Rightarrow> array_cache \<Rightarrow> (expr list \<times> object_state \<times> array_cache) option" where
  "object_run le [] os A = Some ([], os, A)"
| "object_run le (Read_access off w # ops) os A =
     do { (e, os, A) \<leftarrow> os_read le off w os A; (es, os, A) \<leftarrow> object_run le ops os A; Some (e # es, os, A) }"
| "object_run le (Write_access off v # ops) os A = do { os \<leftarrow> os_write le off v os; object_run le ops os A }"

fun bytes_run :: "bool \<Rightarrow> env \<Rightarrow> access list \<Rightarrow> (nat \<Rightarrow> int) \<Rightarrow> int list \<times> (nat \<Rightarrow> int)" where
  "bytes_run le \<rho> [] m = ([], m)"
| "bytes_run le \<rho> (Read_access off w # ops) m =
     (let (xs, m') = bytes_run le \<rho> ops m in (take_bit w (fetch le (nat (take_bit 32 (eval \<rho> off))) (nbytes w) m) # xs, m'))"
| "bytes_run le \<rho> (Write_access off v # ops) m =
     bytes_run le \<rho> ops (put le (nat (take_bit 32 (eval \<rho> off))) (nbytes (getWidth v)) (eval \<rho> v) m)"

definition run_spec :: "bool \<Rightarrow> access list \<Rightarrow> object_state \<Rightarrow> expr list \<times> object_state \<times> array_cache \<Rightarrow> bool" where
  "run_spec le ops os = (\<lambda>(es, os', A'). os_inv os' \<and> os_size os' = os_size os
     \<and> (\<forall>\<rho> m. list_all (access_in_bounds (os_size os) \<rho>) ops \<longrightarrow> (\<forall>j < os_size os. byte \<rho> os j = m j) \<longrightarrow>
          map (eval \<rho>) es = fst (bytes_run le \<rho> ops m) \<and> (\<forall>j < os_size os. byte \<rho> os' j = snd (bytes_run le \<rho> ops m) j)))"

lemma object_run_ok:
  assumes "os_inv os" "list_all (access_ok (os_size os)) ops"
  shows "returns (object_run le ops os A) (run_spec le ops os)"
  using assms
proof (induction ops arbitrary: os A)
  case Nil
  then show ?case by (simp add: run_spec_def)
next
  case (Cons op ops)
  note inv = Cons.prems(1)
  have ok: "access_ok (os_size os) op" "list_all (access_ok (os_size os)) ops" using Cons.prems(2) by simp_all
  show ?case
  proof (cases op)
    case (Read_access off w)
    obtain e os1 A1 where r: "os_read le off w os A = Some (e, os1, A1)" "read_spec le off w os (e, os1, A1)"
      using os_read_ok [OF inv, of off w le A] ok(1) by (auto simp: Read_access access_ok.simps returns_iff)
    then have os1: "os_inv os1" "os_size os1 = os_size os" "\<And>\<rho> j. j < os_size os \<Longrightarrow> byte \<rho> os1 j = byte \<rho> os j"
      by (auto simp: read_spec_def reads_def same_bytes_def)
    have e: "eval \<rho> e = take_bit w (fetch le (nat (take_bit 32 (eval \<rho> off))) (nbytes w) m)"
      if "access_in_bounds (os_size os) \<rho> op" "\<forall>j < os_size os. byte \<rho> os j = m j" for \<rho> m
      using r(2) that fetch_cong [of _ _ "byte \<rho> os" m le]
      by (simp add: read_spec_def reads_def Read_access access_in_bounds.simps in_bounds_def)
    have "returns (object_run le ops os1 A1) (run_spec le ops os1)" using Cons.IH [OF os1(1)] ok(2) os1(2) by simp
    then have "returns (object_run le ops os1 A1) (\<lambda>(es, os', A'). run_spec le (op # ops) os (e # es, os', A'))"
      by (rule returns_mono) (auto simp: run_spec_def os1 e Read_access split_beta)
    then show ?thesis using r(1) by (auto simp: Read_access returns_bind_iff elim!: returns_mono)
  next
    case (Write_access off v)
    obtain os1 where r: "os_write le off v os = Some os1" "write_spec le off v os os1"
      using os_write_ok [OF inv, of off v le] ok(1) by (auto simp: Write_access access_ok.simps returns_iff)
    then have os1: "os_inv os1" "os_size os1 = os_size os" by (auto simp: write_spec_def)
    have m: "byte \<rho> os1 j = put le (nat (take_bit 32 (eval \<rho> off))) (nbytes (getWidth v)) (eval \<rho> v) m j"
      if "access_in_bounds (os_size os) \<rho> op" "\<forall>j < os_size os. byte \<rho> os j = m j" "j < os_size os" for \<rho> m j
      using r(2) that by (simp add: write_spec_def put_def Write_access access_in_bounds.simps)
    have "returns (object_run le ops os1 A) (run_spec le ops os1)" using Cons.IH [OF os1(1)] ok(2) os1(2) by simp
    then have "returns (object_run le ops os1 A) (run_spec le (op # ops) os)"
      by (rule returns_mono) (auto simp: run_spec_def os1 Write_access dest: m [unfolded Write_access])
    then show ?thesis using r(1) by (simp add: Write_access)
  qed
qed

subsection \<open>Properties\<close>

text \<open>
  \<^bold>\<open>C29.\<close> A memory object implements an array of bytes. Any sequence of reads and writes of whole bytes or booleans, at constant or symbolic
  offsets, runs to the end without failing an assertion and keeps the object's invariant; and under every assignment for which all the
  accesses are in bounds, the expressions read have the values that the same sequence reads from a plain array of bytes with the
  initial contents, and the final contents are those of that array.
\<close>

theorem object_refines_bytes:
  assumes "os_inv os" "list_all (access_ok (os_size os)) ops"
  shows "\<exists>es os' A'. object_run le ops os A = Some (es, os', A') \<and> os_inv os' \<and> os_size os' = os_size os
    \<and> (\<forall>\<rho>. list_all (access_in_bounds (os_size os) \<rho>) ops \<longrightarrow>
          map (eval \<rho>) es = fst (bytes_run le \<rho> ops (byte \<rho> os))
          \<and> (\<forall>j < os_size os. byte \<rho> os' j = snd (bytes_run le \<rho> ops (byte \<rho> os)) j))"
  using object_run_ok [OF assms, of le A] by (auto simp: returns_iff run_spec_def)

definition zero_object :: object_state where
  "zero_object = initializeToZero (new_object_state 4 None)"

definition index_array :: array where
  "index_array = \<lparr>arr_addr = 7, arr_name = ''idx'', arr_size = 1, arr_domain = 32, arr_range = 8, constantValues = []\<rparr>"

definition index_offset :: expr where
  "index_offset = ZExtExpr (ReadExpr False index_array NullNode (ConstantExpr (CE 32 0))) 32"

definition empty_cache :: array_cache where
  "empty_cache = \<lparr>cachedSymbolicArrays = [], concreteArrays = [], next_address = 100, const_arr_id = 0, tmp_arr_id = 0\<rparr>"

lemma zero_object_inv: "os_inv zero_object" "os_size zero_object = 4"
proof -
  have "os_shape (initializeToZero (new_object_state 4 None))" "upd_shape (initializeToZero (new_object_state 4 None))"
    by (auto simp: initializeToZero_def makeConcrete_def new_object_state_def os_shape_def upd_shape_def knownSymbolic_def)
  moreover have "makeConcrete (initializeToZero (new_object_state 4 None)) = zero_object"
    by (simp add: zero_object_def initializeToZero_def makeConcrete_def)
  ultimately show "os_inv zero_object" using makeConcrete_ok(1) by metis
  show "os_size zero_object = 4" by (simp add: zero_object_def initializeToZero_def makeConcrete_def new_object_state_def)
qed

lemma index_offset_ok:
  "wf_expr index_offset" "create_ZExtExpr index_offset 32 = Some index_offset" "sums_symbolic 2 index_offset"
  by (simp_all add: index_offset_def index_array_def wf_array_def isSymbolicArray_def wf_const_def create_ZExtExpr_def) code_simp

lemma index_accessible: "accessible 16 index_offset 4"
  using index_offset_ok(2,3) by (simp add: accessible_def index_offset_def nbytes_def)

definition demo_accesses :: "access list" where
  "demo_accesses = [Write_access (ConstantExpr (CE 64 1)) (ConstantExpr (CE 16 0x1234)), Read_access index_offset 16]"

lemma demo_accesses_ok: "list_all (access_ok 4) demo_accesses"
proof -
  have "accessible 16 (ConstantExpr (CE 64 1)) 4" by code_simp
  then show ?thesis using index_accessible index_offset_ok(1) by (simp add: demo_accesses_def access_ok.simps valid_width_def wf_const_def fits_def)
qed

theorem object_refines_bytes_witness:
  "os_inv zero_object \<and> list_all (access_ok (os_size zero_object)) demo_accesses
    \<and> (\<exists>es os' A'. object_run True demo_accesses zero_object empty_cache = Some (es, os', A') \<and> os_inv os')"
  using object_refines_bytes [of zero_object demo_accesses True empty_cache] zero_object_inv demo_accesses_ok by auto

text \<open>
  \<^bold>\<open>C30.\<close> What is written is read back: after a write of a value at an offset, constant or symbolic, a read of the same width at the same offset
  returns an expression of that width whose value is the value written, under every assignment for which the access is in bounds.
\<close>

theorem write_read_roundtrip:
  assumes "os_inv os" "wf_expr off" "wf_expr v" "valid_width (getWidth v)" "accessible (getWidth v) off (os_size os)"
  shows "\<exists>os' e os'' A'. os_write le off v os = Some os' \<and> os_read le off (getWidth v) os' A = Some (e, os'', A')
    \<and> getWidth e = getWidth v \<and> (\<forall>\<rho>. in_bounds (getWidth v) off (os_size os) \<rho> \<longrightarrow> eval \<rho> e = eval \<rho> v)"
proof -
  obtain os' where w: "os_write le off v os = Some os'" "write_spec le off v os os'"
    using os_write_ok [OF assms, of le] by (auto simp: returns_iff)
  then have os': "os_inv os'" "os_size os' = os_size os" by (simp_all add: write_spec_def)
  obtain e os'' A' where r: "os_read le off (getWidth v) os' A = Some (e, os'', A')" "read_spec le off (getWidth v) os' (e, os'', A')"
    using os_read_ok [OF os'(1) assms(2,4), of le A] assms(5) os'(2) by (auto simp: returns_iff)
  have "eval \<rho> e = eval \<rho> v" if "in_bounds (getWidth v) off (os_size os) \<rho>" for \<rho>
  proof -
    let ?k = "nat (take_bit 32 (eval \<rho> off))" and ?n = "nbytes (getWidth v)"
    have "fetch le ?k ?n (byte \<rho> os') = fetch le ?k ?n (put le ?k ?n (eval \<rho> v) (byte \<rho> os))"
      using w(2) that by (intro fetch_cong) (simp add: write_spec_def in_bounds_def)
    then have "eval \<rho> e = take_bit (getWidth v) (take_bit (8 * ?n) (eval \<rho> v))"
      using r(2) that os'(2) by (simp add: read_spec_def reads_def fetch_put)
    moreover have "getWidth v \<le> 8 * ?n" using assms(4) by (auto simp: valid_width_def nbytes_def)
    ultimately show ?thesis using assms(3) by simp
  qed
  then show ?thesis using w(1) r by (auto simp: read_spec_def reads_def)
qed

theorem write_read_roundtrip_witness:
  "\<exists>os' e os'' A'. os_write False index_offset (ConstantExpr (CE 16 0x1234)) zero_object = Some os'
    \<and> os_read False index_offset 16 os' empty_cache = Some (e, os'', A') \<and> getWidth e = 16"
  using write_read_roundtrip [of zero_object index_offset "ConstantExpr (CE 16 0x1234)" False empty_cache] zero_object_inv
    index_offset_ok(1) index_accessible
  by (simp add: valid_width_def wf_const_def fits_def) blast

text \<open>
  \<^bold>\<open>C31.\<close> The cache invariants that a comment in \<^verbatim>\<open>Memory.cpp\<close> states hold in every object made symbolic, after any sequence of accesses: a byte
  known as an expression is not concrete, and a byte that is not flushed is concrete or known. And a flushed byte has the same value in
  the list of updates as in the cache, which is what makes reads through the list of updates right.
\<close>

theorem cache_laws:
  assumes "0 < mo_size mo" "mo_size mo \<le> 2 ^ 32" "wf_array a" "arr_domain a = 32" "arr_range a = 8"
    "list_all (access_ok (mo_size mo)) ops"
  shows "\<exists>os es os' A'. ObjectState_symbolic mo a = Some os \<and> object_run le ops os A = Some (es, os', A')
    \<and> (\<forall>i < mo_size mo. (isByteKnownSymbolic os' i \<longrightarrow> \<not> isByteConcrete os' i)
         \<and> (\<not> isByteFlushed os' i \<longrightarrow> isByteConcrete os' i \<or> isByteKnownSymbolic os' i)
         \<and> (isByteFlushed os' i \<longrightarrow> (\<forall>\<rho>. upd_value \<rho> os' i = byte \<rho> os' i)))"
proof -
  obtain os where os: "ObjectState_symbolic mo a = Some os" "os_inv os" "os_size os = mo_size mo"
    using ObjectState_symbolic_ok [OF assms(1-5)] by (auto simp: returns_iff)
  moreover from object_run_ok [OF os(2), of ops le A] assms(6) os(3)
  obtain es os' A' where "object_run le ops os A = Some (es, os', A')" "os_inv os'" "os_size os' = mo_size mo"
    by (auto simp: returns_iff run_spec_def)
  ultimately show ?thesis by (auto simp: os_inv_def cache_inv_def)
qed

definition four_bytes :: memory_object where
  "four_bytes = \<lparr>mo_address = 4096, mo_size = 4\<rparr>"

lemma index_array_wf: "wf_array index_array" "arr_domain index_array = 32" "arr_range index_array = 8"
  by (simp_all add: index_array_def wf_array_def isSymbolicArray_def)

theorem cache_laws_witness:
  "\<exists>os es os' A'. ObjectState_symbolic four_bytes index_array = Some os \<and> object_run True demo_accesses os empty_cache = Some (es, os', A')"
  using cache_laws [of four_bytes index_array demo_accesses True empty_cache] index_array_wf demo_accesses_ok
  by (auto simp: four_bytes_def)

lemma bounds_no_wrap:
  assumes "fits w p" "0 \<le> base" "base + len \<le> 2 ^ w" "0 < n" "0 \<le> len"
  shows "take_bit w (p - base) + n \<le> len \<longleftrightarrow> base \<le> p \<and> p + n \<le> base + (len::int)"
proof (cases "base \<le> p")
  case True
  then have "take_bit w (p - base) = p - base" using assms by (intro take_bit_int_eq_self) (auto simp: fits_def)
  with True show ?thesis by auto
next
  case False
  have "take_bit w (p - base + 2 ^ w) = p - base + 2 ^ w"
    using False assms by (intro take_bit_int_eq_self) (auto simp: fits_def)
  moreover have "take_bit w (p - base + 2 ^ w) = take_bit w (p - base)" by (simp add: take_bit_eq_mod)
  ultimately show ?thesis using False assms by (auto simp: fits_def)
qed

text \<open>
  \<^bold>\<open>C32.\<close> The bounds check of a pointer is exact. For an object that lies inside the address space, the condition built for an access of
  \<open>bytes\<close> bytes through a pointer is a one-bit expression that is true under an assignment if and only if all the bytes accessed
  are bytes of the object: although it is one unsigned comparison of a difference that may wrap around.
\<close>

theorem bounds_check_exact:
  assumes "wf_expr p" "getWidth p = pw" "pw \<le> 64" "0 \<le> mo_address mo" "mo_address mo + int (mo_size mo) \<le> 2 ^ pw"
    "mo_address mo < 2 ^ pw" "int (mo_size mo) < 2 ^ pw" "0 < bytes"
  shows "\<exists>e. getBoundsCheckPointer_bytes pw mo p bytes = Some e \<and> wf_expr e \<and> getWidth e = 1
    \<and> (\<forall>\<rho>. eval \<rho> e = of_bool (mo_address mo \<le> eval \<rho> p \<and> eval \<rho> p + int bytes \<le> mo_address mo + int (mo_size mo)))"
proof -
  let ?base = "ConstantExpr (ce_alloc (mo_address mo) pw)"
  have pw: "0 < pw" using wf_expr_width_pos [OF assms(1)] assms(2) by simp
  have f: "fits pw (mo_address mo)" using assms by (simp add: fits_def)
  obtain off where off: "create_SubExpr p ?base = Some off" "bin_spec Sub p ?base off"
    using AddSub_sound(6) [OF assms(1), of ?base] pw assms(2) by (auto simp: returns_iff)
  then have d: "denotes off pw (\<lambda>\<rho>. take_bit pw (eval \<rho> p - mo_address mo))"
    using f assms(2) by (simp add: bin_spec_def)
  have b: "take_bit pw (eval \<rho> p - mo_address mo) + int bytes \<le> int (mo_size mo)
      \<longleftrightarrow> mo_address mo \<le> eval \<rho> p \<and> eval \<rho> p + int bytes \<le> mo_address mo + int (mo_size mo)" for \<rho>
    using assms eval_fits [OF assms(1), of \<rho>] by (intro bounds_no_wrap) simp_all
  have g: "getBoundsCheckPointer_bytes pw mo p bytes = getBoundsCheckOffset_bytes pw mo off bytes"
    using off(1) pw f by (simp add: getBoundsCheckPointer_bytes_def getOffsetExpr_def getBaseExpr_def)
  show ?thesis
  proof (cases "bytes \<le> mo_size mo")
    case True
    let ?lim = "ConstantExpr (ce_alloc (int (mo_size mo - bytes + 1)) pw)"
    have "mo_size mo - bytes + 1 \<le> mo_size mo" using True assms(8) by simp
    then have "int (mo_size mo - bytes + 1) < 2 ^ pw" using assms(7) by linarith
    then have lim: "take_bit pw (int (mo_size mo - bytes + 1)) = int (mo_size mo) - int bytes + 1"
      using True by (subst take_bit_int_eq_self) simp_all
    obtain e where e: "create_UltExpr off ?lim = Some e" "safe_spec Ult off ?lim e"
      using create_cmp_sound(1) [of off ?lim] d pw by (auto simp: returns_iff denotes_def)
    then have "eval \<rho> e = of_bool (take_bit pw (eval \<rho> p - mo_address mo) + int bytes \<le> int (mo_size mo))" for \<rho>
      using d lim by (auto simp: safe_spec_def denotes_def div_kind_def)
    then show ?thesis using e True b by (auto simp: g getBoundsCheckOffset_bytes_def safe_spec_def)
  next
    case False
    then have "\<not> take_bit pw (eval \<rho> p - mo_address mo) + int bytes \<le> int (mo_size mo)" for \<rho>
      using take_bit_nonnegative [of pw "eval \<rho> p - mo_address mo"] by linarith
    then show ?thesis using False by (auto simp: g getBoundsCheckOffset_bytes_def b [symmetric])
  qed
qed

theorem bounds_check_exact_witness:
  "\<exists>e. getBoundsCheckPointer_bytes 32 four_bytes index_offset 2 = Some e \<and> getWidth e = 1"
  using bounds_check_exact [of index_offset 32 four_bytes 2] index_offset_ok(1)
  by (auto simp: four_bytes_def index_offset_def)

text \<open>
  \<^bold>\<open>C33.\<close> \<^verbatim>\<open>flushToConcreteStore\<close> is meant to put a value for every symbolic byte into the concrete store before an external call, but it
  only looks at the bytes known as expressions. An object made symbolic has none: whatever the solver answers, nothing is
  flushed, and the external function sees zeros instead of values of the array.
\<close>

theorem symbolic_object_not_flushed:
  assumes "0 < mo_size mo" "mo_size mo \<le> 2 ^ 32" "wf_array a" "arr_domain a = 32" "arr_range a = 8"
  shows "\<exists>os. ObjectState_symbolic mo a = Some os \<and> flushToConcreteStore getValue os A = Some (os, A)
    \<and> concreteStore os = replicate (mo_size mo) 0
    \<and> (\<forall>\<rho>. \<forall>i < mo_size mo. \<not> isByteConcrete os i \<and> byte \<rho> os i = initial_read \<rho> a (int i))"
proof -
  obtain os where os: "ObjectState_symbolic mo a = Some os" "knownSymbolics os = None" "concreteStore os = replicate (mo_size mo) 0"
      "\<forall>\<rho>. \<forall>i < mo_size mo. \<not> isByteConcrete os i \<and> byte \<rho> os i = initial_read \<rho> a (int i)"
    using ObjectState_symbolic_ok [OF assms] by (auto simp: returns_iff)
  have "fold_abort (\<lambda>i (os, A). if isByteKnownSymbolic os i
       then do { (e, os, A) \<leftarrow> read8 i os A;
                 Some (case getValue e of
                         Some x \<Rightarrow> (os\<lparr>concreteStore := (concreteStore os)[i := take_bit 8 x]\<rparr>, A)
                       | None \<Rightarrow> (os, A)) }
       else Some (os, A)) is (os, A) = Some (os, A)" for "is"
    using os(2) by (induction "is") (simp_all add: isByteKnownSymbolic_def knownSymbolic_def)
  then show ?thesis using os by (auto simp: flushToConcreteStore_def)
qed

theorem symbolic_object_not_flushed_witness:
  "\<exists>os. ObjectState_symbolic four_bytes index_array = Some os
    \<and> flushToConcreteStore (\<lambda>_. Some 255) os empty_cache = Some (os, empty_cache) \<and> concreteStore os = replicate 4 0"
  using symbolic_object_not_flushed [of four_bytes index_array "\<lambda>_. Some 255" empty_cache] index_array_wf
  by (auto simp: four_bytes_def)

end
