(* ===== verification/Solver.thy ===== *)
theory Solver
  imports CacheState Bits ExprOrder
begin

text \<open>
  The solver interface: queries (\<^verbatim>\<open>include/klee/Solver.h\<close>), \<^verbatim>\<open>lib/Solver/Solver.cpp\<close> and \<^verbatim>\<open>SolverImpl.cpp\<close>, and the solvers that
  wrap another solver: \<^verbatim>\<open>CachingSolver.cpp\<close>, \<^verbatim>\<open>IncompleteSolver.cpp\<close>, \<^verbatim>\<open>ValidatingSolver.cpp\<close>, with \<^verbatim>\<open>DummySolver.cpp\<close>.

  The virtual functions of \<^verbatim>\<open>SolverImpl\<close> are a record of functions on the state of the solver. Their result has two layers: the outer
  \<^term>\<open>None\<close> is a failed assertion, the inner \<^term>\<open>None\<close> is the return value false, a solver failure. Statistics, time-outs and
  logs are not state.
\<close>

subsection \<open>Queries\<close>

record query =
  q_constraints :: "expr list"
  q_expr :: expr

definition withExpr :: "query \<Rightarrow> expr \<Rightarrow> query" where
  "withExpr q e = q\<lparr>q_expr := e\<rparr>"

definition withFalse :: "query \<Rightarrow> query" where
  "withFalse q = withExpr q (ConstantExpr (ce_alloc 0 1))"

definition negateExpr :: "query \<Rightarrow> query option" where
  "negateExpr q = do { e \<leftarrow> createIsZero (q_expr q); Some (withExpr q e) }"

subsection \<open>Implementations\<close>

type_synonym ('s, 'a) answer = "('a option \<times> 's) option"

record 's solver_impl =
  computeTruth :: "query \<Rightarrow> 's \<Rightarrow> ('s, bool) answer"
  computeValidity :: "query \<Rightarrow> 's \<Rightarrow> ('s, validity) answer"
  computeValue :: "query \<Rightarrow> 's \<Rightarrow> ('s, expr) answer"
  computeInitialValues :: "query \<Rightarrow> array list \<Rightarrow> 's \<Rightarrow> ('s, int list list \<times> bool) answer"

definition SolverImpl_computeValidity :: "(query \<Rightarrow> 's \<Rightarrow> ('s, bool) answer) \<Rightarrow> query \<Rightarrow> 's \<Rightarrow> ('s, validity) answer" where
  "SolverImpl_computeValidity truth q s =
     do { (r, s) \<leftarrow> truth q s;
          case r of
            None \<Rightarrow> Some (None, s)
          | Some True \<Rightarrow> Some (Some VTrue, s)
          | Some False \<Rightarrow>
              do { nq \<leftarrow> negateExpr q;
                   (r, s) \<leftarrow> truth nq s;
                   Some (map_option (\<lambda>isFalse. if isFalse then VFalse else VUnknown) r, s) } }"

definition DummySolverImpl :: "'s solver_impl" where
  "DummySolverImpl = \<lparr>computeTruth = (\<lambda>q s. Some (None, s)), computeValidity = (\<lambda>q s. Some (None, s)),
     computeValue = (\<lambda>q s. Some (None, s)), computeInitialValues = (\<lambda>q objects s. Some (None, s))\<rparr>"

subsection \<open>The class \<^verbatim>\<open>Solver\<close>\<close>

definition evaluate :: "'s solver_impl \<Rightarrow> query \<Rightarrow> 's \<Rightarrow> ('s, validity) answer" where
  "evaluate S q s =
     do { assert_that (getWidth (q_expr q) = 1);
          case q_expr q of
            ConstantExpr c \<Rightarrow> Some (Some (if ce_isTrue c then VTrue else VFalse), s)
          | _ \<Rightarrow> computeValidity S q s }"

definition mustBeTrue :: "'s solver_impl \<Rightarrow> query \<Rightarrow> 's \<Rightarrow> ('s, bool) answer" where
  "mustBeTrue S q s =
     do { assert_that (getWidth (q_expr q) = 1);
          case q_expr q of
            ConstantExpr c \<Rightarrow> Some (Some (ce_isTrue c), s)
          | _ \<Rightarrow> computeTruth S q s }"

definition mustBeFalse :: "'s solver_impl \<Rightarrow> query \<Rightarrow> 's \<Rightarrow> ('s, bool) answer" where
  "mustBeFalse S q s = do { nq \<leftarrow> negateExpr q; mustBeTrue S nq s }"

definition mayBeTrue :: "'s solver_impl \<Rightarrow> query \<Rightarrow> 's \<Rightarrow> ('s, bool) answer" where
  "mayBeTrue S q s = do { (r, s) \<leftarrow> mustBeFalse S q s; Some (map_option Not r, s) }"

definition mayBeFalse :: "'s solver_impl \<Rightarrow> query \<Rightarrow> 's \<Rightarrow> ('s, bool) answer" where
  "mayBeFalse S q s = do { (r, s) \<leftarrow> mustBeTrue S q s; Some (map_option Not r, s) }"

definition getValue :: "'s solver_impl \<Rightarrow> query \<Rightarrow> 's \<Rightarrow> ('s, const_expr) answer" where
  "getValue S q s =
     (case q_expr q of
        ConstantExpr c \<Rightarrow> Some (Some c, s)
      | _ \<Rightarrow>
          do { (r, s) \<leftarrow> computeValue S q s;
               case r of
                 None \<Rightarrow> Some (None, s)
               | Some e \<Rightarrow> do { c \<leftarrow> dyn_cast_Constant e; Some (Some c, s) } })"

definition getInitialValues :: "'s solver_impl \<Rightarrow> query \<Rightarrow> array list \<Rightarrow> 's \<Rightarrow> ('s, int list list) answer" where
  "getInitialValues S q objects s =
     do { (r, s) \<leftarrow> computeInitialValues S q objects s;
          case r of
            Some (values, hasSolution) \<Rightarrow> Some (if hasSolution then Some values else None, s)
          | None \<Rightarrow> Some (None, s) }"

text \<open>The three binary searches of \<^verbatim>\<open>getRange\<close> are the same loop; a failing solver fails an assertion there.\<close>

function search :: "(int \<Rightarrow> 's \<Rightarrow> ('s, bool) answer) \<Rightarrow> int \<Rightarrow> int \<Rightarrow> 's \<Rightarrow> (int \<times> 's) option" where
  "search test lo hi s =
     (if lo < hi
      then let mid = lo + (hi - lo) div 2 in
           do { (res, s) \<leftarrow> test mid s;
                res \<leftarrow> res;
                if res then search test lo mid s else search test (mid + 1) hi s }
      else Some (lo, s))"
  by pat_completeness auto

termination
  by (relation "measure (\<lambda>(test, lo, hi, s). nat (hi - lo))") auto

declare search.simps [simp del]

definition useful_bits :: "'s solver_impl \<Rightarrow> query \<Rightarrow> int \<Rightarrow> 's \<Rightarrow> ('s, bool) answer" where
  "useful_bits S q mid s =
     do { let width = getWidth (q_expr q);
          m \<leftarrow> ce_create mid width;
          sh \<leftarrow> create_LShrExpr (q_expr q) (ConstantExpr m);
          z \<leftarrow> ce_create 0 width;
          e \<leftarrow> create_EqExpr sh (ConstantExpr z);
          mustBeTrue S (withExpr q e) s }"

definition may_be_zero :: "'s solver_impl \<Rightarrow> query \<Rightarrow> 's \<Rightarrow> ('s, bool) answer" where
  "may_be_zero S q s =
     do { z \<leftarrow> ce_create 0 (getWidth (q_expr q));
          e \<leftarrow> create_EqExpr (q_expr q) (ConstantExpr z);
          mayBeTrue S (withExpr q e) s }"

definition may_be_le :: "'s solver_impl \<Rightarrow> query \<Rightarrow> int \<Rightarrow> 's \<Rightarrow> ('s, bool) answer" where
  "may_be_le S q mid s =
     do { m \<leftarrow> ce_create mid (getWidth (q_expr q));
          e \<leftarrow> create_UleExpr (q_expr q) (ConstantExpr m);
          mayBeTrue S (withExpr q e) s }"

definition must_be_le :: "'s solver_impl \<Rightarrow> query \<Rightarrow> int \<Rightarrow> 's \<Rightarrow> ('s, bool) answer" where
  "must_be_le S q mid s =
     do { m \<leftarrow> ce_create mid (getWidth (q_expr q));
          e \<leftarrow> create_UleExpr (q_expr q) (ConstantExpr m);
          mustBeTrue S (withExpr q e) s }"

definition range_bounds :: "'s solver_impl \<Rightarrow> query \<Rightarrow> 's \<Rightarrow> ((int \<times> int) \<times> 's) option" where
  "range_bounds S q s =
     (if getWidth (q_expr q) = 1
      then do { (r, s) \<leftarrow> evaluate S q s;
                v \<leftarrow> r;
                Some (case v of VTrue \<Rightarrow> (1, 1) | VFalse \<Rightarrow> (0, 0) | VUnknown \<Rightarrow> (0, 1), s) }
      else case q_expr q of
        ConstantExpr c \<Rightarrow> do { v \<leftarrow> ce_getZExtValue c 64; Some ((v, v), s) }
      | _ \<Rightarrow>
          do { (bits, s) \<leftarrow> search (useful_bits S q) 0 (int (getWidth (q_expr q))) s;
               (res, s) \<leftarrow> may_be_zero S q s;
               res \<leftarrow> res;
               mx \<leftarrow> maxValueOfNBits64 (nat bits);
               (mn, s) \<leftarrow> (if res then Some (0, s) else search (may_be_le S q) 0 mx s);
               (mx, s) \<leftarrow> search (must_be_le S q) mn mx s;
               Some ((mn, mx), s) })"

definition getRange :: "'s solver_impl \<Rightarrow> query \<Rightarrow> 's \<Rightarrow> ((const_expr \<times> const_expr) \<times> 's) option" where
  "getRange S q s =
     do { ((mn, mx), s) \<leftarrow> range_bounds S q s;
          a \<leftarrow> ce_create mn (getWidth (q_expr q));
          b \<leftarrow> ce_create mx (getWidth (q_expr q));
          Some ((a, b), s) }"

subsection \<open>Incomplete solvers\<close>

datatype partial_validity = MustBeTrue | MustBeFalse | MayBeTrue | MayBeFalse | TrueOrFalse | NoneValidity

fun negatePartialValidity :: "partial_validity \<Rightarrow> partial_validity option" where
  "negatePartialValidity MustBeTrue = Some MustBeFalse"
| "negatePartialValidity MustBeFalse = Some MustBeTrue"
| "negatePartialValidity MayBeTrue = Some MayBeFalse"
| "negatePartialValidity MayBeFalse = Some MayBeTrue"
| "negatePartialValidity TrueOrFalse = Some TrueOrFalse"
| "negatePartialValidity NoneValidity = None"

definition IncompleteSolver_computeValidity :: "(query \<Rightarrow> partial_validity) \<Rightarrow> query \<Rightarrow> partial_validity option" where
  "IncompleteSolver_computeValidity truth q =
     (let trueResult = truth q in
      if trueResult = MustBeTrue then Some MustBeTrue
      else do { nq \<leftarrow> negateExpr q;
                let falseResult = truth nq;
                Some (if falseResult = MustBeTrue then MustBeFalse
                      else if trueResult \<noteq> NoneValidity \<and> falseResult \<noteq> NoneValidity then TrueOrFalse
                      else if trueResult \<noteq> NoneValidity then MayBeFalse
                      else if falseResult \<noteq> NoneValidity then MayBeTrue
                      else NoneValidity) })"

record incomplete_solver =
  inc_computeTruth :: "query \<Rightarrow> partial_validity"
  inc_computeValidity :: "query \<Rightarrow> partial_validity option"
  inc_computeValue :: "query \<Rightarrow> expr option"
  inc_computeInitialValues :: "query \<Rightarrow> array list \<Rightarrow> (int list list \<times> bool) option"

definition Staged_computeTruth :: "incomplete_solver \<Rightarrow> 's solver_impl \<Rightarrow> query \<Rightarrow> 's \<Rightarrow> ('s, bool) answer" where
  "Staged_computeTruth primary secondary q s =
     (let trueResult = inc_computeTruth primary q in
      if trueResult \<noteq> NoneValidity then Some (Some (trueResult = MustBeTrue), s)
      else computeTruth secondary q s)"

definition Staged_computeValidity :: "incomplete_solver \<Rightarrow> 's solver_impl \<Rightarrow> query \<Rightarrow> 's \<Rightarrow> ('s, validity) answer" where
  "Staged_computeValidity primary secondary q s =
     do { pv \<leftarrow> inc_computeValidity primary q;
          case pv of
            MustBeTrue \<Rightarrow> Some (Some VTrue, s)
          | MustBeFalse \<Rightarrow> Some (Some VFalse, s)
          | TrueOrFalse \<Rightarrow> Some (Some VUnknown, s)
          | MayBeTrue \<Rightarrow>
              do { (r, s) \<leftarrow> computeTruth secondary q s; Some (map_option (\<lambda>tmp. if tmp then VTrue else VUnknown) r, s) }
          | MayBeFalse \<Rightarrow>
              do { nq \<leftarrow> negateExpr q;
                   (r, s) \<leftarrow> computeTruth secondary nq s; Some (map_option (\<lambda>tmp. if tmp then VFalse else VUnknown) r, s) }
          | NoneValidity \<Rightarrow> computeValidity secondary q s }"

definition StagedSolverImpl :: "incomplete_solver \<Rightarrow> 's solver_impl \<Rightarrow> 's solver_impl" where
  "StagedSolverImpl primary secondary =
     \<lparr>computeTruth = Staged_computeTruth primary secondary, computeValidity = Staged_computeValidity primary secondary,
      computeValue = (\<lambda>q s. case inc_computeValue primary q of Some e \<Rightarrow> Some (Some e, s) | None \<Rightarrow> computeValue secondary q s),
      computeInitialValues = (\<lambda>q objects s. case inc_computeInitialValues primary q objects of
          Some r \<Rightarrow> Some (Some r, s) | None \<Rightarrow> computeInitialValues secondary q objects s)\<rparr>"

subsection \<open>The caching solver\<close>

text \<open>
  The cache is a hash map keyed by constraints and canonical query; equal keys have equal hashes (\<open>ExprOrder\<close>), so it is a list of
  entries searched by equality. \<^verbatim>\<open>insert\<close> leaves an entry that is already there as it is.
\<close>

type_synonym cache_entry = "expr list \<times> expr"
type_synonym query_cache = "(cache_entry \<times> partial_validity) list"

definition entry_eq :: "cache_entry \<Rightarrow> cache_entry \<Rightarrow> bool" where
  "entry_eq = (\<lambda>(cs, q) (cs', q'). list_all2 expr_eq cs cs' \<and> expr_eq q q')"

definition cache_find :: "query_cache \<Rightarrow> cache_entry \<Rightarrow> partial_validity option" where
  "cache_find cache ce = map_option snd (List.find (\<lambda>(k, v). entry_eq k ce) cache)"

definition cache_insert :: "cache_entry \<Rightarrow> partial_validity \<Rightarrow> query_cache \<Rightarrow> query_cache" where
  "cache_insert ce v cache = (case cache_find cache ce of None \<Rightarrow> (ce, v) # cache | Some _ \<Rightarrow> cache)"

definition canonicalizeQuery :: "hasher \<Rightarrow> expr \<Rightarrow> (expr \<times> bool) option" where
  "canonicalizeQuery hs originalQuery =
     do { negatedQuery \<leftarrow> createIsZero originalQuery;
          Some (if compare hs originalQuery negatedQuery < 0 then (originalQuery, False) else (negatedQuery, True)) }"

definition cacheLookup :: "hasher \<Rightarrow> query \<Rightarrow> query_cache \<Rightarrow> partial_validity option option" where
  "cacheLookup hs q cache =
     do { (canonicalQuery, negationUsed) \<leftarrow> canonicalizeQuery hs (q_expr q);
          case cache_find cache (q_constraints q, canonicalQuery) of
            None \<Rightarrow> Some None
          | Some v \<Rightarrow> if negationUsed then do { v \<leftarrow> negatePartialValidity v; Some (Some v) } else Some (Some v) }"

definition cacheInsert :: "hasher \<Rightarrow> query \<Rightarrow> partial_validity \<Rightarrow> query_cache \<Rightarrow> query_cache option" where
  "cacheInsert hs q result cache =
     do { (canonicalQuery, negationUsed) \<leftarrow> canonicalizeQuery hs (q_expr q);
          cachedResult \<leftarrow> (if negationUsed then negatePartialValidity result else Some result);
          Some (cache_insert (q_constraints q, canonicalQuery) cachedResult cache) }"

definition partial_of :: "validity \<Rightarrow> partial_validity" where
  "partial_of v = (case v of VTrue \<Rightarrow> MustBeTrue | VFalse \<Rightarrow> MustBeFalse | VUnknown \<Rightarrow> TrueOrFalse)"

text \<open>What both switches do with an answer: put it into the cache and return it.\<close>

definition cache_answer :: "hasher \<Rightarrow> query \<Rightarrow> ('a \<Rightarrow> partial_validity) \<Rightarrow> ('a \<Rightarrow> 'b) \<Rightarrow> query_cache \<Rightarrow> ('s, 'a) answer \<Rightarrow> (query_cache \<times> 's, 'b) answer" where
  "cache_answer hs q pv res cache ans =
     do { (r, s) \<leftarrow> ans;
          case r of
            None \<Rightarrow> Some (None, cache, s)
          | Some x \<Rightarrow> do { cache \<leftarrow> cacheInsert hs q (pv x) cache; Some (Some (res x), cache, s) } }"

definition Caching_computeValidity :: "hasher \<Rightarrow> 's solver_impl \<Rightarrow> query \<Rightarrow> query_cache \<times> 's \<Rightarrow> (query_cache \<times> 's, validity) answer" where
  "Caching_computeValidity hs S q = (\<lambda>(cache, s).
     do { cacheHit \<leftarrow> cacheLookup hs q cache;
          case cacheHit of
            Some MustBeTrue \<Rightarrow> Some (Some VTrue, cache, s)
          | Some MustBeFalse \<Rightarrow> Some (Some VFalse, cache, s)
          | Some TrueOrFalse \<Rightarrow> Some (Some VUnknown, cache, s)
          | Some MayBeTrue \<Rightarrow>
              cache_answer hs q (\<lambda>tmp. if tmp then MustBeTrue else TrueOrFalse) (\<lambda>tmp. if tmp then VTrue else VUnknown) cache
                (computeTruth S q s)
          | Some MayBeFalse \<Rightarrow>
              do { nq \<leftarrow> negateExpr q;
                   cache_answer hs q (\<lambda>tmp. if tmp then MustBeFalse else TrueOrFalse) (\<lambda>tmp. if tmp then VFalse else VUnknown) cache
                     (computeTruth S nq s) }
          | Some NoneValidity \<Rightarrow> None
          | None \<Rightarrow> cache_answer hs q partial_of id cache (computeValidity S q s) })"

definition Caching_computeTruth :: "hasher \<Rightarrow> 's solver_impl \<Rightarrow> query \<Rightarrow> query_cache \<times> 's \<Rightarrow> (query_cache \<times> 's, bool) answer" where
  "Caching_computeTruth hs S q = (\<lambda>(cache, s).
     do { cacheHit \<leftarrow> cacheLookup hs q cache;
          if cacheHit \<noteq> None \<and> cacheHit \<noteq> Some MayBeTrue then Some (Some (cacheHit = Some MustBeTrue), cache, s)
          else cache_answer hs q
                 (\<lambda>isValid. if isValid then MustBeTrue else if cacheHit \<noteq> None then TrueOrFalse else MayBeFalse) id cache
                 (computeTruth S q s) })"

definition lift_answer :: "query_cache \<Rightarrow> ('s, 'a) answer \<Rightarrow> (query_cache \<times> 's, 'a) answer" where
  "lift_answer cache ans = do { (r, s) \<leftarrow> ans; Some (r, cache, s) }"

definition CachingSolver :: "hasher \<Rightarrow> 's solver_impl \<Rightarrow> (query_cache \<times> 's) solver_impl" where
  "CachingSolver hs S =
     \<lparr>computeTruth = Caching_computeTruth hs S, computeValidity = Caching_computeValidity hs S,
      computeValue = (\<lambda>q (cache, s). lift_answer cache (computeValue S q s)),
      computeInitialValues = (\<lambda>q objects (cache, s). lift_answer cache (computeInitialValues S q objects s))\<rparr>"

subsection \<open>The validating solver\<close>

text \<open>\<open>check_answer\<close>: an answer of the solver is compared with what the oracle says of it; \<open>good\<close> is the assertion.\<close>

definition check_answer :: "('s, 'a) answer \<Rightarrow> ('a \<Rightarrow> 't \<Rightarrow> ('t, 'b) answer) \<Rightarrow> ('a \<Rightarrow> 'b \<Rightarrow> bool) \<Rightarrow> 't \<Rightarrow> ('s \<times> 't, 'a) answer" where
  "check_answer ans ask good t =
     do { (r, s) \<leftarrow> ans;
          case r of
            None \<Rightarrow> Some (None, s, t)
          | Some x \<Rightarrow>
              do { (r, t) \<leftarrow> ask x t;
                   case r of
                     None \<Rightarrow> Some (None, s, t)
                   | Some y \<Rightarrow> do { assert_that (good x y); Some (Some x, s, t) } } }"

definition binding :: "array \<Rightarrow> int list \<Rightarrow> nat \<Rightarrow> expr option" where
  "binding array vs j =
     do { assert_that (j < length vs);
          r \<leftarrow> create_ReadExpr array NullNode (ConstantExpr (ce_alloc (int j) (arr_domain array)));
          create_EqExpr r (ConstantExpr (ce_alloc (vs ! j) (arr_range array))) }"

definition bindings :: "array list \<Rightarrow> int list list \<Rightarrow> expr list option" where
  "bindings objects values =
     fold_abort (\<lambda>i bs.
       do { assert_that (i < length objects);
            fold_abort (\<lambda>j bs. do { b \<leftarrow> binding (objects ! i) (values ! i) j; Some (bs @ [b]) }) [0..<arr_size (objects ! i)] bs })
     [0..<length values] []"

definition solution_query :: "query \<Rightarrow> array list \<Rightarrow> int list list \<Rightarrow> query option" where
  "solution_query q objects values =
     do { tmp \<leftarrow> bindings objects values;
          neg \<leftarrow> createIsZero (q_expr q);
          constraints \<leftarrow> fold_abort (\<lambda>c e. create_AndExpr e c) (q_constraints q) neg;
          Some \<lparr>q_constraints = tmp, q_expr = constraints\<rparr> }"

definition ValidatingSolver :: "'s solver_impl \<Rightarrow> 't solver_impl \<Rightarrow> ('s \<times> 't) solver_impl" where
  "ValidatingSolver solver oracle =
     \<lparr>computeTruth = (\<lambda>q (s, t). check_answer (computeTruth solver q s) (\<lambda>_. computeTruth oracle q) (=) t),
      computeValidity = (\<lambda>q (s, t). check_answer (computeValidity solver q s) (\<lambda>_. computeValidity oracle q) (=) t),
      computeValue = (\<lambda>q (s, t). check_answer (computeValue solver q s)
        (\<lambda>result t. do { e \<leftarrow> create_NeExpr (q_expr q) result; computeTruth oracle (withExpr q e) t }) (\<lambda>_ answer. \<not> answer) t),
      computeInitialValues = (\<lambda>q objects (s, t). check_answer (computeInitialValues solver q objects s)
        (\<lambda>(values, hasSolution) t.
           if hasSolution then do { sq \<leftarrow> solution_query q objects values; computeTruth oracle sq t }
           else computeTruth oracle q t) (\<lambda>_ answer. answer) t)\<rparr>"

end
