(* ===== verification/SolverSound.thy ===== *)
theory SolverSound
  imports Solver ExprCreateSound
begin

text \<open>
  What a solver promises, as locales: an honest solver only gives right answers, a safe one fails no assertion, and a total one
  also always answers. The assignments a solver ranges over are a parameter \<open>E\<close>. The wrapping solvers keep these contracts, and
  \<^verbatim>\<open>getRange\<close> computes the exact range.
\<close>

subsection \<open>Answers\<close>

definition models :: "env set \<Rightarrow> expr list \<Rightarrow> env set" where
  "models E cs = {\<rho> \<in> E. \<forall>c \<in> set cs. eval \<rho> c = 1}"

definition entails :: "env set \<Rightarrow> query \<Rightarrow> bool" where
  "entails E q \<longleftrightarrow> (\<forall>\<rho> \<in> models E (q_constraints q). eval \<rho> (q_expr q) = 1)"

definition refutes :: "env set \<Rightarrow> query \<Rightarrow> bool" where
  "refutes E q \<longleftrightarrow> (\<forall>\<rho> \<in> models E (q_constraints q). eval \<rho> (q_expr q) = 0)"

definition wf_query :: "env set \<Rightarrow> query \<Rightarrow> bool" where
  "wf_query E q \<longleftrightarrow> (\<forall>c \<in> set (q_constraints q). wf_expr c \<and> getWidth c = 1) \<and> wf_expr (q_expr q) \<and> models E (q_constraints q) \<noteq> {}"

definition bool_query :: "env set \<Rightarrow> query \<Rightarrow> bool" where
  "bool_query E q \<longleftrightarrow> wf_query E q \<and> getWidth (q_expr q) = 1"

definition the_validity :: "env set \<Rightarrow> query \<Rightarrow> validity" where
  "the_validity E q = (if entails E q then VTrue else if refutes E q then VFalse else VUnknown)"

definition feasible :: "env set \<Rightarrow> query \<Rightarrow> expr \<Rightarrow> bool" where
  "feasible E q e \<longleftrightarrow> is_ConstantExpr e \<and> wf_expr e \<and> getWidth e = getWidth (q_expr q)
     \<and> (\<exists>\<rho> \<in> models E (q_constraints q). eval \<rho> (q_expr q) = eval \<rho> e)"

definition gives :: "env \<Rightarrow> array \<Rightarrow> int list \<Rightarrow> bool" where
  "gives \<rho> a vs \<longleftrightarrow> length vs = arr_size a \<and> (\<forall>j < arr_size a. initial_read \<rho> a (int j) = vs ! j)"

definition good_objects :: "array list \<Rightarrow> bool" where
  "good_objects objects \<longleftrightarrow> distinct objects \<and> list_all (\<lambda>a. wf_array a \<and> isSymbolicArray a) objects"

definition counterexample :: "env set \<Rightarrow> query \<Rightarrow> array list \<Rightarrow> int list list \<times> bool \<Rightarrow> bool" where
  "counterexample E q objects = (\<lambda>(vs, hasSolution).
     if hasSolution then \<exists>\<rho> \<in> models E (q_constraints q). eval \<rho> (q_expr q) = 0 \<and> list_all2 (gives \<rho>) objects vs
     else entails E q)"

definition right :: "('s \<Rightarrow> bool) \<Rightarrow> ('a \<Rightarrow> bool) \<Rightarrow> ('s, 'a) answer \<Rightarrow> bool" where
  "right ok P ans \<longleftrightarrow> (\<forall>r s. ans = Some (r, s) \<longrightarrow> ok s \<and> (\<forall>x. r = Some x \<longrightarrow> P x))"

lemma right_Some [simp]: "right ok P (Some (r, s)) \<longleftrightarrow> ok s \<and> (\<forall>x. r = Some x \<longrightarrow> P x)"
  by (simp add: right_def)

lemma right_None [simp]: "right ok P None"
  by (simp add: right_def)

lemma right_cases:
  assumes "right ok P ans"
  obtains "ans = None" | s where "ans = Some (None, s)" "ok s" | x s where "ans = Some (Some x, s)" "ok s" "P x"
proof (cases ans)
  case (Some a)
  obtain r s where "a = (r, s)" by fastforce
  then show ?thesis using Some assms that(2,3) by (cases r) (auto simp: right_def)
qed (use that in simp)

lemma right_map:
  assumes "right ok P ans" "\<And>x. P x \<Longrightarrow> Q (f x)"
  shows "right ok Q (do { (r, s) \<leftarrow> ans; Some (map_option f r, s) })"
  using assms(1) by (rule right_cases) (use assms(2) in auto)

definition exact_range :: "env set \<Rightarrow> query \<Rightarrow> int \<Rightarrow> int \<Rightarrow> bool" where
  "exact_range E q mn mx \<longleftrightarrow> (\<forall>\<rho> \<in> models E (q_constraints q). mn \<le> eval \<rho> (q_expr q) \<and> eval \<rho> (q_expr q) \<le> mx)
     \<and> (\<exists>\<rho> \<in> models E (q_constraints q). eval \<rho> (q_expr q) = mn) \<and> (\<exists>\<rho> \<in> models E (q_constraints q). eval \<rho> (q_expr q) = mx)"

text \<open>The contracts.\<close>

locale honest_solver =
  fixes E :: "env set" and S :: "'s solver_impl" and ok :: "'s \<Rightarrow> bool"
  assumes truth: "ok s \<Longrightarrow> bool_query E q \<Longrightarrow> right ok (\<lambda>b. b = entails E q) (computeTruth S q s)"
    and validity: "ok s \<Longrightarrow> bool_query E q \<Longrightarrow> right ok (\<lambda>v. v = the_validity E q) (computeValidity S q s)"
    and a_value: "ok s \<Longrightarrow> wf_query E q \<Longrightarrow> right ok (feasible E q) (computeValue S q s)"
    and initial: "ok s \<Longrightarrow> bool_query E q \<Longrightarrow> good_objects objects
      \<Longrightarrow> right ok (counterexample E q objects) (computeInitialValues S q objects s)"

locale safe_solver = honest_solver +
  assumes truth_returns: "ok s \<Longrightarrow> bool_query E q \<Longrightarrow> computeTruth S q s \<noteq> None"
    and validity_returns: "ok s \<Longrightarrow> bool_query E q \<Longrightarrow> computeValidity S q s \<noteq> None"
    and value_returns: "ok s \<Longrightarrow> wf_query E q \<Longrightarrow> computeValue S q s \<noteq> None"

locale total_solver = safe_solver +
  assumes truth_answers: "ok s \<Longrightarrow> bool_query E q \<Longrightarrow> computeTruth S q s \<noteq> Some (None, s')"
    and validity_answers: "ok s \<Longrightarrow> bool_query E q \<Longrightarrow> computeValidity S q s \<noteq> Some (None, s')"

subsection \<open>Negated queries\<close>

lemma withExpr_sel [simp]: "q_constraints (withExpr q e) = q_constraints q" "q_expr (withExpr q e) = e"
  by (simp_all add: withExpr_def)

lemma bool_value: "bool_query E q \<Longrightarrow> eval \<rho> (q_expr q) = 0 \<or> eval \<rho> (q_expr q) = 1"
  using eval_bool by (auto simp: bool_query_def wf_query_def)

lemma negate_cases:
  assumes "bool_query E q"
  obtains nq where "negateExpr q = Some nq" "bool_query E nq" "q_constraints nq = q_constraints q"
    "entails E nq = refutes E q" "refutes E nq = entails E q"
    "createIsZero (q_expr q) = Some (q_expr nq)" "nq = withExpr q (q_expr nq)"
proof -
  obtain e where e: "createIsZero (q_expr q) = Some e" "denotes e 1 (\<lambda>\<rho>. of_bool (eval \<rho> (q_expr q) = 0))"
    using createIsZero_sound [of "q_expr q"] assms by (auto simp: returns_iff bool_query_def wf_query_def)
  have "eval \<rho> e = 1 \<longleftrightarrow> eval \<rho> (q_expr q) = 0" "eval \<rho> e = 0 \<longleftrightarrow> eval \<rho> (q_expr q) = 1" for \<rho>
    using e(2) bool_value [OF assms, of \<rho>] by (auto simp: denotes_def)
  then show thesis
    using e assms by (intro that [of "withExpr q e"]) (simp_all add: negateExpr_def bool_query_def wf_query_def entails_def refutes_def denotes_def)
qed

lemma not_both: "wf_query E q \<Longrightarrow> \<not> (entails E q \<and> refutes E q)"
  by (auto simp: entails_def refutes_def wf_query_def)

subsection \<open>Clients of a solver\<close>

context honest_solver
begin

lemma mustBeTrue_right:
  assumes "ok s" "bool_query E q"
  shows "right ok (\<lambda>b. b = entails E q) (mustBeTrue S q s)"
proof (cases "\<exists>c. q_expr q = ConstantExpr c")
  case True
  then obtain c where c: "q_expr q = ConstantExpr c" by blast
  have "models E (q_constraints q) \<noteq> {}" using assms(2) by (simp add: bool_query_def wf_query_def)
  then show ?thesis using assms c bool_value [OF assms(2)]
    by (auto simp: mustBeTrue_def entails_def ce_isTrue_def bool_query_def)
next
  case False
  then have "mustBeTrue S q s = computeTruth S q s"
    using assms(2) by (cases "q_expr q") (simp_all add: mustBeTrue_def bool_query_def)
  then show ?thesis using truth [OF assms] by simp
qed

lemma evaluate_right:
  assumes "ok s" "bool_query E q"
  shows "right ok (\<lambda>v. v = the_validity E q) (evaluate S q s)"
proof (cases "\<exists>c. q_expr q = ConstantExpr c")
  case True
  then obtain c where c: "q_expr q = ConstantExpr c" by blast
  have "models E (q_constraints q) \<noteq> {}" using assms(2) by (simp add: bool_query_def wf_query_def)
  then show ?thesis using assms c bool_value [OF assms(2)]
    by (auto simp: evaluate_def the_validity_def entails_def refutes_def ce_isTrue_def bool_query_def)
next
  case False
  then have "evaluate S q s = computeValidity S q s"
    using assms(2) by (cases "q_expr q") (simp_all add: evaluate_def bool_query_def)
  then show ?thesis using validity [OF assms] by simp
qed

lemma mayBeTrue_right:
  assumes "ok s" "bool_query E q"
  shows "right ok (\<lambda>b. b = (\<not> refutes E q)) (mayBeTrue S q s)"
proof -
  obtain nq where nq: "negateExpr q = Some nq" "bool_query E nq" "entails E nq = refutes E q"
    using negate_cases [OF assms(2)] by metis
  have "right ok (\<lambda>b. b = refutes E q) (mustBeFalse S q s)"
    using mustBeTrue_right [OF assms(1) nq(2)] nq by (simp add: mustBeFalse_def)
  then show ?thesis unfolding mayBeTrue_def by (rule right_map) simp
qed

lemma mayBeFalse_right:
  assumes "ok s" "bool_query E q"
  shows "right ok (\<lambda>b. b = (\<not> entails E q)) (mayBeFalse S q s)"
  unfolding mayBeFalse_def by (rule right_map [OF mustBeTrue_right [OF assms]]) simp

text \<open>The default implementation of \<^verbatim>\<open>computeValidity\<close> over an honest \<^verbatim>\<open>computeTruth\<close>.\<close>

lemma default_validity_right:
  assumes "ok s" "bool_query E q"
  shows "right ok (\<lambda>v. v = the_validity E q) (SolverImpl_computeValidity (computeTruth S) q s)"
  using truth [OF assms]
proof (cases rule: right_cases)
  case (3 b s')
  obtain nq where nq: "negateExpr q = Some nq" "bool_query E nq" "entails E nq = refutes E q"
    using negate_cases [OF assms(2)] by metis
  show ?thesis
  proof (cases b)
    case False
    have "right ok (\<lambda>v. v = the_validity E q) (do { (r, s) \<leftarrow> computeTruth S nq s'; Some (map_option (\<lambda>f. if f then VFalse else VUnknown) r, s) })"
      by (rule right_map [OF truth [OF 3(2) nq(2)]]) (use 3(3) False nq(3) in \<open>simp add: the_validity_def\<close>)
    then show ?thesis using 3(1) False nq(1) by (simp add: SolverImpl_computeValidity_def)
  qed (use 3 in \<open>simp add: SolverImpl_computeValidity_def the_validity_def\<close>)
qed (simp_all add: SolverImpl_computeValidity_def)

end

context total_solver
begin

lemma mustBeTrue_total:
  assumes "ok s" "bool_query E q"
  shows "\<exists>s'. mustBeTrue S q s = Some (Some (entails E q), s') \<and> ok s'"
proof -
  have n: "mustBeTrue S q s \<noteq> None" "mustBeTrue S q s \<noteq> Some (None, s')" for s'
    using assms truth_returns [OF assms] truth_answers [OF assms]
    by (cases "q_expr q"; simp add: mustBeTrue_def bool_query_def)+
  show ?thesis by (rule right_cases [OF mustBeTrue_right [OF assms]]) (use n in auto)
qed

lemma evaluate_total:
  assumes "ok s" "bool_query E q"
  shows "\<exists>s'. evaluate S q s = Some (Some (the_validity E q), s') \<and> ok s'"
proof -
  have n: "evaluate S q s \<noteq> None" "evaluate S q s \<noteq> Some (None, s')" for s'
    using assms validity_returns [OF assms] validity_answers [OF assms]
    by (cases "q_expr q"; simp add: evaluate_def bool_query_def)+
  show ?thesis by (rule right_cases [OF evaluate_right [OF assms]]) (use n in auto)
qed

lemma mayBeTrue_total:
  assumes "ok s" "bool_query E q"
  shows "\<exists>s'. mayBeTrue S q s = Some (Some (\<not> refutes E q), s') \<and> ok s'"
proof -
  obtain nq where nq: "negateExpr q = Some nq" "bool_query E nq" "entails E nq = refutes E q"
    using negate_cases [OF assms(2)] by metis
  then show ?thesis using mustBeTrue_total [OF assms(1) nq(2)] by (auto simp: mayBeTrue_def mustBeFalse_def)
qed

end

subsection \<open>Ranges\<close>

lemma search_least:
  assumes "ok s" "lo \<le> hi" "\<And>m s. lo \<le> m \<Longrightarrow> m < hi \<Longrightarrow> ok s \<Longrightarrow> \<exists>s'. test m s = Some (Some (P m), s') \<and> ok s'"
    "\<And>m n. P m \<Longrightarrow> m \<le> n \<Longrightarrow> P n"
  shows "\<exists>x s'. search test lo hi s = Some (x, s') \<and> ok s' \<and> lo \<le> x \<and> x \<le> hi \<and> (\<forall>y. lo \<le> y \<longrightarrow> y < x \<longrightarrow> \<not> P y) \<and> (x < hi \<longrightarrow> P x)"
  using assms(1-3)
proof (induction test lo hi s rule: search.induct)
  case (1 test lo hi s)
  show ?case
  proof (cases "lo < hi")
    case True
    let ?m = "lo + (hi - lo) div 2"
    have m: "lo \<le> ?m" "?m < hi" using True by auto
    obtain s' where t: "test ?m s = Some (Some (P ?m), s')" "ok s'" using "1.prems"(3) [OF m "1.prems"(1)] by blast
    show ?thesis
    proof (cases "P ?m")
      case Pm: True
      have "\<exists>x s''. search test lo ?m s' = Some (x, s'') \<and> ok s'' \<and> lo \<le> x \<and> x \<le> ?m \<and> (\<forall>y. lo \<le> y \<longrightarrow> y < x \<longrightarrow> \<not> P y) \<and> (x < ?m \<longrightarrow> P x)"
        by (rule "1.IH"(1) [OF True refl t(1) refl _ Pm t(2) m(1)]) (use "1.prems"(3) m in auto)
      then show ?thesis using True t(1) Pm m by (subst search.simps) (auto simp: Let_def)
    next
      case Pm: False
      have "\<exists>x s''. search test (?m + 1) hi s' = Some (x, s'') \<and> ok s'' \<and> ?m + 1 \<le> x \<and> x \<le> hi
          \<and> (\<forall>y. ?m + 1 \<le> y \<longrightarrow> y < x \<longrightarrow> \<not> P y) \<and> (x < hi \<longrightarrow> P x)"
        by (rule "1.IH"(2) [OF True refl t(1) refl _ Pm t(2)]) (use "1.prems"(3) m in auto)
      then obtain x s'' where x: "search test (?m + 1) hi s' = Some (x, s'')" "ok s''" "?m + 1 \<le> x" "x \<le> hi"
          "\<forall>y. ?m + 1 \<le> y \<longrightarrow> y < x \<longrightarrow> \<not> P y" "x < hi \<longrightarrow> P x" by blast
      have "\<not> P y" if "y < x" for y using assms(4) [of y ?m] Pm x(5) that by (cases "y \<le> ?m") auto
      then show ?thesis using True t(1) Pm m x by (subst search.simps) (auto simp: Let_def)
    qed
  qed (use "1.prems" in \<open>simp add: search.simps\<close>)
qed

context total_solver
begin

lemma query_test:
  assumes "wf_query E q" "denotes e 1 (\<lambda>\<rho>. of_bool (Q \<rho>))"
  shows "bool_query E (withExpr q e)" "entails E (withExpr q e) \<longleftrightarrow> (\<forall>\<rho> \<in> models E (q_constraints q). Q \<rho>)"
    "refutes E (withExpr q e) \<longleftrightarrow> (\<forall>\<rho> \<in> models E (q_constraints q). \<not> Q \<rho>)"
  using assms by (auto simp: bool_query_def wf_query_def entails_def refutes_def denotes_def)

lemma useful_bits_total:
  assumes "ok s" "wf_query E q" "0 \<le> m" "m < int (getWidth (q_expr q))"
  shows "\<exists>s'. useful_bits S q m s = Some (Some (\<forall>\<rho> \<in> models E (q_constraints q). eval \<rho> (q_expr q) < 2 ^ nat m), s') \<and> ok s'"
proof -
  let ?e = "q_expr q" and ?w = "getWidth (q_expr q)"
  let ?m = "ConstantExpr (ce_alloc m ?w)" and ?z = "ConstantExpr (ce_alloc 0 ?w)"
  have e: "wf_expr ?e" "0 < ?w" using assms(2) wf_expr_width_pos by (auto simp: wf_query_def)
  have "?w < 2 ^ ?w" by (rule less_exp)
  then have "int ?w < 2 ^ ?w" by (metis of_nat_less_iff of_nat_numeral of_nat_power)
  then have "m < 2 ^ ?w" using assms(4) by linarith
  then have m: "fits ?w m" using assms(3) by (simp add: fits_def)
  obtain sh where sh: "create_LShrExpr ?e ?m = Some sh" "safe_spec LShr ?e ?m sh"
    using create_shift_sound(2) [OF e(1), of ?m] e(2) by (auto simp: returns_iff)
  have "returns (create_EqExpr sh ?z) (bin_spec Eq sh ?z)" using sh(2) e by (intro eq_group_sound(2)) (simp_all add: safe_spec_def)
  then obtain t where t: "create_EqExpr sh ?z = Some t" "bin_spec Eq sh ?z t" by (auto simp: returns_iff)
  have "eval \<rho> sh = drop_bit (nat m) (eval \<rho> ?e)" for \<rho>
    using sh(2) m assms(3,4) by (simp add: safe_spec_def div_kind_def ap_lshr_def)
  moreover have "drop_bit (nat m) (eval \<rho> ?e) = 0 \<longleftrightarrow> eval \<rho> ?e < 2 ^ nat m" for \<rho>
    using eval_nonneg [OF e(1), of \<rho>] zero_less_power [of "2::int" "nat m"] by (auto simp: drop_bit_eq_div zdiv_eq_0_iff simp del: zero_less_power)
  ultimately have "denotes t 1 (\<lambda>\<rho>. of_bool (eval \<rho> ?e < 2 ^ nat m))" using t(2) by (simp add: bin_spec_def denotes_def)
  from query_test [OF assms(2) this] mustBeTrue_total [OF assms(1), of "withExpr q t"]
  show ?thesis using sh(1) t(1) m e(2) by (simp add: useful_bits_def)
qed

lemma may_be_zero_total:
  assumes "ok s" "wf_query E q"
  shows "\<exists>s'. may_be_zero S q s = Some (Some (\<exists>\<rho> \<in> models E (q_constraints q). eval \<rho> (q_expr q) = 0), s') \<and> ok s'"
proof -
  let ?e = "q_expr q" and ?z = "ConstantExpr (ce_alloc 0 (getWidth (q_expr q)))"
  have e: "wf_expr ?e" "0 < getWidth ?e" using assms(2) wf_expr_width_pos by (auto simp: wf_query_def)
  obtain t where t: "create_EqExpr ?e ?z = Some t" "bin_spec Eq ?e ?z t"
    using eq_group_sound(2) [OF e(1), of ?z] e(2) by (auto simp: returns_iff)
  then have "denotes t 1 (\<lambda>\<rho>. of_bool (eval \<rho> ?e = 0))" by (simp add: bin_spec_def)
  from query_test [OF assms(2) this] mayBeTrue_total [OF assms(1), of "withExpr q t"]
  show ?thesis using t(1) e(2) by (simp add: may_be_zero_def)
qed

lemma le_total:
  assumes "ok s" "wf_query E q" "fits (getWidth (q_expr q)) m"
  shows "\<exists>s'. may_be_le S q m s = Some (Some (\<exists>\<rho> \<in> models E (q_constraints q). eval \<rho> (q_expr q) \<le> m), s') \<and> ok s'"
    "\<exists>s'. must_be_le S q m s = Some (Some (\<forall>\<rho> \<in> models E (q_constraints q). eval \<rho> (q_expr q) \<le> m), s') \<and> ok s'"
proof -
  let ?e = "q_expr q" and ?m = "ConstantExpr (ce_alloc m (getWidth (q_expr q)))"
  have e: "wf_expr ?e" "0 < getWidth ?e" using assms(2) wf_expr_width_pos by (auto simp: wf_query_def)
  obtain t where t: "create_UleExpr ?e ?m = Some t" "safe_spec Ule ?e ?m t"
    using create_cmp_sound(2) [OF e(1), of ?m] e(2) by (auto simp: returns_iff)
  then have "denotes t 1 (\<lambda>\<rho>. of_bool (eval \<rho> ?e \<le> m))" using assms(3) by (simp add: safe_spec_def denotes_def div_kind_def)
  note qt = query_test [OF assms(2) this]
  show "\<exists>s'. may_be_le S q m s = Some (Some (\<exists>\<rho> \<in> models E (q_constraints q). eval \<rho> (q_expr q) \<le> m), s') \<and> ok s'"
    using mayBeTrue_total [OF assms(1) qt(1)] qt t(1) e(2) assms(3) by (simp add: may_be_le_def)
  show "\<exists>s'. must_be_le S q m s = Some (Some (\<forall>\<rho> \<in> models E (q_constraints q). eval \<rho> (q_expr q) \<le> m), s') \<and> ok s'"
    using mustBeTrue_total [OF assms(1) qt(1)] qt t(1) e(2) assms(3) by (simp add: must_be_le_def)
qed

lemma search_min:
  assumes "ok s" "wf_query E q" "\<forall>\<rho> \<in> models E (q_constraints q). eval \<rho> (q_expr q) \<le> hi" "0 \<le> hi" "hi < 2 ^ getWidth (q_expr q)"
  shows "\<exists>mn s'. search (may_be_le S q) 0 hi s = Some (mn, s') \<and> ok s' \<and> 0 \<le> mn \<and> mn \<le> hi
    \<and> (\<forall>\<rho> \<in> models E (q_constraints q). mn \<le> eval \<rho> (q_expr q)) \<and> (\<exists>\<rho> \<in> models E (q_constraints q). eval \<rho> (q_expr q) = mn)"
proof -
  let ?P = "\<lambda>m. \<exists>\<rho> \<in> models E (q_constraints q). eval \<rho> (q_expr q) \<le> m"
  have t: "\<exists>s'. may_be_le S q m s = Some (Some (?P m), s') \<and> ok s'" if "0 \<le> m" "m < hi" "ok s" for m s
    using le_total(1) [OF that(3) assms(2), of m] that assms(5) by (simp add: fits_def)
  have mono: "?P n" if "?P m" "m \<le> n" for m n using that by (meson order_trans)
  have "\<exists>x s'. search (may_be_le S q) 0 hi s = Some (x, s') \<and> ok s' \<and> 0 \<le> x \<and> x \<le> hi \<and> (\<forall>y. 0 \<le> y \<longrightarrow> y < x \<longrightarrow> \<not> ?P y) \<and> (x < hi \<longrightarrow> ?P x)"
    by (rule search_least [where P = ?P and ok = ok]) (fact assms t mono)+
  then obtain x s'
    where x: "search (may_be_le S q) 0 hi s = Some (x, s')" "ok s'" "0 \<le> x" "x \<le> hi" "\<forall>y. 0 \<le> y \<longrightarrow> y < x \<longrightarrow> \<not> ?P y" "x < hi \<longrightarrow> ?P x"
    by blast
  have nn: "0 \<le> eval \<rho> (q_expr q)" for \<rho> using assms(2) eval_nonneg by (simp add: wf_query_def)
  have lb: "x \<le> eval \<rho> (q_expr q)" if "\<rho> \<in> models E (q_constraints q)" for \<rho>
    using x(5) nn [of \<rho>] that by (meson not_le order_refl)
  obtain \<rho> where r: "\<rho> \<in> models E (q_constraints q)" "eval \<rho> (q_expr q) \<le> x"
    using x(4,6) assms(2,3) by (cases "x < hi") (auto simp: wf_query_def)
  then have "eval \<rho> (q_expr q) = x" using lb [OF r(1)] by simp
  then show ?thesis using x lb r(1) by blast
qed

lemma search_max:
  assumes "ok s" "wf_query E q" "\<forall>\<rho> \<in> models E (q_constraints q). mn \<le> eval \<rho> (q_expr q) \<and> eval \<rho> (q_expr q) \<le> hi"
    "\<rho>0 \<in> models E (q_constraints q)" "eval \<rho>0 (q_expr q) = mn" "0 \<le> mn" "hi < 2 ^ getWidth (q_expr q)"
  shows "\<exists>mx s'. search (must_be_le S q) mn hi s = Some (mx, s') \<and> ok s' \<and> exact_range E q mn mx"
proof -
  let ?P = "\<lambda>m. \<forall>\<rho> \<in> models E (q_constraints q). eval \<rho> (q_expr q) \<le> m"
  have le: "mn \<le> hi" using assms(3,4) by fastforce
  have t: "\<exists>s'. must_be_le S q m s = Some (Some (?P m), s') \<and> ok s'" if "mn \<le> m" "m < hi" "ok s" for m s
    using le_total(2) [OF that(3) assms(2), of m] that assms(6,7) by (simp add: fits_def)
  have mono: "?P n" if "?P m" "m \<le> n" for m n using that by (meson order_trans)
  have "\<exists>x s'. search (must_be_le S q) mn hi s = Some (x, s') \<and> ok s' \<and> mn \<le> x \<and> x \<le> hi \<and> (\<forall>y. mn \<le> y \<longrightarrow> y < x \<longrightarrow> \<not> ?P y) \<and> (x < hi \<longrightarrow> ?P x)"
    by (rule search_least [where P = ?P and ok = ok]) (fact assms t mono le)+
  then obtain x s'
    where x: "search (must_be_le S q) mn hi s = Some (x, s')" "ok s'" "mn \<le> x" "x \<le> hi" "\<forall>y. mn \<le> y \<longrightarrow> y < x \<longrightarrow> \<not> ?P y" "x < hi \<longrightarrow> ?P x"
    by blast
  have ub: "?P x" using x(4,6) assms(3) by (cases "x < hi") auto
  have "\<exists>\<rho> \<in> models E (q_constraints q). eval \<rho> (q_expr q) = x"
  proof (cases "x = mn")
    case False
    then have "mn \<le> x - 1" "x - 1 < x" using x(3) by simp_all
    then have "\<not> ?P (x - 1)" using x(5) by blast
    then obtain \<rho> where "\<rho> \<in> models E (q_constraints q)" "x \<le> eval \<rho> (q_expr q)" by fastforce
    then show ?thesis using ub by (intro bexI [of _ \<rho>]) (auto intro: antisym)
  qed (use assms(4,5) in blast)
  then show ?thesis using x(1,2) ub assms(3,4,5) by (auto simp: exact_range_def)
qed

lemma range_bounds_exact:
  assumes "ok s" "wf_query E q" "getWidth (q_expr q) \<le> 64"
  shows "\<exists>mn mx s'. range_bounds S q s = Some ((mn, mx), s') \<and> ok s' \<and> exact_range E q mn mx"
proof -
  let ?e = "q_expr q" and ?w = "getWidth (q_expr q)" and ?M = "models E (q_constraints q)"
  have e: "wf_expr ?e" "?M \<noteq> {}" using assms(2) by (auto simp: wf_query_def)
  have fit: "0 \<le> eval \<rho> ?e" "eval \<rho> ?e < 2 ^ ?w" for \<rho> using eval_fits [OF e(1), of \<rho>] by (auto simp: fits_def)
  consider (bool) "?w = 1" | (const) c where "?w \<noteq> 1" "?e = ConstantExpr c" | (symbolic) "?w \<noteq> 1" "\<not> is_ConstantExpr ?e"
    by (cases ?e) auto
  then show ?thesis
  proof cases
    case bool
    then have b: "bool_query E q" using assms(2) by (simp add: bool_query_def)
    obtain s' where "evaluate S q s = Some (Some (the_validity E q), s')" "ok s'" using evaluate_total [OF assms(1) b] by blast
    then show ?thesis using bool e(2) bool_value [OF b]
      by (auto simp: range_bounds_def the_validity_def exact_range_def entails_def refutes_def) (metis zero_le_one order_refl)+
  next
    case const
    then show ?thesis using assms e(2) by (auto simp: range_bounds_def ce_getZExtValue_def exact_range_def)
  next
    case symbolic
    let ?B = "\<lambda>m. \<forall>\<rho> \<in> ?M. eval \<rho> ?e < 2 ^ nat m"
    have "\<exists>s'. useful_bits S q m s = Some (Some (?B m), s') \<and> ok s'" if "0 \<le> m" "m < int ?w" "ok s" for m s
      using useful_bits_total [OF that(3) assms(2) that(1,2)] .
    moreover have "?B n" if "?B m" "m \<le> n" for m n
      using that by (meson less_le_trans nat_mono one_le_numeral power_increasing)
    ultimately obtain b s1 where b: "search (useful_bits S q) 0 (int ?w) s = Some (b, s1)" "ok s1" "0 \<le> b" "b \<le> int ?w" "b < int ?w \<longrightarrow> ?B b"
      using search_least [of ok s 0 "int ?w" "useful_bits S q" ?B, OF assms(1)] by auto
    let ?hi = "2 ^ nat b - 1 :: int"
    have hi: "\<forall>\<rho> \<in> ?M. eval \<rho> ?e \<le> ?hi" using b(4,5) fit by (cases "b < int ?w") fastforce+
    have "(2::int) ^ nat b \<le> 2 ^ ?w" using b(4) by (intro power_increasing) auto
    then have "?hi < 2 ^ ?w" by linarith
    then have hw: "0 \<le> ?hi" "?hi < 2 ^ ?w" "maxValueOfNBits64 (nat b) = Some ?hi"
      using b(4) assms(3) maxValueOfNBits64_eq [of "nat b"] by simp_all
    obtain s2 where z: "may_be_zero S q s1 = Some (Some (\<exists>\<rho> \<in> ?M. eval \<rho> ?e = 0), s2)" "ok s2"
      using may_be_zero_total [OF b(2) assms(2)] by blast
    have "\<exists>mn s3. (if \<exists>\<rho> \<in> ?M. eval \<rho> ?e = 0 then Some (0, s2) else search (may_be_le S q) 0 ?hi s2) = Some (mn, s3) \<and> ok s3
        \<and> 0 \<le> mn \<and> (\<forall>\<rho> \<in> ?M. mn \<le> eval \<rho> ?e) \<and> (\<exists>\<rho> \<in> ?M. eval \<rho> ?e = mn)"
      using search_min [OF z(2) assms(2) hi hw(1,2)] z(2) fit(1) by auto
    then obtain mn s3 \<rho> where mn: "(if \<exists>\<rho> \<in> ?M. eval \<rho> ?e = 0 then Some (0, s2) else search (may_be_le S q) 0 ?hi s2) = Some (mn, s3)"
        "ok s3" "0 \<le> mn" "\<forall>\<rho> \<in> ?M. mn \<le> eval \<rho> ?e" "\<rho> \<in> ?M" "eval \<rho> ?e = mn" by blast
    obtain mx s4 where "search (must_be_le S q) mn ?hi s3 = Some (mx, s4)" "ok s4" "exact_range E q mn mx"
      using search_max [OF mn(2) assms(2) _ mn(5,6,3) hw(2)] mn(4) hi by blast
    then show ?thesis using symbolic b(1) z(1) hw(3) mn(1)
      by (cases ?e) (simp_all add: range_bounds_def)
  qed
qed

end

end
