(* ===== verification/SolverChain.thy ===== *)
theory SolverChain
  imports SolverSound
begin

text \<open>
  The solvers that wrap another solver keep its contract: the caching solver, the staged solver over an incomplete one, and the
  validating solver, which makes any solver honest that is checked against an honest oracle.
\<close>

subsection \<open>Partial validities\<close>

fun pv_ok :: "env set \<Rightarrow> query \<Rightarrow> partial_validity \<Rightarrow> bool" where
  "pv_ok E q MustBeTrue = entails E q"
| "pv_ok E q MustBeFalse = refutes E q"
| "pv_ok E q MayBeTrue = (\<not> refutes E q)"
| "pv_ok E q MayBeFalse = (\<not> entails E q)"
| "pv_ok E q TrueOrFalse = (\<not> entails E q \<and> \<not> refutes E q)"
| "pv_ok E q NoneValidity = True"

lemma pv_negate:
  assumes "pv_ok E q pv" "pv \<noteq> NoneValidity" "entails E nq = refutes E q" "refutes E nq = entails E q"
  obtains pv' where "negatePartialValidity pv = Some pv'" "pv' \<noteq> NoneValidity" "pv_ok E nq pv'"
  using assms by (cases pv) auto

subsection \<open>The caching solver\<close>

definition cache_ok :: "env set \<Rightarrow> query_cache \<Rightarrow> bool" where
  "cache_ok E cache \<longleftrightarrow> (\<forall>((cs, e), pv) \<in> set cache. pv \<noteq> NoneValidity \<and> pv_ok E \<lparr>q_constraints = cs, q_expr = e\<rparr> pv)"

definition cached_ok :: "env set \<Rightarrow> ('s \<Rightarrow> bool) \<Rightarrow> query_cache \<times> 's \<Rightarrow> bool" where
  "cached_ok E ok = (\<lambda>(cache, s). cache_ok E cache \<and> ok s)"

lemma same_models: "list_all2 expr_eq cs cs' \<Longrightarrow> models E cs = models E cs'"
proof -
  assume "list_all2 expr_eq cs cs'"
  then have "(\<forall>c \<in> set cs. eval \<rho> c = 1) = (\<forall>c \<in> set cs'. eval \<rho> c = 1)" for \<rho>
    by (induction rule: list_all2_induct) (auto simp: expr_eq_eval)
  then show ?thesis by (simp add: models_def)
qed

lemma pv_ok_eq:
  assumes "entry_eq (cs, e) (cs', e')"
  shows "pv_ok E \<lparr>q_constraints = cs, q_expr = e\<rparr> pv = pv_ok E \<lparr>q_constraints = cs', q_expr = e'\<rparr> pv"
proof -
  have "models E cs = models E cs'" "\<And>\<rho>. eval \<rho> e = eval \<rho> e'"
    using assms same_models expr_eq_eval by (auto simp: entry_eq_def)
  then show ?thesis by (cases pv) (simp_all add: entails_def refutes_def)
qed

lemma cache_find_ok:
  assumes "cache_ok E cache" "cache_find cache (cs, e) = Some pv"
  shows "pv \<noteq> NoneValidity" "pv_ok E \<lparr>q_constraints = cs, q_expr = e\<rparr> pv"
proof -
  obtain cs' e' where "((cs', e'), pv) \<in> set cache" "entry_eq (cs', e') (cs, e)"
    using assms(2) by (auto simp: cache_find_def find_Some_iff) (metis nth_mem)
  then show "pv \<noteq> NoneValidity" "pv_ok E \<lparr>q_constraints = cs, q_expr = e\<rparr> pv"
    using assms(1) pv_ok_eq [of cs' e' cs e E pv] by (auto simp: cache_ok_def)
qed

lemma canonical_cases:
  assumes "bool_query E q"
  obtains "canonicalizeQuery hs (q_expr q) = Some (q_expr q, False)"
  | nq where "canonicalizeQuery hs (q_expr q) = Some (q_expr nq, True)" "nq = withExpr q (q_expr nq)"
      "entails E nq = refutes E q" "refutes E nq = entails E q"
proof -
  obtain nq where "createIsZero (q_expr q) = Some (q_expr nq)" "nq = withExpr q (q_expr nq)"
      "entails E nq = refutes E q" "refutes E nq = entails E q"
    using negate_cases [OF assms] by metis
  then show thesis using that by (cases "compare hs (q_expr q) (q_expr nq) < 0") (simp_all add: canonicalizeQuery_def)
qed

lemma query_eta: "withExpr q (q_expr q) = q" "\<lparr>q_constraints = q_constraints q, q_expr = e\<rparr> = withExpr q e"
  by (simp_all add: withExpr_def)

lemma cacheLookup_ok:
  assumes "cache_ok E cache" "bool_query E q"
  shows "returns (cacheLookup hs q cache) (\<lambda>r. \<forall>pv. r = Some pv \<longrightarrow> pv \<noteq> NoneValidity \<and> pv_ok E q pv)"
  using assms(2)
proof (cases rule: canonical_cases [where hs = hs])
  case 1
  then show ?thesis using cache_find_ok [OF assms(1), of "q_constraints q" "q_expr q"]
    by (auto simp: cacheLookup_def query_eta split: option.splits)
next
  case (2 nq)
  show ?thesis
  proof (cases "cache_find cache (q_constraints q, q_expr nq)")
    case (Some pv)
    from cache_find_ok [OF assms(1) Some] have pv: "pv_ok E nq pv" "pv \<noteq> NoneValidity" using 2(2) by (simp_all add: query_eta)
    obtain pv' where "negatePartialValidity pv = Some pv'" "pv' \<noteq> NoneValidity" "pv_ok E q pv'"
      using pv_negate [OF pv, of q] 2(3,4) by metis
    then show ?thesis using 2(1) Some by (simp add: cacheLookup_def)
  qed (use 2(1) in \<open>simp add: cacheLookup_def\<close>)
qed

lemma cache_insert_ok:
  assumes "cache_ok E cache" "pv \<noteq> NoneValidity" "pv_ok E \<lparr>q_constraints = cs, q_expr = e\<rparr> pv"
  shows "cache_ok E (cache_insert (cs, e) pv cache)"
  using assms by (auto simp: cache_insert_def cache_ok_def split: option.splits)

lemma cacheInsert_ok:
  assumes "cache_ok E cache" "bool_query E q" "pv \<noteq> NoneValidity" "pv_ok E q pv"
  shows "returns (cacheInsert hs q pv cache) (cache_ok E)"
  using assms(2)
proof (cases rule: canonical_cases [where hs = hs])
  case 1
  then show ?thesis using assms by (simp add: cacheInsert_def cache_insert_ok query_eta)
next
  case (2 nq)
  obtain pv' where "negatePartialValidity pv = Some pv'" "pv' \<noteq> NoneValidity" "pv_ok E nq pv'"
    using pv_negate [OF assms(4,3) 2(3,4)] .
  then show ?thesis using 2(1,2) assms(1) by (simp add: cacheInsert_def cache_insert_ok query_eta)
qed

lemma cache_answer_right:
  assumes "cache_ok E cache" "bool_query E q" "right ok P ans" "\<And>x. P x \<Longrightarrow> pv x \<noteq> NoneValidity \<and> pv_ok E q (pv x) \<and> Q (res x)"
  shows "right (cached_ok E ok) Q (cache_answer hs q pv res cache ans)"
    "ans \<noteq> None \<Longrightarrow> cache_answer hs q pv res cache ans \<noteq> None"
    "(\<And>s. ans \<noteq> Some (None, s)) \<Longrightarrow> cache_answer hs q pv res cache ans \<noteq> Some (None, s')"
proof -
  have "right (cached_ok E ok) Q (cache_answer hs q pv res cache ans) \<and> (ans \<noteq> None \<longrightarrow> cache_answer hs q pv res cache ans \<noteq> None)
      \<and> ((\<forall>s. ans \<noteq> Some (None, s)) \<longrightarrow> (\<forall>s'. cache_answer hs q pv res cache ans \<noteq> Some (None, s')))"
    using assms(3)
  proof (cases rule: right_cases)
    case (3 x s)
    obtain cache' where "cacheInsert hs q (pv x) cache = Some cache'" "cache_ok E cache'"
      using cacheInsert_ok [OF assms(1,2), of "pv x" hs] assms(4) [OF 3(3)] by (auto simp: returns_iff)
    then show ?thesis using 3 assms(4) [OF 3(3)] by (simp add: cache_answer_def cached_ok_def)
  qed (use assms(1) in \<open>simp_all add: cache_answer_def cached_ok_def\<close>)
  then show "right (cached_ok E ok) Q (cache_answer hs q pv res cache ans)"
      "ans \<noteq> None \<Longrightarrow> cache_answer hs q pv res cache ans \<noteq> None"
      "(\<And>s. ans \<noteq> Some (None, s)) \<Longrightarrow> cache_answer hs q pv res cache ans \<noteq> Some (None, s')" by blast+
qed

locale caching_solver = base: honest_solver E S ok for E and S :: "'s solver_impl" and ok +
  fixes hs :: hasher
begin

text \<open>The two computations of the caching solver, with the three levels of the contract together.\<close>

lemma truth_steps:
  assumes "cached_ok E ok (cache, s)" "bool_query E q"
  shows "right (cached_ok E ok) (\<lambda>b. b = entails E q) (Caching_computeTruth hs S q (cache, s))"
    "computeTruth S q s \<noteq> None \<Longrightarrow> Caching_computeTruth hs S q (cache, s) \<noteq> None"
    "(\<And>s'. computeTruth S q s \<noteq> Some (None, s')) \<Longrightarrow> Caching_computeTruth hs S q (cache, s) \<noteq> Some (None, cs')"
proof -
  have ok: "cache_ok E cache" "ok s" using assms(1) by (simp_all add: cached_ok_def)
  obtain hit where hit: "cacheLookup hs q cache = Some hit" "\<And>pv. hit = Some pv \<Longrightarrow> pv \<noteq> NoneValidity \<and> pv_ok E q pv"
    using cacheLookup_ok [OF ok(1) assms(2), of hs] by (auto simp: returns_iff)
  let ?pv = "\<lambda>isValid. if isValid then MustBeTrue else if hit \<noteq> None then TrueOrFalse else MayBeFalse"
  have A: "?pv b \<noteq> NoneValidity \<and> pv_ok E q (?pv b) \<and> id b = entails E q" if "b = entails E q" "hit = None \<or> hit = Some MayBeTrue" for b
    using that hit(2) by auto
  note ca = cache_answer_right [OF ok(1) assms(2) base.truth [OF ok(2) assms(2)], of ?pv "\<lambda>b. b = entails E q" id hs]
  have "right (cached_ok E ok) (\<lambda>b. b = entails E q) (Some (Some (hit = Some MustBeTrue), cache, s))" if "hit \<noteq> None" "hit \<noteq> Some MayBeTrue"
  proof -
    from that(1) obtain pv where pv: "hit = Some pv" by blast
    show ?thesis using assms that hit(2) [OF pv] pv not_both [of E q] by (cases pv) (auto simp: bool_query_def)
  qed
  then show "right (cached_ok E ok) (\<lambda>b. b = entails E q) (Caching_computeTruth hs S q (cache, s))"
      "computeTruth S q s \<noteq> None \<Longrightarrow> Caching_computeTruth hs S q (cache, s) \<noteq> None"
      "(\<And>s'. computeTruth S q s \<noteq> Some (None, s')) \<Longrightarrow> Caching_computeTruth hs S q (cache, s) \<noteq> Some (None, cs')"
    using hit(1) ca A by (auto simp: Caching_computeTruth_def)
qed

lemma validity_steps:
  assumes "cached_ok E ok (cache, s)" "bool_query E q"
  shows "right (cached_ok E ok) (\<lambda>v. v = the_validity E q) (Caching_computeValidity hs S q (cache, s))"
    "\<lbrakk>computeValidity S q s \<noteq> None; \<And>q. bool_query E q \<Longrightarrow> computeTruth S q s \<noteq> None\<rbrakk>
       \<Longrightarrow> Caching_computeValidity hs S q (cache, s) \<noteq> None"
    "\<lbrakk>\<And>s'. computeValidity S q s \<noteq> Some (None, s'); \<And>q s'. bool_query E q \<Longrightarrow> computeTruth S q s \<noteq> Some (None, s')\<rbrakk>
       \<Longrightarrow> Caching_computeValidity hs S q (cache, s) \<noteq> Some (None, cs')"
proof -
  have ok: "cache_ok E cache" "ok s" using assms(1) by (simp_all add: cached_ok_def)
  obtain hit where hit: "cacheLookup hs q cache = Some hit" "\<And>pv. hit = Some pv \<Longrightarrow> pv \<noteq> NoneValidity \<and> pv_ok E q pv"
    using cacheLookup_ok [OF ok(1) assms(2), of hs] by (auto simp: returns_iff)
  obtain nq where nq: "negateExpr q = Some nq" "bool_query E nq" "entails E nq = refutes E q"
    using negate_cases [OF assms(2)] by metis
  have nb: "\<not> (entails E q \<and> refutes E q)" using assms(2) not_both by (simp add: bool_query_def)
  let ?V = "\<lambda>v. v = the_validity E q"
  note t = cache_answer_right [OF ok(1) assms(2) base.truth [OF ok(2) assms(2)], where Q = ?V and hs = hs]
  note f = cache_answer_right [OF ok(1) assms(2) base.truth [OF ok(2) nq(2)], where Q = ?V and hs = hs]
  note v = cache_answer_right [OF ok(1) assms(2) base.validity [OF ok(2) assms(2)], where Q = ?V and hs = hs and pv = partial_of and res = id]
  have T: "(if b then MustBeTrue else TrueOrFalse) \<noteq> NoneValidity \<and> pv_ok E q (if b then MustBeTrue else TrueOrFalse)
      \<and> (if b then VTrue else VUnknown) = the_validity E q" if "b = entails E q" "hit = Some MayBeTrue" for b
    using that hit(2) nb by (auto simp: the_validity_def)
  have F: "(if b then MustBeFalse else TrueOrFalse) \<noteq> NoneValidity \<and> pv_ok E q (if b then MustBeFalse else TrueOrFalse)
      \<and> (if b then VFalse else VUnknown) = the_validity E q" if "b = entails E nq" "hit = Some MayBeFalse" for b
    using that hit(2) nb nq(3) by (auto simp: the_validity_def)
  have V: "partial_of x \<noteq> NoneValidity \<and> pv_ok E q (partial_of x) \<and> id x = the_validity E q" if "x = the_validity E q" for x
    using that by (auto simp: partial_of_def the_validity_def)
  have R: "right (cached_ok E ok) ?V (Some (Some w, cache, s))" if "w = the_validity E q" for w using assms(1) that by simp
  consider "hit = None" | "hit = Some MustBeTrue" | "hit = Some MustBeFalse" | "hit = Some TrueOrFalse" | "hit = Some MayBeTrue" | "hit = Some MayBeFalse"
    using hit(2) by (cases hit) (auto, metis partial_validity.exhaust)
  then have "right (cached_ok E ok) ?V (Caching_computeValidity hs S q (cache, s))
      \<and> (computeValidity S q s \<noteq> None \<longrightarrow> (\<forall>q. bool_query E q \<longrightarrow> computeTruth S q s \<noteq> None) \<longrightarrow> Caching_computeValidity hs S q (cache, s) \<noteq> None)
      \<and> ((\<forall>s'. computeValidity S q s \<noteq> Some (None, s')) \<longrightarrow> (\<forall>q s'. bool_query E q \<longrightarrow> computeTruth S q s \<noteq> Some (None, s'))
           \<longrightarrow> Caching_computeValidity hs S q (cache, s) \<noteq> Some (None, cs'))"
  proof cases
    case 1
    then show ?thesis using hit(1) v [OF V] by (simp add: Caching_computeValidity_def)
  next
    case 5
    then show ?thesis using hit(1) t [OF T] assms(2) by (simp add: Caching_computeValidity_def)
  next
    case 6
    then show ?thesis using hit(1) f [OF F] nq by (simp add: Caching_computeValidity_def)
  qed (use hit R nb in \<open>simp_all add: Caching_computeValidity_def the_validity_def\<close>)
  then show "right (cached_ok E ok) ?V (Caching_computeValidity hs S q (cache, s))"
    "\<lbrakk>computeValidity S q s \<noteq> None; \<And>q. bool_query E q \<Longrightarrow> computeTruth S q s \<noteq> None\<rbrakk>
       \<Longrightarrow> Caching_computeValidity hs S q (cache, s) \<noteq> None"
    "\<lbrakk>\<And>s'. computeValidity S q s \<noteq> Some (None, s'); \<And>q s'. bool_query E q \<Longrightarrow> computeTruth S q s \<noteq> Some (None, s')\<rbrakk>
       \<Longrightarrow> Caching_computeValidity hs S q (cache, s) \<noteq> Some (None, cs')" by blast+
qed

end

lemma lift_right:
  "right ok P ans \<Longrightarrow> cache_ok E cache \<Longrightarrow> right (cached_ok E ok) P (lift_answer cache ans)"
  by (erule right_cases) (auto simp: lift_answer_def cached_ok_def)

sublocale caching_solver \<subseteq> cached: honest_solver E "CachingSolver hs S" "cached_ok E ok"
proof
  fix cs :: "query_cache \<times> 's" and q objects
  obtain cache s where cs: "cs = (cache, s)" by fastforce
  assume ok: "cached_ok E ok cs"
  then have ok': "cache_ok E cache" "ok s" by (simp_all add: cs cached_ok_def)
  show "right (cached_ok E ok) (\<lambda>b. b = entails E q) (computeTruth (CachingSolver hs S) q cs)" if "bool_query E q"
    using truth_steps(1) [of cache s q] ok that by (simp add: CachingSolver_def cs)
  show "right (cached_ok E ok) (\<lambda>v. v = the_validity E q) (computeValidity (CachingSolver hs S) q cs)" if "bool_query E q"
    using validity_steps(1) [of cache s q] ok that by (simp add: CachingSolver_def cs)
  show "right (cached_ok E ok) (feasible E q) (computeValue (CachingSolver hs S) q cs)" if "wf_query E q"
    using lift_right [OF base.a_value [OF ok'(2) that] ok'(1)] by (simp add: CachingSolver_def cs)
  show "right (cached_ok E ok) (counterexample E q objects) (computeInitialValues (CachingSolver hs S) q objects cs)"
    if "bool_query E q" "good_objects objects"
    using lift_right [OF base.initial [OF ok'(2) that] ok'(1)] by (simp add: CachingSolver_def cs)
qed

text \<open>Over a total solver the caching solver is total.\<close>

locale caching_total = base: total_solver E S ok for E and S :: "'s solver_impl" and ok +
  fixes hs :: hasher

sublocale caching_total \<subseteq> caching: caching_solver E S ok hs
  by unfold_locales

sublocale caching_total \<subseteq> cached: total_solver E "CachingSolver hs S" "cached_ok E ok"
proof
  fix cs cs' :: "query_cache \<times> 's" and q
  obtain cache s where cs: "cs = (cache, s)" by fastforce
  assume ok: "cached_ok E ok cs"
  then have ok': "cache_ok E cache" "ok s" by (simp_all add: cs cached_ok_def)
  show "computeTruth (CachingSolver hs S) q cs \<noteq> None" "computeTruth (CachingSolver hs S) q cs \<noteq> Some (None, cs')" if "bool_query E q"
    using caching.truth_steps(2,3) [of cache s q] ok that base.truth_returns [OF ok'(2) that] base.truth_answers [OF ok'(2) that]
    by (simp_all add: CachingSolver_def cs)
  show "computeValidity (CachingSolver hs S) q cs \<noteq> None" "computeValidity (CachingSolver hs S) q cs \<noteq> Some (None, cs')" if "bool_query E q"
    using caching.validity_steps(2,3) [of cache s q] ok that base.validity_returns [OF ok'(2) that] base.validity_answers [OF ok'(2) that]
      base.truth_returns [OF ok'(2)] base.truth_answers [OF ok'(2)]
    by (simp_all add: CachingSolver_def cs)
  show "computeValue (CachingSolver hs S) q cs \<noteq> None" if "wf_query E q"
    using base.value_returns [OF ok'(2) that] by (auto simp: CachingSolver_def cs lift_answer_def)
qed

context caching_total
begin

lemma keeps_contract: "total_solver E (CachingSolver hs S) (cached_ok E ok)"
  by (rule cached.total_solver_axioms)

end

subsection \<open>Staged solvers\<close>

text \<open>
  What an incomplete solver promises: its results hold, and \<^verbatim>\<open>computeTruth\<close> never says \<^verbatim>\<open>MayBeTrue\<close>, which the comments in
  \<^verbatim>\<open>IncompleteSolver::computeValidity\<close> rely on.
\<close>

locale incomplete =
  fixes E :: "env set" and P :: incomplete_solver
  assumes inc_truth: "bool_query E q \<Longrightarrow> pv_ok E q (inc_computeTruth P q) \<and> inc_computeTruth P q \<noteq> MayBeTrue"
    and inc_validity: "bool_query E q \<Longrightarrow> returns (inc_computeValidity P q) (pv_ok E q)"
    and inc_value: "wf_query E q \<Longrightarrow> inc_computeValue P q = Some e \<Longrightarrow> feasible E q e"
    and inc_initial: "bool_query E q \<Longrightarrow> inc_computeInitialValues P q objects = Some r \<Longrightarrow> counterexample E q objects r"
begin

text \<open>The default implementation of \<^verbatim>\<open>computeValidity\<close> keeps the promise.\<close>

lemma default_inc_validity:
  assumes "bool_query E q"
  shows "returns (IncompleteSolver_computeValidity (inc_computeTruth P) q) (pv_ok E q)"
proof -
  obtain nq where nq: "negateExpr q = Some nq" "bool_query E nq" "entails E nq = refutes E q" "refutes E nq = entails E q"
    using negate_cases [OF assms] by metis
  have "\<not> (entails E q \<and> refutes E q)" using assms not_both by (simp add: bool_query_def)
  then show ?thesis
    using inc_truth [OF assms] inc_truth [OF nq(2)] nq
    by (cases "inc_computeTruth P q"; cases "inc_computeTruth P nq") (simp_all add: IncompleteSolver_computeValidity_def)
qed

end

locale staged_solver = prim: incomplete E P + sec: honest_solver E S ok for E P and S :: "'s solver_impl" and ok

sublocale staged_solver \<subseteq> staged: honest_solver E "StagedSolverImpl P S" ok
proof
  fix s :: 's and q objects
  assume ok: "ok s"
  show "right ok (\<lambda>b. b = entails E q) (computeTruth (StagedSolverImpl P S) q s)" if b: "bool_query E q"
  proof -
    have "\<not> (entails E q \<and> refutes E q)" using b not_both by (simp add: bool_query_def)
    then show ?thesis using prim.inc_truth [OF b] sec.truth [OF ok b] ok
      by (cases "inc_computeTruth P q") (auto simp: StagedSolverImpl_def Staged_computeTruth_def)
  qed
  show "right ok (\<lambda>v. v = the_validity E q) (computeValidity (StagedSolverImpl P S) q s)" if b: "bool_query E q"
  proof -
    obtain pv where pv: "inc_computeValidity P q = Some pv" "pv_ok E q pv" using prim.inc_validity [OF b] by (auto simp: returns_iff)
    obtain nq where nq: "negateExpr q = Some nq" "bool_query E nq" "entails E nq = refutes E q" using negate_cases [OF b] by metis
    have nb: "\<not> (entails E q \<and> refutes E q)" using b not_both by (simp add: bool_query_def)
    have T: "right ok (\<lambda>v. v = the_validity E q) (do { (r, s) \<leftarrow> computeTruth S q s; Some (map_option (\<lambda>tmp. if tmp then VTrue else VUnknown) r, s) })"
      if "pv = MayBeTrue"
      by (rule right_map [OF sec.truth [OF ok b]]) (use that pv(2) in \<open>simp add: the_validity_def\<close>)
    have F: "right ok (\<lambda>v. v = the_validity E q) (do { (r, s) \<leftarrow> computeTruth S nq s; Some (map_option (\<lambda>tmp. if tmp then VFalse else VUnknown) r, s) })"
      if "pv = MayBeFalse"
      by (rule right_map [OF sec.truth [OF ok nq(2)]]) (use that pv(2) nq(3) in \<open>simp add: the_validity_def\<close>)
    show ?thesis using pv T F nq(1) nb ok sec.validity [OF ok b]
      by (cases pv) (auto simp: StagedSolverImpl_def Staged_computeValidity_def the_validity_def)
  qed
  show "right ok (feasible E q) (computeValue (StagedSolverImpl P S) q s)" if "wf_query E q"
    using prim.inc_value [OF that] sec.a_value [OF ok that] ok by (auto simp: StagedSolverImpl_def split: option.splits)
  show "right ok (counterexample E q objects) (computeInitialValues (StagedSolverImpl P S) q objects s)"
    if "bool_query E q" "good_objects objects"
    using prim.inc_initial [OF that(1)] sec.initial [OF ok that] ok by (auto simp: StagedSolverImpl_def split: option.splits)
qed

locale staged_total = prim: incomplete E P + sec: total_solver E S ok for E P and S :: "'s solver_impl" and ok

sublocale staged_total \<subseteq> staging: staged_solver E P S ok
  by unfold_locales

sublocale staged_total \<subseteq> staged: total_solver E "StagedSolverImpl P S" ok
proof
  fix s s' :: 's and q
  assume ok: "ok s"
  show "computeTruth (StagedSolverImpl P S) q s \<noteq> None" "computeTruth (StagedSolverImpl P S) q s \<noteq> Some (None, s')" if "bool_query E q"
    using sec.truth_returns [OF ok that] sec.truth_answers [OF ok that] by (simp_all add: StagedSolverImpl_def Staged_computeTruth_def Let_def)
  show "computeValidity (StagedSolverImpl P S) q s \<noteq> None" "computeValidity (StagedSolverImpl P S) q s \<noteq> Some (None, s')" if b: "bool_query E q"
  proof -
    obtain pv where pv: "inc_computeValidity P q = Some pv" using prim.inc_validity [OF b] by (auto simp: returns_iff)
    obtain nq where nq: "negateExpr q = Some nq" "bool_query E nq" using negate_cases [OF b] by metis
    show "computeValidity (StagedSolverImpl P S) q s \<noteq> None" "computeValidity (StagedSolverImpl P S) q s \<noteq> Some (None, s')"
      using pv nq(1) sec.truth_returns [OF ok b] sec.truth_answers [OF ok b] sec.truth_returns [OF ok nq(2)] sec.truth_answers [OF ok nq(2)]
        sec.validity_returns [OF ok b] sec.validity_answers [OF ok b]
      by (cases pv; auto simp: StagedSolverImpl_def Staged_computeValidity_def)+
  qed
  show "computeValue (StagedSolverImpl P S) q s \<noteq> None" if "wf_query E q"
    using sec.value_returns [OF ok that] by (simp add: StagedSolverImpl_def split: option.split)
qed

context staged_total
begin

lemma keeps_contract: "total_solver E (StagedSolverImpl P S) ok"
  by (rule staged.total_solver_axioms)

end

subsection \<open>The validating solver\<close>

definition shaped :: "array list \<Rightarrow> int list list \<Rightarrow> bool" where
  "shaped objects vs \<longleftrightarrow> list_all2 (\<lambda>a v. length v = arr_size a \<and> list_all (fits (arr_range a)) v) objects vs"

text \<open>The solver that is validated only has to give answers of the right shape.\<close>

locale shaped_solver =
  fixes E :: "env set" and S :: "'s solver_impl" and ok :: "'s \<Rightarrow> bool"
  assumes truth_shape: "ok s \<Longrightarrow> bool_query E q \<Longrightarrow> right ok (\<lambda>b. True) (computeTruth S q s)"
    and validity_shape: "ok s \<Longrightarrow> bool_query E q \<Longrightarrow> right ok (\<lambda>v. True) (computeValidity S q s)"
    and value_shape: "ok s \<Longrightarrow> wf_query E q
      \<Longrightarrow> right ok (\<lambda>e. is_ConstantExpr e \<and> wf_expr e \<and> getWidth e = getWidth (q_expr q)) (computeValue S q s)"
    and initial_shape: "ok s \<Longrightarrow> bool_query E q \<Longrightarrow> good_objects objects
      \<Longrightarrow> right ok (\<lambda>(vs, hasSolution). hasSolution \<longrightarrow> shaped objects vs) (computeInitialValues S q objects s)"

text \<open>The assignments have one for every choice of contents.\<close>

definition rich :: "env set \<Rightarrow> bool" where
  "rich E \<longleftrightarrow> (\<forall>objects vs. good_objects objects \<longrightarrow> shaped objects vs \<longrightarrow> (\<exists>\<rho> \<in> E. list_all2 (gives \<rho>) objects vs))"

lemma check_answer_right:
  assumes "right oks R ans" "okt t" "\<And>x t. R x \<Longrightarrow> okt t \<Longrightarrow> right okt (\<lambda>y. good x y \<longrightarrow> P x) (ask x t)"
  shows "right (\<lambda>(s, t). oks s \<and> okt t) P (check_answer ans ask good t)"
  using assms(1)
proof (cases rule: right_cases)
  case (3 x s)
  show ?thesis
    by (rule right_cases [OF assms(3) [OF 3(3) assms(2)]]) (use 3(1,2) in \<open>auto simp: check_answer_def assert_that_def\<close>)
qed (use assms(2) in \<open>simp_all add: check_answer_def\<close>)

definition is_binding :: "array list \<Rightarrow> int list list \<Rightarrow> expr \<Rightarrow> bool" where
  "is_binding objects vs b \<longleftrightarrow> wf_expr b \<and> getWidth b = 1 \<and> (\<forall>\<rho>. list_all2 (gives \<rho>) objects vs \<longrightarrow> eval \<rho> b = 1)"

lemma binding_ok:
  assumes "good_objects objects" "shaped objects vs" "i < length objects" "j < arr_size (objects ! i)"
  shows "returns (binding (objects ! i) (vs ! i) j) (is_binding objects vs)"
proof -
  let ?a = "objects ! i" and ?v = "vs ! i ! j"
  let ?ix = "ConstantExpr (ce_alloc (int j) (arr_domain ?a))" and ?c = "ConstantExpr (ce_alloc ?v (arr_range ?a))"
  have a: "wf_array ?a" using assms(1,3) by (auto simp: good_objects_def list_all_iff)
  then have dom: "0 < arr_domain ?a" "0 < arr_range ?a" and j: "take_bit (arr_domain ?a) (int j) = int j"
  proof -
    have "j < 2 ^ arr_domain ?a" using a assms(4) by (simp add: wf_array_def)
    then show "take_bit (arr_domain ?a) (int j) = int j" by (simp add: take_bit_int_eq_self)
  qed (simp_all add: wf_array_def)
  have v: "length (vs ! i) = arr_size ?a" "fits (arr_range ?a) ?v"
    using assms(2-4) by (auto simp: shaped_def list_all2_conv_all_nth list_all_length)
  obtain r where r: "create_ReadExpr ?a NullNode ?ix = Some r" "denotes r (arr_range ?a) (\<lambda>\<rho>. initial_read \<rho> ?a (int j))"
    using create_ReadExpr_sound [of ?a NullNode ?ix] a dom j by (auto simp: returns_iff)
  have "returns (create_EqExpr r ?c) (bin_spec Eq r ?c)" using r(2) dom by (intro eq_group_sound(2)) (simp_all add: denotes_def)
  then obtain b where b: "create_EqExpr r ?c = Some b" "bin_spec Eq r ?c b" by (auto simp: returns_iff)
  have "is_binding objects vs b"
    using b(2) r(2) v(2) assms(3,4) by (auto simp: is_binding_def bin_spec_def denotes_def gives_def list_all2_conv_all_nth)
  then show ?thesis using r(1) b(1) v(1) assms(4) by (simp add: binding_def)
qed

lemma bindings_ok:
  assumes "good_objects objects" "shaped objects vs"
  shows "returns (bindings objects vs) (list_all (is_binding objects vs))"
proof -
  have l: "length vs = length objects" using assms(2) by (simp add: shaped_def list_all2_lengthD)
  show ?thesis
    unfolding bindings_def
  proof (rule returns_fold_abort [where I = "\<lambda>_. list_all (is_binding objects vs)"])
    fix ys i bs assume i: "set (ys @ [i]) \<subseteq> set [0..<length vs]" and bs: "list_all (is_binding objects vs) bs"
    have "returns (fold_abort (\<lambda>j bs. do { b \<leftarrow> binding (objects ! i) (vs ! i) j; Some (bs @ [b]) }) [0..<arr_size (objects ! i)] bs)
        (list_all (is_binding objects vs))"
    proof (rule returns_fold_abort [where I = "\<lambda>_. list_all (is_binding objects vs)"])
      fix zs j bs assume j: "set (zs @ [j]) \<subseteq> set [0..<arr_size (objects ! i)]" and bs: "list_all (is_binding objects vs) bs"
      have "returns (binding (objects ! i) (vs ! i) j) (is_binding objects vs)" using assms i j l by (intro binding_ok) auto
      then show "returns (do { b \<leftarrow> binding (objects ! i) (vs ! i) j; Some (bs @ [b]) }) (list_all (is_binding objects vs))"
        using bs by (auto simp: returns_bind_iff elim!: returns_mono)
    qed (rule bs)
    then show "returns (do { assert_that (i < length objects);
        fold_abort (\<lambda>j bs. do { b \<leftarrow> binding (objects ! i) (vs ! i) j; Some (bs @ [b]) }) [0..<arr_size (objects ! i)] bs })
        (list_all (is_binding objects vs))" using i l by auto
  qed simp
qed

lemma conjunction_ok:
  assumes "wf_expr e" "getWidth e = 1" "\<forall>c \<in> set cs. wf_expr c \<and> getWidth c = 1"
  shows "returns (fold_abort (\<lambda>c e. create_AndExpr e c) cs e)
    (\<lambda>x. wf_expr x \<and> getWidth x = 1 \<and> (\<forall>\<rho>. eval \<rho> x = 1 \<longleftrightarrow> eval \<rho> e = 1 \<and> (\<forall>c \<in> set cs. eval \<rho> c = 1)))"
  using assms
proof (induction cs arbitrary: e)
  case (Cons c cs)
  obtain x where x: "create_AndExpr e c = Some x" "bin_spec And e c x"
    using create_AndExpr_sound [of e c] Cons.prems by (auto simp: returns_iff)
  have "eval \<rho> x = 1 \<longleftrightarrow> eval \<rho> e = 1 \<and> eval \<rho> c = 1" for \<rho>
    using x(2) eval_bool [of e \<rho>] eval_bool [of c \<rho>] Cons.prems by (auto simp: bin_spec_def denotes_def)
  then show ?case using Cons.IH [of x] Cons.prems x by (auto simp: bin_spec_def denotes_def elim!: returns_mono)
qed simp

lemma solution_query_ok:
  assumes "bool_query E q" "good_objects objects" "shaped objects vs" "rich E"
  shows "returns (solution_query q objects vs) (\<lambda>sq. bool_query E sq \<and> (entails E sq \<longrightarrow> counterexample E q objects (vs, True)))"
proof -
  obtain bs where bs: "bindings objects vs = Some bs" "list_all (is_binding objects vs) bs"
    using bindings_ok [OF assms(2,3)] by (auto simp: returns_iff)
  obtain nq where nq: "createIsZero (q_expr q) = Some (q_expr nq)" "bool_query E nq"
    using negate_cases [OF assms(1)] by metis
  have neg: "eval \<rho> (q_expr nq) = 1 \<longleftrightarrow> eval \<rho> (q_expr q) = 0" for \<rho>
    using createIsZero_sound [of "q_expr q"] assms(1) nq(1) by (auto simp: returns_iff bool_query_def wf_query_def denotes_def)
  obtain x where x: "fold_abort (\<lambda>c e. create_AndExpr e c) (q_constraints q) (q_expr nq) = Some x" "wf_expr x" "getWidth x = 1"
      "\<And>\<rho>. eval \<rho> x = 1 \<longleftrightarrow> eval \<rho> (q_expr nq) = 1 \<and> (\<forall>c \<in> set (q_constraints q). eval \<rho> c = 1)"
    using conjunction_ok [of "q_expr nq" "q_constraints q"] nq(2) assms(1) by (auto simp: returns_iff bool_query_def wf_query_def)
  let ?sq = "\<lparr>q_constraints = bs, q_expr = x\<rparr>"
  obtain \<rho> where \<rho>: "\<rho> \<in> E" "list_all2 (gives \<rho>) objects vs" using assms(2-4) by (auto simp: rich_def)
  then have m: "\<rho> \<in> models E bs" using bs(2) by (auto simp: models_def is_binding_def list_all_iff)
  have "bool_query E ?sq" using x(2,3) bs(2) m by (auto simp: bool_query_def wf_query_def is_binding_def list_all_iff)
  moreover have "counterexample E q objects (vs, True)" if "entails E ?sq"
  proof -
    have "eval \<rho> x = 1" using that m by (simp add: entails_def)
    then show ?thesis using x(4) neg \<rho> by (auto simp: counterexample_def models_def)
  qed
  ultimately show ?thesis using bs(1) nq(1) x(1) by (simp add: solution_query_def)
qed

locale validating_solver = sol: shaped_solver E S oks + orc: honest_solver E Orc okt
  for E and S :: "'s solver_impl" and oks and Orc :: "'t solver_impl" and okt +
  assumes rich: "rich E"

sublocale validating_solver \<subseteq> validated: honest_solver E "ValidatingSolver S Orc" "\<lambda>(s, t). oks s \<and> okt t"
proof
  fix st :: "'s \<times> 't" and q objects
  obtain s t where st: "st = (s, t)" by fastforce
  assume "case st of (s, t) \<Rightarrow> oks s \<and> okt t"
  then have ok: "oks s" "okt t" by (simp_all add: st)
  let ?ok = "\<lambda>(s, t). oks s \<and> okt t"
  show "right ?ok (\<lambda>b. b = entails E q) (computeTruth (ValidatingSolver S Orc) q st)" if b: "bool_query E q"
    unfolding ValidatingSolver_def st
    by (simp, rule check_answer_right [where okt = okt and t = t, OF sol.truth_shape [OF ok(1) b] ok(2)]) (use orc.truth [OF _ b] in \<open>auto simp: right_def\<close>)
  show "right ?ok (\<lambda>v. v = the_validity E q) (computeValidity (ValidatingSolver S Orc) q st)" if b: "bool_query E q"
    unfolding ValidatingSolver_def st
    by (simp, rule check_answer_right [where okt = okt and t = t, OF sol.validity_shape [OF ok(1) b] ok(2)]) (use orc.validity [OF _ b] in \<open>auto simp: right_def\<close>)
  show "right ?ok (feasible E q) (computeValue (ValidatingSolver S Orc) q st)" if w: "wf_query E q"
  proof -
    have "right okt (\<lambda>y. \<not> y \<longrightarrow> feasible E q e) (do { x \<leftarrow> create_NeExpr (q_expr q) e; computeTruth Orc (withExpr q x) t })"
      if e: "is_ConstantExpr e \<and> wf_expr e \<and> getWidth e = getWidth (q_expr q)" and t: "okt t" for e t
    proof -
      obtain x where x: "create_NeExpr (q_expr q) e = Some x" "bin_spec Ne (q_expr q) e x"
        using create_NeExpr_sound [of "q_expr q" e] e w by (auto simp: returns_iff wf_query_def)
      then have b: "bool_query E (withExpr q x)" using w by (simp add: bool_query_def wf_query_def bin_spec_def denotes_def)
      have "feasible E q e" if "\<not> entails E (withExpr q x)"
        using that x(2) e by (auto simp: entails_def feasible_def bin_spec_def denotes_def)
      then show ?thesis using x(1) orc.truth [OF t b] by (auto simp: right_def)
    qed
    then show ?thesis
      unfolding ValidatingSolver_def st by (simp, intro check_answer_right [where okt = okt and t = t, OF sol.value_shape [OF ok(1) w] ok(2)]) auto
  qed
  show "right ?ok (counterexample E q objects) (computeInitialValues (ValidatingSolver S Orc) q objects st)"
    if b: "bool_query E q" and g: "good_objects objects"
  proof -
    have "right okt (\<lambda>y. y \<longrightarrow> counterexample E q objects r)
        ((\<lambda>(vs, hasSolution) t. if hasSolution then do { sq \<leftarrow> solution_query q objects vs; computeTruth Orc sq t } else computeTruth Orc q t) r t)"
      if r: "(\<lambda>(vs, hasSolution). hasSolution \<longrightarrow> shaped objects vs) r" and t: "okt t" for r t
    proof -
      obtain vs h where r': "r = (vs, h)" by fastforce
      show ?thesis
      proof (cases h)
        case True
        then obtain sq where sq: "solution_query q objects vs = Some sq" "bool_query E sq" "entails E sq \<longrightarrow> counterexample E q objects (vs, True)"
          using solution_query_ok [OF b g _ rich, of vs] r r' by (auto simp: returns_iff)
        show ?thesis using orc.truth [OF t sq(2)] sq True by (auto simp: r' right_def)
      next
        case False
        then show ?thesis using orc.truth [OF t b] by (auto simp: r' right_def counterexample_def)
      qed
    qed
    then show ?thesis
      unfolding ValidatingSolver_def st by (simp, intro check_answer_right [where okt = okt and t = t, OF sol.initial_shape [OF ok(1) b g] ok(2)]) auto
  qed
qed

context validating_solver
begin

lemma keeps_contract: "honest_solver E (ValidatingSolver S Orc) (\<lambda>(s, t). oks s \<and> okt t)"
  by (rule validated.honest_solver_axioms)

end

subsection \<open>Instances\<close>

interpretation dummy: safe_solver E DummySolverImpl "\<lambda>_. True" for E
  by unfold_locales (simp_all add: DummySolverImpl_def)

text \<open>A solver that decides a query by trying a given list of assignments: the reference for concrete runs.\<close>

definition list_models :: "env list \<Rightarrow> query \<Rightarrow> env list" where
  "list_models rs q = filter (\<lambda>\<rho>. list_all (\<lambda>c. eval \<rho> c = 1) (q_constraints q)) rs"

definition list_truth :: "env list \<Rightarrow> query \<Rightarrow> unit \<Rightarrow> (unit, bool) answer" where
  "list_truth rs q s = Some (Some (list_all (\<lambda>\<rho>. eval \<rho> (q_expr q) = 1) (list_models rs q)), s)"

definition list_solver :: "env list \<Rightarrow> unit solver_impl" where
  "list_solver rs = \<lparr>computeTruth = list_truth rs, computeValidity = SolverImpl_computeValidity (list_truth rs),
     computeValue = (\<lambda>q s. Some (case list_models rs q of [] \<Rightarrow> None
        | \<rho> # _ \<Rightarrow> Some (ConstantExpr (ce_alloc (eval \<rho> (q_expr q)) (getWidth (q_expr q)))), s)),
     computeInitialValues = (\<lambda>q objects s. Some (None, s))\<rparr>"

lemma list_models_eq: "set (list_models rs q) = models (set rs) (q_constraints q)"
  by (auto simp: list_models_def models_def list_all_iff)

lemma list_truth_eq: "list_truth rs q s = Some (Some (entails (set rs) q), s)"
  by (simp add: list_truth_def list_all_iff list_models_eq entails_def)

interpretation listed: total_solver "set rs" "list_solver rs" "\<lambda>_. True" for rs
proof
  fix s s' :: unit and q objects
  show "right (\<lambda>_. True) (\<lambda>b. b = entails (set rs) q) (computeTruth (list_solver rs) q s)"
      "computeTruth (list_solver rs) q s \<noteq> None" "computeTruth (list_solver rs) q s \<noteq> Some (None, s')"
    by (simp_all add: list_solver_def list_truth_eq)
  have v: "SolverImpl_computeValidity (list_truth rs) q s = Some (Some (the_validity (set rs) q), ())" if b: "bool_query (set rs) q"
  proof -
    obtain nq where "negateExpr q = Some nq" "entails (set rs) nq = refutes (set rs) q" using negate_cases [OF b] by metis
    then show ?thesis by (auto simp: SolverImpl_computeValidity_def list_truth_eq the_validity_def)
  qed
  then show "right (\<lambda>_. True) (\<lambda>v. v = the_validity (set rs) q) (computeValidity (list_solver rs) q s)"
      "computeValidity (list_solver rs) q s \<noteq> None" "computeValidity (list_solver rs) q s \<noteq> Some (None, s')" if "bool_query (set rs) q"
    using that by (simp_all add: list_solver_def)
  show "right (\<lambda>_. True) (feasible (set rs) q) (computeValue (list_solver rs) q s)" if w: "wf_query (set rs) q"
  proof (cases "list_models rs q")
    case (Cons \<rho> \<rho>s)
    then have "\<rho> \<in> models (set rs) (q_constraints q)" using list_models_eq [of rs q] by auto
    then have "feasible (set rs) q (ConstantExpr (ce_alloc (eval \<rho> (q_expr q)) (getWidth (q_expr q))))"
      using w wf_expr_width_pos by (auto simp: feasible_def wf_query_def)
    then show ?thesis using Cons by (simp add: list_solver_def)
  qed (simp add: list_solver_def)
  show "computeValue (list_solver rs) q s \<noteq> None" by (simp add: list_solver_def)
  show "right (\<lambda>_. True) (counterexample (set rs) q objects) (computeInitialValues (list_solver rs) q objects s)"
    by (simp add: list_solver_def)
qed

text \<open>An incomplete solver that knows the constraints themselves, with the default \<^verbatim>\<open>computeValidity\<close>.\<close>

definition constraint_truth :: "query \<Rightarrow> partial_validity" where
  "constraint_truth q = (if list_ex (expr_eq (q_expr q)) (q_constraints q) then MustBeTrue else NoneValidity)"

definition constraint_solver :: incomplete_solver where
  "constraint_solver = \<lparr>inc_computeTruth = constraint_truth, inc_computeValidity = IncompleteSolver_computeValidity constraint_truth,
     inc_computeValue = (\<lambda>q. None), inc_computeInitialValues = (\<lambda>q objects. None)\<rparr>"

lemma constraint_truth_ok: "pv_ok E q (constraint_truth q) \<and> constraint_truth q \<noteq> MayBeTrue"
  using expr_eq_eval by (auto simp: constraint_truth_def entails_def models_def list_ex_iff)

interpretation known: incomplete E constraint_solver for E
proof
  fix q objects e r
  show "pv_ok E q (inc_computeTruth constraint_solver q) \<and> inc_computeTruth constraint_solver q \<noteq> MayBeTrue"
    by (simp add: constraint_solver_def constraint_truth_ok)
  show "returns (inc_computeValidity constraint_solver q) (pv_ok E q)" if b: "bool_query E q"
  proof -
    obtain nq where nq: "negateExpr q = Some nq" "entails E nq = refutes E q" using negate_cases [OF b] by metis
    have "constraint_truth x = MustBeTrue \<or> constraint_truth x = NoneValidity" for x by (simp add: constraint_truth_def)
    then show ?thesis using constraint_truth_ok [of E q] constraint_truth_ok [of E nq] nq
      by (auto simp: constraint_solver_def IncompleteSolver_computeValidity_def Let_def)
  qed
qed (simp_all add: constraint_solver_def)

interpretation staged_list: staged_total "set rs" constraint_solver "list_solver rs" "\<lambda>_. True" for rs
  by unfold_locales

interpretation cached_list: caching_total "set rs" "StagedSolverImpl constraint_solver (list_solver rs)" "\<lambda>_. True" hs for rs hs
  by unfold_locales

lemma rich_UNIV: "rich UNIV"
  unfolding rich_def
proof (intro allI impI)
  fix objects and vs :: "int list list" assume g: "good_objects objects" and sh: "shaped objects vs"
  define rd where "rd a j = (case map_of (zip objects vs) a of Some v \<Rightarrow> v ! j | None \<Rightarrow> 0)" for a :: array and j
  let ?\<rho> = "\<lparr>env_read = rd, env_div0 = \<lambda>_ _ _. 0\<rparr>"
  have l: "length objects = length vs" using sh by (simp add: shaped_def list_all2_lengthD)
  have "gives ?\<rho> (objects ! i) (vs ! i)" if i: "i < length objects" for i
  proof -
    have "map_of (zip objects vs) (objects ! i) = Some (vs ! i)"
      using g l i by (simp add: good_objects_def map_of_zip_nth)
    moreover have "isSymbolicArray (objects ! i)" "length (vs ! i) = arr_size (objects ! i)"
        "\<And>j. j < length (vs ! i) \<Longrightarrow> fits (arr_range (objects ! i)) (vs ! i ! j)"
      using g sh i by (auto simp: good_objects_def list_all_iff shaped_def list_all2_conv_all_nth)
    ultimately show ?thesis by (simp add: gives_def initial_read_def isConstantArray_def rd_def)
  qed
  then show "\<exists>\<rho> \<in> UNIV. list_all2 (gives \<rho>) objects vs" using l by (auto simp: list_all2_conv_all_nth)
qed

text \<open>
  A solver that says yes to everything gives no right answers, only answers of the right shape: it is the one to validate, against the
  incomplete solver staged before one that never answers.
\<close>

definition yes_solver :: "unit solver_impl" where
  "yes_solver = \<lparr>computeTruth = (\<lambda>q s. Some (Some True, s)), computeValidity = (\<lambda>q s. Some (Some VTrue, s)),
     computeValue = (\<lambda>q s. Some (None, s)), computeInitialValues = (\<lambda>q objects s. Some (None, s))\<rparr>"

interpretation yes: shaped_solver E yes_solver "\<lambda>_. True" for E
  by unfold_locales (simp_all add: yes_solver_def)

interpretation known_dummy: staged_solver E constraint_solver DummySolverImpl "\<lambda>_. True" for E
  by unfold_locales

interpretation checked: validating_solver UNIV yes_solver "\<lambda>_. True" "StagedSolverImpl constraint_solver DummySolverImpl" "\<lambda>_. True"
  by unfold_locales (rule rich_UNIV)

subsection \<open>Properties\<close>

text \<open>
  \<^bold>\<open>C34.\<close> \<^verbatim>\<open>getRange\<close> is exact. Over a solver that always gives the right answer, for an expression of at most 64 bits and satisfiable
  constraints, its three binary searches end, no assertion fails, and the two constants returned are the least and the greatest
  value of the expression under the constraints: bounds of all the values, and values themselves.
\<close>

theorem getRange_exact:
  assumes "total_solver E S ok" "ok s" "wf_query E q" "getWidth (q_expr q) \<le> 64"
  shows "\<exists>a b s'. getRange S q s = Some ((a, b), s') \<and> ok s' \<and> ce_width a = getWidth (q_expr q) \<and> ce_width b = getWidth (q_expr q)
    \<and> exact_range E q (ce_value a) (ce_value b)"
proof -
  obtain mn mx s' where r: "range_bounds S q s = Some ((mn, mx), s')" "ok s'" "exact_range E q mn mx"
    using total_solver.range_bounds_exact [OF assms] by blast
  have e: "wf_expr (q_expr q)" using assms(3) by (simp add: wf_query_def)
  have "fits (getWidth (q_expr q)) mn" "fits (getWidth (q_expr q)) mx"
    using r(3) eval_fits [OF e] by (auto simp: exact_range_def)
  then show ?thesis using r wf_expr_width_pos [OF e] by (auto simp: getRange_def)
qed

definition byte_sym :: array where
  "byte_sym = \<lparr>arr_addr = 3, arr_name = ''b'', arr_size = 1, arr_domain = 32, arr_range = 8, constantValues = []\<rparr>"

definition byte_env :: "int \<Rightarrow> env" where
  "byte_env v = \<lparr>env_read = (\<lambda>_ _. v), env_div0 = (\<lambda>_ _ _. 0)\<rparr>"

definition byte_query :: query where
  "byte_query = \<lparr>q_constraints = [], q_expr = ReadExpr False byte_sym NullNode (ConstantExpr (CE 32 0))\<rparr>"

definition byte_test :: query where
  "byte_test = withExpr byte_query (BinaryExpr Ult (q_expr byte_query) (ConstantExpr (CE 8 7)))"

lemma byte_query_ok: "wf_query (set [byte_env 5, byte_env 9]) byte_query" "bool_query (set [byte_env 5, byte_env 9]) byte_test"
    "getWidth (q_expr byte_query) = 8"
  by (auto simp: wf_query_def bool_query_def byte_query_def byte_test_def byte_sym_def wf_array_def isSymbolicArray_def
      wf_const_def fits_def models_def)

theorem getRange_exact_witness:
  "\<exists>a b s'. getRange (list_solver [byte_env 5, byte_env 9]) byte_query () = Some ((a, b), s')
    \<and> exact_range (set [byte_env 5, byte_env 9]) byte_query (ce_value a) (ce_value b)"
  using getRange_exact [OF listed.total_solver_axioms, of "[byte_env 5, byte_env 9]" byte_query "()"] byte_query_ok by auto

fun ask_all :: "'s solver_impl \<Rightarrow> (query + query) list \<Rightarrow> 's \<Rightarrow> ((bool + validity) option list \<times> 's) option" where
  "ask_all S [] s = Some ([], s)"
| "ask_all S (Inl q # qs) s =
     do { (r, s) \<leftarrow> mustBeTrue S q s; (rs, s) \<leftarrow> ask_all S qs s; Some (map_option Inl r # rs, s) }"
| "ask_all S (Inr q # qs) s =
     do { (r, s) \<leftarrow> evaluate S q s; (rs, s) \<leftarrow> ask_all S qs s; Some (map_option Inr r # rs, s) }"

definition true_answer :: "env set \<Rightarrow> query + query \<Rightarrow> (bool + validity) option" where
  "true_answer E x = Some (case x of Inl q \<Rightarrow> Inl (entails E q) | Inr q \<Rightarrow> Inr (the_validity E q))"

lemma ask_all_total:
  assumes "total_solver E S ok" "ok s" "list_all (case_sum (bool_query E) (bool_query E)) qs"
  shows "\<exists>s'. ask_all S qs s = Some (map (true_answer E) qs, s') \<and> ok s'"
  using assms(2,3)
proof (induction qs arbitrary: s)
  case (Cons x qs)
  show ?case
  proof (cases x)
    case (Inl q)
    then obtain s1 where "mustBeTrue S q s = Some (Some (entails E q), s1)" "ok s1"
      using total_solver.mustBeTrue_total [OF assms(1) Cons.prems(1)] Cons.prems(2) by auto
    then show ?thesis using Cons.IH [of s1] Cons.prems(2) Inl by (auto simp: true_answer_def)
  next
    case (Inr q)
    then obtain s1 where "evaluate S q s = Some (Some (the_validity E q), s1)" "ok s1"
      using total_solver.evaluate_total [OF assms(1) Cons.prems(1)] Cons.prems(2) by auto
    then show ?thesis using Cons.IH [of s1] Cons.prems(2) Inr by (auto simp: true_answer_def)
  qed
qed simp

text \<open>
  \<^bold>\<open>C35.\<close> The cache is transparent. Whatever sequence of questions (is it implied, which of the three validities does it have) a caching
  solver with an empty cache is asked, over a solver that always gives the right answer, no assertion fails and every answer is the one the
  constraints of its query define, with all the hits, negated keys and partial entries in between.
\<close>

theorem cache_transparent:
  assumes "total_solver E S ok" "ok s" "list_all (case_sum (bool_query E) (bool_query E)) qs"
  shows "\<exists>cs'. ask_all (CachingSolver hs S) qs ([], s) = Some (map (true_answer E) qs, cs')"
proof -
  have "caching_total E S ok" using assms(1) by (rule caching_total.intro)
  then have t: "total_solver E (CachingSolver hs S) (cached_ok E ok)" by (rule caching_total.keeps_contract)
  have "cached_ok E ok ([], s)" using assms(2) by (simp add: cached_ok_def cache_ok_def)
  then show ?thesis using ask_all_total [OF t _ assms(3)] by blast
qed

theorem cache_transparent_witness:
  "\<exists>cs'. ask_all (CachingSolver (\<lambda>_ _. 0) (list_solver [byte_env 5, byte_env 9])) [Inl byte_test, Inr byte_test, Inr byte_test] ([], ())
     = Some (map (true_answer (set [byte_env 5, byte_env 9])) [Inl byte_test, Inr byte_test, Inr byte_test], cs')"
  by (rule cache_transparent [OF listed.total_solver_axioms TrueI]) (use byte_query_ok(2) in simp)

text \<open>
  \<^bold>\<open>C36.\<close> Staging an incomplete solver before a complete one keeps it complete: if the incomplete solver's partial answers hold (and its
  \<^verbatim>\<open>computeTruth\<close> never says only that the query may be true), then every question to the staged solver is answered, and answered
  right, whenever the second solver answers all questions right.
\<close>

theorem staged_answers:
  assumes "incomplete E P" "total_solver E S ok" "ok s" "list_all (case_sum (bool_query E) (bool_query E)) qs"
  shows "\<exists>s'. ask_all (StagedSolverImpl P S) qs s = Some (map (true_answer E) qs, s') \<and> ok s'"
proof -
  have "staged_total E P S ok" using assms(1,2) by (rule staged_total.intro)
  then have "total_solver E (StagedSolverImpl P S) ok" by (rule staged_total.keeps_contract)
  then show ?thesis using assms(3,4) by (rule ask_all_total)
qed

theorem staged_answers_witness:
  "\<exists>s'. ask_all (StagedSolverImpl constraint_solver (list_solver [byte_env 5, byte_env 9])) [Inl byte_test, Inr byte_test] ()
     = Some (map (true_answer (set [byte_env 5, byte_env 9])) [Inl byte_test, Inr byte_test], s')"
  using staged_answers [OF known.incomplete_axioms listed.total_solver_axioms [of "[byte_env 5, byte_env 9]"] TrueI,
      of "[Inl byte_test, Inr byte_test]" "()"] byte_query_ok(2) by auto

text \<open>
  \<^bold>\<open>C37.\<close> The validating solver lets no wrong answer through: whatever the validated solver says (as long as its answers have the right
  shape), checked against an oracle whose answers are right, every answer that is returned at all is right - truth,
  validity, a value of an expression, a counterexample or that there is none. A wrong answer fails an assertion.
\<close>

theorem validated_answers_right:
  assumes "shaped_solver E S oks" "honest_solver E T okt" "rich E" "oks s" "okt t"
  shows "(\<forall>q b st. bool_query E q \<longrightarrow> computeTruth (ValidatingSolver S T) q (s, t) = Some (Some b, st) \<longrightarrow> b = entails E q)
    \<and> (\<forall>q v st. bool_query E q \<longrightarrow> computeValidity (ValidatingSolver S T) q (s, t) = Some (Some v, st) \<longrightarrow> v = the_validity E q)
    \<and> (\<forall>q e st. wf_query E q \<longrightarrow> computeValue (ValidatingSolver S T) q (s, t) = Some (Some e, st) \<longrightarrow> feasible E q e)
    \<and> (\<forall>q objects r st. bool_query E q \<longrightarrow> good_objects objects
        \<longrightarrow> computeInitialValues (ValidatingSolver S T) q objects (s, t) = Some (Some r, st) \<longrightarrow> counterexample E q objects r)"
proof -
  have "validating_solver E S oks T okt" using assms(1-3) by (intro validating_solver.intro validating_solver_axioms.intro)
  then have h: "honest_solver E (ValidatingSolver S T) (\<lambda>(s, t). oks s \<and> okt t)" by (rule validating_solver.keeps_contract)
  have ok: "(\<lambda>(s, t). oks s \<and> okt t) (s, t)" using assms(4,5) by simp
  show ?thesis
  proof (intro conjI allI impI)
    fix q b st assume "bool_query E q" "computeTruth (ValidatingSolver S T) q (s, t) = Some (Some b, st)"
    then show "b = entails E q" using honest_solver.truth [OF h ok, of q] by simp
  next
    fix q v st assume "bool_query E q" "computeValidity (ValidatingSolver S T) q (s, t) = Some (Some v, st)"
    then show "v = the_validity E q" using honest_solver.validity [OF h ok, of q] by simp
  next
    fix q e st assume "wf_query E q" "computeValue (ValidatingSolver S T) q (s, t) = Some (Some e, st)"
    then show "feasible E q e" using honest_solver.a_value [OF h ok, of q] by simp
  next
    fix q objects r st
    assume "bool_query E q" "good_objects objects" "computeInitialValues (ValidatingSolver S T) q objects (s, t) = Some (Some r, st)"
    then show "counterexample E q objects r" using honest_solver.initial [OF h ok, of q objects] by simp
  qed
qed

definition known_query :: query where
  "known_query = withExpr byte_query (BinaryExpr Ult (q_expr byte_query) (ConstantExpr (CE 8 7)))\<lparr>q_constraints :=
     [BinaryExpr Ult (q_expr byte_query) (ConstantExpr (CE 8 7))]\<rparr>"

lemma known_query_ok: "bool_query UNIV known_query"
proof -
  have "byte_env 5 \<in> models UNIV (q_constraints known_query)"
    by (simp add: models_def known_query_def byte_query_def byte_env_def withExpr_def initial_read_def byte_sym_def isConstantArray_def
      isSymbolicArray_def)
  then show ?thesis
    by (auto simp: bool_query_def wf_query_def known_query_def byte_query_def byte_sym_def wf_array_def isSymbolicArray_def
        wf_const_def fits_def withExpr_def)
qed

theorem validated_answers_right_witness:
  "computeTruth (ValidatingSolver yes_solver (StagedSolverImpl constraint_solver DummySolverImpl)) known_query ((), ())
     = Some (Some True, (), ()) \<and> entails UNIV known_query"
proof -
  let ?V = "ValidatingSolver yes_solver (StagedSolverImpl constraint_solver DummySolverImpl)"
  have "computeTruth ?V known_query ((), ()) = Some (Some True, (), ())"
    by (simp add: ValidatingSolver_def check_answer_def yes_solver_def StagedSolverImpl_def Staged_computeTruth_def constraint_solver_def
        constraint_truth_def known_query_def withExpr_def)
  moreover from this have "True = entails UNIV known_query"
    using known_query_ok
      validated_answers_right [where s = "()" and t = "()", OF yes.shaped_solver_axioms known_dummy.staged.honest_solver_axioms rich_UNIV TrueI TrueI]
    by blast
  ultimately show ?thesis by simp
qed

end
