(* ===== verification/ExprEvaluator.thy ===== *)
theory ExprEvaluator
  imports ExprCreateSound ExprOrder
begin

text \<open>
  Evaluation of expressions under an assignment: \<^verbatim>\<open>ExprVisitor::visit\<close> and \<^verbatim>\<open>visitActual\<close> (\<^verbatim>\<open>lib/Expr/ExprVisitor.cpp\<close>) as
  overridden by \<^verbatim>\<open>ExprEvaluator\<close> (\<^verbatim>\<open>lib/Expr/ExprEvaluator.cpp\<close>) and \<^verbatim>\<open>AssignmentEvaluator\<close>
  (\<^verbatim>\<open>include/klee/util/Assignment.h\<close>). The hash map of expressions already visited is a list of pairs searched by equality of
  expressions.
\<close>

subsection \<open>Assignments\<close>

record assignment =
  allowFreeValues :: bool
  as_bindings :: "(array \<times> int list) list"

text \<open>\<^verbatim>\<open>std::map::insert\<close> keeps the value of a key that is there.\<close>

definition bind_array :: "array \<times> int list \<Rightarrow> (array \<times> int list) list \<Rightarrow> (array \<times> int list) list" where
  "bind_array p m = (case map_of m (fst p) of None \<Rightarrow> p # m | Some _ \<Rightarrow> m)"

definition new_Assignment :: "array list \<Rightarrow> int list list \<Rightarrow> bool \<Rightarrow> assignment" where
  "new_Assignment objects values free = \<lparr>allowFreeValues = free, as_bindings = fold bind_array (zip objects values) []\<rparr>"

definition Assignment_evaluate_read :: "assignment \<Rightarrow> array \<Rightarrow> nat \<Rightarrow> expr option" where
  "Assignment_evaluate_read A array index =
     (case map_of (as_bindings A) array of
        Some vs \<Rightarrow>
          if index < length vs then Some (ConstantExpr (ce_alloc (vs ! index) (arr_range array)))
          else if allowFreeValues A then create_ReadExpr array NullNode (ConstantExpr (ce_alloc (int index) (arr_domain array)))
          else Some (ConstantExpr (ce_alloc 0 (arr_range array)))
      | None \<Rightarrow>
          if allowFreeValues A then create_ReadExpr array NullNode (ConstantExpr (ce_alloc (int index) (arr_domain array)))
          else Some (ConstantExpr (ce_alloc 0 (arr_range array))))"

subsection \<open>The visitor\<close>

datatype action = SkipChildren | DoChildren | ChangeTo expr

type_synonym visited = "(expr \<times> expr) list"

definition visited_find :: "visited \<Rightarrow> expr \<Rightarrow> expr option" where
  "visited_find vs e = map_option snd (List.find (\<lambda>(k, x). expr_eq k e) vs)"

definition visited_insert :: "expr \<Rightarrow> expr \<Rightarrow> visited \<Rightarrow> visited" where
  "visited_insert e x vs = (case visited_find vs e of None \<Rightarrow> (e, x) # vs | Some _ \<Rightarrow> vs)"

definition visitExpr :: "expr \<Rightarrow> action option" where
  "visitExpr e =
     (if kids e = [] \<or> getKind e = Read \<or> \<not> list_all is_ConstantExpr (kids e) then Some DoChildren
      else do { x \<leftarrow> rebuild e (kids e); Some (ChangeTo x) })"

fun visitExprPost :: "expr \<Rightarrow> action" where
  "visitExprPost (NotOptimizedExpr src) = ChangeTo src"
| "visitExprPost _ = SkipChildren"

text \<open>What \<^verbatim>\<open>visitActual\<close> does with the kids it has visited.\<close>

definition rebuild_kids :: "expr \<Rightarrow> expr list \<Rightarrow> expr option" where
  "rebuild_kids ep ks =
     do { e \<leftarrow> (if list_all2 expr_eq ks (kids ep) then Some ep else rebuild ep ks);
          Some (if is_ConstantExpr e then e else case visitExprPost e of ChangeTo x \<Rightarrow> x | _ \<Rightarrow> e) }"

lemma kids_weight: "16 * sum_list (map weight (kids e)) + 4 * length (kids e) < Suc (Suc (16 * weight e))"
  by (cases e) simp_all

function visit :: "assignment \<Rightarrow> expr \<Rightarrow> visited \<Rightarrow> (expr \<times> visited) option"
  and visitActual :: "assignment \<Rightarrow> expr \<Rightarrow> visited \<Rightarrow> (expr \<times> visited) option"
  and visitKind :: "assignment \<Rightarrow> expr \<Rightarrow> visited \<Rightarrow> (action \<times> visited) option"
  and evalRead :: "assignment \<Rightarrow> array \<Rightarrow> unode \<Rightarrow> int \<Rightarrow> visited \<Rightarrow> (action \<times> visited) option"
  and visit_kids :: "assignment \<Rightarrow> expr list \<Rightarrow> visited \<Rightarrow> (expr list \<times> visited) option" where
  "visit A e vs =
     (if is_ConstantExpr e then visitActual A e vs
      else case visited_find vs e of
        Some x \<Rightarrow> Some (x, vs)
      | None \<Rightarrow> do { (x, vs) \<leftarrow> visitActual A e vs; Some (x, visited_insert e x vs) })"
| "visitActual A e vs =
     (if is_ConstantExpr e then Some (e, vs)
      else do { act \<leftarrow> visitExpr e;
                case act of
                  SkipChildren \<Rightarrow> Some (e, vs)
                | ChangeTo x \<Rightarrow> Some (x, vs)
                | DoChildren \<Rightarrow>
                    do { (act, vs) \<leftarrow> visitKind A e vs;
                         case act of
                           SkipChildren \<Rightarrow> Some (e, vs)
                         | ChangeTo x \<Rightarrow> Some (x, vs)
                         | DoChildren \<Rightarrow>
                             do { (ks, vs) \<leftarrow> visit_kids A (kids e) vs; x \<leftarrow> rebuild_kids e ks; Some (x, vs) } } })"
| "visitKind A e vs =
     (case e of
        ReadExpr _ array us index \<Rightarrow>
          do { (v, vs) \<leftarrow> visit A index vs;
               case v of
                 ConstantExpr c \<Rightarrow> do { i \<leftarrow> ce_getZExtValue c 64; evalRead A array us (take_bit 32 i) vs }
               | _ \<Rightarrow> Some (DoChildren, vs) }
      | BinaryExpr k l r \<Rightarrow>
          if div_kind k then
            do { (l', vs) \<leftarrow> visit A l vs;
                 (r', vs) \<leftarrow> visit A r vs;
                 let r' = (case r' of ConstantExpr c \<Rightarrow> if ce_isZero c then r else r' | _ \<Rightarrow> r');
                 if \<not> expr_eq l' l \<or> \<not> expr_eq r' r then do { x \<leftarrow> rebuild e [l', r']; Some (ChangeTo x, vs) }
                 else Some (SkipChildren, vs) }
          else Some (DoChildren, vs)
      | _ \<Rightarrow> Some (DoChildren, vs))"
| "evalRead A array NullNode index vs =
     (if isConstantArray array \<and> nat index < arr_size array
      then Some (ChangeTo (ConstantExpr (constantValues array ! nat index)), vs)
      else do { x \<leftarrow> Assignment_evaluate_read A array (nat index); Some (ChangeTo x, vs) })"
| "evalRead A array (UpdateNode n ix v) index vs =
     do { (ui, vs) \<leftarrow> visit A ix vs;
          case ui of
            ConstantExpr c \<Rightarrow>
              do { i \<leftarrow> ce_getZExtValue c 64;
                   if i = index then do { (x, vs) \<leftarrow> visit A v vs; Some (ChangeTo x, vs) }
                   else evalRead A array n index vs }
          | _ \<Rightarrow>
              do { x \<leftarrow> create_ReadExpr array (UpdateNode n ix v) (ConstantExpr (ce_alloc index (arr_domain array)));
                   Some (ChangeTo x, vs) } }"
| "visit_kids A [] vs = Some ([], vs)"
| "visit_kids A (k # ks) vs = do { (x, vs) \<leftarrow> visit A k vs; (xs, vs) \<leftarrow> visit_kids A ks vs; Some (x # xs, vs) }"
  by pat_completeness auto

termination
  by (relation "measure (\<lambda>x. case x of
      Inl (Inl (_, e, _)) \<Rightarrow> 16 * weight e + 3
    | Inl (Inr (_, e, _)) \<Rightarrow> 16 * weight e + 2
    | Inr (Inl (_, e, _)) \<Rightarrow> 16 * weight e + 1
    | Inr (Inr (Inl (_, _, us, _, _))) \<Rightarrow> 16 * weight_node us + 4
    | Inr (Inr (Inr (_, ks, _))) \<Rightarrow> 16 * sum_list (map weight ks) + 4 * length ks)")
    (simp_all add: kids_weight)

declare visit.simps [simp del] visitActual.simps [simp del] visitKind.simps [simp del] evalRead.simps [simp del] visit_kids.simps [simp del]

definition Assignment_evaluate :: "assignment \<Rightarrow> expr \<Rightarrow> expr option" where
  "Assignment_evaluate A e = do { (x, vs) \<leftarrow> visit A e []; Some x }"

text \<open>\<^verbatim>\<open>Assignment::satisfies\<close>: one visitor for all the constraints; \<^verbatim>\<open>isTrue\<close> is false for what is not constant.\<close>

definition expr_isTrue :: "expr \<Rightarrow> bool option" where
  "expr_isTrue e = do { assert_that (getWidth e = 1); Some (case e of ConstantExpr c \<Rightarrow> ce_isTrue c | _ \<Rightarrow> False) }"

fun satisfies :: "assignment \<Rightarrow> expr list \<Rightarrow> visited \<Rightarrow> bool option" where
  "satisfies A [] vs = Some True"
| "satisfies A (e # es) vs = do { (x, vs) \<leftarrow> visit A e vs; b \<leftarrow> expr_isTrue x; if \<not> b then Some False else satisfies A es vs }"

subsection \<open>Constant operands give a constant\<close>

lemma is_ConstantExpr_iff: "is_ConstantExpr e \<longleftrightarrow> (\<exists>c. e = ConstantExpr c)"
  by (cases e) simp_all

lemma fold_const_is: "fold_const k a b = Some x \<Longrightarrow> is_ConstantExpr x"
  by (auto simp: fold_const_def bind_Some)

lemma create_EqExpr_const: "create_EqExpr (ConstantExpr a) (ConstantExpr b) = Some x \<Longrightarrow> is_ConstantExpr x"
  by (auto simp: create_EqExpr.simps [of "ConstantExpr a" "ConstantExpr b"] bind_Some dest: fold_const_is)

lemma create_NeExpr_const: "create_NeExpr (ConstantExpr a) (ConstantExpr b) = Some x \<Longrightarrow> is_ConstantExpr x"
  by (auto simp: create_NeExpr_def bind_Some dest!: create_EqExpr_const) (auto simp: is_ConstantExpr_iff dest!: create_EqExpr_const)

lemma create_binary_const:
  assumes "create_binary k (ConstantExpr a) (ConstantExpr b) = Some x"
  shows "is_ConstantExpr x"
  using assms
  by (cases k; auto simp: create_AddExpr.simps [of "ConstantExpr a" "ConstantExpr b"] create_SubExpr.simps [of "ConstantExpr a" "ConstantExpr b"] 
      create_AndExpr_def create_OrExpr_def create_XorExpr_def create_MulExpr_def create_UDivExpr_def create_SDivExpr_def create_URemExpr_def
      create_SRemExpr_def create_ShlExpr_def create_LShrExpr_def create_AShrExpr_def create_UltExpr_def create_UleExpr_def create_SltExpr_def
      create_SleExpr_def create_UgtExpr_def create_UgeExpr_def create_SgtExpr_def create_SgeExpr_def BCREATE_R_def BCREATE_def CMPCREATE_def bind_Some
      dest: fold_const_is create_EqExpr_const create_NeExpr_const split: if_splits)

lemma create_ExtractExpr_const: "create_ExtractExpr (ConstantExpr c) off w = Some x \<Longrightarrow> is_ConstantExpr x"
  by (auto simp: create_ExtractExpr.simps [of "ConstantExpr c"] bind_Some split: if_splits)

lemma create_ConcatExpr_const: "create_ConcatExpr (ConstantExpr a) (ConstantExpr b) = Some x \<Longrightarrow> is_ConstantExpr x"
  by (auto simp: create_ConcatExpr.simps [of "ConstantExpr a" "ConstantExpr b"] both_def bind_Some)

lemma rebuild_const:
  assumes "rebuild e ks = Some x" "list_all is_ConstantExpr ks" "getKind e \<noteq> NotOptimized" "getKind e \<noteq> Read"
  shows "is_ConstantExpr x"
  using assms
  by (cases "(e, ks)" rule: rebuild.cases)
    (auto simp: is_ConstantExpr_iff create_SelectExpr_def create_ZExtExpr_def create_SExtExpr_def create_NotExpr_def bind_Some
      dest!: create_binary_const create_ConcatExpr_const create_ExtractExpr_const split: if_splits)


subsection \<open>What an assignment means\<close>

definition has_value :: "assignment \<Rightarrow> array \<Rightarrow> nat \<Rightarrow> bool" where
  "has_value A a i \<longleftrightarrow> (case map_of (as_bindings A) a of Some vs \<Rightarrow> i < length vs | None \<Rightarrow> False)"

definition byte_of :: "assignment \<Rightarrow> array \<Rightarrow> nat \<Rightarrow> int" where
  "byte_of A a i = (if has_value A a i then the (map_of (as_bindings A) a) ! i else 0)"

text \<open>
  An environment that gives the bytes of the assignment, and 0 for the rest if no value may stay free (elements of constant arrays have their own value).
\<close>

definition assigns :: "env \<Rightarrow> assignment \<Rightarrow> bool" where
  "assigns \<rho> A \<longleftrightarrow> (\<forall>a i. \<not> (isConstantArray a \<and> i < arr_size a) \<longrightarrow> has_value A a i \<or> \<not> allowFreeValues A
     \<longrightarrow> take_bit (arr_range a) (env_read \<rho> a i) = take_bit (arr_range a) (byte_of A a i))"

text \<open>No divisor is zero, and indices have at most 32 bits (the code keeps them in an \<^verbatim>\<open>unsigned\<close>).\<close>

fun evaluable :: "env \<Rightarrow> expr \<Rightarrow> bool" and evaluable_node :: "env \<Rightarrow> unode \<Rightarrow> bool" where
  "evaluable \<rho> (ConstantExpr c) = True"
| "evaluable \<rho> (NotOptimizedExpr e) = evaluable \<rho> e"
| "evaluable \<rho> (ReadExpr _ a us i) = (arr_domain a \<le> 32 \<and> evaluable \<rho> i \<and> evaluable_node \<rho> us)"
| "evaluable \<rho> (SelectExpr c t f) = (evaluable \<rho> c \<and> evaluable \<rho> t \<and> evaluable \<rho> f)"
| "evaluable \<rho> (ConcatExpr l r) = (evaluable \<rho> l \<and> evaluable \<rho> r)"
| "evaluable \<rho> (ExtractExpr e off w) = evaluable \<rho> e"
| "evaluable \<rho> (ZExtExpr e w) = evaluable \<rho> e"
| "evaluable \<rho> (SExtExpr e w) = evaluable \<rho> e"
| "evaluable \<rho> (NotExpr e) = evaluable \<rho> e"
| "evaluable \<rho> (BinaryExpr k l r) = (evaluable \<rho> l \<and> evaluable \<rho> r \<and> (div_kind k \<longrightarrow> eval \<rho> r \<noteq> 0))"
| "evaluable_node \<rho> NullNode = True"
| "evaluable_node \<rho> (UpdateNode n i v) = (evaluable_node \<rho> n \<and> evaluable \<rho> i \<and> evaluable \<rho> v)"

text \<open>Every byte read has a value, and no \<^verbatim>\<open>NotOptimizedExpr\<close> hides a constant.\<close>

fun grounded :: "env \<Rightarrow> assignment \<Rightarrow> expr \<Rightarrow> bool" and grounded_node :: "env \<Rightarrow> assignment \<Rightarrow> unode \<Rightarrow> bool" where
  "grounded \<rho> A (ConstantExpr c) = True"
| "grounded \<rho> A (NotOptimizedExpr e) = (\<not> is_ConstantExpr e \<and> grounded \<rho> A e)"
| "grounded \<rho> A (ReadExpr _ a us i) = (grounded \<rho> A i \<and> grounded_node \<rho> A us
     \<and> (isConstantArray a \<and> nat (eval \<rho> i) < arr_size a \<or> has_value A a (nat (eval \<rho> i)) \<or> \<not> allowFreeValues A))"
| "grounded \<rho> A (SelectExpr c t f) = (grounded \<rho> A c \<and> grounded \<rho> A t \<and> grounded \<rho> A f)"
| "grounded \<rho> A (ConcatExpr l r) = (grounded \<rho> A l \<and> grounded \<rho> A r)"
| "grounded \<rho> A (ExtractExpr e off w) = grounded \<rho> A e"
| "grounded \<rho> A (ZExtExpr e w) = grounded \<rho> A e"
| "grounded \<rho> A (SExtExpr e w) = grounded \<rho> A e"
| "grounded \<rho> A (NotExpr e) = grounded \<rho> A e"
| "grounded \<rho> A (BinaryExpr k l r) = (grounded \<rho> A l \<and> grounded \<rho> A r)"
| "grounded_node \<rho> A NullNode = True"
| "grounded_node \<rho> A (UpdateNode n i v) = (grounded_node \<rho> A n \<and> grounded \<rho> A i \<and> grounded \<rho> A v)"

lemma is_ConstantExpr_erase [simp]: "is_ConstantExpr (erase e) = is_ConstantExpr e"
  by (cases e) simp_all

lemma grounded_erase [simp]: "grounded \<rho> A (erase e) = grounded \<rho> A e" "grounded_node \<rho> A (erase_node n) = grounded_node \<rho> A n"
  by (induction e and n) simp_all

lemma evaluable_kids: "evaluable \<rho> e \<Longrightarrow> list_all (evaluable \<rho>) (kids e)"
  by (cases e) simp_all

lemma grounded_kids: "grounded \<rho> A e \<Longrightarrow> list_all (grounded \<rho> A) (kids e)"
  by (cases e) simp_all

lemma wf_kids: "wf_expr e \<Longrightarrow> list_all wf_expr (kids e)"
  by (cases e) simp_all

definition good :: "env \<Rightarrow> assignment \<Rightarrow> expr \<Rightarrow> expr \<Rightarrow> bool" where
  "good \<rho> A e x \<longleftrightarrow> wf_expr x \<and> getWidth x = getWidth e \<and> eval \<rho> x = eval \<rho> e \<and> (grounded \<rho> A e \<longrightarrow> is_ConstantExpr x)"

definition visited_ok :: "env \<Rightarrow> assignment \<Rightarrow> visited \<Rightarrow> bool" where
  "visited_ok \<rho> A vs \<longleftrightarrow> list_all (\<lambda>(e, x). good \<rho> A e x) vs"

lemma good_eq: "expr_eq k e \<Longrightarrow> good \<rho> A k x \<Longrightarrow> good \<rho> A e x"
  unfolding good_def expr_eq_def by (metis getWidth_erase eval_erase grounded_erase(1))

lemma visited_find_good: "visited_ok \<rho> A vs \<Longrightarrow> visited_find vs e = Some x \<Longrightarrow> good \<rho> A e x"
  by (induction vs) (auto simp: visited_ok_def visited_find_def good_eq split: if_splits)

lemma visited_insert_ok: "visited_ok \<rho> A vs \<Longrightarrow> good \<rho> A e x \<Longrightarrow> visited_ok \<rho> A (visited_insert e x vs)"
  by (simp add: visited_ok_def visited_insert_def split: option.splits)


subsection \<open>The steps of the visitor\<close>

lemma kids_nonempty: "\<not> is_ConstantExpr e \<Longrightarrow> kids e \<noteq> []"
  by (cases e) simp_all

lemma good_constants:
  "list_all2 (good \<rho> A) es xs \<Longrightarrow> list_all (grounded \<rho> A) es \<Longrightarrow> list_all is_ConstantExpr xs"
  by (induction rule: list_all2_induct) (simp_all add: good_def)

lemma eq_constants: "list_all2 expr_eq xs es \<Longrightarrow> list_all is_ConstantExpr xs \<Longrightarrow> list_all is_ConstantExpr es"
  by (induction rule: list_all2_induct) (auto simp: expr_eq_def, metis is_ConstantExpr_erase)

lemma rebuild_ok_kids:
  assumes "wf_expr e" "\<not> is_ConstantExpr e" "list_all2 (good \<rho> A) (kids e) ks" "evaluable \<rho> e"
  shows "rebuild_ok e ks"
proof -
  have "list_all2 (\<lambda>k k'. wf_expr k' \<and> getWidth k' = getWidth k) (kids e) ks"
    using assms(3) by (rule list_all2_mono) (simp add: good_def)
  moreover have "\<not> const_div_zero k (ks ! 0) (ks ! 1)" if e: "e = BinaryExpr k l r" for k l r
  proof -
    obtain l' r' where ks: "ks = [l', r']" "good \<rho> A r r'" using assms(3) e by (auto simp: list_all2_Cons1)
    then show ?thesis using assms(4) e by (cases r') (auto simp: const_div_zero_def good_def)
  qed
  ultimately show ?thesis using assms(1,2) by (auto simp: rebuild_ok_def split: expr.splits)
qed

lemma rebuild_good:
  assumes "wf_expr e" "\<not> is_ConstantExpr e" "list_all2 (good \<rho> A) (kids e) ks" "evaluable \<rho> e"
  shows "returns (rebuild e ks) (\<lambda>x. wf_expr x \<and> getWidth x = getWidth e \<and> eval \<rho> x = eval \<rho> e
    \<and> (getKind e \<noteq> NotOptimized \<longrightarrow> getKind e \<noteq> Read \<longrightarrow> grounded \<rho> A e \<longrightarrow> is_ConstantExpr x))"
proof -
  have v: "map (eval \<rho>) ks = map (eval \<rho>) (kids e)"
    using assms(3) by (induction rule: list_all2_induct) (simp_all add: good_def)
  have d: "div_safe \<rho> e" using assms(4) by (auto simp: div_safe_def split: expr.splits)
  have c: "list_all is_ConstantExpr ks" if "grounded \<rho> A e"
    using assms(3) grounded_kids [OF that] by (rule good_constants)
  show ?thesis using rebuild_sound [OF rebuild_ok_kids [OF assms]]
    by (rule returns_mono) (use v d c rebuild_const in \<open>auto simp: rebuild_spec_def\<close>)
qed

lemma good_refl: "wf_expr e \<Longrightarrow> (grounded \<rho> A e \<Longrightarrow> is_ConstantExpr e) \<Longrightarrow> good \<rho> A e e"
  by (simp add: good_def)

lemma visitExpr_good:
  assumes "wf_expr e" "\<not> is_ConstantExpr e" "evaluable \<rho> e"
  shows "returns (visitExpr e) (\<lambda>act. case act of ChangeTo x \<Rightarrow> good \<rho> A e x | SkipChildren \<Rightarrow> False
    | DoChildren \<Rightarrow> getKind e = Read \<or> \<not> list_all is_ConstantExpr (kids e))"
proof (cases "getKind e = Read \<or> \<not> list_all is_ConstantExpr (kids e)")
  case True
  then show ?thesis by (auto simp: visitExpr_def)
next
  case False
  have "list_all2 (good \<rho> A) (kids e) (kids e)"
    using wf_kids [OF assms(1)] False by (auto simp: list_all2_conv_all_nth list_all_length good_refl)
  from rebuild_good [OF assms(1,2) this assms(3)] have "returns (rebuild e (kids e)) (good \<rho> A e)"
  proof (rule returns_mono)
    fix x assume "wf_expr x \<and> getWidth x = getWidth e \<and> eval \<rho> x = eval \<rho> e
      \<and> (getKind e \<noteq> NotOptimized \<longrightarrow> getKind e \<noteq> Read \<longrightarrow> grounded \<rho> A e \<longrightarrow> is_ConstantExpr x)"
    then show "good \<rho> A e x" using False by (cases e) (auto simp: good_def)
  qed
  then show ?thesis using False kids_nonempty [OF assms(2)] by (auto simp: visitExpr_def elim!: returnsE)
qed

lemma post_good:
  assumes "wf_expr x" "getWidth x = getWidth e" "eval \<rho> x = eval \<rho> e"
    "grounded \<rho> A e \<Longrightarrow> is_ConstantExpr x \<or> (\<exists>c. x = NotOptimizedExpr (ConstantExpr c))"
  shows "good \<rho> A e (if is_ConstantExpr x then x else case visitExprPost x of ChangeTo y \<Rightarrow> y | _ \<Rightarrow> x)"
  using assms by (cases x) (auto simp: good_def)

lemma rebuild_kids_good:
  assumes e: "wf_expr e" "\<not> is_ConstantExpr e" "evaluable \<rho> e" and ks: "list_all2 (good \<rho> A) (kids e) ks"
    and d: "getKind e = Read \<longrightarrow> \<not> grounded \<rho> A e" "getKind e = Read \<or> \<not> list_all is_ConstantExpr (kids e)"
  shows "returns (rebuild_kids e ks) (good \<rho> A e)"
proof (cases "list_all2 expr_eq ks (kids e)")
  case True
  have "\<not> grounded \<rho> A e"
  proof
    assume g: "grounded \<rho> A e"
    have "list_all is_ConstantExpr (kids e)" by (rule eq_constants [OF True good_constants [OF ks grounded_kids [OF g]]])
    with g d show False by blast
  qed
  then have "good \<rho> A e (if is_ConstantExpr e then e else case visitExprPost e of ChangeTo y \<Rightarrow> y | _ \<Rightarrow> e)"
    using e(1) by (intro post_good) auto
  then show ?thesis using True by (simp add: rebuild_kids_def)
next
  case False
  obtain x where x: "rebuild e ks = Some x" "wf_expr x" "getWidth x = getWidth e" "eval \<rho> x = eval \<rho> e"
      "getKind e \<noteq> NotOptimized \<Longrightarrow> getKind e \<noteq> Read \<Longrightarrow> grounded \<rho> A e \<Longrightarrow> is_ConstantExpr x"
    using rebuild_good [OF e(1,2) ks e(3)] by (auto elim!: returnsE)
  have "is_ConstantExpr x \<or> (\<exists>c. x = NotOptimizedExpr (ConstantExpr c))" if g: "grounded \<rho> A e"
  proof (cases e)
    case (NotOptimizedExpr s)
    then obtain y where "ks = [y]" "good \<rho> A s y" using ks by (auto simp: list_all2_Cons1)
    then show ?thesis using x(1) g NotOptimizedExpr by (auto simp: create_NotOptimizedExpr_def good_def is_ConstantExpr_iff)
  qed (use x(5) g d in auto)
  from post_good [OF x(2-4) this] show ?thesis using False x(1) by (simp add: rebuild_kids_def)
qed

lemma evaluate_read_good:
  assumes "assigns \<rho> A" "wf_array a" "fits (arr_domain a) index" "\<not> (isConstantArray a \<and> nat index < arr_size a)"
  shows "returns (Assignment_evaluate_read A a (nat index)) (\<lambda>x. wf_expr x \<and> getWidth x = arr_range a
    \<and> eval \<rho> x = initial_read \<rho> a index \<and> (has_value A a (nat index) \<or> \<not> allowFreeValues A \<longrightarrow> is_ConstantExpr x))"
proof -
  let ?i = "ConstantExpr (ce_alloc (int (nat index)) (arr_domain a))"
  have r: "0 < arr_range a" "0 < arr_domain a" using assms(2) by (simp_all add: wf_array_def)
  have i: "initial_read \<rho> a index = take_bit (arr_range a) (env_read \<rho> a (nat index))"
    using assms(4) by (auto simp: initial_read_def)
  have "returns (create_ReadExpr a NullNode ?i) (\<lambda>x. wf_expr x \<and> getWidth x = arr_range a \<and> eval \<rho> x = initial_read \<rho> a index)"
    using create_ReadExpr_sound [of a NullNode ?i] assms(2,3) r fits_nonneg [OF assms(3)]
    by (auto simp: denotes_def ce_alloc_def wf_const_def elim!: returns_mono)
  moreover have "has_value A a (nat index) \<or> \<not> allowFreeValues A
      \<Longrightarrow> initial_read \<rho> a index = take_bit (arr_range a) (byte_of A a (nat index))"
    using assms(1,4) i unfolding assigns_def by metis
  ultimately show ?thesis
    using r by (auto simp: Assignment_evaluate_read_def has_value_def byte_of_def ce_alloc_def wf_const_def split: option.splits)
qed


subsection \<open>The visitor\<close>

definition visit_post :: "env \<Rightarrow> assignment \<Rightarrow> expr \<Rightarrow> expr \<times> visited \<Rightarrow> bool" where
  "visit_post \<rho> A e = (\<lambda>(x, vs). good \<rho> A e x \<and> visited_ok \<rho> A vs)"

definition kind_post :: "env \<Rightarrow> assignment \<Rightarrow> expr \<Rightarrow> action \<times> visited \<Rightarrow> bool" where
  "kind_post \<rho> A e = (\<lambda>(act, vs). visited_ok \<rho> A vs \<and> (case act of SkipChildren \<Rightarrow> good \<rho> A e e | ChangeTo x \<Rightarrow> good \<rho> A e x
     | DoChildren \<Rightarrow> getKind e = Read \<longrightarrow> \<not> grounded \<rho> A e))"

definition read_post :: "env \<Rightarrow> assignment \<Rightarrow> array \<Rightarrow> unode \<Rightarrow> int \<Rightarrow> action \<times> visited \<Rightarrow> bool" where
  "read_post \<rho> A a us i = (\<lambda>(act, vs). visited_ok \<rho> A vs \<and> (\<exists>x. act = ChangeTo x \<and> wf_expr x \<and> getWidth x = arr_range a
     \<and> eval \<rho> x = eval_read \<rho> a us i
     \<and> (grounded_node \<rho> A us \<longrightarrow> (isConstantArray a \<and> nat i < arr_size a \<or> has_value A a (nat i) \<or> \<not> allowFreeValues A)
          \<longrightarrow> is_ConstantExpr x)))"

definition kids_post :: "env \<Rightarrow> assignment \<Rightarrow> expr list \<Rightarrow> expr list \<times> visited \<Rightarrow> bool" where
  "kids_post \<rho> A es = (\<lambda>(xs, vs). list_all2 (good \<rho> A) es xs \<and> visited_ok \<rho> A vs)"

lemmas posts = visit_post_def kind_post_def read_post_def kids_post_def

lemma returns_case: "returns m P \<Longrightarrow> (\<And>x y. m = Some (x, y) \<Longrightarrow> P (x, y) \<Longrightarrow> returns (f x y) Q) \<Longrightarrow> returns (m \<bind> (\<lambda>(x, y). f x y)) Q"
  by (cases m) auto

lemma evalRead_null_ok:
  assumes "assigns \<rho> A" "wf_array a" "fits (arr_domain a) i" "visited_ok \<rho> A vs"
  shows "returns (evalRead A a NullNode i vs) (read_post \<rho> A a NullNode i)"
proof (cases "isConstantArray a \<and> nat i < arr_size a")
  case True
  then have "wf_const (constantValues a ! nat i) \<and> ce_width (constantValues a ! nat i) = arr_range a"
    using assms(2) by (auto simp: wf_array_def isConstantArray_def list_all_length)
  then show ?thesis using True assms(4) by (simp add: evalRead.simps posts initial_read_def)
next
  case False
  then show ?thesis using evaluate_read_good [OF assms(1-3)] assms(4) by (auto simp: evalRead.simps posts elim!: returnsE)
qed

lemma evalRead_update_ok:
  assumes a: "wf_array a" "wf_unode a (UpdateNode n ix v)" "arr_domain a \<le> 32" "fits (arr_domain a) i"
    and ui: "visit A ix vs = Some (ui, vs')" "good \<rho> A ix ui" "visited_ok \<rho> A vs'"
    and v: "\<And>c. ui = ConstantExpr c \<Longrightarrow> ce_value c = i \<Longrightarrow> returns (visit A v vs') (visit_post \<rho> A v)"
    and n: "\<And>c. ui = ConstantExpr c \<Longrightarrow> ce_value c \<noteq> i \<Longrightarrow> returns (evalRead A a n i vs') (read_post \<rho> A a n i)"
  shows "returns (evalRead A a (UpdateNode n ix v) i vs) (read_post \<rho> A a (UpdateNode n ix v) i)"
proof (cases "is_ConstantExpr ui")
  case True
  then obtain c where c: "ui = ConstantExpr c" by (auto simp: is_ConstantExpr_iff)
  then have z: "ce_width c \<le> 64" "eval \<rho> ix = ce_value c" using ui(2) a by (auto simp: good_def)
  show ?thesis
  proof (cases "ce_value c = i")
    case True
    then show ?thesis
      using v [OF c] ui c z a(2) by (auto simp: evalRead.simps ce_getZExtValue_def posts good_def elim!: returnsE)
  next
    case False
    then show ?thesis using n [OF c] ui c z by (auto simp: evalRead.simps ce_getZExtValue_def posts elim!: returnsE)
  qed
next
  case False
  let ?i = "ConstantExpr (ce_alloc i (arr_domain a))"
  have g: "\<not> grounded \<rho> A ix" using ui(2) False by (simp add: good_def)
  have "0 < arr_domain a" using a(1) by (simp add: wf_array_def)
  then have "returns (create_ReadExpr a (UpdateNode n ix v) ?i)
      (\<lambda>x. wf_expr x \<and> getWidth x = arr_range a \<and> eval \<rho> x = eval_read \<rho> a (UpdateNode n ix v) i)"
    using create_ReadExpr_sound [of a "UpdateNode n ix v" ?i] a
    by (auto simp: denotes_def ce_alloc_def wf_const_def elim!: returns_mono)
  then show ?thesis using ui False g by (cases ui) (auto simp: evalRead.simps posts elim!: returnsE)
qed

lemma visitKind_read_ok:
  assumes e: "e = ReadExpr sn a us ix" "wf_expr e" "arr_domain a \<le> 32"
    and v: "visit A ix vs = Some (v, vs')" "good \<rho> A ix v" "visited_ok \<rho> A vs'"
    and r: "\<And>c. v = ConstantExpr c \<Longrightarrow> fits (arr_domain a) (ce_value c) \<Longrightarrow> ce_getZExtValue c 64 = Some (ce_value c)
      \<Longrightarrow> take_bit 32 (ce_value c) = ce_value c \<Longrightarrow> returns (evalRead A a us (ce_value c) vs') (read_post \<rho> A a us (ce_value c))"
  shows "returns (visitKind A e vs) (kind_post \<rho> A e)"
proof (cases "is_ConstantExpr v")
  case True
  then obtain c where c: "v = ConstantExpr c" by (auto simp: is_ConstantExpr_iff)
  have d: "fits (arr_domain a) (ce_value c)" "eval \<rho> ix = ce_value c" "ce_getZExtValue c 64 = Some (ce_value c)"
    using v(2) c e by (auto simp: good_def wf_const_def ce_getZExtValue_def)
  then have t: "take_bit 32 (ce_value c) = ce_value c" using e(3) by (meson fits_mono take_bit_fits)
  show ?thesis using r [OF c d(1,3) t] e v c d t by (auto simp: visitKind.simps posts good_def elim!: returnsE)
next
  case False
  then have "\<not> grounded \<rho> A ix" using v(2) by (simp add: good_def)
  then show ?thesis using e v False by (cases v) (auto simp: visitKind.simps posts)
qed

lemma visitKind_div_ok:
  assumes e: "e = BinaryExpr k l r" "div_kind k" "wf_expr e" "evaluable \<rho> e" "\<not> list_all is_ConstantExpr (kids e)"
    and l: "visit A l vs = Some (l', vs')" "good \<rho> A l l'"
    and r: "visit A r vs' = Some (r', vs'')" "good \<rho> A r r'" "visited_ok \<rho> A vs''"
  shows "returns (visitKind A e vs) (kind_post \<rho> A e)"
proof -
  have nz: "(case r' of ConstantExpr c \<Rightarrow> if ce_isZero c then r else r' | _ \<Rightarrow> r') = r'"
    using r(2) e by (cases r') (auto simp: good_def ce_isZero_def)
  obtain x where x: "rebuild e [l', r'] = Some x" "good \<rho> A e x"
    using rebuild_good [of e \<rho> A "[l', r']"] e l(2) r(2) by (auto simp: good_def elim!: returnsE)
  have "good \<rho> A e e" if "expr_eq l' l" "expr_eq r' r"
    using that good_constants [of \<rho> A "[l, r]" "[l', r']"] eq_constants [of "[l', r']" "[l, r]"] l(2) r(2) e
    by (auto intro: good_refl)
  then show ?thesis using e l r nz x by (auto simp: visitKind.simps Let_def posts)
qed

lemma visitActual_ok:
  assumes e: "\<not> is_ConstantExpr e" "wf_expr e" "evaluable \<rho> e" "visited_ok \<rho> A vs"
    and k: "visitExpr e = Some DoChildren \<Longrightarrow> getKind e = Read \<or> \<not> list_all is_ConstantExpr (kids e)
      \<Longrightarrow> returns (visitKind A e vs) (kind_post \<rho> A e)"
    and ks: "\<And>vs'. visitExpr e = Some DoChildren \<Longrightarrow> visitKind A e vs = Some (DoChildren, vs') \<Longrightarrow> visited_ok \<rho> A vs'
      \<Longrightarrow> returns (visit_kids A (kids e) vs') (kids_post \<rho> A (kids e))"
  shows "returns (visitActual A e vs) (visit_post \<rho> A e)"
proof -
  obtain act where act: "visitExpr e = Some act" "case act of ChangeTo x \<Rightarrow> good \<rho> A e x | SkipChildren \<Rightarrow> False
      | DoChildren \<Rightarrow> getKind e = Read \<or> \<not> list_all is_ConstantExpr (kids e)"
    using visitExpr_good [OF e(2,1,3), of A] by (rule returnsE)
  show ?thesis
  proof (cases act)
    case DoChildren
    obtain act' vs' where kd: "visitKind A e vs = Some (act', vs')" "kind_post \<rho> A e (act', vs')"
      using k act DoChildren by (auto elim!: returnsE)
    show ?thesis
    proof (cases act')
      case DoChildren': DoChildren
      then obtain xs vs'' where xs: "visit_kids A (kids e) vs' = Some (xs, vs'')" "list_all2 (good \<rho> A) (kids e) xs" "visited_ok \<rho> A vs''"
        using ks [of vs'] act(1) DoChildren kd by (auto simp: posts elim!: returnsE)
      obtain x where "rebuild_kids e xs = Some x" "good \<rho> A e x"
        using rebuild_kids_good [OF e(2,1,3) xs(2)] kd(2) act(2) DoChildren DoChildren' by (auto simp: posts elim!: returnsE)
      then show ?thesis using e(1) act(1) DoChildren kd(1) DoChildren' xs by (simp add: visitActual.simps [of A e] posts)
    qed (use e(1) act(1) DoChildren kd in \<open>simp_all add: visitActual.simps [of A e] posts\<close>)
  qed (use e(1,4) act in \<open>simp_all add: visitActual.simps [of A e] posts\<close>)
qed

lemma visit_ok:
  "\<lbrakk>assigns \<rho> A; wf_expr e; evaluable \<rho> e; visited_ok \<rho> A vs\<rbrakk> \<Longrightarrow> returns (visit A e vs) (visit_post \<rho> A e)"
  "\<lbrakk>assigns \<rho> A; wf_expr e; evaluable \<rho> e; visited_ok \<rho> A vs\<rbrakk> \<Longrightarrow> returns (visitActual A e vs) (visit_post \<rho> A e)"
  "\<lbrakk>assigns \<rho> A; wf_expr e; getKind e = Read \<or> \<not> list_all is_ConstantExpr (kids e); evaluable \<rho> e; visited_ok \<rho> A vs\<rbrakk>
    \<Longrightarrow> returns (visitKind A e vs) (kind_post \<rho> A e)"
  "\<lbrakk>assigns \<rho> A; wf_array a; arr_domain a \<le> 32; wf_unode a us; evaluable_node \<rho> us; fits (arr_domain a) i; visited_ok \<rho> A vs\<rbrakk>
    \<Longrightarrow> returns (evalRead A a us i vs) (read_post \<rho> A a us i)"
  "\<lbrakk>assigns \<rho> A; list_all wf_expr es; list_all (evaluable \<rho>) es; visited_ok \<rho> A vs\<rbrakk> \<Longrightarrow> returns (visit_kids A es vs) (kids_post \<rho> A es)"
proof (induction A e vs and A e vs and A e vs and A a us i vs and A es vs rule: visit_visitActual_visitKind_evalRead_visit_kids.induct)
  case (1 A e vs)
  then show ?case using visited_find_good [of \<rho> A vs e]
    by (cases "visited_find vs e") (auto simp: visit.simps [of A e] posts visited_insert_ok elim!: returnsE)
next
  case (2 A e vs)
  show ?case
  proof (cases "is_ConstantExpr e")
    case False
    then show ?thesis using 2 wf_kids evaluable_kids by (intro visitActual_ok) auto
  qed (use "2.prems" in \<open>simp add: visitActual.simps posts good_refl\<close>)
next
  case (3 A e vs)
  show ?case
  proof (cases e)
    case (ReadExpr sn a us ix)
    then obtain v vs' where v: "visit A ix vs = Some (v, vs')" "good \<rho> A ix v" "visited_ok \<rho> A vs'"
      using "3.IH"(1) [OF ReadExpr] "3.prems" by (auto simp: posts elim!: returnsE)
    have "returns (evalRead A a us (ce_value c) vs') (read_post \<rho> A a us (ce_value c))"
      if "v = ConstantExpr c" "fits (arr_domain a) (ce_value c)" "ce_getZExtValue c 64 = Some (ce_value c)" "take_bit 32 (ce_value c) = ce_value c" for c
      using "3.IH"(2) [OF ReadExpr v(1) refl that(1,3)] that "3.prems" ReadExpr v(3) by simp
    then show ?thesis using "3.prems" ReadExpr by (intro visitKind_read_ok [OF ReadExpr _ _ v]) auto
  next
    case (BinaryExpr k l r)
    show ?thesis
    proof (cases "div_kind k")
      case True
      obtain l' vs' where l: "visit A l vs = Some (l', vs')" "good \<rho> A l l'" "visited_ok \<rho> A vs'"
        using "3.IH"(3) [OF BinaryExpr True] "3.prems" BinaryExpr by (auto simp: posts elim!: returnsE)
      obtain r' vs'' where r: "visit A r vs' = Some (r', vs'')" "good \<rho> A r r'" "visited_ok \<rho> A vs''"
        using "3.IH"(4) [OF BinaryExpr True l(1) refl] "3.prems" BinaryExpr l(3) by (auto simp: posts elim!: returnsE)
      show ?thesis using "3.prems" BinaryExpr by (intro visitKind_div_ok [OF BinaryExpr True _ _ _ l(1,2) r]) auto
    qed (use BinaryExpr "3.prems" in \<open>simp add: visitKind.simps posts\<close>)
  qed (use "3.prems" in \<open>simp_all add: visitKind.simps posts\<close>)
next
  case (4 A a i vs)
  then show ?case by (intro evalRead_null_ok)
next
  case (5 A a n ix v i vs)
  obtain ui vs' where ui: "visit A ix vs = Some (ui, vs')" "good \<rho> A ix ui" "visited_ok \<rho> A vs'"
    using "5.IH"(1) "5.prems" by (auto simp: posts elim!: returnsE)
  have z: "ce_getZExtValue c 64 = Some (ce_value c)" if "ui = ConstantExpr c" for c
    using ui(2) that "5.prems"(3,4) by (auto simp: good_def ce_getZExtValue_def)
  show ?case
    by (rule evalRead_update_ok [OF _ _ _ _ ui]) (use 5 ui z in auto)
next
  case (7 A k ks vs)
  obtain x vs' where x: "visit A k vs = Some (x, vs')" "good \<rho> A k x" "visited_ok \<rho> A vs'"
    using "7.IH"(1) "7.prems" by (auto simp: posts elim!: returnsE)
  then have "returns (visit_kids A ks vs') (kids_post \<rho> A ks)" using "7.IH"(2) [OF x(1) refl] "7.prems" by simp
  then show ?case using x by (auto simp: visit_kids.simps posts elim!: returnsE)
qed (simp add: visit_kids.simps posts)


lemma satisfies_ok:
  assumes "assigns \<rho> A" "list_all (\<lambda>e. wf_expr e \<and> getWidth e = 1 \<and> evaluable \<rho> e \<and> grounded \<rho> A e) es" "visited_ok \<rho> A vs"
  shows "satisfies A es vs = Some (list_all (\<lambda>e. eval \<rho> e = 1) es)"
  using assms(2,3)
proof (induction es arbitrary: vs)
  case (Cons e es)
  then obtain x vs' where x: "visit A e vs = Some (x, vs')" "good \<rho> A e x" "visited_ok \<rho> A vs'"
    using visit_ok(1) [OF assms(1), of e vs] by (auto simp: posts elim!: returnsE)
  then obtain c where "x = ConstantExpr c" using Cons.prems by (auto simp: good_def is_ConstantExpr_iff)
  then show ?case using Cons x by (auto simp: good_def expr_isTrue_def ce_isTrue_iff)
qed simp

subsection \<open>Properties\<close>

text \<open>
  \<^bold>\<open>C38.\<close> Evaluation is correct. For every environment that agrees with an assignment, evaluating a well-formed expression none of whose
  divisors is zero there fails no assertion and gives an expression of the same width and value; it is a constant if every byte
  that is read has a value and no \<^verbatim>\<open>NotOptimizedExpr\<close> stands directly over a constant. For such constraints \<^verbatim>\<open>satisfies\<close> says
  whether all of them are true. The results of the visitor are shared through its hash map all along.
\<close>

theorem evaluate_correct:
  assumes "assigns \<rho> A" "list_all (\<lambda>e. wf_expr e \<and> evaluable \<rho> e) es"
  shows "list_all (\<lambda>e. \<exists>x. Assignment_evaluate A e = Some x \<and> wf_expr x \<and> getWidth x = getWidth e \<and> eval \<rho> x = eval \<rho> e
      \<and> (grounded \<rho> A e \<longrightarrow> is_ConstantExpr x)) es
    \<and> (list_all (\<lambda>e. getWidth e = 1 \<and> grounded \<rho> A e) es \<longrightarrow> satisfies A es [] = Some (list_all (\<lambda>e. eval \<rho> e = 1) es))"
proof -
  have v: "visited_ok \<rho> A []" by (simp add: visited_ok_def)
  have "\<exists>x. Assignment_evaluate A e = Some x \<and> good \<rho> A e x" if "e \<in> set es" for e
    using visit_ok(1) [OF assms(1) _ _ v, of e] assms(2) that by (auto simp: list_all_iff Assignment_evaluate_def posts elim!: returnsE)
  moreover have "satisfies A es [] = Some (list_all (\<lambda>e. eval \<rho> e = 1) es)" if "list_all (\<lambda>e. getWidth e = 1 \<and> grounded \<rho> A e) es"
    using that assms(2) by (intro satisfies_ok [OF assms(1) _ v]) (simp add: list_all_iff)
  ultimately show ?thesis by (auto simp: list_all_iff good_def)
qed

definition as_arr :: array where
  "as_arr = \<lparr>arr_addr = 5, arr_name = ''y'', arr_size = 2, arr_domain = 32, arr_range = 8, constantValues = []\<rparr>"

definition as_byte :: expr where
  "as_byte = ReadExpr False as_arr NullNode (ConstantExpr (CE 32 1))"

definition as_test :: expr where
  "as_test = BinaryExpr Eq (ConstantExpr (CE 8 3)) (BinaryExpr UDiv (NotOptimizedExpr as_byte) (ConstantExpr (CE 8 2)))"

definition as_env :: "env" where
  "as_env = \<lparr>env_read = (\<lambda>a i. if a = as_arr \<and> i = 1 then 7 else 0), env_div0 = (\<lambda>_ _ _. 0)\<rparr>"

theorem evaluate_correct_witness:
  "satisfies (new_Assignment [as_arr] [[0, 7]] True) [as_test] [] = Some True"
proof -
  let ?A = "new_Assignment [as_arr] [[0, 7]] True"
  have "assigns as_env ?A"
    by (auto simp: assigns_def new_Assignment_def bind_array_def has_value_def byte_of_def as_env_def less_Suc_eq nth_Cons split: if_splits nat.splits)
  moreover have "list_all (\<lambda>e. wf_expr e \<and> evaluable as_env e) [as_test]"
    by (simp add: as_test_def as_byte_def as_arr_def wf_const_def wf_array_def isSymbolicArray_def fits_def div_kind_def)
  moreover have "list_all (\<lambda>e. getWidth e = 1 \<and> grounded as_env ?A e) [as_test]"
    by (simp add: as_test_def as_byte_def has_value_def new_Assignment_def bind_array_def)
  moreover have "eval as_env as_test = 1"
    by (simp add: as_test_def as_byte_def as_env_def as_arr_def initial_read_def isConstantArray_def isSymbolicArray_def)
  ultimately show ?thesis using evaluate_correct [of as_env ?A "[as_test]"] by simp
qed

text \<open>
  The two conditions are needed. A byte divided by the literal 0 can be built, but its evaluation divides two constants and aborts,
  and a constant under \<^verbatim>\<open>NotOptimizedExpr\<close> is not folded.
\<close>

lemma literal_zero_divisor_aborts:
  "create_UDivExpr as_byte (ConstantExpr (CE 8 0)) = Some (BinaryExpr UDiv as_byte (ConstantExpr (CE 8 0)))
    \<and> Assignment_evaluate (new_Assignment [as_arr] [[0, 7]] False) (BinaryExpr UDiv as_byte (ConstantExpr (CE 8 0))) = None"
proof -
  let ?A = "new_Assignment [as_arr] [[0, 7]] False" and ?e = "BinaryExpr UDiv as_byte (ConstantExpr (CE 8 0))"
  have byte: "visit ?A as_byte [] = Some (ConstantExpr (CE 8 7), [(as_byte, ConstantExpr (CE 8 7))])"
    by (simp add: visit.simps visitActual.simps visitKind.simps evalRead.simps visited_find_def visited_insert_def visitExpr_def as_byte_def
        Assignment_evaluate_read_def new_Assignment_def bind_array_def ce_getZExtValue_def ce_alloc_def as_arr_def isConstantArray_def isSymbolicArray_def)
  have zero: "visit ?A (ConstantExpr (CE 8 0)) vs = Some (ConstantExpr (CE 8 0), vs)" for vs
    by (simp add: visit.simps visitActual.simps)
  have "\<not> expr_eq (ConstantExpr (CE 8 7)) as_byte" by (simp add: expr_eq_def as_byte_def)
  then have "visitKind ?A ?e [] = None"
    by (simp add: visitKind.simps byte zero div_kind_def ce_isZero_def create_UDivExpr_def BCREATE_def fold_const_def)
  moreover have "visitExpr ?e = Some DoChildren" by (simp add: visitExpr_def as_byte_def)
  ultimately have "Assignment_evaluate ?A ?e = None"
    by (simp add: Assignment_evaluate_def visit.simps [of _ ?e] visitActual.simps [of _ ?e] visited_find_def)
  then show ?thesis by (simp add: create_UDivExpr_def BCREATE_def UDivExpr_create_def as_byte_def as_arr_def)
qed

lemma hidden_constant_not_folded:
  "Assignment_evaluate A (NotOptimizedExpr (ConstantExpr c)) = Some (NotOptimizedExpr (ConstantExpr c))"
  by (simp add: Assignment_evaluate_def visit.simps visitActual.simps visited_find_def visitExpr_def create_NotOptimizedExpr_def)

end
