(* ===== verification/Independence.thy ===== *)
theory Independence
  imports SolverChain ExprEvaluator "HOL-Library.AList"
begin

text \<open>
  The independent solver (\<^verbatim>\<open>lib/Solver/IndependentSolver.cpp\<close>): which bytes of which arrays an expression reads (\<^verbatim>\<open>findReads\<close> of
  \<^verbatim>\<open>lib/Expr/ExprUtil.cpp\<close>, \<^verbatim>\<open>IndependentElementSet\<close>), the constraints a query depends on, the factors of a query that share
  no byte, and the solver that passes on only what is needed. A map or set keyed by a pointer to an array is an association list or list keyed by
  the array; where the code iterates over one in the order of addresses, the list is sorted by address.
\<close>

subsection \<open>The reads of an expression\<close>

text \<open>Expressions are pushed on the stack unless they are constant or were visited before.\<close>

definition push_expr :: "expr \<Rightarrow> expr list \<times> expr list \<Rightarrow> expr list \<times> expr list" where
  "push_expr x = (\<lambda>(stack, visited).
     if \<not> is_ConstantExpr x \<and> \<not> list_ex (expr_eq x) visited then (x # stack, x # visited) else (stack, visited))"

fun push_updates :: "unode \<Rightarrow> expr list \<times> expr list \<Rightarrow> expr list \<times> expr list" where
  "push_updates NullNode sv = sv"
| "push_updates (UpdateNode n index v) sv = push_updates n (push_expr v (push_expr index sv))"

definition stack_weight :: "expr list \<times> expr list \<Rightarrow> nat" where
  "stack_weight sv = sum_list (map weight (fst sv))"

lemma stack_weight_push: "stack_weight (push_expr x sv) \<le> stack_weight sv + weight x"
  by (auto simp: push_expr_def stack_weight_def split: prod.splits)

lemma stack_weight_updates: "stack_weight (push_updates us sv) \<le> stack_weight sv + weight_node us"
proof (induction us sv rule: push_updates.induct)
  case (2 n index v sv)
  then show ?case
    using stack_weight_push [of index sv] stack_weight_push [of v "push_expr index sv"] by simp
qed simp

lemma stack_weight_kids: "stack_weight (fold push_expr ks sv) \<le> stack_weight sv + sum_list (map weight ks)"
proof (induction ks arbitrary: sv)
  case (Cons k ks)
  from Cons.IH [of "push_expr k sv"] stack_weight_push [of k sv] show ?case by simp
qed simp

definition expand :: "bool \<Rightarrow> expr \<Rightarrow> expr list \<times> expr list \<Rightarrow> unode list \<Rightarrow> (expr list \<times> expr list) \<times> unode list" where
  "expand visitUpdates tp sv upds =
     (case tp of
        ReadExpr _ _ head index \<Rightarrow>
          let sv = push_expr index sv in
          if visitUpdates \<and> head \<notin> set upds then (push_updates head sv, head # upds) else (sv, upds)
      | _ \<Rightarrow> (fold push_expr (kids tp) sv, upds))"

lemma expand_weight: "stack_weight (fst (expand vu tp sv upds)) < stack_weight sv + weight tp"
proof (cases "\<exists>s a us i. tp = ReadExpr s a us i")
  case True
  then obtain s a us i where tp: "tp = ReadExpr s a us i" by blast
  from stack_weight_push [of i sv] stack_weight_updates [of us "push_expr i sv"]
  show ?thesis by (simp add: tp expand_def Let_def)
next
  case False
  then have "fst (expand vu tp sv upds) = fold push_expr (kids tp) sv" by (cases tp) (simp_all add: expand_def)
  then show ?thesis using stack_weight_kids [of "kids tp" sv] weight_kids [of tp] by simp
qed

lemma expand_less:
  "((st, vis), u) = expand vu tp (stack, visited) upds \<Longrightarrow> sum_list (map weight st) < weight tp + sum_list (map weight stack)"
  using expand_weight [of vu tp "(stack, visited)" upds] by (simp add: stack_weight_def) (metis add.commute fst_conv)

function findReads_loop :: "bool \<Rightarrow> expr list \<Rightarrow> expr list \<Rightarrow> unode list \<Rightarrow> expr list \<Rightarrow> expr list" where
  "findReads_loop vu [] visited upds results = results"
| "findReads_loop vu (tp # stack) visited upds results =
     (let ((stack, visited), upds) = expand vu tp (stack, visited) upds in
      findReads_loop vu stack visited upds (if getKind tp = Read then results @ [tp] else results))"
  by pat_completeness auto

termination
  by (relation "measure (\<lambda>(vu, stack, _). sum_list (map weight stack))") (auto intro: expand_less)

definition findReads :: "expr \<Rightarrow> bool \<Rightarrow> expr list" where
  "findReads e visitUpdates = (let start = (if is_ConstantExpr e then [] else [e]) in findReads_loop visitUpdates start start [] [])"


subsection \<open>Sets of array elements\<close>

text \<open>\<^verbatim>\<open>DenseSet\<close>.\<close>

definition DenseSet_add :: "nat list \<Rightarrow> nat list \<Rightarrow> bool \<times> nat list" where
  "DenseSet_add b s = fold (\<lambda>x (modified, s). if modified \<or> x \<notin> set s then (True, List.insert x s) else (modified, s)) b (False, s)"

definition DenseSet_intersects :: "nat list \<Rightarrow> nat list \<Rightarrow> bool" where
  "DenseSet_intersects s b = list_ex (\<lambda>x. x \<in> set b) s"

text \<open>\<^verbatim>\<open>IndependentElementSet\<close>.\<close>

record element_set =
  elements :: "(array \<times> nat list) list"
  wholeObjects :: "array list"
  ies_exprs :: "expr list"

definition elements_at :: "element_set \<Rightarrow> array \<Rightarrow> nat list" where
  "elements_at s a = (case map_of (elements s) a of Some is \<Rightarrow> is | None \<Rightarrow> [])"

fun note_read :: "expr \<Rightarrow> element_set \<Rightarrow> element_set option" where
  "note_read (ReadExpr _ array head index) s =
     (if isConstantArray array \<and> head = NullNode then Some s
      else if array \<in> set (wholeObjects s) then Some s
      else case index of
        ConstantExpr c \<Rightarrow>
          do { i \<leftarrow> ce_getZExtValue c 32;
               Some (s\<lparr>elements := AList.update array (List.insert (nat i) (elements_at s array)) (elements s)\<rparr>) }
      | _ \<Rightarrow> Some (s\<lparr>elements := AList.delete array (elements s), wholeObjects := List.insert array (wholeObjects s)\<rparr>))"
| "note_read _ s = Some s"

definition new_element_set :: "expr \<Rightarrow> element_set option" where
  "new_element_set e = fold_abort note_read (findReads e True) \<lparr>elements = [], wholeObjects = [], ies_exprs = [e]\<rparr>"

definition ies_intersects :: "element_set \<Rightarrow> element_set \<Rightarrow> bool" where
  "ies_intersects s b \<longleftrightarrow>
     list_ex (\<lambda>a. a \<in> set (wholeObjects b) \<or> map_of (elements b) a \<noteq> None) (wholeObjects s)
   \<or> list_ex (\<lambda>(a, is). a \<in> set (wholeObjects b)
       \<or> (case map_of (elements b) a of Some is' \<Rightarrow> DenseSet_intersects is is' | None \<Rightarrow> False)) (elements s)"

definition add_whole :: "array \<Rightarrow> bool \<times> element_set \<Rightarrow> bool \<times> element_set" where
  "add_whole a = (\<lambda>(modified, s).
     if map_of (elements s) a \<noteq> None
     then (True, s\<lparr>elements := AList.delete a (elements s), wholeObjects := List.insert a (wholeObjects s)\<rparr>)
     else if a \<notin> set (wholeObjects s) then (True, s\<lparr>wholeObjects := List.insert a (wholeObjects s)\<rparr>)
     else (modified, s))"

definition add_elements :: "array \<times> nat list \<Rightarrow> bool \<times> element_set \<Rightarrow> bool \<times> element_set" where
  "add_elements = (\<lambda>(a, is) (modified, s).
     if a \<in> set (wholeObjects s) then (modified, s)
     else case map_of (elements s) a of
       None \<Rightarrow> (True, s\<lparr>elements := AList.update a is (elements s)\<rparr>)
     | Some is0 \<Rightarrow>
         let (m, is1) = DenseSet_add is is0 in (modified \<or> m, s\<lparr>elements := AList.update a is1 (elements s)\<rparr>))"

definition ies_add :: "element_set \<Rightarrow> element_set \<Rightarrow> bool \<times> element_set" where
  "ies_add s b = fold add_elements (elements b) (fold add_whole (wholeObjects b) (False, s\<lparr>ies_exprs := ies_exprs s @ ies_exprs b\<rparr>))"

subsection \<open>The constraints a query depends on\<close>

text \<open>One round over the worklist: whether the closure grew, the closure, the constraints taken, the rest.\<close>

fun slice_pass :: "(expr \<times> element_set) list \<Rightarrow> element_set \<Rightarrow> bool \<times> element_set \<times> expr list \<times> (expr \<times> element_set) list" where
  "slice_pass [] closure = (False, closure, [], [])"
| "slice_pass ((c, s) # worklist) closure =
     (if ies_intersects s closure
      then let (m, closure) = ies_add closure s;
               (m', closure, result, rest) = slice_pass worklist closure
           in (m \<or> m', closure, c # result, rest)
      else let (m', closure, result, rest) = slice_pass worklist closure
           in (m', closure, result, (c, s) # rest))"

lemma slice_pass_shrinks:
  "slice_pass worklist closure = (m, closure', result, rest) \<Longrightarrow> length result + length rest = length worklist \<and> (m \<longrightarrow> result \<noteq> [])"
  by (induction worklist closure arbitrary: m closure' result rest rule: slice_pass.induct) (auto simp: Let_def split: if_splits prod.splits)

function slice_loop :: "(expr \<times> element_set) list \<Rightarrow> element_set \<Rightarrow> expr list \<Rightarrow> element_set \<times> expr list" where
  "slice_loop worklist closure result =
     (let (m, closure, taken, rest) = slice_pass worklist closure in
      if m then slice_loop rest closure (result @ taken) else (closure, result @ taken))"
  by pat_completeness auto

termination
  by (relation "measure (\<lambda>(worklist, _). length worklist)") (auto dest!: slice_pass_shrinks [OF sym] simp: neq_Nil_conv)

declare slice_loop.simps [simp del]

fun element_sets :: "expr list \<Rightarrow> (expr \<times> element_set) list option" where
  "element_sets [] = Some []"
| "element_sets (c # cs) = do { s \<leftarrow> new_element_set c; rest \<leftarrow> element_sets cs; Some ((c, s) # rest) }"

definition getIndependentConstraints :: "query \<Rightarrow> (element_set \<times> expr list) option" where
  "getIndependentConstraints q =
     do { closure \<leftarrow> new_element_set (q_expr q); worklist \<leftarrow> element_sets (q_constraints q); Some (slice_loop worklist closure []) }"

subsection \<open>Truth, validity and values\<close>

definition required_query :: "query \<Rightarrow> query option" where
  "required_query q = do { (closure, required) \<leftarrow> getIndependentConstraints q; Some \<lparr>q_constraints = required, q_expr = q_expr q\<rparr> }"

definition Independent_computeValidity :: "'s solver_impl \<Rightarrow> query \<Rightarrow> 's \<Rightarrow> ('s, validity) answer" where
  "Independent_computeValidity S q s = do { q \<leftarrow> required_query q; computeValidity S q s }"

definition Independent_computeTruth :: "'s solver_impl \<Rightarrow> query \<Rightarrow> 's \<Rightarrow> ('s, bool) answer" where
  "Independent_computeTruth S q s = do { q \<leftarrow> required_query q; computeTruth S q s }"

definition Independent_computeValue :: "'s solver_impl \<Rightarrow> query \<Rightarrow> 's \<Rightarrow> ('s, expr) answer" where
  "Independent_computeValue S q s = do { q \<leftarrow> required_query q; computeValue S q s }"


subsection \<open>Factors\<close>

text \<open>The inner loop: \<open>current\<close> absorbs the factors it intersects and keeps the others.\<close>

fun absorb :: "element_set \<Rightarrow> element_set list \<Rightarrow> bool \<times> element_set \<times> element_set list" where
  "absorb current [] = (False, current, [])"
| "absorb current (other # factors) =
     (if ies_intersects current other
      then let (m, current) = ies_add current other;
               (m', current, keep) = absorb current factors
           in (m \<or> m', current, keep)
      else let (m', current, keep) = absorb current factors
           in (m', current, other # keep))"

lemma absorb_shrinks:
  "absorb current factors = (m, current', keep) \<Longrightarrow> length keep \<le> length factors \<and> (m \<longrightarrow> length keep < length factors)"
  by (induction factors arbitrary: current m current' keep) (fastforce simp: Let_def split: if_splits prod.splits)+

function factor_pass :: "element_set list \<Rightarrow> bool \<times> element_set list" where
  "factor_pass [] = (False, [])"
| "factor_pass (current # factors) =
     (let (m, current, keep) = absorb current factors; (m', rest) = factor_pass keep in (m \<or> m', current # rest))"
  by pat_completeness auto

termination
  by (relation "measure length") (auto dest!: absorb_shrinks [OF sym])

lemma factor_pass_shrinks:
  "factor_pass factors = (m, rest) \<Longrightarrow> length rest \<le> length factors \<and> (m \<longrightarrow> length rest < length factors)"
proof (induction factors arbitrary: m rest rule: factor_pass.induct)
  case (2 current factors)
  obtain m1 cur keep where a: "absorb current factors = (m1, cur, keep)" by (cases "absorb current factors")
  obtain m2 rest2 where f: "factor_pass keep = (m2, rest2)" by (cases "factor_pass keep")
  show ?case using "2.prems" "2.IH" [OF a [symmetric] refl refl f] absorb_shrinks [OF a] a f by auto
qed simp

function factor_loop :: "element_set list \<Rightarrow> element_set list" where
  "factor_loop factors = (let (m, rest) = factor_pass factors in if m then factor_loop rest else rest)"
  by pat_completeness auto

termination
  by (relation "measure length") (auto dest!: factor_pass_shrinks [OF sym])

declare factor_loop.simps [simp del]

definition getAllIndependentConstraintsSets :: "query \<Rightarrow> element_set list option" where
  "getAllIndependentConstraintsSets q =
     do { first \<leftarrow> (case q_expr q of
            ConstantExpr c \<Rightarrow> do { assert_that (ce_isFalse c); Some [] }
          | _ \<Rightarrow> do { neg \<leftarrow> createIsZero (q_expr q); s \<leftarrow> new_element_set neg; Some [s] });
          sets \<leftarrow> element_sets (q_constraints q);
          Some (factor_loop (first @ map snd sets)) }"

definition calculateArrayReferences :: "element_set \<Rightarrow> array list" where
  "calculateArrayReferences ie = sort_key arr_addr (remdups (map fst (elements ie) @ wholeObjects ie))"

subsection \<open>Initial values\<close>

text \<open>The answer for one array of a factor goes into the map of answers; only the factor's own elements replace what is there.\<close>

definition merge_values :: "element_set \<Rightarrow> array \<times> int list \<Rightarrow> (array \<times> int list) list \<Rightarrow> (array \<times> int list) list option" where
  "merge_values factor = (\<lambda>(a, values) retMap.
     case map_of retMap a of
       Some tempPtr \<Rightarrow>
         do { assert_that (length tempPtr = length values);
              new \<leftarrow> fold_abort (\<lambda>index t. do { assert_that (index < length t); Some (t[index := values ! index]) }) (elements_at factor a) tempPtr;
              Some (AList.update a new retMap) }
     | None \<Rightarrow> Some (AList.update a values retMap))"

text \<open>The loop over the factors: the solver failed, found no solution, or the map of answers.\<close>

fun solve_factors :: "'s solver_impl \<Rightarrow> element_set list \<Rightarrow> (array \<times> int list) list \<Rightarrow> 's \<Rightarrow> ('s, (array \<times> int list) list option) answer" where
  "solve_factors S [] retMap s = Some (Some (Some retMap), s)"
| "solve_factors S (factor # factors) retMap s =
     do { assert_that (ies_exprs factor \<noteq> []);
          let arraysInFactor = calculateArrayReferences factor;
          if arraysInFactor = [] then solve_factors S factors retMap s
          else do { (r, s) \<leftarrow> computeInitialValues S \<lparr>q_constraints = ies_exprs factor, q_expr = ConstantExpr (ce_alloc 0 1)\<rparr> arraysInFactor s;
                    case r of
                      None \<Rightarrow> Some (None, s)
                    | Some (tempValues, hasSolution) \<Rightarrow>
                        if \<not> hasSolution then Some (Some None, s)
                        else do { assert_that (length tempValues = length arraysInFactor);
                                  retMap \<leftarrow> fold_abort (merge_values factor) (zip arraysInFactor tempValues) retMap;
                                  solve_factors S factors retMap s } } }"

definition values_of :: "(array \<times> int list) list \<Rightarrow> array \<Rightarrow> int list" where
  "values_of retMap a = (case map_of retMap a of Some v \<Rightarrow> v | None \<Rightarrow> replicate (arr_size a) 0)"

fun constraints_hold :: "assignment \<Rightarrow> expr list \<Rightarrow> bool option" where
  "constraints_hold A [] = Some True"
| "constraints_hold A (c # cs) =
     do { ret \<leftarrow> Assignment_evaluate A c;
          case ret of
            ConstantExpr k \<Rightarrow> if ce_isFalse k then Some False else constraints_hold A cs
          | _ \<Rightarrow> None }"

definition assertCreatedPointEvaluatesToTrue :: "query \<Rightarrow> array list \<Rightarrow> int list list \<Rightarrow> (array \<times> int list) list \<Rightarrow> bool option" where
  "assertCreatedPointEvaluatesToTrue q objects values retMap =
     do { let A = new_Assignment objects values True;
          let A = A\<lparr>as_bindings := fold bind_array retMap (as_bindings A)\<rparr>;
          b \<leftarrow> constraints_hold A (q_constraints q);
          if \<not> b then Some False
          else do { neg \<leftarrow> createIsZero (q_expr q);
                    r \<leftarrow> Assignment_evaluate A neg;
                    case r of ConstantExpr k \<Rightarrow> Some (ce_isTrue k) | _ \<Rightarrow> None } }"

definition Independent_computeInitialValues ::
    "'s solver_impl \<Rightarrow> query \<Rightarrow> array list \<Rightarrow> 's \<Rightarrow> ('s, int list list \<times> bool) answer" where
  "Independent_computeInitialValues S q objects s =
     do { factors \<leftarrow> getAllIndependentConstraintsSets q;
          (r, s) \<leftarrow> solve_factors S factors [] s;
          case r of
            None \<Rightarrow> Some (None, s)
          | Some None \<Rightarrow> Some (Some ([], False), s)
          | Some (Some retMap) \<Rightarrow>
              do { let values = map (values_of retMap) objects;
                   b \<leftarrow> assertCreatedPointEvaluatesToTrue q objects values retMap;
                   assert_that b;
                   Some (Some (values, True), s) } }"

definition IndependentSolver :: "'s solver_impl \<Rightarrow> 's solver_impl" where
  "IndependentSolver S =
     \<lparr>computeTruth = Independent_computeTruth S, computeValidity = Independent_computeValidity S,
      computeValue = Independent_computeValue S, computeInitialValues = Independent_computeInitialValues S\<rparr>"

end
