(* ===== verification/IndependenceSound.thy ===== *)
theory IndependenceSound
  imports Independence
begin

text \<open>
  What the independent solver relies on: the value of an expression depends only on the bytes in its element set, so constraints
  whose sets have nothing in common with those of the query can be left out.
\<close>

subsection \<open>All reads are found\<close>

fun node_exprs :: "unode \<Rightarrow> expr list" where
  "node_exprs NullNode = []"
| "node_exprs (UpdateNode n index v) = index # v # node_exprs n"

definition subs :: "expr \<Rightarrow> expr list" where
  "subs e = kids e @ (case e of ReadExpr _ _ us _ \<Rightarrow> node_exprs us | _ \<Rightarrow> [])"

definition seen :: "expr list \<Rightarrow> expr \<Rightarrow> bool" where
  "seen visited x \<longleftrightarrow> is_ConstantExpr x \<or> list_ex (expr_eq x) visited"

definition found :: "expr list \<Rightarrow> expr list \<Rightarrow> expr \<Rightarrow> bool" where
  "found visited results x \<longleftrightarrow> list_all (seen visited) (subs x) \<and> (getKind x = Read \<longrightarrow> x \<in> set results)"

definition reads_inv :: "expr list \<times> expr list \<Rightarrow> unode list \<Rightarrow> expr list \<Rightarrow> bool" where
  "reads_inv = (\<lambda>(stack, visited) upds results.
     (\<forall>x \<in> set visited. x \<in> set stack \<or> found visited results x) \<and> (\<forall>us \<in> set upds. list_all (seen visited) (node_exprs us)))"

text \<open>Pushing only adds, and what is newly visited is on the stack.\<close>

definition grows :: "expr list \<times> expr list \<Rightarrow> expr list \<times> expr list \<Rightarrow> bool" where
  "grows sv sv' \<longleftrightarrow> set (fst sv) \<subseteq> set (fst sv') \<and> set (snd sv) \<subseteq> set (snd sv') \<and> set (snd sv') \<subseteq> set (snd sv) \<union> set (fst sv')"

lemma grows_trans: "grows a b \<Longrightarrow> grows b c \<Longrightarrow> grows a c"
  by (auto simp: grows_def)

lemma seen_mono: "seen v x \<Longrightarrow> set v \<subseteq> set v' \<Longrightarrow> seen v' x"
  by (auto simp: seen_def list_ex_iff)

lemma push_expr_grows: "grows sv (push_expr x sv)" "seen (snd (push_expr x sv)) x"
  by (auto simp: push_expr_def seen_def grows_def split: prod.splits)

lemma push_list_grows: "grows sv (fold push_expr xs sv) \<and> list_all (seen (snd (fold push_expr xs sv))) xs"
proof (induction xs arbitrary: sv)
  case (Cons x xs)
  from Cons.IH [of "push_expr x sv"] push_expr_grows [where sv = sv and x = x] show ?case
    by (auto intro: grows_trans seen_mono simp: grows_def)
qed (simp add: grows_def)

lemma push_updates_fold: "push_updates us sv = fold push_expr (node_exprs us) sv"
  by (induction us sv rule: push_updates.induct) simp_all

lemma expand_grows:
  assumes "expand True tp sv upds = (sv', upds')" "\<forall>us \<in> set upds. list_all (seen (snd sv)) (node_exprs us)"
  shows "grows sv sv'" "list_all (seen (snd sv')) (subs tp)" "\<forall>us \<in> set upds'. list_all (seen (snd sv')) (node_exprs us)"
proof -
  have m: "\<forall>us \<in> set upds. list_all (seen (snd sv')) (node_exprs us)" if "grows sv sv'"
    using assms(2) that seen_mono by (fastforce simp: grows_def list_all_iff)
  have "grows sv sv' \<and> list_all (seen (snd sv')) (subs tp) \<and> (\<forall>us \<in> set upds'. list_all (seen (snd sv')) (node_exprs us))"
  proof (cases "\<exists>s a us i. tp = ReadExpr s a us i")
    case True
    then obtain s a us i where tp: "tp = ReadExpr s a us i" by blast
    show ?thesis
    proof (cases "us \<in> set upds")
      case True
      then show ?thesis using assms(1) m push_expr_grows [where sv = sv and x = i] by (auto simp: tp expand_def subs_def)
    next
      case False
      then have "sv' = fold push_expr (i # node_exprs us) sv" "upds' = us # upds" using assms(1) by (auto simp: tp expand_def push_updates_fold)
      then show ?thesis using push_list_grows [of sv "i # node_exprs us"] m by (simp add: tp subs_def)
    qed
  next
    case False
    then have "sv' = fold push_expr (kids tp) sv" "upds' = upds" "subs tp = kids tp"
      using assms(1) by (cases tp; auto simp: expand_def subs_def)+
    then show ?thesis using push_list_grows [of sv "kids tp"] m by simp
  qed
  then show "grows sv sv'" "list_all (seen (snd sv')) (subs tp)" "\<forall>us \<in> set upds'. list_all (seen (snd sv')) (node_exprs us)" by auto
qed

lemma findReads_loop_found:
  assumes "reads_inv (stack, visited) upds results"
  shows "\<exists>V. set visited \<subseteq> set V \<and> (\<forall>x \<in> set V. found V (findReads_loop True stack visited upds results) x)"
  using assms
proof (induction True stack visited upds results rule: findReads_loop.induct)
  case (1 visited upds results)
  then show ?case by (auto simp: reads_inv_def)
next
  case (2 tp stack visited upds results)
  let ?r = "if getKind tp = Read then results @ [tp] else results"
  obtain st vis u where e: "expand True tp (stack, visited) upds = ((st, vis), u)" by (cases "expand True tp (stack, visited) upds") auto
  have inv: "\<forall>x \<in> set visited. x \<in> set (tp # stack) \<or> found visited results x" "\<forall>us \<in> set upds. list_all (seen visited) (node_exprs us)"
    using "2.prems" by (simp_all add: reads_inv_def)
  note g = expand_grows [OF e, simplified, OF inv(2)]
  have "found vis ?r x" if "x \<in> set vis" "x \<notin> set st" for x
  proof (cases "x = tp")
    case True
    then show ?thesis using g(2) by (simp add: found_def)
  next
    case False
    then have "x \<in> set visited" "x \<notin> set (tp # stack)" using that g(1) by (auto simp: grows_def)
    then have "found visited results x" using inv(1) by blast
    then show ?thesis using g(1) seen_mono by (fastforce simp: found_def list_all_iff grows_def)
  qed
  then have "\<forall>x \<in> set vis. x \<in> set st \<or> found vis ?r x" by blast
  then have "reads_inv (st, vis) u ?r" using g(3) by (simp add: reads_inv_def)
  from "2.hyps" [OF e [symmetric] refl refl this] obtain V where "set vis \<subseteq> set V" "\<forall>x \<in> set V. found V (findReads_loop True st vis u ?r) x"
    by blast
  then show ?case using g(1) e by (intro exI [of _ V]) (auto simp: grows_def)
qed

lemma findReads_found:
  obtains V where "seen V e" "\<forall>x \<in> set V. found V (findReads e True) x"
proof -
  let ?s = "if is_ConstantExpr e then [] else [e]"
  have "reads_inv (?s, ?s) [] []" by (simp add: reads_inv_def)
  from findReads_loop_found [OF this] obtain V where V: "set ?s \<subseteq> set V" "\<forall>x \<in> set V. found V (findReads e True) x"
    by (auto simp: findReads_def Let_def)
  have "seen V e" using V(1) by (auto simp: seen_def list_ex_iff intro: expr_eq_refl split: if_splits)
  then show thesis using V(2) that by blast
qed


text \<open>The reads found are parts of the expression.\<close>

lemma push_list_all: "list_all P (fst sv) \<Longrightarrow> list_all P xs \<Longrightarrow> list_all P (fst (fold push_expr xs sv))"
  by (induction xs arbitrary: sv) (auto simp: push_expr_def split: prod.splits)

lemma expand_all:
  assumes "list_all P (subs tp)" "list_all P (fst sv)"
  shows "list_all P (fst (fst (expand vu tp sv upds)))"
proof (cases "\<exists>s a us i. tp = ReadExpr s a us i")
  case True
  then obtain s a us i where tp: "tp = ReadExpr s a us i" by blast
  show ?thesis using assms push_list_all [of P sv "[i]"] push_list_all [of P sv "i # node_exprs us"]
    by (simp add: tp expand_def subs_def Let_def push_updates_fold)
next
  case False
  then have "fst (expand vu tp sv upds) = fold push_expr (kids tp) sv" "subs tp = kids tp" by (cases tp; simp add: expand_def subs_def)+
  then show ?thesis using assms push_list_all by simp
qed

lemma findReads_loop_all:
  assumes "\<And>x. P x \<Longrightarrow> list_all P (subs x)"
  shows "list_all P stack \<Longrightarrow> list_all P results \<Longrightarrow> list_all P (findReads_loop vu stack visited upds results)"
proof (induction vu stack visited upds results rule: findReads_loop.induct)
  case (2 vu tp stack visited upds results)
  obtain st vis u where e: "expand vu tp (stack, visited) upds = ((st, vis), u)" by (cases "expand vu tp (stack, visited) upds") auto
  have "list_all P st" using expand_all [of P tp "(stack, visited)" vu upds] "2.prems" assms e by simp
  then show ?case using "2.IH" [OF e [symmetric] refl refl] "2.prems" e by simp
qed simp

lemma findReads_all: "(\<And>x. P x \<Longrightarrow> list_all P (subs x)) \<Longrightarrow> P e \<Longrightarrow> list_all P (findReads e vu)"
  using findReads_loop_all [of P] by (simp add: findReads_def Let_def)

subsection \<open>The element set of an expression\<close>

definition covers :: "element_set \<Rightarrow> array \<Rightarrow> nat \<Rightarrow> bool" where
  "covers s a i \<longleftrightarrow> a \<in> set (wholeObjects s) \<or> i \<in> set (elements_at s a)"

definition noted :: "element_set \<Rightarrow> expr \<Rightarrow> bool" where
  "noted s x \<longleftrightarrow> (case x of ReadExpr _ a us i \<Rightarrow> isConstantArray a \<and> us = NullNode \<or> a \<in> set (wholeObjects s)
     \<or> (\<exists>c. i = ConstantExpr c \<and> nat (ce_value c) \<in> set (elements_at s a)) | _ \<Rightarrow> True)"

lemma elements_at_update [simp]:
  "elements_at (s\<lparr>elements := AList.update b is (elements s)\<rparr>) a = (if a = b then is else elements_at s a)"
  by (simp add: elements_at_def update_conv)

lemma elements_at_delete [simp]:
  "elements_at (s\<lparr>elements := AList.delete b (elements s), wholeObjects := w\<rparr>) a = (if a = b then [] else elements_at s a)"
  by (simp add: elements_at_def delete_conv)

text \<open>Expressions whose indices fit into 32 bits.\<close>

definition narrow :: "expr \<Rightarrow> bool" where
  "narrow e \<longleftrightarrow> wf_expr e \<and> (\<forall>a \<in> arrays e. arr_domain a \<le> 32)"

lemma narrow_node: "wf_unode a us \<Longrightarrow> \<forall>b \<in> unode_arrays us. arr_domain b \<le> 32 \<Longrightarrow> list_all narrow (node_exprs us)"
  by (induction us rule: node_exprs.induct) (auto simp: narrow_def)

lemma narrow_subs: "narrow x \<Longrightarrow> list_all narrow (subs x)"
  using narrow_node by (cases x) (auto simp: subs_def narrow_def)

lemma note_read_noted:
  assumes "narrow x"
  shows "returns (note_read x s) (\<lambda>s'. noted s' x \<and> (\<forall>y. noted s y \<longrightarrow> noted s' y) \<and> ies_exprs s' = ies_exprs s)"
proof (cases "\<exists>sn a us i. x = ReadExpr sn a us i")
  case True
  then obtain sn a us i where x: "x = ReadExpr sn a us i" by blast
  have d: "ce_getZExtValue c 32 = Some (ce_value c)" if "i = ConstantExpr c" for c
    using assms that by (auto simp: x narrow_def ce_getZExtValue_def)
  show ?thesis
    by (cases i) (auto simp: x d noted_def split: expr.splits)
next
  case False
  then show ?thesis by (cases x) (auto simp: noted_def)
qed

lemma new_element_set_noted:
  assumes "narrow e"
  shows "returns (new_element_set e) (\<lambda>s. list_all (noted s) (findReads e True) \<and> ies_exprs s = [e])"
proof -
  have n: "list_all narrow (findReads e True)" using narrow_subs assms by (rule findReads_all)
  have "returns (fold_abort note_read (findReads e True) \<lparr>elements = [], wholeObjects = [], ies_exprs = [e]\<rparr>)
      (\<lambda>s. list_all (noted s) (findReads e True) \<and> ies_exprs s = [e])"
  proof (rule returns_fold_abort [where I = "\<lambda>xs s. list_all (noted s) xs \<and> ies_exprs s = [e]"])
    fix ys x and s :: element_set assume "set (ys @ [x]) \<subseteq> set (findReads e True)" "list_all (noted s) ys \<and> ies_exprs s = [e]"
    then show "returns (note_read x s) (\<lambda>s'. list_all (noted s') (ys @ [x]) \<and> ies_exprs s' = [e])"
      using note_read_noted [of x s] n by (auto simp: list_all_iff elim!: returns_mono)
  qed simp
  then show ?thesis by (simp add: new_element_set_def)
qed


subsection \<open>Locality\<close>

text \<open>
  Two environments that agree on the bytes in \<open>M\<close>, on divisions by zero and on reads beyond the end of constant arrays.
\<close>

definition alike :: "(array \<Rightarrow> nat \<Rightarrow> bool) \<Rightarrow> env \<Rightarrow> env \<Rightarrow> bool" where
  "alike M \<rho> \<sigma> \<longleftrightarrow> env_div0 \<rho> = env_div0 \<sigma> \<and> (\<forall>a i. isConstantArray a \<or> M a i \<longrightarrow> env_read \<rho> a i = env_read \<sigma> a i)"

lemma node_exprs_erase: "node_exprs (erase_node us) = map erase (node_exprs us)"
  by (induction us rule: node_exprs.induct) simp_all

lemma subs_erase: "subs (erase x) = map erase (subs x)"
  by (cases x) (simp_all add: subs_def node_exprs_erase)

lemma seen_erase: "seen V (erase x) = seen V x"
proof -
  have "erase (erase x) = erase x" "erase_node (erase_node n) = erase_node n" for n by (induction x and n) simp_all
  then show ?thesis by (simp add: seen_def expr_eq_def list_ex_iff)
qed

lemma seen_subs_erase: "list_all (seen V) (subs (erase x)) = list_all (seen V) (subs x)"
  by (simp add: subs_erase list_all_iff seen_erase)

lemma noted_erase: "noted s (erase x) = noted s x"
proof -
  have "(\<exists>c. erase i = ConstantExpr c \<and> P c) = (\<exists>c. i = ConstantExpr c \<and> P c)" for i P by (cases i) simp_all
  moreover have "erase_node us = NullNode \<longleftrightarrow> us = NullNode" for us by (cases us) simp_all
  ultimately show ?thesis by (cases x) (simp_all add: noted_def)
qed

lemma seen_cases:
  assumes V: "\<forall>x \<in> set V. found V R x" "list_all (noted s) R" and x: "seen V x" "\<not> is_ConstantExpr x"
  shows "list_all (seen V) (subs x)" "noted s x"
proof -
  obtain z where z: "z \<in> set V" "erase x = erase z" using x by (auto simp: seen_def list_ex_iff expr_eq_def)
  then have f: "found V R z" using V(1) by blast
  then show "list_all (seen V) (subs x)" using z(2) seen_subs_erase by (metis found_def)
  have "getKind z \<noteq> Read \<Longrightarrow> noted s z" by (cases z) (simp_all add: noted_def)
  then have "noted s z" using f V(2) by (auto simp: found_def list_all_iff)
  then show "noted s x" using z(2) noted_erase by metis
qed

lemma eval_alike:
  assumes V: "\<forall>x \<in> set V. found V R x" "list_all (noted s) R" and al: "alike (covers s) \<rho> \<sigma>"
  shows "seen V e \<Longrightarrow> eval \<rho> e = eval \<sigma> e"
    "list_all (seen V) (node_exprs us) \<Longrightarrow> initial_read \<rho> a i = initial_read \<sigma> a i \<Longrightarrow> eval_read \<rho> a us i = eval_read \<sigma> a us i"
proof (induction e and us arbitrary: and a i)
  case (ReadExpr sn a us ix)
  note c = seen_cases [OF V ReadExpr.prems, simplified]
  have ix: "eval \<rho> ix = eval \<sigma> ix" using ReadExpr.IH(2) c(1) by (simp add: subs_def)
  have "initial_read \<rho> a (eval \<sigma> ix) = initial_read \<sigma> a (eval \<sigma> ix)"
    using c(2) al ix by (auto simp: noted_def alike_def covers_def initial_read_def)
  then show ?case using ReadExpr.IH(1) c(1) ix by (simp add: subs_def)
next
  case (BinaryExpr k l r)
  then have "eval \<rho> l = eval \<sigma> l" "eval \<rho> r = eval \<sigma> r" using seen_cases(1) [OF V BinaryExpr.prems] by (simp_all add: subs_def)
  then show ?case using al by (cases k) (simp_all add: alike_def)
qed (auto simp: subs_def dest!: seen_cases(1) [OF V])

text \<open>The value of an expression depends only on the bytes in its element set.\<close>

lemma new_element_set_local:
  assumes "narrow e"
  shows "returns (new_element_set e) (\<lambda>s. ies_exprs s = [e] \<and> (\<forall>\<rho> \<sigma>. alike (covers s) \<rho> \<sigma> \<longrightarrow> eval \<rho> e = eval \<sigma> e))"
  using new_element_set_noted [OF assms]
proof (rule returns_mono)
  fix s assume n: "list_all (noted s) (findReads e True) \<and> ies_exprs s = [e]"
  obtain V where "seen V e" "\<forall>x \<in> set V. found V (findReads e True) x" by (rule findReads_found)
  then show "ies_exprs s = [e] \<and> (\<forall>\<rho> \<sigma>. alike (covers s) \<rho> \<sigma> \<longrightarrow> eval \<rho> e = eval \<sigma> e)"
    using eval_alike(1) [of V "findReads e True" s] n by blast
qed


subsection \<open>Adding and intersecting\<close>

definition refs :: "element_set \<Rightarrow> array set" where
  "refs s = dom (map_of (elements s)) \<union> set (wholeObjects s)"

definition same_elements :: "element_set \<Rightarrow> element_set \<Rightarrow> bool" where
  "same_elements s s' \<longleftrightarrow> set (wholeObjects s') = set (wholeObjects s) \<and> map_of (elements s') = map_of (elements s)"

text \<open>One step of \<^verbatim>\<open>add\<close>: the set grows, and it stays as it is if it is not reported as modified.\<close>

definition extends :: "bool \<times> element_set \<Rightarrow> bool \<times> element_set \<Rightarrow> bool" where
  "extends = (\<lambda>(m, s) (m', s'). (m \<longrightarrow> m') \<and> (\<forall>a i. covers s a i \<longrightarrow> covers s' a i) \<and> (\<not> m' \<longrightarrow> same_elements s s') \<and> ies_exprs s' = ies_exprs s)"

lemma extends_refl [simp]: "extends p p"
  by (auto simp: extends_def same_elements_def)

lemma extends_trans: "extends p q \<Longrightarrow> extends q r \<Longrightarrow> extends p r"
  by (auto simp: extends_def same_elements_def)

lemma DenseSet_add_eq: "set (snd (DenseSet_add b s)) = set s \<union> set b" "\<not> fst (DenseSet_add b s) \<Longrightarrow> snd (DenseSet_add b s) = s"
proof -
  let ?f = "\<lambda>x (modified, s). if modified \<or> x \<notin> set s then (True, List.insert x s) else (modified, s)"
  have "set (snd (fold ?f b (m, s))) = set s \<union> set b \<and> (m \<longrightarrow> fst (fold ?f b (m, s))) \<and> (\<not> fst (fold ?f b (m, s)) \<longrightarrow> snd (fold ?f b (m, s)) = s)" for m
  proof (induction b arbitrary: m s)
    case (Cons x b)
    from Cons.IH [of True "List.insert x s"] Cons.IH [of m s] show ?case by auto
  qed simp
  from this [of False] show "set (snd (DenseSet_add b s)) = set s \<union> set b" "\<not> fst (DenseSet_add b s) \<Longrightarrow> snd (DenseSet_add b s) = s"
    by (auto simp: DenseSet_add_def)
qed

lemma add_whole_extends: "extends p (add_whole a p)" "a \<in> set (wholeObjects (snd (add_whole a p)))"
  by (auto simp: add_whole_def extends_def same_elements_def covers_def elements_at_def delete_conv split: prod.splits option.splits)

lemma add_elements_extends: "extends p (add_elements (a, js) p) \<and> (\<forall>i \<in> set js. covers (snd (add_elements (a, js) p)) a i)"
proof -
  obtain m s where p: "p = (m, s)" by fastforce
  show ?thesis
  proof (cases "a \<in> set (wholeObjects s)")
    case True
    then show ?thesis by (simp add: p add_elements_def covers_def)
  next
    case False
    show ?thesis
    proof (cases "map_of (elements s) a")
      case None
      then show ?thesis using False
        by (auto simp: p add_elements_def extends_def same_elements_def covers_def elements_at_def update_conv)
    next
      case (Some js0)
      obtain m1 js1 where d: "DenseSet_add js js0 = (m1, js1)" by fastforce
      then have "set js1 = set js0 \<union> set js" "\<not> m1 \<Longrightarrow> js1 = js0" using DenseSet_add_eq [of js js0] by simp_all
      then show ?thesis using False Some d
        by (auto simp: p add_elements_def extends_def same_elements_def covers_def elements_at_def update_conv fun_upd_idem)
    qed
  qed
qed

lemma fold_whole_extends:
  "extends p (fold add_whole ws p) \<and> (\<forall>a \<in> set ws. \<forall>i. covers (snd (fold add_whole ws p)) a i)"
proof (induction ws arbitrary: p)
  case (Cons a ws)
  have "covers (snd (add_whole a p)) a i" for i using add_whole_extends(2) by (simp add: covers_def)
  then show ?case using Cons.IH [of "add_whole a p"] add_whole_extends(1) [of p a] extends_trans
    by (auto simp: extends_def split: prod.splits) 
qed simp

lemma fold_elements_extends:
  "extends p (fold add_elements es p) \<and> (\<forall>(a, is) \<in> set es. \<forall>i \<in> set is. covers (snd (fold add_elements es p)) a i)"
proof (induction es arbitrary: p)
  case (Cons e es)
  obtain a js where e: "e = (a, js)" by fastforce
  from Cons.IH [of "add_elements e p"] add_elements_extends [of p a js] show ?case
    unfolding e by (auto simp: extends_def same_elements_def split: prod.splits)
qed simp

lemma elements_at_Some: "i \<in> set (elements_at s a) \<longleftrightarrow> (\<exists>js. map_of (elements s) a = Some js \<and> i \<in> set js)"
  by (cases "map_of (elements s) a") (simp_all add: elements_at_def)

lemma ies_add_extends:
  assumes "ies_add s b = (m, s')"
  shows "covers s a i \<or> covers b a i \<Longrightarrow> covers s' a i" "\<not> m \<Longrightarrow> same_elements s s'" "ies_exprs s' = ies_exprs s @ ies_exprs b"
proof -
  let ?s = "s\<lparr>ies_exprs := ies_exprs s @ ies_exprs b\<rparr>"
  let ?p = "fold add_whole (wholeObjects b) (False, ?s)"
  note w = fold_whole_extends [of "(False, ?s)" "wholeObjects b"] and e = fold_elements_extends [of ?p "elements b"]
  have q: "fold add_elements (elements b) ?p = (m, s')" using assms by (simp add: ies_add_def)
  have x: "extends (False, ?s) (m, s')" using extends_trans [OF w [THEN conjunct1] e [THEN conjunct1]] by (simp only: q)
  have same: "covers ?s = covers s" by (intro ext) (simp add: covers_def elements_at_def)
  show "\<not> m \<Longrightarrow> same_elements s s'" "ies_exprs s' = ies_exprs s @ ies_exprs b" using x by (simp_all add: extends_def same_elements_def)
  assume c: "covers s a i \<or> covers b a i"
  consider "covers s a i" | "a \<in> set (wholeObjects b)" | js where "(a, js) \<in> set (elements b)" "i \<in> set js"
    using c by (auto simp: covers_def elements_at_Some dest: map_of_SomeD)
  then show "covers s' a i"
  proof cases
    case 2
    then have "covers (snd ?p) a i" using w by blast
    then show ?thesis using e q by (auto simp: extends_def split: prod.splits)
  qed (use x same e q in \<open>auto simp: extends_def\<close>)
qed

lemma not_intersects:
  assumes "\<not> ies_intersects s b"
  shows "a \<in> set (wholeObjects s) \<Longrightarrow> a \<notin> refs b" "map_of (elements s) a = Some js \<Longrightarrow> a \<notin> set (wholeObjects b)"
    "map_of (elements s) a = Some js \<Longrightarrow> i \<in> set js \<Longrightarrow> i \<notin> set (elements_at b a)"
proof -
  show "a \<in> set (wholeObjects s) \<Longrightarrow> a \<notin> refs b" using assms by (auto simp: ies_intersects_def list_ex_iff refs_def)
  assume "map_of (elements s) a = Some js"
  then have m: "(a, js) \<in> set (elements s)" by (rule map_of_SomeD)
  then show "a \<notin> set (wholeObjects b)" using assms by (fastforce simp: ies_intersects_def list_ex_iff)
  show "i \<notin> set (elements_at b a)" if "i \<in> set js"
    using assms m that by (fastforce simp: ies_intersects_def list_ex_iff elements_at_Some DenseSet_intersects_def)
qed

lemma not_intersects_disjoint: "\<not> ies_intersects s b \<Longrightarrow> covers s a i \<Longrightarrow> \<not> covers b a i"
  using not_intersects [of s b a] by (auto simp: covers_def elements_at_Some refs_def)

lemma same_elements_covers: "same_elements s s' \<Longrightarrow> covers s' = covers s"
  by (intro ext) (simp add: same_elements_def covers_def elements_at_def)


subsection \<open>Slicing\<close>

definition local_set :: "expr \<Rightarrow> element_set \<Rightarrow> bool" where
  "local_set e s \<longleftrightarrow> ies_exprs s = [e] \<and> (\<forall>\<rho> \<sigma>. alike (covers s) \<rho> \<sigma> \<longrightarrow> eval \<rho> e = eval \<sigma> e)"

lemma element_sets_local:
  "list_all narrow cs \<Longrightarrow> returns (element_sets cs) (\<lambda>wl. map fst wl = cs \<and> list_all (\<lambda>(c, s). local_set c s) wl)"
proof (induction cs)
  case (Cons c cs)
  then obtain s wl where "new_element_set c = Some s" "local_set c s" "element_sets cs = Some wl" "map fst wl = cs" "list_all (\<lambda>(c, s). local_set c s) wl"
    using new_element_set_local [of c] by (auto simp: local_set_def elim!: returnsE)
  then show ?case by simp
qed simp

definition within :: "element_set \<Rightarrow> element_set \<Rightarrow> bool" where
  "within s s' \<longleftrightarrow> (\<forall>a i. covers s a i \<longrightarrow> covers s' a i)"

definition apart :: "element_set \<Rightarrow> element_set \<Rightarrow> bool" where
  "apart s s' \<longleftrightarrow> (\<forall>a i. covers s a i \<longrightarrow> \<not> covers s' a i)"

lemma within_refl [simp]: "within s s"
  by (simp add: within_def)

lemma within_trans: "within a b \<Longrightarrow> within b c \<Longrightarrow> within a c"
  by (simp add: within_def)

text \<open>What a round does: the worklist is split into what is inside the closure and a rest that is apart from it once it has stopped growing.\<close>

definition sliced :: "(expr \<times> element_set) list \<Rightarrow> element_set \<Rightarrow> element_set \<Rightarrow> expr list \<Rightarrow> (expr \<times> element_set) list \<Rightarrow> bool" where
  "sliced wl clo clo' taken rest \<longleftrightarrow> fst ` set wl = set taken \<union> fst ` set rest \<and> set rest \<subseteq> set wl \<and> within clo clo'
     \<and> (\<forall>c \<in> set taken. \<exists>s. (c, s) \<in> set wl \<and> within s clo')"

lemma sliced_trans:
  assumes "sliced wl clo clo1 taken1 rest1" "sliced rest1 clo1 clo2 taken2 rest2"
  shows "sliced wl clo clo2 (taken1 @ taken2) rest2"
  unfolding sliced_def
proof (intro conjI ballI)
  fix c assume "c \<in> set (taken1 @ taken2)"
  then show "\<exists>s. (c, s) \<in> set wl \<and> within s clo2" using assms within_trans unfolding sliced_def set_append by (metis Un_iff subsetD)
qed (use assms within_trans in \<open>auto simp: sliced_def\<close>)

lemma sliced_take:
  assumes "sliced wl clo1 clo' taken rest" "within clo clo1" "within s clo1"
  shows "sliced ((c, s) # wl) clo clo' (c # taken) rest"
proof -
  have w: "within clo clo'" "within s clo'" using assms within_trans by (auto simp: sliced_def)
  show ?thesis
    unfolding sliced_def
  proof (intro conjI ballI)
    fix x assume "x \<in> set (c # taken)"
    then show "\<exists>y. (x, y) \<in> set ((c, s) # wl) \<and> within y clo'" using w(2) assms(1) by (auto simp: sliced_def)
  qed (use w assms(1) in \<open>auto simp: sliced_def\<close>)
qed

lemma slice_pass_sliced:
  "slice_pass wl clo = (m, clo', taken, rest) \<Longrightarrow> sliced wl clo clo' taken rest \<and> (\<not> m \<longrightarrow> covers clo' = covers clo \<and> (\<forall>(c, s) \<in> set rest. apart s clo'))"
proof (induction wl arbitrary: clo m clo' taken rest)
  case (Cons cs wl)
  obtain c s where cs: "cs = (c, s)" by fastforce
  show ?case
  proof (cases "ies_intersects s clo")
    case True
    obtain m1 clo1 where a: "ies_add clo s = (m1, clo1)" by fastforce
    obtain m2 taken2 where p: "slice_pass wl clo1 = (m2, clo', taken2, rest)" "m = (m1 \<or> m2)" "taken = c # taken2"
      using Cons.prems True a by (auto simp: cs Let_def split: prod.splits)
    have "within clo clo1" "within s clo1" using ies_add_extends(1) [OF a] by (simp_all add: within_def)
    moreover have "\<not> m1 \<Longrightarrow> covers clo1 = covers clo" using ies_add_extends(2) [OF a] same_elements_covers by blast
    ultimately show ?thesis using Cons.IH [OF p(1)] p(2,3) by (auto simp: cs intro: sliced_take)
  next
    case False
    obtain rest2 where p: "slice_pass wl clo = (m, clo', taken, rest2)" "rest = (c, s) # rest2"
      using Cons.prems False by (auto simp: cs Let_def split: prod.splits)
    have "apart s clo" using not_intersects_disjoint [OF False] by (auto simp: apart_def)
    then show ?thesis using Cons.IH [OF p(1)] p(2) unfolding sliced_def cs apart_def by (auto 0 4)
  qed
qed (simp add: sliced_def)

lemma slice_loop_sliced:
  "\<exists>clo' taken rest. slice_loop wl clo acc = (clo', acc @ taken) \<and> sliced wl clo clo' taken rest \<and> (\<forall>(c, s) \<in> set rest. apart s clo')"
proof (induction wl clo acc rule: slice_loop.induct)
  case (1 wl clo acc)
  obtain m clo1 taken1 rest1 where p: "slice_pass wl clo = (m, clo1, taken1, rest1)" by (cases "slice_pass wl clo") auto
  note s1 = slice_pass_sliced [OF p]
  show ?case
  proof (cases m)
    case True
    obtain clo2 taken2 rest2 where "slice_loop rest1 clo1 (acc @ taken1) = (clo2, (acc @ taken1) @ taken2)"
        "sliced rest1 clo1 clo2 taken2 rest2" "\<forall>(c, s) \<in> set rest2. apart s clo2"
      using "1.IH" [OF p [symmetric] refl refl refl True] by blast
    note l = this
    have "sliced wl clo clo2 (taken1 @ taken2) rest2" by (rule sliced_trans [OF s1 [THEN conjunct1] l(2)])
    then show ?thesis using l True p by (intro exI [of _ clo2] exI [of _ "taken1 @ taken2"] exI [of _ rest2]) (simp add: slice_loop.simps [of wl])
  next
    case False
    then show ?thesis using s1 p by (auto simp: slice_loop.simps [of wl])
  qed
qed

subsection \<open>Mixing environments\<close>

definition mix :: "(array \<Rightarrow> nat \<Rightarrow> bool) \<Rightarrow> env \<Rightarrow> env \<Rightarrow> env" where
  "mix M \<rho> \<sigma> = \<lparr>env_read = \<lambda>a i. if M a i then env_read \<rho> a i else env_read \<sigma> a i, env_div0 = env_div0 \<rho>\<rparr>"

text \<open>
  The assignments differ only in what symbolic arrays hold, and every byte can be chosen on its own.
\<close>

definition mixable :: "env set \<Rightarrow> bool" where
  "mixable E \<longleftrightarrow> (\<forall>\<rho> \<in> E. \<forall>\<sigma> \<in> E. alike (\<lambda>_ _. False) \<rho> \<sigma> \<and> (\<forall>M. mix M \<rho> \<sigma> \<in> E))"

lemma mix_alike:
  assumes "mixable E" "\<rho> \<in> E" "\<sigma> \<in> E"
  shows "(\<And>a i. N a i \<Longrightarrow> M a i) \<Longrightarrow> alike N (mix M \<rho> \<sigma>) \<rho>" "(\<And>a i. N a i \<Longrightarrow> \<not> M a i) \<Longrightarrow> alike N (mix M \<rho> \<sigma>) \<sigma>"
proof -
  have d: "alike (\<lambda>_ _. False) \<rho> \<sigma>" using assms by (simp add: mixable_def)
  show "(\<And>a i. N a i \<Longrightarrow> M a i) \<Longrightarrow> alike N (mix M \<rho> \<sigma>) \<rho>" using d by (simp add: alike_def mix_def)
  show "(\<And>a i. N a i \<Longrightarrow> \<not> M a i) \<Longrightarrow> alike N (mix M \<rho> \<sigma>) \<sigma>" using d by (simp add: alike_def mix_def)
qed

lemma required_query_correct:
  assumes n: "list_all narrow (q_constraints q)" "narrow (q_expr q)" and E: "mixable E" "models E (q_constraints q) \<noteq> {}"
  shows "returns (required_query q) (\<lambda>q'. q_expr q' = q_expr q \<and> set (q_constraints q') \<subseteq> set (q_constraints q)
    \<and> (\<forall>\<rho> \<in> models E (q_constraints q'). \<exists>\<tau> \<in> models E (q_constraints q). eval \<tau> (q_expr q) = eval \<rho> (q_expr q)))"
proof -
  obtain clo0 where c0: "new_element_set (q_expr q) = Some clo0" "local_set (q_expr q) clo0"
    using new_element_set_local [OF n(2)] by (auto simp: local_set_def elim!: returnsE)
  obtain wl where wl: "element_sets (q_constraints q) = Some wl" "map fst wl = q_constraints q" "list_all (\<lambda>(c, s). local_set c s) wl"
    using element_sets_local [OF n(1)] by (auto elim!: returnsE)
  obtain clo R rest where sl: "slice_loop wl clo0 [] = (clo, R)" "sliced wl clo0 clo R rest" "\<forall>(c, s) \<in> set rest. apart s clo"
    using slice_loop_sliced [of wl clo0 "[]"] by auto
  have cs: "set (q_constraints q) = set R \<union> fst ` set rest" using sl(2) wl(2) by (metis list.set_map sliced_def)
  obtain \<sigma> where \<sigma>: "\<sigma> \<in> models E (q_constraints q)" using E(2) by blast
  have "\<exists>\<tau> \<in> models E (q_constraints q). eval \<tau> (q_expr q) = eval \<rho> (q_expr q)" if \<rho>: "\<rho> \<in> models E R" for \<rho>
  proof -
    let ?\<tau> = "mix (covers clo) \<rho> \<sigma>"
    have in_E: "\<rho> \<in> E" "\<sigma> \<in> E" using \<rho> \<sigma> by (auto simp: models_def)
    note al = mix_alike [OF E(1) in_E]
    have kept: "eval ?\<tau> c = eval \<rho> c" if "local_set c s" "within s clo" for c s
      using that al(1) [of "covers s" "covers clo"] by (auto simp: local_set_def within_def)
    have "eval ?\<tau> c = 1" if c: "c \<in> set R" for c
    proof -
      obtain s where "(c, s) \<in> set wl" "within s clo" using sl(2) c unfolding sliced_def by blast
      then show ?thesis using kept [of c s] wl(3) \<rho> c by (auto simp: list_all_iff models_def)
    qed
    moreover have "eval ?\<tau> c = 1" if "(c, s) \<in> set rest" for c s
    proof -
      have "(c, s) \<in> set wl" "apart s clo" using that sl(2,3) unfolding sliced_def by auto
      moreover have "c \<in> set (q_constraints q)" using cs that by force
      moreover have "local_set c s" using wl(3) calculation(1) by (auto simp: list_all_iff)
      ultimately show ?thesis using al(2) [of "covers s" "covers clo"] \<sigma> by (auto simp: local_set_def apart_def models_def)
    qed
    ultimately have "\<forall>c \<in> set (q_constraints q). eval ?\<tau> c = 1" using cs by auto
    moreover have "?\<tau> \<in> E" using E(1) in_E by (simp add: mixable_def)
    moreover have "eval ?\<tau> (q_expr q) = eval \<rho> (q_expr q)" using kept c0(2) sl(2) by (auto simp: sliced_def)
    ultimately show ?thesis by (auto simp: models_def)
  qed
  then show ?thesis using c0(1) wl(1) sl(1) cs by (simp add: required_query_def getIndependentConstraints_def)
qed


subsection \<open>The answers to a sliced query\<close>

definition narrow_query :: "query \<Rightarrow> bool" where
  "narrow_query q \<longleftrightarrow> list_all narrow (q_constraints q) \<and> narrow (q_expr q)"

lemma required_query_answers:
  assumes "narrow_query q" "wf_query E q" "mixable E"
  obtains q' where "required_query q = Some q'" "q_expr q' = q_expr q" "wf_query E q'" "entails E q' = entails E q" "refutes E q' = refutes E q"
    "\<And>e. feasible E q' e \<Longrightarrow> feasible E q e"
proof -
  obtain q' where q': "required_query q = Some q'" "q_expr q' = q_expr q" "set (q_constraints q') \<subseteq> set (q_constraints q)"
      "\<forall>\<rho> \<in> models E (q_constraints q'). \<exists>\<tau> \<in> models E (q_constraints q). eval \<tau> (q_expr q) = eval \<rho> (q_expr q)"
    using required_query_correct [of q E] assms by (auto simp: narrow_query_def wf_query_def elim!: returnsE)
  have m: "models E (q_constraints q) \<subseteq> models E (q_constraints q')" using q'(3) by (auto simp: models_def)
  have "wf_query E q'" using assms(2) q'(2,3) m by (auto simp: wf_query_def)
  moreover have "(\<forall>\<rho> \<in> models E (q_constraints q'). eval \<rho> (q_expr q) = v) = (\<forall>\<rho> \<in> models E (q_constraints q). eval \<rho> (q_expr q) = v)" for v
    using q'(4) m by (metis subsetD)
  then have "entails E q' = entails E q" "refutes E q' = refutes E q" by (simp_all add: entails_def refutes_def q'(2))
  moreover have "feasible E q e" if f: "feasible E q' e" for e
  proof -
    obtain c where c: "e = ConstantExpr c" using f by (cases e) (auto simp: feasible_def)
    then show ?thesis using f q'(2,4) by (auto simp: feasible_def) metis
  qed
  ultimately show thesis using that q'(1,2) by blast
qed


locale independent_solver = base: total_solver E S ok for E and S :: "'s solver_impl" and ok +
  assumes mixable: "mixable E"
begin

lemma truth_kept:
  assumes "ok s" "narrow_query q" "bool_query E q"
  shows "\<exists>s'. computeTruth (IndependentSolver S) q s = Some (Some (entails E q), s') \<and> ok s'"
proof -
  have w: "wf_query E q" "getWidth (q_expr q) = 1" using assms(3) by (simp_all add: bool_query_def)
  obtain q' where q': "required_query q = Some q'" "q_expr q' = q_expr q" "wf_query E q'" "entails E q' = entails E q"
    using required_query_answers [OF assms(2) w(1) mixable] by metis
  then have b: "bool_query E q'" using w(2) by (simp add: bool_query_def)
  obtain s' where "computeTruth S q' s = Some (Some (entails E q'), s')" "ok s'"
    using base.truth [OF assms(1) b] base.truth_returns [OF assms(1) b] base.truth_answers [OF assms(1) b] by (auto elim!: right_cases)
  then show ?thesis using q' by (simp add: IndependentSolver_def Independent_computeTruth_def)
qed

lemma validity_kept:
  assumes "ok s" "narrow_query q" "bool_query E q"
  shows "\<exists>s'. computeValidity (IndependentSolver S) q s = Some (Some (the_validity E q), s') \<and> ok s'"
proof -
  have w: "wf_query E q" "getWidth (q_expr q) = 1" using assms(3) by (simp_all add: bool_query_def)
  obtain q' where q': "required_query q = Some q'" "q_expr q' = q_expr q" "wf_query E q'" "entails E q' = entails E q" "refutes E q' = refutes E q"
    using required_query_answers [OF assms(2) w(1) mixable] by metis
  then have b: "bool_query E q'" using w(2) by (simp add: bool_query_def)
  obtain s' where "computeValidity S q' s = Some (Some (the_validity E q'), s')" "ok s'"
    using base.validity [OF assms(1) b] base.validity_returns [OF assms(1) b] base.validity_answers [OF assms(1) b] by (auto elim!: right_cases)
  then show ?thesis using q' by (simp add: IndependentSolver_def Independent_computeValidity_def the_validity_def)
qed

lemma value_kept:
  assumes "ok s" "narrow_query q" "wf_query E q"
  shows "\<exists>r s'. computeValue (IndependentSolver S) q s = Some (r, s') \<and> ok s' \<and> (\<forall>e. r = Some e \<longrightarrow> feasible E q e)"
proof -
  obtain q' where q': "required_query q = Some q'" "wf_query E q'" "\<And>e. feasible E q' e \<Longrightarrow> feasible E q e"
    using required_query_answers [OF assms(2,3) mixable] by metis
  show ?thesis
    using base.a_value [OF assms(1) q'(2)] base.value_returns [OF assms(1) q'(2)] q'
    by (auto simp: IndependentSolver_def Independent_computeValue_def elim!: right_cases)
qed

end

text \<open>
  The set of all assignments is such a set once divisions by zero and reads beyond the end of constant arrays have fixed results.
\<close>

definition corner_envs :: "(bkind \<Rightarrow> nat \<Rightarrow> int \<Rightarrow> int) \<Rightarrow> (array \<Rightarrow> nat \<Rightarrow> int) \<Rightarrow> env set" where
  "corner_envs d c = {\<rho>. env_div0 \<rho> = d \<and> (\<forall>a. isConstantArray a \<longrightarrow> env_read \<rho> a = c a)}"

lemma corner_envs_mixable: "mixable (corner_envs d c)"
  by (auto simp: mixable_def corner_envs_def alike_def mix_def)

definition two_env :: "int \<Rightarrow> env" where
  "two_env v = \<lparr>env_read = (\<lambda>a i. if a = byte_sym \<and> i = 0 then v else 0), env_div0 = (\<lambda>_ _ _. 0)\<rparr>"

lemma two_env_mix: "mix M (two_env v) (two_env w) = two_env (if M byte_sym 0 then v else w)"
  by (auto simp: mix_def two_env_def fun_eq_iff)

lemma two_env_mixable: "mixable (set [two_env 5, two_env 9])"
proof -
  have "alike (\<lambda>_ _. False) (two_env v) (two_env w)" for v w
    by (auto simp: alike_def two_env_def byte_sym_def isConstantArray_def isSymbolicArray_def)
  then show ?thesis by (auto simp: mixable_def two_env_mix)
qed

interpretation sliced_list: independent_solver "set [two_env 5, two_env 9]" "list_solver [two_env 5, two_env 9]" "\<lambda>_. True"
  by unfold_locales (rule two_env_mixable)

subsection \<open>Properties\<close>

text \<open>
  \<^bold>\<open>C39.\<close> Leaving out independent constraints changes no answer. Over a solver that always answers right, for satisfiable constraints, indices of at
  most 32 bits and assignments in which every byte can be chosen on its own, the independent solver finds the reads of all expressions, its
  loop ends, and the answers it passes on (truth, validity, a value) are right for the query with all its constraints.
\<close>

theorem slicing_keeps_answers:
  assumes "total_solver E S ok" "mixable E" "ok s" "narrow_query q"
  shows "(bool_query E q \<longrightarrow> (\<exists>s'. computeTruth (IndependentSolver S) q s = Some (Some (entails E q), s') \<and> ok s'))
    \<and> (bool_query E q \<longrightarrow> (\<exists>s'. computeValidity (IndependentSolver S) q s = Some (Some (the_validity E q), s') \<and> ok s'))
    \<and> (wf_query E q \<longrightarrow> (\<exists>r s'. computeValue (IndependentSolver S) q s = Some (r, s') \<and> ok s' \<and> (\<forall>e. r = Some e \<longrightarrow> feasible E q e)))"
proof -
  have i: "independent_solver E S ok" using assms(1,2) by (intro independent_solver.intro independent_solver_axioms.intro)
  show ?thesis
    using independent_solver.truth_kept [OF i assms(3,4)] independent_solver.validity_kept [OF i assms(3,4)]
      independent_solver.value_kept [OF i assms(3,4)] by blast
qed

definition other_sym :: array where
  "other_sym = \<lparr>arr_addr = 4, arr_name = ''c'', arr_size = 1, arr_domain = 32, arr_range = 8, constantValues = []\<rparr>"

definition sliced_query :: query where
  "sliced_query = \<lparr>q_constraints = [BinaryExpr Eq (ConstantExpr (CE 8 0)) (ReadExpr False other_sym NullNode (ConstantExpr (CE 32 0)))],
     q_expr = BinaryExpr Ult (q_expr byte_query) (ConstantExpr (CE 8 7))\<rparr>"

theorem slicing_keeps_answers_witness:
  "\<exists>s'. computeTruth (IndependentSolver (list_solver [two_env 5, two_env 9])) sliced_query () = Some (Some False, s')"
proof -
  let ?E = "set [two_env 5, two_env 9]"
  have n: "narrow_query sliced_query"
    by (simp add: narrow_query_def narrow_def sliced_query_def byte_query_def byte_sym_def other_sym_def wf_const_def fits_def wf_array_def isSymbolicArray_def)
  have v: "eval (two_env 5) c = 1" "eval (two_env 9) c = 1" if "c \<in> set (q_constraints sliced_query)" for c
    using that by (simp_all add: sliced_query_def two_env_def initial_read_def other_sym_def byte_sym_def isConstantArray_def isSymbolicArray_def)
  have q: "bool_query ?E sliced_query"
    using n v by (auto simp: bool_query_def wf_query_def narrow_query_def narrow_def models_def sliced_query_def)
  have "eval (two_env 9) (q_expr sliced_query) = 0"
    by (simp add: sliced_query_def byte_query_def two_env_def initial_read_def byte_sym_def isConstantArray_def isSymbolicArray_def)
  then have "\<not> entails ?E sliced_query" using v by (auto simp: entails_def models_def)
  then show ?thesis using slicing_keeps_answers [OF listed.total_solver_axioms two_env_mixable TrueI n] q by simp
qed

end
