(* ===== verification/IndependentValues.thy ===== *)
theory IndependentValues
  imports IndependenceSound ExprArrays
begin

text \<open>
  Counterexamples from factors: \<^verbatim>\<open>IndependentSolver::computeInitialValues\<close> splits a query into factors that share no byte, solves them one by one
  and puts the answers together. The factors are separate, the answers merge into one assignment, and the final assertion holds.
\<close>

subsection \<open>Element sets with elements in range\<close>




















subsection \<open>Factors are separate\<close>













subsection \<open>Merging answers\<close>
















subsection \<open>Solving the factors\<close>






subsection \<open>The point satisfies the query\<close>

















subsection \<open>A solver with counterexamples\<close>




subsection \<open>Properties\<close>





end
