(* ===== verification/Spec2Isabelle.thy ===== *)
theory Spec2Isabelle
  imports CacheLeak SpecTerm KTestFile STPQueries ObjectAccess IndependentValues
begin

text \<open>
  KLEESpectre is the symbolic execution engine KLEE extended with speculative execution and a
  symbolic cache. It runs a program on symbolic inputs; at every branch it also runs, for a bounded
  number of instructions (the speculation window), the path a mispredicting processor would run. Expressions
  that depend on a secret carry a sensitivity flag. A memory access whose address is sensitive is
  recorded as a possible Spectre leak, and the symbolic cache decides whether the line it brought
  into the cache can still be there when the program ends.

  \<^bold>\<open>Parts and how they interact.\<close> The executor (\<^verbatim>\<open>src/klee/lib/Core/Executor.cpp\<close>) runs execution states
  (\<^verbatim>\<open>ExecutionState.cpp\<close>) chosen by a searcher (\<^verbatim>\<open>Searcher.cpp\<close>). Values are expressions
  (\<^verbatim>\<open>include/klee/Expr.h\<close>, \<^verbatim>\<open>lib/Expr/Expr.cpp\<close>, \<^verbatim>\<open>Updates.cpp\<close>) built by simplifying constructors. A branch
  forks the state and queues speculative states at it; a memory access goes to an object (\<^verbatim>\<open>Memory.cpp\<close>) and tells the
  recorder (\<^verbatim>\<open>SpectreRecorder.cpp\<close>) and the state's cache (\<^verbatim>\<open>CacheState.cpp\<close>), which uses the
  address arithmetic of \<^verbatim>\<open>CacheUtil.cpp\<close> and again the constructors; a state that ends asks its cache for the
  verdict.

  \<^bold>\<open>Theories.\<close>
  \<^item> \<open>Prelude\<close>: the option monad with assertions, \<open>returns\<close> (a partial operation succeeds with a result
    that satisfies a predicate), shared lemmas. \<open>Ints\<close>: the fixed-width integers of
    \<^verbatim>\<open>llvm::APInt\<close> as \<open>int\<close> with \<open>take_bit\<close> and \<open>signed_take_bit\<close> written out.
  \<^item> \<open>Expr\<close>: the data model of \<^verbatim>\<open>Expr.h\<close>; \<open>ExprSem\<close>: well-formed expressions and their value under an
    assignment of arrays; \<open>ConstExpr\<close>: constant folding; \<open>ExprCreate\<close>: every \<^verbatim>\<open>create\<close> function of
    \<^verbatim>\<open>Expr.cpp\<close>, its partial folds included; \<open>ExprCreateSound\<close>: they return well-formed
    expressions of the right width and value (C1 to C8); \<open>ExprOrder\<close>: hashes and the structural order
    (C9); \<open>Containers\<close>, \<open>ExprArrays\<close>: the maps keyed by expressions and arrays that occur in
    expressions.
  \<^item> \<open>CacheUtil\<close>: sets and tags of addresses, concrete and symbolic; \<open>CacheState\<close>: the symbolic cache;
    \<open>LRU\<close>: the reference, an LRU cache; \<open>CacheSound\<close>, \<open>CacheVerdict\<close>, \<open>CacheRun\<close>: the constraints
    mean what the reference does; \<open>CacheLeak\<close>: the verdict of a whole run (C10), and two accesses the analysis
    mishandles (C11, C12). C10 is about runs without those two accesses; when the constant accesses fill a target's
    cache, the code erases from the map it iterates over, and the model has no result.
  \<^item> \<open>SpectreRecorder\<close>: the recorder, refined to sets of reads and leaking lines (C13, C14).
  \<^item> \<open>SpecExec\<close>: execution states as objects of a heap, forking, queues, windows, memory accesses, switches, calls,
    allocation and the other instructions that fork by themselves (\<^verbatim>\<open>Executor.cpp\<close>, \<^verbatim>\<open>SpecialFunctionHandler.cpp\<close>), ending
    states, the loop of \<^verbatim>\<open>Executor::run\<close>; \<open>SpecInv\<close>, \<open>SpecSafe\<close>, \<open>SpecInner\<close>, \<open>SpecRun\<close>: an invariant of that heap
    and that every operation keeps it; \<open>SpecTerm\<close>: consistency of every reachable state (C15), speculation ends (C16), no
    assertion fails (C17). These hold for runs in which the solver decides the conditions on which the
    instructions of speculative states fork by themselves; otherwise a speculative state without a parent gets
    into the searcher (\<open>internal_fork_escapes\<close>).
  \<^item> \<open>KTestFile\<close>: the test case files of \<^verbatim>\<open>lib/Basic/KTest.cpp\<close>: the round trip (C18), two inputs the code
    mishandles (C19, C20), and exactly which files are accepted and with what result (C21).
  \<^item> \<open>Bits\<close>: the bit tricks of \<^verbatim>\<open>include/klee/util/Bits.h\<close> (C22). \<open>ConstantDivision\<close>: the constants by which
    the solver builders replace multiplications and divisions (\<^verbatim>\<open>lib/Solver/ConstantDivision.cpp\<close>) do so correctly (C23, C24).
  \<^item> \<open>STPBuilder\<close>: the translation of expressions into terms of the solver STP (\<^verbatim>\<open>lib/Solver/STPBuilder.cpp\<close>);
    \<open>STPTerms\<close>: what STP promises of its terms, as a locale, and what the builder's helpers denote; \<open>STPSound\<close>,
    \<open>STPQueries\<close>: the terms built denote the values of the expressions (C25) as long as no address of an update node is
    used again, and three situations in which the builder goes wrong (C26, C27, C28). The address of a node is a
    parameter of every query, because the builder's table of update nodes does not keep them alive.
  \<^item> \<open>ObjectState\<close>: memory objects and their contents (\<^verbatim>\<open>lib/Core/Memory.cpp\<close>, \<^verbatim>\<open>Memory.h\<close>, \<^verbatim>\<open>BitArray.h\<close>,
    \<^verbatim>\<open>ArrayCache.cpp\<close>): the concrete store, the known expressions, the list of updates and the masks that say which of them
    holds a byte; \<open>ObjectSound\<close>: the invariant of an object and what every byte operation does to the bytes it represents;
    \<open>ObjectAccess\<close>: values of several bytes. An object is an array of bytes (C29), what is written is read back (C30), the cache invariants of the source
    hold (C31), the bounds check is exact (C32), and flushing for external calls misses bytes (C33).
  \<^item> \<open>Solver\<close>: the questions of class \<^verbatim>\<open>Solver\<close> (\<^verbatim>\<open>lib/Solver/Solver.cpp\<close>) and the solvers that wrap others
    (\<^verbatim>\<open>DummySolver.cpp\<close>, \<^verbatim>\<open>IncompleteSolver.cpp\<close>, \<^verbatim>\<open>CachingSolver.cpp\<close>, \<^verbatim>\<open>ValidatingSolver.cpp\<close>), over a record of
    the four functions of a \<^verbatim>\<open>SolverImpl\<close> that pass their state along; \<open>SolverSound\<close>: what a solver promises, as the locales
    \<open>honest_solver\<close>, \<open>safe_solver\<close> and \<open>total_solver\<close>, and what the questions answer over such a solver;
    \<open>SolverChain\<close>: every wrapper keeps the contract. \<^verbatim>\<open>getRange\<close> is exact (C34), the cache is transparent (C35), a staged solver
    answers every question (C36), the validating solver lets no wrong answer through (C37).
  \<^item> \<open>ExprEvaluator\<close>: assignments and the evaluation of expressions (\<^verbatim>\<open>lib/Expr/ExprVisitor.cpp\<close>,
    \<^verbatim>\<open>ExprEvaluator.cpp\<close>, \<^verbatim>\<open>include/klee/util/Assignment.h\<close>): it computes the value of the expression (C38).
  \<^item> \<open>Independence\<close>: the independent solver (\<^verbatim>\<open>lib/Solver/IndependentSolver.cpp\<close>, \<^verbatim>\<open>findReads\<close> of
    \<^verbatim>\<open>lib/Expr/ExprUtil.cpp\<close>), which passes on only the constraints that share bytes with the query; \<open>IndependenceSound\<close>: the
    value of an expression depends only on the bytes in its element set, so the answers stay right (C39);
    \<open>IndependentValues\<close>: counterexamples of the factors of a query fit together to one of the query (C40).

  \<^bold>\<open>Conventions.\<close> A failed assertion, an abort and the use of a deleted object are \<^term>\<open>None\<close>.
  Reference counts are not modelled: expressions are values. Pointers that are compared or dereferenced (arrays,
  execution states, records, instruction infos) are numbers into a heap or addresses. Solver answers are
  parameters; what a theorem needs of them is a hypothesis. All loops of the code are structural or
  have a termination proof; \<open>run_loop\<close> consumes a list of instructions, and C16 says how many of them end a
  speculation; \<open>call_pointer\<close> consumes the list of values the solver gives for a function pointer.

  \<^bold>\<open>Not modelled.\<close> The LLVM front end and what single instructions do to registers and
  memory; the external solvers (STP is a parameter, the builders for Z3 and metaSMT are left out); parsing and printing of
  queries; the POSIX runtime, the command line tools and the benchmarks. In the executor: seeds, replay, state
  merging, the memory limit and timers, \<^verbatim>\<open>va_start\<close>, searchers other than depth-first, weights (floating point), statistics and test case output; options are at their defaults
  except for those in \<open>spec_config\<close>.
\<close>

end
